(* ===== verification/Prelude.thy ===== *)
theory Prelude
  imports Main "HOL-Library.Monad_Syntax"
begin

text \<open>
  Shared vocabulary of the development.

  \<^item> \<open>size_t\<close> values are modelled as natural numbers below \<open>2 ^ 64\<close>; \<open>npos\<close> is the
    code's \<open>size_t(-1)\<close>.  Subtractions of the code are written with the subtraction of
    \<open>nat\<close> only where a lemma shows that the minuend is not smaller.
  \<^item> \<open>add_off\<close> is the code's addition of a signed \<open>ptrdiff_t\<close> to a \<open>size_t\<close>.
  \<^item> \<open>lower_bound\<close> is \<open>std::lower_bound\<close> on a partitioned sequence: the offset of the first
    element for which the comparison fails.
  \<^item> \<open>span\<close> is the set of indices of a list of half-open ranges, \<open>ranges_ok\<close> the order the
    ranges are kept in: nonempty, ascending and never touching.
\<close>

named_theorems span_simps \<open>the set of indices of a list of ranges\<close>

text \<open>Iterators are pairs; quantifiers over them are kept whole.\<close>

declare split_paired_Ex [simp del] split_paired_All [simp del]

type_synonym size_t = nat
type_synonym range = "size_t \<times> size_t"

definition npos :: size_t where
  "npos = 2 ^ 64 - 1"

definition add_off :: "size_t \<Rightarrow> int \<Rightarrow> size_t" where
  "add_off n k = nat (int n + k)"

definition lower_bound :: "('a \<Rightarrow> bool) \<Rightarrow> 'a list \<Rightarrow> nat" where
  "lower_bound lt xs = length (takeWhile lt xs)"

definition range_len :: "range \<Rightarrow> size_t" where
  "range_len r = snd r - fst r"

lemma add_off_int [simp]: "add_off n (int k) = n + k"
  by (simp add: add_off_def nat_int_add)

lemma add_off_0 [simp]: "add_off n 0 = n"
  by (simp add: add_off_def)

lemma add_off_m1 [simp]: "add_off n (- 1) = n - 1"
  by (simp add: add_off_def)

lemma add_off_1 [simp]: "add_off n 1 = Suc n"
  by (simp add: add_off_def)

lemma lower_bound_le [simp]: "lower_bound p xs \<le> length xs"
  by (simp add: lower_bound_def length_takeWhile_le)

lemma take_lower_bound [simp]: "take (lower_bound p xs) xs = takeWhile p xs"
  by (simp add: lower_bound_def flip: takeWhile_eq_take)

lemma drop_lower_bound [simp]: "drop (lower_bound p xs) xs = dropWhile p xs"
  by (simp add: lower_bound_def flip: dropWhile_eq_drop)

section \<open>Lists of ranges\<close>

definition span :: "range list \<Rightarrow> size_t set" where
  "span rs = (\<Union>(a, b) \<in> set rs. {a..<b})"

fun ranges_ok :: "range list \<Rightarrow> bool" where
  "ranges_ok [] = True"
| "ranges_ok [(a, b)] = (a < b)"
| "ranges_ok ((a, b) # (c, d) # rs) = (a < b \<and> b < c \<and> ranges_ok ((c, d) # rs))"

lemma span_Nil [simp, span_simps]: "span [] = {}"
  by (simp add: span_def)

lemma span_Cons [simp, span_simps]: "span (r # rs) = {fst r..<snd r} \<union> span rs"
  by (cases r) (auto simp: span_def)

lemma span_append [simp, span_simps]: "span (rs @ ss) = span rs \<union> span ss"
  by (auto simp: span_def)

lemma finite_span [simp]: "finite (span rs)"
  by (auto simp: span_def)

lemma ranges_ok_Cons:
  "ranges_ok (r # rs) \<longleftrightarrow> fst r < snd r \<and> (\<forall>s \<in> set rs. snd r < fst s) \<and> ranges_ok rs"
proof (induction rs arbitrary: r)
  case Nil
  then show ?case by (cases r) simp
next
  case (Cons s rs)
  show ?case using Cons.IH [of s] by (cases r; cases s) force
qed

lemma ranges_ok_append:
  "ranges_ok (rs @ ss) \<longleftrightarrow>
     ranges_ok rs \<and> ranges_ok ss \<and> (\<forall>r \<in> set rs. \<forall>s \<in> set ss. snd r < fst s)"
  by (induction rs) (auto simp: ranges_ok_Cons)

lemma ranges_ok_ConsD [dest]: "ranges_ok (r # rs) \<Longrightarrow> ranges_ok rs"
  by (simp add: ranges_ok_Cons)

lemma ranges_ok_nonempty: "ranges_ok rs \<Longrightarrow> r \<in> set rs \<Longrightarrow> fst r < snd r"
  by (induction rs) (auto simp: ranges_ok_Cons)

lemma span_empty_iff: "ranges_ok rs \<Longrightarrow> span rs = {} \<longleftrightarrow> rs = []"
  by (cases rs) (auto simp: ranges_ok_Cons)

lemma span_ge: "ranges_ok (r # rs) \<Longrightarrow> i \<in> span rs \<Longrightarrow> snd r < i"
  by (fastforce simp: span_def ranges_ok_Cons)

lemma span_Min_le: "ranges_ok (r # rs) \<Longrightarrow> i \<in> span (r # rs) \<Longrightarrow> fst r \<le> i"
  using span_ge [of r rs i] by (auto simp: ranges_ok_Cons)

section \<open>Membership, cardinalities and shifting on index sets\<close>

definition rank :: "size_t set \<Rightarrow> size_t \<Rightarrow> size_t" where
  "rank S i = card (S \<inter> {..<i})"

text \<open>\<open>unshift_in S i\<close>: the position of \<open>i\<close> once the indices in \<open>S\<close> are deleted.\<close>

definition unshift_in :: "size_t set \<Rightarrow> size_t \<Rightarrow> size_t" where
  "unshift_in S i = i - rank S i"

lemma rank_le: "rank S i \<le> i"
proof -
  have "card (S \<inter> {..<i}) \<le> card {..<i}" by (rule card_mono) auto
  then show ?thesis by (simp add: rank_def)
qed

lemma rank_0 [simp]: "rank S 0 = 0"
  by (simp add: rank_def)

lemma rank_empty [simp]: "rank {} i = 0"
  by (simp add: rank_def)

lemma rank_Suc: "rank S (Suc i) = (if i \<in> S then Suc (rank S i) else rank S i)"
  by (simp add: rank_def lessThan_Suc Int_insert_right)

lemma rank_mono: "i \<le> j \<Longrightarrow> rank S i \<le> rank S j"
  by (auto simp: rank_def intro: card_mono)

lemma rank_add: "rank S (i + k) \<le> rank S i + k"
  by (induction k) (auto simp: rank_Suc)

lemma rank_Un: "finite S \<Longrightarrow> finite T \<Longrightarrow> S \<inter> T = {} \<Longrightarrow> rank (S \<union> T) i = rank S i + rank T i"
  unfolding rank_def Int_Un_distrib2 by (rule card_Un_disjoint) auto

lemma rank_interval: "rank {a..<b} i = min b i - a"
proof -
  have "{a..<b} \<inter> {..<i} = {a..<min b i}" by auto
  then show ?thesis by (simp add: rank_def)
qed

lemma rank_all: "finite S \<Longrightarrow> S \<subseteq> {..<i} \<Longrightarrow> rank S i = card S"
  by (simp add: rank_def inf.absorb1)

lemma rank_none: "S \<subseteq> {i..} \<Longrightarrow> rank S i = 0"
proof -
  assume "S \<subseteq> {i..}"
  then have "S \<inter> {..<i} = {}" by auto
  then show ?thesis by (simp add: rank_def)
qed

lemma unshift_in_0 [simp]: "unshift_in S 0 = 0"
  by (simp add: unshift_in_def)

lemma unshift_in_Suc:
  "unshift_in S (Suc i) = (if i \<in> S then unshift_in S i else Suc (unshift_in S i))"
  using rank_le [of S i] by (auto simp: unshift_in_def rank_Suc)

lemma unshift_in_mono: "i \<le> j \<Longrightarrow> unshift_in S i \<le> unshift_in S j"
  by (induction rule: dec_induct) (auto simp: unshift_in_Suc)

lemma unshift_in_strict: "i < j \<Longrightarrow> i \<notin> S \<Longrightarrow> unshift_in S i < unshift_in S j"
  using unshift_in_mono [of "Suc i" j S] by (simp add: unshift_in_Suc)

lemma unshift_in_inj: "i \<notin> S \<Longrightarrow> j \<notin> S \<Longrightarrow> unshift_in S i = unshift_in S j \<Longrightarrow> i = j"
  by (metis linorder_neqE_nat nat_less_le unshift_in_strict)

text \<open>\<open>shift_in S k\<close>: the \<open>k\<close>-th index outside \<open>S\<close>, its position once \<open>S\<close> has been inserted.\<close>

definition shift_in :: "size_t set \<Rightarrow> size_t \<Rightarrow> size_t" where
  "shift_in S k = (LEAST i. i \<notin> S \<and> unshift_in S i = k)"

lemma unshift_in_surj:
  assumes "finite S"
  shows "\<exists>i. i \<notin> S \<and> unshift_in S i = k"
proof -
  have big: "\<exists>i. k < unshift_in S i"
  proof -
    have "rank S (k + card S + 1) \<le> card S"
      unfolding rank_def by (rule card_mono) (use assms in auto)
    then have "k < unshift_in S (k + card S + 1)"
      by (simp add: unshift_in_def)
    then show ?thesis by blast
  qed
  define m where "m = (LEAST i. k < unshift_in S i)"
  have m: "k < unshift_in S m" unfolding m_def by (rule LeastI_ex [OF big])
  then obtain n where n: "m = Suc n" by (cases m) auto
  have "\<not> k < unshift_in S n"
    using not_less_Least [of n "\<lambda>i. k < unshift_in S i"] n by (auto simp: m_def)
  with m n have "n \<notin> S" "unshift_in S n = k"
    by (auto simp: unshift_in_Suc split: if_splits)
  then show ?thesis by blast
qed

lemma shift_in_spec:
  assumes "finite S"
  shows "shift_in S k \<notin> S \<and> unshift_in S (shift_in S k) = k"
  unfolding shift_in_def by (rule LeastI_ex [OF unshift_in_surj [OF assms]])

lemma shift_in_eqI:
  assumes "finite S" "i \<notin> S" "unshift_in S i = k"
  shows "shift_in S k = i"
  using shift_in_spec [OF assms(1), of k] assms unshift_in_inj by metis

lemma shift_in_unshift_in: "finite S \<Longrightarrow> i \<notin> S \<Longrightarrow> shift_in S (unshift_in S i) = i"
  by (rule shift_in_eqI) auto

lemma shift_in_strict_mono:
  assumes "finite S" "j < k"
  shows "shift_in S j < shift_in S k"
proof (rule ccontr)
  assume "\<not> ?thesis"
  then have "unshift_in S (shift_in S k) \<le> unshift_in S (shift_in S j)"
    by (intro unshift_in_mono) simp
  then show False using assms by (simp add: shift_in_spec)
qed

lemma shift_in_empty [simp]: "shift_in {} k = k"
  by (rule shift_in_eqI) (auto simp: unshift_in_def)

end
