(* ===== verification/Range_Vector.thy ===== *)
theory Range_Vector
  imports Prelude
begin

text \<open>
  \<open>ChunkedRangeVector\<close> of \<open>index_set.hpp\<close> and \<open>index_set.cpp\<close>: a list of half-open ranges stored in
  chunks of at most \<open>max_size\<close> ranges, each chunk caching its first index, its end and the number of
  indices it holds.  \<open>max_size\<close> is a parameter \<open>K\<close>: the code fixes it to 4 in debug builds and to
  256 in release builds.

  An iterator is the pair of an outer position (index of the chunk) and an offset in the chunk;
  the end iterator is \<open>(number of chunks, 0)\<close>, the code's null \<open>m_inner\<close>.  \<open>cursor K d it B A\<close> is the
  abstraction the clients use: \<open>it\<close> stands between the ranges \<open>B\<close> and the ranges \<open>A\<close> of a
  well-formed vector \<open>d\<close>.  The locale \<open>range_cursor\<close> states what each primitive does to it; the
  interpretation \<open>rv\<close> proves these laws for the chunked vector.
\<close>

section \<open>Chunks and iterators\<close>

record chunk =
  chunk_data :: "range list"
  chunk_begin :: size_t
  chunk_end :: size_t
  chunk_count :: size_t

type_synonym chunks = "chunk list"
type_synonym iter = "nat \<times> nat"

definition max_size_debug :: nat where
  "max_size_debug = 4"

definition max_size_release :: nat where
  "max_size_release = 4096 div 16"

definition it_begin :: "chunks \<Rightarrow> iter" where
  "it_begin d = (if d = [] then (length d, 0) else (0, 0))"

definition it_end :: "chunks \<Rightarrow> iter" where
  "it_end d = (length d, 0)"

text \<open>\<open>it == end()\<close>: an iterator is at the end exactly when its outer position is.\<close>

definition at_end :: "chunks \<Rightarrow> iter \<Rightarrow> bool" where
  "at_end d it \<longleftrightarrow> length d \<le> fst it"

definition it_deref :: "chunks \<Rightarrow> iter \<Rightarrow> range" where
  "it_deref d it = chunk_data (d ! fst it) ! snd it"

definition next_chunk :: "iter \<Rightarrow> iter" where
  "next_chunk it = (Suc (fst it), 0)"

definition it_next :: "chunks \<Rightarrow> iter \<Rightarrow> iter" where
  "it_next d it =
     (if length (chunk_data (d ! fst it)) \<le> Suc (snd it) then next_chunk it
      else (fst it, Suc (snd it)))"

definition it_prev :: "chunks \<Rightarrow> iter \<Rightarrow> iter" where
  "it_prev d it =
     (if snd it = 0
      then (fst it - 1, length (chunk_data (d ! (fst it - 1))) - 1)
      else (fst it, snd it - 1))"

text \<open>\<open>MutableChunkedRangeVectorIterator\<close>: \<open>set\<close>, \<open>adjust\<close> and \<open>shift\<close>.\<close>

definition it_set :: "chunks \<Rightarrow> iter \<Rightarrow> size_t \<Rightarrow> size_t \<Rightarrow> chunks" where
  "it_set d it front back =
     (let c = d ! fst it; r = chunk_data c ! snd it
      in d[fst it := c\<lparr>
           chunk_count := chunk_count c - (snd r - fst r) + (back - front),
           chunk_begin := (if snd it = 0 then front else chunk_begin c),
           chunk_end := (if Suc (snd it) = length (chunk_data c) then back else chunk_end c),
           chunk_data := (chunk_data c)[snd it := (front, back)]\<rparr>])"

definition it_adjust :: "chunks \<Rightarrow> iter \<Rightarrow> int \<Rightarrow> int \<Rightarrow> chunks" where
  "it_adjust d it front back =
     (let c = d ! fst it; r = chunk_data c ! snd it
      in d[fst it := c\<lparr>
           chunk_begin := (if snd it = 0 then add_off (chunk_begin c) front else chunk_begin c),
           chunk_end := (if Suc (snd it) = length (chunk_data c)
                         then add_off (chunk_end c) back else chunk_end c),
           chunk_count := add_off (chunk_count c) (- front + back),
           chunk_data := (chunk_data c)[snd it := (add_off (fst r) front, add_off (snd r) back)]\<rparr>])"

definition it_shift :: "chunks \<Rightarrow> iter \<Rightarrow> int \<Rightarrow> chunks" where
  "it_shift d it distance =
     (let c = d ! fst it; r = chunk_data c ! snd it
      in d[fst it := c\<lparr>
           chunk_begin := (if snd it = 0 then add_off (chunk_begin c) distance else chunk_begin c),
           chunk_end := (if Suc (snd it) = length (chunk_data c)
                         then add_off (chunk_end c) distance else chunk_end c),
           chunk_data := (chunk_data c)[snd it :=
             (add_off (fst r) distance, add_off (snd r) distance)]\<rparr>])"

section \<open>Insertion and erasure\<close>

text \<open>A failed \<open>REALM_ASSERT\<close> terminates the process: the result \<open>None\<close>.\<close>

definition push_back :: "nat \<Rightarrow> chunks \<Rightarrow> range \<Rightarrow> chunks option" where
  "push_back K d v =
     (if d \<noteq> [] \<and> length (chunk_data (last d)) < K
      then let c = last d
           in if chunk_end c \<le> fst v
              then Some (butlast d @ [c\<lparr>chunk_data := chunk_data c @ [v],
                                        chunk_count := chunk_count c + (snd v - fst v),
                                        chunk_end := snd v\<rparr>])
              else None
      else Some (d @ [\<lparr>chunk_data = [v], chunk_begin = fst v, chunk_end = snd v,
                       chunk_count = snd v - fst v\<rparr>]))"

definition ensure_space :: "nat \<Rightarrow> chunks \<Rightarrow> iter \<Rightarrow> chunks \<times> iter" where
  "ensure_space K d pos =
     (let c = d ! fst pos; offset = snd pos
      in if length (chunk_data c) + 1 \<le> K then (d, pos)
         else let to_move = K div 2;
                  keep = length (chunk_data c) - to_move;
                  kept = take keep (chunk_data c);
                  moved = drop keep (chunk_data c);
                  moved_count = sum_list (map (\<lambda>r. snd r - fst r) moved);
                  prev = c\<lparr>chunk_data := kept, chunk_end := snd (last kept),
                           chunk_count := chunk_count c - moved_count\<rparr>;
                  new_chunk = \<lparr>chunk_data = moved, chunk_begin = fst (hd moved),
                               chunk_end = snd (last moved), chunk_count = moved_count\<rparr>
              in (take (fst pos) d @ prev # new_chunk # drop (Suc (fst pos)) d,
                  if to_move \<le> offset then (Suc (fst pos), offset - to_move)
                  else (fst pos, offset)))"

definition rv_insert :: "nat \<Rightarrow> chunks \<Rightarrow> iter \<Rightarrow> range \<Rightarrow> (chunks \<times> iter) option" where
  "rv_insert K d pos v =
     (if at_end d pos
      then do { d' \<leftarrow> push_back K d v; Some (d', it_prev d' (it_end d')) }
      else let (d', pos') = ensure_space K d pos; c = d' ! fst pos'
           in Some (d'[fst pos' := c\<lparr>
                chunk_data := take (snd pos') (chunk_data c) @ v # drop (snd pos') (chunk_data c),
                chunk_count := chunk_count c + (snd v - fst v),
                chunk_begin := min (chunk_begin c) (fst v),
                chunk_end := max (chunk_end c) (snd v)\<rparr>], pos'))"

definition rv_erase :: "chunks \<Rightarrow> iter \<Rightarrow> chunks \<times> iter" where
  "rv_erase d pos =
     (let c = d ! fst pos; offset = snd pos; r = chunk_data c ! offset;
          rest = take offset (chunk_data c) @ drop (Suc offset) (chunk_data c)
      in if rest = [] then (take (fst pos) d @ drop (Suc (fst pos)) d, (fst pos, 0))
         else (d[fst pos := c\<lparr>chunk_count := chunk_count c - (snd r - fst r), chunk_data := rest,
                              chunk_begin := fst (hd rest), chunk_end := snd (last rest)\<rparr>],
               if offset < length rest then pos else (Suc (fst pos), 0)))"

section \<open>The code's own consistency check\<close>

definition flat :: "chunks \<Rightarrow> range list" where
  "flat d = concat (map chunk_data d)"

fun verify_ranges :: "size_t \<Rightarrow> range list \<Rightarrow> bool" where
  "verify_ranges prev_end [] = True"
| "verify_ranges prev_end (r # rs) =
     (fst r < snd r \<and> (prev_end = npos \<or> prev_end < fst r) \<and> verify_ranges (snd r) rs)"

definition verify_chunk :: "chunk \<Rightarrow> bool" where
  "verify_chunk c \<longleftrightarrow>
     chunk_data c \<noteq> [] \<and>
     fst (hd (chunk_data c)) = chunk_begin c \<and>
     snd (last (chunk_data c)) = chunk_end c \<and>
     chunk_count c \<le> chunk_end c - chunk_begin c \<and>
     sum_list (map (\<lambda>r. snd r - fst r) (chunk_data c)) = chunk_count c"

definition verify :: "chunks \<Rightarrow> bool" where
  "verify d \<longleftrightarrow> verify_ranges npos (flat d) \<and> list_all verify_chunk d"

section \<open>Well-formed vectors and cursors\<close>

definition chunk_ok :: "nat \<Rightarrow> chunk \<Rightarrow> bool" where
  "chunk_ok K c \<longleftrightarrow>
     chunk_data c \<noteq> [] \<and> length (chunk_data c) \<le> K \<and>
     chunk_begin c = fst (hd (chunk_data c)) \<and> chunk_end c = snd (last (chunk_data c)) \<and>
     chunk_count c = sum_list (map (\<lambda>r. snd r - fst r) (chunk_data c)) \<and>
     (\<forall>r \<in> set (chunk_data c). fst r \<le> snd r)"

definition chunks_ok :: "nat \<Rightarrow> chunks \<Rightarrow> bool" where
  "chunks_ok K d \<longleftrightarrow> list_all (chunk_ok K) d"

definition it_valid :: "chunks \<Rightarrow> iter \<Rightarrow> bool" where
  "it_valid d it \<longleftrightarrow>
     it = it_end d \<or> fst it < length d \<and> snd it < length (chunk_data (d ! fst it))"

definition it_before :: "chunks \<Rightarrow> iter \<Rightarrow> range list" where
  "it_before d it =
     flat (take (fst it) d) @
     (if at_end d it then [] else take (snd it) (chunk_data (d ! fst it)))"

definition it_after :: "chunks \<Rightarrow> iter \<Rightarrow> range list" where
  "it_after d it =
     (if at_end d it then []
      else drop (snd it) (chunk_data (d ! fst it)) @ flat (drop (Suc (fst it)) d))"

definition cursor :: "nat \<Rightarrow> chunks \<Rightarrow> iter \<Rightarrow> range list \<Rightarrow> range list \<Rightarrow> bool" where
  "cursor K d it B A \<longleftrightarrow>
     chunks_ok K d \<and> it_valid d it \<and> it_before d it = B \<and> it_after d it = A"

lemma flat_Nil [simp]: "flat [] = []"
  by (simp add: flat_def)

lemma flat_Cons [simp]: "flat (c # d) = chunk_data c @ flat d"
  by (simp add: flat_def)

lemma flat_append [simp]: "flat (d @ e) = flat d @ flat e"
  by (simp add: flat_def)

lemma chunks_ok_Nil [simp]: "chunks_ok K []"
  by (simp add: chunks_ok_def)

lemma chunks_ok_Cons [simp]: "chunks_ok K (c # d) \<longleftrightarrow> chunk_ok K c \<and> chunks_ok K d"
  by (simp add: chunks_ok_def)

lemma chunks_ok_append [simp]: "chunks_ok K (d @ e) \<longleftrightarrow> chunks_ok K d \<and> chunks_ok K e"
  by (simp add: chunks_ok_def)

lemma chunk_ok_data: "chunk_ok K c \<Longrightarrow> chunk_data c \<noteq> []"
  by (simp add: chunk_ok_def)

lemma flat_eq_Nil_iff: "chunks_ok K d \<Longrightarrow> flat d = [] \<longleftrightarrow> d = []"
  by (cases d) (auto simp: chunk_ok_def)

lemma cursor_ok: "cursor K d it B A \<Longrightarrow> chunks_ok K d"
  by (simp add: cursor_def)

lemma cursor_flat: "cursor K d it B A \<Longrightarrow> flat d = B @ A"
proof -
  assume c: "cursor K d it B A"
  then consider "it = it_end d" | "fst it < length d" by (auto simp: cursor_def it_valid_def)
  then show ?thesis
  proof cases
    case 1
    with c show ?thesis by (auto simp: cursor_def it_before_def it_after_def at_end_def it_end_def)
  next
    case 2
    then have "flat d = flat (take (fst it) d @ d ! fst it # drop (Suc (fst it)) d)"
      by (simp flip: id_take_nth_drop)
    with c 2 show ?thesis
      by (auto simp: cursor_def it_before_def it_after_def at_end_def)
  qed
qed

lemma cursorI:
  assumes "chunks_ok K P" "chunk_ok K c" "chunks_ok K S" "chunk_data c = xs @ r # ys"
  shows "cursor K (P @ c # S) (length P, length xs) (flat P @ xs) (r # ys @ flat S)"
  using assms
  by (simp add: cursor_def it_valid_def it_before_def it_after_def at_end_def)

lemma cursor_end_I: "chunks_ok K d \<Longrightarrow> cursor K d (it_end d) (flat d) []"
  by (simp add: cursor_def it_valid_def it_before_def it_after_def at_end_def it_end_def)

lemma cursorE:
  assumes "cursor K d it B (r # A)"
  obtains P c S xs ys where
    "d = P @ c # S" "it = (length P, length xs)" "chunk_data c = xs @ r # ys"
    "B = flat P @ xs" "A = ys @ flat S" "chunks_ok K P" "chunk_ok K c" "chunks_ok K S"
proof -
  obtain j i where it: "it = (j, i)" by (cases it)
  have "\<not> at_end d it" using assms by (auto simp: cursor_def it_after_def split: if_splits)
  then have j: "j < length d" by (simp add: at_end_def it)
  define P S where "P = take j d" and "S = drop (Suc j) d"
  have d: "d = P @ d ! j # S" using j by (simp add: P_def S_def flip: id_take_nth_drop)
  have lP: "length P = j" using j by (simp add: P_def)
  have i: "i < length (chunk_data (d ! j))"
    using assms j by (auto simp: cursor_def it_valid_def it it_end_def)
  have A: "r # A = drop i (chunk_data (d ! j)) @ flat S" and B: "B = flat P @ take i (chunk_data (d ! j))"
    using assms j by (auto simp: cursor_def it_before_def it_after_def at_end_def it P_def S_def)
  define xs ys where "xs = take i (chunk_data (d ! j))" and "ys = drop (Suc i) (chunk_data (d ! j))"
  have cd: "chunk_data (d ! j) = xs @ chunk_data (d ! j) ! i # ys"
    using i by (simp add: xs_def ys_def flip: id_take_nth_drop)
  have r: "chunk_data (d ! j) ! i = r" "A = ys @ flat S"
    using A i by (auto simp: ys_def Cons_nth_drop_Suc [symmetric])
  have ok: "chunks_ok K P" "chunk_ok K (d ! j)" "chunks_ok K S"
    using assms d by (metis chunks_ok_Cons chunks_ok_append cursor_def)+
  show ?thesis
    by (rule that [of P "d ! j" S xs ys]) (use d lP cd r B ok i in \<open>auto simp: it xs_def\<close>)
qed

section \<open>What each primitive does to a cursor\<close>

lemma cursor_chunk_start:
  assumes "chunks_ok K P" "chunks_ok K S"
  shows "cursor K (P @ S) (length P, 0) (flat P) (flat S)"
proof (cases S)
  case Nil
  then show ?thesis using cursor_end_I [OF assms(1)] by (simp add: it_end_def)
next
  case (Cons c S')
  with assms have "chunk_data c \<noteq> []" by (simp add: chunk_ok_def)
  then obtain r ys where "chunk_data c = [] @ r # ys" by (cases "chunk_data c") auto
  from cursorI [OF _ _ _ this, of K P S'] show ?thesis
    using assms Cons \<open>chunk_data c = [] @ r # ys\<close> by simp
qed

lemma cursor_at_end: "cursor K d it B A \<Longrightarrow> at_end d it \<longleftrightarrow> A = []"
  by (auto simp: cursor_def it_after_def at_end_def it_valid_def it_end_def)

lemma cursor_end_iff: "cursor K d it B A \<Longrightarrow> it = it_end d \<longleftrightarrow> A = []"
  by (auto simp: cursor_def it_after_def at_end_def it_valid_def it_end_def)

lemma cursor_begin: "chunks_ok K d \<Longrightarrow> cursor K d (it_begin d) [] (flat d)"
  using cursor_chunk_start [of K "[]" d] by (cases "d = []") (simp_all add: it_begin_def)

lemma cursor_at_endD:
  assumes "cursor K d it B []"
  shows "it = (length d, 0)" "flat d = B"
  using cursor_end_iff [OF assms] cursor_flat [OF assms] by (simp_all add: it_end_def)

lemma cursor_begin_iff:
  assumes "cursor K d it B A"
  shows "it = it_begin d \<longleftrightarrow> B = []"
proof (cases A)
  case Nil
  note e = cursor_at_endD [OF assms [unfolded Nil]]
  have "it = it_begin d \<longleftrightarrow> d = []" by (simp add: e(1) it_begin_def)
  also have "\<dots> \<longleftrightarrow> B = []" using flat_eq_Nil_iff [OF cursor_ok [OF assms]] e(2) by simp
  finally show ?thesis .
next
  case (Cons r A')
  from assms [unfolded Cons] obtain P c S xs where d: "d = P @ c # S" "it = (length P, length xs)"
    "B = flat P @ xs" "chunks_ok K P" by (rule cursorE)
  have "it = it_begin d \<longleftrightarrow> P = [] \<and> xs = []" by (simp add: d it_begin_def)
  also have "\<dots> \<longleftrightarrow> B = []" using flat_eq_Nil_iff [OF d(4)] d(3) by simp
  finally show ?thesis .
qed

lemma cursor_deref: "cursor K d it B (r # A) \<Longrightarrow> it_deref d it = r"
  by (elim cursorE) (simp add: it_deref_def)

lemma cursor_next:
  assumes "cursor K d it B (r # A)"
  shows "cursor K d (it_next d it) (B @ [r]) A"
proof -
  obtain P c S xs ys where d: "d = P @ c # S" "it = (length P, length xs)"
    "chunk_data c = xs @ r # ys" "B = flat P @ xs" "A = ys @ flat S"
    "chunks_ok K P" "chunk_ok K c" "chunks_ok K S" using assms by (elim cursorE)
  show ?thesis
  proof (cases ys)
    case Nil
    then show ?thesis using d cursor_chunk_start [of K "P @ [c]" S]
      by (simp add: it_next_def next_chunk_def)
  next
    case (Cons r' ys')
    then show ?thesis using d cursorI [of K P c S "xs @ [r]" r' ys']
      by (simp add: it_next_def)
  qed
qed

lemma cursor_last_chunk:
  assumes "chunks_ok K P" "flat P = B @ [r]"
  obtains P' c xs where "P = P' @ [c]" "chunk_data c = xs @ [r]" "B = flat P' @ xs"
proof -
  have "P \<noteq> []" using assms(2) by auto
  then obtain P' c where P: "P = P' @ [c]" by (metis append_butlast_last_id)
  with assms(1) have "chunk_data c \<noteq> []" by (simp add: chunk_ok_def)
  then obtain xs r' where "chunk_data c = xs @ [r']" by (metis append_butlast_last_id)
  with P assms(2) that show thesis by auto
qed

lemma cursor_prev:
  assumes "cursor K d it (B @ [r]) A"
  shows "cursor K d (it_prev d it) B (r # A)"
proof (cases A)
  case Nil
  note it = cursor_at_endD(1) [OF assms [unfolded Nil]]
    and fl = cursor_at_endD(2) [OF assms [unfolded Nil]]
  obtain P c xs where "d = P @ [c]" "chunk_data c = xs @ [r]" "B = flat P @ xs"
    using cursor_last_chunk [OF cursor_ok [OF assms] fl] by blast
  then show ?thesis using cursorI [of K P c "[]" xs r "[]"] cursor_ok [OF assms] it Nil
    by (simp add: it_prev_def)
next
  case (Cons s A')
  from assms [unfolded Cons] obtain P c S xs ys where d: "d = P @ c # S" "it = (length P, length xs)"
    "chunk_data c = xs @ s # ys" "B @ [r] = flat P @ xs" "A' = ys @ flat S"
    "chunks_ok K P" "chunk_ok K c" "chunks_ok K S" by (rule cursorE)
  show ?thesis
  proof (cases xs rule: rev_cases)
    case Nil
    with d have "flat P = B @ [r]" by simp
    then obtain P' c' xs' where "P = P' @ [c']" "chunk_data c' = xs' @ [r]" "B = flat P' @ xs'"
      using cursor_last_chunk [OF d(6)] by blast
    then show ?thesis using d Nil Cons cursorI [of K P' c' "c # S" xs' r "[]"]
      by (simp add: it_prev_def nth_append)
  next
    case (snoc xs' r')
    then show ?thesis using d Cons cursorI [of K P c S xs' r "s # ys"]
      by (simp add: it_prev_def)
  qed
qed

text \<open>Replacing the range under the cursor, with the chunk's caches updated as the code does.\<close>

lemma chunk_ok_replace:
  assumes "chunk_ok K c" "chunk_data c = xs @ r # ys" "a \<le> b"
    and c': "chunk_data c' = xs @ (a, b) # ys"
      "chunk_begin c' = (if xs = [] then a else chunk_begin c)"
      "chunk_end c' = (if ys = [] then b else chunk_end c)"
      "chunk_count c' = chunk_count c - (snd r - fst r) + (b - a)"
  shows "chunk_ok K c'"
  using assms by (cases xs; cases ys rule: rev_cases) (auto simp: chunk_ok_def)

lemma cursor_replace:
  assumes "cursor K d it B (r # A)" "a \<le> b"
    and "\<And>c. c = d ! fst it \<Longrightarrow> d' = d[fst it := upd c]"
    and "\<And>c. chunk_data (upd c) = (chunk_data c)[snd it := (a, b)]"
      "\<And>c. c = d ! fst it \<Longrightarrow> chunk_begin (upd c) = (if snd it = 0 then a else chunk_begin c)"
      "\<And>c. c = d ! fst it \<Longrightarrow>
         chunk_end (upd c) = (if Suc (snd it) = length (chunk_data c) then b else chunk_end c)"
      "\<And>c. c = d ! fst it \<Longrightarrow> chunk_count (upd c) = chunk_count c - (snd r - fst r) + (b - a)"
  shows "cursor K d' it B ((a, b) # A)"
proof -
  obtain P c S xs ys where d: "d = P @ c # S" "it = (length P, length xs)"
    "chunk_data c = xs @ r # ys" "B = flat P @ xs" "A = ys @ flat S"
    "chunks_ok K P" "chunk_ok K c" "chunks_ok K S" using assms(1) by (elim cursorE)
  have nth: "c = d ! fst it" using d by simp
  have "chunk_ok K (upd c)"
    by (rule chunk_ok_replace [OF d(7) d(3) assms(2)])
      (use d assms(4) assms(5-7) [OF nth] in auto)
  then have "cursor K (P @ upd c # S) (length P, length xs) (flat P @ xs) ((a, b) # ys @ flat S)"
    using d assms(4) by (intro cursorI) auto
  then show ?thesis using d assms(3) [OF nth] by simp
qed

lemma cursor_set:
  assumes "cursor K d it B (r # A)" "a \<le> b"
  shows "cursor K (it_set d it a b) it B ((a, b) # A)"
  using cursor_deref [OF assms(1)]
  by (intro cursor_replace [OF assms]) (auto simp: it_set_def it_deref_def Let_def)

lemma cursor_count_ge:
  assumes "cursor K d it B (r # A)"
  shows "snd r - fst r \<le> chunk_count (d ! fst it)"
    and "snd it = 0 \<Longrightarrow> chunk_begin (d ! fst it) = fst r"
    and "Suc (snd it) = length (chunk_data (d ! fst it)) \<Longrightarrow> chunk_end (d ! fst it) = snd r"
    and "fst r \<le> snd r"
  using assms by (auto elim!: cursorE simp: chunk_ok_def)

lemma cursor_adjust:
  assumes "cursor K d it B ((a, b) # A)" "0 \<le> int a + front" "int a + front \<le> int b + back"
  shows "cursor K (it_adjust d it front back) it B ((add_off a front, add_off b back) # A)"
proof (rule cursor_replace [OF assms(1)])
  show "add_off a front \<le> add_off b back" using assms(2,3) by (simp add: add_off_def)
  fix c assume c: "c = d ! fst it"
  note caches = cursor_count_ge [OF assms(1)]
  show "it_adjust d it front back = d[fst it := (let r = chunk_data c ! snd it in c\<lparr>
           chunk_begin := (if snd it = 0 then add_off (chunk_begin c) front else chunk_begin c),
           chunk_end := (if Suc (snd it) = length (chunk_data c)
                         then add_off (chunk_end c) back else chunk_end c),
           chunk_count := add_off (chunk_count c) (- front + back),
           chunk_data := (chunk_data c)[snd it := (add_off a front, add_off b back)]\<rparr>)]"
    using c cursor_deref [OF assms(1)] by (simp add: it_adjust_def it_deref_def Let_def)
  show "chunk_count (let r = chunk_data c ! snd it in c\<lparr>
           chunk_begin := (if snd it = 0 then add_off (chunk_begin c) front else chunk_begin c),
           chunk_end := (if Suc (snd it) = length (chunk_data c)
                         then add_off (chunk_end c) back else chunk_end c),
           chunk_count := add_off (chunk_count c) (- front + back),
           chunk_data := (chunk_data c)[snd it := (add_off a front, add_off b back)]\<rparr>) =
       chunk_count c - (snd (a, b) - fst (a, b)) + (add_off b back - add_off a front)"
    using assms(2,3) caches(1,4) c by (simp add: add_off_def Let_def)
qed (use cursor_count_ge [OF assms(1)] in \<open>auto simp: Let_def\<close>)

lemma cursor_shift:
  assumes "cursor K d it B ((a, b) # A)" "0 \<le> int a + k"
  shows "cursor K (it_shift d it k) it B ((add_off a k, add_off b k) # A)"
proof -
  have eq: "it_shift d it k = it_adjust d it k k"
    by (simp add: it_shift_def it_adjust_def Let_def)
  show ?thesis unfolding eq
    by (rule cursor_adjust [OF assms]) (use cursor_count_ge(4) [OF assms(1)] in simp)
qed

lemma chunk_ok_remove:
  assumes "chunk_ok K c" "chunk_data c = xs @ r # ys" "xs @ ys \<noteq> []"
    and "chunk_data c' = xs @ ys" "chunk_begin c' = fst (hd (xs @ ys))"
      "chunk_end c' = snd (last (xs @ ys))" "chunk_count c' = chunk_count c - (snd r - fst r)"
  shows "chunk_ok K c'"
  using assms by (simp add: chunk_ok_def)

lemma cursor_erase:
  assumes "cursor K d it B (r # A)"
  shows "cursor K (fst (rv_erase d it)) (snd (rv_erase d it)) B A"
proof -
  from assms obtain P c S xs ys where d: "d = P @ c # S" "it = (length P, length xs)"
    "chunk_data c = xs @ r # ys" "B = flat P @ xs" "A = ys @ flat S"
    "chunks_ok K P" "chunk_ok K c" "chunks_ok K S" by (rule cursorE)
  show ?thesis
  proof (cases "xs @ ys = []")
    case True
    then show ?thesis using d cursor_chunk_start [of K P S] by (simp add: rv_erase_def Let_def)
  next
    case False
    define c' where "c' = c\<lparr>chunk_count := chunk_count c - (snd r - fst r),
      chunk_data := xs @ ys, chunk_begin := fst (hd (xs @ ys)), chunk_end := snd (last (xs @ ys))\<rparr>"
    have ok: "chunk_ok K c'"
      by (rule chunk_ok_remove [OF d(7,3) False]) (simp_all add: c'_def)
    have e: "rv_erase d it =
        (P @ c' # S, if ys = [] then (Suc (length P), 0) else (length P, length xs))"
      using False by (simp add: rv_erase_def Let_def d(1-3) c'_def)
    show ?thesis
    proof (cases ys)
      case Nil
      then show ?thesis using d e ok cursor_chunk_start [of K "P @ [c']" S] by (simp add: c'_def)
    next
      case (Cons r' ys')
      then show ?thesis using d e ok cursorI [of K P c' S xs r' ys'] by (simp add: c'_def)
    qed
  qed
qed

lemma sum_len_append:
  "chunk_ok K c \<Longrightarrow> chunk_data c = xs @ ys \<Longrightarrow>
     chunk_count c - sum_list (map (\<lambda>r. snd r - fst r) ys) = sum_list (map (\<lambda>r. snd r - fst r) xs)"
  by (simp add: chunk_ok_def)

lemma cursor_ensure_space:
  assumes "cursor K d it B (r # A)" "even K" "0 < K"
  shows "cursor K (fst (ensure_space K d it)) (snd (ensure_space K d it)) B (r # A) \<and>
    length (chunk_data (fst (ensure_space K d it) ! fst (snd (ensure_space K d it)))) < K"
proof -
  from assms(1) obtain P c S xs ys where d: "d = P @ c # S" "it = (length P, length xs)"
    "chunk_data c = xs @ r # ys" "B = flat P @ xs" "A = ys @ flat S"
    "chunks_ok K P" "chunk_ok K c" "chunks_ok K S" by (rule cursorE)
  show ?thesis
  proof (cases "length (chunk_data c) < K")
    case True
    then show ?thesis using assms(1) d by (simp add: ensure_space_def)
  next
    case False
    define h where "h = K div 2"
    have len: "length (chunk_data c) = K" using False d(7) by (simp add: chunk_ok_def)
    have h: "K = h + h" "0 < h" using assms(2,3) by (auto simp: h_def)
    have Kh: "K - h = h" using h(1) by simp
    define c1 where "c1 = c\<lparr>chunk_data := take h (chunk_data c),
      chunk_end := snd (last (take h (chunk_data c))),
      chunk_count := chunk_count c - sum_list (map (\<lambda>r. snd r - fst r) (drop h (chunk_data c)))\<rparr>"
    define c2 where "c2 = \<lparr>chunk_data = drop h (chunk_data c),
      chunk_begin = fst (hd (drop h (chunk_data c))), chunk_end = snd (last (drop h (chunk_data c))),
      chunk_count = sum_list (map (\<lambda>r. snd r - fst r) (drop h (chunk_data c)))\<rparr>"
    have ok1: "chunk_ok K c1"
      using d(7) len h sum_len_append [OF d(7), of "take h (chunk_data c)" "drop h (chunk_data c)"]
      by (auto simp: chunk_ok_def c1_def dest: in_set_takeD)
    have ok2: "chunk_ok K c2"
      using d(7) len h by (auto simp: chunk_ok_def c2_def dest: in_set_dropD)
    have e: "ensure_space K d it = (P @ c1 # c2 # S,
        if h \<le> length xs then (Suc (length P), length xs - h) else (length P, length xs))"
      using len Kh by (simp add: ensure_space_def Let_def d(1,2) c1_def c2_def flip: h_def)
    show ?thesis
    proof (cases "h \<le> length xs")
      case True
      have "cursor K ((P @ [c1]) @ c2 # S) (length (P @ [c1]), length (drop h xs))
          (flat (P @ [c1]) @ drop h xs) (r # ys @ flat S)"
        using d ok1 ok2 True by (intro cursorI) (auto simp: c2_def)
      moreover have "flat (P @ [c1]) @ drop h xs = B"
        using True by (simp add: c1_def d(3,4))
      moreover have "(P @ c1 # c2 # S) ! Suc (length P) = c2" by (simp add: nth_append)
      moreover have "length (chunk_data c2) < K" using h len by (simp add: c2_def)
      ultimately show ?thesis using e True d(2,5) by simp
    next
      case False
      then have "take h (chunk_data c) = xs @ r # take (h - Suc (length xs)) ys"
        and dr: "drop h (chunk_data c) = drop (h - Suc (length xs)) ys"
        by (simp_all add: d(3) take_Cons' drop_Cons')
      then have "cursor K (P @ c1 # c2 # S) (length P, length xs) (flat P @ xs)
          (r # take (h - Suc (length xs)) ys @ flat (c2 # S))"
        using d ok1 ok2 by (intro cursorI) (auto simp: c1_def)
      moreover have "take (h - Suc (length xs)) ys @ flat (c2 # S) = A"
        by (simp add: c2_def dr d(5))
      moreover have "length (chunk_data c1) < K" using h len by (simp add: c1_def)
      ultimately show ?thesis using e False d(2,4) by simp
    qed
  qed
qed

definition fits_between :: "range list \<Rightarrow> range \<Rightarrow> range list \<Rightarrow> bool" where
  "fits_between B v A \<longleftrightarrow>
     fst v \<le> snd v \<and> (\<forall>r \<in> set B. snd r \<le> fst v) \<and> (\<forall>r \<in> set A. snd v \<le> fst r)"

lemma chunk_ok_add:
  assumes "chunk_ok K c" "chunk_data c = xs @ r # ys" "length (chunk_data c) < K"
    and "fits_between xs v (r # ys)"
  shows "chunk_ok K (c\<lparr>chunk_data := xs @ v # r # ys,
    chunk_count := chunk_count c + (snd v - fst v),
    chunk_begin := min (chunk_begin c) (fst v), chunk_end := max (chunk_end c) (snd v)\<rparr>)"
proof -
  have le: "\<forall>s \<in> set (xs @ r # ys). fst s \<le> snd s" using assms(1,2) by (simp add: chunk_ok_def)
  have "min (chunk_begin c) (fst v) = fst (hd (xs @ v # r # ys))"
    using assms le by (cases xs) (auto simp: chunk_ok_def fits_between_def intro: order_trans)
  moreover have "max (chunk_end c) (snd v) = snd (last (r # ys))"
  proof -
    have "last (r # ys) \<in> set (r # ys)" by (rule last_in_set) simp
    then have "snd v \<le> fst (last (r # ys))" "fst (last (r # ys)) \<le> snd (last (r # ys))"
      using assms(4) le by (simp_all add: fits_between_def)
    then show ?thesis using assms(1,2) by (simp add: chunk_ok_def)
  qed
  ultimately show ?thesis using assms le by (simp add: chunk_ok_def fits_between_def)
qed

lemma push_back_cursor:
  assumes "chunks_ok K d" "fits_between (flat d) v []" "0 < K"
  shows "\<exists>d'. push_back K d v = Some d' \<and> cursor K d' (it_prev d' (it_end d')) (flat d) [v]"
proof -
  have "\<exists>d'. push_back K d v = Some d' \<and> chunks_ok K d' \<and> flat d' = flat d @ [v]"
  proof (cases "d \<noteq> [] \<and> length (chunk_data (last d)) < K")
    case True
    then obtain P c where d: "d = P @ [c]" by (metis append_butlast_last_id)
    with assms have "chunk_ok K c" "last (chunk_data c) \<in> set (flat d)"
      by (auto simp: chunk_ok_def)
    then have "chunk_end c \<le> fst v" using assms(2) by (auto simp: chunk_ok_def fits_between_def)
    then show ?thesis using True d assms by (auto simp: push_back_def Let_def chunk_ok_def fits_between_def)
  next
    case False
    then have "push_back K d v = Some (d @ [\<lparr>chunk_data = [v], chunk_begin = fst v,
        chunk_end = snd v, chunk_count = snd v - fst v\<rparr>])"
      by (simp only: push_back_def if_False)
    then show ?thesis using assms by (simp add: chunk_ok_def fits_between_def)
  qed
  then obtain d' where d': "push_back K d v = Some d'" "chunks_ok K d'" "flat d' = flat d @ [v]"
    by blast
  have "cursor K d' (it_end d') (flat d @ [v]) []"
    using cursor_end_I [OF d'(2)] d'(3) by simp
  with d'(1) show ?thesis by (blast intro: cursor_prev)
qed

lemma cursor_insert:
  assumes "cursor K d it B A" "fits_between B v A" "even K" "0 < K"
  shows "\<exists>d' it'. rv_insert K d it v = Some (d', it') \<and> cursor K d' it' B (v # A)"
proof (cases A)
  case Nil
  note c = assms(1) [unfolded Nil]
  have "at_end d it" "flat d = B" "chunks_ok K d"
    using cursor_at_end [OF c] cursor_at_endD [OF c] cursor_ok [OF c] by simp_all
  then show ?thesis using push_back_cursor [of K d v] assms Nil
    by (metis (no_types, lifting) Option.bind.bind_lunit rv_insert_def surj_pair)
next
  case (Cons r A')
  obtain d1 it1 where es: "ensure_space K d it = (d1, it1)" by (cases "ensure_space K d it")
  with assms Cons cursor_ensure_space [of K d it B r A']
  have c1: "cursor K d1 it1 B (r # A')" and room: "length (chunk_data (d1 ! fst it1)) < K" by auto
  from c1 obtain P c S xs ys where d: "d1 = P @ c # S" "it1 = (length P, length xs)"
    "chunk_data c = xs @ r # ys" "B = flat P @ xs" "A' = ys @ flat S"
    "chunks_ok K P" "chunk_ok K c" "chunks_ok K S" by (rule cursorE)
  define c' where "c' = c\<lparr>chunk_data := xs @ v # r # ys,
    chunk_count := chunk_count c + (snd v - fst v),
    chunk_begin := min (chunk_begin c) (fst v), chunk_end := max (chunk_end c) (snd v)\<rparr>"
  have "\<not> at_end d it" using cursor_at_end [OF assms(1)] Cons by simp
  then have e: "rv_insert K d it v = Some (P @ c' # S, it1)"
    by (simp add: rv_insert_def es d(1-3) Let_def c'_def)
  have "chunk_ok K c'"
    unfolding c'_def
    by (rule chunk_ok_add [OF d(7,3)]) (use room assms(2) d Cons in \<open>auto simp: fits_between_def\<close>)
  then have "cursor K (P @ c' # S) (length P, length xs) (flat P @ xs) (v # (r # ys) @ flat S)"
    using d by (intro cursorI) (auto simp: c'_def)
  with e d Cons show ?thesis by simp
qed

text \<open>Overwriting ranges in place leaves every iterator at its position.\<close>

definition same_shape :: "chunks \<Rightarrow> chunks \<Rightarrow> bool" where
  "same_shape d e \<longleftrightarrow> map (\<lambda>c. length (chunk_data c)) d = map (\<lambda>c. length (chunk_data c)) e"

lemma same_shape_refl [simp]: "same_shape d d"
  by (simp add: same_shape_def)

lemma same_shape_trans: "same_shape d e \<Longrightarrow> same_shape e f \<Longrightarrow> same_shape d f"
  by (simp add: same_shape_def)

lemma same_shape_update:
  "length (chunk_data c) = length (chunk_data (d ! i)) \<Longrightarrow> same_shape d (d[i := c])"
  by (cases "i < length d") (auto simp: same_shape_def list_update_beyond nth_list_update intro!: nth_equalityI)

lemma same_shape_ops [simp]:
  "same_shape d (it_set d it a b)" "same_shape d (it_adjust d it f k)" "same_shape d (it_shift d it k)"
  by (auto simp: it_set_def it_adjust_def it_shift_def Let_def intro!: same_shape_update)

lemma length_flat: "length (flat d) = sum_list (map (\<lambda>c. length (chunk_data c)) d)"
  by (simp add: flat_def length_concat comp_def)

lemma same_shape_at_end: "same_shape d e \<Longrightarrow> at_end e it \<longleftrightarrow> at_end d it"
  unfolding same_shape_def at_end_def by (drule map_eq_imp_length_eq) simp

lemma same_shape_nth:
  "same_shape d e \<Longrightarrow> i < length d \<Longrightarrow> length (chunk_data (e ! i)) = length (chunk_data (d ! i))"
  unfolding same_shape_def by (metis (no_types, lifting) length_map nth_map)

lemma same_shape_it_next: "same_shape d e \<Longrightarrow> \<not> at_end d it \<Longrightarrow> it_next e it = it_next d it"
  by (simp add: it_next_def same_shape_nth at_end_def)

lemma same_shape_valid:
  assumes "same_shape d e" shows "it_valid e it \<longleftrightarrow> it_valid d it"
proof -
  have "length d = length e" using assms unfolding same_shape_def by (rule map_eq_imp_length_eq)
  then show ?thesis using same_shape_nth [OF assms, of "fst it"] by (auto simp: it_valid_def it_end_def)
qed

lemma same_shape_before:
  assumes "same_shape d e" "it_valid d it"
  shows "length (it_before e it) = length (it_before d it)"
proof -
  have "map (\<lambda>c. length (chunk_data c)) (take (fst it) e) = map (\<lambda>c. length (chunk_data c)) (take (fst it) d)"
    using assms(1) by (simp add: same_shape_def flip: take_map)
  then show ?thesis
    using same_shape_at_end [OF assms(1)] same_shape_nth [OF assms(1), of "fst it"]
    by (auto simp: it_before_def length_flat at_end_def)
qed

lemma cursor_frame:
  assumes "cursor K d it B A" "same_shape d e" "chunks_ok K e" "flat e = B' @ A'" "length B' = length B"
  shows "cursor K e it B' A'"
proof -
  have v: "it_valid e it" and l: "length (it_before e it) = length B'"
    using assms same_shape_valid same_shape_before by (auto simp: cursor_def)
  then have c: "cursor K e it (it_before e it) (it_after e it)"
    using assms(3) by (simp add: cursor_def)
  from cursor_flat [OF c] assms(4) l show ?thesis using c by (simp add: append_eq_append_conv)
qed

section \<open>The cursor interface\<close>

definition rcur :: "nat \<Rightarrow> chunks \<Rightarrow> iter \<Rightarrow> range list \<Rightarrow> range list \<Rightarrow> bool" where
  "rcur K d it B A \<longleftrightarrow> even K \<and> 0 < K \<and> cursor K d it B A"

locale range_cursor =
  fixes cur :: "'d \<Rightarrow> 'i \<Rightarrow> range list \<Rightarrow> range list \<Rightarrow> bool"
    and nxt :: "'d \<Rightarrow> 'i \<Rightarrow> 'i" and prv :: "'d \<Rightarrow> 'i \<Rightarrow> 'i"
    and deref :: "'d \<Rightarrow> 'i \<Rightarrow> range"
    and setr :: "'d \<Rightarrow> 'i \<Rightarrow> size_t \<Rightarrow> size_t \<Rightarrow> 'd"
    and adj :: "'d \<Rightarrow> 'i \<Rightarrow> int \<Rightarrow> int \<Rightarrow> 'd" and shf :: "'d \<Rightarrow> 'i \<Rightarrow> int \<Rightarrow> 'd"
    and ers :: "'d \<Rightarrow> 'i \<Rightarrow> 'd \<times> 'i" and ins :: "'d \<Rightarrow> 'i \<Rightarrow> range \<Rightarrow> ('d \<times> 'i) option"
    and same :: "'d \<Rightarrow> 'd \<Rightarrow> bool"
  assumes nxt: "cur d it B (r # A) \<Longrightarrow> cur d (nxt d it) (B @ [r]) A"
    and prv: "cur d it (B @ [r]) A \<Longrightarrow> cur d (prv d it) B (r # A)"
    and deref: "cur d it B (r # A) \<Longrightarrow> deref d it = r"
    and setr: "cur d it B (r # A) \<Longrightarrow> a \<le> b \<Longrightarrow> cur (setr d it a b) it B ((a, b) # A)"
    and adj: "cur d it B ((a, b) # A) \<Longrightarrow> 0 \<le> int a + f \<Longrightarrow> int a + f \<le> int b + k \<Longrightarrow>
       cur (adj d it f k) it B ((add_off a f, add_off b k) # A)"
    and shf: "cur d it B ((a, b) # A) \<Longrightarrow> 0 \<le> int a + k \<Longrightarrow>
       cur (shf d it k) it B ((add_off a k, add_off b k) # A)"
    and ers: "cur d it B (r # A) \<Longrightarrow> cur (fst (ers d it)) (snd (ers d it)) B A"
    and ins: "cur d it B A \<Longrightarrow> fits_between B v A \<Longrightarrow>
       \<exists>d' it'. ins d it v = Some (d', it') \<and> cur d' it' B (v # A)"
    and ordered: "cur d it B (r # A) \<Longrightarrow> fst r \<le> snd r"
    and same: "same d (adj d it f k)" "same d (shf d it k)" "same d (setr d it a b)"
    and frame: "cur d it B A \<Longrightarrow> same d e \<Longrightarrow> cur e jt C D \<Longrightarrow> C @ D = B' @ A' \<Longrightarrow>
       length B' = length B \<Longrightarrow> cur e it B' A'"
begin

lemma grow_back: "cur d it B ((a, b) # A) \<Longrightarrow> cur (adj d it 0 (int n)) it B ((a, b + n) # A)"
  using adj [of d it B a b A 0 "int n"] ordered [of d it B "(a, b)" A] by simp

lemma shrink_back: "cur d it B ((a, b) # A) \<Longrightarrow> a < b \<Longrightarrow> cur (adj d it 0 (- 1)) it B ((a, b - 1) # A)"
  using adj [of d it B a b A 0 "- 1"] by simp

lemma grow_front:
  "cur d it B ((Suc a, b) # A) \<Longrightarrow> cur (adj d it (- 1) 0) it B ((a, b) # A)"
  using adj [of d it B "Suc a" b A "- 1" 0] ordered [of d it B "(Suc a, b)" A] by simp

lemma shift_up: "cur d it B ((a, b) # A) \<Longrightarrow> cur (shf d it (int n)) it B ((a + n, b + n) # A)"
  using shf [of d it B a b A "int n"] by simp

lemma shift_down: "cur d it B ((a, b) # A) \<Longrightarrow> 0 < a \<Longrightarrow> cur (shf d it (- 1)) it B ((a - 1, b - 1) # A)"
  using shf [of d it B a b A "- 1"] by simp

text \<open>Growing the range before the cursor, seen from it and from the cursor.\<close>

lemma grow_prev:
  assumes "cur d it (B @ [(a, b)]) A"
  shows "cur (adj d (prv d it) 0 (int n)) (prv d it) B ((a, b + n) # A)"
    and "cur (adj d (prv d it) 0 (int n)) it (B @ [(a, b + n)]) A"
proof -
  show *: "cur (adj d (prv d it) 0 (int n)) (prv d it) B ((a, b + n) # A)"
    by (rule grow_back [OF prv [OF assms]])
  show "cur (adj d (prv d it) 0 (int n)) it (B @ [(a, b + n)]) A"
    by (rule frame [OF assms same(1) *]) simp_all
qed

text \<open>The ranges at \<open>p\<close> and at the following \<open>it\<close> made one.\<close>

lemma join_at:
  assumes p: "cur d p B ((a, b) # (b', c) # A)" and it: "cur d it (B @ [(a, b)]) ((b', c) # A)"
  shows "\<exists>d' it'. ers (adj d p 0 (int c - int b')) it = (d', it') \<and> cur d' it' (B @ [(a, b + (c - b'))]) A \<and>
           cur d' (prv d' it') B ((a, b + (c - b')) # A)"
proof -
  have le: "b' \<le> c" using ordered [OF it] by simp
  then have n: "int c - int b' = int (c - b')" by simp
  have "cur (adj d p 0 (int (c - b'))) it (B @ [(a, b + (c - b'))]) ((b', c) # A)"
    by (rule frame [OF it same(1) grow_back [OF p]]) simp_all
  from ers [OF this] show ?thesis unfolding n
    by (cases "ers (adj d p 0 (int (c - b'))) it") (auto intro: prv)
qed

text \<open>The range under a cursor cut in two.\<close>

lemma split_range:
  assumes "cur d it B ((a, b) # A)" "a \<le> m" "m \<le> n" "n \<le> b"
    and "\<forall>r \<in> set B. snd r \<le> a" "\<forall>r \<in> set A. b \<le> fst r"
  shows "\<exists>d' it'. ins (setr d it a m) (nxt (setr d it a m) it) (n, b) = Some (d', it') \<and>
           cur d' (prv d' it') B ((a, m) # (n, b) # A)"
proof -
  have "cur (setr d it a m) (nxt (setr d it a m) it) (B @ [(a, m)]) A"
    using nxt [OF setr [OF assms(1,2)]] .
  from ins [OF this, of "(n, b)"] assms show ?thesis
    by (fastforce simp: fits_between_def intro: prv)
qed

end

interpretation rv: range_cursor "rcur K" it_next it_prev it_deref it_set it_adjust it_shift
  rv_erase "rv_insert K" same_shape
proof (unfold_locales, unfold rcur_def, goal_cases)
  case 1 then show ?case by (blast intro: cursor_next)
next
  case 2 then show ?case by (blast intro: cursor_prev)
next
  case 3 then show ?case by (blast intro: cursor_deref)
next
  case 4 then show ?case by (blast intro: cursor_set)
next
  case 5 then show ?case by (blast intro: cursor_adjust)
next
  case 6 then show ?case by (blast intro: cursor_shift)
next
  case 7 then show ?case by (blast intro: cursor_erase)
next
  case 8 then show ?case using cursor_insert by blast
next
  case 9 then show ?case using cursor_count_ge(4) by blast
next
  case (13 d it B A e jt C D B' A')
  then have "cursor K e it B' A'"
    using cursor_frame [of K d it B A e B' A'] cursor_flat [of K e jt C D] cursor_ok [of K e jt C D]
    by simp
  with 13 show ?case by blast
qed simp_all

text \<open>The laws of the end points, and the cursor as a statement about the whole vector.\<close>

lemma rcur_flat: "rcur K d it B A \<Longrightarrow> flat d = B @ A"
  using cursor_flat [of K d it B A] by (simp add: rcur_def)

lemma rcur_at_end: "rcur K d it B A \<Longrightarrow> at_end d it \<longleftrightarrow> A = []"
  using cursor_at_end [of K d it B A] by (simp add: rcur_def)

lemma rcur_begin_iff: "rcur K d it B A \<Longrightarrow> it = it_begin d \<longleftrightarrow> B = []"
  using cursor_begin_iff [of K d it B A] by (simp add: rcur_def)

definition vec_ok :: "nat \<Rightarrow> chunks \<Rightarrow> bool" where
  "vec_ok K d \<longleftrightarrow> even K \<and> 0 < K \<and> chunks_ok K d \<and> ranges_ok (flat d)"

lemma rcur_begin: "vec_ok K d \<Longrightarrow> rcur K d (it_begin d) [] (flat d)"
  by (simp add: vec_ok_def rcur_def cursor_begin)

lemma rcur_end: "vec_ok K d \<Longrightarrow> rcur K d (it_end d) (flat d) []"
  by (simp add: vec_ok_def rcur_def cursor_end_I)

lemma rcur_vec_ok: "rcur K d it B A \<Longrightarrow> ranges_ok (B @ A) \<Longrightarrow> vec_ok K d"
  using rcur_flat [of K d it B A] cursor_ok [of K d it B A] by (simp add: vec_ok_def rcur_def)

text \<open>A well-formed vector passes the code's own check.\<close>

lemma verify_ranges_ok:
  "ranges_ok rs \<Longrightarrow> \<forall>r \<in> set rs. p = npos \<or> p < fst r \<Longrightarrow> verify_ranges p rs"
  by (induction rs arbitrary: p) (auto simp: ranges_ok_Cons)

lemma sum_len_le:
  "ranges_ok rs \<Longrightarrow> rs \<noteq> [] \<Longrightarrow> sum_list (map (\<lambda>r. snd r - fst r) rs) \<le> snd (last rs) - fst (hd rs)"
proof (induction rs rule: ranges_ok.induct)
  case (3 a b c d rs)
  have "c \<le> snd (last ((c, d) # rs))"
  proof (cases "rs = []")
    case False
    then have "last rs \<in> set rs" by simp
    then have "d < fst (last rs)" "fst (last rs) < snd (last rs)" "c < d"
      using 3(2) ranges_ok_nonempty [of rs "last rs"] by (auto simp: ranges_ok_Cons)
    then show ?thesis using False by simp
  qed (use 3 in auto)
  with 3 show ?case by (cases "rs = []") auto
qed auto

lemma ranges_ok_concat: "ranges_ok (flat d) \<Longrightarrow> c \<in> set d \<Longrightarrow> ranges_ok (chunk_data c)"
  by (induction d) (auto simp: ranges_ok_append)

lemma chunk_ok_verify:
  assumes "chunk_ok K c" "ranges_ok (chunk_data c)"
  shows "verify_chunk c"
  using assms sum_len_le [OF assms(2)] by (simp add: chunk_ok_def verify_chunk_def)

lemma vec_ok_verify: "vec_ok K d \<Longrightarrow> verify d"
  using ranges_ok_concat [of d] chunk_ok_verify
  by (fastforce simp: vec_ok_def verify_def chunks_ok_def list_all_iff intro: verify_ranges_ok)

end
