(* ===== verification/Index_Set.thy ===== *)
theory Index_Set
  imports Range_Vector
begin

text \<open>
  \<open>IndexSet\<close> of \<open>index_set.hpp\<close> and \<open>index_set.cpp\<close>: a set of \<open>size_t\<close> indices kept as the ranges of a
  chunked vector.  This theory models the operations on one index or one run of indices, as the
  code writes them over mutable iterators; the operations on whole sets are in
  \<open>Index_Set_Bulk\<close>.  The loops of the code over \<open>it != end()\<close> are recursive functions that end
  because the iterator moves towards the end of the vector.

  \<open>indices\<close> is the set an index set stands for and \<open>vec_ok\<close> its representation invariant.
\<close>

type_synonym index_set = chunks

definition indices :: "index_set \<Rightarrow> size_t set" where
  "indices d = span (flat d)"

section \<open>Lookup\<close>

definition find_from :: "index_set \<Rightarrow> size_t \<Rightarrow> iter \<Rightarrow> iter" where
  "find_from d index b =
     (let it = fst b + length (takeWhile (\<lambda>c. \<not> index < chunk_end c) (drop (fst b) d))
      in if length d \<le> it then it_end d
         else if index < chunk_begin (d ! it) then (it, 0)
         else let inner_begin = (if it = fst b then snd b else 0)
              in (it, inner_begin +
                    lower_bound (\<lambda>r. snd r \<le> index) (drop inner_begin (chunk_data (d ! it)))))"

definition find_index :: "index_set \<Rightarrow> size_t \<Rightarrow> iter" where
  "find_index d index = find_from d index (it_begin d)"

definition contains :: "index_set \<Rightarrow> size_t \<Rightarrow> bool" where
  "contains d index =
     (let it = find_index d index in \<not> at_end d it \<and> fst (it_deref d it) \<le> index)"

text \<open>The three loops of \<open>count\<close>: ranges up to the next chunk, whole chunks, whole ranges.\<close>

function count_to_chunk :: "index_set \<Rightarrow> iter \<Rightarrow> size_t \<Rightarrow> size_t \<Rightarrow> iter \<times> size_t" where
  "count_to_chunk d it end_index ret =
     (if \<not> at_end d it \<and> snd (it_deref d it) < end_index \<and> snd it \<noteq> 0
      then count_to_chunk d (it_next d it) end_index
             (ret + (snd (it_deref d it) - fst (it_deref d it)))
      else (it, ret))"
  by pat_completeness auto
termination
  by (relation "measures [\<lambda>(d, it, e, r). length d - fst it,
                          \<lambda>(d, it, e, r). length (chunk_data (d ! fst it)) - snd it]")
    (auto simp: at_end_def it_next_def next_chunk_def)

function count_chunks :: "index_set \<Rightarrow> iter \<Rightarrow> size_t \<Rightarrow> size_t \<Rightarrow> iter \<times> size_t" where
  "count_chunks d it end_index ret =
     (if \<not> at_end d it \<and> chunk_end (d ! fst it) \<le> end_index
      then count_chunks d (next_chunk it) end_index (ret + chunk_count (d ! fst it))
      else (it, ret))"
  by pat_completeness auto
termination
  by (relation "measure (\<lambda>(d, it, e, r). length d - fst it)") (auto simp: at_end_def next_chunk_def)

function count_ranges :: "index_set \<Rightarrow> iter \<Rightarrow> size_t \<Rightarrow> size_t \<Rightarrow> iter \<times> size_t" where
  "count_ranges d it end_index ret =
     (if \<not> at_end d it \<and> snd (it_deref d it) \<le> end_index
      then count_ranges d (it_next d it) end_index
             (ret + (snd (it_deref d it) - fst (it_deref d it)))
      else (it, ret))"
  by pat_completeness auto
termination
  by (relation "measures [\<lambda>(d, it, e, r). length d - fst it,
                          \<lambda>(d, it, e, r). length (chunk_data (d ! fst it)) - snd it]")
    (auto simp: at_end_def it_next_def next_chunk_def)

declare count_to_chunk.simps [simp del] count_chunks.simps [simp del] count_ranges.simps [simp del]

definition count_rest :: "index_set \<Rightarrow> iter \<Rightarrow> size_t \<Rightarrow> size_t \<Rightarrow> size_t" where
  "count_rest d it end_index ret =
     (let (it1, ret1) = count_chunks d it end_index ret;
          (it2, ret2) = count_ranges d it1 end_index ret1
      in if \<not> at_end d it2 \<and> fst (it_deref d it2) < end_index
         then ret2 + (end_index - fst (it_deref d it2)) else ret2)"

definition count_set :: "index_set \<Rightarrow> size_t \<Rightarrow> size_t \<Rightarrow> size_t" where
  "count_set d start_index end_index =
     (let it = find_index d start_index; r = it_deref d it
      in if at_end d it \<or> end_index \<le> fst r then 0
         else if end_index \<le> snd r then min (snd r) end_index - max (fst r) start_index
         else if fst r < start_index \<or> snd it \<noteq> 0
         then let (it1, ret1) = count_to_chunk d (it_next d it) end_index
                                  (snd r - max (fst r) start_index);
                  ret2 = (if \<not> at_end d it1 \<and> fst (it_deref d it1) < end_index \<and> snd it1 \<noteq> 0
                          then ret1 + (end_index - fst (it_deref d it1)) else ret1)
              in if at_end d it1 \<or> end_index \<le> snd (it_deref d it1) then ret2
                 else count_rest d it1 end_index ret2
         else count_rest d it end_index 0)"

section \<open>Adding indices\<close>

definition do_add :: "nat \<Rightarrow> index_set \<Rightarrow> iter \<Rightarrow> size_t \<Rightarrow> (index_set \<times> iter) option" where
  "do_add K d it index =
     (let more_before = it \<noteq> it_begin d; valid = \<not> at_end d it; prev = it_prev d it
      in if more_before \<and> index < snd (it_deref d prev) then None
         else if valid \<and> fst (it_deref d it) \<le> index \<and> index < snd (it_deref d it) then Some (d, it)
         else if more_before \<and> snd (it_deref d prev) = index
         then let d1 = it_adjust d prev 0 1
              in if valid \<and> snd (it_deref d1 prev) = fst (it_deref d1 it)
                 then let d2 = it_adjust d1 prev 0
                                 (int (snd (it_deref d1 it)) - int (fst (it_deref d1 it)));
                          (d3, it3) = rv_erase d2 it
                      in Some (d3, it_prev d3 it3)
                 else Some (d1, prev)
         else if valid \<and> fst (it_deref d it) = index + 1 then Some (it_adjust d it (- 1) 0, it)
         else rv_insert K d it (index, index + 1))"

definition add :: "nat \<Rightarrow> index_set \<Rightarrow> size_t \<Rightarrow> index_set option" where
  "add K d index = map_option fst (do_add K d (find_index d index) index)"

function add_shifted_chunks :: "index_set \<Rightarrow> iter \<Rightarrow> size_t \<Rightarrow> iter \<times> size_t" where
  "add_shifted_chunks d it index =
     (if \<not> at_end d it \<and> chunk_end (d ! fst it) \<le> index
      then add_shifted_chunks d (next_chunk it) (index + chunk_count (d ! fst it))
      else (it, index))"
  by pat_completeness auto
termination
  by (relation "measure (\<lambda>(d, it, i). length d - fst it)") (auto simp: at_end_def next_chunk_def)

function add_shifted_ranges :: "index_set \<Rightarrow> iter \<Rightarrow> size_t \<Rightarrow> iter \<times> size_t" where
  "add_shifted_ranges d it index =
     (if \<not> at_end d it \<and> fst (it_deref d it) \<le> index
      then add_shifted_ranges d (it_next d it)
             (index + (snd (it_deref d it) - fst (it_deref d it)))
      else (it, index))"
  by pat_completeness auto
termination
  by (relation "measures [\<lambda>(d, it, i). length d - fst it,
                          \<lambda>(d, it, i). length (chunk_data (d ! fst it)) - snd it]")
    (auto simp: at_end_def it_next_def next_chunk_def)

declare add_shifted_chunks.simps [simp del] add_shifted_ranges.simps [simp del]

definition add_shifted :: "nat \<Rightarrow> index_set \<Rightarrow> size_t \<Rightarrow> (index_set \<times> size_t) option" where
  "add_shifted K d index =
     (let (it1, index1) = add_shifted_chunks d (it_begin d) index;
          (it2, index2) = add_shifted_ranges d it1 index1
      in do { (d', _) \<leftarrow> do_add K d it2 index2; Some (d', index2) })"

definition clear :: "index_set \<Rightarrow> index_set" where
  "clear d = []"

definition set_len :: "nat \<Rightarrow> index_set \<Rightarrow> size_t \<Rightarrow> index_set option" where
  "set_len K d len = (if len \<noteq> 0 then push_back K (clear d) (0, len) else Some (clear d))"

section \<open>Shifting, inserting and erasing\<close>

text \<open>\<open>for (; it != end(); ++it) it.shift(k)\<close>.\<close>

function shift_rest :: "index_set \<Rightarrow> iter \<Rightarrow> int \<Rightarrow> index_set" where
  "shift_rest d it k =
     (if \<not> at_end d it then let d' = it_shift d it k in shift_rest d' (it_next d' it) k else d)"
  by pat_completeness auto
termination
proof (relation "measures [\<lambda>(d, it, k). length d - fst it,
                           \<lambda>(d, it, k). length (chunk_data (d ! fst it)) - snd it]", goal_cases)
  case (2 d it k d')
  then have "length d' = length d" "length (chunk_data (d' ! fst it)) = length (chunk_data (d ! fst it))"
    by (simp_all add: it_shift_def Let_def at_end_def)
  with 2 show ?case by (auto simp: at_end_def it_next_def next_chunk_def)
qed simp

declare shift_rest.simps [simp del]

fun add_run :: "nat \<Rightarrow> index_set \<Rightarrow> iter \<Rightarrow> size_t \<Rightarrow> nat \<Rightarrow> index_set option" where
  "add_run K d pos index 0 = Some d"
| "add_run K d pos index (Suc n) =
     do { (d', p) \<leftarrow> do_add K d pos index; add_run K d' (it_next d' p) (index + 1) n }"

definition insert_at :: "nat \<Rightarrow> index_set \<Rightarrow> size_t \<Rightarrow> size_t \<Rightarrow> index_set option" where
  "insert_at K d index count =
     (if count = 0 then None
      else let pos = find_index d index
           in if at_end d pos then add_run K d pos index count
              else if fst (it_deref d pos) \<le> index
              then let d1 = it_adjust d pos 0 (int count)
                   in Some (shift_rest d1 (it_next d1 pos) (int count))
              else let d1 = it_shift d pos (int count);
                       d2 = shift_rest d1 (it_next d1 pos) (int count)
                   in add_run K d2 pos index count)"

definition shift_for_insert_at :: "nat \<Rightarrow> index_set \<Rightarrow> size_t \<Rightarrow> size_t \<Rightarrow> index_set option" where
  "shift_for_insert_at K d index count =
     (if count = 0 then None
      else let it = find_index d index
           in if at_end d it then Some d
              else let d1 = shift_rest d it (int count)
                   in if fst (it_deref d1 it) < index + count
                      then let old_second = snd (it_deref d1 it);
                               d2 = it_set d1 it (fst (it_deref d1 it) - count) index
                           in map_option fst
                                (rv_insert K d2 (it_next d2 it) (index + count, old_second))
                      else Some d1)"

definition do_erase :: "index_set \<Rightarrow> iter \<Rightarrow> size_t \<Rightarrow> index_set" where
  "do_erase d it index =
     (let r = it_deref d it; prev = it_prev d it
      in if fst r \<le> index
         then if fst r + 1 = snd r
              then let (d1, it1) = rv_erase d it in shift_rest d1 it1 (- 1)
              else let d1 = it_adjust d it 0 (- 1) in shift_rest d1 (it_next d1 it) (- 1)
         else if it \<noteq> it_begin d \<and> snd (it_deref d prev) + 1 = fst r
         then let d1 = it_adjust d prev 0 (int (snd r) - int (fst r));
                  (d2, it2) = rv_erase d1 it
              in shift_rest d2 it2 (- 1)
         else shift_rest d it (- 1))"

definition erase_at :: "index_set \<Rightarrow> size_t \<Rightarrow> index_set" where
  "erase_at d index =
     (let it = find_index d index in if at_end d it then d else do_erase d it index)"

function erase_unshift_chunks :: "index_set \<Rightarrow> iter \<Rightarrow> size_t \<Rightarrow> size_t \<Rightarrow> iter \<times> size_t" where
  "erase_unshift_chunks d it index shifted =
     (if \<not> at_end d it \<and> chunk_end (d ! fst it) \<le> index
      then erase_unshift_chunks d (next_chunk it) index (shifted - chunk_count (d ! fst it))
      else (it, shifted))"
  by pat_completeness auto
termination
  by (relation "measure (\<lambda>(d, it, i, s). length d - fst it)") (auto simp: at_end_def next_chunk_def)

function erase_unshift_ranges :: "index_set \<Rightarrow> iter \<Rightarrow> size_t \<Rightarrow> size_t \<Rightarrow> iter \<times> size_t" where
  "erase_unshift_ranges d it index shifted =
     (if \<not> at_end d it \<and> snd (it_deref d it) \<le> index
      then erase_unshift_ranges d (it_next d it) index
             (shifted - (snd (it_deref d it) - fst (it_deref d it)))
      else (it, shifted))"
  by pat_completeness auto
termination
  by (relation "measures [\<lambda>(d, it, i, s). length d - fst it,
                          \<lambda>(d, it, i, s). length (chunk_data (d ! fst it)) - snd it]")
    (auto simp: at_end_def it_next_def next_chunk_def)

declare erase_unshift_chunks.simps [simp del] erase_unshift_ranges.simps [simp del]

definition erase_or_unshift :: "index_set \<Rightarrow> size_t \<Rightarrow> index_set \<times> size_t" where
  "erase_or_unshift d index =
     (let (it1, shifted1) = erase_unshift_chunks d (it_begin d) index index;
          (it2, shifted2) = erase_unshift_ranges d it1 index shifted1
      in if at_end d it2 then (d, shifted2)
         else (do_erase d it2 index, if fst (it_deref d it2) \<le> index then npos else shifted2))"

section \<open>Removing without shifting\<close>

text \<open>The loop of \<open>do_remove\<close>; \<open>None\<close> also stands for a loop that does not end.\<close>

partial_function (option) do_remove ::
    "nat \<Rightarrow> index_set \<Rightarrow> iter \<Rightarrow> size_t \<Rightarrow> size_t \<Rightarrow> (index_set \<times> iter) option" where
  "do_remove K d it0 b0 e =
     (let it = find_from d b0 it0; r = it_deref d it
      in if at_end d it \<or> e \<le> fst r then Some (d, it)
         else let b = max (fst r) b0
              in if fst r < b \<and> e < snd r
                 then let d1 = it_set d it (fst r) b
                      in Option.bind (rv_insert K d1 (it_next d1 it) (e, snd r))
                           (\<lambda>p. do_remove K (fst p) (it_prev (fst p) (snd p)) b e)
                 else if b = fst r \<and> snd r \<le> e
                 then do_remove K (fst (rv_erase d it)) (snd (rv_erase d it)) b e
                 else if b = fst r then do_remove K (it_set d it e (snd r)) it b e
                 else do_remove K (it_set d it (fst r) b) it b e)"

definition remove :: "nat \<Rightarrow> index_set \<Rightarrow> size_t \<Rightarrow> size_t \<Rightarrow> index_set option" where
  "remove K d index count =
     map_option fst (do_remove K d (find_index d index) index (index + count))"

fun remove_ranges :: "nat \<Rightarrow> index_set \<Rightarrow> iter \<Rightarrow> range list \<Rightarrow> index_set option" where
  "remove_ranges K d it [] = Some d"
| "remove_ranges K d it (r # rs) =
     do { (d', it') \<leftarrow> do_remove K d it (fst r) (snd r);
          if at_end d' it' then Some d' else remove_ranges K d' it' rs }"

definition remove_set :: "nat \<Rightarrow> index_set \<Rightarrow> index_set \<Rightarrow> index_set option" where
  "remove_set K d values = remove_ranges K d (it_begin d) (flat values)"

section \<open>Translating indices\<close>

fun shift_ranges :: "range list \<Rightarrow> size_t \<Rightarrow> size_t" where
  "shift_ranges [] index = index"
| "shift_ranges (r # rs) index =
     (if index < fst r then index else shift_ranges rs (index + (snd r - fst r)))"

definition shift :: "index_set \<Rightarrow> size_t \<Rightarrow> size_t" where
  "shift d index = shift_ranges (flat d) index"

definition unshift :: "index_set \<Rightarrow> size_t \<Rightarrow> size_t" where
  "unshift d index = index - count_set d 0 index"

end
