(* ===== verification/Index_Set_Bulk.thy ===== *)
theory Index_Set_Bulk
  imports Index_Set
begin

text \<open>
  The operations of \<open>IndexSet\<close> that combine whole sets, and \<open>ChunkedRangeVectorBuilder\<close>, the
  append-only vector most of them build their result in.  Loops that advance two
  \<open>IndexIterator\<close>s are recursive functions on the lists of the indices still to come,
  which \<open>as_indexes\<close> gives; \<open>ix_deref\<close> and \<open>ix_next\<close> are the iterator itself.
\<close>

section \<open>Iterating over indices\<close>

type_synonym index_iter = "iter \<times> nat"

definition ix_begin :: "index_set \<Rightarrow> index_iter" where
  "ix_begin d = (it_begin d, 0)"

definition ix_deref :: "index_set \<Rightarrow> index_iter \<Rightarrow> size_t" where
  "ix_deref d x = fst (it_deref d (fst x)) + snd x"

definition ix_next :: "index_set \<Rightarrow> index_iter \<Rightarrow> index_iter" where
  "ix_next d x =
     (if fst (it_deref d (fst x)) + Suc (snd x) = snd (it_deref d (fst x))
      then (it_next d (fst x), 0) else (fst x, Suc (snd x)))"

definition as_indexes :: "index_set \<Rightarrow> size_t list" where
  "as_indexes d = concat (map (\<lambda>r. [fst r..<snd r]) (flat d))"

section \<open>The builder\<close>

record builder =
  bd_data :: chunks
  bd_outer :: nat

definition empty_chunk :: chunk where
  "empty_chunk = \<lparr>chunk_data = [], chunk_begin = 0, chunk_end = 0, chunk_count = 0\<rparr>"

definition builder_init :: "nat \<Rightarrow> chunks \<Rightarrow> builder" where
  "builder_init K expected =
     (let size = sum_list (map (\<lambda>c. length (chunk_data c)) expected)
      in \<lparr>bd_data = replicate (size div K + 1) empty_chunk, bd_outer = 0\<rparr>)"

definition builder_push_range :: "nat \<Rightarrow> builder \<Rightarrow> range \<Rightarrow> builder" where
  "builder_push_range K b r =
     (let o1 = bd_outer b; c = bd_data b ! o1; len = snd r - fst r
      in if chunk_data c = []
         then b\<lparr>bd_data := (bd_data b)[o1 := c\<lparr>chunk_data := [r], chunk_count := len, chunk_begin := fst r\<rparr>]\<rparr>
         else if fst r = snd (last (chunk_data c))
         then b\<lparr>bd_data := (bd_data b)[o1 := c\<lparr>
                  chunk_data := butlast (chunk_data c) @ [(fst (last (chunk_data c)), snd r)],
                  chunk_count := chunk_count c + len\<rparr>]\<rparr>
         else if length (chunk_data c) < K
         then b\<lparr>bd_data := (bd_data b)[o1 := c\<lparr>chunk_data := chunk_data c @ [r],
                                               chunk_count := chunk_count c + len\<rparr>]\<rparr>
         else let data = (bd_data b)[o1 := c\<lparr>chunk_end := snd (last (chunk_data c))\<rparr>];
                  o2 = o1 + 1
              in if length data \<le> o2
                 then \<lparr>bd_data = data @ [\<lparr>chunk_data = [r], chunk_begin = fst r,
                                          chunk_end = 0, chunk_count = 1\<rparr>],
                       bd_outer = o2\<rparr>
                 else let c2 = data ! o2
                      in \<lparr>bd_data = data[o2 := c2\<lparr>chunk_data := chunk_data c2 @ [r],
                                                  chunk_begin := fst r, chunk_count := len\<rparr>],
                          bd_outer = o2\<rparr>)"

definition builder_push :: "nat \<Rightarrow> builder \<Rightarrow> size_t \<Rightarrow> builder" where
  "builder_push K b index = builder_push_range K b (index, index + 1)"

definition builder_finalize :: "builder \<Rightarrow> chunks" where
  "builder_finalize b =
     (if bd_data b \<noteq> []
      then let data = take (bd_outer b + 1) (bd_data b)
           in if chunk_data (last data) = [] then butlast data
              else butlast data @ [(last data)\<lparr>chunk_end := snd (last (chunk_data (last data)))\<rparr>]
      else [])"

section \<open>Adding a set\<close>

fun add_all :: "nat \<Rightarrow> index_set \<Rightarrow> iter \<Rightarrow> size_t list \<Rightarrow> index_set option" where
  "add_all K d it [] = Some d"
| "add_all K d it (index # xs) =
     do { (d', it') \<leftarrow> do_add K d (find_from d index it) index; add_all K d' it' xs }"

definition add_set :: "nat \<Rightarrow> index_set \<Rightarrow> index_set \<Rightarrow> index_set option" where
  "add_set K d other = add_all K d (it_begin d) (as_indexes other)"

text \<open>
  \<open>add_shifted_by\<close>, with its debug-mode assertion that the number of indices grows by the number
  of values outside \<open>shifted_by\<close>: the loop over \<open>shifted_by\<close>, the loop over the old ranges, and the loop over the values.\<close>

fun skip_shifts :: "range list \<Rightarrow> size_t \<Rightarrow> size_t \<Rightarrow> size_t \<Rightarrow> range list \<times> size_t \<times> size_t" where
  "skip_shifts [] index new_shift skip_until = ([], new_shift, skip_until)"
| "skip_shifts (r # us) index new_shift skip_until =
     (if fst r \<le> index then skip_shifts us index (new_shift + (snd r - fst r)) (snd r)
      else (r # us, new_shift, skip_until))"

fun copy_old :: "nat \<Rightarrow> builder \<Rightarrow> range list \<Rightarrow> size_t \<Rightarrow> size_t \<Rightarrow> builder \<times> range list \<times> size_t" where
  "copy_old K b [] position old_shift = (b, [], old_shift)"
| "copy_old K b (r # os) position old_shift =
     (if fst r \<le> position + old_shift
      then copy_old K (foldl (builder_push K) b [fst r..<snd r]) os position (old_shift + (snd r - fst r))
      else (b, r # os, old_shift))"

fun add_values :: "nat \<Rightarrow> builder \<Rightarrow> range list \<Rightarrow> range list \<Rightarrow> size_t \<Rightarrow> size_t \<Rightarrow> size_t \<Rightarrow> size_t list \<Rightarrow>
    (builder \<times> range list) option" where
  "add_values K b os us skip_until old_shift new_shift [] = Some (b, os)"
| "add_values K b os us skip_until old_shift new_shift (index # xs) =
     (let (us', new_shift', skip_until') = skip_shifts us index new_shift skip_until
      in if index < skip_until' then add_values K b os us' skip_until' old_shift new_shift' xs
         else let (b', os', old_shift') = copy_old K b os (index - new_shift') old_shift
              in if new_shift' \<le> index
                 then add_values K (builder_push K b' (index - new_shift' + old_shift')) os' us'
                        skip_until' old_shift' new_shift' xs
                 else None)"

definition add_shifted_by :: "nat \<Rightarrow> index_set \<Rightarrow> index_set \<Rightarrow> index_set \<Rightarrow> index_set option" where
  "add_shifted_by K d shifted_by values =
     (if values = [] then Some d
      else do { (b, os) \<leftarrow> add_values K (builder_init K d) (flat d) (flat shifted_by) 0 0 0
                              (as_indexes values);
                let d' = builder_finalize (foldl (builder_push_range K) b os);
                    expected = length (as_indexes d) +
                      length (filter (\<lambda>i. \<not> contains shifted_by i) (as_indexes values))
                in if length (as_indexes d') = expected then Some d' else None })"

section \<open>Inserting and erasing sets of positions\<close>

fun insert_merge :: "nat \<Rightarrow> builder \<Rightarrow> size_t \<Rightarrow> size_t list \<Rightarrow> size_t list \<Rightarrow> builder" where
  "insert_merge K b k (x # xs) (y # ys) =
     (if x + k < y then insert_merge K (builder_push K b (x + k)) k xs (y # ys)
      else insert_merge K (builder_push K b y) (Suc k) (x # xs) ys)"
| "insert_merge K b k xs [] = foldl (\<lambda>b x. builder_push K b (x + k)) b xs"
| "insert_merge K b k [] ys = foldl (builder_push K) b ys"

definition insert_at_set :: "nat \<Rightarrow> index_set \<Rightarrow> index_set \<Rightarrow> index_set" where
  "insert_at_set K d positions =
     (if positions = [] then d
      else if d = [] then positions
      else builder_finalize
             (insert_merge K (builder_init K d) 0 (as_indexes d) (as_indexes positions)))"

fun shift_merge :: "nat \<Rightarrow> builder \<Rightarrow> size_t \<Rightarrow> size_t list \<Rightarrow> size_t list \<Rightarrow> builder" where
  "shift_merge K b k (x # xs) (y # ys) =
     (if x + k < y then shift_merge K (builder_push K b (x + k)) k xs (y # ys)
      else shift_merge K b (Suc k) (x # xs) ys)"
| "shift_merge K b k xs [] = foldl (\<lambda>b x. builder_push K b (x + k)) b xs"
| "shift_merge K b k [] ys = b"

definition shift_for_insert_at_set :: "nat \<Rightarrow> index_set \<Rightarrow> index_set \<Rightarrow> index_set" where
  "shift_for_insert_at_set K d values =
     (if d = [] \<or> values = [] then d
      else if chunk_end (last d) \<le> chunk_begin (hd values) then d
      else builder_finalize
             (shift_merge K (builder_init K d) 0 (as_indexes d) (as_indexes values)))"

fun erase_merge :: "nat \<Rightarrow> builder \<Rightarrow> size_t \<Rightarrow> size_t list \<Rightarrow> size_t list \<Rightarrow> builder" where
  "erase_merge K b k (x # xs) (y # ys) =
     (if x < y then erase_merge K (builder_push K b (x - k)) k xs (y # ys)
      else if x = y then erase_merge K b (Suc k) xs ys
      else erase_merge K b (Suc k) (x # xs) ys)"
| "erase_merge K b k xs [] = foldl (\<lambda>b x. builder_push K b (x - k)) b xs"
| "erase_merge K b k [] ys = b"

definition erase_at_set :: "nat \<Rightarrow> index_set \<Rightarrow> index_set \<Rightarrow> index_set" where
  "erase_at_set K d positions =
     (if d = [] \<or> positions = [] then d
      else builder_finalize
             (erase_merge K (builder_init K d) 0 (as_indexes d) (as_indexes positions)))"

end
