(* ===== verification/Index_Set_Laws.thy ===== *)
theory Index_Set_Laws
  imports Index_Set
begin

text \<open>
  What the operations of \<open>Index_Set\<close> do to the set of indices.  Each loop is first related to a
  function on the plain list of ranges, through the cursor laws of \<open>Range_Vector\<close>; the
  list functions are then read as operations on sets of indices with the ranks and
  order isomorphisms of \<open>Prelude\<close>.
\<close>

section \<open>Finding the range of an index\<close>

lemma takeWhile_append_all: "\<forall>x \<in> set xs. P x \<Longrightarrow> takeWhile P (xs @ ys) = xs @ takeWhile P ys"
  by (induction xs) auto

lemma dropWhile_append_all: "\<forall>x \<in> set xs. P x \<Longrightarrow> dropWhile P (xs @ ys) = dropWhile P ys"
  by (induction xs) auto

lemma sorted_ends_le:
  assumes "ranges_ok rs" "rs \<noteq> []" "snd (last rs) \<le> i"
  shows "\<forall>r \<in> set rs. snd r \<le> i"
proof
  fix r assume "r \<in> set rs"
  then obtain xs ys where rs: "rs = xs @ r # ys" by (meson split_list)
  then show "snd r \<le> i" using assms ranges_ok_nonempty [of rs "last rs"]
    by (cases ys rule: rev_cases) (auto simp: ranges_ok_append ranges_ok_Cons)
qed

lemma find_from_skip_chunk:
  assumes "d = P @ c # S" "fst it = length P" "chunk_end c \<le> i"
  shows "find_from d i it = find_from d i (Suc (length P), 0)"
  using assms by (simp add: find_from_def Let_def)

lemma find_from_chunk:
  assumes "d = P @ c # S" "it = (length P, n)" "i < chunk_end c"
  shows "find_from d i it = (if i < chunk_begin c then (length P, 0)
    else (length P, n + lower_bound (\<lambda>r. snd r \<le> i) (drop n (chunk_data c))))"
  using assms by (simp add: find_from_def Let_def)

lemma cursor_find_chunk:
  assumes ok: "chunks_ok K P" "chunk_ok K c" "chunks_ok K S"
    and c: "chunk_data c = xs @ r # ys" and i: "i < chunk_end c"
    and ord: "\<forall>s \<in> set (flat P @ xs). fst s \<le> i" "ranges_ok (r # ys @ flat S)"
  shows "cursor K (P @ c # S) (find_from (P @ c # S) i (length P, length xs))
    (flat P @ xs @ takeWhile (\<lambda>r. snd r \<le> i) (r # ys @ flat S))
    (dropWhile (\<lambda>r. snd r \<le> i) (r # ys @ flat S))"
proof (cases "i < chunk_begin c")
  case True
  with ok(2) c ord(1) have xs: "xs = []" "i < fst r" by (cases xs, auto simp: chunk_ok_def)+
  moreover have "fst r < snd r" using ord(2) by (simp add: ranges_ok_Cons)
  ultimately show ?thesis
    using True cursorI [OF ok c] find_from_chunk [OF refl refl i, of P S 0] by simp
next
  case False
  let ?p = "\<lambda>r. snd r \<le> i"
  have "last (r # ys) = last (chunk_data c)" by (simp add: c)
  then have "\<not> ?p (last (r # ys))" using i ok(2) by (simp add: chunk_ok_def)
  then have ex: "\<exists>s \<in> set (r # ys). \<not> ?p s" 
    using last_in_set [of "r # ys"] by blast
  then have "dropWhile ?p (r # ys) \<noteq> []" unfolding dropWhile_eq_Nil_conv by blast
  then obtain s zs where dw: "dropWhile ?p (r # ys) = s # zs" unfolding neq_Nil_conv by blast
  have split: "chunk_data c = (xs @ takeWhile ?p (r # ys)) @ s # zs"
    unfolding c using takeWhile_dropWhile_id [of ?p "r # ys"] dw by simp
  from ex obtain q where q: "q \<in> set (r # ys)" "\<not> ?p q" by blast
  have "takeWhile ?p (r # ys @ flat S) = takeWhile ?p (r # ys)"
    using takeWhile_append1 [of q "r # ys" ?p "flat S", OF q] by simp
  moreover have "dropWhile ?p (r # ys @ flat S) = s # zs @ flat S"
    using dropWhile_append1 [of q "r # ys" ?p "flat S", OF q] dw by simp
  moreover have "find_from (P @ c # S) i (length P, length xs) =
      (length P, length (xs @ takeWhile ?p (r # ys)))"
    using False find_from_chunk [OF refl refl i, of P S "length xs"] c
    by (simp add: lower_bound_def)
  ultimately show ?thesis using cursorI [OF ok split] by simp
qed

lemma cursor_find:
  assumes "cursor K d it B A" "ranges_ok A" "\<forall>s \<in> set B. fst s \<le> i"
  shows "cursor K d (find_from d i it) (B @ takeWhile (\<lambda>r. snd r \<le> i) A) (dropWhile (\<lambda>r. snd r \<le> i) A)"
  using assms
proof (induction "length d - fst it" arbitrary: it B A rule: less_induct)
  case less
  show ?case
  proof (cases A)
    case Nil
    note e = cursor_at_endD [OF less.prems(1) [unfolded Nil]]
    then have "find_from d i it = it" by (simp add: find_from_def it_end_def)
    then show ?thesis using less.prems(1) Nil by simp
  next
    case (Cons r A')
    from less.prems(1) [unfolded Cons] obtain P c S xs ys where d: "d = P @ c # S" "it = (length P, length xs)"
      "chunk_data c = xs @ r # ys" "B = flat P @ xs" "A' = ys @ flat S"
      "chunks_ok K P" "chunk_ok K c" "chunks_ok K S" by (rule cursorE)
    show ?thesis
    proof (cases "i < chunk_end c")
      case True
      show ?thesis
        using cursor_find_chunk [OF d(6-8,3) True] less.prems d Cons by simp
    next
      case False
      have all: "\<forall>s \<in> set (r # ys). snd s \<le> i"
        using False d(3,7) less.prems(2) sorted_ends_le [of "r # ys" i]
        by (simp add: Cons d(5) chunk_ok_def ranges_ok_append flip: append_Cons)
      have start: "cursor K d (Suc (length P), 0) (B @ r # ys) (flat S)"
        using cursor_chunk_start [of K "P @ [c]" S] d by simp
      have "\<forall>s \<in> set (r # ys). fst s \<le> i"
        using all less.prems(2) ranges_ok_nonempty [of A] by (fastforce simp: Cons d(5))
      then have "cursor K d (find_from d i (Suc (length P), 0))
          ((B @ r # ys) @ takeWhile (\<lambda>r. snd r \<le> i) (flat S)) (dropWhile (\<lambda>r. snd r \<le> i) (flat S))"
        using less.prems start d Cons
        by (intro less.hyps) (auto simp: ranges_ok_append ranges_ok_Cons)
      moreover have "find_from d i it = find_from d i (Suc (length P), 0)"
        using False d by (intro find_from_skip_chunk [of _ P c S]) auto
      ultimately show ?thesis
        using all Cons d(5) takeWhile_append_all [of "r # ys" "\<lambda>r. snd r \<le> i" "flat S"]
          dropWhile_append_all [of "r # ys" "\<lambda>r. snd r \<le> i" "flat S"] by simp
    qed
  qed
qed

text \<open>The ranges that end at or before an index, and the others.\<close>

definition rbelow :: "size_t \<Rightarrow> range list \<Rightarrow> range list" where
  "rbelow i rs = takeWhile (\<lambda>r. snd r \<le> i) rs"

definition rabove :: "size_t \<Rightarrow> range list \<Rightarrow> range list" where
  "rabove i rs = dropWhile (\<lambda>r. snd r \<le> i) rs"

lemma below_above [simp]: "rbelow i rs @ rabove i rs = rs"
  by (simp add: rbelow_def rabove_def)

lemma below_le: "r \<in> set (rbelow i rs) \<Longrightarrow> snd r \<le> i"
  by (auto simp: rbelow_def dest: set_takeWhileD)

lemma above_hd: "rabove i rs = r # A \<Longrightarrow> i < snd r"
  by (metis rabove_def dropWhile_eq_Cons_conv linorder_not_less)

lemma span_below: "span (rbelow i rs) \<subseteq> {..<i}"
  using below_le by (fastforce simp: span_def)

lemma span_above: "ranges_ok rs \<Longrightarrow> rabove i rs = r # A \<Longrightarrow> span A \<subseteq> {snd r<..}"
  using below_above [of i rs] span_ge [of r A] ranges_ok_append [of "rbelow i rs" "rabove i rs"]
  by fastforce

lemma mem_span_iff:
  assumes "ranges_ok rs"
  shows "i \<in> span rs \<longleftrightarrow> (\<exists>r A. rabove i rs = r # A \<and> fst r \<le> i)"
proof -
  have "i \<in> span rs \<longleftrightarrow> i \<in> span (rabove i rs)"
    using span_below [of i rs] span_append [of "rbelow i rs" "rabove i rs"] by auto
  also have "\<dots> \<longleftrightarrow> (\<exists>r A. rabove i rs = r # A \<and> fst r \<le> i)"
  proof (cases "rabove i rs")
    case (Cons r A)
    then show ?thesis using above_hd [OF Cons] span_above [OF assms Cons] by auto
  qed simp
  finally show ?thesis .
qed

lemma rcur_find_from:
  assumes "rcur K d it B A" "ranges_ok (B @ A)" "\<forall>s \<in> set B. fst s \<le> i"
  shows "rcur K d (find_from d i it) (B @ rbelow i A) (rabove i A)"
  using assms cursor_find [of K d it B A i] by (simp add: rcur_def rbelow_def rabove_def ranges_ok_append)

lemma rcur_find:
  assumes "vec_ok K d"
  shows "rcur K d (find_index d i) (rbelow i (flat d)) (rabove i (flat d))"
  using rcur_find_from [OF rcur_begin [OF assms], of i] assms by (simp add: find_index_def vec_ok_def)

lemma vec_okD [dest]: "vec_ok K d \<Longrightarrow> ranges_ok (flat d)"
  by (simp add: vec_ok_def)

lemma contains_indices:
  assumes "vec_ok K d"
  shows "contains d i \<longleftrightarrow> i \<in> indices d"
proof -
  note c = rcur_find [OF assms, of i]
  show ?thesis
  proof (cases "rabove i (flat d)")
    case Nil
    then show ?thesis using rcur_at_end [OF c] mem_span_iff [OF vec_okD [OF assms], of i]
      by (simp add: contains_def indices_def)
  next
    case (Cons r A)
    then show ?thesis
      using rcur_at_end [OF c] mem_span_iff [OF vec_okD [OF assms], of i] rv.deref [OF c [unfolded Cons]]
      by (simp add: contains_def indices_def)
  qed
qed

section \<open>Adding one index\<close>

text \<open>The ranges after adding \<open>i\<close> between \<open>B\<close> and \<open>A\<close>: before, the range of \<open>i\<close>, after.\<close>

definition add_ranges :: "range list \<Rightarrow> size_t \<Rightarrow> range list \<Rightarrow> range list \<times> range \<times> range list" where
  "add_ranges B i A =
     (let joins = A \<noteq> [] \<and> fst (hd A) \<le> Suc i; touches = B \<noteq> [] \<and> snd (last B) = i;
          inside = A \<noteq> [] \<and> fst (hd A) \<le> i
      in (if touches \<and> \<not> inside then butlast B else B,
          (if inside then fst (hd A) else if touches then fst (last B) else i,
           if joins then snd (hd A) else Suc i),
          if joins then tl A else A))"

lemma do_add_cursor:
  assumes c: "rcur K d it B A" and ok: "ranges_ok (B @ A)"
    and B: "\<forall>s \<in> set B. snd s \<le> i" and A: "A = [] \<or> i < snd (hd A)"
    and res: "add_ranges B i A = (B', r, A')"
  shows "\<exists>d' it'. do_add K d it i = Some (d', it') \<and> rcur K d' it' B' (r # A')"
proof -
  have prev: "it_deref d (it_prev d it) = last B" if "B \<noteq> []"
    using rv.deref [OF rv.prv, of K d it "butlast B" "last B" A] c that by simp
  have cur: "it_deref d it = hd A" if "A \<noteq> []"
    using rv.deref [of K d it B "hd A" "tl A"] c that by simp
  have no_assert: "\<not> (B \<noteq> [] \<and> i < snd (last B))" using B last_in_set [of B] by fastforce
  note pos = rcur_begin_iff [OF c] rcur_at_end [OF c]
  consider (inside) "A \<noteq> []" "fst (hd A) \<le> i"
    | (touch) "B \<noteq> []" "snd (last B) = i" "A = [] \<or> i < fst (hd A)"
    | (front) "\<not> (B \<noteq> [] \<and> snd (last B) = i)" "A \<noteq> []" "fst (hd A) = Suc i"
    | (new) "\<not> (B \<noteq> [] \<and> snd (last B) = i)" "A = [] \<or> Suc i < fst (hd A)"
    by (metis Suc_lessI not_less)
  then show ?thesis
  proof cases
    case inside
    then obtain q A0 where q: "A = q # A0" by (cases A) auto
    have "do_add K d it i = Some (d, it)"
      using inside A q no_assert pos prev cur by (auto simp: do_add_def Let_def)
    moreover have "B' = B" "r = q" "A' = A0" using res inside q by (auto simp: add_ranges_def Let_def prod_eq_iff)
    ultimately show ?thesis using c q by simp
  next
    case touch
    define B0 where "B0 = butlast B"
    define p where "p = fst (last B)"
    have Bl: "B = B0 @ [(p, i)]" 
      using append_butlast_last_id [OF touch(1)] touch(2) unfolding B0_def p_def
      by (metis prod.collapse)
    have c0: "rcur K d it (B0 @ [(p, i)]) A" using c Bl by simp
    define q where "q = it_prev d it"
    define d1 where "d1 = it_adjust d q 0 1"
    note c1 = rv.grow_prev [OF c0, of 1, simplified, folded q_def, folded d1_def]
    have dq: "it_deref d1 q = (p, Suc i)" by (rule rv.deref [OF c1(1)])
    have notin: "\<not> (A \<noteq> [] \<and> fst (it_deref d it) \<le> i)" using touch(3) cur by auto
    have step: "do_add K d it i = (if A \<noteq> [] \<and> Suc i = fst (it_deref d1 it)
        then let (d3, it3) = rv_erase (it_adjust d1 q 0
               (int (snd (it_deref d1 it)) - int (fst (it_deref d1 it)))) it
             in Some (d3, it_prev d3 it3)
        else Some (d1, q))"
      using touch no_assert pos prev notin dq
      by (simp add: do_add_def Let_def flip: q_def d1_def) auto
    show ?thesis
    proof (cases "A \<noteq> [] \<and> fst (hd A) = Suc i")
      case True
      then obtain e A0 where A0: "A = (Suc i, e) # A0" by (cases A) auto
      have de: "it_deref d1 it = (Suc i, e)" using c1(2) unfolding A0 by (rule rv.deref)
      from rv.join_at [OF c1(1) [unfolded A0] c1(2) [unfolded A0]] obtain d3 it3 where
        e3: "rv_erase (it_adjust d1 q 0 (int e - int (Suc i))) it = (d3, it3)"
        and c3: "rcur K d3 (it_prev d3 it3) B0 ((p, Suc i + (e - Suc i)) # A0)" by blast
      have "Suc i \<le> e" using rv.ordered [OF c1(2) [unfolded A0]] by simp
      then have "B' = B0" "r = (p, Suc i + (e - Suc i))" "A' = A0"
        using res touch A0 Bl by (auto simp: add_ranges_def Let_def)
      then show ?thesis using step de e3 c3 A0 by simp
    next
      case False
      then have "B' = B0" "r = (p, Suc i)" "A' = A"
        using res touch Bl by (auto simp: add_ranges_def Let_def)
      moreover have "A \<noteq> [] \<longrightarrow> it_deref d1 it = hd A"
        using rv.deref [of K d1 it "B0 @ [(p, Suc i)]" "hd A" "tl A"] c1(2) by auto
      ultimately show ?thesis using step False c1(1) by auto
    qed
  next
    case front
    then obtain e A0 where A0: "A = (Suc i, e) # A0" by (cases A) auto
    have "do_add K d it i = Some (it_adjust d it (- 1) 0, it)"
      using front no_assert pos prev cur by (auto simp: do_add_def Let_def)
    moreover have "B' = B" "r = (i, e)" "A' = A0"
      using res front A0 by (auto simp: add_ranges_def Let_def)
    ultimately show ?thesis using rv.grow_front [OF c [unfolded A0]] by simp
  next
    case new
    have "do_add K d it i = rv_insert K d it (i, i + 1)"
      using new no_assert pos prev cur by (auto simp: do_add_def Let_def)
    moreover have "B' = B" "r = (i, Suc i)" "A' = A"
      using res new by (auto simp: add_ranges_def Let_def)
    moreover have "fits_between B (i, i + 1) A"
      using B new(2) ok by (cases A) (fastforce simp: fits_between_def ranges_ok_append ranges_ok_Cons)+
    ultimately show ?thesis using rv.ins [OF c, of "(i, i + 1)"] by simp
  qed
qed

lemma add_ranges_ok:
  assumes ok: "ranges_ok (B @ A)" and B: "\<forall>s \<in> set B. snd s \<le> i" and A: "A = [] \<or> i < snd (hd A)"
    and res: "add_ranges B i A = (B', r, A')"
  shows "ranges_ok (B' @ r # A')" "span (B' @ r # A') = insert i (span (B @ A))"
proof -
  let ?joins = "A \<noteq> [] \<and> fst (hd A) \<le> Suc i" and ?touches = "B \<noteq> [] \<and> snd (last B) = i"
  let ?inside = "A \<noteq> [] \<and> fst (hd A) \<le> i"
  define B0 A0 where "B0 = (if ?touches \<and> \<not> ?inside then butlast B else B)" and "A0 = (if ?joins then tl A else A)"
  define p q where "p = (if ?inside then fst (hd A) else if ?touches then fst (last B) else i)"
    and "q = (if ?joins then snd (hd A) else Suc i)"
  have eq: "B' = B0" "r = (p, q)" "A' = A0"
    using res by (auto simp: add_ranges_def Let_def B0_def A0_def p_def q_def)
  have okB: "ranges_ok B" and okA: "ranges_ok A" and BA: "\<forall>s \<in> set B. \<forall>t \<in> set A. snd s < fst t"
    using ok by (simp_all add: ranges_ok_append)
  have hA: "fst (hd A) < snd (hd A)" "hd A \<in> set A" "\<forall>t \<in> set (tl A). snd (hd A) < fst t" "ranges_ok (tl A)"
    if "A \<noteq> []" using okA that by (cases A; simp add: ranges_ok_Cons)+
  have lB: "fst (last B) < snd (last B)" "\<forall>s \<in> set (butlast B). snd s < fst (last B)" "ranges_ok (butlast B)"
    if "B \<noteq> []" using okB that by (cases B rule: rev_cases; simp add: ranges_ok_append ranges_ok_Cons)+
  have spA: "span A = {fst (hd A)..<snd (hd A)} \<union> span (tl A)" if "A \<noteq> []"
    using that by (cases A) auto
  have spB: "span B = span (butlast B) \<union> {fst (last B)..<snd (last B)}" if "B \<noteq> []"
    using that by (cases B rule: rev_cases) auto
  have "ranges_ok B0" "ranges_ok A0" using okA okB hA lB by (auto simp: A0_def B0_def)
  moreover have "p < q" using A hA lB by (auto simp: p_def q_def)
  moreover have "\<forall>s \<in> set B0. snd s < p"
  proof
    fix s assume s: "s \<in> set B0"
    consider "?inside" | "?touches" "\<not> ?inside" | "\<not> ?touches" "\<not> ?inside" by blast
    then show "snd s < p"
    proof cases
      case 3
      have "snd s \<noteq> i"
      proof
        assume "snd s = i"
        moreover have sB: "s \<in> set B" using s 3 by (simp add: B0_def)
        moreover have "s \<in> set (butlast B) \<or> s = last B"
          using sB by (cases B rule: rev_cases) auto
        moreover have "B \<noteq> []" "last B \<in> set B" using sB by (cases B; simp)+
        ultimately show False using 3 B lB by fastforce
      qed
      moreover have "s \<in> set B" using s by (auto simp: B0_def dest: in_set_butlastD split: if_splits)
      moreover have "p = i" unfolding p_def using 3 by (simp only: if_False)
      ultimately show ?thesis using B by (simp add: le_neq_implies_less)
    next
      case 1 then show ?thesis using s BA hA by (auto simp: B0_def p_def)
    next
      case 2 then show ?thesis using s lB by (auto simp: B0_def p_def)
    qed
  qed
  moreover have qA: "\<forall>t \<in> set A0. q < fst t"
  proof (cases ?joins)
    case True
    then show ?thesis using hA by (auto simp: A0_def q_def)
  next
    case False
    then show ?thesis using okA by (cases A) (auto simp: A0_def q_def ranges_ok_Cons)
  qed
  moreover have "snd s < fst t" if "s \<in> set B0" "t \<in> set A0" for s t
    using \<open>p < q\<close> \<open>\<forall>s \<in> set B0. snd s < p\<close> qA that by (meson less_trans)
  ultimately show "ranges_ok (B' @ r # A')" unfolding eq by (simp add: ranges_ok_append ranges_ok_Cons)
  have "span B0 \<union> {p..<q} \<union> span A0 = insert i (span B \<union> span A)"
  proof (cases ?inside)
    case True
    then have "B0 = B" "{p..<q} \<union> span A0 = span A" "i \<in> span A"
      using A spA by (simp_all add: B0_def A0_def p_def q_def)
    then show ?thesis by (simp add: Un_assoc insert_absorb)
  next
    case False
    have 1: "span B0 \<union> {p..<Suc i} = insert i (span B)"
      using False spB lB by (cases ?touches) (auto simp: B0_def p_def)
    have 2: "{Suc i..<q} \<union> span A0 = span A"
    proof (cases ?joins)
      case True
      then have "fst (hd A) = Suc i" using False by simp
      then show ?thesis using True spA by (simp add: A0_def q_def)
    next
      case False
      then have "A0 = A" "q = Suc i" unfolding A0_def q_def by (simp_all only: if_False)
      then show ?thesis by simp
    qed
    have 3: "{p..<q} = {p..<Suc i} \<union> {Suc i..<q}"
      using False lB hA A by (auto simp: p_def q_def)
    show ?thesis unfolding 3 using 1 2 by auto
  qed
  then show "span (B' @ r # A') = insert i (span (B @ A))" unfolding eq by (simp add: Un_assoc)
qed

lemma below_above_pre:
  "\<forall>s \<in> set (rbelow i rs). snd s \<le> i" "rabove i rs = [] \<or> i < snd (hd (rabove i rs))"
  using below_le above_hd [of i rs] by (auto, cases "rabove i rs") auto

lemma do_add_vec:
  assumes c: "rcur K d it B A" and ok: "ranges_ok (B @ A)"
    and B: "\<forall>s \<in> set B. snd s \<le> i" and A: "A = [] \<or> i < snd (hd A)"
  shows "\<exists>d' it'. do_add K d it i = Some (d', it') \<and> vec_ok K d' \<and>
    indices d' = insert i (indices d) \<and>
    (\<exists>B' r A'. add_ranges B i A = (B', r, A') \<and> rcur K d' it' B' (r # A'))"
proof -
  obtain B' r A' where res: "add_ranges B i A = (B', r, A')" by (metis prod_cases3)
  from do_add_cursor [OF c ok B A res] obtain d' it' where
    "do_add K d it i = Some (d', it')" "rcur K d' it' B' (r # A')" by blast
  then show ?thesis
    using add_ranges_ok(1,2) [OF ok B A res] rcur_flat [of K d' it'] rcur_flat [OF c] res
    by (auto simp: indices_def intro: rcur_vec_ok)
qed

lemma add_indices:
  assumes "vec_ok K d"
  shows "\<exists>d'. add K d i = Some d' \<and> vec_ok K d' \<and> indices d' = insert i (indices d)"
proof -
  have "ranges_ok (rbelow i (flat d) @ rabove i (flat d))" using assms by auto
  from do_add_vec [OF rcur_find [OF assms] this below_above_pre] show ?thesis
    by (auto simp: add_def)
qed

section \<open>Whole chunks at a cursor\<close>

definition lens :: "range list \<Rightarrow> size_t" where
  "lens rs = sum_list (map (\<lambda>r. snd r - fst r) rs)"

lemma lens_simps [simp]: "lens [] = 0" "lens (r # rs) = (snd r - fst r) + lens rs"
  "lens (rs @ ss) = lens rs + lens ss"
  by (simp_all add: lens_def)

lemma rcur_chunk:
  assumes "rcur K d it B A" "snd it = 0" "\<not> at_end d it"
  obtains cs A' where "A = cs @ A'" "cs \<noteq> []" "rcur K d (next_chunk it) (B @ cs) A'"
    "chunk_end (d ! fst it) = snd (last cs)" "chunk_count (d ! fst it) = lens cs"
proof -
  have K: "even K" "0 < K" and c: "cursor K d it B A" using assms(1) by (simp_all add: rcur_def)
  obtain r A0 where A0: "A = r # A0" using cursor_at_end [OF c] assms(3) by (cases A) auto
  from c [unfolded A0] obtain P c S xs ys where d: "d = P @ c # S" "it = (length P, length xs)"
    "chunk_data c = xs @ r # ys" "B = flat P @ xs" "A0 = ys @ flat S"
    "chunks_ok K P" "chunk_ok K c" "chunks_ok K S" by (rule cursorE)
  have xs: "xs = []" using d(2) assms(2) by simp
  have "cursor K d (next_chunk it) (B @ r # ys) (flat S)"
    using cursor_chunk_start [of K "P @ [c]" S] d xs by (simp add: next_chunk_def)
  then show thesis
    using d xs A0 K by (intro that [of "r # ys" "flat S"]) (auto simp: rcur_def chunk_ok_def lens_def)
qed

lemma shift_ranges_ge: "i \<le> shift_ranges rs i"
proof (induction rs arbitrary: i)
  case (Cons r rs)
  show ?case using Cons [of "i + (snd r - fst r)"] by (auto simp: le_trans)
qed simp

lemma shift_ranges_append:
  "\<forall>r \<in> set rs. fst r \<le> i \<Longrightarrow> shift_ranges (rs @ ss) i = shift_ranges ss (i + lens rs)"
proof (induction rs arbitrary: i)
  case (Cons r rs)
  then have "\<forall>s \<in> set rs. fst s \<le> i + (snd r - fst r)" by (auto intro: trans_le_add1)
  with Cons show ?case by (simp add: add.assoc)
qed simp

lemma add_shifted_ranges_cursor:
  assumes "rcur K d it B A" "ranges_ok A"
  shows "\<exists>it'. add_shifted_ranges d it i = (it', shift_ranges A i) \<and>
    rcur K d it' (B @ rbelow (shift_ranges A i) A) (rabove (shift_ranges A i) A)"
  using assms
proof (induction A arbitrary: it B i)
  case Nil
  then show ?case using rcur_at_end [OF Nil.prems(1)]
    by (simp add: add_shifted_ranges.simps [of d it i] rbelow_def rabove_def)
next
  case (Cons r A)
  note c = Cons.prems(1)
  have ne: "\<not> at_end d it" using rcur_at_end [OF c] by simp
  have lt: "fst r < snd r" using Cons.prems(2) by (simp add: ranges_ok_Cons)
  show ?case
  proof (cases "fst r \<le> i")
    case False
    then show ?thesis using c lt
      by (simp add: add_shifted_ranges.simps [of d it i] rv.deref [OF c] rbelow_def rabove_def)
  next
    case True
    let ?i = "i + (snd r - fst r)"
    have "snd r \<le> shift_ranges A ?i" using shift_ranges_ge [of ?i A] True by simp
    then show ?thesis
      using Cons.IH [OF rv.nxt [OF c], of ?i] Cons.prems(2) ne True
      by (auto simp: add_shifted_ranges.simps [of d it i] rv.deref [OF c] rbelow_def rabove_def)
  qed
qed

lemma add_shifted_chunks_cursor:
  assumes "rcur K d it B A" "ranges_ok A" "snd it = 0"
  shows "\<exists>it1 i1 B1 A1. add_shifted_chunks d it i = (it1, i1) \<and> rcur K d it1 (B @ B1) A1 \<and>
    A = B1 @ A1 \<and> shift_ranges A1 i1 = shift_ranges A i \<and> (\<forall>r \<in> set B1. snd r \<le> i1) \<and> i \<le> i1"
  using assms
proof (induction "length d - fst it" arbitrary: it B A i rule: less_induct)
  case less
  show ?case
  proof (cases "\<not> at_end d it \<and> chunk_end (d ! fst it) \<le> i")
    case False
    then have "add_shifted_chunks d it i = (it, i)" by (subst add_shifted_chunks.simps) auto
    moreover have "rcur K d it (B @ []) A" using less.prems(1) by simp
    ultimately show ?thesis by fastforce
  next
    case True
    then have ne: "\<not> at_end d it" by simp
    obtain cs A' where cs: "A = cs @ A'" "cs \<noteq> []" "rcur K d (next_chunk it) (B @ cs) A'"
      "chunk_end (d ! fst it) = snd (last cs)" "chunk_count (d ! fst it) = lens cs"
      using rcur_chunk [OF less.prems(1,3) ne] by blast
    have oks: "ranges_ok cs" "ranges_ok A'" using less.prems(2) cs(1) by (simp_all add: ranges_ok_append)
    have le: "\<forall>r \<in> set cs. snd r \<le> i" using sorted_ends_le [OF oks(1) cs(2)] cs(4) True by simp
    then have le': "\<forall>r \<in> set cs. fst r \<le> i" using ranges_ok_nonempty [OF oks(1)] by fastforce
    have "length d - fst (next_chunk it) < length d - fst it"
      using ne by (simp add: at_end_def next_chunk_def)
    from less.hyps [OF this cs(3) oks(2), of "i + lens cs"] next_chunk_def obtain it1 i1 B1 A1 where
      h: "add_shifted_chunks d (next_chunk it) (i + lens cs) = (it1, i1)"
        "rcur K d it1 ((B @ cs) @ B1) A1" "A' = B1 @ A1"
        "shift_ranges A1 i1 = shift_ranges A' (i + lens cs)" "\<forall>r \<in> set B1. snd r \<le> i1"
        "i + lens cs \<le> i1" by (auto simp: next_chunk_def)
    have "add_shifted_chunks d it i = (it1, i1)"
      using True cs h by (simp add: add_shifted_chunks.simps [of d it i])
    moreover have "rcur K d it1 (B @ (cs @ B1)) A1" "A = (cs @ B1) @ A1" using h cs by simp_all
    moreover have "shift_ranges A1 i1 = shift_ranges A i" using shift_ranges_append [OF le', of A'] cs h by simp
    moreover have "\<forall>r \<in> set (cs @ B1). snd r \<le> i1" using le h by fastforce
    moreover have "i \<le> i1" using h(6) by simp
    ultimately show ?thesis by blast
  qed
qed

lemma shift_ranges_rank:
  "ranges_ok rs \<Longrightarrow> shift_ranges rs i \<notin> span rs \<and> shift_ranges rs i = i + rank (span rs) (shift_ranges rs i)"
proof (induction rs arbitrary: i)
  case (Cons r rs)
  have lt: "fst r < snd r" "ranges_ok rs" using Cons.prems by (auto simp: ranges_ok_Cons)
  show ?case
  proof (cases "i < fst r")
    case True
    have "span (r # rs) \<subseteq> {fst r..}" using span_Min_le [OF Cons.prems] by auto
    with True have "i \<notin> span (r # rs)" "rank (span (r # rs)) i = 0"
      by (auto intro!: rank_none)
    with True show ?thesis by simp
  next
    case False
    define j where "j = shift_ranges rs (i + (snd r - fst r))"
    have j: "j \<notin> span rs" "j = i + (snd r - fst r) + rank (span rs) j"
      using Cons.IH [OF lt(2)] by (simp_all add: j_def)
    have "{fst r..<snd r} \<inter> span rs = {}" using span_ge [OF Cons.prems] by fastforce
    then have "rank (span (r # rs)) j = (min (snd r) j - fst r) + rank (span rs) j"
      by (simp add: rank_Un rank_interval)
    moreover have "snd r \<le> j" using j(2) False lt by linarith
    moreover have e: "shift_ranges (r # rs) i = j" using False by (simp add: j_def)
    ultimately show ?thesis unfolding e using False j lt by auto
  qed
qed simp

lemma shift_ranges_shift_in: "ranges_ok rs \<Longrightarrow> shift_ranges rs i = shift_in (span rs) i"
  using shift_ranges_rank [of rs i] by (intro shift_in_eqI [symmetric]) (auto simp: unshift_in_def)

lemma add_shifted_indices:
  assumes "vec_ok K d"
  shows "\<exists>d'. add_shifted K d i = Some (d', shift_in (indices d) i) \<and> vec_ok K d' \<and>
    indices d' = insert (shift_in (indices d) i) (indices d)"
proof -
  let ?A = "flat d" and ?j = "shift_ranges (flat d) i"
  have ok: "ranges_ok ?A" using assms by auto
  have j: "shift_in (indices d) i = ?j" by (simp add: indices_def shift_ranges_shift_in [OF ok])
  have "snd (it_begin d) = 0" by (simp add: it_begin_def)
  from add_shifted_chunks_cursor [OF rcur_begin [OF assms] ok this, of i] obtain it1 i1 B1 A1 where
    1: "add_shifted_chunks d (it_begin d) i = (it1, i1)" "rcur K d it1 B1 A1" "?A = B1 @ A1"
      "shift_ranges A1 i1 = ?j" "\<forall>r \<in> set B1. snd r \<le> i1" by auto
  have ok1: "ranges_ok A1" using ok by (simp add: 1 ranges_ok_append)
  from add_shifted_ranges_cursor [OF 1(2) ok1, of i1] obtain it2 where
    2: "add_shifted_ranges d it1 i1 = (it2, ?j)" "rcur K d it2 (B1 @ rbelow ?j A1) (rabove ?j A1)"
    using 1(4) by auto
  have "\<forall>s \<in> set (B1 @ rbelow ?j A1). snd s \<le> ?j"
    using 1(5) shift_ranges_ge [of i1 A1] below_le 1(4) by fastforce
  moreover have "ranges_ok ((B1 @ rbelow ?j A1) @ rabove ?j A1)" using ok 1(3) by simp
  ultimately obtain d' it' where "do_add K d it2 ?j = Some (d', it')" "vec_ok K d'"
    "indices d' = insert ?j (indices d)"
    using do_add_vec [OF 2(2), of ?j] below_above_pre(2) by blast
  then show ?thesis using 1(1) 2(1) by (simp add: add_shifted_def j)
qed

end
