(* ===== verification/Index_Set_Rank.thy ===== *)
theory Index_Set_Rank
  imports Index_Set_Laws
begin

text \<open>
  Counting: \<open>IndexSet::count\<close> and \<open>IndexSet::unshift\<close> compute ranks, and
  \<open>IndexSet::shift\<close> is the inverse of \<open>unshift\<close> outside the set.
\<close>

section \<open>Ranks on lists of ranges\<close>

lemma card_span: "ranges_ok rs \<Longrightarrow> card (span rs) = lens rs"
proof (induction rs)
  case (Cons r rs)
  have "{fst r..<snd r} \<inter> span rs = {}" using span_ge [OF Cons.prems] by fastforce
  then have "card (span (r # rs)) = card {fst r..<snd r} + card (span rs)"
    unfolding span_Cons by (intro card_Un_disjoint) auto
  then show ?case using Cons by auto
qed simp

lemma span_append_disjoint: "ranges_ok (B @ A) \<Longrightarrow> span B \<inter> span A = {}"
  by (fastforce simp: span_def ranges_ok_append)

lemma rank_passed:
  assumes "ranges_ok (B @ A)" "\<forall>r \<in> set B. snd r \<le> i"
  shows "rank (span (B @ A)) i = lens B + rank (span A) i"
proof -
  have "span B \<subseteq> {..<i}" using assms(2) by (fastforce simp: span_def)
  then have "rank (span B) i = lens B"
    using assms(1) by (simp add: rank_all card_span ranges_ok_append)
  then show ?thesis using span_append_disjoint [OF assms(1)] by (simp add: rank_Un)
qed

lemma rank_here:
  assumes "ranges_ok A" "A = [] \<or> i < snd (hd A)"
  shows "rank (span A) i = (if A \<noteq> [] \<and> fst (hd A) < i then i - fst (hd A) else 0)"
proof (cases A)
  case (Cons r A')
  have "span A' \<subseteq> {i..}" "{fst r..<snd r} \<inter> span A' = {}"
    using span_ge [of r A'] assms Cons by fastforce+
  then have "rank (span A) i = rank {fst r..<snd r} i"
    by (simp add: Cons rank_Un rank_none)
  then show ?thesis using assms Cons by (auto simp: rank_interval)
qed simp

section \<open>The counting loops\<close>

lemma count_ranges_cursor:
  assumes "rcur K d it B A"
  shows "\<exists>it'. count_ranges d it e ret = (it', ret + lens (rbelow e A)) \<and>
    rcur K d it' (B @ rbelow e A) (rabove e A)"
  using assms
proof (induction A arbitrary: it B ret)
  case Nil
  then show ?case using rcur_at_end [OF Nil.prems]
    by (simp add: count_ranges.simps [of d it e] rbelow_def rabove_def)
next
  case (Cons r A)
  note c = Cons.prems
  have ne: "\<not> at_end d it" using rcur_at_end [OF c] by simp
  show ?case
  proof (cases "snd r \<le> e")
    case False
    then show ?thesis using c
      by (simp add: count_ranges.simps [of d it e] rv.deref [OF c] rbelow_def rabove_def)
  next
    case True
    then show ?thesis
      using Cons.IH [OF rv.nxt [OF c], of "ret + (snd r - fst r)"] ne
      by (auto simp: count_ranges.simps [of d it e] rv.deref [OF c] rbelow_def rabove_def)
  qed
qed

lemma count_chunks_cursor:
  assumes "rcur K d it B A" "ranges_ok A" "snd it = 0"
  shows "\<exists>it1 B1 A1. count_chunks d it e ret = (it1, ret + lens B1) \<and> rcur K d it1 (B @ B1) A1 \<and>
    A = B1 @ A1 \<and> (\<forall>r \<in> set B1. snd r \<le> e)"
  using assms
proof (induction "length d - fst it" arbitrary: it B A ret rule: less_induct)
  case less
  show ?case
  proof (cases "\<not> at_end d it \<and> chunk_end (d ! fst it) \<le> e")
    case False
    then have "count_chunks d it e ret = (it, ret + lens [])" by (subst count_chunks.simps) auto
    moreover have "rcur K d it (B @ []) A" "A = [] @ A" "\<forall>r \<in> set []. snd r \<le> e"
      using less.prems(1) by simp_all
    ultimately show ?thesis by blast
  next
    case True
    then have ne: "\<not> at_end d it" by simp
    obtain cs A' where cs: "A = cs @ A'" "cs \<noteq> []" "rcur K d (next_chunk it) (B @ cs) A'"
      "chunk_end (d ! fst it) = snd (last cs)" "chunk_count (d ! fst it) = lens cs"
      using rcur_chunk [OF less.prems(1,3) ne] by blast
    have oks: "ranges_ok cs" "ranges_ok A'" using less.prems(2) cs(1) by (simp_all add: ranges_ok_append)
    have le: "\<forall>r \<in> set cs. snd r \<le> e" using sorted_ends_le [OF oks(1) cs(2)] cs(4) True by simp
    have "length d - fst (next_chunk it) < length d - fst it"
      using ne by (simp add: at_end_def next_chunk_def)
    from less.hyps [OF this cs(3) oks(2), of "ret + lens cs"] obtain it1 B1 A1 where
      h: "count_chunks d (next_chunk it) e (ret + lens cs) = (it1, ret + lens cs + lens B1)"
        "rcur K d it1 ((B @ cs) @ B1) A1" "A' = B1 @ A1" "\<forall>r \<in> set B1. snd r \<le> e"
      by (auto simp: next_chunk_def)
    have "count_chunks d it e ret = (it1, ret + lens (cs @ B1))"
      using True cs h by (simp add: count_chunks.simps [of d it e] add.assoc)
    moreover have "rcur K d it1 (B @ (cs @ B1)) A1" "A = (cs @ B1) @ A1" using h cs by simp_all
    moreover have "\<forall>r \<in> set (cs @ B1). snd r \<le> e" using le h by fastforce
    ultimately show ?thesis by blast
  qed
qed

lemma rabove_append: "\<forall>r \<in> set B. snd r \<le> i \<Longrightarrow> rabove i (B @ A) = rabove i A"
  by (simp add: rabove_def dropWhile_append_all)

lemma rbelow_append: "\<forall>r \<in> set B. snd r \<le> i \<Longrightarrow> rbelow i (B @ A) = B @ rbelow i A"
  by (simp add: rbelow_def takeWhile_append_all)

lemma rank_rbelow:
  assumes "ranges_ok A"
  shows "rank (span A) i = lens (rbelow i A) + rank (span (rabove i A)) i"
  using rank_passed [of "rbelow i A" "rabove i A" i] assms below_le by simp

lemma count_rest_rank:
  assumes c: "rcur K d it B A" and ok: "ranges_ok A" and s: "snd it = 0"
  shows "count_rest d it e ret = ret + rank (span A) e"
proof -
  from count_chunks_cursor [OF assms, of e ret] obtain it1 B1 A1 where
    1: "count_chunks d it e ret = (it1, ret + lens B1)" "rcur K d it1 (B @ B1) A1"
      "A = B1 @ A1" "\<forall>r \<in> set B1. snd r \<le> e" by blast
  from count_ranges_cursor [OF 1(2), of e "ret + lens B1"] obtain it2 where
    2: "count_ranges d it1 e (ret + lens B1) = (it2, ret + lens B1 + lens (rbelow e A1))"
      "rcur K d it2 ((B @ B1) @ rbelow e A1) (rabove e A1)" by blast
  have ok1: "ranges_ok A1" "ranges_ok (rabove e A1)"
    using ok 1(3) ranges_ok_append [of "rbelow e A1" "rabove e A1"] by (simp_all add: ranges_ok_append)
  have "rank (span A) e = lens B1 + lens (rbelow e A1) + rank (span (rabove e A1)) e"
    using rank_passed [of B1 A1 e] rank_rbelow [OF ok1(1), of e] ok 1(3,4) by simp
  moreover have "it_deref d it2 = hd (rabove e A1)" if "rabove e A1 \<noteq> []"
    using rv.deref [of K d it2 "(B @ B1) @ rbelow e A1" "hd (rabove e A1)" "tl (rabove e A1)"] 2(2) that by simp
  ultimately show ?thesis
    using rank_here [OF ok1(2) below_above_pre(2) [of e A1]] rcur_at_end [OF 2(2)]
    by (auto simp: count_rest_def 1(1) 2(1))
qed

lemma rabove_0: "ranges_ok rs \<Longrightarrow> rabove 0 rs = rs \<and> rbelow 0 rs = []"
  by (cases rs) (auto simp: rabove_def rbelow_def ranges_ok_Cons)

lemma count_from_0:
  assumes "vec_ok K d"
  shows "count_set d 0 e = rank (indices d) e"
proof -
  have ok: "ranges_ok (flat d)" using assms by auto
  have c: "rcur K d (find_index d 0) [] (flat d)"
    using rcur_find [OF assms, of 0] rabove_0 [OF ok] by simp
  then have f: "find_index d 0 = it_begin d" using rcur_begin_iff by blast
  have s: "snd (it_begin d) = 0" by (simp add: it_begin_def)
  show ?thesis
  proof (cases "flat d")
    case Nil
    then show ?thesis using rcur_at_end [OF c] by (simp add: count_set_def indices_def)
  next
    case (Cons r A)
    note c' = c [unfolded Cons f]
    note D = rv.deref [OF c'] rcur_at_end [OF c']
    consider "e \<le> fst r" | "fst r < e" "e \<le> snd r" | "snd r < e" by linarith
    then show ?thesis
    proof cases
      case 1
      then have "span (flat d) \<subseteq> {e..}" using span_Min_le [of r A] ok Cons by fastforce
      then show ?thesis using 1 D f by (simp add: count_set_def indices_def rank_none)
    next
      case 2
      have "span A \<subseteq> {e..}" using span_ge [of r A] ok 2 by (fastforce simp: Cons)
      then have "rank (span A) e = 0" by (rule rank_none)
      then have "rank (span (r # A)) e = e - fst r"
        using span_append_disjoint [of "[r]" A] ok Cons 2 by (simp add: rank_Un rank_interval)
      then show ?thesis using 2 D f by (simp add: count_set_def indices_def Cons)
    next
      case 3
      moreover have "fst r < snd r" using ok by (simp add: Cons ranges_ok_Cons)
      ultimately show ?thesis
        using count_rest_rank [OF c' _ s, of e 0] D f s ok by (simp add: count_set_def indices_def Cons)
    qed
  qed
qed

lemma unshift_indices: "vec_ok K d \<Longrightarrow> unshift d i = unshift_in (indices d) i"
  by (simp add: unshift_def count_from_0 unshift_in_def)

lemma shift_indices: "vec_ok K d \<Longrightarrow> shift d i = shift_in (indices d) i"
  by (simp add: shift_def indices_def shift_ranges_shift_in vec_ok_def)

end
