(* ===== verification/Index_Set_Edit.thy ===== *)
theory Index_Set_Edit
  imports Index_Set_Rank
begin

text \<open>
  The operations that move or remove indices: \<open>insert_at\<close>, \<open>shift_for_insert_at\<close>, \<open>erase_at\<close>,
  \<open>erase_or_unshift\<close> and \<open>remove\<close>, each read as an image or a difference of the set of indices.
\<close>

section \<open>Shifting the rest of a vector\<close>

definition moved :: "int \<Rightarrow> range \<Rightarrow> range" where
  "moved k r = (add_off (fst r) k, add_off (snd r) k)"

lemma moved_simps [simp]: "moved (int n) r = (fst r + n, snd r + n)" "moved (- 1) r = (fst r - 1, snd r - 1)"
  by (simp_all add: moved_def)

lemma shift_rest_cursor:
  assumes "rcur K d it B A" "\<forall>r \<in> set A. 0 \<le> int (fst r) + k"
  shows "rcur K (shift_rest d it k) it B (map (moved k) A) \<and> same_shape d (shift_rest d it k)"
  using assms
proof (induction A arbitrary: d it B)
  case Nil
  then show ?case using rcur_at_end [OF Nil.prems(1)] by (simp add: shift_rest.simps [of d it k])
next
  case (Cons r A)
  obtain a b where r: "r = (a, b)" by (cases r)
  note c = Cons.prems(1) [unfolded r]
  define e where "e = it_shift d it k"
  have e: "rcur K e it B (moved k r # A)" "same_shape d e"
    using rv.shf [OF c, of k] Cons.prems(2) by (simp_all add: r moved_def e_def)
  define D where "D = shift_rest e (it_next e it) k"
  have D: "rcur K D (it_next e it) (B @ [moved k r]) (map (moved k) A)" "same_shape e D"
    using Cons.IH [OF rv.nxt [OF e(1)]] Cons.prems(2) by (simp_all add: D_def)
  have "shift_rest d it k = D"
    using rcur_at_end [OF c] by (simp add: shift_rest.simps [of d it k] e_def D_def Let_def)
  moreover have "rcur K D it B (moved k r # map (moved k) A)"
    by (rule rv.frame [OF e(1) D(2) D(1)]) simp_all
  ultimately show ?case using same_shape_trans [OF e(2) D(2)] by simp
qed

lemma span_moved_up: "span (map (moved (int n)) A) = (\<lambda>i. i + n) ` span A"
  by (induction A) (simp_all add: image_Un)

lemma ranges_ok_moved_up [simp]: "ranges_ok (map (moved (int n)) A) \<longleftrightarrow> ranges_ok A"
  by (induction A) (auto simp: ranges_ok_Cons)

lemma span_moved_down:
  assumes "\<forall>r \<in> set A. 0 < fst r"
  shows "span (map (moved (- 1)) A) = (\<lambda>i. i - 1) ` span A"
  using assms
proof (induction A)
  case (Cons r A)
  have "(\<lambda>i. i - 1) ` {fst r..<snd r} = {fst r - 1..<snd r - 1}"
    using image_minus_const_atLeastLessThan_nat [of 1 "fst r" "snd r"] Cons.prems by simp
  with Cons show ?case by (simp add: image_Un)
qed simp

lemma ranges_ok_moved_down:
  "\<forall>r \<in> set A. 0 < fst r \<Longrightarrow> ranges_ok A \<Longrightarrow> ranges_ok (map (moved (- 1)) A)"
  by (induction A) (auto simp: ranges_ok_Cons intro: diff_less_mono)

text \<open>The set operations the code's handlers stand for.\<close>

definition bump :: "size_t \<Rightarrow> nat \<Rightarrow> size_t \<Rightarrow> size_t" where
  "bump i n j = (if j < i then j else j + n)"

definition unbump :: "size_t \<Rightarrow> size_t \<Rightarrow> size_t" where
  "unbump i j = (if i < j then j - 1 else j)"

lemma bump_image:
  assumes "B \<subseteq> {..<i}" "A \<subseteq> {i..}"
  shows "bump i n ` (B \<union> A) = B \<union> (\<lambda>j. j + n) ` A"
proof -
  have "bump i n ` B = B" using assms(1) by (force simp: bump_def)
  moreover have "bump i n ` A = (\<lambda>j. j + n) ` A" using assms(2) by (force simp: bump_def)
  ultimately show ?thesis by (simp add: image_Un)
qed

lemma unbump_image:
  assumes "B \<subseteq> {..<i}" "A \<subseteq> {i<..}"
  shows "unbump i ` (B \<union> A) = B \<union> (\<lambda>j. j - 1) ` A"
proof -
  have "unbump i ` B = B" using assms(1) by (force simp: unbump_def)
  moreover have "unbump i ` A = (\<lambda>j. j - 1) ` A" using assms(2) by (force simp: unbump_def)
  ultimately show ?thesis by (simp add: image_Un)
qed

lemma unbump_unshift: "unbump i j = unshift_in {i} j"
proof -
  have "{i} \<inter> {..<j} = (if i < j then {i} else {})" by auto
  then show ?thesis by (simp add: unbump_def unshift_in_def rank_def)
qed

lemma bump_shift_in: "bump i n j = shift_in {i..<i + n} j"
  by (rule shift_in_eqI [symmetric]) (auto simp: bump_def unshift_in_def rank_interval)

section \<open>Inserting\<close>

lemma above_span_ge: "ranges_ok rs \<Longrightarrow> rabove i rs = r # A \<Longrightarrow> i \<le> fst r \<Longrightarrow> span (r # A) \<subseteq> {i..}"
  using span_Min_le [of r A] below_above [of i rs] ranges_ok_append [of "rbelow i rs" "rabove i rs"]
  by fastforce

lemma add_run_cursor:
  assumes "rcur K d pos B A" "ranges_ok (B @ A)" "\<forall>s \<in> set B. snd s \<le> i" "A = [] \<or> i + n < fst (hd A)"
  shows "\<exists>d'. add_run K d pos i n = Some d' \<and> vec_ok K d' \<and> indices d' = indices d \<union> {i..<i + n}"
  using assms
proof (induction n arbitrary: d pos B i)
  case 0
  then show ?case using rcur_vec_ok [OF 0(1,2)] by simp
next
  case (Suc n)
  note c = Suc.prems(1) and ok = Suc.prems(2) and B = Suc.prems(3)
  have A: "A = [] \<or> i < snd (hd A)"
    using Suc.prems(4) rv.ordered [of K d pos B "hd A" "tl A"] c by (cases A) auto
  from do_add_vec [OF c ok B A] obtain d' p B' r A' where
    1: "do_add K d pos i = Some (d', p)" "vec_ok K d'" "indices d' = insert i (indices d)"
      "add_ranges B i A = (B', r, A')" "rcur K d' p B' (r # A')" by blast
  have eq: "A' = A" "snd r = Suc i" "set B' \<subseteq> set B"
    using 1(4) Suc.prems(4) by (auto simp: add_ranges_def Let_def dest: in_set_butlastD split: if_splits)
  have "ranges_ok ((B' @ [r]) @ A)" using add_ranges_ok(1) [OF ok B A 1(4)] eq by simp
  moreover have "\<forall>s \<in> set (B' @ [r]). snd s \<le> Suc i" using eq B by force
  moreover have "A = [] \<or> Suc i + n < fst (hd A)" using Suc.prems(4) by auto
  moreover have "rcur K d' (it_next d' p) (B' @ [r]) A" using rv.nxt [OF 1(5)] eq by simp
  ultimately obtain D where "add_run K d' (it_next d' p) (Suc i) n = Some D" "vec_ok K D"
    "indices D = indices d' \<union> {Suc i..<Suc i + n}"
    using Suc.IH by blast
  moreover have "{i..<i + Suc n} = insert i {Suc i..<Suc i + n}" by auto
  ultimately show ?case using 1(1,3) by simp
qed

lemma insert_at_indices:
  assumes v: "vec_ok K d" and n: "0 < n"
  shows "\<exists>d'. insert_at K d i n = Some d' \<and> vec_ok K d' \<and>
    indices d' = bump i n ` indices d \<union> {i..<i + n}"
proof -
  let ?B = "rbelow i (flat d)" and ?it = "find_index d i"
  note c = rcur_find [OF v, of i]
  have ok: "ranges_ok (?B @ rabove i (flat d))" using v by auto
  have B: "\<forall>s \<in> set ?B. snd s \<le> i" "span ?B \<subseteq> {..<i}" using below_le span_below by blast+
  have S: "indices d = span ?B \<union> span (rabove i (flat d))"
    unfolding indices_def by (simp flip: span_append)
  show ?thesis
  proof (cases "rabove i (flat d)")
    case Nil
    have "bump i n ` indices d = indices d" using bump_image [OF B(2), of "{}"] by (simp add: S Nil)
    then show ?thesis
      using add_run_cursor [OF c ok B(1), of n] rcur_at_end [OF c] n
      by (simp add: Nil insert_at_def)
  next
    case (Cons r A)
    obtain a b where r: "r = (a, b)" by (cases r)
    note c' = c [unfolded Cons r]
    have ib: "i < b" using above_hd [OF Cons] by (simp add: r)
    have oks: "ranges_ok ?B" "ranges_ok (r # A)" "ranges_ok A" "a < b"
      "\<forall>s \<in> set ?B. snd s < a \<and> (\<forall>t \<in> set A. snd s < fst t)" "\<forall>t \<in> set A. b < fst t"
      using ok by (auto simp: Cons r ranges_ok_append ranges_ok_Cons)
    have spA: "span A \<subseteq> {b<..}" using span_above [OF _ Cons] v by (auto simp: r)
    show ?thesis
    proof (cases "a \<le> i")
      case True
      define d1 where "d1 = it_adjust d ?it 0 (int n)"
      have c1: "rcur K d1 ?it ?B ((a, b + n) # A)" using rv.grow_back [OF c'] by (simp add: d1_def)
      define D where "D = shift_rest d1 (it_next d1 ?it) (int n)"
      have cD: "rcur K D (it_next d1 ?it) (?B @ [(a, b + n)]) (map (moved (int n)) A)"
        using shift_rest_cursor [OF rv.nxt [OF c1], of "int n"] by (simp add: D_def)
      have "insert_at K d i n = Some D"
        using rcur_at_end [OF c'] rv.deref [OF c'] True n by (simp add: insert_at_def D_def d1_def Let_def)
      moreover have "ranges_ok ((?B @ [(a, b + n)]) @ map (moved (int n)) A)"
        using oks by (fastforce simp: ranges_ok_append ranges_ok_Cons)
      moreover have "span ((?B @ [(a, b + n)]) @ map (moved (int n)) A) = bump i n ` indices d \<union> {i..<i + n}"
      proof -
        have "indices d = (span ?B \<union> {a..<i}) \<union> ({i..<b} \<union> span A)"
          using True ib by (auto simp: S Cons r)
        then have "bump i n ` indices d = (span ?B \<union> {a..<i}) \<union> (\<lambda>j. j + n) ` ({i..<b} \<union> span A)"
          using B(2) spA ib by (simp only:) (intro bump_image; auto)
        moreover have "{a..<b + n} = {a..<i} \<union> {i..<i + n} \<union> {i + n..<b + n}" using True ib by auto
        ultimately show ?thesis by (simp add: span_moved_up image_Un) blast
      qed
      ultimately show ?thesis using rcur_vec_ok [OF cD] rcur_flat [OF cD] by (simp add: indices_def)
    next
      case False
      define d1 where "d1 = it_shift d ?it (int n)"
      have c1: "rcur K d1 ?it ?B ((a + n, b + n) # A)" using rv.shift_up [OF c'] by (simp add: d1_def)
      define D where "D = shift_rest d1 (it_next d1 ?it) (int n)"
      have sh: "rcur K D (it_next d1 ?it) (?B @ [(a + n, b + n)]) (map (moved (int n)) A)" "same_shape d1 D"
        using shift_rest_cursor [OF rv.nxt [OF c1], of "int n"] by (simp_all add: D_def)
      have cD: "rcur K D ?it ?B (map (moved (int n)) (r # A))"
        by (rule rv.frame [OF c1 sh(2,1)]) (simp_all add: r)
      have e: "insert_at K d i n = add_run K D ?it i n"
        using rcur_at_end [OF c'] rv.deref [OF c'] False n by (simp add: insert_at_def D_def d1_def Let_def)
      have okD: "ranges_ok (?B @ map (moved (int n)) (r # A))"
        using oks ranges_ok_moved_up [of n "r # A"] by (fastforce simp: ranges_ok_append r)
      have fD: "indices D = bump i n ` indices d"
      proof -
        have "span (r # A) \<subseteq> {i..}" using above_span_ge [OF _ Cons] v False by (auto simp: r)
        then have "bump i n ` indices d = span ?B \<union> (\<lambda>j. j + n) ` span (r # A)"
          unfolding S Cons by (rule bump_image [OF B(2)])
        then show ?thesis
          using rcur_flat [OF cD] span_moved_up [of n "r # A"] by (simp only: indices_def span_append)
      qed
      show ?thesis
        using add_run_cursor [OF cD okD B(1), of n] False r by (simp add: e fD)
    qed
  qed
qed

lemma shift_for_insert_at_indices:
  assumes v: "vec_ok K d" and n: "0 < n"
  shows "\<exists>d'. shift_for_insert_at K d i n = Some d' \<and> vec_ok K d' \<and> indices d' = bump i n ` indices d"
proof -
  let ?B = "rbelow i (flat d)" and ?it = "find_index d i"
  note c = rcur_find [OF v, of i]
  have ok: "ranges_ok (?B @ rabove i (flat d))" using v by auto
  have B: "\<forall>s \<in> set ?B. snd s \<le> i" "span ?B \<subseteq> {..<i}" using below_le span_below by blast+
  have S: "indices d = span ?B \<union> span (rabove i (flat d))"
    unfolding indices_def by (simp flip: span_append)
  show ?thesis
  proof (cases "rabove i (flat d)")
    case Nil
    have "bump i n ` indices d = indices d" using bump_image [OF B(2), of "{}"] by (simp add: S Nil)
    then show ?thesis using rcur_at_end [OF c] n v by (simp add: Nil shift_for_insert_at_def)
  next
    case (Cons r A)
    obtain a b where r: "r = (a, b)" by (cases r)
    note c' = c [unfolded Cons r]
    define D where "D = shift_rest d ?it (int n)"
    have cD: "rcur K D ?it ?B ((a + n, b + n) # map (moved (int n)) A)"
      using shift_rest_cursor [OF c', of "int n"] by (simp add: D_def)
    have ib: "i < b" using above_hd [OF Cons] by (simp add: r)
    have oks: "ranges_ok ?B" "ranges_ok (r # A)" "ranges_ok A" "a < b"
      "\<forall>s \<in> set ?B. snd s < a \<and> (\<forall>t \<in> set A. snd s < fst t)" "\<forall>t \<in> set A. b < fst t"
      using ok by (auto simp: Cons r ranges_ok_append ranges_ok_Cons)
    have spA: "span A \<subseteq> {b<..}" using span_above [OF _ Cons] v by (auto simp: r)
    have e: "shift_for_insert_at K d i n =
        (if a < i then map_option fst (rv_insert K (it_set D ?it a i) (it_next (it_set D ?it a i) ?it)
           (i + n, b + n)) else Some D)"
      using rcur_at_end [OF c'] n rv.deref [OF cD] by (simp add: shift_for_insert_at_def Let_def D_def)
    show ?thesis
    proof (cases "a < i")
      case True
      have c1: "rcur K (it_set D ?it a i) (it_next (it_set D ?it a i) ?it) (?B @ [(a, i)]) (map (moved (int n)) A)"
        using rv.nxt [OF rv.setr [OF cD]] True by simp
      have "fits_between (?B @ [(a, i)]) (i + n, b + n) (map (moved (int n)) A)"
        using B(1) ib oks(6) by (auto simp: fits_between_def)
      from rv.ins [OF c1 this] obtain d' it' where
        d': "rv_insert K (it_set D ?it a i) (it_next (it_set D ?it a i) ?it) (i + n, b + n) = Some (d', it')"
          "rcur K d' it' (?B @ [(a, i)]) ((i + n, b + n) # map (moved (int n)) A)" by blast
      have "ranges_ok ((?B @ [(a, i)]) @ (i + n, b + n) # map (moved (int n)) A)"
        using oks True ib n by (fastforce simp: ranges_ok_append ranges_ok_Cons)
      moreover have "span ((?B @ [(a, i)]) @ (i + n, b + n) # map (moved (int n)) A) = bump i n ` indices d"
      proof -
        have "indices d = (span ?B \<union> {a..<i}) \<union> ({i..<b} \<union> span A)"
          using True ib by (auto simp: S Cons r)
        then have "bump i n ` indices d = (span ?B \<union> {a..<i}) \<union> (\<lambda>j. j + n) ` ({i..<b} \<union> span A)"
          using B(2) spA ib by (simp only:) (intro bump_image; auto)
        then show ?thesis by (simp add: span_moved_up image_Un Un_assoc)
      qed
      ultimately show ?thesis
        using e d'(1) True rcur_vec_ok [OF d'(2)] rcur_flat [OF d'(2)] by (simp add: indices_def)
    next
      case False
      have "span (r # A) \<subseteq> {i..}" using above_span_ge [OF _ Cons] v False by (auto simp: r)
      then have "bump i n ` indices d = span ?B \<union> (\<lambda>j. j + n) ` span (r # A)"
        unfolding S Cons by (rule bump_image [OF B(2)])
      moreover have "ranges_ok (?B @ map (moved (int n)) (r # A))"
        using oks ranges_ok_moved_up [of n "r # A"] by (fastforce simp: ranges_ok_append r)
      ultimately show ?thesis
        using e False rcur_vec_ok [OF cD] rcur_flat [OF cD] span_moved_up [of n "r # A"]
        by (simp add: indices_def r)
    qed
  qed
qed

end
