(* ===== verification/Index_Set_Erase.thy ===== *)
theory Index_Set_Erase
  imports Index_Set_Edit
begin

text \<open>
  The operations that take indices out: \<open>erase_at\<close> and \<open>erase_or_unshift\<close> close the gap,
  \<open>remove\<close> leaves it.
\<close>

section \<open>Erasing one index and closing the gap\<close>

lemma do_erase_cursor:
  assumes c: "rcur K d it B (r # A)" and ok: "ranges_ok (B @ r # A)"
    and B: "\<forall>s \<in> set B. snd s \<le> i" and i: "i < snd r"
  shows "vec_ok K (do_erase d it i) \<and> indices (do_erase d it i) = unbump i ` (indices d - {i})"
proof -
  obtain a b where r: "r = (a, b)" by (cases r)
  note c' = c [unfolded r]
  have oks: "ranges_ok B" "ranges_ok A" "a < b" "\<forall>s \<in> set B. snd s < a"
    "\<forall>s \<in> set B. \<forall>t \<in> set A. snd s < fst t" "\<forall>t \<in> set A. b < fst t"
    using ok by (auto simp: r ranges_ok_append ranges_ok_Cons)
  have posA: "\<forall>t \<in> set A. 0 < fst t" "\<forall>t \<in> set A. 0 \<le> int (fst t) + - 1"
    using oks(6) by fastforce+
  have down: "span (map (moved (- 1)) A) = (\<lambda>j. j - 1) ` span A" "ranges_ok (map (moved (- 1)) A)"
    using span_moved_down [OF posA(1)] ranges_ok_moved_down [OF posA(1) oks(2)] .
  have lowB: "span B \<subseteq> {..<i}" using B by (fastforce simp: span_def)
  have spA: "span A \<subseteq> {b<..}" using span_ge [of r A] ok by (auto simp: r ranges_ok_append)
  have S: "indices d = span B \<union> {a..<b} \<union> span A" using rcur_flat [OF c'] by (auto simp: indices_def)
  have fin: "vec_ok K D \<and> indices D = unbump i ` (indices d - {i})"
    if "rcur K D jt C E" "ranges_ok (C @ E)" "span (C @ E) = L \<union> (\<lambda>j. j - 1) ` U"
      "indices d - {i} = L \<union> U" "L \<subseteq> {..<i}" "U \<subseteq> {i<..}" for D jt C E L U
    using that unbump_image [of L i U] rcur_flat [OF that(1)] rcur_vec_ok [OF that(1,2)]
    by (simp add: indices_def)
  have prev: "it_deref d (it_prev d it) = last B" if "B \<noteq> []"
    using rv.deref [OF rv.prv, of K d it "butlast B" "last B" "r # A"] c that by simp
  have pos: "it \<noteq> it_begin d \<longleftrightarrow> B \<noteq> []" using rcur_begin_iff [OF c] by simp
  note cur = rv.deref [OF c']
  consider (gone) "a = i" "b = Suc i" | (shrink) "a \<le> i" "Suc a < b" | (join) "i < a" "B \<noteq> []" "Suc (snd (last B)) = a"
    | (rest) "i < a" "\<not> (B \<noteq> [] \<and> Suc (snd (last B)) = a)"
    using i oks(3) by (simp add: r) linarith
  then show ?thesis
  proof cases
    case gone
    obtain d1 it1 where e1: "rv_erase d it = (d1, it1)" by (cases "rv_erase d it")
    then have c1: "rcur K d1 it1 B A" using rv.ers [OF c'] by simp
    have e: "do_erase d it i = shift_rest d1 it1 (- 1)" using gone cur e1 by (simp add: do_erase_def Let_def)
    have "ranges_ok (B @ map (moved (- 1)) A)"
      using oks gone down by (fastforce simp: ranges_ok_append)
    moreover have "indices d - {i} = span B \<union> span A" using S gone lowB spA by auto
    ultimately show ?thesis unfolding e
      using shift_rest_cursor [OF c1 posA(2)] down lowB spA gone
      by (intro fin [of _ it1 B "map (moved (- 1)) A" "span B" "span A"]) auto
  next
    case shrink
    define d1 where "d1 = it_adjust d it 0 (- 1)"
    have c1: "rcur K d1 it B ((a, b - 1) # A)" using rv.shrink_back [OF c' oks(3)] by (simp add: d1_def)
    have e: "do_erase d it i = shift_rest d1 (it_next d1 it) (- 1)"
      using shrink cur by (auto simp: do_erase_def Let_def d1_def)
    have "ranges_ok ((B @ [(a, b - 1)]) @ map (moved (- 1)) A)"
      using oks shrink down by (fastforce simp: ranges_ok_append ranges_ok_Cons)
    moreover have "indices d - {i} = (span B \<union> {a..<i}) \<union> ({Suc i..<b} \<union> span A)"
      using S shrink i lowB spA by (auto simp: r)
    moreover have "span ((B @ [(a, b - 1)]) @ map (moved (- 1)) A) =
        (span B \<union> {a..<i}) \<union> (\<lambda>j. j - 1) ` ({Suc i..<b} \<union> span A)"
    proof -
      have "(\<lambda>j. j - 1) ` {Suc i..<b} = {i..<b - 1}"
        using image_minus_const_atLeastLessThan_nat [of 1 "Suc i" b] i by (simp add: r)
      moreover have "{a..<b - 1} = {a..<i} \<union> {i..<b - 1}" using shrink i by (auto simp: r)
      ultimately show ?thesis by (simp add: down image_Un Un_assoc)
    qed
    ultimately show ?thesis unfolding e
      using shift_rest_cursor [OF rv.nxt [OF c1] posA(2)] lowB spA i
      by (intro fin [of _ "it_next d1 it" "B @ [(a, b - 1)]" "map (moved (- 1)) A"
            "span B \<union> {a..<i}" "{Suc i..<b} \<union> span A"]) (auto simp: r)
  next
    case join
    define B0 p where "B0 = butlast B" and "p = fst (last B)"
    have Bl: "B = B0 @ [(p, a - 1)]"
      using append_butlast_last_id [OF join(2)] join(3) unfolding B0_def p_def
      by (metis diff_Suc_1 prod.collapse)
    have "a - 1 \<le> i" using B by (simp add: Bl)
    then have ia: "a = Suc i" using join(1) by linarith
    have le: "b - Suc a + a = b - 1" using oks(3) by simp
    obtain d1 it1 where 1: "rv_erase (it_adjust d (it_prev d it) 0 (int b - int a)) it = (d1, it1)"
      "rcur K d1 it1 (B0 @ [(p, a - 1 + (b - a))]) A"
      using rv.join_at [OF rv.prv [OF c' [unfolded Bl]] c' [unfolded Bl]] by blast
    have e: "do_erase d it i = shift_rest d1 it1 (- 1)"
      using join pos prev cur 1(1) by (simp add: do_erase_def Let_def)
    have pq: "a - 1 + (b - a) = b - 1" "p < b - 1" using oks(3,1) ia
      by (auto simp: Bl ranges_ok_append ranges_ok_Cons)
    have "ranges_ok ((B0 @ [(p, b - 1)]) @ map (moved (- 1)) A)"
      using oks pq down by (fastforce simp: Bl ranges_ok_append ranges_ok_Cons)
    moreover have "indices d - {i} = span B \<union> ({a..<b} \<union> span A)"
      using S ia lowB spA oks(3) by auto
    moreover have "span ((B0 @ [(p, b - 1)]) @ map (moved (- 1)) A) =
        span B \<union> (\<lambda>j. j - 1) ` ({a..<b} \<union> span A)"
    proof -
      have "(\<lambda>j. j - 1) ` {a..<b} = {a - 1..<b - 1}"
        using image_minus_const_atLeastLessThan_nat [of 1 a b] ia by simp
      moreover have "{p..<b - 1} = {p..<a - 1} \<union> {a - 1..<b - 1}"
        using ia oks(1,3) by (auto simp: Bl ranges_ok_append ranges_ok_Cons)
      ultimately show ?thesis by (simp add: Bl down image_Un Un_assoc)
    qed
    ultimately show ?thesis unfolding e
      using shift_rest_cursor [OF 1(2) posA(2)] lowB spA ia oks(3) pq(1)
      by (intro fin [of _ it1 "B0 @ [(p, b - 1)]" "map (moved (- 1)) A" "span B" "{a..<b} \<union> span A"]) auto
  next
    case rest
    have e: "do_erase d it i = shift_rest d it (- 1)"
      using rest pos prev cur by (auto simp: do_erase_def Let_def)
    have posr: "\<forall>t \<in> set (r # A). 0 < fst t" "\<forall>t \<in> set (r # A). 0 \<le> int (fst t) + - 1"
      using posA rest by (auto simp: r)
    have "Suc (snd s) < a" if "s \<in> set B" for s
    proof -
      have "snd s < a" using that oks by blast
      moreover have "Suc (snd s) \<noteq> a"
      proof
        assume s: "Suc (snd s) = a"
        have ne: "B \<noteq> []" using that by auto
        then have "s \<in> set (butlast B) \<or> s = last B" using that by (cases B rule: rev_cases) auto
        moreover have "snd s < fst (last B) \<and> fst (last B) < snd (last B)" if "s \<in> set (butlast B)"
          using that oks(1) ne by (cases B rule: rev_cases) (auto simp: ranges_ok_append ranges_ok_Cons)
        ultimately show False using s rest(2) oks(4) ne last_in_set [OF ne] by fastforce
      qed
      ultimately show ?thesis by simp
    qed
    then have "ranges_ok (B @ map (moved (- 1)) (r # A))"
      using oks ranges_ok_moved_down [OF posr(1)] ok
      by (fastforce simp: ranges_ok_append r)
    moreover have "indices d - {i} = span B \<union> span (r # A)" using S rest(1) lowB spA oks(3) by (auto simp: r)
    ultimately show ?thesis unfolding e
      using shift_rest_cursor [OF c posr(2)] span_moved_down [OF posr(1)] lowB spA rest(1) oks(3)
      by (intro fin [of _ it B "map (moved (- 1)) (r # A)" "span B" "span (r # A)"]) (auto simp: r)
  qed
qed

lemma erase_at_indices:
  assumes v: "vec_ok K d"
  shows "vec_ok K (erase_at d i) \<and> indices (erase_at d i) = unbump i ` (indices d - {i})"
proof (cases "rabove i (flat d)")
  case Nil
  note c = rcur_find [OF v, of i]
  have "indices d \<subseteq> {..<i}" using span_below [of i "flat d"] below_above [of i "flat d"] Nil by (simp add: indices_def)
  then have "unbump i ` (indices d - {i}) = indices d"
    using unbump_image [of "indices d" i "{}"] by auto
  then show ?thesis using rcur_at_end [OF c] v by (simp add: Nil erase_at_def)
next
  case (Cons r A)
  note c = rcur_find [OF v, of i, unfolded Cons]
  have "ranges_ok (rbelow i (flat d) @ r # A)" using v Cons below_above [of i "flat d"] by (metis vec_okD)
  then show ?thesis
    using do_erase_cursor [OF c _ _ above_hd [OF Cons]] below_le rcur_at_end [OF c]
    by (simp add: erase_at_def)
qed

text \<open>The two loops of \<open>erase_or_unshift\<close> are the loops of \<open>count\<close>, subtracting.\<close>

lemma count_chunks_step:
  "\<not> at_end d it \<and> chunk_end (d ! fst it) \<le> e \<Longrightarrow>
     count_chunks d it e k = count_chunks d (next_chunk it) e (k + chunk_count (d ! fst it))"
  "\<not> (\<not> at_end d it \<and> chunk_end (d ! fst it) \<le> e) \<Longrightarrow> count_chunks d it e k = (it, k)"
  by (auto simp: count_chunks.simps [of d it e k])

lemma count_ranges_step:
  "\<not> at_end d it \<and> snd (it_deref d it) \<le> e \<Longrightarrow>
     count_ranges d it e k = count_ranges d (it_next d it) e (k + (snd (it_deref d it) - fst (it_deref d it)))"
  "\<not> (\<not> at_end d it \<and> snd (it_deref d it) \<le> e) \<Longrightarrow> count_ranges d it e k = (it, k)"
  by (auto simp: count_ranges.simps [of d it e k])

lemma count_chunks_mono: "k \<le> snd (count_chunks d it e k)"
proof (induction d it e k rule: count_chunks.induct)
  case (1 d it e k)
  show ?case
  proof (cases "\<not> at_end d it \<and> chunk_end (d ! fst it) \<le> e")
    case True
    then show ?thesis using 1 by (simp add: count_chunks_step(1))
  next
    case False
    then show ?thesis by (simp add: count_chunks_step(2) [OF False])
  qed
qed

lemma count_ranges_mono: "k \<le> snd (count_ranges d it e k)"
proof (induction d it e k rule: count_ranges.induct)
  case (1 d it e k)
  show ?case
  proof (cases "\<not> at_end d it \<and> snd (it_deref d it) \<le> e")
    case True
    then show ?thesis using 1 by (simp add: count_ranges_step(1))
  next
    case False
    then show ?thesis by (simp add: count_ranges_step(2) [OF False])
  qed
qed

lemma erase_unshift_chunks_count:
  "count_chunks d it e k = (it', k + n) \<Longrightarrow> erase_unshift_chunks d it e s = (it', s - n)"
proof (induction d it e s arbitrary: k n rule: erase_unshift_chunks.induct)
  case (1 d it e s)
  let ?k = "k + chunk_count (d ! fst it)"
  show ?case
  proof (cases "\<not> at_end d it \<and> chunk_end (d ! fst it) \<le> e")
    case True
    then have c: "count_chunks d (next_chunk it) e ?k = (it', k + n)"
      using 1(2) count_chunks_step(1) by simp
    have "?k \<le> k + n" using count_chunks_mono [of ?k d "next_chunk it" e] c by simp
    then have "count_chunks d (next_chunk it) e ?k = (it', ?k + (n - chunk_count (d ! fst it)))"
      using c by simp
    from 1(1) [OF True this] True show ?thesis
      using \<open>?k \<le> k + n\<close> by (subst erase_unshift_chunks.simps) simp
  next
    case False
    then show ?thesis using 1(2) count_chunks_step(2) [OF False, of k]
      by (subst erase_unshift_chunks.simps) auto
  qed
qed

lemma erase_unshift_ranges_count:
  "count_ranges d it e k = (it', k + n) \<Longrightarrow> erase_unshift_ranges d it e s = (it', s - n)"
proof (induction d it e s arbitrary: k n rule: erase_unshift_ranges.induct)
  case (1 d it e s)
  let ?l = "snd (it_deref d it) - fst (it_deref d it)"
  show ?case
  proof (cases "\<not> at_end d it \<and> snd (it_deref d it) \<le> e")
    case True
    then have c: "count_ranges d (it_next d it) e (k + ?l) = (it', k + n)"
      using 1(2) count_ranges_step(1) by simp
    have le: "k + ?l \<le> k + n" using count_ranges_mono [of "k + ?l" d "it_next d it" e] c by simp
    then have "count_ranges d (it_next d it) e (k + ?l) = (it', k + ?l + (n - ?l))"
      using c by simp
    from 1(1) [OF True this] True show ?thesis
      using le by (subst erase_unshift_ranges.simps) simp
  next
    case False
    then show ?thesis using 1(2) count_ranges_step(2) [OF False, of k]
      by (subst erase_unshift_ranges.simps) auto
  qed
qed

lemma erase_or_unshift_indices:
  assumes v: "vec_ok K d"
  shows "\<exists>d'. erase_or_unshift d i = (d', if i \<in> indices d then npos else unshift_in (indices d) i) \<and>
    vec_ok K d' \<and> indices d' = unbump i ` (indices d - {i})"
proof -
  let ?A = "flat d"
  have ok: "ranges_ok ?A" using v by auto
  have s: "snd (it_begin d) = 0" by (simp add: it_begin_def)
  from count_chunks_cursor [OF rcur_begin [OF v] ok s, of i 0] obtain it1 B1 A1 where
    1: "count_chunks d (it_begin d) i 0 = (it1, 0 + lens B1)" "rcur K d it1 B1 A1"
      "?A = B1 @ A1" "\<forall>r \<in> set B1. snd r \<le> i" by auto
  from count_ranges_cursor [OF 1(2), of i 0] obtain it2 where
    2: "count_ranges d it1 i 0 = (it2, 0 + lens (rbelow i A1))"
      "rcur K d it2 (B1 @ rbelow i A1) (rabove i A1)" by blast
  define B A where "B = B1 @ rbelow i A1" and "A = rabove i A1"
  have fl: "flat d = B @ A" using 1(3) by (simp add: B_def A_def)
  have c: "rcur K d it2 B A" using 2(2) by (simp add: A_def B_def)
  have okBA: "ranges_ok (B @ A)" "ranges_ok A" using ok by (simp_all add: fl ranges_ok_append)
  have B: "\<forall>r \<in> set B. snd r \<le> i" using 1(4) below_le by (auto simp: B_def)
  have A: "A = [] \<or> i < snd (hd A)" unfolding A_def by (rule below_above_pre(2))
  have sh: "i - lens B1 - lens (rbelow i A1) = i - lens B" by (simp add: B_def)
  have "erase_unshift_chunks d (it_begin d) i i = (it1, i - lens B1)"
    using erase_unshift_chunks_count [OF 1(1)] .
  moreover have "erase_unshift_ranges d it1 i (i - lens B1) = (it2, i - lens B)"
    using erase_unshift_ranges_count [OF 2(1), of "i - lens B1"] unfolding sh .
  ultimately have e: "erase_or_unshift d i = (if at_end d it2 then (d, i - lens B)
      else (do_erase d it2 i, if fst (it_deref d it2) \<le> i then npos else i - lens B))"
    by (simp add: erase_or_unshift_def)
  have rk: "rank (indices d) i = lens B + (if A \<noteq> [] \<and> fst (hd A) < i then i - fst (hd A) else 0)"
    using rank_passed [OF okBA(1) B] rank_here [OF okBA(2) A] by (simp add: indices_def fl)
  have mem: "i \<in> indices d \<longleftrightarrow> A \<noteq> [] \<and> fst (hd A) \<le> i"
  proof -
    have "rabove i (flat d) = A"
      using B by (simp add: 1(3) A_def B_def rabove_append)
    then show ?thesis using mem_span_iff [OF ok, of i] by (cases A) (auto simp: indices_def)
  qed
  show ?thesis
  proof (cases A)
    case Nil
    then have "indices d \<subseteq> {..<i}" using B by (fastforce simp: indices_def fl span_def)
    then have "unbump i ` (indices d - {i}) = indices d"
      using unbump_image [of "indices d" i "{}"] by auto
    then show ?thesis using e rcur_at_end [OF c] Nil mem rk v by (simp add: unshift_in_def)
  next
    case (Cons r A')
    note c' = c [unfolded Cons]
    have "i < snd r" using A Cons by simp
    then show ?thesis
      using do_erase_cursor [OF c' okBA(1) [unfolded Cons] B] e rcur_at_end [OF c'] rv.deref [OF c'] mem rk
      by (simp add: Cons unshift_in_def)
  qed
qed

end
