(* ===== verification/Index_Set_Remove.thy ===== *)
theory Index_Set_Remove
  imports Index_Set_Erase
begin

text \<open>
  \<open>remove\<close> and the removal of a whole set: the loop of \<open>do_remove\<close> always ends and leaves the
  difference of the sets.
\<close>

lemma do_remove_cursor:
  assumes "rcur K d it0 B A" "ranges_ok (B @ A)" "\<forall>s \<in> set B. snd s \<le> b" "b < e"
  shows "\<exists>d' it' B' A'. do_remove K d it0 b e = Some (d', it') \<and> rcur K d' it' B' A' \<and>
    ranges_ok (B' @ A') \<and> span (B' @ A') = span (B @ A) - {b..<e} \<and> (\<forall>s \<in> set B'. snd s \<le> e)"
  using assms
proof (induction "card (span A \<inter> {b..<e})" arbitrary: d it0 B A b rule: less_induct)
  case less
  note ok = less.prems(2) and Bb = less.prems(3) and be = less.prems(4)
  define it B1 A1 where "it = find_from d b it0" and "B1 = B @ rbelow b A" and "A1 = rabove b A"
  have fB: "\<forall>s \<in> set B. fst s \<le> b" using Bb ranges_ok_nonempty [of B] ok by (fastforce simp: ranges_ok_append)
  have c: "rcur K d it B1 A1" using rcur_find_from [OF less.prems(1) ok fB] by (simp add: it_def B1_def A1_def)
  have BA: "B1 @ A1 = B @ A" by (simp add: B1_def A1_def)
  have B1b: "\<forall>s \<in> set B1. snd s \<le> b" using Bb below_le by (auto simp: B1_def)
  note U = do_remove.simps [of K d it0 b e, folded it_def, unfolded Let_def]
  show ?case (is ?G)
  proof (cases "A1 = [] \<or> e \<le> fst (hd A1)")
    case True
    have "it_deref d it = hd A1" if "A1 \<noteq> []"
      using rv.deref [of K d it B1 "hd A1" "tl A1"] c that by simp
    then have "do_remove K d it0 b e = Some (d, it)" using True rcur_at_end [OF c] by (subst U) auto
    moreover have "span (B1 @ A1) = span (B @ A) - {b..<e}"
    proof -
      have "span B1 \<subseteq> {..<b}" using B1b by (fastforce simp: span_def)
      moreover have "span A1 \<subseteq> {e..}"
        using True span_Min_le [of "hd A1" "tl A1"] ok by (cases A1) (fastforce simp: ranges_ok_append simp flip: BA)+
      ultimately show ?thesis using be by (auto simp flip: BA)
    qed
    moreover have "\<forall>s \<in> set B1. snd s \<le> e" using B1b be by fastforce
    ultimately show ?thesis using c ok BA by metis
  next
    case False
    then obtain p q A2 where A1: "A1 = (p, q) # A2" and pe: "p < e" by (cases A1) auto
    note c' = c [unfolded A1]
    define b' where "b' = max p b"
    have bq: "b < q" using above_hd [of b A "(p, q)" A2] A1 A1_def by simp
    have okl: "ranges_ok B1" "ranges_ok A2" "p < q" "\<forall>s \<in> set B1. snd s < p"
      "\<forall>s \<in> set B1. \<forall>t \<in> set A2. snd s < fst t" "\<forall>t \<in> set A2. q < fst t"
      using ok by (auto simp: A1 ranges_ok_append ranges_ok_Cons simp flip: BA)
    have b': "p \<le> b'" "b \<le> b'" "b' < e" "b' < q" using pe be bq okl(3) by (auto simp: b'_def)
    have B1b': "\<forall>s \<in> set B1. snd s \<le> b'" using B1b b'(2) by fastforce
    have cur: "it_deref d it = (p, q)" "\<not> at_end d it" using rv.deref [OF c'] rcur_at_end [OF c'] by simp_all
    have "\<not> e \<le> p" using pe by simp
    then have U: "do_remove K d it0 b e =
        (if p < b' \<and> e < q
         then Option.bind (rv_insert K (it_set d it p b') (it_next (it_set d it p b') it) (e, q))
                (\<lambda>x. do_remove K (fst x) (it_prev (fst x) (snd x)) b' e)
         else if b' = p \<and> q \<le> e then do_remove K (fst (rv_erase d it)) (snd (rv_erase d it)) b' e
         else if b' = p then do_remove K (it_set d it e q) it b' e
         else do_remove K (it_set d it p b') it b' e)"
      unfolding U cur(1) b'_def fst_conv snd_conv using cur(2) by (simp only: if_False simp_thms)
    have spA2: "span A2 \<subseteq> {q<..}" using span_ge [of "(p, q)" A2] ok
      by (fastforce simp: A1 ranges_ok_append simp flip: BA)
    have sp: "span (B @ A) = span B1 \<union> {p..<q} \<union> span A2" using arg_cong [OF BA, of span] by (auto simp: A1)
    have spB1: "span B1 \<subseteq> {..<b}" using B1b by (fastforce simp: span_def)
    have spA: "span A \<inter> {b..<e} = ({p..<q} \<union> span A2) \<inter> {b..<e}"
    proof -
      have "span A = span (rbelow b A) \<union> ({p..<q} \<union> span A2)"
        using span_append [of "rbelow b A" "rabove b A"] A1 by (simp add: A1_def)
      then show ?thesis using span_below [of b A] by auto
    qed
    text \<open>Every branch leaves the parts of \<open>(p, q)\<close> outside \<open>{b'..<e}\<close>, the list \<open>Q\<close>.\<close>
    have step: ?G if eq: "do_remove K d it0 b e = do_remove K d1 it1 b' e"
      and c1: "rcur K d1 it1 B1 (Q @ A2)" and okQ: "ranges_ok (B1 @ Q @ A2)"
      and spQ: "span Q = {p..<q} - {b'..<e}" for d1 it1 Q
    proof -
      have "span (Q @ A2) \<inter> {b'..<e} \<subset> span A \<inter> {b..<e}"
      proof
        show "span (Q @ A2) \<inter> {b'..<e} \<subseteq> span A \<inter> {b..<e}"
          unfolding spA span_append spQ using b'(2) by auto
        have "b' \<in> {p..<q} \<union> span A2" "b' \<in> {b..<e}" using b' by simp_all
        then have "b' \<in> span A \<inter> {b..<e}" unfolding spA by blast
        moreover have "b' \<notin> span A2" using spA2 b'(4) by fastforce
        then have "b' \<notin> span (Q @ A2)" unfolding span_append spQ using b'(3) by simp
        ultimately show "span (Q @ A2) \<inter> {b'..<e} \<noteq> span A \<inter> {b..<e}" by blast
      qed
      then have "card (span (Q @ A2) \<inter> {b'..<e}) < card (span A \<inter> {b..<e})" by (intro psubset_card_mono) auto
      from less.hyps [OF this c1 okQ B1b' b'(3)] obtain d' it' B' A' where
        h: "do_remove K d1 it1 b' e = Some (d', it')" "rcur K d' it' B' A'" "ranges_ok (B' @ A')"
          "span (B' @ A') = span (B1 @ Q @ A2) - {b'..<e}" "\<forall>s \<in> set B'. snd s \<le> e" by blast
      have "span (B1 @ Q @ A2) - {b'..<e} = span (B @ A) - {b..<e}"
        unfolding sp using spQ spA2 spB1 b' by (auto simp: b'_def)
      with h eq show ?thesis by auto
    qed
    consider (cut) "p < b'" "e < q" | (all) "b' = p" "q \<le> e" | (keep_back) "b' = p" "e < q" | (keep_front) "p < b'" "q \<le> e"
      using b'(1) by linarith
    then show ?thesis
    proof cases
      case cut
      obtain d1 it1 where 1: "rv_insert K (it_set d it p b') (it_next (it_set d it p b') it) (e, q) = Some (d1, it1)"
        "rcur K d1 (it_prev d1 it1) B1 ((p, b') # (e, q) # A2)"
      proof -
        have "\<forall>s \<in> set B1. snd s \<le> p" "\<forall>s \<in> set A2. q \<le> fst s" using okl by fastforce+
        then show thesis using rv.split_range [OF c' b'(1), of e] b'(3) cut that by fastforce
      qed
      show ?thesis
      proof (rule step [of d1 "it_prev d1 it1" "[(p, b'), (e, q)]"])
        show "do_remove K d it0 b e = do_remove K d1 (it_prev d1 it1) b' e"
          using cut cur(2) pe 1(1) by (subst U) simp
        show "ranges_ok (B1 @ [(p, b'), (e, q)] @ A2)"
          using okl cut b' by (fastforce simp: ranges_ok_append ranges_ok_Cons)
      qed (use 1(2) cut b' in auto)
    next
      case all
      show ?thesis
      proof (rule step [of "fst (rv_erase d it)" "snd (rv_erase d it)" "[]"])
        show "do_remove K d it0 b e = do_remove K (fst (rv_erase d it)) (snd (rv_erase d it)) b' e"
          using all cur(2) pe by (subst U) simp
        show "ranges_ok (B1 @ [] @ A2)" using okl by (simp add: ranges_ok_append)
      qed (use rv.ers [OF c'] all in auto)
    next
      case keep_back
      show ?thesis
      proof (rule step [of "it_set d it e q" it "[(e, q)]"])
        show "do_remove K d it0 b e = do_remove K (it_set d it e q) it b' e"
          using keep_back cur(2) pe by (subst U) simp
        show "ranges_ok (B1 @ [(e, q)] @ A2)"
          using okl keep_back pe by (fastforce simp: ranges_ok_append ranges_ok_Cons)
      qed (use rv.setr [OF c', of e q] keep_back pe in auto)
    next
      case keep_front
      show ?thesis
      proof (rule step [of "it_set d it p b'" it "[(p, b')]"])
        show "do_remove K d it0 b e = do_remove K (it_set d it p b') it b' e"
          using keep_front cur(2) pe by (subst U) simp
        show "ranges_ok (B1 @ [(p, b')] @ A2)"
          using okl keep_front b' by (fastforce simp: ranges_ok_append ranges_ok_Cons)
      qed (use rv.setr [OF c', of p b'] keep_front b' in auto)
    qed
  qed
qed

lemma remove_indices:
  assumes v: "vec_ok K d" and n: "0 < n"
  shows "\<exists>d'. remove K d i n = Some d' \<and> vec_ok K d' \<and> indices d' = indices d - {i..<i + n}"
proof -
  have ok: "ranges_ok (rbelow i (flat d) @ rabove i (flat d))" using v by auto
  have "\<forall>s \<in> set (rbelow i (flat d)). snd s \<le> i" using below_le by blast
  from do_remove_cursor [OF rcur_find [OF v] ok this, of "i + n"] n obtain d' it' B' A' where
    "do_remove K d (find_index d i) i (i + n) = Some (d', it')" "rcur K d' it' B' A'"
    "ranges_ok (B' @ A')" "span (B' @ A') = span (flat d) - {i..<i + n}" by auto
  then show ?thesis using rcur_vec_ok [of K d' it' B' A'] rcur_flat [of K d' it' B' A']
    by (simp add: remove_def indices_def)
qed

lemma remove_ranges_cursor:
  assumes "rcur K d it B A" "ranges_ok (B @ A)" "ranges_ok rs" "\<forall>s \<in> set B. \<forall>r \<in> set rs. snd s \<le> fst r"
  shows "\<exists>d'. remove_ranges K d it rs = Some d' \<and> vec_ok K d' \<and> indices d' = indices d - span rs"
  using assms
proof (induction rs arbitrary: d it B A)
  case Nil
  then show ?case using rcur_vec_ok by fastforce
next
  case (Cons r rs)
  have r: "fst r < snd r" "\<forall>s \<in> set rs. snd r < fst s" using Cons.prems(3) by (auto simp: ranges_ok_Cons)
  have "\<forall>s \<in> set B. snd s \<le> fst r" using Cons.prems(4) by simp
  from do_remove_cursor [OF Cons.prems(1,2) this r(1)] obtain d' it' B' A' where
    h: "do_remove K d it (fst r) (snd r) = Some (d', it')" "rcur K d' it' B' A'" "ranges_ok (B' @ A')"
      "span (B' @ A') = span (B @ A) - {fst r..<snd r}" "\<forall>s \<in> set B'. snd s \<le> snd r" by blast
  have ix: "indices d' = indices d - {fst r..<snd r}"
    using rcur_flat [OF h(2)] rcur_flat [OF Cons.prems(1)] h(4) by (simp add: indices_def)
  show ?case
  proof (cases "at_end d' it'")
    case True
    then have "indices d' \<subseteq> {..<snd r}"
      using rcur_at_end [OF h(2)] rcur_flat [OF h(2)] h(5) by (fastforce simp: indices_def span_def)
    moreover have "span rs \<subseteq> {snd r..}" using r(2) by (fastforce simp: span_def)
    ultimately have "indices d' = indices d - span (r # rs)"
      unfolding ix span_Cons using r(1) by fastforce
    then show ?thesis using True h(1) rcur_vec_ok [OF h(2,3)] by simp
  next
    case False
    have "\<forall>s \<in> set B'. \<forall>t \<in> set rs. snd s \<le> fst t" using h(5) r(2) by fastforce
    from Cons.IH [OF h(2,3) _ this] Cons.prems(3) False h(1) ix show ?thesis
      by (fastforce simp: Diff_eq)
  qed
qed

lemma remove_set_indices:
  assumes "vec_ok K d" "vec_ok K v"
  shows "\<exists>d'. remove_set K d v = Some d' \<and> vec_ok K d' \<and> indices d' = indices d - indices v"
  using remove_ranges_cursor [OF rcur_begin [OF assms(1)], of "flat v"] assms
  by (auto simp: remove_set_def indices_def)

end
