(* ===== verification/Index_Set_Bulk_Laws.thy ===== *)
theory Index_Set_Bulk_Laws
  imports Index_Set_Bulk Index_Set_Remove
begin

text \<open>
  The set-level operations as operations on sets of indices.  The builder is related to the list
  of ranges pushed so far (\<open>builder_ok\<close>), each merge loop to the list of indices it
  pushes, and that list to images under \<open>shift_in\<close> and \<open>unshift_in\<close>.
\<close>

section \<open>The list of indices\<close>

lemma set_as_indexes: "set (as_indexes d) = indices d"
  by (auto simp: as_indexes_def indices_def span_def)

lemma sorted_indexes: "ranges_ok rs \<Longrightarrow> sorted_wrt (<) (concat (map (\<lambda>r. [fst r..<snd r]) rs))"
  by (induction rs) (fastforce simp: ranges_ok_Cons sorted_wrt_append)+

lemma sorted_as_indexes: "vec_ok K d \<Longrightarrow> sorted_wrt (<) (as_indexes d)"
  by (simp add: as_indexes_def sorted_indexes vec_ok_def)

text \<open>\<open>IndexIterator\<close> visits exactly this list: at a range that still has the indices from \<open>a + n\<close> on.\<close>

lemma ix_visits:
  assumes "rcur K d it B (r # A)" "fst r + n < snd r"
  shows "ix_deref d (it, n) = fst r + n"
    and "fst r + Suc n < snd r \<Longrightarrow> ix_next d (it, n) = (it, Suc n)"
    and "fst r + Suc n = snd r \<Longrightarrow> ix_next d (it, n) = (it_next d it, 0) \<and> rcur K d (it_next d it) (B @ [r]) A"
  using rv.deref [OF assms(1)] rv.nxt [OF assms(1)] by (auto simp: ix_deref_def ix_next_def)

section \<open>Pushing ranges\<close>

definition rpush :: "range list \<Rightarrow> range \<Rightarrow> range list" where
  "rpush rs r =
     (if rs \<noteq> [] \<and> snd (last rs) = fst r then butlast rs @ [(fst (last rs), snd r)] else rs @ [r])"

definition pushable :: "range list \<Rightarrow> range \<Rightarrow> bool" where
  "pushable rs r \<longleftrightarrow> fst r < snd r \<and> (\<forall>s \<in> set rs. snd s \<le> fst r)"

lemma rpush_ok:
  assumes "ranges_ok rs" "pushable rs r"
  shows "ranges_ok (rpush rs r) \<and> span (rpush rs r) = span rs \<union> {fst r..<snd r}"
proof (cases rs rule: rev_cases)
  case (snoc qs q)
  then show ?thesis using assms
    by (auto simp: rpush_def pushable_def ranges_ok_append ranges_ok_Cons less_trans)
qed (use assms in \<open>auto simp: rpush_def pushable_def ranges_ok_Cons\<close>)

lemma rpush_length: "length rs \<le> length (rpush rs r)"
  by (cases rs rule: rev_cases) (auto simp: rpush_def)

lemma foldl_rpush_length: "length rs \<le> length (foldl rpush rs qs)"
  by (induction qs arbitrary: rs) (auto intro: le_trans [OF rpush_length])

lemma rpush_last: "snd (last (rpush rs r)) = snd r" "rpush rs r \<noteq> []"
  by (auto simp: rpush_def)

text \<open>Ranges in ascending order that may touch.\<close>

fun ascending :: "range list \<Rightarrow> bool" where
  "ascending [] = True"
| "ascending (r # rs) = (fst r < snd r \<and> (\<forall>s \<in> set rs. snd r \<le> fst s) \<and> ascending rs)"

lemma ascending_append:
  "ascending (rs @ ss) \<longleftrightarrow> ascending rs \<and> ascending ss \<and> (\<forall>r \<in> set rs. \<forall>s \<in> set ss. snd r \<le> fst s)"
  by (induction rs) auto

lemma ranges_ok_ascending: "ranges_ok rs \<Longrightarrow> ascending rs"
  by (induction rs) (auto simp: ranges_ok_Cons less_imp_le)

lemma ascending_singles: "sorted_wrt (<) xs \<Longrightarrow> ascending (map (\<lambda>i. (i, Suc i)) xs)"
  by (induction xs) auto

lemma span_singles: "span (map (\<lambda>i. (i, Suc i)) xs) = set xs"
  by (induction xs) auto

lemma pushable_rpush:
  assumes "pushable rs q" "r \<in> set (rpush rs q)" "snd q \<le> k"
  shows "snd r \<le> k"
proof -
  have "snd r \<le> snd q" if "r \<in> set rs" for r using assms(1) that by (fastforce simp: pushable_def)
  then show ?thesis using assms(2,3) by (fastforce simp: rpush_def dest: in_set_butlastD split: if_splits)
qed

lemma foldl_rpush_ok:
  assumes "ranges_ok rs" "ascending qs" "\<forall>s \<in> set rs. \<forall>q \<in> set qs. snd s \<le> fst q"
  shows "ranges_ok (foldl rpush rs qs) \<and> span (foldl rpush rs qs) = span rs \<union> span qs"
  using assms
proof (induction qs arbitrary: rs)
  case (Cons q qs)
  have p: "pushable rs q" using Cons.prems by (auto simp: pushable_def)
  have "\<forall>s \<in> set (rpush rs q). \<forall>t \<in> set qs. snd s \<le> fst t"
    using pushable_rpush [OF p] Cons.prems(2) by auto
  with Cons.IH [of "rpush rs q"] rpush_ok [OF Cons.prems(1) p] Cons.prems(2) show ?case by auto
qed simp

section \<open>The builder\<close>

text \<open>\<open>g\<close> asks the caches of the number of indices to be right too.\<close>

definition pre_chunk :: "nat \<Rightarrow> bool \<Rightarrow> chunk \<Rightarrow> bool" where
  "pre_chunk K g c \<longleftrightarrow>
     chunk_data c \<noteq> [] \<and> length (chunk_data c) \<le> K \<and> chunk_begin c = fst (hd (chunk_data c)) \<and>
     (g \<longrightarrow> chunk_count c = lens (chunk_data c)) \<and> (\<forall>r \<in> set (chunk_data c). fst r \<le> snd r)"

definition full_chunk :: "nat \<Rightarrow> bool \<Rightarrow> chunk \<Rightarrow> bool" where
  "full_chunk K g c \<longleftrightarrow>
     pre_chunk K g c \<and> length (chunk_data c) = K \<and> chunk_end c = snd (last (chunk_data c))"

definition builder_ok :: "nat \<Rightarrow> bool \<Rightarrow> builder \<Rightarrow> range list \<Rightarrow> bool" where
  "builder_ok K g b rs \<longleftrightarrow>
     (\<exists>P c n. bd_data b = P @ c # replicate n empty_chunk \<and> bd_outer b = length P \<and>
        flat P @ chunk_data c = rs \<and> list_all (full_chunk K g) P \<and>
        (if rs = [] then P = [] \<and> c = empty_chunk else pre_chunk K g c))"

lemma builder_init_ok: "builder_ok K g (builder_init K d) []"
proof -
  define n where "n = sum_list (map (\<lambda>c. length (chunk_data c)) d) div K"
  have "bd_data (builder_init K d) = [] @ empty_chunk # replicate n empty_chunk"
    by (simp add: builder_init_def n_def)
  then show ?thesis unfolding builder_ok_def
    by (intro exI [of _ "[]"] exI [of _ empty_chunk] exI [of _ n]) (simp add: builder_init_def empty_chunk_def)
qed

lemma builder_okI:
  assumes "bd_data b = P @ c # replicate n empty_chunk" "bd_outer b = length P"
    "list_all (full_chunk K g) P" "pre_chunk K g c" "flat P @ chunk_data c = rs"
  shows "builder_ok K g b rs"
  using assms unfolding builder_ok_def pre_chunk_def by (metis append_is_Nil_conv)

lemma flat_full_length: "list_all (full_chunk K g) P \<Longrightarrow> length (flat P) = K * length P"
  by (induction P) (auto simp: full_chunk_def)

lemma full_chunk_ok: "full_chunk K True c \<Longrightarrow> chunk_ok K c"
  by (simp add: full_chunk_def pre_chunk_def chunk_ok_def lens_def)

lemma lens_last: "xs \<noteq> [] \<Longrightarrow> lens xs = lens (butlast xs) + (snd (last xs) - fst (last xs))"
  using lens_simps(3) [of "butlast xs" "[last xs]"] by simp

lemma pre_chunk_extend:
  assumes "pre_chunk K g c" "fst r \<le> snd r" "fst r = snd (last (chunk_data c))"
  shows "pre_chunk K g (c\<lparr>chunk_data := butlast (chunk_data c) @ [(fst (last (chunk_data c)), snd r)],
           chunk_count := chunk_count c + (snd r - fst r)\<rparr>)"
proof -
  let ?xs = "chunk_data c"
  have ne: "?xs \<noteq> []" and l: "fst (last ?xs) \<le> fst r" using assms by (auto simp: pre_chunk_def)
  have "hd (butlast ?xs @ [(fst (last ?xs), snd r)]) = (if length ?xs = 1 then (fst (hd ?xs), snd r) else hd ?xs)"
    using ne by (cases ?xs rule: rev_cases; cases "butlast ?xs") (auto simp: hd_append)
  then have "fst (hd (butlast ?xs @ [(fst (last ?xs), snd r)])) = fst (hd ?xs)" by (simp split: if_splits)
  moreover have "lens (butlast ?xs @ [(fst (last ?xs), snd r)]) = lens ?xs + (snd r - fst r)"
    using lens_last [OF ne] l assms(2,3) by simp
  moreover have "Suc (length ?xs - 1) \<le> K" using assms(1) ne by (cases ?xs) (auto simp: pre_chunk_def)
  ultimately show ?thesis
    using assms(1,2) l by (auto simp: pre_chunk_def dest: in_set_butlastD)
qed

lemma builder_push_range_ok:
  assumes b: "builder_ok K g b rs" and K: "0 < K" and r: "pushable rs r"
    and N: "N \<le> length (bd_data b)" and no: "g \<longrightarrow> snd r = Suc (fst r) \<or> length (rpush rs r) \<le> K * N"
  shows "builder_ok K g (builder_push_range K b r) (rpush rs r) \<and> N \<le> length (bd_data (builder_push_range K b r))"
proof -
  from b obtain P c n where 1: "bd_data b = P @ c # replicate n empty_chunk" "bd_outer b = length P"
    "flat P @ chunk_data c = rs" "list_all (full_chunk K g) P"
    "if rs = [] then P = [] \<and> c = empty_chunk else pre_chunk K g c" by (auto simp: builder_ok_def)
  have lt: "fst r < snd r" using r by (simp add: pushable_def)
  have at: "bd_data b ! bd_outer b = c" by (simp add: 1)
  have upd: "(bd_data b)[bd_outer b := c'] = P @ c' # replicate n empty_chunk" for c' by (simp add: 1)
  note push = builder_push_range_def [of K b r, unfolded Let_def at upd]
  show ?thesis
  proof (cases "rs = []")
    case True
    with 1 have e: "P = []" "c = empty_chunk" by auto
    then show ?thesis using True N lt K
      by (auto simp: push empty_chunk_def rpush_def pre_chunk_def 1 intro!: builder_okI [of _ "[]" _ n])
  next
    case False
    then have pc: "pre_chunk K g c" and ne: "chunk_data c \<noteq> []" using 1(5) by (auto simp: pre_chunk_def)
    have last: "last rs = last (chunk_data c)" using 1(3) ne by auto
    consider (join) "fst r = snd (last (chunk_data c))"
      | (room) "fst r \<noteq> snd (last (chunk_data c))" "length (chunk_data c) < K"
      | (full) "fst r \<noteq> snd (last (chunk_data c))" "length (chunk_data c) = K"
      using pc by (auto simp: pre_chunk_def le_less)
    then show ?thesis
    proof cases
      case join
      let ?c = "c\<lparr>chunk_data := butlast (chunk_data c) @ [(fst (last (chunk_data c)), snd r)],
           chunk_count := chunk_count c + (snd r - fst r)\<rparr>"
      have "builder_push_range K b r = b\<lparr>bd_data := P @ ?c # replicate n empty_chunk\<rparr>"
        using join ne by (simp add: push)
      moreover have "flat P @ chunk_data ?c = rpush rs r"
        using join last False 1(3) ne by (auto simp: rpush_def butlast_append)
      ultimately show ?thesis using pre_chunk_extend [OF pc _ join] lt 1 N
        by (auto intro!: builder_okI [of _ P ?c n])
    next
      case room
      let ?c = "c\<lparr>chunk_data := chunk_data c @ [r], chunk_count := chunk_count c + (snd r - fst r)\<rparr>"
      have "builder_push_range K b r = b\<lparr>bd_data := P @ ?c # replicate n empty_chunk\<rparr>"
        using room ne by (simp add: push)
      moreover have "flat P @ chunk_data ?c = rpush rs r" using room last 1(3) by (auto simp: rpush_def)
      moreover have "pre_chunk K g ?c" using pc room lt ne by (auto simp: pre_chunk_def)
      ultimately show ?thesis using 1 N by (auto intro!: builder_okI [of _ P ?c n])
    next
      case full
      let ?c = "c\<lparr>chunk_end := snd (last (chunk_data c))\<rparr>"
      have fc: "list_all (full_chunk K g) (P @ [?c])" using 1(4) pc full by (simp add: full_chunk_def pre_chunk_def)
      have rp: "flat (P @ [?c]) @ [r] = rpush rs r" using full last 1(3) by (auto simp: rpush_def)
      show ?thesis
      proof (cases n)
        case 0
        let ?n = "\<lparr>chunk_data = [r], chunk_begin = fst r, chunk_end = 0, chunk_count = 1\<rparr>"
        have e: "builder_push_range K b r = \<lparr>bd_data = (P @ [?c]) @ [?n], bd_outer = length (P @ [?c])\<rparr>"
          using full ne 0 by (simp add: push 1(2))
        have "length (rpush rs r) = Suc (K * length (bd_data b))"
          using flat_full_length [OF fc] by (simp add: 1(1) 0 flip: rp)
        then have "g \<longrightarrow> snd r = Suc (fst r)" using no mult_le_mono2 [OF N, of K] by linarith
        then have "pre_chunk K g ?n" using lt K by (auto simp: pre_chunk_def)
        then show ?thesis using fc rp N e 1(1) 0 by (auto intro!: builder_okI [of _ "P @ [?c]" ?n 0])
      next
        case (Suc m)
        let ?n = "empty_chunk\<lparr>chunk_data := [r], chunk_begin := fst r, chunk_count := snd r - fst r\<rparr>"
        have e: "builder_push_range K b r = \<lparr>bd_data = (P @ [?c]) @ ?n # replicate m empty_chunk, bd_outer = length (P @ [?c])\<rparr>"
          using full ne Suc by (simp add: push 1(2) nth_append empty_chunk_def list_update_append)
        have "pre_chunk K g ?n" using lt K by (auto simp: pre_chunk_def)
        then show ?thesis using fc rp N e 1(1) Suc
          by (auto intro!: builder_okI [of _ "P @ [?c]" ?n m] simp: empty_chunk_def)
      qed
    qed
  qed
qed

lemma builder_pushes_ok:
  assumes "builder_ok K g b rs" "0 < K" "ascending qs" "\<forall>s \<in> set rs. \<forall>q \<in> set qs. snd s \<le> fst q"
    "N \<le> length (bd_data b)" "g \<longrightarrow> (\<forall>q \<in> set qs. snd q = Suc (fst q)) \<or> length (foldl rpush rs qs) \<le> K * N"
  shows "builder_ok K g (foldl (builder_push_range K) b qs) (foldl rpush rs qs)"
  using assms
proof (induction qs arbitrary: b rs)
  case (Cons q qs)
  have p: "pushable rs q" using Cons.prems by (auto simp: pushable_def)
  have "length (rpush rs q) \<le> length (foldl rpush rs (q # qs))" using foldl_rpush_length by simp
  then have "g \<longrightarrow> snd q = Suc (fst q) \<or> length (rpush rs q) \<le> K * N" using Cons.prems(6) by fastforce
  note b = builder_push_range_ok [OF Cons.prems(1,2) p Cons.prems(5) this]
  have "\<forall>s \<in> set (rpush rs q). \<forall>t \<in> set qs. snd s \<le> fst t"
    using pushable_rpush [OF p] Cons.prems(3) by auto
  moreover have "g \<longrightarrow> (\<forall>q \<in> set qs. snd q = Suc (fst q)) \<or> length (foldl rpush (rpush rs q) qs) \<le> K * N"
    using Cons.prems(6) by auto
  ultimately show ?case using Cons.IH [of "builder_push_range K b q" "rpush rs q"] b Cons.prems(2,3) by simp
qed simp

lemma builder_finalize_flat:
  assumes "builder_ok K g b rs"
  shows "flat (builder_finalize b) = rs" and "g \<Longrightarrow> chunks_ok K (builder_finalize b)"
proof -
  from assms obtain P c n where 1: "bd_data b = P @ c # replicate n empty_chunk" "bd_outer b = length P"
    "flat P @ chunk_data c = rs" "list_all (full_chunk K g) P"
    "if rs = [] then P = [] \<and> c = empty_chunk else pre_chunk K g c" by (auto simp: builder_ok_def)
  have "take (bd_outer b + 1) (bd_data b) = P @ [c]" by (simp add: 1)
  then have f: "builder_finalize b = (if chunk_data c = [] then P
      else P @ [c\<lparr>chunk_end := snd (last (chunk_data c))\<rparr>])"
    by (simp add: builder_finalize_def 1(1) Let_def)
  show "flat (builder_finalize b) = rs" using 1(3) by (auto simp: f)
  show "chunks_ok K (builder_finalize b)" if g
  proof -
    have "list_all (chunk_ok K) P" using 1(4) that full_chunk_ok by (auto simp: list_all_iff)
    then show ?thesis using 1(3,5) that
      by (auto simp: f chunks_ok_def pre_chunk_def chunk_ok_def lens_def empty_chunk_def split: if_splits)
  qed
qed

lemma foldl_push_singles: "foldl (builder_push K) b xs = foldl (builder_push_range K) b (map (\<lambda>i. (i, Suc i)) xs)"
  by (induction xs arbitrary: b) (simp_all add: builder_push_def)

lemma build_indexes:
  assumes "even K" "0 < K" "sorted_wrt (<) xs"
  shows "vec_ok K (builder_finalize (foldl (builder_push K) (builder_init K d) xs)) \<and>
    indices (builder_finalize (foldl (builder_push K) (builder_init K d) xs)) = set xs"
proof -
  let ?q = "map (\<lambda>i. (i, Suc i)) xs" and ?b = "foldl (builder_push K) (builder_init K d) xs"
  have "builder_ok K True ?b (foldl rpush [] ?q)"
    unfolding foldl_push_singles
    by (rule builder_pushes_ok [where N = 0]) (use assms in \<open>auto simp: builder_init_ok ascending_singles\<close>)
  from builder_finalize_flat [OF this] show ?thesis
    using foldl_rpush_ok [of "[]" ?q] assms ascending_singles [OF assms(3)]
    by (simp add: vec_ok_def indices_def span_singles)
qed

section \<open>The merge loops\<close>

text \<open>The indices each loop pushes.\<close>

fun inserted :: "size_t \<Rightarrow> size_t list \<Rightarrow> size_t list \<Rightarrow> size_t list" where
  "inserted k (x # xs) (y # ys) =
     (if x + k < y then (x + k) # inserted k xs (y # ys) else y # inserted (Suc k) (x # xs) ys)"
| "inserted k xs [] = map (\<lambda>x. x + k) xs"
| "inserted k [] ys = ys"

fun shifted :: "size_t \<Rightarrow> size_t list \<Rightarrow> size_t list \<Rightarrow> size_t list" where
  "shifted k (x # xs) (y # ys) =
     (if x + k < y then (x + k) # shifted k xs (y # ys) else shifted (Suc k) (x # xs) ys)"
| "shifted k xs [] = map (\<lambda>x. x + k) xs"
| "shifted k [] ys = []"

fun erased :: "size_t \<Rightarrow> size_t list \<Rightarrow> size_t list \<Rightarrow> size_t list" where
  "erased k (x # xs) (y # ys) =
     (if x < y then (x - k) # erased k xs (y # ys)
      else if x = y then erased (Suc k) xs ys else erased (Suc k) (x # xs) ys)"
| "erased k xs [] = map (\<lambda>x. x - k) xs"
| "erased k [] ys = []"

lemma foldl_map: "foldl f a (map h xs) = foldl (\<lambda>a x. f a (h x)) a xs"
  by (induction xs arbitrary: a) simp_all

lemma insert_merge_pushes: "insert_merge K b k xs ys = foldl (builder_push K) b (inserted k xs ys)"
  by (induction K b k xs ys rule: insert_merge.induct) (simp_all add: foldl_map)

lemma shift_merge_pushes: "shift_merge K b k xs ys = foldl (builder_push K) b (shifted k xs ys)"
  by (induction K b k xs ys rule: shift_merge.induct) (simp_all add: foldl_map)

lemma erase_merge_pushes: "erase_merge K b k xs ys = foldl (builder_push K) b (erased k xs ys)"
  by (induction K b k xs ys rule: erase_merge.induct) (simp_all add: foldl_map)

text \<open>How \<open>shift_in\<close> behaves while the inserted positions are consumed in order.\<close>

lemma shift_in_ge: "finite S \<Longrightarrow> k \<le> shift_in S k"
  using shift_in_spec [of S k] by (metis diff_le_self unshift_in_def)

lemma shift_in_before: "finite S \<Longrightarrow> \<forall>s \<in> S. k < s \<Longrightarrow> shift_in S k = k"
  by (rule shift_in_eqI) (auto simp: unshift_in_def rank_none subset_iff less_imp_le)

lemma shift_in_insert:
  assumes "finite S" "\<forall>s \<in> S. y < s" "y \<le> k"
  shows "shift_in (insert y S) k = shift_in S (Suc k)"
proof (rule shift_in_eqI)
  let ?i = "shift_in S (Suc k)"
  have i: "?i \<notin> S" "unshift_in S ?i = Suc k" "y < ?i"
    using shift_in_spec [OF assms(1), of "Suc k"] shift_in_ge [OF assms(1), of "Suc k"] assms(3) by auto
  have "rank (insert y S) ?i = Suc (rank S ?i)"
    using assms(1,2) i(3) by (simp add: rank_def Int_insert_left) (subst card_insert_disjoint; auto)
  then show "unshift_in (insert y S) ?i = k" using i(2) by (simp add: unshift_in_def)
  show "?i \<notin> insert y S" using i by simp
qed (use assms in simp)

lemma inserted_set:
  assumes "sorted_wrt (<) xs" "sorted_wrt (<) ys"
  shows "set (inserted k xs ys) = (\<lambda>x. shift_in (set ys) (x + k)) ` set xs \<union> set ys \<and>
    sorted_wrt (<) (inserted k xs ys)"
  using assms
proof (induction k xs ys rule: inserted.induct)
  case (1 k x xs y ys)
  show ?case
  proof (cases "x + k < y")
    case True
    have e: "shift_in (set (y # ys)) (x + k) = x + k" using True 1(4) by (intro shift_in_before) auto
    have "x + k < shift_in (set (y # ys)) (z + k)" if "z \<in> set xs" for z
      using shift_in_ge [of "set (y # ys)" "z + k"] 1(3) that by fastforce
    then have "\<forall>z \<in> set (inserted k xs (y # ys)). x + k < z"
      using 1(1) [OF True] 1(3,4) True by fastforce
    then show ?thesis using 1(1) [OF True] 1(3,4) True e by auto
  next
    case False
    have e: "shift_in (set (y # ys)) (z + k) = shift_in (set ys) (z + Suc k)" if "z \<in> set (x # xs)" for z
      using shift_in_insert [of "set ys" y "z + k"] that False 1(3,4) by auto
    have "y < shift_in (set ys) (z + Suc k)" if "z \<in> set (x # xs)" for z
      using shift_in_ge [of "set ys" "z + Suc k"] 1(3) False that by fastforce
    then have "\<forall>z \<in> set (inserted (Suc k) (x # xs) ys). y < z"
      using 1(2) [OF False] 1(3,4) by fastforce
    moreover have "(\<lambda>z. shift_in (set (y # ys)) (z + k)) ` set (x # xs) = (\<lambda>z. shift_in (set ys) (z + Suc k)) ` set (x # xs)"
      using e by (rule image_cong [OF refl])
    ultimately show ?thesis using 1(2) [OF False] 1(3,4) False by auto
  qed
qed (auto simp: sorted_wrt_map)

lemma shifted_set:
  assumes "sorted_wrt (<) xs" "sorted_wrt (<) ys"
  shows "set (shifted k xs ys) = (\<lambda>x. shift_in (set ys) (x + k)) ` set xs \<and> sorted_wrt (<) (shifted k xs ys)"
  using assms
proof (induction k xs ys rule: shifted.induct)
  case (1 k x xs y ys)
  show ?case
  proof (cases "x + k < y")
    case True
    have e: "shift_in (set (y # ys)) (x + k) = x + k" using True 1(4) by (intro shift_in_before) auto
    have "x + k < shift_in (set (y # ys)) (z + k)" if "z \<in> set xs" for z
      using shift_in_ge [of "set (y # ys)" "z + k"] 1(3) that by fastforce
    then have "\<forall>z \<in> set (shifted k xs (y # ys)). x + k < z"
      using 1(1) [OF True] 1(3,4) True by fastforce
    then show ?thesis using 1(1) [OF True] 1(3,4) True e by auto
  next
    case False
    have "shift_in (set (y # ys)) (z + k) = shift_in (set ys) (z + Suc k)" if "z \<in> set (x # xs)" for z
      using shift_in_insert [of "set ys" y "z + k"] that False 1(3,4) by auto
    then have "(\<lambda>z. shift_in (set (y # ys)) (z + k)) ` set (x # xs) = (\<lambda>z. shift_in (set ys) (z + Suc k)) ` set (x # xs)"
      by (rule image_cong [OF refl])
    then show ?thesis using 1(2) [OF False] 1(3,4) False by auto
  qed
qed (auto simp: sorted_wrt_map)

lemma rank_insert_low:
  "finite S \<Longrightarrow> y \<notin> S \<Longrightarrow> y < x \<Longrightarrow> rank (insert y S) x = Suc (rank S x)"
  by (simp add: rank_def Int_insert_left)

lemma erased_set:
  assumes "sorted_wrt (<) xs" "sorted_wrt (<) ys" "finite C" "\<forall>c \<in> C. (\<forall>x \<in> set xs. c < x) \<and> (\<forall>y \<in> set ys. c < y)"
  shows "set (erased (card C) xs ys) = unshift_in (C \<union> set ys) ` (set xs - set ys) \<and>
    sorted_wrt (<) (erased (card C) xs ys)"
  using assms
proof (induction "card C" xs ys arbitrary: C rule: erased.induct)
  case (1 x xs y ys)
  have yC: "y \<notin> C" "card (insert y C) = Suc (card C)" using 1(6,7) by auto
  have un: "insert y C \<union> set ys = C \<union> set (y # ys)" by auto
  consider "x < y" | "x = y" | "y < x" by linarith
  then show ?case
  proof cases
    case 1
    note IH = "1.hyps"(1) [OF 1 refl]
    have h: "set (erased (card C) xs (y # ys)) = unshift_in (C \<union> set (y # ys)) ` (set xs - set (y # ys)) \<and>
      sorted_wrt (<) (erased (card C) xs (y # ys))"
      using IH "1.prems" by auto
    have "rank (C \<union> set (y # ys)) x = card C"
    proof -
      have "(C \<union> set (y # ys)) \<inter> {..<x} = C" using "1.prems" 1 by auto
      then show ?thesis by (simp add: rank_def)
    qed
    then have e: "unshift_in (C \<union> set (y # ys)) x = x - card C" by (simp add: unshift_in_def)
    have x: "x \<notin> C \<union> set (y # ys)" using "1.prems" 1 by auto
    have "\<forall>z \<in> set (erased (card C) xs (y # ys)). x - card C < z"
      using h e unshift_in_strict [OF _ x] "1.prems"(1) by auto
    moreover have "set (x # xs) - set (y # ys) = insert x (set xs - set (y # ys))" using x by auto
    ultimately show ?thesis using h e 1 by simp
  next
    case 2
    have "set (erased (card (insert y C)) xs ys) = unshift_in (insert y C \<union> set ys) ` (set xs - set ys) \<and>
      sorted_wrt (<) (erased (card (insert y C)) xs ys)"
      using "1.hyps"(2) [of "insert y C"] 2 "1.prems" yC by auto
    moreover have "set (x # xs) - set (y # ys) = set xs - set ys" using 2 "1.prems"(1) by auto
    ultimately show ?thesis using 2 yC un by simp
  next
    case 3
    have "\<forall>z \<in> set xs. y < z" using 3 "1.prems"(1) by auto
    then have "set (erased (card (insert y C)) (x # xs) ys) = unshift_in (insert y C \<union> set ys) ` (set (x # xs) - set ys) \<and>
      sorted_wrt (<) (erased (card (insert y C)) (x # xs) ys)"
      using "1.hyps"(3) [of "insert y C"] 3 "1.prems" yC by auto
    moreover have "set (x # xs) - set (y # ys) = set (x # xs) - set ys" using 3 "1.prems"(1) by auto
    ultimately show ?thesis using 3 yC un by simp
  qed
next
  case (2 xs)
  have e: "unshift_in C x = x - card C" if "x \<in> set xs" for x
  proof -
    have "C \<inter> {..<x} = C" using 2(4) that by auto
    then show ?thesis by (simp add: unshift_in_def rank_def)
  qed
  have "sorted_wrt (\<lambda>x y. x - card C < y - card C) xs"
  proof (rule sorted_wrt_mono_rel [OF _ 2(1)])
    fix x y assume xy: "x \<in> set xs" "y \<in> set xs" "x < y"
    then show "x - card C < y - card C"
      using unshift_in_strict [of x y C] 2(4) by (auto simp flip: e)
  qed
  then show ?case using e by (auto simp: sorted_wrt_map)
qed simp

end
