(* ===== verification/Index_Set_Bulk_Sets.thy ===== *)
theory Index_Set_Bulk_Sets
  imports Index_Set_Bulk_Laws
begin

text \<open>
  The set-level operations of \<open>IndexSet\<close> on well-formed sets: results as images of sets of indices.
\<close>

lemma build_vec:
  assumes "vec_ok K d" "sorted_wrt (<) xs" "xs' = set xs"
  shows "vec_ok K (builder_finalize (foldl (builder_push K) (builder_init K e) xs)) \<and>
    indices (builder_finalize (foldl (builder_push K) (builder_init K e) xs)) = xs'"
  using build_indexes [of K xs e] assms by (simp add: vec_ok_def)

lemma indices_empty_iff: "vec_ok K d \<Longrightarrow> indices d = {} \<longleftrightarrow> d = []"
  using flat_eq_Nil_iff [of K d] by (auto simp: indices_def vec_ok_def span_empty_iff)

lemma indices_Nil [simp]: "indices [] = {}"
  by (simp add: indices_def)

lemma finite_indices [simp]: "finite (indices d)"
  by (simp add: indices_def)

lemma insert_at_set_indices:
  assumes "vec_ok K d" "vec_ok K p"
  shows "vec_ok K (insert_at_set K d p) \<and>
    indices (insert_at_set K d p) = shift_in (indices p) ` indices d \<union> indices p"
proof -
  note s = sorted_as_indexes [OF assms(1)] sorted_as_indexes [OF assms(2)]
  show ?thesis
    using inserted_set [OF s, of 0] assms
      build_vec [OF assms(1) conjunct2 [OF inserted_set [OF s, of 0]] refl, of d]
    by (auto simp: insert_at_set_def insert_merge_pushes set_as_indexes)
qed

lemma shift_for_insert_at_set_indices:
  assumes "vec_ok K d" "vec_ok K v"
  shows "vec_ok K (shift_for_insert_at_set K d v) \<and>
    indices (shift_for_insert_at_set K d v) = shift_in (indices v) ` indices d"
proof -
  note s = sorted_as_indexes [OF assms(1)] sorted_as_indexes [OF assms(2)]
  have early: "shift_in (indices v) ` indices d = indices d"
    if ne: "d \<noteq> []" "v \<noteq> []" and le: "chunk_end (last d) \<le> chunk_begin (hd v)"
  proof -
    have ok: "chunks_ok K d" "chunks_ok K v" "ranges_ok (flat d)" "ranges_ok (flat v)"
      using assms by (simp_all add: vec_ok_def)
    have nf: "flat d \<noteq> []" "flat v \<noteq> []" using ok ne by (simp_all add: flat_eq_Nil_iff)
    have "chunk_end (last d) = snd (last (flat d))"
      using ok(1) ne(1) by (cases d rule: rev_cases) (auto simp: chunk_ok_def)
    moreover have "chunk_begin (hd v) = fst (hd (flat v))"
      using ok(2) ne(2) by (cases v) (auto simp: chunk_ok_def)
    ultimately have le': "snd (last (flat d)) \<le> fst (hd (flat v))" using le by simp
    have "\<forall>i \<in> indices d. i < snd (last (flat d))"
      using sorted_ends_le [OF ok(3) nf(1) order_refl] by (fastforce simp: indices_def span_def)
    moreover have "\<forall>j \<in> indices v. fst (hd (flat v)) \<le> j"
      using span_Min_le [of "hd (flat v)" "tl (flat v)"] ok(4) nf(2) by (simp add: indices_def)
    ultimately have "\<forall>i \<in> indices d. \<forall>j \<in> indices v. i < j" using le' by fastforce
    then have "\<forall>i \<in> indices d. shift_in (indices v) i = i" by (simp add: shift_in_before)
    then show ?thesis by (simp add: image_cong)
  qed
  show ?thesis
    using shifted_set [OF s, of 0] assms early
      build_vec [OF assms(1) conjunct2 [OF shifted_set [OF s, of 0]] refl, of d]
    by (auto simp: shift_for_insert_at_set_def shift_merge_pushes set_as_indexes)
qed

lemma erase_at_set_indices:
  assumes "vec_ok K d" "vec_ok K p"
  shows "vec_ok K (erase_at_set K d p) \<and>
    indices (erase_at_set K d p) = unshift_in (indices p) ` (indices d - indices p)"
proof -
  note s = sorted_as_indexes [OF assms(1)] sorted_as_indexes [OF assms(2)]
  have u: "unshift_in {} = (\<lambda>i. i)" by (simp add: fun_eq_iff unshift_in_def)
  have e: "set (erased 0 (as_indexes d) (as_indexes p)) = unshift_in (indices p) ` (indices d - indices p) \<and>
    sorted_wrt (<) (erased 0 (as_indexes d) (as_indexes p))"
    using erased_set [OF s, of "{}"] by (simp add: set_as_indexes)
  show ?thesis
    using e assms build_vec [OF assms(1) conjunct2 [OF e] refl, of d]
    by (auto simp: erase_at_set_def erase_merge_pushes u)
qed

section \<open>Adding sets\<close>

lemma add_all_indices:
  assumes "rcur K d it B A" "ranges_ok (B @ A)" "sorted_wrt (<) xs" "\<forall>s \<in> set B. \<forall>x \<in> set xs. snd s \<le> x"
  shows "\<exists>d'. add_all K d it xs = Some d' \<and> vec_ok K d' \<and> indices d' = indices d \<union> set xs"
  using assms
proof (induction xs arbitrary: d it B A)
  case Nil
  then show ?case using rcur_vec_ok [OF Nil(1,2)] by simp
next
  case (Cons x xs)
  have Bx: "\<forall>s \<in> set B. snd s \<le> x" using Cons.prems(4) by simp
  then have "\<forall>s \<in> set B. fst s \<le> x"
    using ranges_ok_nonempty [of "B @ A"] Cons.prems(2) by fastforce
  note c = rcur_find_from [OF Cons.prems(1,2) this]
  have ok: "ranges_ok ((B @ rbelow x A) @ rabove x A)" using Cons.prems(2) by simp
  have B1: "\<forall>s \<in> set (B @ rbelow x A). snd s \<le> x" using Bx below_le by auto
  from do_add_vec [OF c ok B1 below_above_pre(2)] obtain d' it' B' r A' where
    1: "do_add K d (find_from d x it) x = Some (d', it')" "vec_ok K d'" "indices d' = insert x (indices d)"
      "add_ranges (B @ rbelow x A) x (rabove x A) = (B', r, A')" "rcur K d' it' B' (r # A')" by blast
  have "set B' \<subseteq> set (B @ rbelow x A)"
    using 1(4) by (auto simp: add_ranges_def Let_def dest: in_set_butlastD split: if_splits)
  then have "\<forall>s \<in> set B'. snd s \<le> x" using B1 by blast
  moreover have "\<forall>y \<in> set xs. x < y" using Cons.prems(3) by simp
  ultimately have "\<forall>s \<in> set B'. \<forall>y \<in> set xs. snd s \<le> y" by fastforce
  moreover have "ranges_ok (B' @ r # A')" using add_ranges_ok(1) [OF ok B1 below_above_pre(2) 1(4)] .
  ultimately obtain D where "add_all K d' it' xs = Some D" "vec_ok K D" "indices D = indices d' \<union> set xs"
    using Cons.IH [OF 1(5)] Cons.prems(3) by auto
  with 1 show ?case by simp
qed

lemma add_set_indices:
  assumes "vec_ok K d" "vec_ok K v"
  shows "\<exists>d'. add_set K d v = Some d' \<and> vec_ok K d' \<and> indices d' = indices d \<union> indices v"
  using add_all_indices [OF rcur_begin [OF assms(1)] _ sorted_as_indexes [OF assms(2)]] assms
  by (simp add: add_set_def set_as_indexes vec_ok_def)

text \<open>\<open>add_shifted_by\<close>: the ranges passed so far, in \<open>shifted_by\<close> and in the old set.\<close>

fun passes :: "range list \<Rightarrow> size_t \<Rightarrow> bool" where
  "passes [] k = True"
| "passes (r # rs) k = (fst r \<le> k \<and> passes rs (k + (snd r - fst r)))"

lemma passes_mono: "passes rs k \<Longrightarrow> k \<le> j \<Longrightarrow> passes rs j"
proof (induction rs arbitrary: k j)
  case (Cons r rs)
  then show ?case using Cons.IH [of "k + (snd r - fst r)" "j + (snd r - fst r)"] by auto
qed simp

lemma passes_append: "passes (rs @ ss) k \<longleftrightarrow> passes rs k \<and> passes ss (k + lens rs)"
  by (induction rs arbitrary: k) (auto simp: add.assoc)

lemma passes_shift_ranges: "passes rs k \<Longrightarrow> shift_ranges (rs @ ss) k = shift_ranges ss (k + lens rs)"
  by (induction rs arbitrary: k) (auto simp: add.assoc)

lemma passes_end: "ranges_ok rs \<Longrightarrow> passes rs k \<Longrightarrow> \<forall>r \<in> set rs. snd r \<le> k + lens rs"
proof (induction rs arbitrary: k)
  case (Cons r rs)
  have "fst r < snd r" "ranges_ok rs" using Cons.prems(1) by (auto simp: ranges_ok_Cons)
  moreover have "fst r \<le> k" using Cons.prems(2) by simp
  then have "snd r \<le> k + (snd r - fst r)" by arith
  ultimately show ?case using Cons.IH [of "k + (snd r - fst r)"] Cons.prems(2)
    by (fastforce simp: add.assoc intro: le_trans)
qed simp

lemma copy_old_pushes:
  assumes "ranges_ok os"
  shows "\<exists>qs rest. copy_old K b os k n = (foldl (builder_push K) b (concat (map (\<lambda>r. [fst r..<snd r]) qs)), rest, n + lens qs) \<and>
    os = qs @ rest \<and> passes qs (k + n) \<and> shift_ranges rest (k + n + lens qs) = k + n + lens qs"
  using assms
proof (induction os arbitrary: b n)
  case (Cons r os)
  show ?case
  proof (cases "fst r \<le> k + n")
    case True
    let ?b = "foldl (builder_push K) b [fst r..<snd r]"
    from Cons.IH [of ?b "n + (snd r - fst r)"] Cons.prems obtain qs rest where
      "copy_old K ?b os k (n + (snd r - fst r)) =
        (foldl (builder_push K) ?b (concat (map (\<lambda>r. [fst r..<snd r]) qs)), rest, n + (snd r - fst r) + lens qs)"
      "os = qs @ rest" "passes qs (k + (n + (snd r - fst r)))"
      "shift_ranges rest (k + (n + (snd r - fst r)) + lens qs) = k + (n + (snd r - fst r)) + lens qs"
      by (auto simp: ranges_ok_Cons)
    then show ?thesis using True
      by (intro exI [of _ "r # qs"] exI [of _ rest]) (simp add: ac_simps)
  next
    case False
    then show ?thesis by (intro exI [of _ "[]"] exI [of _ "r # os"]) simp
  qed
qed (intro exI [of _ "[]"]; simp)

lemma skip_shifts_split:
  assumes "ranges_ok us"
  shows "\<exists>qs rest. skip_shifts us i n sk = (rest, n + lens qs, if qs = [] then sk else snd (last qs)) \<and>
    us = qs @ rest \<and> (\<forall>r \<in> set qs. fst r \<le> i) \<and> (\<forall>r \<in> set rest. i < fst r)"
  using assms
proof (induction us arbitrary: n sk)
  case (Cons r us)
  show ?case
  proof (cases "fst r \<le> i")
    case True
    from Cons.IH [of "n + (snd r - fst r)" "snd r"] Cons.prems obtain qs rest where
      "skip_shifts us i (n + (snd r - fst r)) (snd r) =
        (rest, n + (snd r - fst r) + lens qs, if qs = [] then snd r else snd (last qs))"
      "us = qs @ rest" "\<forall>r \<in> set qs. fst r \<le> i" "\<forall>r \<in> set rest. i < fst r"
      by (auto simp: ranges_ok_Cons)
    then show ?thesis using True by (intro exI [of _ "r # qs"] exI [of _ rest]) auto
  next
    case False
    then show ?thesis using Cons.prems
      by (intro exI [of _ "[]"] exI [of _ "r # us"]) (fastforce simp: ranges_ok_Cons)
  qed
qed (intro exI [of _ "[]"]; simp)

lemma skip_iff_member:
  assumes "ranges_ok (P @ us)" "\<forall>r \<in> set P. fst r \<le> x" "\<forall>r \<in> set us. x < fst r"
  shows "x < (if P = [] then 0 else snd (last P)) \<longleftrightarrow> x \<in> span (P @ us)"
    and "x \<notin> span (P @ us) \<Longrightarrow> rank (span (P @ us)) x = lens P"
proof -
  have us: "x \<notin> span us" "span us \<subseteq> {x..}" using assms(3) by (fastforce simp: span_def)+
  show iff: "x < (if P = [] then 0 else snd (last P)) \<longleftrightarrow> x \<in> span (P @ us)"
  proof (cases "P = []")
    case False
    have "x \<in> span P \<longleftrightarrow> x < snd (last P)"
    proof
      assume "x < snd (last P)"
      then show "x \<in> span P" using assms(2) last_in_set [OF False] unfolding span_def by fastforce
    next
      assume "x \<in> span P"
      then obtain r where "r \<in> set P" "x < snd r" by (auto simp: span_def)
      then show "x < snd (last P)"
        using sorted_ends_le [of P "snd (last P)"] assms(1) False by (fastforce simp: ranges_ok_append)
    qed
    then show ?thesis using us(1) False by simp
  qed (use us in simp)
  assume out: "x \<notin> span (P @ us)"
  then have "\<forall>r \<in> set P. snd r \<le> x" using assms(2) by (fastforce simp: span_def)
  then show "rank (span (P @ us)) x = lens P"
    using rank_passed [OF assms(1)] us(2) by (simp add: rank_none)
qed

lemma add_values_pushes:
  assumes "ranges_ok (P @ us)" "ranges_ok (Q @ os)" "sorted_wrt (<) xs"
    "\<forall>r \<in> set P. \<forall>x \<in> set xs. fst r \<le> x" "U = span (P @ us)" "S = span (Q @ os)"
    "\<forall>x \<in> set xs - U. passes Q (unshift_in U x)"
  shows "\<exists>L Q' rest. add_values K b os us (if P = [] then 0 else snd (last P)) (lens Q) (lens P) xs =
      Some (foldl (builder_push K) b L, rest) \<and> os = Q' @ rest \<and>
    set L = span Q' \<union> (\<lambda>x. shift_in S (unshift_in U x)) ` (set xs - U) \<and> sorted_wrt (<) L \<and>
    (\<forall>r \<in> set rest. \<forall>l \<in> set L. l < fst r)"
  using assms
proof (induction xs arbitrary: P us Q os b)
  case Nil
  show ?case by (intro exI [of _ "[]"] exI [of _ os]) simp
next
  case (Cons x xs)
  have okus: "ranges_ok us" using Cons.prems(1) by (simp add: ranges_ok_append)
  obtain qs us' where sk: "skip_shifts us x (lens P) (if P = [] then 0 else snd (last P)) =
      (us', lens P + lens qs, if qs = [] then (if P = [] then 0 else snd (last P)) else snd (last qs))"
    "us = qs @ us'" "\<forall>r \<in> set qs. fst r \<le> x" "\<forall>r \<in> set us'. x < fst r"
    using skip_shifts_split [OF okus, of x "lens P" "if P = [] then 0 else snd (last P)"] by metis
  define P' where "P' = P @ qs"
  have sk': "skip_shifts us x (lens P) (if P = [] then 0 else snd (last P)) =
      (us', lens P', if P' = [] then 0 else snd (last P'))" by (simp add: sk(1) P'_def)
  have P': "ranges_ok (P' @ us')" "\<forall>r \<in> set P'. fst r \<le> x" "U = span (P' @ us')"
    using Cons.prems(1,4,5) sk by (auto simp: P'_def)
  have later: "\<forall>r \<in> set P'. \<forall>y \<in> set xs. fst r \<le> y" using P'(2) Cons.prems(3) by fastforce
  note mem = skip_iff_member [OF P'(1,2) sk(4), folded P'(3)]
  note sorted = Cons.prems(3)
  show ?case
  proof (cases "x \<in> U")
    case True
    then have "set (x # xs) - U = set xs - U" by auto
    moreover have "\<forall>y \<in> set xs - U. passes Q (unshift_in U y)" using Cons.prems(7) by simp
    ultimately show ?thesis using Cons.IH [OF P'(1) Cons.prems(2) _ later P'(3) Cons.prems(6), of b] sorted sk' mem(1) True
      by simp
  next
    case False
    define k where "k = unshift_in U x"
    have k: "x - lens P' = k" "lens P' \<le> x" using mem(2) [OF False] rank_le [of U x] by (simp_all add: k_def unshift_in_def)
    have okQ: "ranges_ok os" using Cons.prems(2) by (simp add: ranges_ok_append)
    from copy_old_pushes [OF okQ, of K b k "lens Q"] obtain q2 os' where
      cp: "copy_old K b os k (lens Q) = (foldl (builder_push K) b (concat (map (\<lambda>r. [fst r..<snd r]) q2)), os', lens Q + lens q2)"
        "os = q2 @ os'" "passes q2 (k + lens Q)" "shift_ranges os' (k + lens Q + lens q2) = k + lens Q + lens q2" by blast
    define Q' where "Q' = Q @ q2"
    define j where "j = k + lens Q'"
    define L1 where "L1 = concat (map (\<lambda>r. [fst r..<snd r]) q2) @ [j]"
    have pQ: "passes Q k" using Cons.prems(7) False by (simp add: k_def)
    then have pQ': "passes Q' k" using cp(3) by (simp add: Q'_def passes_append)
    have okQ': "ranges_ok (Q' @ os')" "S = span (Q' @ os')" "ranges_ok q2" "ranges_ok Q'"
      using Cons.prems(2,6) cp(2) by (auto simp: Q'_def ranges_ok_append)
    have jS: "j = shift_in S k"
      using passes_shift_ranges [OF pQ', of os'] cp(4) shift_ranges_shift_in [OF okQ'(1), of k]
      by (simp add: j_def Q'_def okQ'(2) add.assoc)
    have above: "\<forall>r \<in> set os'. j < fst r"
    proof (cases os')
      case (Cons r R)
      then have "j < fst r" using cp(4) okQ'(1) shift_ranges_ge [of "j + (snd r - fst r)" R]
        by (auto simp: j_def Q'_def ranges_ok_append ranges_ok_Cons add.assoc split: if_splits)
      then show ?thesis using okQ'(1) Cons by (fastforce simp: ranges_ok_append ranges_ok_Cons)
    qed simp
    have "\<forall>r \<in> set q2. snd r \<le> j"
      using passes_end [OF okQ'(4) pQ'] by (auto simp: Q'_def j_def)
    then have L1: "sorted_wrt (<) L1" "set L1 = insert j (span q2)" "\<forall>l \<in> set L1. l \<le> j"
      using sorted_indexes [OF okQ'(3)] by (fastforce simp: L1_def sorted_wrt_append span_def)+
    have ps: "\<forall>y \<in> set xs - U. passes Q' (unshift_in U y)"
      using passes_mono [OF pQ'] unshift_in_mono [of x _ U] sorted by (auto simp: k_def less_imp_le)
    from Cons.IH [OF P'(1) okQ'(1) _ later P'(3) okQ'(2) ps, of "foldl (builder_push K) b L1"] sorted
    obtain L2 Q2 rest where
      h: "add_values K (foldl (builder_push K) b L1) os' us' (if P' = [] then 0 else snd (last P')) (lens Q') (lens P') xs =
          Some (foldl (builder_push K) (foldl (builder_push K) b L1) L2, rest)" "os' = Q2 @ rest"
        "set L2 = span Q2 \<union> (\<lambda>x. shift_in S (unshift_in U x)) ` (set xs - U)" "sorted_wrt (<) L2"
        "\<forall>r \<in> set rest. \<forall>l \<in> set L2. l < fst r" by auto
    have "add_values K b os us (if P = [] then 0 else snd (last P)) (lens Q) (lens P) (x # xs) =
        Some (foldl (builder_push K) b (L1 @ L2), rest)"
      using h(1) mem(1) False k by (simp add: sk' cp(1) L1_def j_def Q'_def add.assoc)
    moreover have "os = (q2 @ Q2) @ rest" by (simp add: cp(2) h(2))
    moreover have "set (L1 @ L2) = span (q2 @ Q2) \<union> (\<lambda>x. shift_in S (unshift_in U x)) ` (set (x # xs) - U)"
    proof -
      have "set (x # xs) - U = insert x (set xs - U)" using False by auto
      then show ?thesis using L1(2) h(3) jS by (auto simp: k_def)
    qed
    moreover have "\<forall>l \<in> set L2. j < l"
    proof -
      have "j < shift_in S (unshift_in U y)" if "y \<in> set xs" for y
        unfolding jS k_def using sorted that False
        by (intro shift_in_strict_mono unshift_in_strict) (auto simp: okQ'(2))
      moreover have "\<forall>r \<in> set Q2. j < fst r" using above h(2) by simp
      then have "\<forall>l \<in> span Q2. j < l" unfolding span_def by fastforce
      ultimately show ?thesis using h(3) by auto
    qed
    then have "sorted_wrt (<) (L1 @ L2)" using L1 h(4) by (fastforce simp: sorted_wrt_append)
    moreover have "\<forall>r \<in> set rest. \<forall>l \<in> set (L1 @ L2). l < fst r"
      using h(2,5) above L1(3) by (auto intro: le_less_trans)
    ultimately show ?thesis by blast
  qed
qed

text \<open>The assertion on the number of indices: no two values are added at the same place.\<close>

lemma length_as_indexes: "ranges_ok (flat d) \<Longrightarrow> length (as_indexes d) = card (indices d)"
proof -
  assume "ranges_ok (flat d)"
  then have "distinct (as_indexes d)" using sorted_indexes [of "flat d"] by (simp add: as_indexes_def strict_sorted_iff)
  then show ?thesis using distinct_card [of "as_indexes d"] by (simp add: set_as_indexes)
qed

lemma added_count:
  assumes d: "vec_ok K d" and u: "vec_ok K u" and v: "vec_ok K v" and x: "ranges_ok (flat x)"
    and e: "indices x = indices d \<union> shift_in (indices d) ` unshift_in (indices u) ` (indices v - indices u)"
  shows "length (as_indexes x) = length (as_indexes d) + length (filter (\<lambda>i. \<not> contains u i) (as_indexes v))"
proof -
  have f: "finite (indices d)" "finite (indices v)" by (simp_all add: indices_def)
  have "inj_on (\<lambda>i. shift_in (indices d) (unshift_in (indices u) i)) (indices v - indices u)"
  proof (rule inj_onI)
    fix i j assume ij: "i \<in> indices v - indices u" "j \<in> indices v - indices u"
      "shift_in (indices d) (unshift_in (indices u) i) = shift_in (indices d) (unshift_in (indices u) j)"
    then have "unshift_in (indices u) i = unshift_in (indices u) j" using shift_in_spec [OF f(1)] by metis
    then show "i = j" using unshift_in_inj [of i "indices u" j] ij by simp
  qed
  then have "card (shift_in (indices d) ` unshift_in (indices u) ` (indices v - indices u)) = card (indices v - indices u)"
    by (simp add: image_image card_image)
  moreover have "indices d \<inter> shift_in (indices d) ` unshift_in (indices u) ` (indices v - indices u) = {}"
    using shift_in_spec [OF f(1)] by auto
  ultimately have c: "card (indices x) = card (indices d) + card (indices v - indices u)"
    unfolding e using f by (simp add: card_Un_disjoint)
  have "distinct (as_indexes v)" using sorted_as_indexes [OF v] by (simp add: strict_sorted_iff)
  then have "length (filter (\<lambda>i. \<not> contains u i) (as_indexes v)) = card (set (filter (\<lambda>i. \<not> contains u i) (as_indexes v)))"
    by (simp only: distinct_filter distinct_card)
  also have "set (filter (\<lambda>i. \<not> contains u i) (as_indexes v)) = indices v - indices u"
    by (auto simp: set_as_indexes contains_indices [OF u])
  finally show ?thesis using c length_as_indexes [OF x] length_as_indexes [of d] d by (simp add: vec_ok_def)
qed

lemma add_shifted_by_indices:
  assumes d: "vec_ok K d" and u: "vec_ok K u" and v: "vec_ok K v"
  shows "\<exists>d'. add_shifted_by K d u v = Some d' \<and> ranges_ok (flat d') \<and>
    indices d' = indices d \<union> shift_in (indices d) ` unshift_in (indices u) ` (indices v - indices u) \<and>
    ((\<forall>r \<in> set (flat d). snd r = Suc (fst r)) \<or>
      length (flat d') \<le> K * (length (flat d) div K + 1) \<longrightarrow> vec_ok K d')"
proof (cases "v = []")
  case True
  then show ?thesis using d by (auto simp: add_shifted_by_def)
next
  case False
  have oks: "ranges_ok ([] @ flat u)" "ranges_ok ([] @ flat d)" using d u by auto
  from add_values_pushes [OF oks sorted_as_indexes [OF v] _ refl refl, of K "builder_init K d"] obtain L Q rest where
    h: "add_values K (builder_init K d) (flat d) (flat u) 0 0 0 (as_indexes v) =
        Some (foldl (builder_push K) (builder_init K d) L, rest)" "flat d = Q @ rest"
      "set L = span Q \<union> (\<lambda>x. shift_in (indices d) (unshift_in (indices u) x)) ` (indices v - indices u)"
      "sorted_wrt (<) L" "\<forall>r \<in> set rest. \<forall>l \<in> set L. l < fst r"
    by (auto simp: indices_def [symmetric] set_as_indexes)
  define qs where "qs = map (\<lambda>i. (i, Suc i)) L @ rest"
  define b where "b = foldl (builder_push_range K) (builder_init K d) qs"
  have asc: "ascending qs"
    using h(4,5) oks(2) h(2) by (fastforce simp: qs_def ascending_append ascending_singles ranges_ok_append ranges_ok_ascending)
  have N: "length (bd_data (builder_init K d)) = length (flat d) div K + 1"
    by (simp add: builder_init_def length_flat)
  have K: "even K" "0 < K" using d by (simp_all add: vec_ok_def)
  define F where "F = foldl rpush [] qs"
  have bk: "builder_ok K g b F"
    if "g \<longrightarrow> (\<forall>q \<in> set qs. snd q = Suc (fst q)) \<or> length F \<le> K * (length (flat d) div K + 1)" for g
    unfolding b_def F_def
    by (rule builder_pushes_ok [where N = "length (flat d) div K + 1"])
      (use that K asc N in \<open>auto simp: builder_init_ok F_def\<close>)
  have fl: "flat (builder_finalize b) = F" using builder_finalize_flat(1) [OF bk [of False]] by simp
  have F: "ranges_ok F" "span F = set L \<union> span rest"
    using foldl_rpush_ok [of "[]" qs] asc by (simp_all add: F_def qs_def span_singles)
  have "indices (builder_finalize b) = indices d \<union> shift_in (indices d) ` unshift_in (indices u) ` (indices v - indices u)"
    using F(2) h(2,3) by (auto simp: indices_def fl image_image)
  moreover have "vec_ok K (builder_finalize b)"
    if "(\<forall>r \<in> set (flat d). snd r = Suc (fst r)) \<or> length F \<le> K * (length (flat d) div K + 1)"
  proof -
    have "builder_ok K True b F"
      by (rule bk) (use that h(2) in \<open>auto simp: qs_def\<close>)
    then show ?thesis using builder_finalize_flat(2) K F(1) by (simp add: vec_ok_def fl)
  qed
  moreover have "add_shifted_by K d u v = Some (builder_finalize b)"
  proof -
    have "length (as_indexes (builder_finalize b)) =
        length (as_indexes d) + length (filter (\<lambda>i. \<not> contains u i) (as_indexes v))"
    proof (rule added_count [OF d u v])
      show "ranges_ok (flat (builder_finalize b))" using F(1) fl by simp
    qed fact
    then show ?thesis using h(1) False by (simp add: add_shifted_by_def b_def qs_def foldl_push_singles)
  qed
  ultimately show ?thesis using F(1) fl by auto
qed

end
