(* ===== verification/Index_Set_Contract.thy ===== *)
theory Index_Set_Contract
  imports Index_Set_Bulk_Sets
begin

text \<open>
  What the clients of \<open>IndexSet\<close> rely on, as a locale: \<open>rep d S\<close> relates a
  representation to the set it stands for, and each operation is described by what it does to that set.  The
  lemmas of the locale are the sequences of calls that \<open>CollectionChangeBuilder\<close> is made of.
  The interpretation \<open>ixs\<close> discharges the contract for the chunked sets.
\<close>

definition rep :: "nat \<Rightarrow> index_set \<Rightarrow> size_t set \<Rightarrow> bool" where
  "rep K d S \<longleftrightarrow> vec_ok K d \<and> indices d = S"

text \<open>Where the row at \<open>j\<close> is once the row at \<open>i\<close> has been taken out and put back at \<open>k\<close>.\<close>

definition moved_pos :: "size_t \<Rightarrow> size_t \<Rightarrow> size_t \<Rightarrow> size_t" where
  "moved_pos i k j = (if j = i then k else bump k 1 (unbump i j))"

definition exchange :: "size_t \<Rightarrow> size_t \<Rightarrow> size_t \<Rightarrow> size_t" where
  "exchange i j k = (if k = i then j else if k = j then i else k)"

locale index_set_ops =
  fixes rep :: "'d \<Rightarrow> size_t set \<Rightarrow> bool"
    and mem :: "'d \<Rightarrow> size_t \<Rightarrow> bool"
    and ins :: "'d \<Rightarrow> size_t \<Rightarrow> 'd option"
    and ins_shifted :: "'d \<Rightarrow> size_t \<Rightarrow> ('d \<times> size_t) option"
    and insert_gap :: "'d \<Rightarrow> size_t \<Rightarrow> size_t \<Rightarrow> 'd option"
    and shift_gap :: "'d \<Rightarrow> size_t \<Rightarrow> size_t \<Rightarrow> 'd option"
    and del_gap :: "'d \<Rightarrow> size_t \<Rightarrow> 'd"
    and del_or_unshift :: "'d \<Rightarrow> size_t \<Rightarrow> 'd \<times> size_t"
    and del :: "'d \<Rightarrow> size_t \<Rightarrow> size_t \<Rightarrow> 'd option"
    and up :: "'d \<Rightarrow> size_t \<Rightarrow> size_t" and down :: "'d \<Rightarrow> size_t \<Rightarrow> size_t"
  assumes mem: "rep d S \<Longrightarrow> mem d i \<longleftrightarrow> i \<in> S"
    and finite: "rep d S \<Longrightarrow> finite S"
    and ins: "rep d S \<Longrightarrow> \<exists>d'. ins d i = Some d' \<and> rep d' (insert i S)"
    and ins_shifted: "rep d S \<Longrightarrow>
       \<exists>d'. ins_shifted d i = Some (d', shift_in S i) \<and> rep d' (insert (shift_in S i) S)"
    and insert_gap: "rep d S \<Longrightarrow> 0 < n \<Longrightarrow> \<exists>d'. insert_gap d i n = Some d' \<and> rep d' (bump i n ` S \<union> {i..<i + n})"
    and shift_gap: "rep d S \<Longrightarrow> 0 < n \<Longrightarrow> \<exists>d'. shift_gap d i n = Some d' \<and> rep d' (bump i n ` S)"
    and del_gap: "rep d S \<Longrightarrow> rep (del_gap d i) (unbump i ` (S - {i}))"
    and del_or_unshift: "rep d S \<Longrightarrow> \<exists>d'. del_or_unshift d i =
       (d', if i \<in> S then npos else unshift_in S i) \<and> rep d' (unbump i ` (S - {i}))"
    and del: "rep d S \<Longrightarrow> 0 < n \<Longrightarrow> \<exists>d'. del d i n = Some d' \<and> rep d' (S - {i..<i + n})"
    and up: "rep d S \<Longrightarrow> up d i = shift_in S i" and down: "rep d S \<Longrightarrow> down d i = unshift_in S i"
begin

lemma del_one: "rep d S \<Longrightarrow> \<exists>d'. del d i 1 = Some d' \<and> rep d' (S - {i})"
  using del [of d S 1 i] by simp

text \<open>The set of modified rows follows a row that moves.\<close>

lemma move_modified:
  assumes "rep d S"
  shows "\<exists>d'. (if mem d i then insert_gap (del_gap d i) k 1 else shift_gap (del_gap d i) k 1) = Some d' \<and>
    rep d' (moved_pos i k ` S)"
proof (cases "i \<in> S")
  case True
  have "moved_pos i k ` S = bump k 1 ` unbump i ` (S - {i}) \<union> {k..<k + 1}"
    using True by (auto simp: moved_pos_def image_iff)
  then show ?thesis using True insert_gap [OF del_gap [OF assms], of 1 i k] mem [OF assms] by simp
next
  case False
  have "moved_pos i k ` S = bump k 1 ` unbump i ` (S - {i})"
    using False by (force simp: moved_pos_def image_iff)
  then show ?thesis using False shift_gap [OF del_gap [OF assms], of 1 i k] mem [OF assms] by simp
qed

text \<open>A deleted row is recorded under the position it had before the insertions and deletions.\<close>

lemma record_deletion:
  assumes "rep i I" "rep d D" "j < npos"
  shows "\<exists>i' d'. del_or_unshift i j = (i', if j \<in> I then npos else unshift_in I j) \<and>
    rep i' (unbump j ` (I - {j})) \<and>
    (if (if j \<in> I then npos else unshift_in I j) \<noteq> npos
     then map_option fst (ins_shifted d (if j \<in> I then npos else unshift_in I j)) else Some d) = Some d' \<and>
    rep d' (if j \<in> I then D else insert (shift_in D (unshift_in I j)) D)"
proof -
  have "unshift_in I j < npos" using assms(3) by (auto simp: unshift_in_def)
  then show ?thesis using del_or_unshift [OF assms(1), of j] ins_shifted [OF assms(2), of "unshift_in I j"] assms(2)
    by (cases "j \<in> I") auto
qed

text \<open>Moving the last row into a vacated place, and exchanging two rows.\<close>

lemma move_over_modified:
  assumes "rep d S" "i \<noteq> l"
  shows "\<exists>d'. (if mem d l then Option.bind (del d l 1) (\<lambda>e. ins e i) else del d i 1) = Some d' \<and>
    rep d' (if l \<in> S then insert i (S - {l}) else S - {i})"
  using del_one [OF assms(1), of l] del_one [OF assms(1), of i] ins mem [OF assms(1), of l]
  by (cases "l \<in> S") fastforce+

lemma exchange_modified:
  assumes "rep d S" "i \<noteq> j"
  shows "\<exists>d'. (if mem d i \<noteq> mem d j
      then if mem d i then Option.bind (del d i 1) (\<lambda>e. ins e j) else Option.bind (del d j 1) (\<lambda>e. ins e i)
      else Some d) = Some d' \<and> rep d' (exchange i j ` S)"
proof -
  have "exchange i j ` S = (if (i \<in> S) = (j \<in> S) then S
      else if i \<in> S then insert j (S - {i}) else insert i (S - {j}))"
    using assms(2) by (auto simp: exchange_def image_iff)
  then show ?thesis
    using del_one [OF assms(1), of j] del_one [OF assms(1), of i] ins mem [OF assms(1)] assms(1)
    by (cases "i \<in> S"; cases "j \<in> S") fastforce+
qed

end

lemma rep_erase_or_unshift:
  "rep K d S \<Longrightarrow> \<exists>d'. erase_or_unshift d i = (d', if i \<in> S then npos else unshift_in S i) \<and>
     rep K d' (unbump i ` (S - {i}))"
  using erase_or_unshift_indices [of K d i] by (auto simp: rep_def)

interpretation ixs: index_set_ops "rep K" contains "add K" "add_shifted K" "insert_at K"
  "shift_for_insert_at K" erase_at erase_or_unshift "remove K" shift unshift
  by (unfold_locales; (rule rep_erase_or_unshift; assumption)?)
    (auto simp: rep_def contains_indices shift_indices unshift_indices
      intro: add_indices add_shifted_indices insert_at_indices shift_for_insert_at_indices
      remove_indices dest: erase_at_indices erase_or_unshift_indices)

text \<open>The operations on whole sets, in the same form.\<close>

lemma rep_insert_set: "rep K d S \<Longrightarrow> rep K p P \<Longrightarrow> rep K (insert_at_set K d p) (shift_in P ` S \<union> P)"
  using insert_at_set_indices [of K d p] by (auto simp: rep_def)

lemma rep_shift_set: "rep K d S \<Longrightarrow> rep K p P \<Longrightarrow> rep K (shift_for_insert_at_set K d p) (shift_in P ` S)"
  using shift_for_insert_at_set_indices [of K d p] by (auto simp: rep_def)

lemma rep_erase_set: "rep K d S \<Longrightarrow> rep K p P \<Longrightarrow> rep K (erase_at_set K d p) (unshift_in P ` (S - P))"
  using erase_at_set_indices [of K d p] by (auto simp: rep_def)

lemma rep_add_set: "rep K d S \<Longrightarrow> rep K p P \<Longrightarrow> \<exists>d'. add_set K d p = Some d' \<and> rep K d' (S \<union> P)"
  using add_set_indices [of K d p] by (auto simp: rep_def)

lemma rep_remove_set: "rep K d S \<Longrightarrow> rep K p P \<Longrightarrow> \<exists>d'. remove_set K d p = Some d' \<and> rep K d' (S - P)"
  using remove_set_indices [of K d p] by (auto simp: rep_def)

lemma rep_Nil: "even K \<Longrightarrow> 0 < K \<Longrightarrow> rep K [] {}"
  by (simp add: rep_def vec_ok_def)

lemma rep_Nil_iff: "rep K d S \<Longrightarrow> d = [] \<longleftrightarrow> S = {}"
  by (auto simp: rep_def indices_empty_iff)

lemma rep_count: "rep K d S \<Longrightarrow> count_set d 0 e = rank S e"
  by (auto simp: rep_def count_from_0)

end
