(* ===== verification/Index_Set_Props.thy ===== *)
theory Index_Set_Props
  imports Index_Set_Remove
begin

text \<open>
  The properties of the operations on one index set, stated on sets of indices, each with a
  witness on a small vector of two chunks.  Every property also states that the result passes the code's
  own \<open>verify\<close>.
\<close>

definition sample_set :: index_set where
  "sample_set =
     [\<lparr>chunk_data = [(1, 3), (5, 8)], chunk_begin = 1, chunk_end = 8, chunk_count = 5\<rparr>,
      \<lparr>chunk_data = [(10, 11)], chunk_begin = 10, chunk_end = 11, chunk_count = 1\<rparr>]"

lemma sample_set_ok [simp]: "vec_ok 4 sample_set"
  by (simp add: sample_set_def vec_ok_def chunk_ok_def)

text \<open>adding an index to a well-formed set never hits an assertion, keeps the representation
  well formed, and makes the set contain exactly the old indices and the new one.\<close>

theorem add_correct:
  assumes "vec_ok K d"
  shows "\<exists>d'. add K d i = Some d' \<and> vec_ok K d' \<and> verify d' \<and>
    indices d' = insert i (indices d) \<and> (\<forall>j. contains d' j \<longleftrightarrow> j = i \<or> contains d j)"
  using add_indices [OF assms, of i] assms by (fastforce simp: contains_indices vec_ok_verify)

theorem add_correct_witness:
  "vec_ok 4 sample_set \<and> (\<exists>d'. add 4 sample_set 3 = Some d' \<and> verify d')"
  using add_correct [of 4 sample_set 3] by auto

text \<open>\<open>add_shifted\<close> adds the \<open>i\<close>-th index that is not yet in the set, and returns it: the new index has
  exactly \<open>i\<close> non-members below it.\<close>

theorem add_shifted_correct:
  assumes "vec_ok K d"
  shows "\<exists>d' j. add_shifted K d i = Some (d', j) \<and> vec_ok K d' \<and> verify d' \<and>
    \<not> contains d j \<and> card ({..<j} - indices d) = i \<and> indices d' = insert j (indices d)"
proof -
  let ?j = "shift_in (indices d) i"
  have fin: "finite (indices d)" by (simp add: indices_def)
  have "card ({..<?j} - indices d) = ?j - card (indices d \<inter> {..<?j})"
    by (subst card_Diff_subset_Int) (auto simp: Int_commute)
  also have "\<dots> = i" using shift_in_spec [OF fin, of i] by (simp add: unshift_in_def rank_def)
  finally show ?thesis using add_shifted_indices [OF assms, of i] shift_in_spec [OF fin, of i] assms
    by (fastforce simp: contains_indices vec_ok_verify)
qed

theorem add_shifted_correct_witness:
  "vec_ok 4 sample_set \<and> (\<exists>d' j. add_shifted 4 sample_set 3 = Some (d', j) \<and> \<not> contains sample_set j)"
  using add_shifted_correct [of 4 sample_set 3] by auto

text \<open>\<open>insert_at\<close> moves every index at or after \<open>i\<close> up by \<open>n\<close> and puts the \<open>n\<close> new indices into the gap.\<close>

theorem insert_at_correct:
  assumes "vec_ok K d" "0 < n"
  shows "\<exists>d'. insert_at K d i n = Some d' \<and> vec_ok K d' \<and> verify d' \<and>
    indices d' = (\<lambda>j. if j < i then j else j + n) ` indices d \<union> {i..<i + n}"
  using insert_at_indices [OF assms, of i] vec_ok_verify by (fastforce simp: bump_def [abs_def])

theorem insert_at_correct_witness:
  "vec_ok 4 sample_set \<and> 0 < (2::nat) \<and> (\<exists>d'. insert_at 4 sample_set 6 2 = Some d' \<and> verify d')"
  using insert_at_correct [of 4 sample_set 2 6] by auto

text \<open>\<open>shift_for_insert_at\<close> moves every index at or after \<open>i\<close> up by \<open>n\<close>, cutting a range that contains \<open>i\<close>.\<close>

theorem shift_for_insert_at_correct:
  assumes "vec_ok K d" "0 < n"
  shows "\<exists>d'. shift_for_insert_at K d i n = Some d' \<and> vec_ok K d' \<and> verify d' \<and>
    indices d' = (\<lambda>j. if j < i then j else j + n) ` indices d"
  using shift_for_insert_at_indices [OF assms, of i] vec_ok_verify by (fastforce simp: bump_def [abs_def])

theorem shift_for_insert_at_correct_witness:
  "vec_ok 4 sample_set \<and> 0 < (2::nat) \<and> (\<exists>d'. shift_for_insert_at 4 sample_set 6 2 = Some d' \<and> verify d')"
  using shift_for_insert_at_correct [of 4 sample_set 2 6] by auto

text \<open>\<open>erase_at\<close> takes the index out and moves every later index down by one, joining ranges that then touch.\<close>

theorem erase_at_correct:
  assumes "vec_ok K d"
  shows "vec_ok K (erase_at d i) \<and> verify (erase_at d i) \<and>
    indices (erase_at d i) = (\<lambda>j. if i < j then j - 1 else j) ` (indices d - {i})"
  using erase_at_indices [OF assms, of i] vec_ok_verify by (auto simp: unbump_def [abs_def])

theorem erase_at_correct_witness:
  "vec_ok 4 sample_set \<and> verify (erase_at sample_set 9)"
  using erase_at_correct [of 4 sample_set 9] by auto

text \<open>\<open>erase_or_unshift\<close> erases as \<open>erase_at\<close> does, and returns \<open>npos\<close> for a member and the position among the
  non-members for any other index.\<close>

theorem erase_or_unshift_correct:
  assumes "vec_ok K d"
  shows "\<exists>d'. erase_or_unshift d i =
      (d', if contains d i then npos else card ({..<i} - indices d)) \<and>
    vec_ok K d' \<and> verify d' \<and> indices d' = (\<lambda>j. if i < j then j - 1 else j) ` (indices d - {i})"
proof -
  have "card ({..<i} - indices d) = i - card (indices d \<inter> {..<i})"
    by (subst card_Diff_subset_Int) (auto simp: Int_commute)
  then have "card ({..<i} - indices d) = unshift_in (indices d) i" by (simp add: unshift_in_def rank_def)
  then show ?thesis using erase_or_unshift_indices [OF assms, of i] vec_ok_verify contains_indices [OF assms]
    by (fastforce simp: unbump_def [abs_def])
qed

theorem erase_or_unshift_correct_witness:
  "vec_ok 4 sample_set \<and> (\<exists>d' r. erase_or_unshift sample_set 6 = (d', r) \<and> verify d')"
  using erase_or_unshift_correct [of 4 sample_set 6] by auto

text \<open>\<open>remove\<close> of a nonempty interval ends, hits no assertion, and leaves exactly the indices outside it.\<close>

theorem remove_correct:
  assumes "vec_ok K d" "0 < n"
  shows "\<exists>d'. remove K d i n = Some d' \<and> vec_ok K d' \<and> verify d' \<and> indices d' = indices d - {i..<i + n}"
  using remove_indices [OF assms, of i] vec_ok_verify by blast

theorem remove_correct_witness:
  "vec_ok 4 sample_set \<and> 0 < (3::nat) \<and> (\<exists>d'. remove 4 sample_set 2 3 = Some d' \<and> verify d')"
  using remove_correct [of 4 sample_set 3 2] by auto

text \<open>removing one set from another ends and leaves the difference of the sets.\<close>

theorem remove_set_correct:
  assumes "vec_ok K d" "vec_ok K v"
  shows "\<exists>d'. remove_set K d v = Some d' \<and> vec_ok K d' \<and> verify d' \<and> indices d' = indices d - indices v"
  using remove_set_indices [OF assms] vec_ok_verify by blast

theorem remove_set_correct_witness:
  "vec_ok 4 sample_set \<and> (\<exists>d'. remove_set 4 sample_set sample_set = Some d' \<and> indices d' = {})"
  using remove_set_correct [of 4 sample_set sample_set] by auto

text \<open>\<open>count(0, e)\<close> is the number of members below \<open>e\<close>, the loops over chunks included.\<close>

theorem count_correct:
  assumes "vec_ok K d"
  shows "count_set d 0 e = card {j. contains d j \<and> j < e}"
proof -
  have "{j. contains d j \<and> j < e} = indices d \<inter> {..<e}" using contains_indices [OF assms] by auto
  then show ?thesis using count_from_0 [OF assms] by (simp add: rank_def)
qed

theorem count_correct_witness: "vec_ok 4 sample_set \<and> count_set sample_set 0 7 = card {j. contains sample_set j \<and> j < 7}"
  using count_correct [of 4 sample_set 7] by auto

text \<open>\<open>shift\<close> and \<open>unshift\<close> are inverse order isomorphisms between all positions and the indices outside the set.\<close>

theorem shift_unshift_inverse:
  assumes "vec_ok K d"
  shows "\<not> contains d (shift d k) \<and> unshift d (shift d k) = k \<and>
    (\<not> contains d i \<longrightarrow> shift d (unshift d i) = i) \<and> (j < k \<longrightarrow> shift d j < shift d k)"
proof -
  have fin: "finite (indices d)" by (simp add: indices_def)
  show ?thesis
    using shift_in_spec [OF fin, of k] shift_in_unshift_in [OF fin, of i] shift_in_strict_mono [OF fin, of j k]
    by (simp add: contains_indices [OF assms] shift_indices [OF assms] unshift_indices [OF assms])
qed

theorem shift_unshift_inverse_witness:
  "vec_ok 4 sample_set \<and> \<not> contains sample_set 9 \<and> shift sample_set (unshift sample_set 9) = 9"
proof -
  have "indices sample_set = {1..<3} \<union> {5..<8} \<union> {10..<11}" by (auto simp: indices_def sample_set_def)
  then have "\<not> contains sample_set 9" by (simp add: contains_indices [of 4])
  then show ?thesis using shift_unshift_inverse [of 4 sample_set 0 9 0] by simp
qed

text \<open>with two chunks, \<open>count(start, end)\<close> from inside the first chunk drops the part of the second chunk's
  first range before \<open>end\<close>: here three of the indices 6, 7, 8 and 9 are members and 1 is returned.\<close>

theorem count_drops_range:
  "let d = [\<lparr>chunk_data = [(0, 1), (2, 3), (4, 5), (6, 7)], chunk_begin = 0, chunk_end = 7, chunk_count = 4\<rparr>,
            \<lparr>chunk_data = [(8, 20)], chunk_begin = 8, chunk_end = 20, chunk_count = 12\<rparr>]
   in vec_ok 4 d \<and> card (indices d \<inter> {6..<10}) = 3 \<and> count_set d 6 10 = 1"
proof -
  let ?d = "[\<lparr>chunk_data = [(0, 1), (2, 3), (4, 5), (6, 7)], chunk_begin = 0, chunk_end = 7, chunk_count = 4\<rparr>,
            \<lparr>chunk_data = [(8, 20)], chunk_begin = 8, chunk_end = 20, chunk_count = 12\<rparr>] :: chunks"
  have "indices ?d \<inter> {6..<10} = {6, 8, 9}" by (auto simp: indices_def)
  moreover have "count_set ?d 6 10 = 1"
    by (simp add: count_set_def find_index_def find_from_def it_begin_def it_end_def at_end_def it_deref_def
        lower_bound_def it_next_def next_chunk_def count_to_chunk.simps)
  ultimately show ?thesis by (simp add: Let_def vec_ok_def chunk_ok_def)
qed

end
