(* ===== verification/Index_Set_Bulk_Props.thy ===== *)
theory Index_Set_Bulk_Props
  imports Index_Set_Contract Index_Set_Props
begin

text \<open>
  The properties of the operations that take a whole index set: what they do to the sets, that they undo each other, and
  the long range that \<open>add_shifted_by\<close> miscounts.
\<close>

lemma contains_Nil [simp]: "\<not> contains [] i"
  using contains_indices [of 4 "[]" i] rep_Nil [of 4] by (simp add: rep_def)

definition sample_gaps :: index_set where
  "sample_gaps = [\<lparr>chunk_data = [(0, 1), (6, 8)], chunk_begin = 0, chunk_end = 8, chunk_count = 3\<rparr>]"

lemma sample_gaps_ok [simp]: "vec_ok 4 sample_gaps"
  by (simp add: sample_gaps_def vec_ok_def chunk_ok_def)

text \<open>iterating \<open>as_indexes\<close> lists the members, each once and in increasing order.\<close>

theorem as_indexes_correct:
  assumes "vec_ok K d"
  shows "as_indexes d = sorted_list_of_set (indices d)"
  using sorted_as_indexes [OF assms] set_as_indexes [of d]
  by (metis sorted_list_of_set.idem_if_sorted_distinct strict_sorted_iff)

theorem as_indexes_correct_witness:
  "vec_ok 4 sample_set \<and> as_indexes sample_set = [1, 2, 5, 6, 7, 10]"
proof -
  have "indices sample_set = {1, 2, 5, 6, 7, 10}" by (auto simp: indices_def sample_set_def)
  then show ?thesis using as_indexes_correct [of 4 sample_set] by simp
qed

text \<open>\<open>insert_at(set)\<close> puts the members of \<open>p\<close> at their final places and moves the old members up to make room,
  keeping their order: an old member goes to the position outside \<open>p\<close> that has as many non-members of \<open>p\<close> below it.\<close>

theorem insert_at_set_correct:
  assumes "vec_ok K d" "vec_ok K p"
  shows "vec_ok K (insert_at_set K d p) \<and> verify (insert_at_set K d p) \<and>
    indices (insert_at_set K d p) = indices p \<union> shift p ` indices d \<and>
    card (indices (insert_at_set K d p)) = card (indices p) + card (indices d)"
proof -
  have f: "finite (indices p)" "finite (indices d)" by (simp_all add: indices_def)
  have s: "shift p ` indices d = shift_in (indices p) ` indices d" using shift_indices [OF assms(2)] by simp
  have "inj_on (shift_in (indices p)) (indices d)"
    using shift_in_spec [OF f(1)] by (metis inj_onI)
  moreover have "indices p \<inter> shift_in (indices p) ` indices d = {}" using shift_in_spec [OF f(1)] by auto
  ultimately have "card (indices p \<union> shift p ` indices d) = card (indices p) + card (indices d)"
    using f unfolding s by (simp add: card_Un_disjoint card_image)
  then show ?thesis using insert_at_set_indices [OF assms] vec_ok_verify [of K] unfolding s by (simp add: Un_commute)
qed

theorem insert_at_set_correct_witness:
  "vec_ok 4 sample_set \<and> vec_ok 4 sample_gaps \<and> verify (insert_at_set 4 sample_set sample_gaps)"
  using insert_at_set_correct [of 4 sample_set sample_gaps] by simp

text \<open>\<open>erase_at(set)\<close> takes the members of \<open>p\<close> out and closes the gaps.\<close>

theorem erase_at_set_correct:
  assumes "vec_ok K d" "vec_ok K p"
  shows "vec_ok K (erase_at_set K d p) \<and> verify (erase_at_set K d p) \<and>
    indices (erase_at_set K d p) = (\<lambda>i. card ({..<i} - indices p)) ` (indices d - indices p)"
proof -
  have f: "finite (indices p)" by (simp add: indices_def)
  have "unshift_in (indices p) i = card ({..<i} - indices p)" for i
  proof -
    have "card ({..<i} - indices p) = i - card (indices p \<inter> {..<i})"
      using f by (subst card_Diff_subset_Int) (auto simp: Int_commute)
    then show ?thesis by (simp add: unshift_in_def rank_def)
  qed
  then show ?thesis using erase_at_set_indices [OF assms] vec_ok_verify [of K] by simp
qed

theorem erase_at_set_correct_witness:
  "vec_ok 4 sample_set \<and> vec_ok 4 sample_gaps \<and> verify (erase_at_set 4 sample_set sample_gaps)"
  using erase_at_set_correct [of 4 sample_set sample_gaps] by simp

text \<open>erasing the inserted positions again, after \<open>insert_at(set)\<close> as after \<open>shift_for_insert_at(set)\<close>, gives back the old set.\<close>

theorem erase_insert_roundtrip:
  assumes "vec_ok K d" "vec_ok K p"
  shows "as_indexes (erase_at_set K (insert_at_set K d p) p) = as_indexes d \<and>
    as_indexes (erase_at_set K (shift_for_insert_at_set K d p) p) = as_indexes d"
proof -
  have d: "rep K d (indices d)" and p: "rep K p (indices p)" using assms by (simp_all add: rep_def)
  have f: "finite (indices p)" by (simp add: indices_def)
  have u: "unshift_in (indices p) ` (shift_in (indices p) ` indices d) = indices d"
    using shift_in_spec [OF f] by (simp add: image_image)
  have "(shift_in (indices p) ` indices d \<union> indices p) - indices p = shift_in (indices p) ` indices d"
    "shift_in (indices p) ` indices d - indices p = shift_in (indices p) ` indices d"
    using shift_in_spec [OF f] by auto
  then have "rep K (erase_at_set K (insert_at_set K d p) p) (indices d)"
    "rep K (erase_at_set K (shift_for_insert_at_set K d p) p) (indices d)"
    using rep_erase_set [OF rep_insert_set [OF d p] p] rep_erase_set [OF rep_shift_set [OF d p] p] u by simp_all
  moreover have "as_indexes x = as_indexes d" if "rep K x (indices d)" for x
    using sorted_as_indexes [of K x] sorted_as_indexes [OF assms(1)] set_as_indexes [of x] set_as_indexes [of d] that
    by (auto simp: rep_def intro: strict_sorted_equal)
  ultimately show ?thesis by simp
qed

theorem erase_insert_roundtrip_witness:
  "vec_ok 4 sample_set \<and> vec_ok 4 sample_gaps \<and>
   as_indexes (erase_at_set 4 (insert_at_set 4 sample_set sample_gaps) sample_gaps) = as_indexes sample_set"
  using erase_insert_roundtrip [of 4 sample_set sample_gaps] by simp

text \<open>\<open>add(set)\<close> leaves the union.\<close>

theorem add_set_correct:
  assumes "vec_ok K d" "vec_ok K p"
  shows "\<exists>d'. add_set K d p = Some d' \<and> vec_ok K d' \<and> verify d' \<and> indices d' = indices d \<union> indices p"
  using add_set_indices [OF assms] vec_ok_verify by fastforce

theorem add_set_correct_witness:
  "vec_ok 4 sample_set \<and> vec_ok 4 sample_gaps \<and> (\<exists>d'. add_set 4 sample_set sample_gaps = Some d' \<and> verify d')"
  using add_set_correct [of 4 sample_set sample_gaps] by auto

text \<open>\<open>add_shifted_by\<close> adds, for every value that \<open>shifted_by\<close> does not contain, the value unshifted by
  \<open>shifted_by\<close> and shifted by the set itself; the caches stay right when every range is a single index or the ranges fit
  into the chunks that were reserved.\<close>

theorem add_shifted_by_correct:
  assumes "vec_ok K d" "vec_ok K u" "vec_ok K v"
  shows "\<exists>d'. add_shifted_by K d u v = Some d' \<and>
    indices d' = indices d \<union> (\<lambda>i. shift d (unshift u i)) ` (indices v - indices u) \<and>
    ((\<forall>r \<in> set (flat d). snd r = fst r + 1) \<or> length (flat d') \<le> K * (length (flat d) div K + 1) \<longrightarrow>
      vec_ok K d' \<and> verify d')"
  using add_shifted_by_indices [OF assms] vec_ok_verify
  by (fastforce simp: shift_indices [OF assms(1)] unshift_indices [OF assms(2)] image_image)

theorem add_shifted_by_correct_witness:
  "vec_ok 4 sample_set \<and> vec_ok 4 sample_gaps \<and> (\<exists>d'. add_shifted_by 4 sample_set [] sample_gaps = Some d')"
  using add_shifted_by_correct [OF sample_set_ok _ sample_gaps_ok, of "[]"] rep_Nil [of 4] by (auto simp: rep_def)

text \<open>outside that condition the cached count is wrong: adding the index 0 and the index 2 to seven ranges of which the
  last is long gives a chunk that counts one index and holds two, and \<open>verify\<close> fails.\<close>

theorem add_shifted_by_miscounts:
  "let d = [\<lparr>chunk_data = [(4, 5), (6, 7), (8, 9), (10, 11)], chunk_begin = 4, chunk_end = 11, chunk_count = 4\<rparr>,
            \<lparr>chunk_data = [(12, 13), (14, 15), (16, 18)], chunk_begin = 12, chunk_end = 18, chunk_count = 4\<rparr>];
       v = [\<lparr>chunk_data = [(0, 1), (2, 3)], chunk_begin = 0, chunk_end = 3, chunk_count = 2\<rparr>]
   in vec_ok max_size_debug d \<and> vec_ok max_size_debug v \<and>
      (case add_shifted_by max_size_debug d [] v of None \<Rightarrow> False
       | Some d' \<Rightarrow> chunk_data (last d') = [(16, 18)] \<and> chunk_count (last d') = 1 \<and> \<not> verify d')"
  by (simp add: add_shifted_by_def as_indexes_def builder_init_def upt_rec max_size_debug_def builder_push_def
      builder_push_range_def builder_finalize_def empty_chunk_def vec_ok_def chunk_ok_def verify_def verify_chunk_def)

end
