(* ===== verification/Change_Builder.thy ===== *)
theory Change_Builder
  imports Index_Set_Bulk "HOL-Library.AList"
begin

text \<open>
  \<open>CollectionChangeBuilder\<close> of \<open>impl/collection_change_builder.cpp\<close> on \<open>CollectionChangeSet\<close> of
  \<open>collection_notifications.hpp\<close>: the record of what happened to a collection, kept up to date by one
  handler per kind of change, and merged with the record of a later transaction.

  Operations return \<open>None\<close> when a \<open>REALM_ASSERT\<close> fails, the ones of debug builds included.
  \<open>m_move_mapping\<close>, an \<open>unordered_map\<close> from new to old positions, is an association list;
  nothing depends on its order, since \<open>parse_complete\<close> sorts what it produces.
\<close>

record mv =
  mv_from :: size_t
  mv_to :: size_t

record change_set =
  deletions :: index_set
  insertions :: index_set
  modifications :: index_set
  modifications_new :: index_set
  moves :: "mv list"
  columns :: "index_set list"

record ccb = change_set +
  move_mapping :: "(size_t \<times> size_t) list"
  track_columns :: bool

definition change_set_empty :: "'a change_set_scheme \<Rightarrow> bool" where
  "change_set_empty c \<longleftrightarrow>
     deletions c = [] \<and> insertions c = [] \<and> modifications c = [] \<and>
     modifications_new c = [] \<and> moves c = []"

definition ccb_init :: ccb where
  "ccb_init = \<lparr>deletions = [], insertions = [], modifications = [], modifications_new = [],
     moves = [], columns = [], move_mapping = [], track_columns = True\<rparr>"

fun add_moves :: "nat \<Rightarrow> index_set \<Rightarrow> index_set \<Rightarrow> mv list \<Rightarrow> (index_set \<times> index_set) option" where
  "add_moves K del ins [] = Some (del, ins)"
| "add_moves K del ins (m # ms) =
     do { del' \<leftarrow> add K del (mv_from m); ins' \<leftarrow> add K ins (mv_to m); add_moves K del' ins' ms }"

definition ccb_make :: "nat \<Rightarrow> index_set \<Rightarrow> index_set \<Rightarrow> index_set \<Rightarrow> mv list \<Rightarrow> ccb option" where
  "ccb_make K del ins mods ms =
     do { (del', ins') \<leftarrow> add_moves K del ins ms;
          Some (ccb_init\<lparr>deletions := del', insertions := ins', modifications := mods, moves := ms\<rparr>) }"

text \<open>The debug-mode \<open>verify\<close>: the ends of every move are a deletion and an insertion.\<close>

definition ccb_verify :: "ccb \<Rightarrow> bool" where
  "ccb_verify c \<longleftrightarrow> list_all (\<lambda>m. contains (deletions c) (mv_from m) \<and> contains (insertions c) (mv_to m)) (moves c)"

text \<open>\<open>for_each_col\<close>: \<open>modifications\<close>, and the sets of the columns when columns are tracked.\<close>

definition map_cols :: "(index_set \<Rightarrow> index_set option) \<Rightarrow> ccb \<Rightarrow> ccb option" where
  "map_cols f c =
     do { m \<leftarrow> f (modifications c);
          cs \<leftarrow> (if track_columns c then those (map f (columns c)) else Some (columns c));
          Some (c\<lparr>modifications := m, columns := cs\<rparr>) }"

section \<open>Changes to one collection\<close>

definition ccb_modify :: "nat \<Rightarrow> size_t \<Rightarrow> size_t \<Rightarrow> ccb \<Rightarrow> ccb option" where
  "ccb_modify K ndx col c =
     do { m \<leftarrow> add K (modifications c) ndx;
          let c1 = c\<lparr>modifications := m\<rparr> in
          if \<not> track_columns c \<or> col = npos then Some c1
          else let cs = columns c @ replicate (col + 1 - length (columns c)) [] in
               do { s \<leftarrow> add K (cs ! col) ndx; Some (c1\<lparr>columns := cs[col := s]\<rparr>) } }"

definition ccb_insert :: "nat \<Rightarrow> size_t \<Rightarrow> size_t \<Rightarrow> bool \<Rightarrow> ccb \<Rightarrow> ccb option" where
  "ccb_insert K index count track_moves c =
     (if count = 0 then None
      else do { c1 \<leftarrow> map_cols (\<lambda>s. shift_for_insert_at K s index count) c;
                if \<not> track_moves then Some c1
                else do { ins \<leftarrow> insert_at K (insertions c1) index count;
                          let mm = move_mapping c1;
                              kept = filter (\<lambda>p. \<not> index \<le> fst p) mm;
                              moved_up = map (\<lambda>p. (fst p + count, snd p)) (filter (\<lambda>p. index \<le> fst p) mm)
                          in Some (c1\<lparr>insertions := ins,
                               moves := map (\<lambda>m. if index \<le> mv_to m then m\<lparr>mv_to := mv_to m + count\<rparr> else m) (moves c1),
                               move_mapping := foldl (\<lambda>acc p. if map_of acc (fst p) = None then p # acc else acc)
                                                 kept moved_up\<rparr>) } })"

fun erase_moves :: "size_t \<Rightarrow> mv list \<Rightarrow> mv list" where
  "erase_moves index [] = []"
| "erase_moves index (m # ms) =
     (if mv_to m = index then erase_moves index ms
      else (if index < mv_to m then m\<lparr>mv_to := mv_to m - 1\<rparr> else m) # erase_moves index ms)"

definition ccb_erase :: "nat \<Rightarrow> size_t \<Rightarrow> ccb \<Rightarrow> ccb option" where
  "ccb_erase K index c =
     do { c1 \<leftarrow> map_cols (\<lambda>s. Some (erase_at s index)) c;
          let (ins, unshifted) = erase_or_unshift (insertions c1) index in
          do { del \<leftarrow> (if unshifted \<noteq> npos then map_option fst (add_shifted K (deletions c1) unshifted)
                       else Some (deletions c1));
               Some (c1\<lparr>insertions := ins, deletions := del, moves := erase_moves index (moves c1)\<rparr>) } }"

definition ccb_clear :: "nat \<Rightarrow> size_t \<Rightarrow> ccb \<Rightarrow> ccb option" where
  "ccb_clear K old_size c =
     (let size = (if old_size \<noteq> npos
                  then old_size + sum_list (map (\<lambda>r. snd r - fst r) (flat (deletions c)))
                         - sum_list (map (\<lambda>r. snd r - fst r) (flat (insertions c)))
                  else old_size)
      in do { del \<leftarrow> set_len K (deletions c) size;
              Some (c\<lparr>modifications := [], insertions := [], moves := [], move_mapping := [],
                      columns := [], deletions := del\<rparr>) })"

text \<open>The loop of \<open>move\<close> over the known moves; at most one of them may end at \<open>from\<close>.\<close>

fun move_loop :: "nat \<Rightarrow> size_t \<Rightarrow> size_t \<Rightarrow> mv list \<Rightarrow> index_set \<Rightarrow> bool \<Rightarrow> (mv list \<times> index_set \<times> bool) option" where
  "move_loop K from to [] ins updated = Some ([], ins, updated)"
| "move_loop K from to (m # ms) ins updated =
     (if mv_to m \<noteq> from
      then let m' = (if to \<le> mv_to m \<and> mv_to m < from then m\<lparr>mv_to := Suc (mv_to m)\<rparr>
                     else if mv_to m \<le> to \<and> from < mv_to m then m\<lparr>mv_to := mv_to m - 1\<rparr>
                     else m)
           in do { (ms', ins', u) \<leftarrow> move_loop K from to ms ins updated; Some (m' # ms', ins', u) }
      else if updated then None
      else do { ins1 \<leftarrow> insert_at K (erase_at ins from) to 1;
                (ms', ins', u) \<leftarrow> move_loop K from to ms ins1 True;
                Some (m\<lparr>mv_to := to\<rparr> # ms', ins', u) })"

definition move_col :: "nat \<Rightarrow> size_t \<Rightarrow> size_t \<Rightarrow> index_set \<Rightarrow> index_set option" where
  "move_col K from to s =
     (if contains s from then insert_at K (erase_at s from) to 1
      else shift_for_insert_at K (erase_at s from) to 1)"

definition ccb_move :: "nat \<Rightarrow> size_t \<Rightarrow> size_t \<Rightarrow> ccb \<Rightarrow> ccb option" where
  "ccb_move K from to c =
     (if from = to then None
      else do { (ms, ins, updated) \<leftarrow> move_loop K from to (moves c) (insertions c) False;
                c1 \<leftarrow> (if updated then Some (c\<lparr>moves := ms, insertions := ins\<rparr>)
                       else let (ins1, shifted_from) = erase_or_unshift ins from in
                            do { ins2 \<leftarrow> insert_at K ins1 to 1;
                                 if shifted_from \<noteq> npos
                                 then do { (del, f) \<leftarrow> add_shifted K (deletions c) shifted_from;
                                           Some (c\<lparr>moves := ms @ [\<lparr>mv_from = f, mv_to = to\<rparr>],
                                                   insertions := ins2, deletions := del\<rparr>) }
                                 else Some (c\<lparr>moves := ms, insertions := ins2\<rparr>) });
                map_cols (move_col K from to) c1 })"

section \<open>Changes to table rows\<close>

definition last_end :: "index_set \<Rightarrow> size_t" where
  "last_end d = snd (it_deref d (it_prev d (it_end d)))"

definition move_over_col :: "nat \<Rightarrow> size_t \<Rightarrow> size_t \<Rightarrow> index_set \<Rightarrow> index_set option" where
  "move_over_col K row last_row s =
     (if contains s last_row then do { s1 \<leftarrow> remove K s last_row 1; add K s1 row }
      else remove K s row 1)"

definition ccb_move_over :: "nat \<Rightarrow> size_t \<Rightarrow> size_t \<Rightarrow> bool \<Rightarrow> ccb \<Rightarrow> ccb option" where
  "ccb_move_over K row last_row track_moves c =
     (if \<not> (row \<le> last_row \<and> (insertions c = [] \<or> last_end (insertions c) - 1 \<le> last_row) \<and>
            (modifications c = [] \<or> last_end (modifications c) - 1 \<le> last_row)) then None
      else if row = last_row
      then do { c1 \<leftarrow> (if track_moves
                       then let (ins, shifted_from) = erase_or_unshift (insertions c) row in
                            do { del \<leftarrow> (if shifted_from \<noteq> npos
                                         then map_option fst (add_shifted K (deletions c) shifted_from)
                                         else Some (deletions c));
                                 Some (c\<lparr>insertions := ins, deletions := del,
                                         move_mapping := AList.delete row (move_mapping c)\<rparr>) }
                       else Some c);
                map_cols (\<lambda>s. remove K s row 1) c1 }
      else do { c1 \<leftarrow> map_cols (move_over_col K row last_row) c;
                if \<not> track_moves then Some c1
                else
                  let row_is_insertion = contains (insertions c1) row;
                      last_is_insertion = (insertions c1 \<noteq> [] \<and> last_end (insertions c1) = last_row + 1);
                      found = (if last_is_insertion then map_of (move_mapping c1) last_row else None);
                      mm1 = (case found of
                               Some old \<Rightarrow> AList.delete last_row (AList.update row old (move_mapping c1))
                             | None \<Rightarrow> move_mapping c1);
                      mm2 = (if row_is_insertion \<and> found = None then AList.delete row mm1 else mm1)
                  in do { (ins1, del1, mm3) \<leftarrow>
                            (if last_is_insertion
                             then do { i \<leftarrow> remove K (insertions c1) last_row 1; Some (i, deletions c1, mm2) }
                             else if found = None
                             then do { (del, f) \<leftarrow> add_shifted K (deletions c1) (unshift (insertions c1) last_row);
                                       Some (insertions c1, del, AList.update row f mm2) }
                             else Some (insertions c1, deletions c1, mm2));
                          (ins2, del2) \<leftarrow>
                            (if \<not> row_is_insertion
                             then do { (del, f) \<leftarrow> add_shifted K del1 (unshift ins1 row);
                                       i \<leftarrow> add K ins1 row; Some (i, del) }
                             else Some (ins1, del1));
                          let c2 = c1\<lparr>insertions := ins2, deletions := del2, move_mapping := mm3\<rparr> in
                          if ccb_verify c2 then Some c2 else None } })"

definition swap_col :: "nat \<Rightarrow> size_t \<Rightarrow> size_t \<Rightarrow> index_set \<Rightarrow> index_set option" where
  "swap_col K ndx_1 ndx_2 s =
     (if contains s ndx_1 \<noteq> contains s ndx_2
      then if contains s ndx_1 then do { s1 \<leftarrow> remove K s ndx_1 1; add K s1 ndx_2 }
           else do { s1 \<leftarrow> remove K s ndx_2 1; add K s1 ndx_1 }
      else Some s)"

text \<open>\<open>m_move_mapping[key] = deletions.add_shifted(insertions.unshift(ndx)); insertions.add(ndx)\<close>,
  unless \<open>ndx\<close> is a new insertion.\<close>

definition add_swap_move :: "nat \<Rightarrow> size_t \<Rightarrow> size_t \<Rightarrow> ccb \<Rightarrow> ccb option" where
  "add_swap_move K key ndx c =
     (if \<not> contains (insertions c) ndx
      then do { (del, f) \<leftarrow> add_shifted K (deletions c) (unshift (insertions c) ndx);
                ins \<leftarrow> add K (insertions c) ndx;
                Some (c\<lparr>deletions := del, insertions := ins,
                        move_mapping := AList.update key f (move_mapping c)\<rparr>) }
      else Some c)"

text \<open>The lambda \<open>update_move\<close>: the move to \<open>ndx_2\<close> with origin \<open>original\<close> now ends at \<open>ndx_1\<close>.\<close>

definition update_move :: "nat \<Rightarrow> size_t \<Rightarrow> size_t \<Rightarrow> size_t \<Rightarrow> ccb \<Rightarrow> ccb option" where
  "update_move K original ndx_1 ndx_2 c =
     do { c1 \<leftarrow> add_swap_move K ndx_2 ndx_1
                  (c\<lparr>move_mapping := AList.update ndx_1 original (AList.delete ndx_2 (move_mapping c))\<rparr>);
          if contains (insertions c1) ndx_2 then Some c1 else None }"

definition ccb_swap :: "nat \<Rightarrow> size_t \<Rightarrow> size_t \<Rightarrow> bool \<Rightarrow> ccb \<Rightarrow> ccb option" where
  "ccb_swap K a b track_moves c =
     (if a = b then None
      else let ndx_1 = min a b; ndx_2 = max a b in
        do { c1 \<leftarrow> map_cols (swap_col K ndx_1 ndx_2) c;
             if \<not> track_moves then Some c1
             else case (map_of (move_mapping c1) ndx_1, map_of (move_mapping c1) ndx_2) of
                 (Some o1, Some o2) \<Rightarrow>
                   Some (c1\<lparr>move_mapping := AList.update ndx_1 o2 (AList.update ndx_2 o1 (move_mapping c1))\<rparr>)
               | (Some o1, None) \<Rightarrow> update_move K o1 ndx_2 ndx_1 c1
               | (None, Some o2) \<Rightarrow> update_move K o2 ndx_1 ndx_2 c1
               | (None, None) \<Rightarrow>
                   do { c2 \<leftarrow> add_swap_move K ndx_1 ndx_2 c1; add_swap_move K ndx_2 ndx_1 c2 } })"

definition ccb_subsume :: "nat \<Rightarrow> size_t \<Rightarrow> size_t \<Rightarrow> bool \<Rightarrow> ccb \<Rightarrow> ccb option" where
  "ccb_subsume K old_ndx new_ndx track_moves c =
     (if old_ndx = new_ndx then None
      else do { c1 \<leftarrow> map_cols (\<lambda>s. if contains s old_ndx then add K s new_ndx else Some s) c;
                if \<not> track_moves then Some c1
                else if \<not> contains (insertions c1) new_ndx \<or> map_of (move_mapping c1) new_ndx \<noteq> None then None
                else let mm = (case map_of (move_mapping c1) old_ndx of
                                 Some old \<Rightarrow> AList.delete old_ndx (AList.update new_ndx old (move_mapping c1))
                               | None \<Rightarrow> if \<not> contains (insertions c1) old_ndx
                                          then AList.update new_ndx
                                                 (shift (deletions c1) (unshift (insertions c1) old_ndx)) (move_mapping c1)
                                          else move_mapping c1);
                         c2 = c1\<lparr>move_mapping := mm\<rparr>
                     in if ccb_verify c2 then Some c2 else None })"

fun parse_moves :: "nat \<Rightarrow> (size_t \<times> size_t) list \<Rightarrow> index_set \<Rightarrow> index_set \<Rightarrow> mv list \<Rightarrow>
    (index_set \<times> index_set \<times> mv list) option" where
  "parse_moves K [] del ins ms = Some (del, ins, ms)"
| "parse_moves K (p # ps) del ins ms =
     (if \<not> (contains del (snd p) \<and> contains ins (fst p)) then None
      else if fst p = snd p
      then do { del' \<leftarrow> remove K del (snd p) 1; ins' \<leftarrow> remove K ins (fst p) 1; parse_moves K ps del' ins' ms }
      else parse_moves K ps del ins (ms @ [\<lparr>mv_from = snd p, mv_to = fst p\<rparr>]))"

definition ccb_parse_complete :: "nat \<Rightarrow> ccb \<Rightarrow> ccb option" where
  "ccb_parse_complete K c =
     do { (del, ins, ms) \<leftarrow> parse_moves K (move_mapping c) (deletions c) (insertions c) (moves c);
          Some (c\<lparr>deletions := del, insertions := ins, moves := sort_key mv_from ms, move_mapping := []\<rparr>) }"

section \<open>Columns\<close>

definition ccb_insert_column :: "size_t \<Rightarrow> ccb \<Rightarrow> ccb" where
  "ccb_insert_column ndx c =
     (if ndx < length (columns c)
      then c\<lparr>columns := take ndx (columns c) @ [] # drop ndx (columns c)\<rparr> else c)"

definition ccb_move_column :: "size_t \<Rightarrow> size_t \<Rightarrow> ccb \<Rightarrow> ccb" where
  "ccb_move_column from to c =
     (if length (columns c) \<le> from \<and> length (columns c) \<le> to then c
      else let cs = (if length (columns c) \<le> from \<or> length (columns c) \<le> to
                     then columns c @ replicate (max from to + 1 - length (columns c)) [] else columns c)
           in c\<lparr>columns :=
                if from < to
                then take from cs @ drop (from + 1) (take (to + 1) cs) @ [cs ! from] @ drop (to + 1) cs
                else take to cs @ [cs ! from] @ drop to (take from cs) @ drop (from + 1) cs\<rparr>)"

section \<open>Merging\<close>

text \<open>\<open>for_each_col\<close> of \<open>merge\<close>: the same function on the corresponding sets of both builders.\<close>

definition each_col2 :: "(index_set \<Rightarrow> index_set \<Rightarrow> (index_set \<times> index_set) option) \<Rightarrow> ccb \<Rightarrow> ccb \<Rightarrow> (ccb \<times> ccb) option" where
  "each_col2 f b c =
     do { (m, m') \<leftarrow> f (modifications b) (modifications c);
          if track_columns b
          then let n = max (length (columns b)) (length (columns c));
                   bs = columns b @ replicate (n - length (columns b)) [];
                   cs = columns c @ replicate (n - length (columns c)) []
               in do { ps \<leftarrow> those (map2 f bs cs);
                       Some (b\<lparr>modifications := m, columns := map fst ps\<rparr>,
                             c\<lparr>modifications := m', columns := map snd ps\<rparr>) }
          else Some (b\<lparr>modifications := m\<rparr>, c\<lparr>modifications := m'\<rparr>) }"

definition copy_modified :: "nat \<Rightarrow> mv \<Rightarrow> index_set \<Rightarrow> index_set \<Rightarrow> (index_set \<times> index_set) option" where
  "copy_modified K m col other =
     (if contains col (mv_from m) then map_option (Pair col) (add K other (mv_to m)) else Some (col, other))"

fun update_old_moves :: "nat \<Rightarrow> mv list \<Rightarrow> ccb \<Rightarrow> ccb \<Rightarrow> (mv list \<times> ccb \<times> ccb) option" where
  "update_old_moves K [] b c = Some ([], b, c)"
| "update_old_moves K (old # ms) b c =
     (let i = length (takeWhile (\<lambda>m. mv_to old \<noteq> mv_from m) (moves c))
      in if i < length (moves c)
         then let m = moves c ! i in
              do { (b1, c1) \<leftarrow> each_col2 (copy_modified K m) b c;
                   (ms', b2, c2) \<leftarrow> update_old_moves K ms b1
                      (c1\<lparr>moves := butlast ((moves c1)[i := last (moves c1)])\<rparr>);
                   Some (old\<lparr>mv_to := mv_to m\<rparr> # ms', b2, c2) }
         else if contains (deletions c) (mv_to old) then update_old_moves K ms b c
         else do { (ms', b2, c2) \<leftarrow> update_old_moves K ms b c;
                   Some (old\<lparr>mv_to := shift (insertions c) (unshift (deletions c) (mv_to old))\<rparr> # ms', b2, c2) })"

fun copy_moved_modified :: "nat \<Rightarrow> mv list \<Rightarrow> ccb \<Rightarrow> ccb \<Rightarrow> (ccb \<times> ccb) option" where
  "copy_moved_modified K [] b c = Some (b, c)"
| "copy_moved_modified K (m # ms) b c =
     do { (b1, c1) \<leftarrow> each_col2 (copy_modified K m) b c; copy_moved_modified K ms b1 c1 }"

fun clean_moves :: "nat \<Rightarrow> mv list \<Rightarrow> index_set \<Rightarrow> index_set \<Rightarrow> (mv list \<times> index_set \<times> index_set) option" where
  "clean_moves K [] del ins = Some ([], del, ins)"
| "clean_moves K (m # ms) del ins =
     (if mv_from m - count_set del 0 (mv_from m) \<noteq> mv_to m - count_set ins 0 (mv_to m)
      then do { (ms', del', ins') \<leftarrow> clean_moves K ms del ins; Some (m # ms', del', ins') }
      else do { del1 \<leftarrow> remove K del (mv_from m) 1;
                ins1 \<leftarrow> remove K ins (mv_to m) 1;
                clean_moves K ms del1 ins1 })"

definition clean_up_stale_moves :: "nat \<Rightarrow> ccb \<Rightarrow> ccb option" where
  "clean_up_stale_moves K c =
     do { (ms, del, ins) \<leftarrow> clean_moves K (moves c) (deletions c) (insertions c);
          Some (c\<lparr>moves := ms, deletions := del, insertions := ins\<rparr>) }"

definition merge_col :: "nat \<Rightarrow> index_set \<Rightarrow> index_set \<Rightarrow> index_set \<Rightarrow> index_set \<Rightarrow> (index_set \<times> index_set) option" where
  "merge_col K del ins col other =
     map_option (\<lambda>s. (s, other)) (add_set K (shift_for_insert_at_set K (erase_at_set K col del) ins) other)"

definition ccb_merge :: "nat \<Rightarrow> ccb \<Rightarrow> ccb \<Rightarrow> ccb option" where
  "ccb_merge K b c =
     (if change_set_empty c then Some b
      else if change_set_empty b then Some c
      else if \<not> (ccb_verify b \<and> ccb_verify c) then None
      else do {
        (ms, b1, c1) \<leftarrow> (if moves c \<noteq> [] \<or> deletions c \<noteq> [] \<or> insertions c \<noteq> []
                         then update_old_moves K (moves b) b c else Some (moves b, b, c));
        let cms = (if insertions b1 \<noteq> [] \<and> moves c1 \<noteq> []
                   then filter (\<lambda>m. \<not> contains (insertions b1) (mv_from m)) (moves c1) else moves c1) in
        do {
          (b2, c2) \<leftarrow> (if modifications b1 \<noteq> [] \<and> cms \<noteq> []
                       then copy_moved_modified K cms b1 c1 else Some (b1, c1));
          let cms' = (if deletions b2 \<noteq> [] \<or> insertions b2 \<noteq> []
                      then map (\<lambda>m. m\<lparr>mv_from := shift (deletions b2) (unshift (insertions b2) (mv_from m))\<rparr>) cms
                      else cms) in
          do {
            del \<leftarrow> add_shifted_by K (deletions b2) (insertions b2) (deletions c2);
            let ins = insert_at_set K (erase_at_set K (insertions b2) (deletions c2)) (insertions c2) in
            do {
              b3 \<leftarrow> clean_up_stale_moves K (b2\<lparr>moves := ms @ cms', deletions := del, insertions := ins\<rparr>);
              (b4, c4) \<leftarrow> each_col2 (merge_col K (deletions c2) (insertions c2)) b3 c2;
              if ccb_verify b4 then Some b4 else None } } } })"

section \<open>The final change set\<close>

definition ccb_finalize :: "nat \<Rightarrow> ccb \<Rightarrow> change_set option" where
  "ccb_finalize K c =
     (let modifications_in_old =
            shift_for_insert_at_set K (erase_at_set K (modifications c) (insertions c)) (deletions c)
      in do { m \<leftarrow> remove_set K (modifications c) (insertions c);
              Some \<lparr>deletions = deletions c, insertions = insertions c, modifications = modifications_in_old,
                    modifications_new = m, moves = moves c, columns = columns c\<rparr> })"

end
