(* ===== verification/Change_Spec.thy ===== *)
theory Change_Spec
  imports Change_Builder Index_Set_Contract
begin

text \<open>
  The abstract change record: plain sets of positions, a list of moves and a partial map from new to
  old positions.  \<open>sim K r s\<close> says that the concrete operation that gave \<open>r\<close> hit no assertion and
  stands for the abstract state \<open>s\<close>.  Each handler of \<open>Change_Builder\<close> refines one
  function on abstract states.
\<close>

record cspec =
  s_del :: "size_t set"
  s_ins :: "size_t set"
  s_mod :: "size_t set"
  s_cols :: "size_t set list"
  s_moves :: "mv list"
  s_map :: "size_t \<Rightarrow> size_t option"
  s_track :: bool

definition abs_ccb :: "ccb \<Rightarrow> cspec" where
  "abs_ccb c = \<lparr>s_del = indices (deletions c), s_ins = indices (insertions c),
     s_mod = indices (modifications c), s_cols = map indices (columns c), s_moves = moves c,
     s_map = map_of (move_mapping c), s_track = track_columns c\<rparr>"

lemma abs_ccb_simps [simp]:
  "s_moves (abs_ccb c) = moves c" "s_map (abs_ccb c) = map_of (move_mapping c)" "s_track (abs_ccb c) = track_columns c"
  by (simp_all add: abs_ccb_def)

definition ccb_ok :: "nat \<Rightarrow> ccb \<Rightarrow> bool" where
  "ccb_ok K c \<longleftrightarrow>
     vec_ok K (deletions c) \<and> vec_ok K (insertions c) \<and> vec_ok K (modifications c) \<and>
     (\<forall>s \<in> set (columns c). vec_ok K s) \<and> modifications_new c = [] \<and> distinct (map fst (move_mapping c))"

definition sim :: "nat \<Rightarrow> ccb option \<Rightarrow> cspec \<Rightarrow> bool" where
  "sim K r s \<longleftrightarrow> (\<exists>c. r = Some c \<and> ccb_ok K c \<and> abs_ccb c = s)"

lemma simI: "r = Some c \<Longrightarrow> ccb_ok K c \<Longrightarrow> abs_ccb c = s \<Longrightarrow> sim K r s"
  by (auto simp: sim_def)

lemma ok_rep:
  assumes "ccb_ok K c"
  shows "rep K (deletions c) (s_del (abs_ccb c))" "rep K (insertions c) (s_ins (abs_ccb c))"
    "rep K (modifications c) (s_mod (abs_ccb c))" "even K" "0 < K"
  using assms by (auto simp: ccb_ok_def rep_def abs_ccb_def vec_ok_def)

lemma those_map:
  "\<forall>x \<in> set xs. \<exists>y. f x = Some y \<and> P x y \<Longrightarrow> \<exists>ys. those (map f xs) = Some ys \<and> list_all2 P xs ys"
  by (induction xs) fastforce+

definition spec_cols :: "(size_t set \<Rightarrow> size_t set) \<Rightarrow> cspec \<Rightarrow> cspec" where
  "spec_cols F s = s\<lparr>s_mod := F (s_mod s), s_cols := (if s_track s then map F (s_cols s) else s_cols s)\<rparr>"

lemma spec_cols_simps [simp]:
  "s_del (spec_cols F s) = s_del s" "s_ins (spec_cols F s) = s_ins s" "s_moves (spec_cols F s) = s_moves s"
  "s_map (spec_cols F s) = s_map s" "s_track (spec_cols F s) = s_track s" "s_mod (spec_cols F s) = F (s_mod s)"
  by (simp_all add: spec_cols_def)

lemma list_all2_rep:
  "list_all2 (\<lambda>d d'. rep K d' (F (indices d))) ds cs \<Longrightarrow>
     map indices cs = map F (map indices ds) \<and> (\<forall>s \<in> set cs. vec_ok K s)"
  by (induction rule: list_all2_induct) (auto simp: rep_def)

lemma map_cols_sim:
  assumes f: "\<And>d S. rep K d S \<Longrightarrow> \<exists>d'. f d = Some d' \<and> rep K d' (F S)" and c: "ccb_ok K c"
  shows "\<exists>c'. map_cols f c = Some c' \<and> ccb_ok K c' \<and> abs_ccb c' = spec_cols F (abs_ccb c) \<and>
    deletions c' = deletions c \<and> insertions c' = insertions c \<and> moves c' = moves c \<and>
    move_mapping c' = move_mapping c \<and> track_columns c' = track_columns c"
proof -
  obtain m where m: "f (modifications c) = Some m" "rep K m (F (indices (modifications c)))"
    using f [of "modifications c" "indices (modifications c)"] c by (auto simp: ccb_ok_def rep_def)
  have "\<forall>d \<in> set (columns c). \<exists>d'. f d = Some d' \<and> rep K d' (F (indices d))"
    using f c by (auto simp: ccb_ok_def rep_def)
  then obtain cs where cs: "those (map f (columns c)) = Some cs" "list_all2 (\<lambda>d d'. rep K d' (F (indices d))) (columns c) cs"
    using those_map [of "columns c" f "\<lambda>d d'. rep K d' (F (indices d))"] by blast
  note r = list_all2_rep [OF cs(2)]
  define cs' where "cs' = (if track_columns c then cs else columns c)"
  have "map_cols f c = Some (c\<lparr>modifications := m, columns := cs'\<rparr>)"
    by (simp add: map_cols_def m(1) cs(1) cs'_def)
  then show ?thesis
    using m(2) r c by (auto simp: ccb_ok_def abs_ccb_def spec_cols_def cs'_def rep_def)
qed

section \<open>The handlers\<close>

definition spec_modify :: "size_t \<Rightarrow> size_t \<Rightarrow> cspec \<Rightarrow> cspec" where
  "spec_modify i col s =
     (let s1 = s\<lparr>s_mod := insert i (s_mod s)\<rparr>
      in if \<not> s_track s \<or> col = npos then s1
         else let cs = s_cols s @ replicate (col + 1 - length (s_cols s)) {}
              in s1\<lparr>s_cols := cs[col := insert i (cs ! col)]\<rparr>)"

lemma modify_sim: "ccb_ok K c \<Longrightarrow> sim K (ccb_modify K i col c) (spec_modify i col (abs_ccb c))"
proof -
  assume c: "ccb_ok K c"
  note r = ok_rep [OF c]
  from ixs.ins [OF r(3), of i] obtain m where m: "add K (modifications c) i = Some m"
    "rep K m (insert i (s_mod (abs_ccb c)))" by blast
  show ?thesis
  proof (cases "\<not> track_columns c \<or> col = npos")
    case True
    show ?thesis
      by (rule simI [of _ "c\<lparr>modifications := m\<rparr>"])
        (use True m c in \<open>auto simp: ccb_modify_def spec_modify_def abs_ccb_def ccb_ok_def rep_def\<close>)
  next
    case False
    define cs where "cs = columns c @ replicate (col + 1 - length (columns c)) []"
    have "\<forall>s \<in> set cs. vec_ok K s" using c rep_Nil [OF r(4,5)] by (auto simp: cs_def ccb_ok_def rep_def)
    moreover have col: "col < length cs" by (auto simp: cs_def)
    ultimately have "rep K (cs ! col) (indices (cs ! col))" by (simp add: rep_def)
    from ixs.ins [OF this, of i] obtain s where s: "add K (cs ! col) i = Some s" "rep K s (insert i (indices (cs ! col)))"
      by blast
    have "map indices (cs[col := s]) = (map indices cs)[col := insert i (map indices cs ! col)]"
      using s(2) col by (simp add: map_update rep_def)
    moreover have "map indices cs = s_cols (abs_ccb c) @ replicate (col + 1 - length (s_cols (abs_ccb c))) {}"
      by (simp add: cs_def abs_ccb_def)
    moreover have "\<forall>t \<in> set (cs[col := s]). vec_ok K t"
      using s(2) \<open>\<forall>s \<in> set cs. vec_ok K s\<close> by (auto simp: rep_def dest!: set_update_subset_insert [THEN subsetD])
    ultimately show ?thesis
      using False m c s(1)
      by (intro simI [of _ "c\<lparr>modifications := m, columns := cs[col := s]\<rparr>"])
        (auto simp: ccb_modify_def spec_modify_def abs_ccb_def ccb_ok_def rep_def cs_def Let_def)
  qed
qed

definition spec_insert :: "size_t \<Rightarrow> size_t \<Rightarrow> bool \<Rightarrow> cspec \<Rightarrow> cspec" where
  "spec_insert i n track s =
     (let s1 = spec_cols ((`) (bump i n)) s
      in if \<not> track then s1
         else s1\<lparr>s_ins := bump i n ` s_ins s \<union> {i..<i + n},
                 s_moves := map (\<lambda>m. m\<lparr>mv_to := bump i n (mv_to m)\<rparr>) (s_moves s),
                 s_map := (\<lambda>k. if k < i then s_map s k else if k < i + n then None else s_map s (k - n))\<rparr>)"

text \<open>Renaming the keys from \<open>i\<close> on, as \<open>insert\<close> does by taking them out and putting them back.\<close>

lemma foldl_put_back:
  assumes "distinct (map fst (xs @ acc))"
  shows "foldl (\<lambda>acc p. if map_of acc (fst p) = None then p # acc else acc) acc xs = rev xs @ acc"
  using assms
proof (induction xs arbitrary: acc)
  case (Cons p xs)
  then have "map_of acc (fst p) = None" by (auto simp: map_of_eq_None_iff)
  then show ?case using Cons.IH [of "p # acc"] Cons.prems by auto
qed simp

lemma map_of_rev: "distinct (map fst xs) \<Longrightarrow> map_of (rev xs) = map_of xs"
proof (induction xs)
  case (Cons p xs)
  then have "map_of xs (fst p) = None" by (simp add: map_of_eq_None_iff)
  with Cons show ?case by (auto simp: map_add_def fun_eq_iff split: option.splits)
qed simp

lemma distinct_filter_fst: "distinct (map fst xs) \<Longrightarrow> distinct (map fst (filter P xs))"
  by (induction xs) auto

lemma map_of_filter_fst: "map_of (filter (\<lambda>p. P (fst p)) xs) k = (if P k then map_of xs k else None)"
  by (induction xs) auto

lemma map_of_shift_keys: "map_of (map (\<lambda>p. (fst p + n, snd p)) xs) k = (if n \<le> k then map_of xs (k - n) else None)"
  for n :: nat
  by (induction xs) auto

lemma renamed_keys:
  fixes mm :: "(nat \<times> nat) list" and i n :: nat
  assumes "distinct (map fst mm)"
  defines "kept \<equiv> filter (\<lambda>p. \<not> i \<le> fst p) mm" and "up \<equiv> map (\<lambda>p. (fst p + n, snd p)) (filter (\<lambda>p. i \<le> fst p) mm)"
  defines "mm' \<equiv> foldl (\<lambda>acc p. if map_of acc (fst p) = None then p # acc else acc) kept up"
  shows "distinct (map fst mm')" and
    "map_of mm' = (\<lambda>k. if k < i then map_of mm k else if k < i + n then None else map_of mm (k - n))"
proof -
  have up: "map fst up = map (\<lambda>k. k + n) (map fst (filter (\<lambda>p. i \<le> fst p) mm))" by (simp add: up_def)
  have d: "distinct (map fst (up @ kept))"
    using distinct_filter_fst [OF assms(1)] by (auto simp: up kept_def distinct_map inj_on_def)
  have e: "mm' = rev up @ kept" unfolding mm'_def by (rule foldl_put_back [OF d])
  then show "distinct (map fst mm')" using d by (auto simp: rev_map [symmetric])
  have "map_of mm' = map_of kept ++ map_of up" using d by (simp add: e map_of_rev)
  moreover have "map_of kept = (\<lambda>k. if k < i then map_of mm k else None)"
    by (auto simp: kept_def map_of_filter_fst [of "\<lambda>k. \<not> i \<le> k"])
  moreover have "map_of up = (\<lambda>k. if i + n \<le> k then map_of mm (k - n) else None)"
    by (rule ext) (auto simp: up_def map_of_shift_keys map_of_filter_fst [of "\<lambda>k. i \<le> k"])
  ultimately show "map_of mm' = (\<lambda>k. if k < i then map_of mm k else if k < i + n then None else map_of mm (k - n))"
    by (auto simp: map_add_def fun_eq_iff split: option.splits)
qed

lemma insert_sim:
  assumes c: "ccb_ok K c" and n: "0 < n"
  shows "sim K (ccb_insert K i n track c) (spec_insert i n track (abs_ccb c))"
proof -
  from map_cols_sim [of K "\<lambda>s. shift_for_insert_at K s i n" "(`) (bump i n)", OF _ c] ixs.shift_gap n
  obtain c1 where c1: "map_cols (\<lambda>s. shift_for_insert_at K s i n) c = Some c1" "ccb_ok K c1"
    "abs_ccb c1 = spec_cols ((`) (bump i n)) (abs_ccb c)" "moves c1 = moves c" "move_mapping c1 = move_mapping c" by metis
  from ixs.insert_gap [OF ok_rep(2) [OF c1(2)] n, of i] obtain j where
    j: "insert_at K (insertions c1) i n = Some j" "rep K j (bump i n ` s_ins (abs_ccb c) \<union> {i..<i + n})"
    using c1(3) by auto
  have m: "(if i \<le> mv_to m then m\<lparr>mv_to := mv_to m + n\<rparr> else m) = m\<lparr>mv_to := bump i n (mv_to m)\<rparr>" for m :: mv
    by (cases m) (simp add: bump_def)
  have d: "distinct (map fst (move_mapping c))" using c by (simp add: ccb_ok_def)
  show ?thesis
  proof (cases track)
    case False
    then show ?thesis using c1 n by (auto simp: ccb_insert_def spec_insert_def sim_def)
  next
    case True
    let ?mm = "foldl (\<lambda>acc p. if map_of acc (fst p) = None then p # acc else acc)
      (filter (\<lambda>p. \<not> i \<le> fst p) (move_mapping c)) (map (\<lambda>p. (fst p + n, snd p)) (filter (\<lambda>p. i \<le> fst p) (move_mapping c)))"
    let ?c = "c1\<lparr>insertions := j, moves := map (\<lambda>m. if i \<le> mv_to m then m\<lparr>mv_to := mv_to m + n\<rparr> else m) (moves c1),
      move_mapping := ?mm\<rparr>"
    have e: "abs_ccb ?c = (abs_ccb c1)\<lparr>s_ins := indices j, s_moves := moves ?c, s_map := map_of ?mm\<rparr>"
      by (simp add: abs_ccb_def)
    show ?thesis
    proof (rule simI)
      show "ccb_insert K i n track c = Some ?c" using True n c1 j(1) by (simp add: ccb_insert_def Let_def)
      show "ccb_ok K ?c" using c1(2) j(2) renamed_keys(1) [OF d] by (simp add: ccb_ok_def rep_def)
      show "abs_ccb ?c = spec_insert i n track (abs_ccb c)"
        unfolding e using True c1(3,4) j(2) renamed_keys(2) [OF d, of i n]
        by (simp add: spec_insert_def Let_def m rep_def cong: if_cong)
    qed
  qed
qed

definition recorded :: "size_t set \<Rightarrow> size_t set \<Rightarrow> size_t \<Rightarrow> size_t set" where
  "recorded I D i = (if i \<in> I then D else insert (shift_in D (unshift_in I i)) D)"

definition spec_erase :: "size_t \<Rightarrow> cspec \<Rightarrow> cspec" where
  "spec_erase i s =
     (spec_cols (\<lambda>S. unbump i ` (S - {i})) s)\<lparr>
        s_ins := unbump i ` (s_ins s - {i}), s_del := recorded (s_ins s) (s_del s) i,
        s_moves := map (\<lambda>m. m\<lparr>mv_to := unbump i (mv_to m)\<rparr>) (filter (\<lambda>m. mv_to m \<noteq> i) (s_moves s))\<rparr>"

lemma erase_moves_map:
  "erase_moves i ms = map (\<lambda>m. m\<lparr>mv_to := unbump i (mv_to m)\<rparr>) (filter (\<lambda>m. mv_to m \<noteq> i) ms)"
  by (induction ms) (auto simp: unbump_def)

lemma erase_sim:
  assumes c: "ccb_ok K c" and i: "i < npos"
  shows "sim K (ccb_erase K i c) (spec_erase i (abs_ccb c))"
proof -
  from map_cols_sim [of K "\<lambda>s. Some (erase_at s i)" "\<lambda>S. unbump i ` (S - {i})", OF _ c] ixs.del_gap
  obtain c1 where c1: "map_cols (\<lambda>s. Some (erase_at s i)) c = Some c1" "ccb_ok K c1"
    "abs_ccb c1 = spec_cols (\<lambda>S. unbump i ` (S - {i})) (abs_ccb c)" "moves c1 = moves c" "move_mapping c1 = move_mapping c" by metis
  note r = ok_rep(2,1) [OF c1(2), unfolded c1(3), simplified]
  from ixs.record_deletion [OF r i] obtain j d where
    j: "erase_or_unshift (insertions c1) i = (j, if i \<in> s_ins (abs_ccb c) then npos else unshift_in (s_ins (abs_ccb c)) i)"
      "rep K j (unbump i ` (s_ins (abs_ccb c) - {i}))"
    and d: "(if (if i \<in> s_ins (abs_ccb c) then npos else unshift_in (s_ins (abs_ccb c)) i) \<noteq> npos
       then map_option fst (add_shifted K (deletions c1) (if i \<in> s_ins (abs_ccb c) then npos else unshift_in (s_ins (abs_ccb c)) i))
       else Some (deletions c1)) = Some d" "rep K d (recorded (s_ins (abs_ccb c)) (s_del (abs_ccb c)) i)"
    unfolding recorded_def by blast
  let ?c = "c1\<lparr>insertions := j, deletions := d, moves := erase_moves i (moves c1)\<rparr>"
  have e: "abs_ccb ?c = (abs_ccb c1)\<lparr>s_ins := indices j, s_del := indices d, s_moves := moves ?c\<rparr>"
    by (simp add: abs_ccb_def)
  show ?thesis
  proof (rule simI)
    show "ccb_erase K i c = Some ?c" by (simp add: ccb_erase_def c1(1) j(1) d(1))
    show "ccb_ok K ?c" using c1(2) j(2) d(2) by (simp add: ccb_ok_def rep_def)
    show "abs_ccb ?c = spec_erase i (abs_ccb c)"
      unfolding e using c1(3,4) j(2) d(2) by (simp add: spec_erase_def rep_def erase_moves_map)
  qed
qed

definition spec_clear :: "size_t \<Rightarrow> cspec \<Rightarrow> cspec" where
  "spec_clear n s = s\<lparr>s_mod := {}, s_ins := {}, s_moves := [], s_map := Map.empty, s_cols := [],
     s_del := {..<if n \<noteq> npos then n + card (s_del s) - card (s_ins s) else n}\<rparr>"

lemma set_len_rep:
  assumes "even K" "0 < K"
  shows "\<exists>d'. set_len K d n = Some d' \<and> rep K d' {..<n}"
  using assms by (auto simp: set_len_def clear_def push_back_def rep_def vec_ok_def chunk_ok_def indices_def)

lemma clear_sim: "ccb_ok K c \<Longrightarrow> sim K (ccb_clear K n c) (spec_clear n (abs_ccb c))"
proof -
  assume c: "ccb_ok K c"
  have l: "sum_list (map (\<lambda>r. snd r - fst r) (flat d)) = card (indices d)" if "vec_ok K d" for d
    using card_span [OF vec_okD [OF that]] by (simp add: lens_def indices_def)
  have vo: "vec_ok K (deletions c)" "vec_ok K (insertions c)" using c by (simp_all add: ccb_ok_def)
  define m where "m = (if n \<noteq> npos then n + card (indices (deletions c)) - card (indices (insertions c)) else n)"
  from set_len_rep [OF ok_rep(4,5) [OF c], of "deletions c" m] obtain d where
    d: "set_len K (deletions c) m = Some d" "rep K d {..<m}" by blast
  let ?c = "c\<lparr>modifications := [], insertions := [], moves := [], move_mapping := [], columns := [], deletions := d\<rparr>"
  have nil: "vec_ok K []" using rep_Nil [OF ok_rep(4,5) [OF c]] by (simp add: rep_def)
  show ?thesis
  proof (rule simI)
    show "ccb_clear K n c = Some ?c" using d(1) by (simp add: ccb_clear_def l vo m_def Let_def split: if_splits)
    show "ccb_ok K ?c" using c d(2) nil by (simp add: ccb_ok_def rep_def)
    show "abs_ccb ?c = spec_clear n (abs_ccb c)" using d(2) by (simp add: abs_ccb_def spec_clear_def rep_def m_def)
  qed
qed

end
