(* ===== verification/Change_Spec_Moves.thy ===== *)
theory Change_Spec_Moves
  imports Change_Spec
begin

text \<open>
  The handlers that move rows, refined: \<open>move\<close> of a link list, and \<open>move_over\<close> and \<open>swap\<close> of table rows.
\<close>

section \<open>Moving a row of a list\<close>

definition spec_move :: "size_t \<Rightarrow> size_t \<Rightarrow> cspec \<Rightarrow> cspec" where
  "spec_move from to s =
     (spec_cols ((`) (moved_pos from to)) s)\<lparr>
        s_ins := insert to (bump to 1 ` unbump from ` (s_ins s - {from})),
        s_del := recorded (s_ins s) (s_del s) from,
        s_moves := map (\<lambda>m. m\<lparr>mv_to := moved_pos from to (mv_to m)\<rparr>) (s_moves s) @
          (if from \<in> s_ins s then [] else [\<lparr>mv_from = shift_in (s_del s) (unshift_in (s_ins s) from), mv_to = to\<rparr>])\<rparr>"

lemma moved_other:
  fixes m :: mv
  assumes "mv_to m \<noteq> from" "from \<noteq> to"
  shows "(if to \<le> mv_to m \<and> mv_to m < from then m\<lparr>mv_to := Suc (mv_to m)\<rparr>
          else if mv_to m \<le> to \<and> from < mv_to m then m\<lparr>mv_to := mv_to m - 1\<rparr> else m) =
         m\<lparr>mv_to := moved_pos from to (mv_to m)\<rparr>"
  using assms by (cases m) (auto simp: moved_pos_def bump_def unbump_def)

lemma move_loop_none:
  assumes "from \<noteq> to" "\<forall>m \<in> set ms. mv_to m \<noteq> from"
  shows "move_loop K from to ms ins u = Some (map (\<lambda>m. m\<lparr>mv_to := moved_pos from to (mv_to m)\<rparr>) ms, ins, u)"
  using assms(2) by (induction ms) (simp_all add: moved_other assms(1) Let_def)

lemma move_loop_some:
  assumes "from \<noteq> to" "distinct (map mv_to ms)" "\<exists>m \<in> set ms. mv_to m = from" "rep K ins I"
  shows "\<exists>ins'. move_loop K from to ms ins False =
      Some (map (\<lambda>m. m\<lparr>mv_to := moved_pos from to (mv_to m)\<rparr>) ms, ins', True) \<and>
    rep K ins' (insert to (bump to 1 ` unbump from ` (I - {from})))"
  using assms(2,3)
proof (induction ms)
  case (Cons m ms)
  show ?case
  proof (cases "mv_to m = from")
    case True
    have "\<forall>n \<in> set ms. mv_to n \<noteq> from" using Cons.prems(1) True by (auto simp: image_iff)
    moreover obtain ins1 where "insert_at K (erase_at ins from) to 1 = Some ins1"
      "rep K ins1 (bump to 1 ` unbump from ` (I - {from}) \<union> {to..<to + 1})"
      using ixs.insert_gap [OF ixs.del_gap [OF assms(4)], of 1 "from" to] by auto
    ultimately show ?thesis using True assms(1) by (simp add: move_loop_none moved_pos_def)
  next
    case False
    then show ?thesis using Cons assms(1) by (auto simp: moved_other Let_def)
  qed
qed simp

lemma move_sim:
  assumes c: "ccb_ok K c" and ft: "from \<noteq> to" "from < npos"
    and wf: "distinct (map mv_to (moves c))" "\<forall>m \<in> set (moves c). mv_to m \<in> s_ins (abs_ccb c)"
  shows "sim K (ccb_move K from to c) (spec_move from to (abs_ccb c))"
proof -
  let ?I = "s_ins (abs_ccb c)" and ?D = "s_del (abs_ccb c)"
  let ?ms = "map (\<lambda>m. m\<lparr>mv_to := moved_pos from to (mv_to m)\<rparr>) (moves c)"
  let ?I' = "insert to (bump to 1 ` unbump from ` (?I - {from}))"
  let ?f = "shift_in ?D (unshift_in ?I from)"
  note r = ok_rep [OF c]
  have fin: "sim K (map_cols (move_col K from to) c1) (spec_move from to (abs_ccb c))"
    if "ccb_ok K c1" "abs_ccb c1 = (abs_ccb c)\<lparr>s_ins := ?I', s_del := recorded ?I ?D from,
        s_moves := ?ms @ (if from \<in> ?I then [] else [\<lparr>mv_from = ?f, mv_to = to\<rparr>])\<rparr>" for c1
    using map_cols_sim [of K "move_col K from to" "(`) (moved_pos from to)", OF _ that(1)]
      ixs.move_modified [of K _ _ "from" to] that(2)
    by (auto simp: sim_def move_col_def spec_move_def spec_cols_def)
  show ?thesis
  proof (cases "\<exists>m \<in> set (moves c). mv_to m = from")
    case True
    then have "from \<in> ?I" using wf(2) by auto
    obtain ins' where "move_loop K from to (moves c) (insertions c) False = Some (?ms, ins', True)" "rep K ins' ?I'"
      using move_loop_some [OF ft(1) wf(1) True r(2)] by blast
    then show ?thesis using fin [of "c\<lparr>moves := ?ms, insertions := ins'\<rparr>"] c ft \<open>from \<in> ?I\<close>
      by (simp add: ccb_move_def ccb_ok_def abs_ccb_def rep_def recorded_def)
  next
    case False
    then have l: "move_loop K from to (moves c) (insertions c) False = Some (?ms, insertions c, False)"
      using move_loop_none [OF ft(1)] by blast
    from rep_erase_or_unshift [OF r(2), of "from"] obtain i1 where
      i1: "erase_or_unshift (insertions c) from = (i1, if from \<in> ?I then npos else unshift_in ?I from)"
      "rep K i1 (unbump from ` (?I - {from}))" by blast
    from ixs.insert_gap [OF i1(2), of 1 to] obtain i2 where
      i2: "insert_at K i1 to 1 = Some i2" "rep K i2 ?I'" by auto
    show ?thesis
    proof (cases "from \<in> ?I")
      case True
      then show ?thesis using fin [of "c\<lparr>moves := ?ms, insertions := i2\<rparr>"] c ft l i1(1) i2
        by (simp add: ccb_move_def ccb_ok_def abs_ccb_def rep_def recorded_def)
    next
      case False
      have "unshift_in ?I from < npos" using ft(2) by (simp add: unshift_in_def)
      moreover obtain d where "add_shifted K (deletions c) (unshift_in ?I from) = Some (d, ?f)" "rep K d (insert ?f ?D)"
        using ixs.ins_shifted [OF r(1)] by blast
      ultimately show ?thesis
        using fin [of "c\<lparr>moves := ?ms @ [\<lparr>mv_from = ?f, mv_to = to\<rparr>], insertions := i2, deletions := d\<rparr>"]
          c ft l i1(1) i2 False
        by (simp add: ccb_move_def ccb_ok_def abs_ccb_def rep_def recorded_def)
    qed
  qed
qed

section \<open>Moving the last row over another\<close>

definition spec_move_over :: "size_t \<Rightarrow> size_t \<Rightarrow> cspec \<Rightarrow> cspec" where
  "spec_move_over row lst s =
     (let I = s_ins s; D = s_del s; found = (if lst \<in> I then s_map s lst else None);
          m1 = (case found of Some old \<Rightarrow> (s_map s)(row \<mapsto> old, lst := None) | None \<Rightarrow> s_map s);
          m2 = (if row \<in> I \<and> found = None then m1(row := None) else m1);
          f = shift_in D (unshift_in I lst);
          D1 = (if lst \<in> I then D else insert f D)
      in (spec_cols (\<lambda>S. if lst \<in> S then insert row (S - {lst}) else S - {row}) s)\<lparr>
            s_ins := insert row (I - {lst}), s_del := recorded (I - {lst}) D1 row,
            s_map := (if lst \<in> I then m2 else m2(row \<mapsto> f))\<rparr>)"

definition spec_move_over_last :: "size_t \<Rightarrow> cspec \<Rightarrow> cspec" where
  "spec_move_over_last row s =
     (spec_cols (\<lambda>S. S - {row}) s)\<lparr>s_ins := unbump row ` (s_ins s - {row}),
        s_del := recorded (s_ins s) (s_del s) row, s_map := (s_map s)(row := None)\<rparr>"

lemma last_end_flat:
  assumes "rep K d S" "d \<noteq> []"
  shows "last_end d = snd (last (flat d))" "flat d \<noteq> []"
proof -
  have v: "vec_ok K d" using assms(1) by (simp add: rep_def)
  show ne: "flat d \<noteq> []" using v assms(2) flat_eq_Nil_iff [of K d] by (simp add: vec_ok_def)
  have "rcur K d (it_end d) (butlast (flat d) @ [last (flat d)]) []" using rcur_end [OF v] ne by simp
  from rv.deref [OF rv.prv [OF this]] show "last_end d = snd (last (flat d))" by (simp add: last_end_def)
qed

lemma last_end_bound:
  assumes r: "rep K d S" and ne: "d \<noteq> []"
  shows "last_end d - 1 \<le> l \<longleftrightarrow> S \<subseteq> {..l}" and "S \<subseteq> {..l} \<Longrightarrow> last_end d = l + 1 \<longleftrightarrow> l \<in> S"
proof -
  let ?r = "last (flat d)"
  note e = last_end_flat [OF r ne]
  have ok: "ranges_ok (flat d)" and S: "S = span (flat d)" using r by (auto simp: rep_def indices_def)
  have lt: "fst ?r < snd ?r" using ranges_ok_nonempty [OF ok] e(2) by simp
  have "?r \<in> set (flat d)" "snd ?r - 1 \<in> {fst ?r..<snd ?r}" using lt e(2) by auto
  then have m: "snd ?r - 1 \<in> S" unfolding S span_def by force
  have "\<forall>s \<in> set (flat d). snd s \<le> snd ?r" using sorted_ends_le [OF ok e(2)] by simp
  then have le: "\<forall>i \<in> S. i \<le> snd ?r - 1" by (fastforce simp: S span_def)
  show "last_end d - 1 \<le> l \<longleftrightarrow> S \<subseteq> {..l}" using m le by (auto simp: e(1))
  show "last_end d = l + 1 \<longleftrightarrow> l \<in> S" if "S \<subseteq> {..l}" using m le that lt by (fastforce simp: e(1))
qed

lemma move_over_last_sim:
  assumes c: "ccb_ok K c" and i: "row < npos" and b: "s_ins (abs_ccb c) \<subseteq> {..row}" "s_mod (abs_ccb c) \<subseteq> {..row}"
  shows "sim K (ccb_move_over K row row True c) (spec_move_over_last row (abs_ccb c))"
proof -
  let ?I = "s_ins (abs_ccb c)" and ?D = "s_del (abs_ccb c)"
  note r = ok_rep [OF c]
  from ixs.record_deletion [OF r(2,1) i] obtain j d where
    j: "erase_or_unshift (insertions c) row = (j, if row \<in> ?I then npos else unshift_in ?I row)"
      "rep K j (unbump row ` (?I - {row}))"
    and d: "(if (if row \<in> ?I then npos else unshift_in ?I row) \<noteq> npos
       then map_option fst (add_shifted K (deletions c) (if row \<in> ?I then npos else unshift_in ?I row))
       else Some (deletions c)) = Some d" "rep K d (recorded ?I ?D row)"
    unfolding recorded_def by blast
  let ?c = "c\<lparr>insertions := j, deletions := d, move_mapping := AList.delete row (move_mapping c)\<rparr>"
  have ok: "ccb_ok K ?c" using c j(2) d(2) by (auto simp: ccb_ok_def rep_def distinct_delete)
  have g: "insertions c = [] \<or> last_end (insertions c) - 1 \<le> row" "modifications c = [] \<or> last_end (modifications c) - 1 \<le> row"
    using last_end_bound(1) [OF r(2)] last_end_bound(1) [OF r(3)] b by blast+
  have "ccb_move_over K row row True c = map_cols (\<lambda>s. remove K s row 1) ?c"
    using g j(1) d(1) by (simp add: ccb_move_over_def)
  moreover have "abs_ccb ?c = (abs_ccb c)\<lparr>s_ins := unbump row ` (?I - {row}), s_del := recorded ?I ?D row,
      s_map := (s_map (abs_ccb c))(row := None)\<rparr>"
    using j(2) d(2) by (simp add: abs_ccb_def rep_def delete_conv')
  ultimately show ?thesis
    using map_cols_sim [of K "\<lambda>s. remove K s row 1" "\<lambda>S. S - {row}", OF _ ok] ixs.del_one
    by (auto simp: sim_def spec_move_over_last_def spec_cols_def)
qed

lemma move_over_sim:
  assumes c: "ccb_ok K c" and i: "row < lst" and b: "s_ins (abs_ccb c) \<subseteq> {..lst}" "s_mod (abs_ccb c) \<subseteq> {..lst}"
    and no: "moves c = []"
  shows "sim K (ccb_move_over K row lst True c) (spec_move_over row lst (abs_ccb c))"
proof -
  let ?I = "s_ins (abs_ccb c)" and ?D = "s_del (abs_ccb c)" and ?M = "move_mapping c"
  let ?F = "\<lambda>S. if lst \<in> S then insert row (S - {lst}) else S - {row}"
  have "\<exists>d'. move_over_col K row lst d = Some d' \<and> rep K d' (?F S)" if "rep K d S" for d S
    using ixs.move_over_modified [OF that, of row lst] i by (auto simp: move_over_col_def)
  from map_cols_sim [of K "move_over_col K row lst" ?F, OF this c]
  obtain c1 where c1: "map_cols (move_over_col K row lst) c = Some c1" "ccb_ok K c1" "abs_ccb c1 = spec_cols ?F (abs_ccb c)"
    "deletions c1 = deletions c" "insertions c1 = insertions c" "moves c1 = moves c" "move_mapping c1 = ?M" by metis
  note r = ok_rep [OF c]
  have g: "insertions c = [] \<or> last_end (insertions c) - 1 \<le> lst" "modifications c = [] \<or> last_end (modifications c) - 1 \<le> lst"
    using last_end_bound(1) [OF r(2)] last_end_bound(1) [OF r(3)] b by blast+
  have L: "(insertions c \<noteq> [] \<and> last_end (insertions c) = lst + 1) \<longleftrightarrow> lst \<in> ?I"
    using last_end_bound(2) [OF r(2) _ b(1)] rep_Nil_iff [OF r(2)] by auto
  define found where "found = (if lst \<in> ?I then map_of ?M lst else None)"
  define mm1 where "mm1 = (case found of Some old \<Rightarrow> AList.delete lst (AList.update row old ?M) | None \<Rightarrow> ?M)"
  define mm2 where "mm2 = (if row \<in> ?I \<and> found = None then AList.delete row mm1 else mm1)"
  define f where "f = shift_in ?D (unshift_in ?I lst)"
  define D1 where "D1 = (if lst \<in> ?I then ?D else insert f ?D)"
  define mm3 where "mm3 = (if lst \<in> ?I then mm2 else AList.update row f mm2)"
  have dm: "distinct (map fst mm3)"
    using c by (auto simp: ccb_ok_def mm3_def mm2_def mm1_def distinct_delete distinct_update split: option.splits)
  obtain i1 d1 where 1: "rep K i1 (?I - {lst})" "rep K d1 D1"
    "(if lst \<in> ?I then do { i \<leftarrow> remove K (insertions c) lst 1; Some (i, deletions c, mm2) }
      else if found = None then do { (del, f) \<leftarrow> add_shifted K (deletions c) (unshift (insertions c) lst);
                                     Some (insertions c, del, AList.update row f mm2) }
      else Some (insertions c, deletions c, mm2)) = Some (i1, d1, mm3)"
  proof (cases "lst \<in> ?I")
    case True
    then show thesis using ixs.del_one [OF r(2), of lst] r(1) that by (auto simp: mm3_def D1_def)
  next
    case False
    then have "?I - {lst} = ?I" by simp
    then show thesis
      using False ixs.ins_shifted [OF r(1), of "unshift (insertions c) lst"] ixs.down [OF r(2), of lst] r(2) that
      by (auto simp: mm3_def D1_def f_def found_def)
  qed
  obtain i2 d2 where 2: "rep K i2 (insert row (?I - {lst}))" "rep K d2 (recorded (?I - {lst}) D1 row)"
    "(if \<not> row \<in> ?I then do { (del, f) \<leftarrow> add_shifted K d1 (unshift i1 row); i \<leftarrow> add K i1 row; Some (i, del) }
      else Some (i1, d1)) = Some (i2, d2)"
  proof (cases "row \<in> ?I")
    case True
    then show thesis using 1(1,2) i that by (auto simp: recorded_def insert_absorb)
  next
    case False
    then show thesis
      using ixs.ins_shifted [OF 1(2), of "unshift i1 row"] ixs.down [OF 1(1), of row] ixs.ins [OF 1(1), of row] that
      by (fastforce simp: recorded_def)
  qed
  let ?c = "c1\<lparr>insertions := i2, deletions := d2, move_mapping := mm3\<rparr>"
  have "ccb_verify ?c" using c1(6) no by (simp add: ccb_verify_def)
  have R: "contains (insertions c) row \<longleftrightarrow> row \<in> ?I" by (rule ixs.mem [OF r(2)])
  have 3: "mm1 = (case found of None \<Rightarrow> ?M | Some old \<Rightarrow> AList.delete lst (AList.update row old ?M))"
    by (simp add: mm1_def)
  have e: "ccb_move_over K row lst True c = Some ?c"
    using i g \<open>ccb_verify ?c\<close> 1(3) 2(3)
    by (simp only: ccb_move_over_def c1 Let_def L R found_def [symmetric] mm1_def [symmetric] mm2_def [symmetric]
        Option.bind.bind_lunit not_less if_False if_True simp_thms prod.case) (simp add: c1)
  have m: "map_of mm3 = (let found = (if lst \<in> ?I then s_map (abs_ccb c) lst else None);
      m1 = (case found of Some old \<Rightarrow> (s_map (abs_ccb c))(row \<mapsto> old, lst := None) | None \<Rightarrow> s_map (abs_ccb c));
      m2 = (if row \<in> ?I \<and> found = None then m1(row := None) else m1)
    in if lst \<in> ?I then m2 else m2(row \<mapsto> f))"
    by (auto simp: Let_def mm3_def mm2_def mm1_def found_def update_conv' delete_conv' split: option.splits)
  show ?thesis
  proof (rule simI [OF e])
    show "ccb_ok K ?c" using c1(2) 2(1,2) dm by (simp add: ccb_ok_def rep_def)
    have "abs_ccb ?c = (abs_ccb c1)\<lparr>s_ins := indices i2, s_del := indices d2, s_map := map_of mm3\<rparr>"
      by (simp add: abs_ccb_def)
    then show "abs_ccb ?c = spec_move_over row lst (abs_ccb c)"
      using 2(1,2) by (simp add: c1(3) spec_move_over_def m rep_def Let_def f_def D1_def)
  qed
qed

section \<open>Exchanging two rows\<close>

definition spec_add_swap :: "size_t \<Rightarrow> size_t \<Rightarrow> cspec \<Rightarrow> cspec" where
  "spec_add_swap key i s =
     (if i \<in> s_ins s then s
      else let f = shift_in (s_del s) (unshift_in (s_ins s) i)
           in s\<lparr>s_del := insert f (s_del s), s_ins := insert i (s_ins s), s_map := (s_map s)(key \<mapsto> f)\<rparr>)"

definition spec_swap :: "size_t \<Rightarrow> size_t \<Rightarrow> cspec \<Rightarrow> cspec" where
  "spec_swap i j s =
     (let s1 = spec_cols ((`) (exchange i j)) s
      in case (s_map s i, s_map s j) of
          (Some o1, Some o2) \<Rightarrow> s1\<lparr>s_map := (s_map s)(j \<mapsto> o1, i \<mapsto> o2)\<rparr>
        | (Some o1, None) \<Rightarrow> spec_add_swap i j (s1\<lparr>s_map := (s_map s)(i := None, j \<mapsto> o1)\<rparr>)
        | (None, Some o2) \<Rightarrow> spec_add_swap j i (s1\<lparr>s_map := (s_map s)(j := None, i \<mapsto> o2)\<rparr>)
        | (None, None) \<Rightarrow> spec_add_swap j i (spec_add_swap i j s1))"

lemma add_swap_sim:
  assumes c: "ccb_ok K c"
  shows "sim K (add_swap_move K key i c) (spec_add_swap key i (abs_ccb c))"
proof (cases "i \<in> s_ins (abs_ccb c)")
  case True
  then show ?thesis using ixs.mem [OF ok_rep(2) [OF c], of i] c by (simp add: add_swap_move_def spec_add_swap_def sim_def)
next
  case False
  note r = ok_rep [OF c]
  let ?f = "shift_in (s_del (abs_ccb c)) (unshift_in (s_ins (abs_ccb c)) i)"
  obtain d where d: "add_shifted K (deletions c) (unshift (insertions c) i) = Some (d, ?f)" "rep K d (insert ?f (s_del (abs_ccb c)))"
    using ixs.ins_shifted [OF r(1)] ixs.down [OF r(2), of i] by auto
  obtain j where j: "add K (insertions c) i = Some j" "rep K j (insert i (s_ins (abs_ccb c)))"
    using ixs.ins [OF r(2)] by blast
  have "\<not> contains (insertions c) i" using ixs.mem [OF r(2)] False by blast
  then show ?thesis using d j c False
    by (auto simp: add_swap_move_def spec_add_swap_def sim_def ccb_ok_def rep_def distinct_update)
      (simp add: abs_ccb_def update_conv' Let_def)
qed

lemma update_move_sim:
  assumes c: "ccb_ok K c" and j: "j \<in> s_ins (abs_ccb c)"
  shows "sim K (update_move K old i j c)
    (spec_add_swap j i ((abs_ccb c)\<lparr>s_map := (s_map (abs_ccb c))(j := None, i \<mapsto> old)\<rparr>))"
proof -
  let ?c = "c\<lparr>move_mapping := AList.update i old (AList.delete j (move_mapping c))\<rparr>"
  have ok: "ccb_ok K ?c" using c by (simp add: ccb_ok_def distinct_update distinct_delete)
  have "abs_ccb ?c = (abs_ccb c)\<lparr>s_map := (s_map (abs_ccb c))(j := None, i \<mapsto> old)\<rparr>"
    by (simp add: abs_ccb_def update_conv' delete_conv')
  moreover from add_swap_sim [OF ok, of j i] obtain c1 where c1: "add_swap_move K j i ?c = Some c1" "ccb_ok K c1"
    "abs_ccb c1 = spec_add_swap j i (abs_ccb ?c)" by (auto simp: sim_def)
  moreover have "j \<in> s_ins (abs_ccb c1)" using c1(3) j by (simp add: spec_add_swap_def Let_def abs_ccb_def)
  then have "contains (insertions c1) j" using ixs.mem [OF ok_rep(2) [OF c1(2)]] by blast
  ultimately show ?thesis by (simp add: update_move_def sim_def)
qed

lemma swap_sim:
  assumes c: "ccb_ok K c" and ij: "i < j" and ab: "{a, b} = {i, j}"
    and dom: "dom (s_map (abs_ccb c)) \<subseteq> s_ins (abs_ccb c)"
  shows "sim K (ccb_swap K a b True c) (spec_swap i j (abs_ccb c))"
proof -
  have mm: "a \<noteq> b" "min a b = i" "max a b = j" using ij ab by (auto simp: doubleton_eq_iff)
  have "\<exists>d'. swap_col K i j d = Some d' \<and> rep K d' (exchange i j ` S)" if "rep K d S" for d S
    using ixs.exchange_modified [OF that, of i j] ij by (auto simp: swap_col_def)
  from map_cols_sim [of K "swap_col K i j" "(`) (exchange i j)", OF this c]
  obtain c1 where c1: "map_cols (swap_col K i j) c = Some c1" "ccb_ok K c1" "abs_ccb c1 = spec_cols ((`) (exchange i j)) (abs_ccb c)"
    "move_mapping c1 = move_mapping c" by metis
  have dom1: "map_of (move_mapping c) k = Some v \<Longrightarrow> k \<in> s_ins (abs_ccb c1)" for k v
    using dom c1(3) by auto
  note e = ccb_swap_def [of K a b True c, unfolded mm Let_def c1(1)]
  show ?thesis
  proof (cases "map_of (move_mapping c) i"; cases "map_of (move_mapping c) j")
    assume n: "map_of (move_mapping c) i = None" "map_of (move_mapping c) j = None"
    from add_swap_sim [OF c1(2), of i j] obtain c2 where c2: "add_swap_move K i j c1 = Some c2" "ccb_ok K c2"
      "abs_ccb c2 = spec_add_swap i j (abs_ccb c1)" by (auto simp: sim_def)
    show ?thesis using add_swap_sim [OF c2(2), of j i] n c2 mm(1) c1 by (simp add: e spec_swap_def)
  next
    fix o2 assume n: "map_of (move_mapping c) i = None" "map_of (move_mapping c) j = Some o2"
    show ?thesis using update_move_sim [OF c1(2) dom1 [OF n(2)], of o2 i] n mm(1) c1 by (simp add: e spec_swap_def)
  next
    fix o1 assume n: "map_of (move_mapping c) i = Some o1" "map_of (move_mapping c) j = None"
    show ?thesis using update_move_sim [OF c1(2) dom1 [OF n(1)], of o1 j] n mm(1) c1 by (simp add: e spec_swap_def)
  next
    fix o1 o2 assume n: "map_of (move_mapping c) i = Some o1" "map_of (move_mapping c) j = Some o2"
    let ?c = "c1\<lparr>move_mapping := AList.update i o2 (AList.update j o1 (move_mapping c1))\<rparr>"
    have "ccb_ok K ?c" using c1(2) by (simp add: ccb_ok_def distinct_update)
    moreover have "abs_ccb ?c = (abs_ccb c1)\<lparr>s_map := (s_map (abs_ccb c))(j \<mapsto> o1, i \<mapsto> o2)\<rparr>"
      using c1(4) by (simp add: abs_ccb_def update_conv')
    ultimately show ?thesis using n mm(1) c1 by (simp add: e spec_swap_def sim_def)
  qed
qed

end
