(* ===== verification/Change_Laws.thy ===== *)
theory Change_Laws
  imports Change_Spec_Moves
begin

text \<open>
  What a change record means: deleting \<open>s_del\<close> from the old collection leaves the same rows, in the
  same order, as deleting \<open>s_ins\<close> from the new one (\<open>describes\<close>), and every move leads from a
  deletion to the insertion of the same row (\<open>moves_ok\<close>, \<open>map_ok\<close>).  Every handler
  keeps these while the collection changes in the way the handler is told.
\<close>

section \<open>Collections without a set of positions\<close>

definition keep :: "size_t set \<Rightarrow> 'a list \<Rightarrow> 'a list" where
  "keep S xs = nths xs (- S)"

lemma keep_Nil [simp]: "keep S [] = []"
  by (simp add: keep_def)

lemma keep_empty [simp]: "keep {} xs = xs"
  by (simp add: keep_def nths_all)

lemma keep_snoc: "keep S (xs @ [x]) = keep S xs @ (if length xs \<in> S then [] else [x])"
  by (simp add: keep_def nths_append)

lemma keep_append: "keep S (xs @ ys) = keep S xs @ keep {j. j + length xs \<in> S} ys"
  by (simp add: keep_def nths_append Collect_neg_eq)

lemma length_keep: "length (keep S xs) = unshift_in S (length xs)"
  by (induction xs rule: rev_induct) (auto simp: keep_snoc unshift_in_Suc)

lemma keep_cong: "(\<And>j. j < length xs \<Longrightarrow> j \<in> S \<longleftrightarrow> j \<in> T) \<Longrightarrow> keep S xs = keep T xs"
  by (induction xs rule: rev_induct) (simp_all add: keep_snoc)

lemma keep_split:
  assumes "i < length xs"
  shows "keep S xs = keep S (take i xs) @ (if i \<in> S then [] else [xs ! i]) @ keep {j. j + Suc i \<in> S} (drop (Suc i) xs)"
proof -
  have "keep S xs = keep S ((take i xs @ [xs ! i]) @ drop (Suc i) xs)"
    using assms by (simp add: Cons_nth_drop_Suc)
  also have "\<dots> = keep S (take i xs @ [xs ! i]) @ keep {j. j + Suc i \<in> S} (drop (Suc i) xs)"
    using assms by (subst keep_append) (simp add: min_def)
  finally show ?thesis using assms by (simp add: keep_snoc min_def)
qed

text \<open>Deleting twice: the second set counts positions after the first deletion.\<close>

lemma keep_keep:
  assumes "finite D"
  shows "keep T (keep D xs) = keep (D \<union> shift_in D ` T) xs"
proof (induction xs rule: rev_induct)
  case (snoc x xs)
  let ?n = "length xs"
  have "?n \<in> shift_in D ` T \<longleftrightarrow> unshift_in D ?n \<in> T" if "?n \<notin> D"
    using shift_in_unshift_in [OF assms that] shift_in_spec [OF assms] by (metis image_iff)
  then show ?case using snoc by (auto simp: keep_snoc length_keep)
qed simp

lemma keep_keep_unshift:
  assumes "finite D"
  shows "keep (unshift_in D ` (T - D)) (keep D xs) = keep (D \<union> T) xs"
proof -
  have "shift_in D ` unshift_in D ` (T - D) = T - D"
    using shift_in_unshift_in [OF assms] by (force simp: image_image)
  then show ?thesis by (simp add: keep_keep [OF assms])
qed

lemma keep_nth:
  assumes "i \<notin> S" "i < length xs"
  shows "unshift_in S i < length (keep S xs) \<and> keep S xs ! unshift_in S i = xs ! i"
proof -
  have "length (keep S (take i xs)) = unshift_in S i" using assms(2) by (simp add: length_keep min_def)
  then show ?thesis using assms(1) unfolding keep_split [OF assms(2), of S] by (simp add: nth_append)
qed

lemma keep_interval:
  assumes "i = length A" "n = length ys"
  shows "keep {i..<i + n} (A @ ys @ B) = A @ B"
proof -
  have "keep {i..<i + n} A = keep {} A" using assms by (intro keep_cong) auto
  moreover have "keep {j. j + length A \<in> {i..<i + n}} ys = []"
    using assms by (simp add: keep_def nths_def) (auto simp: filter_empty_conv set_zip)
  moreover have "{j. j + length ys \<in> {j. j + length A \<in> {i..<i + n}}} = {}" using assms by auto
  ultimately show ?thesis unfolding keep_append by (simp only: keep_empty append_Nil append_assoc)
qed

lemma keep_one: "i < length xs \<Longrightarrow> keep {i} xs = take i xs @ drop (Suc i) xs"
  using keep_interval [of i "take i xs" 1 "[xs ! i]" "drop (Suc i) xs"]
  by (simp add: min_def Cons_nth_drop_Suc)

lemma keep_put_back:
  assumes "p \<in> S" "p < length xs"
  shows "keep (S - {p}) xs = take (unshift_in S p) (keep S xs) @ xs ! p # drop (unshift_in S p) (keep S xs)"
proof -
  have A: "keep (S - {p}) (take p xs) = keep S (take p xs)" by (rule keep_cong) auto
  have B: "{j. j + Suc p \<in> S - {p}} = {j. j + Suc p \<in> S}" by auto
  have l: "length (keep S (take p xs)) = unshift_in S p" using assms by (simp add: length_keep min_def)
  then show ?thesis using assms(1) unfolding keep_split [OF assms(2), of S] keep_split [OF assms(2), of "S - {p}"] A B
    by simp
qed

section \<open>What a record describes\<close>

definition tracks :: "'a list \<Rightarrow> 'a list \<Rightarrow> size_t set \<Rightarrow> size_t set \<Rightarrow> bool" where
  "tracks old new D I \<longleftrightarrow>
     finite D \<and> finite I \<and> D \<subseteq> {..<length old} \<and> I \<subseteq> {..<length new} \<and> keep D old = keep I new"

definition describes :: "'a list \<Rightarrow> 'a list \<Rightarrow> cspec \<Rightarrow> bool" where
  "describes old new s \<longleftrightarrow> tracks old new (s_del s) (s_ins s)"

definition moves_ok :: "'a list \<Rightarrow> 'a list \<Rightarrow> size_t set \<Rightarrow> size_t set \<Rightarrow> mv list \<Rightarrow> bool" where
  "moves_ok old new D I ms \<longleftrightarrow>
     distinct (map mv_from ms) \<and> distinct (map mv_to ms) \<and>
     (\<forall>m \<in> set ms. mv_from m \<in> D \<and> mv_to m \<in> I \<and> old ! mv_from m = new ! mv_to m)"

definition map_ok :: "'a list \<Rightarrow> 'a list \<Rightarrow> size_t set \<Rightarrow> size_t set \<Rightarrow> (size_t \<Rightarrow> size_t option) \<Rightarrow> bool" where
  "map_ok old new D I mp \<longleftrightarrow>
     (\<forall>j k v. mp j = Some v \<and> mp k = Some v \<longrightarrow> j = k) \<and> (\<forall>k v. mp k = Some v \<longrightarrow> v \<in> D \<and> k \<in> I \<and> old ! v = new ! k)"

lemma tracks_refl: "tracks xs xs {} {}"
  by (simp add: tracks_def)

lemma tracks_insert:
  assumes "tracks old new D I" "i \<le> length new"
  shows "tracks old (take i new @ ys @ drop i new) D (bump i (length ys) ` I \<union> {i..<i + length ys})"
proof -
  let ?T = "{i..<i + length ys}"
  have b: "bump i (length ys) ` I = shift_in ?T ` I"
    using bump_shift_in [of i "length ys"] by (auto simp: image_iff)
  have "keep (?T \<union> shift_in ?T ` I) (take i new @ ys @ drop i new) = keep I new"
    using keep_keep [of ?T I "take i new @ ys @ drop i new"]
      keep_interval [of i "take i new" "length ys" ys "drop i new"] assms(2) by simp
  then show ?thesis using assms unfolding b
    by (auto simp: tracks_def Un_commute) (auto simp: bump_shift_in [symmetric] bump_def)
qed

lemma recorded_keep:
  assumes t: "tracks old new D I" and i: "i < length new"
  shows "keep (recorded I D i) old = keep (insert i I) new"
    and "recorded I D i \<subseteq> {..<length old}" and "finite (recorded I D i)"
    and "i \<notin> I \<Longrightarrow> old ! shift_in D (unshift_in I i) = new ! i"
    and "i \<notin> I \<Longrightarrow> shift_in D (unshift_in I i) < length old"
proof -
  have f: "finite D" "finite I" and k: "keep D old = keep I new" and b: "D \<subseteq> {..<length old}"
    using t by (auto simp: tracks_def)
  show "finite (recorded I D i)" using f by (simp add: recorded_def)
  have *: "keep (recorded I D i) old = keep (insert i I) new \<and> recorded I D i \<subseteq> {..<length old} \<and>
    (i \<notin> I \<longrightarrow> old ! shift_in D (unshift_in I i) = new ! i \<and> shift_in D (unshift_in I i) < length old)"
  proof (cases "i \<in> I")
    case True
    then show ?thesis using k b by (simp add: recorded_def insert_absorb)
  next
    case False
    define p where "p = shift_in D (unshift_in I i)"
    have "keep {unshift_in I i} (keep I new) = keep (insert i I) new"
      using keep_keep [OF f(2), of "{unshift_in I i}" new] shift_in_unshift_in [OF f(2) False] by simp
    then have "keep (insert p D) old = keep (insert i I) new"
      using keep_keep [OF f(1), of "{unshift_in I i}" old] k by (simp add: p_def)
    moreover have p: "p \<notin> D" "unshift_in D p = unshift_in I i" using shift_in_spec [OF f(1)] by (simp_all add: p_def)
    moreover have "p < length old"
    proof (rule ccontr)
      assume "\<not> p < length old"
      then have "unshift_in D (length old) \<le> unshift_in D p" by (intro unshift_in_mono) simp
      moreover have "unshift_in I i < length (keep I new)" using keep_nth [OF False i] by simp
      ultimately show False using p(2) k by (simp flip: length_keep)
    qed
    moreover have "old ! p = new ! i"
      using keep_nth [OF p(1) \<open>p < length old\<close>] keep_nth [OF False i] k by (simp add: p(2))
    ultimately show ?thesis using False b by (simp add: recorded_def p_def)
  qed
  then show "keep (recorded I D i) old = keep (insert i I) new" "recorded I D i \<subseteq> {..<length old}"
    "i \<notin> I \<Longrightarrow> old ! shift_in D (unshift_in I i) = new ! i"
    "i \<notin> I \<Longrightarrow> shift_in D (unshift_in I i) < length old" by auto
qed

lemma tracks_erase:
  assumes t: "tracks old new D I" and i: "i < length new"
  shows "tracks old (take i new @ drop (Suc i) new) (recorded I D i) (unbump i ` (I - {i}))"
proof -
  have "unbump i ` (I - {i}) = unshift_in {i} ` (I - {i})" using unbump_unshift [of i] by (auto simp: image_iff)
  then have "keep (unbump i ` (I - {i})) (keep {i} new) = keep (insert i I) new"
    using keep_keep_unshift [of "{i}" I new] by simp
  moreover have "unbump i ` (I - {i}) \<subseteq> {..<length new - 1}"
    using t i by (auto simp: tracks_def unbump_def)
  ultimately show ?thesis using recorded_keep [OF t i] t i
    by (auto simp: tracks_def keep_one)
qed

text \<open>Overwriting a row is an erasure and an insertion at the same place.\<close>

lemma bump_unbump: "i \<notin> I \<Longrightarrow> bump i 1 ` unbump i ` I = I"
proof -
  assume "i \<notin> I"
  then have "bump i 1 (unbump i j) = j" if "j \<in> I" for j using that by (auto simp: bump_def unbump_def)
  then show ?thesis by (simp add: image_image)
qed

lemma tracks_replace:
  assumes t: "tracks old new D I" and i: "i < length new"
  shows "tracks old (new[i := y]) (recorded I D i) (insert i I)"
proof -
  have "bump i 1 ` unbump i ` (I - {i}) = I - {i}" by (rule bump_unbump) simp
  then have "bump i (length [y]) ` unbump i ` (I - {i}) \<union> {i..<i + length [y]} = insert i I" by auto
  moreover have "take i (take i new @ drop (Suc i) new) @ [y] @ drop i (take i new @ drop (Suc i) new) = new[i := y]"
    using i by (simp add: upd_conv_take_nth_drop min_def)
  ultimately show ?thesis using tracks_insert [OF tracks_erase [OF t i], of i "[y]"] i by simp
qed

lemma tracks_merge:
  assumes "tracks old mid D I" "tracks mid new D' I'"
  shows "tracks old new (D \<union> shift_in D ` unshift_in I ` (D' - I)) (shift_in I' ` unshift_in D' ` (I - D') \<union> I')"
proof -
  have f: "finite D" "finite I" "finite D'" "finite I'" using assms by (auto simp: tracks_def)
  have k: "keep D old = keep I mid" "keep D' mid = keep I' new"
    and b: "D \<subseteq> {..<length old}" "I \<subseteq> {..<length mid}" "D' \<subseteq> {..<length mid}" "I' \<subseteq> {..<length new}"
    using assms by (auto simp: tracks_def)
  have "keep (D \<union> shift_in D ` unshift_in I ` (D' - I)) old = keep (I \<union> D') mid"
    using keep_keep [OF f(1), of "unshift_in I ` (D' - I)" old] keep_keep_unshift [OF f(2), of D' mid] k by simp
  moreover have "keep (shift_in I' ` unshift_in D' ` (I - D') \<union> I') new = keep (I \<union> D') mid"
    using keep_keep [OF f(4), of "unshift_in D' ` (I - D')" new] keep_keep_unshift [OF f(3), of I mid] k
    by (simp add: Un_commute)
  moreover have "shift_in D (unshift_in I i) < length old" if "i \<in> D' - I" for i
    using recorded_keep(5) [OF assms(1), of i] that b by auto
  moreover have "shift_in I' (unshift_in D' i) < length new" if "i \<in> I - D'" for i
  proof -
    have "tracks new mid I' D'" using assms(2) by (auto simp: tracks_def)
    from recorded_keep(5) [OF this, of i] that b show ?thesis by auto
  qed
  ultimately show ?thesis using f b by (auto simp: tracks_def)
qed

lemma tracks_unmove:
  assumes t: "tracks old new D I" and m: "d \<in> D" "i \<in> I" "old ! d = new ! i" "unshift_in D d = unshift_in I i"
  shows "tracks old new (D - {d}) (I - {i})"
proof -
  have b: "d < length old" "i < length new" using t m by (auto simp: tracks_def)
  then show ?thesis using t m keep_put_back [OF m(1) b(1)] keep_put_back [OF m(2) b(2)]
    by (auto simp: tracks_def)
qed

section \<open>Changes to a list keep the record valid\<close>

definition inserted_at :: "size_t \<Rightarrow> 'a list \<Rightarrow> 'a list \<Rightarrow> 'a list" where
  "inserted_at i ys xs = take i xs @ ys @ drop i xs"

definition erased_at :: "size_t \<Rightarrow> 'a list \<Rightarrow> 'a list" where
  "erased_at i xs = take i xs @ drop (Suc i) xs"

definition moved_to :: "size_t \<Rightarrow> size_t \<Rightarrow> 'a list \<Rightarrow> 'a list" where
  "moved_to i k xs = inserted_at k [xs ! i] (erased_at i xs)"

lemma length_inserted_at [simp]: "length (inserted_at i ys xs) = length xs + length ys"
  by (simp add: inserted_at_def)

lemma length_erased_at [simp]: "i < length xs \<Longrightarrow> length (erased_at i xs) = length xs - 1"
  by (simp add: erased_at_def)

lemma nth_inserted_at:
  "i \<le> length xs \<Longrightarrow> t < length xs \<Longrightarrow> inserted_at i ys xs ! bump i (length ys) t = xs ! t"
  by (auto simp: inserted_at_def bump_def nth_append min_def)

lemma nth_inserted_new: "i \<le> length xs \<Longrightarrow> inserted_at i [y] xs ! i = y"
  by (simp add: inserted_at_def nth_append min_def)

lemma nth_erased_at:
  "i < length xs \<Longrightarrow> t < length xs \<Longrightarrow> t \<noteq> i \<Longrightarrow> erased_at i xs ! unbump i t = xs ! t"
  by (auto simp: erased_at_def unbump_def nth_append min_def)

lemma unbump_less: "i < n \<Longrightarrow> t < n \<Longrightarrow> t \<noteq> i \<Longrightarrow> unbump i t < n - 1"
  by (auto simp: unbump_def)

lemma nth_moved_to:
  assumes "i < length xs" "k < length xs" "t < length xs"
  shows "moved_to i k xs ! moved_pos i k t = xs ! t"
proof (cases "t = i")
  case True
  then show ?thesis using assms nth_inserted_new [of k "erased_at i xs"] by (simp add: moved_to_def moved_pos_def)
next
  case False
  then show ?thesis
    using assms nth_inserted_at [of k "erased_at i xs" "unbump i t" "[xs ! i]"] nth_erased_at [OF assms(1,3)]
      unbump_less [OF assms(1,3)]
    by (simp add: moved_to_def moved_pos_def)
qed

lemma inj_bump: "inj (bump i n)"
  by (rule injI) (auto simp: bump_def split: if_splits)

lemma inj_on_unbump: "inj_on (unbump i) (- {i})"
  by (rule inj_onI) (auto simp: unbump_def split: if_splits)

lemma bump_neq: "0 < n \<Longrightarrow> bump i n j \<noteq> i"
  by (simp add: bump_def)

lemma inj_moved_pos: "inj (moved_pos i k)"
proof (rule injI)
  fix a b assume e: "moved_pos i k a = moved_pos i k b"
  show "a = b"
  proof (cases "a = i"; cases "b = i")
    assume "a \<noteq> i" "b \<noteq> i"
    then have "unbump i a = unbump i b" using e inj_bump by (auto simp: moved_pos_def dest: injD)
    then show ?thesis using \<open>a \<noteq> i\<close> \<open>b \<noteq> i\<close> inj_on_unbump by (auto dest: inj_onD)
  next
    assume "a = i" "b \<noteq> i"
    then show ?thesis using e bump_neq [of 1 k "unbump i b"] by (auto simp: moved_pos_def)
  next
    assume "a \<noteq> i" "b = i"
    then show ?thesis using e bump_neq [of 1 k "unbump i a"] by (auto simp: moved_pos_def)
  qed simp
qed

definition wf_changes :: "'a list \<Rightarrow> 'a list \<Rightarrow> cspec \<Rightarrow> bool" where
  "wf_changes old new s \<longleftrightarrow>
     describes old new s \<and> moves_ok old new (s_del s) (s_ins s) (s_moves s) \<and>
     map_ok old new (s_del s) (s_ins s) (s_map s)"

lemma moves_ok_map:
  assumes m: "moves_ok old new D I ms" and inj: "inj_on f (mv_to ` set ms)"
    and s: "\<And>m. m \<in> set ms \<Longrightarrow> f (mv_to m) \<in> I' \<and> new' ! f (mv_to m) = new ! mv_to m" and D: "D \<subseteq> D'"
  shows "moves_ok old new' D' I' (map (\<lambda>m. m\<lparr>mv_to := f (mv_to m)\<rparr>) ms)"
proof -
  have "distinct (map f (map mv_to ms))" using m inj unfolding distinct_map [of f] by (simp add: moves_ok_def)
  then have "distinct (map mv_to (map (\<lambda>m. m\<lparr>mv_to := f (mv_to m)\<rparr>) ms))" by (simp add: comp_def)
  moreover have "distinct (map mv_from (map (\<lambda>m. m\<lparr>mv_to := f (mv_to m)\<rparr>) ms))"
    using m by (simp add: moves_ok_def comp_def)
  ultimately show ?thesis using m s D by (auto simp: moves_ok_def)
qed

lemma moves_ok_filter: "moves_ok old new D I ms \<Longrightarrow> moves_ok old new D I (filter P ms)"
  by (auto simp: moves_ok_def distinct_map_filter)

lemma wf_bounds:
  assumes "tracks old new D I"
  shows "i \<in> D \<Longrightarrow> i < length old" "i \<in> I \<Longrightarrow> i < length new" "finite D" "finite I"
  using assms by (auto simp: tracks_def)

lemma spec_insert_wf:
  assumes w: "wf_changes old new s" and i: "i \<le> length new" "ys \<noteq> []"
  shows "wf_changes old (inserted_at i ys new) (spec_insert i (length ys) True s)"
proof -
  let ?n = "length ys" and ?new = "inserted_at i ys new"
  let ?D = "s_del s" and ?I = "s_ins s"
  let ?I' = "bump i ?n ` ?I \<union> {i..<i + ?n}"
  have t: "tracks old new ?D ?I" using w by (simp add: wf_changes_def describes_def)
  note b = wf_bounds [OF t]
  have 1: "tracks old ?new ?D ?I'" using tracks_insert [OF t i(1)] by (simp add: inserted_at_def)
  have nth: "?new ! bump i ?n k = new ! k" if "k \<in> ?I" for k using nth_inserted_at [OF i(1) b(2) [OF that]] .
  have "moves_ok old ?new ?D ?I' (map (\<lambda>m. m\<lparr>mv_to := bump i ?n (mv_to m)\<rparr>) (s_moves s))"
    using w nth inj_on_subset [OF inj_bump]
    by (intro moves_ok_map [of old new ?D ?I]) (auto simp: wf_changes_def moves_ok_def)
  moreover have "map_ok old ?new ?D ?I' (\<lambda>k. if k < i then s_map s k else if k < i + ?n then None else s_map s (k - ?n))"
  proof -
    have pre: "\<exists>k0. k = bump i ?n k0 \<and> s_map s k0 = Some v"
      if "(if k < i then s_map s k else if k < i + ?n then None else s_map s (k - ?n)) = Some v" for k v
    proof (cases "k < i")
      case True
      then show ?thesis using that by (intro exI [of _ k]) (simp add: bump_def)
    next
      case False
      then show ?thesis using that by (intro exI [of _ "k - ?n"]) (auto simp: bump_def split: if_splits)
    qed
    have m: "\<And>j k v. s_map s j = Some v \<Longrightarrow> s_map s k = Some v \<Longrightarrow> j = k"
      "\<And>k v. s_map s k = Some v \<Longrightarrow> v \<in> ?D \<and> k \<in> ?I \<and> old ! v = new ! k"
      using w unfolding wf_changes_def map_ok_def by blast+
    show ?thesis unfolding map_ok_def
    proof (intro conjI allI impI; (elim conjE)?)
      fix j k v
      assume "(if j < i then s_map s j else if j < i + ?n then None else s_map s (j - ?n)) = Some v"
        "(if k < i then s_map s k else if k < i + ?n then None else s_map s (k - ?n)) = Some v"
      from this [THEN pre] obtain j0 k0 where "j = bump i ?n j0" "s_map s j0 = Some v"
        "k = bump i ?n k0" "s_map s k0 = Some v" by blast
      then show "j = k" using m(1) [of j0 v k0] by simp
    next
      fix k v
      assume "(if k < i then s_map s k else if k < i + ?n then None else s_map s (k - ?n)) = Some v"
      from pre [OF this] obtain k0 where "k = bump i ?n k0" "s_map s k0 = Some v" by blast
      then show "v \<in> ?D" "k \<in> ?I'" "old ! v = ?new ! k" using m(2) nth by auto
    qed
  qed
  ultimately show ?thesis using 1 i(2) by (simp add: wf_changes_def describes_def spec_insert_def Let_def)
qed

lemma recorded_mono: "D \<subseteq> recorded I D i"
  by (auto simp: recorded_def)

lemma spec_erase_wf:
  assumes w: "wf_changes old new s" and i: "i < length new" and no: "s_map s = Map.empty"
  shows "wf_changes old (erased_at i new) (spec_erase i s)"
proof -
  let ?new = "erased_at i new" and ?D = "s_del s" and ?I = "s_ins s"
  have t: "tracks old new ?D ?I" using w by (simp add: wf_changes_def describes_def)
  note b = wf_bounds [OF t]
  have nth: "?new ! unbump i k = new ! k" if "k \<in> ?I" "k \<noteq> i" for k using nth_erased_at [OF i b(2) [OF that(1)] that(2)] .
  have "moves_ok old ?new (recorded ?I ?D i) (unbump i ` (?I - {i}))
      (map (\<lambda>m. m\<lparr>mv_to := unbump i (mv_to m)\<rparr>) (filter (\<lambda>m. mv_to m \<noteq> i) (s_moves s)))"
  proof (rule moves_ok_map)
    show "moves_ok old new ?D ?I (filter (\<lambda>m. mv_to m \<noteq> i) (s_moves s))"
      using w by (auto simp: wf_changes_def intro: moves_ok_filter)
    show "inj_on (unbump i) (mv_to ` set (filter (\<lambda>m. mv_to m \<noteq> i) (s_moves s)))"
      by (rule inj_on_subset [OF inj_on_unbump]) auto
  qed (use w nth recorded_mono in \<open>auto simp: wf_changes_def moves_ok_def\<close>)
  then show ?thesis using tracks_erase [OF t i] no
    by (simp add: wf_changes_def describes_def spec_erase_def map_ok_def erased_at_def)
qed

lemma moved_set: "i \<notin> I \<Longrightarrow> moved_pos i k ` I = bump k 1 ` unbump i ` I"
  by (force simp: moved_pos_def image_image)

lemma spec_move_wf:
  assumes w: "wf_changes old new s" and i: "i < length new" "k < length new" and no: "s_map s = Map.empty"
  shows "wf_changes old (moved_to i k new) (spec_move i k s)"
proof -
  let ?new = "moved_to i k new" and ?D = "s_del s" and ?I = "s_ins s"
  let ?I' = "insert k (bump k 1 ` unbump i ` (?I - {i}))" and ?D' = "recorded ?I ?D i"
  let ?ms = "map (\<lambda>m. m\<lparr>mv_to := moved_pos i k (mv_to m)\<rparr>) (s_moves s)"
  have t: "tracks old new ?D ?I" using w by (simp add: wf_changes_def describes_def)
  note b = wf_bounds [OF t]
  have "tracks old (inserted_at k [new ! i] (erased_at i new)) ?D' (bump k 1 ` unbump i ` (?I - {i}) \<union> {k..<k + 1})"
    using tracks_insert [OF tracks_erase [OF t i(1)], of k "[new ! i]"] i by (simp add: inserted_at_def erased_at_def)
  moreover have "bump k 1 ` unbump i ` (?I - {i}) \<union> {k..<k + 1} = ?I'" by auto
  ultimately have 1: "tracks old ?new ?D' ?I'" by (simp add: moved_to_def)
  have nth: "?new ! moved_pos i k j = new ! j" if "j \<in> ?I" for j using nth_moved_to [OF i b(2) [OF that]] .
  have 2: "moves_ok old ?new ?D' ?I' ?ms"
  proof (rule moves_ok_map [of old new ?D ?I])
    show "inj_on (moved_pos i k) (mv_to ` set (s_moves s))" by (rule inj_on_subset [OF inj_moved_pos]) simp
  qed (use w nth recorded_mono in \<open>auto simp: wf_changes_def moves_ok_def moved_pos_def\<close>)
  have "moves_ok old ?new ?D' ?I' (?ms @ (if i \<in> ?I then [] else [\<lparr>mv_from = shift_in ?D (unshift_in ?I i), mv_to = k\<rparr>]))"
  proof (cases "i \<in> ?I")
    case False
    let ?f = "shift_in ?D (unshift_in ?I i)"
    have f: "?f \<notin> ?D" using shift_in_spec [OF b(3)] by blast
    have old: "mv_from m \<in> ?D" "mv_to m \<in> ?I" if "m \<in> set (s_moves s)" for m
      using w that by (auto simp: wf_changes_def moves_ok_def)
    have "?f \<notin> set (map mv_from ?ms)" using f old by auto
    moreover have "k \<notin> set (map mv_to ?ms)" using old False bump_neq [of 1 k, symmetric] by (auto simp: moved_pos_def)
    moreover have "old ! ?f = ?new ! k"
      using recorded_keep(4) [OF t i(1) False] nth_moved_to [OF i i(1)] by (simp add: moved_pos_def)
    ultimately show ?thesis using 2 False by (auto simp: moves_ok_def recorded_def)
  qed (use 2 in simp)
  then show ?thesis using 1 no by (simp add: wf_changes_def describes_def spec_move_def map_ok_def)
qed

lemma spec_clear_wf:
  assumes w: "wf_changes old new s" and n: "n = length new" "n \<noteq> npos"
  shows "wf_changes old [] (spec_clear n s)"
proof -
  have t: "tracks old new (s_del s) (s_ins s)" using w by (simp add: wf_changes_def describes_def)
  note b = wf_bounds [OF t]
  have l: "length (keep S xs) = length xs - card S" if "S \<subseteq> {..<length xs}" for S and xs :: "'a list"
    using that rank_all [of S "length xs"] by (simp add: length_keep unshift_in_def finite_subset)
  have "length old - card (s_del s) = length new - card (s_ins s)"
    using l [of "s_del s" old] l [of "s_ins s" new] t by (simp add: tracks_def)
  moreover have "card (s_del s) \<le> length old" "card (s_ins s) \<le> length new"
    using t card_mono [of "{..<length old}" "s_del s"] card_mono [of "{..<length new}" "s_ins s"] by (auto simp: tracks_def)
  ultimately have "n + card (s_del s) - card (s_ins s) = length old" using n(1) by simp
  moreover have "keep {..<length old} old = []"
    by (metis keep_append keep_interval append_Nil append_Nil2 length_0_conv add_0 atLeast0LessThan list.size(3))
  ultimately show ?thesis using n(2)
    by (simp add: wf_changes_def describes_def spec_clear_def tracks_def moves_ok_def map_ok_def)
qed

section \<open>Changes to table rows keep the record valid\<close>

text \<open>Rows of a table stay where they are unless they are moved over or exchanged.\<close>

definition aligned :: "'a list \<Rightarrow> 'a list \<Rightarrow> size_t set \<Rightarrow> size_t set \<Rightarrow> bool" where
  "aligned old new D I \<longleftrightarrow> {..<length old} - D = {..<length new} - I"

definition wf_rows :: "'a list \<Rightarrow> 'a list \<Rightarrow> cspec \<Rightarrow> bool" where
  "wf_rows old new s \<longleftrightarrow>
     wf_changes old new s \<and> aligned old new (s_del s) (s_ins s) \<and> s_moves s = []"

lemma unshift_in_card: "finite S \<Longrightarrow> unshift_in S i = card ({..<i} - S)"
proof -
  have "card ({..<i} - S) = card {..<i} - card ({..<i} \<inter> S)" by (rule card_Diff_subset_Int) simp
  then show ?thesis by (simp add: unshift_in_def rank_def Int_commute)
qed

lemma aligned_unshift:
  assumes "aligned old new D I" "finite D" "finite I" "i \<le> length old" "i \<le> length new"
  shows "unshift_in D i = unshift_in I i"
proof -
  have "{..<i} - D = {..<i} \<inter> ({..<length old} - D)" "{..<i} - I = {..<i} \<inter> ({..<length new} - I)"
    using assms(4,5) by auto
  then show ?thesis using assms(1-3) by (simp add: unshift_in_card aligned_def)
qed

lemma aligned_position:
  assumes t: "tracks old new D I" and a: "aligned old new D I" and i: "i < length new" "i \<notin> I"
  shows "i \<notin> D" "i < length old" "shift_in D (unshift_in I i) = i"
proof -
  have "i \<in> {..<length old} - D" using a i by (auto simp: aligned_def)
  then show b: "i \<notin> D" "i < length old" by auto
  then show "shift_in D (unshift_in I i) = i"
    using aligned_unshift [OF a wf_bounds(3,4) [OF t], of i] i(1) wf_bounds(3) [OF t]
    by (intro shift_in_eqI) auto
qed

lemma aligned_recorded:
  assumes "tracks old new D I" "aligned old new D I" "i < length new"
  shows "recorded I D i = (if i \<in> I then D else insert i D)"
  using aligned_position [OF assms] by (simp add: recorded_def)

text \<open>One row overwritten, by a row whose origin is recorded under \<open>v\<close>.\<close>

lemma tracks_aligned_replace:
  assumes t: "tracks old new D I" and a: "aligned old new D I" and i: "i < length new"
  shows "tracks old (new[i := y]) (if i \<in> I then D else insert i D) (insert i I)"
    and "aligned old (new[i := y]) (if i \<in> I then D else insert i D) (insert i I)"
proof -
  show "tracks old (new[i := y]) (if i \<in> I then D else insert i D) (insert i I)"
    using tracks_replace [OF t i] aligned_recorded [OF t a i] by simp
  show "aligned old (new[i := y]) (if i \<in> I then D else insert i D) (insert i I)"
    using a by (auto simp: aligned_def)
qed

lemma tracks_aligned_butlast:
  assumes t: "tracks old new D I" and a: "aligned old new D I" and l: "length new = Suc l"
  shows "tracks old (butlast new) (if l \<in> I then D else insert l D) (I - {l})"
    and "aligned old (butlast new) (if l \<in> I then D else insert l D) (I - {l})"
proof -
  have lt: "l < length new" by (simp add: l)
  have "unbump l ` (I - {l}) = I - {l}"
    using wf_bounds(2) [OF t] l by (force simp: unbump_def image_iff)
  moreover have "take l new @ drop (Suc l) new = butlast new" by (simp add: l butlast_conv_take)
  ultimately show "tracks old (butlast new) (if l \<in> I then D else insert l D) (I - {l})"
    using tracks_erase [OF t lt] aligned_recorded [OF t a lt] by simp
  show "aligned old (butlast new) (if l \<in> I then D else insert l D) (I - {l})"
    using a l wf_bounds(2) [OF t] by (auto simp: aligned_def lessThan_Suc)
qed

end
