(* ===== verification/Change_Rows.thy ===== *)
theory Change_Rows
  imports Change_Laws "HOL-Library.Multiset"
begin

text \<open>
  Table rows: \<open>move_over\<close>, \<open>swap\<close> and \<open>parse_complete\<close> keep the record of a table valid.  Since
  rows of a table do not shift, the position of an untouched row is its old position.
\<close>

definition origin :: "cspec \<Rightarrow> size_t \<Rightarrow> size_t option" where
  "origin s k = (if k \<in> s_ins s then s_map s k else Some k)"

lemma rows_bounds:
  assumes "wf_rows old new s"
  shows "tracks old new (s_del s) (s_ins s)" "aligned old new (s_del s) (s_ins s)"
    "\<And>j k v. s_map s j = Some v \<Longrightarrow> s_map s k = Some v \<Longrightarrow> j = k"
    "\<And>k v. s_map s k = Some v \<Longrightarrow> v \<in> s_del s \<and> k \<in> s_ins s \<and> old ! v = new ! k" "s_moves s = []"
  using assms by (auto simp: wf_rows_def wf_changes_def describes_def map_ok_def)

lemma rows_moves_ok: "moves_ok old new D I []"
  by (simp add: moves_ok_def)

text \<open>The origin of a row is a deleted position, or its own when the row is untouched.\<close>

lemma origin_ok:
  assumes w: "wf_rows old new s" and k: "k < length new" "origin s k = Some v"
  shows "old ! v = new ! k" "k \<in> s_ins s \<and> v \<in> s_del s \<or> v = k \<and> k \<notin> s_ins s \<and> k \<notin> s_del s" "v < length old"
proof -
  note r = rows_bounds [OF w]
  have "old ! v = new ! k \<and> (k \<in> s_ins s \<and> v \<in> s_del s \<or> v = k \<and> k \<notin> s_ins s \<and> k \<notin> s_del s) \<and> v < length old"
  proof (cases "k \<in> s_ins s")
    case True
    then show ?thesis using r(4) [of k v] k(2) wf_bounds(1) [OF r(1), of v] by (simp add: origin_def)
  next
    case False
    then have "v = k" using k(2) by (simp add: origin_def)
    then show ?thesis using aligned_position [OF r(1,2) k(1) False] recorded_keep(4) [OF r(1) k(1) False] False by simp
  qed
  then show "old ! v = new ! k" "k \<in> s_ins s \<and> v \<in> s_del s \<or> v = k \<and> k \<notin> s_ins s \<and> k \<notin> s_del s" "v < length old" by auto
qed

lemma origin_inj:
  assumes w: "wf_rows old new s" and k: "j < length new" "k < length new" "origin s j = Some v" "origin s k = Some v"
  shows "j = k"
  using origin_ok(2) [OF w k(1,3)] origin_ok(2) [OF w k(2,4)] k(3,4) rows_bounds(3) [OF w, of j v k]
  by (elim disjE) (auto simp: origin_def)

lemma map_origin: "wf_rows old new s \<Longrightarrow> s_map s k = Some v \<Longrightarrow> origin s k = Some v \<and> k < length new \<and> k \<in> s_ins s"
  using rows_bounds(4) wf_bounds(2) [OF rows_bounds(1)] by (fastforce simp: origin_def)

text \<open>A new map all of whose entries are origins of rows that have moved, by \<open>f\<close>.\<close>

lemma map_ok_origins:
  assumes w: "wf_rows old new s"
    and f: "\<And>k v. mp k = Some v \<Longrightarrow> f k < length new \<and> origin s (f k) = Some v \<and> k \<in> I \<and> v \<in> D \<and> new' ! k = new ! f k"
    and inj: "\<And>j k. mp j \<noteq> None \<Longrightarrow> mp k \<noteq> None \<Longrightarrow> f j = f k \<Longrightarrow> j = k"
  shows "map_ok old new' D I mp"
  unfolding map_ok_def
proof (intro conjI allI impI; (elim conjE)?)
  fix j k v assume jk: "mp j = Some v" "mp k = Some v"
  show "j = k" by (rule inj) (use jk f [OF jk(1)] f [OF jk(2)] origin_inj [OF w, of "f j" "f k" v] in auto)
next
  fix k v assume "mp k = Some v"
  with f [OF this] origin_ok(1) [OF w, of "f k" v] show "v \<in> D" "k \<in> I" "old ! v = new' ! k" by auto
qed

lemma spec_move_over_wf:
  assumes w: "wf_rows old new s" and l: "length new = Suc l" and row: "row < l"
  shows "wf_rows old ((butlast new)[row := new ! l]) (spec_move_over row l s)"
proof -
  let ?D = "s_del s" and ?I = "s_ins s"
  let ?D1 = "if l \<in> ?I then ?D else insert l ?D" and ?I1 = "?I - {l}"
  let ?D2 = "if row \<in> ?I1 then ?D1 else insert row ?D1" and ?new = "(butlast new)[row := new ! l]"
  note r = rows_bounds [OF w]
  note b = tracks_aligned_butlast [OF r(1,2) l]
  have rl: "row < length (butlast new)" using row l by simp
  note t = tracks_aligned_replace [OF b rl, of "new ! l"]
  have f: "shift_in ?D (unshift_in ?I l) = l" if "l \<notin> ?I"
    using aligned_position(3) [OF r(1,2) _ that] l by simp
  have rec: "recorded ?I1 ?D1 row = ?D2" by (rule aligned_recorded [OF b rl])
  define mp where "mp = (\<lambda>k. if k = row then origin s l else if k = l then None else s_map s k)"
  have rowI: "s_map s row = None" if "row \<notin> ?I" using map_origin [OF w, of row] that by fastforce
  have lI: "s_map s l = None" if "l \<notin> ?I" using map_origin [OF w, of l] that by fastforce
  have mp: "s_map (spec_move_over row l s) = mp"
    using row rowI lI f by (auto simp: spec_move_over_def Let_def mp_def origin_def fun_eq_iff split: option.splits)
  have "map_ok old ?new ?D2 (insert row ?I1) mp"
  proof (rule map_ok_origins [OF w, where f = "\<lambda>k. if k = row then l else k"])
    fix k v assume k: "mp k = Some v"
    show "(if k = row then l else k) < length new \<and> origin s (if k = row then l else k) = Some v \<and>
      k \<in> insert row ?I1 \<and> v \<in> ?D2 \<and> ?new ! k = new ! (if k = row then l else k)"
    proof (cases "k = row")
      case True
      then have "origin s l = Some v" using k by (simp add: mp_def)
      moreover from origin_ok(2) [OF w _ this] l have "v \<in> ?D1" by auto
      ultimately show ?thesis using True l rl by simp
    next
      case False
      then have "k \<noteq> l" "s_map s k = Some v" using k by (auto simp: mp_def split: if_splits)
      then show ?thesis using map_origin [OF w, of k v] r(4) [of k v] False l by (auto simp: nth_butlast)
    qed
  next
    fix j k assume "mp j \<noteq> None" "mp k \<noteq> None" "(if j = row then l else j) = (if k = row then l else k)"
    then show "j = k" using row by (auto simp: mp_def split: if_splits)
  qed
  moreover have "s_del (spec_move_over row l s) = ?D2" "s_ins (spec_move_over row l s) = insert row ?I1"
    "s_moves (spec_move_over row l s) = []"
    using rec f r(5) by (auto simp: spec_move_over_def Let_def)
  ultimately show ?thesis using t mp by (simp add: wf_rows_def wf_changes_def describes_def rows_moves_ok)
qed

lemma spec_move_over_last_wf:
  assumes w: "wf_rows old new s" and l: "length new = Suc l"
  shows "wf_rows old (butlast new) (spec_move_over_last l s)"
proof -
  let ?D = "s_del s" and ?I = "s_ins s"
  let ?D1 = "if l \<in> ?I then ?D else insert l ?D" and ?I1 = "?I - {l}"
  note r = rows_bounds [OF w]
  note b = tracks_aligned_butlast [OF r(1,2) l]
  have "unbump l ` ?I1 = ?I1" using wf_bounds(2) [OF r(1)] l by (force simp: unbump_def image_iff)
  moreover have "recorded ?I ?D l = ?D1" using aligned_recorded [OF r(1,2), of l] l by simp
  moreover have "map_ok old (butlast new) ?D1 ?I1 ((s_map s)(l := None))"
  proof (rule map_ok_origins [OF w, where f = "\<lambda>k. k"])
    fix k v assume k: "((s_map s)(l := None)) k = Some v"
    then have "k \<noteq> l" "s_map s k = Some v" by (auto split: if_splits)
    then show "k < length new \<and> origin s k = Some v \<and> k \<in> ?I1 \<and> v \<in> ?D1 \<and> butlast new ! k = new ! k"
      using map_origin [OF w, of k v] r(4) [of k v] l by (auto simp: nth_butlast)
  qed
  ultimately show ?thesis using b r(5)
    by (simp add: wf_rows_def wf_changes_def describes_def rows_moves_ok spec_move_over_last_def)
qed

definition swapped :: "size_t \<Rightarrow> size_t \<Rightarrow> 'a list \<Rightarrow> 'a list" where
  "swapped i j xs = xs[i := xs ! j, j := xs ! i]"

lemma spec_swap_wf:
  assumes w: "wf_rows old new s" and ij: "i < j" "j < length new"
  shows "wf_rows old (swapped i j new) (spec_swap i j s)"
proof -
  let ?D = "s_del s" and ?I = "s_ins s" and ?new = "swapped i j new"
  let ?D1 = "if j \<in> ?I then ?D else insert j ?D" and ?I1 = "insert j ?I"
  let ?D2 = "if i \<in> ?I then ?D1 else insert i ?D1" and ?I2 = "insert i ?I1"
  note r = rows_bounds [OF w]
  note t1 = tracks_aligned_replace [OF r(1,2) ij(2), of "new ! i"]
  have i1: "i < length (new[j := new ! i])" using ij by simp
  have t: "tracks old ?new ?D2 ?I2" "aligned old ?new ?D2 ?I2"
    using tracks_aligned_replace [OF t1 i1, of "new ! j"] ij by (simp_all add: swapped_def list_update_swap)
  have fj: "shift_in ?D (unshift_in ?I j) = j" if "j \<notin> ?I" using aligned_position(3) [OF r(1,2) ij(2) that] .
  have fi: "shift_in ?D (unshift_in ?I i) = i" if "i \<notin> ?I" using aligned_position(3) [OF r(1,2) _ that] ij by simp
  have fi1: "shift_in (insert j ?D) (unshift_in (insert j ?I) i) = i" if "i \<notin> ?I" "j \<notin> ?I"
    using aligned_position(3) [OF t1 i1] that ij by simp
  define mp where "mp = (\<lambda>k. if k = i then origin s j else if k = j then origin s i else s_map s k)"
  have dom: "k \<in> ?I" if "s_map s k = Some v" for k v using r(4) [OF that] by simp
  have s: "s_map (spec_swap i j s) = mp \<and> s_del (spec_swap i j s) = ?D2 \<and> s_ins (spec_swap i j s) = ?I2 \<and>
    s_moves (spec_swap i j s) = []"
  proof (cases "s_map s i"; cases "s_map s j")
    assume "s_map s i = None" "s_map s j = None"
    then show ?thesis using ij fi fj fi1 r(5)
      by (cases "i \<in> ?I"; cases "j \<in> ?I")
        (auto simp: spec_swap_def spec_add_swap_def Let_def mp_def origin_def fun_eq_iff)
  next
    fix o2 assume "s_map s i = None" "s_map s j = Some o2"
    then show ?thesis using ij fi dom [of j] r(5)
      by (cases "i \<in> ?I") (auto simp: spec_swap_def spec_add_swap_def Let_def mp_def origin_def fun_eq_iff)
  next
    fix o1 assume "s_map s i = Some o1" "s_map s j = None"
    then show ?thesis using ij fj dom [of i] r(5)
      by (cases "j \<in> ?I") (auto simp: spec_swap_def spec_add_swap_def Let_def mp_def origin_def fun_eq_iff)
  next
    fix o1 o2 assume "s_map s i = Some o1" "s_map s j = Some o2"
    then show ?thesis using ij dom [of i] dom [of j] r(5)
      by (auto simp: spec_swap_def Let_def mp_def origin_def fun_eq_iff)
  qed
  have "map_ok old ?new ?D2 ?I2 mp"
  proof (rule map_ok_origins [OF w, where f = "exchange i j"])
    fix k v assume k: "mp k = Some v"
    have o1: "origin s (exchange i j k) = Some v" "exchange i j k < length new"
      using k ij map_origin [OF w, of k v] by (auto simp: mp_def exchange_def split: if_splits)
    have "v \<in> ?D2" using origin_ok(2) [OF w o1(2,1)] k dom by (auto simp: mp_def exchange_def split: if_splits)
    moreover have "k \<in> ?I2" using k dom by (auto simp: mp_def split: if_splits)
    moreover have "?new ! k = new ! exchange i j k"
      using o1(2) ij by (auto simp: swapped_def exchange_def nth_list_update split: if_splits)
    ultimately show "exchange i j k < length new \<and> origin s (exchange i j k) = Some v \<and> k \<in> ?I2 \<and> v \<in> ?D2 \<and>
      ?new ! k = new ! exchange i j k" using o1 by simp
  next
    fix a b assume "exchange i j a = exchange i j b"
    then show "a = b" by (auto simp: exchange_def split: if_splits)
  qed
  then show ?thesis using t s by (simp add: wf_rows_def wf_changes_def describes_def rows_moves_ok)
qed

section \<open>The end of a transaction\<close>

definition pair_move :: "size_t \<times> size_t \<Rightarrow> mv" where
  "pair_move p = \<lparr>mv_from = snd p, mv_to = fst p\<rparr>"

lemma aligned_unmove:
  assumes t: "tracks old new D I" and a: "aligned old new D I" and v: "v \<in> D" "v \<in> I" "old ! v = new ! v"
  shows "tracks old new (D - {v}) (I - {v})" "aligned old new (D - {v}) (I - {v})"
proof -
  have b: "v < length old" "v < length new" using wf_bounds [OF t] v by auto
  show "tracks old new (D - {v}) (I - {v})"
    using tracks_unmove [OF t v] aligned_unshift [OF a wf_bounds(3,4) [OF t], of v] b by simp
  show "aligned old new (D - {v}) (I - {v})" using a b v by (auto simp: aligned_def)
qed

lemma parse_moves_ok:
  assumes "rep K d D" "rep K e I" "tracks old new D I" "aligned old new D I"
    "\<forall>p \<in> set ps. snd p \<in> D \<and> fst p \<in> I \<and> old ! snd p = new ! fst p"
    "distinct (map fst ps)" "distinct (map snd ps)"
  shows "\<exists>d' e' D' I'. parse_moves K ps d e ms = Some (d', e', ms @ map pair_move (filter (\<lambda>p. fst p \<noteq> snd p) ps)) \<and>
    rep K d' D' \<and> rep K e' I' \<and> tracks old new D' I' \<and>
    (\<forall>p \<in> set (filter (\<lambda>p. fst p \<noteq> snd p) ps). snd p \<in> D' \<and> fst p \<in> I') \<and>
    (\<forall>v. v \<notin> snd ` set ps \<longrightarrow> v \<in> D \<longrightarrow> v \<in> D') \<and> (\<forall>k. k \<notin> fst ` set ps \<longrightarrow> k \<in> I \<longrightarrow> k \<in> I')"
  using assms
proof (induction ps arbitrary: d e D I ms)
  case Nil
  then show ?case by auto
next
  case (Cons p ps)
  have c: "contains d (snd p)" "contains e (fst p)"
    using ixs.mem [OF Cons.prems(1)] ixs.mem [OF Cons.prems(2)] Cons.prems(5) by auto
  show ?case
  proof (cases "fst p = snd p")
    case True
    obtain d1 where d1: "remove K d (snd p) 1 = Some d1" "rep K d1 (D - {snd p})" using ixs.del_one [OF Cons.prems(1)] by blast
    obtain e1 where e1: "remove K e (fst p) 1 = Some e1" "rep K e1 (I - {fst p})" using ixs.del_one [OF Cons.prems(2)] by blast
    have p: "snd p \<in> D" "snd p \<in> I" "old ! snd p = new ! snd p" using Cons.prems(5) True by auto
    note u = aligned_unmove [OF Cons.prems(3,4) p]
    have "\<forall>q \<in> set ps. snd q \<in> D - {snd p} \<and> fst q \<in> I - {snd p} \<and> old ! snd q = new ! fst q"
      using Cons.prems(5-7) True by (auto simp: image_iff)
    from Cons.IH [OF d1(2) e1(2) [unfolded True] u this, of ms] Cons.prems(6,7) obtain d' e' D' I' where
      h: "parse_moves K ps d1 e1 ms = Some (d', e', ms @ map pair_move (filter (\<lambda>p. fst p \<noteq> snd p) ps))"
      "rep K d' D'" "rep K e' I'" "tracks old new D' I'"
      "\<forall>p \<in> set (filter (\<lambda>p. fst p \<noteq> snd p) ps). snd p \<in> D' \<and> fst p \<in> I'"
      "\<forall>v. v \<notin> snd ` set ps \<longrightarrow> v \<in> D - {snd p} \<longrightarrow> v \<in> D'" "\<forall>k. k \<notin> fst ` set ps \<longrightarrow> k \<in> I - {snd p} \<longrightarrow> k \<in> I'" by auto
    have e: "parse_moves K (p # ps) d e ms = parse_moves K ps d1 e1 ms" using c d1(1) e1(1) True by simp
    show ?thesis unfolding e
      by (intro exI [of _ d'] exI [of _ e'] exI [of _ D'] exI [of _ I']) (use h True in auto)
  next
    case False
    from Cons.IH [OF Cons.prems(1-4), of "ms @ [pair_move p]"] Cons.prems(5-7) obtain d' e' D' I' where
      h: "parse_moves K ps d e (ms @ [pair_move p]) = Some (d', e', (ms @ [pair_move p]) @ map pair_move (filter (\<lambda>p. fst p \<noteq> snd p) ps))"
      "rep K d' D'" "rep K e' I'" "tracks old new D' I'"
      "\<forall>p \<in> set (filter (\<lambda>p. fst p \<noteq> snd p) ps). snd p \<in> D' \<and> fst p \<in> I'"
      "\<forall>v. v \<notin> snd ` set ps \<longrightarrow> v \<in> D \<longrightarrow> v \<in> D'" "\<forall>k. k \<notin> fst ` set ps \<longrightarrow> k \<in> I \<longrightarrow> k \<in> I'" by auto
    have e: "parse_moves K (p # ps) d e ms = parse_moves K ps d e (ms @ [pair_move p])"
      using c False by (simp add: pair_move_def)
    have "snd p \<in> D'" "fst p \<in> I'" using h(6,7) Cons.prems(5-7) by auto
    then show ?thesis unfolding e
      by (intro exI [of _ d'] exI [of _ e'] exI [of _ D'] exI [of _ I']) (use h False in auto)
  qed
qed

lemma sort_key_distinct: "distinct (map f (sort_key g xs)) \<longleftrightarrow> distinct (map f xs)"
  by (rule mset_eq_imp_distinct_iff) (simp add: mset_map)

lemma map_of_wf:
  assumes "map_ok old new D I (map_of mm)" "distinct (map fst mm)"
  shows "\<forall>p \<in> set mm. snd p \<in> D \<and> fst p \<in> I \<and> old ! snd p = new ! fst p" "distinct (map snd mm)"
proof -
  have m: "map_of mm (fst p) = Some (snd p)" if "p \<in> set mm" for p
    using assms(2) that by (cases p) simp
  show "\<forall>p \<in> set mm. snd p \<in> D \<and> fst p \<in> I \<and> old ! snd p = new ! fst p"
    using assms(1) m unfolding map_ok_def by blast
  have "inj_on snd (set mm)"
  proof (rule inj_onI)
    fix p q assume pq: "p \<in> set mm" "q \<in> set mm" "snd p = snd q"
    then have "fst p = fst q" using assms(1) m [of p] m [of q] unfolding map_ok_def by metis
    with pq(3) show "p = q" by (simp add: prod_eq_iff)
  qed
  moreover have "distinct mm" using assms(2) by (simp add: distinct_map)
  ultimately show "distinct (map snd mm)" by (simp add: distinct_map)
qed

lemma parse_complete_wf:
  assumes c: "ccb_ok K c" and w: "wf_rows old new (abs_ccb c)"
  shows "\<exists>c'. ccb_parse_complete K c = Some c' \<and> ccb_ok K c' \<and> wf_changes old new (abs_ccb c') \<and>
    move_mapping c' = [] \<and> sorted (map mv_from (moves c')) \<and> (\<forall>m \<in> set (moves c'). mv_from m \<noteq> mv_to m)"
proof -
  let ?mm = "move_mapping c"
  note r = ok_rep [OF c] and b = rows_bounds [OF w]
  have d: "distinct (map fst ?mm)" using c by (simp add: ccb_ok_def)
  have "map_ok old new (s_del (abs_ccb c)) (s_ins (abs_ccb c)) (map_of ?mm)"
    using w by (simp add: wf_rows_def wf_changes_def)
  note mm = map_of_wf [OF this d]
  from parse_moves_ok [OF r(1,2) b(1,2) mm(1) d mm(2), of "moves c"] obtain d' e' D' I' where
    h: "parse_moves K ?mm (deletions c) (insertions c) (moves c) =
        Some (d', e', moves c @ map pair_move (filter (\<lambda>p. fst p \<noteq> snd p) ?mm))"
      "rep K d' D'" "rep K e' I'" "tracks old new D' I'"
      "\<forall>p \<in> set (filter (\<lambda>p. fst p \<noteq> snd p) ?mm). snd p \<in> D' \<and> fst p \<in> I'" by blast
  define ms where "ms = map pair_move (filter (\<lambda>p. fst p \<noteq> snd p) ?mm)"
  have no: "moves c = []" using b(5) by simp
  let ?c = "c\<lparr>deletions := d', insertions := e', moves := sort_key mv_from ms, move_mapping := []\<rparr>"
  have e: "ccb_parse_complete K c = Some ?c" using h(1) no by (simp add: ccb_parse_complete_def ms_def)
  have fts: "map mv_from ms = map snd (filter (\<lambda>p. fst p \<noteq> snd p) ?mm)" "map mv_to ms = map fst (filter (\<lambda>p. fst p \<noteq> snd p) ?mm)"
    by (simp_all add: ms_def pair_move_def)
  have "moves_ok old new D' I' (sort_key mv_from ms)"
    unfolding moves_ok_def sort_key_distinct fts
    using h(5) mm d by (auto simp: ms_def pair_move_def distinct_map_filter)
  then have "wf_changes old new (abs_ccb ?c)"
    using h(2-4) by (auto simp: wf_changes_def describes_def map_ok_def abs_ccb_def rep_def)
  moreover have "ccb_ok K ?c" using c h(2,3) by (simp add: ccb_ok_def rep_def)
  moreover have "\<forall>m \<in> set (moves ?c). mv_from m \<noteq> mv_to m" by (auto simp: ms_def pair_move_def)
  ultimately show ?thesis using e by (auto simp: sorted_sort_key)
qed

end
