(* ===== verification/Change_Merge.thy ===== *)
theory Change_Merge
  imports Change_Rows
begin

text \<open>
  \<open>merge\<close>: the record of two transactions in a row.  The loops over the moves are first read as
  functions on lists of moves (\<open>follow\<close>) that carry the modified flag along; the sets compose by
  \<open>tracks_merge\<close>.
\<close>

section \<open>The number of ranges of a union\<close>

definition starts :: "size_t set \<Rightarrow> size_t set" where
  "starts S = {a \<in> S. \<forall>b. a = Suc b \<longrightarrow> b \<notin> S}"

lemma starts_span: "ranges_ok rs \<Longrightarrow> starts (span rs) = fst ` set rs \<and> length rs = card (fst ` set rs)"
proof (induction rs)
  case (Cons r rs)
  have lt: "fst r < snd r" and later: "\<forall>i \<in> span rs. snd r < i" and nxt: "\<forall>s \<in> set rs. snd r < fst s"
    using Cons.prems span_ge [OF Cons.prems] by (auto simp: ranges_ok_Cons)
  have "starts (span (r # rs)) = insert (fst r) (starts (span rs))"
  proof (intro set_eqI iffI)
    fix a assume a: "a \<in> starts (span (r # rs))"
    show "a \<in> insert (fst r) (starts (span rs))"
    proof (cases "a \<in> span rs")
      case True
      then show ?thesis using a by (auto simp: starts_def)
    next
      case False
      then have "fst r \<le> a" "a < snd r" using a by (auto simp: starts_def)
      then show ?thesis using a by (cases a) (auto simp: starts_def)
    qed
  next
    fix a assume "a \<in> insert (fst r) (starts (span rs))"
    then show "a \<in> starts (span (r # rs))" using lt later by (fastforce simp: starts_def)
  qed
  moreover have "fst r \<notin> fst ` set rs" using nxt lt by fastforce
  ultimately show ?case using Cons by (auto simp: ranges_ok_Cons)
qed (simp add: starts_def)

lemma ranges_of_union:
  assumes "ranges_ok rs" "ranges_ok qs" "span qs = span rs \<union> T" "finite T"
  shows "length qs \<le> length rs + card T"
proof -
  have "starts (span qs) \<subseteq> starts (span rs) \<union> T" unfolding assms(3) by (auto simp: starts_def)
  then have "card (starts (span qs)) \<le> card (starts (span rs) \<union> T)"
    by (intro card_mono) (use assms starts_span [of rs] in auto)
  also have "\<dots> \<le> card (starts (span rs)) + card T" by (rule card_Un_le)
  finally show ?thesis using starts_span assms(1,2) by simp
qed

text \<open>\<open>add_shifted_by\<close> keeps its caches right when no chunk has to be added for a long range.\<close>

definition fits :: "nat \<Rightarrow> index_set \<Rightarrow> nat \<Rightarrow> bool" where
  "fits K d n \<longleftrightarrow>
     (\<forall>r \<in> set (flat d). snd r = Suc (fst r)) \<or> length (flat d) + n \<le> K * (length (flat d) div K + 1)"

lemma rep_add_shifted_by:
  assumes d: "rep K d S" and u: "rep K u U" and v: "rep K v V" and f: "fits K d (card (V - U))"
  shows "\<exists>d'. add_shifted_by K d u v = Some d' \<and> rep K d' (S \<union> shift_in S ` unshift_in U ` (V - U))"
proof -
  have vs: "vec_ok K d" "vec_ok K u" "vec_ok K v" and S: "S = indices d" "U = indices u" "V = indices v"
    using d u v by (simp_all add: rep_def)
  let ?T = "shift_in S ` unshift_in U ` (V - U)"
  from add_shifted_by_indices [OF vs] obtain d' where
    1: "add_shifted_by K d u v = Some d'" "ranges_ok (flat d')" "indices d' = S \<union> ?T"
      "(\<forall>r \<in> set (flat d). snd r = Suc (fst r)) \<or> length (flat d') \<le> K * (length (flat d) div K + 1) \<longrightarrow> vec_ok K d'"
    unfolding S by blast
  have "finite ?T" "card ?T \<le> card (V - U)"
    using card_image_le [of "V - U" "\<lambda>x. shift_in S (unshift_in U x)"] by (simp_all add: S image_image)
  then have "length (flat d') \<le> length (flat d) + card (V - U)"
    using ranges_of_union [of "flat d" "flat d'" ?T] 1(2,3) vs(1) by (fastforce simp: S indices_def)
  then have "vec_ok K d'" using f 1(4) unfolding fits_def by linarith
  then show ?thesis using 1(1,3) by (auto simp: rep_def)
qed

section \<open>Sets of columns\<close>

definition colset :: "ccb \<Rightarrow> nat \<Rightarrow> size_t set" where
  "colset c i = (if i < length (columns c) then indices (columns c ! i) else {})"

definition same_but_cols :: "ccb \<Rightarrow> ccb \<Rightarrow> bool" where
  "same_but_cols b b' \<longleftrightarrow>
     deletions b' = deletions b \<and> insertions b' = insertions b \<and> moves b' = moves b \<and>
     modifications_new b' = modifications_new b \<and> move_mapping b' = move_mapping b \<and> track_columns b' = track_columns b"

text \<open>\<open>F\<close> and \<open>G\<close> say what the pair of sets at each column, and the two sets of modifications, become.\<close>

definition cols_become :: "nat \<Rightarrow> (size_t set \<Rightarrow> size_t set \<Rightarrow> size_t set) \<Rightarrow> (size_t set \<Rightarrow> size_t set \<Rightarrow> size_t set) \<Rightarrow>
    ccb \<Rightarrow> ccb \<Rightarrow> ccb \<Rightarrow> ccb \<Rightarrow> bool" where
  "cols_become K F G b c b' c' \<longleftrightarrow>
     ccb_ok K b' \<and> ccb_ok K c' \<and> same_but_cols b b' \<and> same_but_cols c c' \<and>
     indices (modifications b') = F (indices (modifications b)) (indices (modifications c)) \<and>
     indices (modifications c') = G (indices (modifications b)) (indices (modifications c)) \<and>
     (track_columns b \<longrightarrow> (\<forall>i. colset b' i = F (colset b i) (colset c i) \<and> colset c' i = G (colset b i) (colset c i))) \<and>
     (\<not> track_columns b \<longrightarrow> columns b' = columns b \<and> columns c' = columns c)"

lemma padded_nth:
  assumes "i < n" "length xs \<le> n"
  shows "(xs @ replicate (n - length xs) []) ! i = (if i < length xs then xs ! i else [])"
  using assms by (auto simp: nth_append)

lemma each_col2_become:
  assumes f: "\<And>d e S T. rep K d S \<Longrightarrow> rep K e T \<Longrightarrow> \<exists>d' e'. f d e = Some (d', e') \<and> rep K d' (F S T) \<and> rep K e' (G S T)"
    and e0: "F {} {} = {}" "G {} {} = {}" and b: "ccb_ok K b" and c: "ccb_ok K c"
  shows "\<exists>b' c'. each_col2 f b c = Some (b', c') \<and> cols_become K F G b c b' c'"
proof -
  obtain m m' where m: "f (modifications b) (modifications c) = Some (m, m')"
    "rep K m (F (indices (modifications b)) (indices (modifications c)))"
    "rep K m' (G (indices (modifications b)) (indices (modifications c)))"
    using f [OF ok_rep(3) [OF b] ok_rep(3) [OF c]] by (auto simp: abs_ccb_def)
  show ?thesis
  proof (cases "track_columns b")
    case False
    let ?b = "b\<lparr>modifications := m\<rparr>" and ?c = "c\<lparr>modifications := m'\<rparr>"
    have "each_col2 f b c = Some (?b, ?c)" using False m(1) by (simp add: each_col2_def)
    moreover have "cols_become K F G b c ?b ?c"
      using m(2,3) b c False by (simp add: cols_become_def same_but_cols_def ccb_ok_def rep_def)
    ultimately show ?thesis by blast
  next
    case True
    define n where "n = max (length (columns b)) (length (columns c))"
    define bs where "bs = columns b @ replicate (n - length (columns b)) []"
    define cs where "cs = columns c @ replicate (n - length (columns c)) []"
    have len: "length bs = n" "length cs = n" by (auto simp: bs_def cs_def n_def)
    have vb: "\<forall>s \<in> set bs. vec_ok K s" "\<forall>s \<in> set cs. vec_ok K s"
      using b c rep_Nil [OF ok_rep(4,5) [OF b]] by (auto simp: bs_def cs_def ccb_ok_def rep_def)
    let ?P = "\<lambda>p q. rep K (fst q) (F (indices (fst p)) (indices (snd p))) \<and> rep K (snd q) (G (indices (fst p)) (indices (snd p)))"
    have "\<forall>p \<in> set (zip bs cs). \<exists>q. (case p of (d, e) \<Rightarrow> f d e) = Some q \<and> ?P p q"
    proof
      fix p assume "p \<in> set (zip bs cs)"
      then have "fst p \<in> set bs" "snd p \<in> set cs"
        using set_zip_leftD [of "fst p" "snd p" bs cs] set_zip_rightD [of "fst p" "snd p" bs cs] by simp_all
      then have "rep K (fst p) (indices (fst p))" "rep K (snd p) (indices (snd p))"
        using vb by (simp_all add: rep_def)
      from f [OF this] show "\<exists>q. (case p of (d, e) \<Rightarrow> f d e) = Some q \<and> ?P p q" by (cases p) auto
    qed
    from those_map [OF this] obtain ps where ps: "those (map2 f bs cs) = Some ps" "list_all2 ?P (zip bs cs) ps" by blast
    have lps: "length ps = n" using list_all2_lengthD [OF ps(2)] len by simp
    have pi: "rep K (fst (ps ! i)) (F (colset b i) (colset c i)) \<and> rep K (snd (ps ! i)) (G (colset b i) (colset c i))"
      if "i < n" for i
    proof -
      have "?P (zip bs cs ! i) (ps ! i)" using list_all2_nthD [OF ps(2), of i] that len by simp
      moreover have "zip bs cs ! i = (bs ! i, cs ! i)" using that len by simp
      moreover have "indices (bs ! i) = colset b i" "indices (cs ! i) = colset c i"
        using that by (auto simp: bs_def cs_def colset_def padded_nth n_def)
      ultimately show ?thesis by simp
    qed
    let ?b = "b\<lparr>modifications := m, columns := map fst ps\<rparr>" and ?c = "c\<lparr>modifications := m', columns := map snd ps\<rparr>"
    have e: "each_col2 f b c = Some (?b, ?c)"
      using True m(1) ps(1) by (simp add: each_col2_def Let_def bs_def cs_def n_def)
    have "vec_ok K (fst q) \<and> vec_ok K (snd q)" if q: "q \<in> set ps" for q
    proof -
      obtain i where "i < n" "ps ! i = q" using q lps by (auto simp: in_set_conv_nth)
      then show ?thesis using pi [of i] by (simp add: rep_def)
    qed
    then have ok: "ccb_ok K ?b" "ccb_ok K ?c" using b c m(2,3) by (auto simp: ccb_ok_def rep_def)
    have "colset ?b i = F (colset b i) (colset c i) \<and> colset ?c i = G (colset b i) (colset c i)" for i
    proof (cases "i < n")
      case True
      then show ?thesis using pi [OF True] lps by (simp add: colset_def rep_def)
    next
      case False
      then have "colset b i = {}" "colset c i = {}" by (auto simp: colset_def n_def)
      then show ?thesis using False lps e0 by (simp add: colset_def)
    qed
    then have "cols_become K F G b c ?b ?c"
      using True m(2,3) ok by (simp add: cols_become_def same_but_cols_def rep_def)
    with e show ?thesis by blast
  qed
qed

section \<open>Carrying the modified flag along moves\<close>

definition carry :: "mv list \<Rightarrow> size_t set \<Rightarrow> size_t set \<Rightarrow> size_t set" where
  "carry us S T = T \<union> mv_to ` {m \<in> set us. mv_from m \<in> S}"

abbreviation carried :: "nat \<Rightarrow> mv list \<Rightarrow> ccb \<Rightarrow> ccb \<Rightarrow> ccb \<Rightarrow> ccb \<Rightarrow> bool" where
  "carried K us \<equiv> cols_become K (\<lambda>S T. S) (carry us)"

lemma carry_simps [simp]: "carry [] S T = T" "carry us {} T = T" "carry vs S (carry us S T) = carry (us @ vs) S T"
  by (auto simp: carry_def)

lemma carried_refl: "ccb_ok K b \<Longrightarrow> ccb_ok K c \<Longrightarrow> carried K [] b c b c"
  by (simp add: cols_become_def same_but_cols_def)

lemma carried_trans: "carried K us b c b1 c1 \<Longrightarrow> carried K vs b1 c1 b2 c2 \<Longrightarrow> carried K (us @ vs) b c b2 c2"
  by (auto simp: cols_become_def same_but_cols_def)

lemma copy_modified_carried:
  assumes "ccb_ok K b" "ccb_ok K c"
  shows "\<exists>b' c'. each_col2 (copy_modified K m) b c = Some (b', c') \<and> carried K [m] b c b' c'"
proof (rule each_col2_become [OF _ _ _ assms])
  fix d e S T assume r: "rep K d S" "rep K e T"
  have "carry [m] S T = (if mv_from m \<in> S then insert (mv_to m) T else T)" by (auto simp: carry_def)
  then show "\<exists>d' e'. copy_modified K m d e = Some (d', e') \<and> rep K d' S \<and> rep K e' (carry [m] S T)"
    using ixs.mem [OF r(1), of "mv_from m"] ixs.ins [OF r(2), of "mv_to m"] r
    by (auto simp: copy_modified_def)
qed (simp_all add: carry_def)

lemma copy_moved_carried:
  "ccb_ok K b \<Longrightarrow> ccb_ok K c \<Longrightarrow> \<exists>b' c'. copy_moved_modified K ms b c = Some (b', c') \<and> carried K ms b c b' c'"
proof (induction ms arbitrary: b c)
  case (Cons m ms)
  from copy_modified_carried [OF Cons.prems, of m] obtain b1 c1 where
    1: "each_col2 (copy_modified K m) b c = Some (b1, c1)" "carried K [m] b c b1 c1" by blast
  then have "ccb_ok K b1" "ccb_ok K c1" by (simp_all add: cols_become_def)
  from Cons.IH [OF this] obtain b2 c2 where 2: "copy_moved_modified K ms b1 c1 = Some (b2, c2)" "carried K ms b1 c1 b2 c2" by blast
  show ?case using 1(1) 2(1) carried_trans [OF 1(2) 2(2)] by simp
qed (simp add: carried_refl)

fun follow :: "size_t set \<Rightarrow> size_t set \<Rightarrow> mv list \<Rightarrow> mv list \<Rightarrow> mv list \<times> mv list \<times> mv list" where
  "follow D I [] cms = ([], cms, [])"
| "follow D I (old # ms) cms =
     (let i = length (takeWhile (\<lambda>m. mv_to old \<noteq> mv_from m) cms)
      in if i < length cms
         then let m = cms ! i; (ms', cms', us) = follow D I ms (butlast (cms[i := last cms]))
              in (old\<lparr>mv_to := mv_to m\<rparr> # ms', cms', m # us)
         else if mv_to old \<in> D then follow D I ms cms
         else let (ms', cms', us) = follow D I ms cms
              in (old\<lparr>mv_to := shift_in I (unshift_in D (mv_to old))\<rparr> # ms', cms', us))"

lemma moves_update [simp]:
  "ccb_ok K (c\<lparr>moves := xs\<rparr>) = ccb_ok K c" "colset (c\<lparr>moves := xs\<rparr>) = colset c"
  by (simp_all add: ccb_ok_def colset_def fun_eq_iff)

lemma carried_set_moves:
  assumes "carried K us b (c\<lparr>moves := xs\<rparr>) b' c'"
  shows "\<exists>c0. carried K us b c b' c0 \<and> c' = c0\<lparr>moves := xs\<rparr>"
proof (intro exI conjI)
  show "carried K us b c b' (c'\<lparr>moves := moves c\<rparr>)" using assms by (simp add: cols_become_def same_but_cols_def)
  have "moves c' = xs" using assms by (simp add: cols_become_def same_but_cols_def)
  then show "c' = c'\<lparr>moves := moves c\<rparr>\<lparr>moves := xs\<rparr>" by (cases c') simp
qed

lemma update_old_moves_follow:
  assumes "ccb_ok K b" "ccb_ok K c" "rep K (deletions c) D" "rep K (insertions c) I"
    "follow D I ms (moves c) = (ms', cms', us)"
  shows "\<exists>b' c'. update_old_moves K ms b c = Some (ms', b', c'\<lparr>moves := cms'\<rparr>) \<and> carried K us b c b' c'"
  using assms
proof (induction ms arbitrary: b c ms' cms' us)
  case Nil
  then have "update_old_moves K [] b c = Some (ms', b, c\<lparr>moves := cms'\<rparr>)" "us = []" by simp_all
  then show ?case using carried_refl [OF Nil.prems(1,2)] by blast
next
  case (Cons old ms)
  define i where "i = length (takeWhile (\<lambda>m. mv_to old \<noteq> mv_from m) (moves c))"
  show ?case
  proof (cases "i < length (moves c)")
    case True
    let ?m = "moves c ! i" and ?cms = "butlast ((moves c)[i := last (moves c)])"
    from copy_modified_carried [OF Cons.prems(1,2), of ?m] obtain b1 c1 where
      1: "each_col2 (copy_modified K ?m) b c = Some (b1, c1)" "carried K [?m] b c b1 c1" by blast
    then have eq: "moves c1 = moves c" "deletions c1 = deletions c" "insertions c1 = insertions c" "ccb_ok K b1" "ccb_ok K c1"
      by (simp_all add: cols_become_def same_but_cols_def)
    obtain ms2 us2 where fl: "follow D I ms ?cms = (ms2, cms', us2)" "ms' = old\<lparr>mv_to := mv_to ?m\<rparr> # ms2" "us = ?m # us2"
      using Cons.prems(5) True by (auto simp: Let_def i_def split: prod.splits)
    have "ccb_ok K (c1\<lparr>moves := ?cms\<rparr>)" using eq(5) by (simp add: ccb_ok_def)
    from Cons.IH [of b1 "c1\<lparr>moves := ?cms\<rparr>" ms2 cms' us2, OF eq(4) this] Cons.prems(3,4) fl(1) eq obtain b2 c2 where
      2: "update_old_moves K ms b1 (c1\<lparr>moves := ?cms\<rparr>) = Some (ms2, b2, c2\<lparr>moves := cms'\<rparr>)"
        "carried K us2 b1 (c1\<lparr>moves := ?cms\<rparr>) b2 c2" by auto
    from 2(2) obtain c3 where c3: "carried K us2 b1 c1 b2 c3" "c2 = c3\<lparr>moves := ?cms\<rparr>"
      using carried_set_moves by blast
    have "update_old_moves K (old # ms) b c = Some (ms', b2, c3\<lparr>moves := cms'\<rparr>)"
      using True 1(1) 2(1) c3(2) by (simp add: Let_def i_def [symmetric] eq fl(2))
    then show ?thesis using carried_trans [OF 1(2) c3(1)] fl(3) by auto
  next
    case False
    note mem = ixs.mem [OF Cons.prems(3), of "mv_to old"]
    show ?thesis
    proof (cases "mv_to old \<in> D")
      case True
      then have "follow D I ms (moves c) = (ms', cms', us)" using Cons.prems(5) False by (simp add: Let_def i_def)
      from Cons.IH [OF Cons.prems(1-4) this] True False mem show ?thesis by (simp add: Let_def i_def)
    next
      case out: False
      then obtain ms2 where fl: "follow D I ms (moves c) = (ms2, cms', us)"
        "ms' = old\<lparr>mv_to := shift_in I (unshift_in D (mv_to old))\<rparr> # ms2"
        using Cons.prems(5) False by (auto simp: Let_def i_def split: prod.splits)
      from Cons.IH [OF Cons.prems(1-4) fl(1)] out False mem fl(2) show ?thesis
        by (auto simp: Let_def i_def ixs.up [OF Cons.prems(4)] ixs.down [OF Cons.prems(3)])
    qed
  qed
qed

section \<open>What the followed moves are\<close>

lemma swap_remove:
  assumes "i < length xs"
  shows "mset (butlast (xs[i := last xs])) = mset xs - {#xs ! i#}"
proof (cases xs rule: rev_cases)
  case (snoc ys z)
  show ?thesis
  proof (cases "i = length ys")
    case False
    then have "i < length ys" using assms snoc by simp
    then show ?thesis using snoc by (simp add: list_update_append mset_update nth_append)
  qed (simp add: snoc)
qed (use assms in simp)

lemma swap_remove_set:
  assumes "i < length xs" "distinct (map f xs)"
  shows "set (butlast (xs[i := last xs])) = set xs - {xs ! i}" "distinct (map f (butlast (xs[i := last xs])))"
proof -
  let ?ys = "butlast (xs[i := last xs])"
  note m = swap_remove [OF assms(1)]
  have d: "distinct xs" using assms(2) by (simp add: distinct_map)
  have xs: "mset (xs ! i # ?ys) = mset xs" using m assms(1) by (simp add: insert_DiffM)
  then have "mset (map f (xs ! i # ?ys)) = mset (map f xs)" by (metis mset_map)
  then have "distinct (map f (xs ! i # ?ys))" using assms(2) mset_eq_imp_distinct_iff by blast
  then show "distinct (map f ?ys)" by simp
  have "distinct (xs ! i # ?ys)" using xs d mset_eq_imp_distinct_iff by blast
  moreover have "set (xs ! i # ?ys) = set xs" using xs by (rule mset_eq_setD)
  ultimately show "set ?ys = set xs - {xs ! i}" by auto
qed

lemma takeWhile_first:
  assumes "i = length (takeWhile P xs)"
  shows "i < length xs \<Longrightarrow> \<not> P (xs ! i)" "\<not> i < length xs \<Longrightarrow> \<forall>x \<in> set xs. P x"
proof -
  show "i < length xs \<Longrightarrow> \<not> P (xs ! i)" using nth_length_takeWhile [of P xs] assms by simp
  show "\<not> i < length xs \<Longrightarrow> \<forall>x \<in> set xs. P x"
    unfolding assms by (induction xs) (auto split: if_splits)
qed

definition followed :: "size_t set \<Rightarrow> size_t set \<Rightarrow> mv list \<Rightarrow> mv \<Rightarrow> mv \<Rightarrow> bool" where
  "followed D I cms old m' \<longleftrightarrow>
     mv_from m' = mv_from old \<and>
     ((\<exists>m \<in> set cms. mv_from m = mv_to old \<and> mv_to m' = mv_to m) \<or>
      (\<forall>m \<in> set cms. mv_from m \<noteq> mv_to old) \<and> mv_to old \<notin> D \<and> mv_to m' = shift_in I (unshift_in D (mv_to old)))"

lemma follow_spec:
  assumes "follow D I ms cms = (ms', cms', us)" "distinct (map mv_from cms)" "distinct (map mv_to ms)" "distinct (map mv_from ms)"
  shows "set cms' = {m \<in> set cms. mv_from m \<notin> mv_to ` set ms}" "set us = {m \<in> set cms. mv_from m \<in> mv_to ` set ms}"
    "distinct (map mv_from cms')" "distinct cms'"
    "\<forall>m' \<in> set ms'. \<exists>old \<in> set ms. followed D I cms old m'" "distinct (map mv_from ms')"
proof -
  have "set cms' = {m \<in> set cms. mv_from m \<notin> mv_to ` set ms} \<and> set us = {m \<in> set cms. mv_from m \<in> mv_to ` set ms} \<and>
    distinct (map mv_from cms') \<and> (\<forall>m' \<in> set ms'. \<exists>old \<in> set ms. followed D I cms old m') \<and> distinct (map mv_from ms')"
    using assms
  proof (induction ms arbitrary: cms ms' cms' us)
    case (Cons old ms)
    define i where "i = length (takeWhile (\<lambda>m. mv_to old \<noteq> mv_from m) cms)"
    note first = takeWhile_first [OF i_def]
    note d = Cons.prems(2-4)
    show ?case
    proof (cases "i < length cms")
      case True
      let ?m = "cms ! i" and ?cms = "butlast (cms[i := last cms])"
      have m: "mv_from ?m = mv_to old" "?m \<in> set cms" using first(1) True by auto
      note sr = swap_remove_set [OF True d(1)]
      obtain ms2 us2 where fl: "follow D I ms ?cms = (ms2, cms', us2)" "ms' = old\<lparr>mv_to := mv_to ?m\<rparr> # ms2" "us = ?m # us2"
        using Cons.prems(1) True by (auto simp: Let_def i_def split: prod.splits)
      from Cons.IH [OF fl(1) sr(2)] d have h:
        "set cms' = {m \<in> set ?cms. mv_from m \<notin> mv_to ` set ms}" "set us2 = {m \<in> set ?cms. mv_from m \<in> mv_to ` set ms}"
        "distinct (map mv_from cms')" "\<forall>m' \<in> set ms2. \<exists>old \<in> set ms. followed D I ?cms old m'" "distinct (map mv_from ms2)" by auto
      have only: "n = ?m" if "n \<in> set cms" "mv_from n = mv_to old" for n
      proof -
        have "inj_on mv_from (set cms)" using d(1) by (simp add: distinct_map)
        then show ?thesis using that m inj_onD [of mv_from "set cms" n ?m] by simp
      qed
      have notin: "mv_to old \<notin> mv_to ` set ms" using d(2) by auto
      have "followed D I cms q m'" if "q \<in> set ms" "followed D I ?cms q m'" for q m'
      proof -
        have "mv_to q \<noteq> mv_to old" using that(1) notin by (metis imageI)
        then show ?thesis using that(2) m sr(1) by (auto simp: followed_def)
      qed
      then have "\<forall>m' \<in> set ms2. \<exists>q \<in> set ms. followed D I cms q m'" using h(4) by blast
      moreover have "followed D I cms old (old\<lparr>mv_to := mv_to ?m\<rparr>)" using m by (auto simp: followed_def)
      moreover have "mv_from old \<notin> mv_from ` set ms2" using h(4) d(3) by (fastforce simp: followed_def)
      moreover have "n \<in> set cms' \<longleftrightarrow> n \<in> {n \<in> set cms. mv_from n \<notin> mv_to ` set (old # ms)}" for n
        unfolding h(1) sr(1) using only [of n] m by (cases "n = ?m") auto
      moreover have "n \<in> set us \<longleftrightarrow> n \<in> {n \<in> set cms. mv_from n \<in> mv_to ` set (old # ms)}" for n
        unfolding fl(3) list.set insert_iff h(2) sr(1) using only [of n] m notin by (cases "n = ?m") auto
      ultimately show ?thesis using h(3,5) unfolding fl(2) by (simp only: set_eq_iff) auto
    next
      case False
      have no: "\<forall>m \<in> set cms. mv_from m \<noteq> mv_to old" using first(2) False by auto
      show ?thesis
      proof (cases "mv_to old \<in> D")
        case True
        then have "follow D I ms cms = (ms', cms', us)" using Cons.prems(1) False by (simp add: Let_def i_def)
        from Cons.IH [OF this d(1)] d no show ?thesis by auto
      next
        case out: False
        then obtain ms2 where fl: "follow D I ms cms = (ms2, cms', us)"
          "ms' = old\<lparr>mv_to := shift_in I (unshift_in D (mv_to old))\<rparr> # ms2"
          using Cons.prems(1) False by (auto simp: Let_def i_def split: prod.splits)
        from Cons.IH [OF fl(1) d(1)] d have h:
          "set cms' = {m \<in> set cms. mv_from m \<notin> mv_to ` set ms}" "set us = {m \<in> set cms. mv_from m \<in> mv_to ` set ms}"
          "distinct (map mv_from cms')" "\<forall>m' \<in> set ms2. \<exists>q \<in> set ms. followed D I cms q m'" "distinct (map mv_from ms2)" by auto
        have "followed D I cms old (old\<lparr>mv_to := shift_in I (unshift_in D (mv_to old))\<rparr>)"
          using no out by (simp add: followed_def)
        moreover have "mv_from old \<notin> mv_from ` set ms2" using h(4) d(3) by (fastforce simp: followed_def)
        ultimately show ?thesis using h no fl(2) by auto
      qed
    qed
  qed auto
  then show "set cms' = {m \<in> set cms. mv_from m \<notin> mv_to ` set ms}" "set us = {m \<in> set cms. mv_from m \<in> mv_to ` set ms}"
    "distinct (map mv_from cms')" "distinct cms'"
    "\<forall>m' \<in> set ms'. \<exists>old \<in> set ms. followed D I cms old m'" "distinct (map mv_from ms')"
    by (auto simp: distinct_map)
qed

section \<open>Moves that are no longer moves\<close>

lemma clean_moves_ok:
  assumes "rep K d D" "rep K e I" "tracks old new D I" "moves_ok old new D I ms"
  shows "\<exists>ms' d' e' D' I'. clean_moves K ms d e = Some (ms', d', e') \<and> rep K d' D' \<and> rep K e' I' \<and>
    tracks old new D' I' \<and> moves_ok old new D' I' ms' \<and> set ms' \<subseteq> set ms \<and>
    D - mv_from ` set ms \<subseteq> D' \<and> I - mv_to ` set ms \<subseteq> I'"
  using assms
proof (induction ms arbitrary: d e D I)
  case Nil
  then show ?case by auto
next
  case (Cons m ms)
  note k = rep_count [OF Cons.prems(1)] rep_count [OF Cons.prems(2)]
  have m: "mv_from m \<in> D" "mv_to m \<in> I" "old ! mv_from m = new ! mv_to m" and
    fresh: "mv_from m \<notin> mv_from ` set ms" "mv_to m \<notin> mv_to ` set ms" and rest: "moves_ok old new D I ms"
    using Cons.prems(4) by (auto simp: moves_ok_def)
  have step: "clean_moves K (m # ms) d e =
      (if unshift_in D (mv_from m) \<noteq> unshift_in I (mv_to m)
       then do { (ms', d', e') \<leftarrow> clean_moves K ms d e; Some (m # ms', d', e') }
       else do { d1 \<leftarrow> remove K d (mv_from m) 1; e1 \<leftarrow> remove K e (mv_to m) 1; clean_moves K ms d1 e1 })"
    by (simp add: k unshift_in_def)
  show ?case
  proof (cases "unshift_in D (mv_from m) = unshift_in I (mv_to m)")
    case False
    from Cons.IH [OF Cons.prems(1-3) rest] obtain ms' d' e' D' I' where
      h: "clean_moves K ms d e = Some (ms', d', e')" "rep K d' D'" "rep K e' I'" "tracks old new D' I'"
        "moves_ok old new D' I' ms'" "set ms' \<subseteq> set ms" "D - mv_from ` set ms \<subseteq> D'" "I - mv_to ` set ms \<subseteq> I'" by blast
    have "moves_ok old new D' I' (m # ms')" using h(5-8) m fresh by (auto simp: moves_ok_def)
    moreover have "clean_moves K (m # ms) d e = Some (m # ms', d', e')" unfolding step using False h(1) by simp
    moreover have "set (m # ms') \<subseteq> set (m # ms)" "D - mv_from ` set (m # ms) \<subseteq> D'" "I - mv_to ` set (m # ms) \<subseteq> I'"
      using h(6-8) by auto
    ultimately show ?thesis using h(2-4) by blast
  next
    case True
    obtain d1 where d1: "remove K d (mv_from m) 1 = Some d1" "rep K d1 (D - {mv_from m})" using ixs.del_one [OF Cons.prems(1)] by blast
    obtain e1 where e1: "remove K e (mv_to m) 1 = Some e1" "rep K e1 (I - {mv_to m})" using ixs.del_one [OF Cons.prems(2)] by blast
    have "moves_ok old new (D - {mv_from m}) (I - {mv_to m}) ms" using rest fresh by (auto simp: moves_ok_def image_iff)
    from Cons.IH [OF d1(2) e1(2) tracks_unmove [OF Cons.prems(3) m True] this] obtain ms' d' e' D' I' where
      h: "clean_moves K ms d1 e1 = Some (ms', d', e')" "rep K d' D'" "rep K e' I'" "tracks old new D' I'"
        "moves_ok old new D' I' ms'" "set ms' \<subseteq> set ms"
        "D - {mv_from m} - mv_from ` set ms \<subseteq> D'" "I - {mv_to m} - mv_to ` set ms \<subseteq> I'" by blast
    have "clean_moves K (m # ms) d e = Some (ms', d', e')" unfolding step using True d1(1) e1(1) h(1) by simp
    moreover have "set ms' \<subseteq> set (m # ms)" "D - mv_from ` set (m # ms) \<subseteq> D'" "I - mv_to ` set (m # ms) \<subseteq> I'"
      using h(6-8) by auto
    ultimately show ?thesis using h(2-5) by blast
  qed
qed

section \<open>The moves of the merged record\<close>

lemma shift_in_inj: "finite S \<Longrightarrow> shift_in S a = shift_in S b \<Longrightarrow> a = b"
  by (metis shift_in_spec)

lemma mv_eqI: "mv_from m = mv_from n \<Longrightarrow> mv_to m = mv_to n \<Longrightarrow> m = n" for m n :: mv
  by (cases m; cases n) simp

lemma shifted_row:
  assumes t: "tracks mid new D I" and k: "k < length mid" "k \<notin> D"
  shows "new ! shift_in I (unshift_in D k) = mid ! k" "shift_in I (unshift_in D k) \<notin> I"
proof -
  have t': "tracks new mid I D" using t by (auto simp: tracks_def)
  show "new ! shift_in I (unshift_in D k) = mid ! k" by (rule recorded_keep(4) [OF t' k])
  show "shift_in I (unshift_in D k) \<notin> I" using shift_in_spec wf_bounds(4) [OF t] by blast
qed

definition retarget :: "size_t set \<Rightarrow> size_t set \<Rightarrow> mv \<Rightarrow> mv" where
  "retarget D I m = m\<lparr>mv_from := shift_in D (unshift_in I (mv_from m))\<rparr>"

lemma merged_moves_ok:
  assumes t: "tracks old mid D I" "tracks mid new Dc Ic" and m: "moves_ok old mid D I ms0" "moves_ok mid new Dc Ic cs"
    and f: "follow Dc Ic ms0 cs = (ms, cms, us)"
  shows "moves_ok old new (D \<union> shift_in D ` unshift_in I ` (Dc - I)) (shift_in Ic ` unshift_in Dc ` (I - Dc) \<union> Ic)
    (ms @ map (retarget D I) (filter (\<lambda>m. mv_from m \<notin> I) cms))"
proof -
  let ?D = "D \<union> shift_in D ` unshift_in I ` (Dc - I)" and ?I = "shift_in Ic ` unshift_in Dc ` (I - Dc) \<union> Ic"
  let ?c2 = "filter (\<lambda>m. mv_from m \<notin> I) cms"
  have dm: "distinct (map mv_from ms0)" "distinct (map mv_to ms0)" "distinct (map mv_from cs)" "distinct (map mv_to cs)"
    using m by (simp_all add: moves_ok_def)
  note fs = follow_spec [OF f dm(3,2,1)]
  note b1 = wf_bounds [OF t(1)] and b2 = wf_bounds [OF t(2)]
  have old0: "mv_from o1 \<in> D \<and> mv_to o1 \<in> I \<and> old ! mv_from o1 = mid ! mv_to o1" if "o1 \<in> set ms0" for o1
    using m(1) that by (auto simp: moves_ok_def)
  have cs0: "mv_from c \<in> Dc \<and> mv_to c \<in> Ic \<and> mid ! mv_from c = new ! mv_to c" if "c \<in> set cs" for c
    using m(2) that by (auto simp: moves_ok_def)
  have inj: "o1 = o2" if "o1 \<in> set ms0" "o2 \<in> set ms0" "mv_to o1 = mv_to o2" for o1 o2
    using dm(2) that by (auto simp: distinct_map inj_on_def)
  have injc: "c1 = c2" if "c1 \<in> set cs" "c2 \<in> set cs" "mv_to c1 = mv_to c2" for c1 c2
    using dm(4) that by (auto simp: distinct_map inj_on_def)
  have ms: "mv_from m' \<in> ?D \<and> mv_to m' \<in> ?I \<and> old ! mv_from m' = new ! mv_to m'" if m': "m' \<in> set ms" for m'
  proof -
    from fs(5) m' obtain o1 where o1: "o1 \<in> set ms0" "followed Dc Ic cs o1 m'" by blast
    note q = old0 [OF o1(1)]
    from o1(2) consider c where "c \<in> set cs" "mv_from c = mv_to o1" "mv_to m' = mv_to c" "mv_from m' = mv_from o1"
      | "mv_to o1 \<notin> Dc" "mv_to m' = shift_in Ic (unshift_in Dc (mv_to o1))" "mv_from m' = mv_from o1"
      unfolding followed_def by blast
    then show ?thesis
    proof cases
      case 1
      then show ?thesis using q cs0 [OF 1(1)] by simp
    next
      case 2
      then show ?thesis using q shifted_row(1) [OF t(2) _ 2(1)] b1(2) by auto
    qed
  qed
  have c2: "mv_from m' \<in> ?D \<and> mv_from m' \<notin> D \<and> mv_to m' \<in> ?I \<and> old ! mv_from m' = new ! mv_to m'"
    if m': "m' \<in> set (map (retarget D I) ?c2)" for m'
  proof -
    from m' obtain c where c: "c \<in> set cs" "mv_from c \<notin> I" "m' = retarget D I c" using fs(1) by auto
    note q = cs0 [OF c(1)]
    have "old ! shift_in D (unshift_in I (mv_from c)) = mid ! mv_from c"
      using recorded_keep(4) [OF t(1) b2(1)] q c(2) by blast
    then show ?thesis using q c shift_in_spec [OF b1(3)] by (auto simp: retarget_def)
  qed
  have "inj_on mv_to (set ms)"
  proof (rule inj_onI)
    fix m1 m2 assume a: "m1 \<in> set ms" "m2 \<in> set ms" "mv_to m1 = mv_to m2"
    from fs(5) a obtain o1 o2 where o: "o1 \<in> set ms0" "followed Dc Ic cs o1 m1" "o2 \<in> set ms0" "followed Dc Ic cs o2 m2" by blast
    have "mv_to o1 = mv_to o2"
    proof (cases "\<exists>c \<in> set cs. mv_from c = mv_to o1")
      case True
      then obtain c where c: "c \<in> set cs" "mv_from c = mv_to o1" "mv_to m1 = mv_to c" using o(2) unfolding followed_def by blast
      show ?thesis
      proof (cases "\<exists>c \<in> set cs. mv_from c = mv_to o2")
        case True
        then obtain d where "d \<in> set cs" "mv_from d = mv_to o2" "mv_to m2 = mv_to d" using o(4) unfolding followed_def by blast
        then show ?thesis using injc [OF c(1), of d] c a(3) by simp
      next
        case False
        then have "mv_to m2 \<notin> Ic" using o(3,4) old0 b1(2) shifted_row(2) [OF t(2)] unfolding followed_def by metis
        then show ?thesis using cs0 [OF c(1)] c(3) a(3) by simp
      qed
    next
      case False
      then have s1: "mv_to o1 \<notin> Dc" "mv_to m1 = shift_in Ic (unshift_in Dc (mv_to o1))" using o(2) unfolding followed_def by blast+
      then have n: "mv_to m1 \<notin> Ic" using shift_in_spec [OF b2(4)] by simp
      show ?thesis
      proof (cases "\<exists>c \<in> set cs. mv_from c = mv_to o2")
        case True
        then show ?thesis using o(4) cs0 n a(3) unfolding followed_def by metis
      next
        case False
        then have "mv_to o2 \<notin> Dc" "mv_to m2 = shift_in Ic (unshift_in Dc (mv_to o2))" using o(4) unfolding followed_def by blast+
        then show ?thesis using s1 a(3) shift_in_inj [OF b2(4)] unshift_in_inj by metis
      qed
    qed
    then have "o1 = o2" using inj o by blast
    then have "mv_from m1 = mv_from m2" using o(2,4) unfolding followed_def by metis
    then show "m1 = m2" using a(3) by (rule mv_eqI)
  qed
  moreover have "distinct ms" using fs(6) by (simp add: distinct_map)
  ultimately have tos: "distinct (map mv_to ms)" by (simp add: distinct_map)
  have tos2: "distinct (map mv_to (map (retarget D I) ?c2))"
  proof -
    have "map mv_to (map (retarget D I) ?c2) = map mv_to ?c2" by (simp add: retarget_def)
    moreover have "distinct (map mv_to ?c2)" using injc fs(1,4) by (auto simp: distinct_map intro!: inj_onI)
    ultimately show ?thesis by metis
  qed
  have froms2: "distinct (map mv_from (map (retarget D I) ?c2))"
  proof -
    have e: "map mv_from (map (retarget D I) ?c2) = map (\<lambda>m. shift_in D (unshift_in I (mv_from m))) ?c2"
      by (simp add: retarget_def)
    have "inj_on mv_from (set cms)" using fs(3) by (simp add: distinct_map)
    have "inj_on (\<lambda>m. shift_in D (unshift_in I (mv_from m))) (set ?c2)"
    proof (rule inj_onI)
      fix a b assume ab: "a \<in> set ?c2" "b \<in> set ?c2" "shift_in D (unshift_in I (mv_from a)) = shift_in D (unshift_in I (mv_from b))"
      then have "mv_from a = mv_from b" using shift_in_inj [OF b1(3) ab(3)] unshift_in_inj [of "mv_from a" I "mv_from b"] by simp
      then show "a = b" using ab(1,2) \<open>inj_on mv_from (set cms)\<close> by (simp add: inj_on_def)
    qed
    then show ?thesis unfolding e using fs(4) by (simp add: distinct_map)
  qed
  have cross: "mv_to m1 \<noteq> mv_to m2" if "m1 \<in> set ms" "m2 \<in> set ?c2" for m1 m2
  proof
    assume e: "mv_to m1 = mv_to m2"
    have m2: "m2 \<in> set cs" "mv_from m2 \<notin> mv_to ` set ms0" using that(2) fs(1) by auto
    from fs(5) that(1) obtain o1 where o: "o1 \<in> set ms0" "followed Dc Ic cs o1 m1" by blast
    show False
    proof (cases "\<exists>c \<in> set cs. mv_from c = mv_to o1")
      case True
      then obtain c where c: "c \<in> set cs" "mv_from c = mv_to o1" "mv_to m1 = mv_to c" using o(2) unfolding followed_def by blast
      have "c = m2" by (rule injc [OF c(1) m2(1)]) (simp add: e c(3) [symmetric])
      then show False using c(2) m2(2) o(1) by simp
    next
      case False
      then have "mv_to m1 = shift_in Ic (unshift_in Dc (mv_to o1))" using o(2) unfolding followed_def by blast
      then have "mv_to m1 \<notin> Ic" using shift_in_spec [OF b2(4)] by simp
      then show False using cs0 [OF m2(1)] e by simp
    qed
  qed
  have "mv_from m1 \<in> D" if "m1 \<in> set ms" for m1 using fs(5) that old0 unfolding followed_def by metis
  then have "mv_from ` set ms \<inter> mv_from ` set (map (retarget D I) ?c2) = {}" using c2 by fastforce
  then have froms: "distinct (map mv_from (ms @ map (retarget D I) ?c2))"
    using fs(6) froms2 by (simp only: map_append distinct_append set_map)
  have "mv_to ` set (map (retarget D I) ?c2) = mv_to ` set ?c2" by (simp add: retarget_def image_image)
  moreover have "mv_to ` set ms \<inter> mv_to ` set ?c2 = {}" using cross by (auto simp only: disjoint_iff image_iff)
  ultimately have "distinct (map mv_to (ms @ map (retarget D I) ?c2))"
    using tos tos2 by (simp only: map_append distinct_append set_map)
  moreover have "mv_from m \<in> ?D \<and> mv_to m \<in> ?I \<and> old ! mv_from m = new ! mv_to m" if "m \<in> set (ms @ map (retarget D I) ?c2)" for m
    using that ms [of m] c2 [of m] by (simp only: set_append Un_iff) blast
  ultimately show ?thesis unfolding moves_ok_def using froms by blast
qed

section \<open>The merged record\<close>

lemma unshift_in_empty [simp]: "unshift_in {} i = i"
  by (simp add: unshift_in_def rank_def)

lemma follow_idle: "follow {} {} ms [] = (ms, [], [])"
  by (induction ms) simp_all

lemma retarget_idle: "retarget {} {} = (\<lambda>m. m)"
  by (simp add: fun_eq_iff retarget_def)

lemma merge_follow:
  assumes b: "ccb_ok K b" "ccb_ok K c" "rep K (deletions c) Dc" "rep K (insertions c) Ic"
    and f: "follow Dc Ic (moves b) (moves c) = (ms, cms, us)"
  shows "\<exists>b1 c1. (if moves c \<noteq> [] \<or> deletions c \<noteq> [] \<or> insertions c \<noteq> []
      then update_old_moves K (moves b) b c else Some (moves b, b, c)) = Some (ms, b1, c1\<lparr>moves := cms\<rparr>) \<and>
    carried K us b c b1 c1"
proof (cases "moves c \<noteq> [] \<or> deletions c \<noteq> [] \<or> insertions c \<noteq> []")
  case True
  then show ?thesis using update_old_moves_follow [OF assms] by simp
next
  case False
  then have "Dc = {}" "Ic = {}" using rep_Nil_iff b(3,4) by blast+
  then have "ms = moves b" "cms = moves c" "us = []" using f False follow_idle [of "moves b"] by auto
  moreover have "c = c\<lparr>moves := moves c\<rparr>" by simp
  ultimately show ?thesis using False carried_refl [OF b(1,2)] by (intro exI [of _ b] exI [of _ c]) simp
qed

lemma merge_copy:
  assumes b: "ccb_ok K b" "ccb_ok K c" and cols: "\<And>i. colset b i \<subseteq> indices (modifications b)"
  shows "\<exists>b' c'. (if modifications b \<noteq> [] \<and> ms \<noteq> [] then copy_moved_modified K ms b c else Some (b, c)) = Some (b', c') \<and>
    carried K ms b c b' c'"
proof (cases "modifications b \<noteq> [] \<and> ms \<noteq> []")
  case True
  then show ?thesis using copy_moved_carried [OF b] by simp
next
  case False
  have "carried K ms b c b c"
  proof (cases "ms = []")
    case True
    then show ?thesis using carried_refl [OF b] by simp
  next
    case 2: False
    then have "indices (modifications b) = {}" using False by simp
    then have "colset b i = {}" for i using cols by blast
    then show ?thesis using b \<open>indices (modifications b) = {}\<close> by (simp add: cols_become_def same_but_cols_def)
  qed
  then show ?thesis using False by auto
qed

definition merged_mods :: "cspec \<Rightarrow> cspec \<Rightarrow> size_t set \<Rightarrow> size_t set \<Rightarrow> size_t set" where
  "merged_mods s t S T = shift_in (s_ins t) ` unshift_in (s_del t) ` (S - s_del t) \<union>
     carry (filter (\<lambda>m. mv_from m \<notin> s_ins s \<or> mv_from m \<in> mv_to ` set (s_moves s)) (s_moves t)) S T"

lemma merge_cols:
  assumes b: "ccb_ok K b" "ccb_ok K c" and d: "rep K d D" "rep K i I"
  shows "\<exists>b' c'. each_col2 (merge_col K d i) b c = Some (b', c') \<and>
    cols_become K (\<lambda>S T. shift_in I ` unshift_in D ` (S - D) \<union> T) (\<lambda>S T. T) b c b' c'"
proof (rule each_col2_become [OF _ _ _ b])
  fix x y S T assume r: "rep K x S" "rep K y T"
  show "\<exists>x' y'. merge_col K d i x y = Some (x', y') \<and> rep K x' (shift_in I ` unshift_in D ` (S - D) \<union> T) \<and> rep K y' T"
    using rep_add_set [OF rep_shift_set [OF rep_erase_set [OF r(1) d(1)] d(2)] r(2)] r(2)
    by (auto simp: merge_col_def)
qed simp_all

lemma indices_abs: "s_del (abs_ccb c) = indices (deletions c)" "s_ins (abs_ccb c) = indices (insertions c)"
  "s_mod (abs_ccb c) = indices (modifications c)"
  by (simp_all add: abs_ccb_def)

lemma merge_main:
  assumes b: "ccb_ok K b" and c: "ccb_ok K c"
    and wb: "wf_changes old mid (abs_ccb b)" and wc: "wf_changes mid new (abs_ccb c)"
    and mp: "move_mapping b = []" "move_mapping c = []"
    and cols: "\<And>i. colset b i \<subseteq> indices (modifications b)"
    and fit: "fits K (deletions b) (card (s_del (abs_ccb c) - s_ins (abs_ccb b)))"
    and ne: "\<not> change_set_empty b" "\<not> change_set_empty c"
  shows "\<exists>r. ccb_merge K b c = Some r \<and> ccb_ok K r \<and> wf_changes old new (abs_ccb r) \<and> track_columns r = track_columns b \<and>
    indices (modifications r) = merged_mods (abs_ccb b) (abs_ccb c) (indices (modifications b)) (indices (modifications c)) \<and>
    (track_columns b \<longrightarrow> (\<forall>i. colset r i = merged_mods (abs_ccb b) (abs_ccb c) (colset b i) (colset c i)))"
proof -
  define D I Dc Ic where sets: "D = s_del (abs_ccb b)" "I = s_ins (abs_ccb b)" "Dc = s_del (abs_ccb c)" "Ic = s_ins (abs_ccb c)"
  have t: "tracks old mid D I" "tracks mid new Dc Ic"
    and m: "moves_ok old mid D I (moves b)" "moves_ok mid new Dc Ic (moves c)"
    using wb wc by (simp_all add: wf_changes_def describes_def sets)
  have rb: "rep K (deletions b) D" "rep K (insertions b) I" and rc: "rep K (deletions c) Dc" "rep K (insertions c) Ic"
    using ok_rep [OF b] ok_rep [OF c] by (simp_all add: sets)
  obtain ms cms us where f: "follow Dc Ic (moves b) (moves c) = (ms, cms, us)" by (metis prod_cases3)
  have dm: "distinct (map mv_from (moves c))" "distinct (map mv_to (moves b))" "distinct (map mv_from (moves b))"
    using m by (simp_all add: moves_ok_def)
  note fs = follow_spec [OF f dm]
  from merge_follow [OF b c rc f] obtain b1 c1 where
    1: "(if moves c \<noteq> [] \<or> deletions c \<noteq> [] \<or> insertions c \<noteq> []
        then update_old_moves K (moves b) b c else Some (moves b, b, c)) = Some (ms, b1, c1\<lparr>moves := cms\<rparr>)"
      "carried K us b c b1 c1" by blast
  let ?c1 = "c1\<lparr>moves := cms\<rparr>" and ?cms = "filter (\<lambda>m. mv_from m \<notin> I) cms"
  have s1: "same_but_cols b b1" "same_but_cols c c1" "ccb_ok K b1" "ccb_ok K ?c1"
    using 1(2) by (simp_all add: cols_become_def)
  have 2: "(if insertions b1 \<noteq> [] \<and> moves ?c1 \<noteq> []
      then filter (\<lambda>m. \<not> contains (insertions b1) (mv_from m)) (moves ?c1) else moves ?c1) = ?cms"
    using s1(1) rep_Nil_iff [OF rb(2)] by (auto simp: same_but_cols_def ixs.mem [OF rb(2)])
  have cols1: "colset b1 i \<subseteq> indices (modifications b1)" for i
  proof -
    have "indices (modifications b1) = indices (modifications b)" using 1(2) by (simp add: cols_become_def)
    moreover have "colset b1 i = colset b i"
      using 1(2) by (cases "track_columns b") (auto simp: cols_become_def colset_def)
    ultimately show ?thesis using cols by simp
  qed
  from merge_copy [OF s1(3,4) cols1, of ?cms] obtain b2 c2 where
    3: "(if modifications b1 \<noteq> [] \<and> ?cms \<noteq> [] then copy_moved_modified K ?cms b1 ?c1 else Some (b1, ?c1)) = Some (b2, c2)"
      "carried K ?cms b1 ?c1 b2 c2" by blast
  have s2: "same_but_cols b b2" "deletions c2 = deletions c" "insertions c2 = insertions c" "ccb_ok K b2" "ccb_ok K c2"
    using 3(2) s1 by (auto simp: cols_become_def same_but_cols_def)
  have db: "deletions b2 = deletions b" "insertions b2 = insertions b" using s2(1) by (simp_all add: same_but_cols_def)
  have 4: "(if deletions b2 \<noteq> [] \<or> insertions b2 \<noteq> []
      then map (\<lambda>m. m\<lparr>mv_from := shift (deletions b2) (unshift (insertions b2) (mv_from m))\<rparr>) ?cms else ?cms)
      = map (retarget D I) ?cms"
  proof (cases "deletions b2 \<noteq> [] \<or> insertions b2 \<noteq> []")
    case True
    then show ?thesis by (simp add: db ixs.up [OF rb(1)] ixs.down [OF rb(2)] retarget_def)
  next
    case False
    then have "D = {}" "I = {}" using rep_Nil_iff rb by (auto simp: db)
    then show ?thesis using False by (simp add: retarget_idle)
  qed
  let ?D = "D \<union> shift_in D ` unshift_in I ` (Dc - I)" and ?I = "shift_in Ic ` unshift_in Dc ` (I - Dc) \<union> Ic"
  from rep_add_shifted_by [OF rb rc(1)] fit obtain del where
    5: "add_shifted_by K (deletions b) (insertions b) (deletions c) = Some del" "rep K del ?D" by (auto simp: sets)
  define ins where "ins = insert_at_set K (erase_at_set K (insertions b) (deletions c)) (insertions c)"
  have 6: "rep K ins ?I" unfolding ins_def by (rule rep_insert_set [OF rep_erase_set [OF rb(2) rc(1)] rc(2)])
  note t' = tracks_merge [OF t] and m' = merged_moves_ok [OF t m f]
  have "\<exists>ms' d' e' D' I'. clean_moves K (ms @ map (retarget D I) ?cms) del ins = Some (ms', d', e') \<and> rep K d' D' \<and>
      rep K e' I' \<and> tracks old new D' I' \<and> moves_ok old new D' I' ms'"
    using clean_moves_ok [OF 5(2) 6 t' m'] by (elim exE conjE) (intro exI conjI)
  then obtain ms' del' ins' D' I' where
    7: "clean_moves K (ms @ map (retarget D I) ?cms) del ins = Some (ms', del', ins')" "rep K del' D'" "rep K ins' I'"
      "tracks old new D' I'" "moves_ok old new D' I' ms'" by (elim exE conjE)
  define b3 where "b3 = b2\<lparr>moves := ms', deletions := del', insertions := ins'\<rparr>"
  have 8: "clean_up_stale_moves K (b2\<lparr>moves := ms @ map (retarget D I) ?cms, deletions := del, insertions := ins\<rparr>) = Some b3"
    using 7(1) by (simp add: clean_up_stale_moves_def b3_def)
  have ok3: "ccb_ok K b3" using s2(4) 7(2,3) by (simp add: b3_def ccb_ok_def rep_def)
  from merge_cols [OF ok3 s2(5) rc] obtain b4 c4 where
    9: "each_col2 (merge_col K (deletions c) (insertions c)) b3 c2 = Some (b4, c4)"
      "cols_become K (\<lambda>S T. shift_in Ic ` unshift_in Dc ` (S - Dc) \<union> T) (\<lambda>S T. T) b3 c2 b4 c4" by blast
  have s4: "deletions b4 = del'" "insertions b4 = ins'" "moves b4 = ms'" "move_mapping b4 = []" "ccb_ok K b4"
    "track_columns b4 = track_columns b"
    using 9(2) s2(1) mp by (simp_all add: cols_become_def same_but_cols_def b3_def)
  have 10: "ccb_verify b4"
    using 7(5) by (simp add: ccb_verify_def list_all_iff s4 ixs.mem [OF 7(2)] ixs.mem [OF 7(3)] moves_ok_def)
  have ok: "change_set_empty c = False" "change_set_empty b = False" "ccb_verify b" "ccb_verify c"
    using ne m by (auto simp: ccb_verify_def list_all_iff ixs.mem [OF rb(1)] ixs.mem [OF rb(2)] ixs.mem [OF rc(1)] ixs.mem [OF rc(2)] moves_ok_def)
  have "ccb_merge K b c = Some b4"
    unfolding ccb_merge_def 1(1)
    by (simp only: ok if_False if_True not_False_eq_True simp_thms bind.bind_lunit option.case prod.case Let_def 2 3(1) 4 s2(2,3))
      (simp only: db 5(1) bind.bind_lunit ins_def [symmetric] 8 9(1) prod.case 10 if_True)
  moreover have "wf_changes old new (abs_ccb b4)"
    using 7(2-5) s4 by (simp add: wf_changes_def describes_def map_ok_def abs_ccb_def rep_def)
  moreover have tos: "carry ?cms S (carry us S T) = carry (filter (\<lambda>m. mv_from m \<notin> I \<or> mv_from m \<in> mv_to ` set (moves b)) (moves c)) S T" for S T
    using fs(1,2) by (auto simp: carry_def)
  moreover have "indices (modifications b4) =
      merged_mods (abs_ccb b) (abs_ccb c) (indices (modifications b)) (indices (modifications c))"
  proof -
    have "indices (modifications c2) = carry ?cms (indices (modifications b)) (carry us (indices (modifications b)) (indices (modifications c)))"
      using 1(2) 3(2) by (simp add: cols_become_def)
    moreover have "indices (modifications b3) = indices (modifications b)" using 1(2) 3(2) by (simp add: cols_become_def b3_def)
    ultimately show ?thesis using 9(2) unfolding merged_mods_def tos by (simp add: cols_become_def sets)
  qed
  moreover have "colset b4 i = merged_mods (abs_ccb b) (abs_ccb c) (colset b i) (colset c i)" if tr: "track_columns b" for i
  proof -
    have tr': "track_columns b1" "track_columns b3" using tr s1(1) s2(1) by (simp_all add: same_but_cols_def b3_def)
    have "colset c2 i = carry ?cms (colset b i) (carry us (colset b i) (colset c i))"
      using 1(2) 3(2) tr tr' by (simp add: cols_become_def)
    moreover have "colset b3 i = colset b2 i" by (simp add: b3_def colset_def)
    moreover have "colset b2 i = colset b i" using 1(2) 3(2) tr tr' by (simp add: cols_become_def)
    ultimately show ?thesis using 9(2) tr' unfolding merged_mods_def tos by (simp add: cols_become_def sets)
  qed
  ultimately show ?thesis using s4(5,6) by blast
qed

text \<open>The two early returns.\<close>

lemma tracks_empty: "tracks old new {} {} \<Longrightarrow> old = new"
  by (simp add: tracks_def)

lemma empty_sets:
  assumes "change_set_empty c"
  shows "s_del (abs_ccb c) = {}" "s_ins (abs_ccb c) = {}" "indices (modifications c) = {}" "moves c = []"
  using assms by (auto simp: change_set_empty_def abs_ccb_def)

lemma merge_correct:
  assumes b: "ccb_ok K b" and c: "ccb_ok K c"
    and wb: "wf_changes old mid (abs_ccb b)" and wc: "wf_changes mid new (abs_ccb c)"
    and mp: "move_mapping b = []" "move_mapping c = []"
    and cols: "\<And>i. colset b i \<subseteq> indices (modifications b)"
    and fit: "fits K (deletions b) (card (s_del (abs_ccb c) - s_ins (abs_ccb b)))"
  shows "\<exists>r. ccb_merge K b c = Some r \<and> ccb_ok K r \<and> wf_changes old new (abs_ccb r) \<and>
    indices (modifications r) = merged_mods (abs_ccb b) (abs_ccb c) (indices (modifications b)) (indices (modifications c))"
proof -
  consider "change_set_empty c" | "change_set_empty b" "\<not> change_set_empty c" | "\<not> change_set_empty b" "\<not> change_set_empty c" by blast
  then show ?thesis
  proof cases
    case 1
    note e = empty_sets [OF 1]
    have "mid = new" using wc e by (intro tracks_empty) (simp add: wf_changes_def describes_def)
    then show ?thesis using 1 b wb e by (simp add: ccb_merge_def merged_mods_def)
  next
    case 2
    note e = empty_sets [OF 2(1)]
    have "old = mid" using wb e by (intro tracks_empty) (simp add: wf_changes_def describes_def)
    then show ?thesis using 2 c wc e by (simp add: ccb_merge_def merged_mods_def)
  next
    case 3
    from merge_main [OF b c wb wc mp cols fit 3] show ?thesis by blast
  qed
qed

end
