(* ===== verification/Change_Props.thy ===== *)
theory Change_Props
  imports Change_Merge
begin

text \<open>
  The properties of the change builder, stated on two collections of rows, the one the record starts
  from and the one it leads to, each with a witness on a small record of a deletion, an insertion, a
  move and a modification.
\<close>

text \<open>\<open>records K old new c\<close>: the builder is well formed and describes the change from \<open>old\<close> to \<open>new\<close>.\<close>

definition records :: "nat \<Rightarrow> 'a list \<Rightarrow> 'a list \<Rightarrow> ccb \<Rightarrow> bool" where
  "records K old new c \<longleftrightarrow> ccb_ok K c \<and> wf_changes old new (abs_ccb c)"

definition records_rows :: "nat \<Rightarrow> 'a list \<Rightarrow> 'a list \<Rightarrow> ccb \<Rightarrow> bool" where
  "records_rows K old new c \<longleftrightarrow> ccb_ok K c \<and> wf_rows old new (abs_ccb c)"

lemma records_sim: "sim K r s \<Longrightarrow> wf_changes old new s \<Longrightarrow>
    \<exists>c'. r = Some c' \<and> records K old new c' \<and> abs_ccb c' = s"
  by (auto simp: sim_def records_def)

lemma records_rows_sim: "sim K r s \<Longrightarrow> wf_rows old new s \<Longrightarrow>
    \<exists>c'. r = Some c' \<and> records_rows K old new c' \<and> abs_ccb c' = s"
  by (auto simp: sim_def records_rows_def)

lemma records_moves:
  assumes "records K old new c"
  shows "distinct (map mv_to (moves c))" "m \<in> set (moves c) \<Longrightarrow> mv_to m \<in> s_ins (abs_ccb c)"
  using assms by (auto simp: records_def wf_changes_def moves_ok_def)

section \<open>Samples\<close>

definition one_chunk :: "(size_t \<times> size_t) list \<Rightarrow> index_set" where
  "one_chunk rs = [\<lparr>chunk_data = rs, chunk_begin = fst (hd rs), chunk_end = snd (last rs),
     chunk_count = sum_list (map (\<lambda>r. snd r - fst r) rs)\<rparr>]"

definition sample_old :: "nat list" where
  "sample_old = [10, 20, 30, 40, 50, 60]"

definition sample_new :: "nat list" where
  "sample_new = [50, 10, 30, 99, 40, 60]"

definition sample_builder :: ccb where
  "sample_builder = \<lparr>deletions = one_chunk [(1, 2), (4, 5)], insertions = one_chunk [(0, 1), (3, 4)],
     modifications = one_chunk [(0, 1), (2, 3)], modifications_new = [], moves = [\<lparr>mv_from = 4, mv_to = 0\<rparr>],
     columns = [], move_mapping = [], track_columns = False\<rparr>"

text \<open>\<open>sample_new\<close> with its last row deleted and the row 77 put in front.\<close>

definition sample_next :: ccb where
  "sample_next = \<lparr>deletions = one_chunk [(5, 6)], insertions = one_chunk [(0, 1)],
     modifications = one_chunk [(4, 5)], modifications_new = [], moves = [], columns = [],
     move_mapping = [], track_columns = False\<rparr>"

text \<open>Rows of an unordered table: the last row has been moved over row 1.\<close>

definition sample_rows :: ccb where
  "sample_rows = \<lparr>deletions = one_chunk [(1, 2), (5, 6)], insertions = one_chunk [(1, 2)],
     modifications = one_chunk [(0, 1)], modifications_new = [], moves = [], columns = [],
     move_mapping = [(1, 5)], track_columns = False\<rparr>"

lemmas sample_defs = records_def records_rows_def ccb_ok_def rep_def vec_ok_def chunk_ok_def one_chunk_def
  abs_ccb_def wf_changes_def wf_rows_def describes_def tracks_def moves_ok_def map_ok_def aligned_def indices_def span_def
  sample_old_def sample_new_def keep_def nths_def upt_rec

lemma sample_builder_records: "records 4 sample_old sample_new sample_builder"
  by (auto simp: sample_defs sample_builder_def)

lemma sample_next_records: "records 4 sample_new (77 # butlast sample_new) sample_next"
  by (auto simp: sample_defs sample_next_def)

lemma sample_rows_records: "records_rows 4 sample_old [10, 60, 30, 40, 50] sample_rows"
  by (auto simp: sample_defs sample_rows_def split: if_splits)

lemma sample_sets [simp]:
  "move_mapping sample_builder = []" "move_mapping sample_next = []" "length sample_new = 6" "columns sample_builder = []"
  "indices (modifications sample_builder) = {0, 2}" "indices (deletions sample_next) = {5}"
  by (auto simp: sample_builder_def sample_next_def one_chunk_def indices_def sample_new_def)

lemma sample_fits: "fits 4 (deletions sample_builder) n"
  by (simp add: fits_def sample_builder_def one_chunk_def)

section \<open>Ordered collections\<close>

text \<open>\<open>insert\<close> never fails and keeps the record right for the collection with the new rows in place; the modified
  rows move with the rows.\<close>

theorem ccb_insert_correct:
  assumes "records K old new c" "i \<le> length new" "ys \<noteq> []"
  shows "\<exists>c'. ccb_insert K i (length ys) True c = Some c' \<and> records K old (inserted_at i ys new) c' \<and>
    indices (modifications c') = (\<lambda>j. if j < i then j else j + length ys) ` indices (modifications c)"
proof -
  have c: "ccb_ok K c" "wf_changes old new (abs_ccb c)" using assms(1) by (simp_all add: records_def)
  from records_sim [OF insert_sim [OF c(1)] spec_insert_wf [OF c(2) assms(2,3)]] assms(3) obtain c' where
    1: "ccb_insert K i (length ys) True c = Some c'" "records K old (inserted_at i ys new) c'"
      "abs_ccb c' = spec_insert i (length ys) True (abs_ccb c)" by auto
  then have "s_mod (abs_ccb c') = bump i (length ys) ` s_mod (abs_ccb c)" by (simp add: spec_insert_def)
  then show ?thesis using 1(1,2) by (auto simp: indices_abs bump_def [abs_def])
qed

theorem ccb_insert_correct_witness:
  "records 4 sample_old sample_new sample_builder \<and> (2::nat) \<le> length sample_new \<and> [7, 8] \<noteq> ([] :: nat list) \<and>
   (\<exists>c'. ccb_insert 4 2 2 True sample_builder = Some c' \<and> records 4 sample_old (inserted_at 2 [7, 8] sample_new) c')"
  using ccb_insert_correct [OF sample_builder_records, of 2 "[7, 8]"] sample_builder_records
  by (auto simp flip: numeral_2_eq_2)

text \<open>\<open>erase\<close> never fails and keeps the record right for the collection without the row, whether the row was inserted,
  moved or untouched before.\<close>

theorem ccb_erase_correct:
  assumes "records K old new c" "i < length new" "length new \<le> npos" "move_mapping c = []"
  shows "\<exists>c'. ccb_erase K i c = Some c' \<and> records K old (erased_at i new) c' \<and>
    indices (modifications c') = (\<lambda>j. if i < j then j - 1 else j) ` (indices (modifications c) - {i})"
proof -
  have c: "ccb_ok K c" "wf_changes old new (abs_ccb c)" using assms(1) by (simp_all add: records_def)
  have "s_map (abs_ccb c) = Map.empty" using assms(4) by simp
  from records_sim [OF erase_sim [OF c(1)] spec_erase_wf [OF c(2) assms(2) this]] assms(2,3) obtain c' where
    1: "ccb_erase K i c = Some c'" "records K old (erased_at i new) c'" "abs_ccb c' = spec_erase i (abs_ccb c)" by auto
  then have "s_mod (abs_ccb c') = unbump i ` (s_mod (abs_ccb c) - {i})" by (simp add: spec_erase_def)
  then show ?thesis using 1(1,2) by (auto simp: indices_abs unbump_def [abs_def])
qed

theorem ccb_erase_correct_witness:
  "(\<exists>c'. ccb_erase 4 0 sample_builder = Some c' \<and> records 4 sample_old (erased_at 0 sample_new) c')"
  using ccb_erase_correct [OF sample_builder_records, of 0] by (auto simp: npos_def)

text \<open>\<open>move\<close> never fails and keeps the record right for the collection with the row moved: a row that was moved before
  keeps its first position, a row that was inserted stays an insertion.\<close>

theorem ccb_move_correct:
  assumes "records K old new c" "i < length new" "k < length new" "i \<noteq> k" "length new \<le> npos" "move_mapping c = []"
  shows "\<exists>c'. ccb_move K i k c = Some c' \<and> records K old (moved_to i k new) c' \<and>
    indices (modifications c') = moved_pos i k ` indices (modifications c)"
proof -
  have c: "ccb_ok K c" "wf_changes old new (abs_ccb c)" using assms(1) by (simp_all add: records_def)
  have m: "s_map (abs_ccb c) = Map.empty" using assms(6) by simp
  have "sim K (ccb_move K i k c) (spec_move i k (abs_ccb c))"
    using move_sim [OF c(1) assms(4)] records_moves [OF assms(1)] assms(2,5) by auto
  from records_sim [OF this spec_move_wf [OF c(2) assms(2,3) m]] obtain c' where
    1: "ccb_move K i k c = Some c'" "records K old (moved_to i k new) c'" "abs_ccb c' = spec_move i k (abs_ccb c)" by blast
  then have "s_mod (abs_ccb c') = moved_pos i k ` s_mod (abs_ccb c)" by (simp add: spec_move_def)
  then show ?thesis using 1(1,2) by (auto simp: indices_abs)
qed

theorem ccb_move_correct_witness:
  "(\<exists>c'. ccb_move 4 0 5 sample_builder = Some c' \<and> records 4 sample_old (moved_to 0 5 sample_new) c')"
  using ccb_move_correct [OF sample_builder_records, of 0 5] by (auto simp: npos_def)

text \<open>\<open>clear\<close> leaves a record that deletes exactly the rows of the old collection: with the
  current size of the collection it works out the old size from the deletions and insertions.\<close>

theorem ccb_clear_correct:
  assumes "records K old new c" "length new \<noteq> npos"
  shows "\<exists>c'. ccb_clear K (length new) c = Some c' \<and> records K old [] c' \<and>
    indices (deletions c') = {..<length old} \<and> insertions c' = [] \<and> modifications c' = [] \<and> moves c' = []"
proof -
  have c: "ccb_ok K c" "wf_changes old new (abs_ccb c)" using assms(1) by (simp_all add: records_def)
  from records_sim [OF clear_sim [OF c(1)] spec_clear_wf [OF c(2) refl assms(2)]] obtain c' where
    1: "ccb_clear K (length new) c = Some c'" "records K old [] c'" "abs_ccb c' = spec_clear (length new) (abs_ccb c)" by blast
  then have w: "tracks old [] (s_del (abs_ccb c')) {}" "s_ins (abs_ccb c') = {}" "s_mod (abs_ccb c') = {}" "moves c' = []"
    "\<exists>n. s_del (abs_ccb c') = {..<n}"
    by (auto simp: records_def wf_changes_def describes_def spec_clear_def dest: arg_cong [of _ _ s_moves])
  then obtain n where n: "s_del (abs_ccb c') = {..<n}" by blast
  then have "n \<le> length old" "unshift_in {..<n} (length old) = 0"
    using w(1) length_keep [of "{..<n}" old] by (auto simp: tracks_def lessThan_subset_iff)
  then have "n = length old" by (simp add: unshift_in_card card_eq_0_iff)
  moreover have "insertions c' = [] \<and> modifications c' = []"
    using w(2,3) ok_rep [of K c'] 1(2) rep_Nil_iff unfolding records_def by blast
  ultimately show ?thesis using 1(1,2) w(4) n by (auto simp: indices_abs)
qed

theorem ccb_clear_correct_witness:
  "(\<exists>c'. ccb_clear 4 6 sample_builder = Some c' \<and> indices (deletions c') = {..<6})"
  using ccb_clear_correct [OF sample_builder_records] by (auto simp: npos_def sample_old_def)



section \<open>Unordered tables\<close>

text \<open>\<open>move_over\<close>, the deletion of a row of an unordered table by moving the last row over it, never fails and keeps the
  record right; the moved row is remembered under its first position.\<close>

theorem ccb_move_over_correct:
  assumes "records_rows K old new c" "length new = Suc l" "row \<le> l" "l < npos" "indices (modifications c) \<subseteq> {..l}"
  shows "\<exists>c'. ccb_move_over K row l True c = Some c' \<and>
    records_rows K old (if row = l then butlast new else (butlast new)[row := new ! l]) c'"
proof -
  have c: "ccb_ok K c" "wf_rows old new (abs_ccb c)" using assms(1) by (simp_all add: records_rows_def)
  have b: "s_ins (abs_ccb c) \<subseteq> {..l}" "s_mod (abs_ccb c) \<subseteq> {..l}" "moves c = []"
    using c(2) assms(2,5) by (auto simp: wf_rows_def wf_changes_def describes_def tracks_def indices_abs)
  show ?thesis
  proof (cases "row = l")
    case True
    from records_rows_sim [OF move_over_last_sim [OF c(1) assms(4) b(1,2)] spec_move_over_last_wf [OF c(2) assms(2)]]
    show ?thesis using True by auto
  next
    case False
    then have lt: "row < l" using assms(3) by simp
    have "dom (s_map (abs_ccb c)) \<subseteq> s_ins (abs_ccb c)"
      using map_origin [OF c(2)] by blast
    from records_rows_sim [OF move_over_sim [OF c(1) lt b(1,2)] spec_move_over_wf [OF c(2) assms(2) lt]] b(3) this
    show ?thesis using False by auto
  qed
qed

theorem ccb_move_over_correct_witness:
  "(\<exists>c'. ccb_move_over 4 0 4 True sample_rows = Some c' \<and> records_rows 4 sample_old [50, 60, 30, 40] c')"
  using ccb_move_over_correct [OF sample_rows_records, of 4 0]
  by (simp add: npos_def) (auto simp: sample_rows_def one_chunk_def indices_def)

text \<open>\<open>swap\<close> never fails and keeps the record right for the table with the two rows exchanged.\<close>

theorem ccb_swap_correct:
  assumes "records_rows K old new c" "i < length new" "j < length new" "i \<noteq> j"
  shows "\<exists>c'. ccb_swap K i j True c = Some c' \<and> records_rows K old (new[i := new ! j, j := new ! i]) c' \<and>
    indices (modifications c') = exchange i j ` indices (modifications c)"
proof -
  have c: "ccb_ok K c" "wf_rows old new (abs_ccb c)" using assms(1) by (simp_all add: records_rows_def)
  define a b where "a = min i j" and "b = max i j"
  have ab: "a < b" "b < length new" "{i, j} = {a, b}" using assms(2-4) by (auto simp: a_def b_def min_def max_def)
  have m: "dom (s_map (abs_ccb c)) \<subseteq> s_ins (abs_ccb c)" using map_origin [OF c(2)] by blast
  from records_rows_sim [OF swap_sim [OF c(1) ab(1,3) m] spec_swap_wf [OF c(2) ab(1,2)]] obtain c' where
    1: "ccb_swap K i j True c = Some c'" "records_rows K old (swapped a b new) c'" "abs_ccb c' = spec_swap a b (abs_ccb c)" by blast
  have "swapped a b new = new[i := new ! j, j := new ! i]"
    using assms(4) by (auto simp: a_def b_def swapped_def min_def max_def list_update_swap)
  moreover have "s_mod (abs_ccb c') = exchange a b ` s_mod (abs_ccb c)"
    unfolding 1(3) by (simp add: spec_swap_def spec_add_swap_def Let_def split: option.split)
  moreover have "exchange a b = exchange i j" using ab(3) assms(4) by (auto simp: exchange_def fun_eq_iff doubleton_eq_iff)
  ultimately show ?thesis using 1(1,2) by (auto simp: indices_abs)
qed

theorem ccb_swap_correct_witness:
  "(\<exists>c'. ccb_swap 4 3 1 True sample_rows = Some c' \<and> records_rows 4 sample_old [10, 40, 30, 60, 50] c')"
  using ccb_swap_correct [OF sample_rows_records, of 3 1] by auto

text \<open>\<open>parse_complete\<close> turns the remembered origins of the rows of a table into moves in the order of
  their old positions, none of them to the place it came from; the record still describes the change.\<close>

theorem ccb_parse_complete_correct:
  assumes "records_rows K old new c"
  shows "\<exists>c'. ccb_parse_complete K c = Some c' \<and> records K old new c' \<and> move_mapping c' = [] \<and>
    sorted (map mv_from (moves c')) \<and> (\<forall>m \<in> set (moves c'). mv_from m \<noteq> mv_to m \<and> old ! mv_from m = new ! mv_to m)"
proof -
  have c: "ccb_ok K c" "wf_rows old new (abs_ccb c)" using assms(1) by (simp_all add: records_rows_def)
  from parse_complete_wf [OF c] show ?thesis by (fastforce simp: records_def wf_changes_def moves_ok_def)
qed

theorem ccb_parse_complete_correct_witness:
  "(\<exists>c'. ccb_parse_complete 4 sample_rows = Some c' \<and> records 4 sample_old [10, 60, 30, 40, 50 :: nat] c')"
  using ccb_parse_complete_correct [OF sample_rows_records] by auto

section \<open>The final change set\<close>

lemma finalize_modified:
  assumes "records K old new c" "indices (modifications c) \<subseteq> {..<length new}"
  shows "\<exists>r. ccb_finalize K c = Some r \<and> deletions r = deletions c \<and> insertions r = insertions c \<and> moves r = moves c \<and>
    (let f = \<lambda>k. shift (deletions c) (unshift (insertions c) k) in
     bij_betw f (indices (modifications_new r)) (indices (modifications r)) \<and>
     (\<forall>k \<in> indices (modifications_new r). old ! f k = new ! k)) \<and>
    indices (modifications_new r) = indices (modifications c) - indices (insertions c) \<and>
    indices (modifications r) \<inter> indices (deletions c) = {}"
proof -
  have c: "ccb_ok K c" "wf_changes old new (abs_ccb c)" using assms(1) by (simp_all add: records_def)
  let ?D = "s_del (abs_ccb c)" and ?I = "s_ins (abs_ccb c)" and ?M = "s_mod (abs_ccb c)"
  note r = ok_rep [OF c(1)]
  have t: "tracks old new ?D ?I" using c(2) by (simp add: wf_changes_def describes_def)
  note f = wf_bounds(3,4) [OF t]
  obtain m where m: "remove_set K (modifications c) (insertions c) = Some m" "rep K m (?M - ?I)"
    using rep_remove_set [OF r(3,2)] by blast
  define f where "f = (\<lambda>k. shift (deletions c) (unshift (insertions c) k))"
  have f_eq: "f k = shift_in ?D (unshift_in ?I k)" for k by (simp add: f_def ixs.up [OF r(1)] ixs.down [OF r(2)])
  have old: "rep K (shift_for_insert_at_set K (erase_at_set K (modifications c) (insertions c)) (deletions c)) (f ` (?M - ?I))"
    using rep_shift_set [OF rep_erase_set [OF r(3,2)] r(1)] by (simp add: f_eq [abs_def] image_image)
  have "inj_on f (?M - ?I)"
    by (rule inj_onI) (auto simp: f_eq dest!: shift_in_inj [OF f(1)] unshift_in_inj [rotated 2])
  moreover have "old ! f k = new ! k" "f k \<notin> ?D" if "k \<in> ?M - ?I" for k
  proof -
    have "k < length new" "k \<notin> ?I" using that assms(2) by (auto simp: indices_abs)
    then show "old ! f k = new ! k" using recorded_keep(4) [OF t] by (simp add: f_eq)
    show "f k \<notin> ?D" using shift_in_spec [OF f(1)] by (simp add: f_eq)
  qed
  ultimately show ?thesis
    using m old by (auto simp: ccb_finalize_def Let_def rep_def bij_betw_def f_def [symmetric] indices_abs)
qed

text \<open>the change set handed to the user: the modified rows are given once by their old and once by their new positions,
  the two sets are in bijection, row by row, and a modified row is never reported as inserted or deleted as well.\<close>

theorem ccb_finalize_correct:
  assumes "records K old new c" "indices (modifications c) \<subseteq> {..<length new}"
  shows "\<exists>r. ccb_finalize K c = Some r \<and> deletions r = deletions c \<and> insertions r = insertions c \<and> moves r = moves c \<and>
    (let f = \<lambda>k. shift (deletions c) (unshift (insertions c) k) in
     bij_betw f (indices (modifications_new r)) (indices (modifications r)) \<and>
     (\<forall>k \<in> indices (modifications_new r). old ! f k = new ! k)) \<and>
    indices (modifications_new r) = indices (modifications c) - indices (insertions c) \<and>
    indices (modifications r) \<inter> indices (deletions c) = {}"
  by (rule finalize_modified [OF assms])

theorem ccb_finalize_correct_witness:
  "(\<exists>r. ccb_finalize 4 sample_builder = Some r \<and> indices (modifications_new r) = {2})"
  using ccb_finalize_correct [OF sample_builder_records]
  by (auto simp: Let_def) (auto simp: sample_builder_def one_chunk_def indices_def)

end
