(* ===== verification/Change_Calc.thy ===== *)
theory Change_Calc
  imports Change_Builder
begin

text \<open>
  \<open>CollectionChangeBuilder::calculate\<close> of \<open>impl/collection_change_builder.cpp\<close>: the change record of
  two versions of a query result, given by the table row at each position.  Rows that were deleted are \<open>npos\<close>
  in the old version.  The rows found in both versions that changed places are reported through moves
  (\<open>calculate_moves_unsorted\<close>) or as deletions and insertions outside a longest common subsequence
  (\<open>calculate_moves_sorted\<close>).

  \<open>std::sort\<close> is \<open>sort_key\<close>; \<open>std::lower_bound\<close> on a sorted array is \<open>dropWhile\<close>.
\<close>

record row_info =
  row_index :: size_t
  prev_tv_index :: size_t
  tv_index :: size_t
  shifted_tv_index :: size_t

section \<open>Tables without a sort\<close>

fun calculate_moves_unsorted :: "nat \<Rightarrow> index_set \<Rightarrow> row_info list \<Rightarrow> size_t \<Rightarrow> index_set \<Rightarrow> ccb \<Rightarrow> (index_set \<times> ccb) option" where
  "calculate_moves_unsorted K candidates [] expected removed c = Some (removed, c)"
| "calculate_moves_unsorted K candidates (row # rows) expected removed c =
     (if shifted_tv_index row = expected
      then calculate_moves_unsorted K candidates rows (expected + 1) removed c
      else if \<not> contains candidates (row_index row)
      then calculate_moves_unsorted K candidates rows (shifted_tv_index row + 1) removed c
      else let calc_expected = tv_index row - count_set (insertions c) 0 (tv_index row) + count_set removed 0 (prev_tv_index row)
           in if shifted_tv_index row = calc_expected
              then calculate_moves_unsorted K candidates rows (calc_expected + 1) removed c
              else do { ins \<leftarrow> add K (insertions c) (tv_index row);
                        removed' \<leftarrow> add K removed (prev_tv_index row);
                        calculate_moves_unsorted K candidates rows expected removed'
                          (c\<lparr>moves := moves c @ [\<lparr>mv_from = prev_tv_index row, mv_to = tv_index row\<rparr>], insertions := ins\<rparr>) })"

section \<open>The longest common subsequence\<close>

text \<open>\<open>Row\<close> and \<open>Match\<close> of \<open>LongestCommonSubsequenceCalculator\<close>.\<close>

record lcs_row =
  r_row :: size_t
  r_tv :: size_t

record lcs_match =
  m_i :: size_t
  m_j :: size_t
  m_size :: size_t
  m_modified :: size_t

text \<open>\<open>length\<close>: the block that ends at \<open>j\<close> in the current row, from the lengths at the previous row.\<close>

fun match_length :: "(size_t \<times> size_t) list \<Rightarrow> size_t \<Rightarrow> size_t" where
  "match_length [] j = 1"
| "match_length (p # prev) j = (if fst p + 1 = j then snd p + 1 else match_length prev j)"

text \<open>\<open>for_each_b_match\<close>: the positions it passes to its function, or \<open>None\<close> when its assertion fails.\<close>

fun b_range :: "size_t \<Rightarrow> size_t \<Rightarrow> size_t \<Rightarrow> lcs_row list \<Rightarrow> size_t list" where
  "b_range ai begin2 end2 [] = []"
| "b_range ai begin2 end2 (r # rs) =
     (if r_row r \<noteq> ai then []
      else if r_tv r < begin2 then b_range ai begin2 end2 rs
      else if end2 \<le> r_tv r then []
      else r_tv r # b_range ai begin2 end2 rs)"

definition b_matches :: "lcs_row list \<Rightarrow> size_t \<Rightarrow> size_t \<Rightarrow> size_t \<Rightarrow> size_t list option" where
  "b_matches b ai begin2 end2 =
     (let it = dropWhile (\<lambda>r. r_row r < ai) b
      in if it \<noteq> [] \<and> r_row (hd it) = ai then Some (b_range ai begin2 end2 it) else None)"

text \<open>The count of modified rows from \<open>end - size\<close> to \<open>end\<close>; the subtraction wraps around.\<close>

definition count_back :: "index_set \<Rightarrow> size_t \<Rightarrow> size_t \<Rightarrow> size_t" where
  "count_back mods end_index len =
     count_set mods (if len \<le> end_index then end_index - len else end_index + 2 ^ 64 - len) end_index"

text \<open>The best match after a block of length \<open>len\<close> that ends at \<open>i\<close> and \<open>j\<close>.\<close>

definition better_match :: "index_set \<Rightarrow> size_t \<Rightarrow> size_t \<Rightarrow> size_t \<Rightarrow> lcs_match \<Rightarrow> lcs_match" where
  "better_match mods i j len best =
     (if m_size best < len
      then \<lparr>m_i = i + 1 - len, m_j = j + 1 - len, m_size = len, m_modified = npos\<rparr>
      else if len = m_size best
      then let best1 = (if m_modified best = npos
                        then best\<lparr>m_modified := count_back mods (m_j best + 1) len\<rparr> else best);
               n = count_back mods (j + 1) len
           in if n < m_modified best1
              then \<lparr>m_i = i + 1 - len, m_j = j + 1 - len, m_size = len, m_modified = n\<rparr>
              else best1
      else best)"

definition match_step :: "index_set \<Rightarrow> size_t \<Rightarrow> size_t \<Rightarrow> size_t \<Rightarrow> size_t \<Rightarrow> size_t \<Rightarrow> (size_t \<times> size_t) list \<Rightarrow>
    (size_t \<times> size_t) list \<times> lcs_match \<Rightarrow> size_t \<Rightarrow> ((size_t \<times> size_t) list \<times> lcs_match) option" where
  "match_step mods begin1 end1 begin2 end2 i prev = (\<lambda>(cur, best) j.
     let len = match_length prev j; best' = better_match mods i j len best
     in if begin1 \<le> m_i best' \<and> m_i best' + m_size best' \<le> end1 \<and>
           begin2 \<le> m_j best' \<and> m_j best' + m_size best' \<le> end2
        then Some (cur @ [(j, len)], best') else None)"

fun match_row :: "index_set \<Rightarrow> size_t \<Rightarrow> size_t \<Rightarrow> size_t \<Rightarrow> size_t \<Rightarrow> size_t \<Rightarrow> (size_t \<times> size_t) list \<Rightarrow>
    (size_t \<times> size_t) list \<times> lcs_match \<Rightarrow> size_t list \<Rightarrow> ((size_t \<times> size_t) list \<times> lcs_match) option" where
  "match_row mods begin1 end1 begin2 end2 i prev s [] = Some s"
| "match_row mods begin1 end1 begin2 end2 i prev s (j # js) =
     do { s' \<leftarrow> match_step mods begin1 end1 begin2 end2 i prev s j;
          match_row mods begin1 end1 begin2 end2 i prev s' js }"

text \<open>The rows \<open>is\<close> of \<open>a\<close> still to be looked at; \<open>cur\<close> are the lengths at the row before.\<close>

fun match_rows :: "lcs_row list \<Rightarrow> lcs_row list \<Rightarrow> index_set \<Rightarrow> size_t \<Rightarrow> size_t \<Rightarrow> size_t \<Rightarrow> size_t \<Rightarrow>
    (size_t \<times> size_t) list \<Rightarrow> lcs_match \<Rightarrow> size_t list \<Rightarrow> lcs_match option" where
  "match_rows a b mods begin1 end1 begin2 end2 cur best [] = Some best"
| "match_rows a b mods begin1 end1 begin2 end2 cur best (i # is) =
     do { js \<leftarrow> b_matches b (r_row (a ! i)) begin2 end2;
          (cur', best') \<leftarrow> match_row mods begin1 end1 begin2 end2 i cur ([], best) js;
          match_rows a b mods begin1 end1 begin2 end2 cur' best' is }"

definition find_longest_match :: "lcs_row list \<Rightarrow> lcs_row list \<Rightarrow> index_set \<Rightarrow> size_t \<Rightarrow> size_t \<Rightarrow> size_t \<Rightarrow> size_t \<Rightarrow> lcs_match option" where
  "find_longest_match a b mods begin1 end1 begin2 end2 =
     match_rows a b mods begin1 end1 begin2 end2 []
       \<lparr>m_i = begin1, m_j = begin2, m_size = 0, m_modified = 0\<rparr> [begin1..<end1]"

text \<open>The asserted bounds of the best match hold of the result, and make the recursion end.\<close>

definition in_window :: "size_t \<Rightarrow> size_t \<Rightarrow> size_t \<Rightarrow> size_t \<Rightarrow> lcs_match \<Rightarrow> bool" where
  "in_window begin1 end1 begin2 end2 m \<longleftrightarrow> m_size m = 0 \<or>
     begin1 \<le> m_i m \<and> m_i m + m_size m \<le> end1 \<and> begin2 \<le> m_j m \<and> m_j m + m_size m \<le> end2"

lemma match_step_window:
  "match_step mods begin1 end1 begin2 end2 i prev s j = Some s' \<Longrightarrow> in_window begin1 end1 begin2 end2 (snd s')"
  by (auto simp: match_step_def Let_def in_window_def split: prod.splits if_split_asm)

lemma match_row_window:
  "match_row mods begin1 end1 begin2 end2 i prev s js = Some s' \<Longrightarrow> in_window begin1 end1 begin2 end2 (snd s) \<Longrightarrow>
     in_window begin1 end1 begin2 end2 (snd s')"
  by (induction js arbitrary: s) (auto simp: bind_eq_Some_conv dest: match_step_window)

lemma match_rows_window:
  "match_rows a b mods begin1 end1 begin2 end2 cur best is = Some m \<Longrightarrow> in_window begin1 end1 begin2 end2 best \<Longrightarrow>
     in_window begin1 end1 begin2 end2 m"
  by (induction "is" arbitrary: cur best) (auto simp: bind_eq_Some_conv dest: match_row_window)

lemma find_longest_match_window:
  "find_longest_match a b mods begin1 end1 begin2 end2 = Some m \<Longrightarrow> in_window begin1 end1 begin2 end2 m"
  unfolding find_longest_match_def by (rule match_rows_window) (auto simp: in_window_def)

function find_longest_matches :: "lcs_row list \<Rightarrow> lcs_row list \<Rightarrow> index_set \<Rightarrow> size_t \<Rightarrow> size_t \<Rightarrow> size_t \<Rightarrow> size_t \<Rightarrow>
    lcs_match list option" where
  "find_longest_matches a b mods begin1 end1 begin2 end2 =
     (case find_longest_match a b mods begin1 end1 begin2 end2 of
        None \<Rightarrow> None
      | Some m \<Rightarrow>
          if m_size m = 0 then Some []
          else do {
            before \<leftarrow> (if begin1 < m_i m \<and> begin2 < m_j m
                        then find_longest_matches a b mods begin1 (m_i m) begin2 (m_j m) else Some []);
            after \<leftarrow> (if m_i m + m_size m < end2 \<and> m_j m + m_size m < end2
                       then find_longest_matches a b mods (m_i m + m_size m) end1 (m_j m + m_size m) end2 else Some []);
            Some (before @ m # after) })"
  by pat_completeness auto
termination
  by (relation "measure (\<lambda>(a, b, mods, begin1, end1, begin2, end2). end1 - begin1)")
    (auto dest!: find_longest_match_window simp: in_window_def)

declare find_longest_matches.simps [simp del]

definition lcs_matches :: "lcs_row list \<Rightarrow> lcs_row list \<Rightarrow> size_t \<Rightarrow> index_set \<Rightarrow> lcs_match list option" where
  "lcs_matches a b start_index mods =
     map_option (\<lambda>ms. ms @ [\<lparr>m_i = length a, m_j = length b, m_size = 0, m_modified = 0\<rparr>])
       (find_longest_matches a b mods start_index (length a) start_index (length b))"

section \<open>Sorted results\<close>

fun add_each :: "nat \<Rightarrow> index_set \<Rightarrow> size_t list \<Rightarrow> index_set option" where
  "add_each K d [] = Some d"
| "add_each K d (x # xs) = Option.bind (add K d x) (\<lambda>d'. add_each K d' xs)"

text \<open>The rows between two matches are deleted and inserted.\<close>

fun align_matches :: "nat \<Rightarrow> lcs_row list \<Rightarrow> row_info list \<Rightarrow> size_t \<Rightarrow> size_t \<Rightarrow> lcs_match list \<Rightarrow> ccb \<Rightarrow> ccb option" where
  "align_matches K a rows i j [] c = Some c"
| "align_matches K a rows i j (m # ms) c =
     do { del \<leftarrow> add_each K (deletions c) (map (\<lambda>k. r_tv (a ! k)) [i..<m_i m]);
          ins \<leftarrow> add_each K (insertions c) (map (\<lambda>k. tv_index (rows ! k)) [j..<m_j m]);
          align_matches K a rows (max i (m_i m) + m_size m) (max j (m_j m) + m_size m) ms
            (c\<lparr>deletions := del, insertions := ins\<rparr>) }"

definition calculate_moves_sorted :: "nat \<Rightarrow> row_info list \<Rightarrow> ccb \<Rightarrow> ccb option" where
  "calculate_moves_sorted K rows c =
     (let a = sort_key r_tv (sort_key r_row (map (\<lambda>r. \<lparr>r_row = row_index r, r_tv = prev_tv_index r\<rparr>) rows));
          first_difference = length (takeWhile (\<lambda>p. r_row (fst p) = row_index (snd p)) (zip a rows))
      in if first_difference = length a then Some c
         else let b = sort_key r_row (map2 (\<lambda>r i. \<lparr>r_row = row_index r, r_tv = i\<rparr>) rows [0..<length rows])
              in do { ms \<leftarrow> lcs_matches a b first_difference (modifications c);
                      align_matches K a rows first_difference first_difference ms c })"

section \<open>The whole calculation\<close>

text \<open>The rows of the old version; outright deleted ones go to the deletions.\<close>

fun old_rows_from :: "nat \<Rightarrow> size_t \<Rightarrow> size_t \<Rightarrow> index_set \<Rightarrow> size_t list \<Rightarrow> (row_info list \<times> index_set) option" where
  "old_rows_from K i deleted del [] = Some ([], del)"
| "old_rows_from K i deleted del (r # rs) =
     (if r = npos
      then do { del' \<leftarrow> add K del i; old_rows_from K (i + 1) (deleted + 1) del' rs }
      else do { (os, del') \<leftarrow> old_rows_from K (i + 1) deleted del rs;
                Some (\<lparr>row_index = r, prev_tv_index = npos, tv_index = i, shifted_tv_index = i - deleted\<rparr> # os, del') })"

text \<open>The walk over both versions in the order of the table rows.\<close>

fun match_versions :: "nat \<Rightarrow> row_info list \<Rightarrow> row_info list \<Rightarrow> index_set \<Rightarrow> index_set \<Rightarrow>
    (row_info list \<times> index_set \<times> index_set) option" where
  "match_versions K (old # os) (new # ns) removed ins =
     (if row_index old = row_index new
      then do { (ns', removed', ins') \<leftarrow> match_versions K os ns removed ins;
                Some (new\<lparr>prev_tv_index := tv_index old, shifted_tv_index := shifted_tv_index old\<rparr> # ns', removed', ins') }
      else if row_index old < row_index new
      then do { removed' \<leftarrow> add K removed (tv_index old); match_versions K os (new # ns) removed' ins }
      else do { ins' \<leftarrow> add K ins (tv_index new);
                (ns', removed', ins'') \<leftarrow> match_versions K (old # os) ns removed ins';
                Some (new # ns', removed', ins'') })"
| "match_versions K os [] removed ins =
     map_option (\<lambda>removed'. ([], removed', ins)) (add_each K removed (map tv_index os))"
| "match_versions K [] ns removed ins =
     map_option (\<lambda>ins'. (ns, removed, ins')) (add_each K ins (map tv_index ns))"

text \<open>The debug-mode check: applying the record to the old rows gives the new ones.\<close>

fun erase_ranges :: "range list \<Rightarrow> 'a list \<Rightarrow> 'a list option" where
  "erase_ranges [] xs = Some xs"
| "erase_ranges (r # rs) xs =
     (if snd r \<le> length xs then erase_ranges rs (take (fst r) xs @ drop (snd r) xs) else None)"

fun insert_rows :: "size_t list \<Rightarrow> 'a list \<Rightarrow> 'a list \<Rightarrow> 'a list option" where
  "insert_rows [] next xs = Some xs"
| "insert_rows (i # is) next xs =
     (if i \<le> length xs \<and> i < length next then insert_rows is next (take i xs @ [next ! i] @ drop i xs) else None)"

definition replays :: "ccb \<Rightarrow> 'a list \<Rightarrow> 'a list \<Rightarrow> bool" where
  "replays c prev next \<longleftrightarrow>
     Option.bind (erase_ranges (rev (flat (deletions c))) prev) (insert_rows (as_indexes (insertions c)) next) = Some next"

definition ccb_calculate :: "nat \<Rightarrow> size_t list \<Rightarrow> size_t list \<Rightarrow> (size_t \<Rightarrow> bool) \<Rightarrow> index_set option \<Rightarrow> ccb option" where
  "ccb_calculate K prev_rows next_rows row_did_change candidates =
     (if candidates \<noteq> None \<and> \<not> sorted next_rows then None
      else do {
        (os, del) \<leftarrow> old_rows_from K 0 0 [] prev_rows;
        let old_rows = sort_key row_index os;
            new_rows = sort_key row_index
              (map2 (\<lambda>r i. \<lparr>row_index = r, prev_tv_index = npos, tv_index = i, shifted_tv_index = 0\<rparr>)
                 next_rows [0..<length next_rows]) in
        do {
          (ns, removed, ins) \<leftarrow> match_versions K old_rows new_rows [] [];
          let rows = sort_key tv_index (filter (\<lambda>r. prev_tv_index r \<noteq> npos) ns) in
          do {
            mods \<leftarrow> add_each K [] (map tv_index (filter (\<lambda>r. row_did_change (row_index r)) rows));
            (removed', c) \<leftarrow> (let c0 = ccb_init\<lparr>deletions := del, insertions := ins, modifications := mods\<rparr>
              in case candidates of
                   Some cs \<Rightarrow> calculate_moves_unsorted K cs rows 0 removed c0
                 | None \<Rightarrow> map_option (Pair removed) (calculate_moves_sorted K rows c0));
            del' \<leftarrow> add_set K (deletions c) removed';
            let ret = c\<lparr>deletions := del'\<rparr> in
            if ccb_verify ret \<and> replays ret prev_rows next_rows then Some ret else None } } })"

end
