(* ===== verification/Change_Calc_Lcs.thy ===== *)
theory Change_Calc_Lcs
  imports Change_Calc
begin

text \<open>
  The longest common block: \<open>find_longest_match\<close> never fails its assertions and returns a common block of the two
  windows that no common block exceeds; \<open>find_longest_matches\<close> returns a chain of common blocks.  \<open>A i\<close> and
  \<open>B j\<close> stand for the table rows at position \<open>i\<close> of \<open>a\<close> and at the view position \<open>j\<close>.
\<close>

section \<open>Common blocks\<close>

definition common_block :: "(nat \<Rightarrow> size_t) \<Rightarrow> (nat \<Rightarrow> size_t) \<Rightarrow> nat \<Rightarrow> nat \<Rightarrow> nat \<Rightarrow> bool" where
  "common_block A B p q n \<longleftrightarrow> (\<forall>k < n. A (p + k) = B (q + k))"

text \<open>The length of the longest block that ends at \<open>i\<close> and \<open>j\<close> inside the window that starts at \<open>lo\<close>, \<open>lo'\<close>.\<close>

fun run :: "(nat \<Rightarrow> size_t) \<Rightarrow> (nat \<Rightarrow> size_t) \<Rightarrow> nat \<Rightarrow> nat \<Rightarrow> nat \<Rightarrow> nat \<Rightarrow> nat" where
  "run A B lo lo' i j =
     (if A i \<noteq> B j then 0
      else if i \<le> lo \<or> j \<le> lo' then 1
      else Suc (run A B lo lo' (i - 1) (j - 1)))"

declare run.simps [simp del]

lemma run_block:
  assumes "lo \<le> i" "lo' \<le> j"
  shows "lo + run A B lo lo' i j \<le> Suc i \<and> lo' + run A B lo lo' i j \<le> Suc j \<and>
    common_block A B (Suc i - run A B lo lo' i j) (Suc j - run A B lo lo' i j) (run A B lo lo' i j)"
  using assms
proof (induction A B lo lo' i j rule: run.induct)
  case (1 A B lo lo' i j)
  show ?case
  proof (cases "A i \<noteq> B j \<or> i \<le> lo \<or> j \<le> lo'")
    case True
    then show ?thesis using 1(2,3) by (auto simp: run.simps [of A B lo lo' i j] common_block_def)
  next
    case False
    define n where "n = run A B lo lo' (i - 1) (j - 1)"
    have "lo + n \<le> i \<and> lo' + n \<le> j \<and> common_block A B (i - n) (j - n) n"
    proof -
      have "lo \<le> i - 1" "lo' \<le> j - 1" using False by auto
      then show ?thesis using 1(1) False unfolding n_def by (auto simp: Suc_diff_1)
    qed
    moreover have "run A B lo lo' i j = Suc n" using False by (simp add: run.simps [of A B lo lo' i j] n_def)
    ultimately show ?thesis using False by (auto simp: common_block_def less_Suc_eq)
  qed
qed

lemma run_longest:
  "common_block A B p q (Suc n) \<Longrightarrow> lo \<le> p \<Longrightarrow> lo' \<le> q \<Longrightarrow> Suc n \<le> run A B lo lo' (p + n) (q + n)"
proof (induction n)
  case 0
  then show ?case by (simp add: run.simps [of A B lo lo' p q] common_block_def)
next
  case (Suc n)
  have "common_block A B p q (Suc n)" "A (p + Suc n) = B (q + Suc n)" using Suc.prems(1) by (auto simp: common_block_def)
  then show ?case using Suc by (subst run.simps) simp
qed

lemma run_pos: "run A B lo lo' i j = 0 \<longleftrightarrow> A i \<noteq> B j"
  by (simp add: run.simps)

section \<open>One row\<close>

text \<open>What \<open>cur\<close> holds after row \<open>i\<close>: the lengths of the blocks that end there.\<close>

definition lengths_at :: "(nat \<Rightarrow> size_t) \<Rightarrow> (nat \<Rightarrow> size_t) \<Rightarrow> nat \<Rightarrow> nat \<Rightarrow> nat \<Rightarrow> nat \<Rightarrow> (size_t \<times> size_t) list \<Rightarrow> bool" where
  "lengths_at A B lo lo' hi' i cur \<longleftrightarrow> set cur = {(j, run A B lo lo' i j) | j. lo' \<le> j \<and> j < hi' \<and> A i = B j}"

lemma match_length_cases:
  "match_length prev j = 1 \<and> (\<forall>p \<in> set prev. fst p + 1 \<noteq> j) \<or> (\<exists>p \<in> set prev. fst p + 1 = j \<and> match_length prev j = snd p + 1)"
  by (induction prev) auto

lemma match_length_run:
  assumes prev: "i = lo \<and> prev = [] \<or> lo < i \<and> lengths_at A B lo lo' hi' (i - 1) prev"
    and j: "lo' \<le> j" "j < hi'" "A i = B j"
  shows "match_length prev j = run A B lo lo' i j"
proof (cases "i = lo \<and> prev = []")
  case True
  then show ?thesis using j by (simp add: run.simps [of A B lo lo' lo j])
next
  case False
  then have i: "lo < i" and s: "set prev = {(j, run A B lo lo' (i - 1) j) | j. lo' \<le> j \<and> j < hi' \<and> A (i - 1) = B j}"
    using prev by (auto simp: lengths_at_def)
  have r: "run A B lo lo' i j = (if j \<le> lo' then 1 else Suc (run A B lo lo' (i - 1) (j - 1)))"
    using i j(3) by (simp add: run.simps [of A B lo lo' i j])
  show ?thesis
  proof (cases "\<exists>p \<in> set prev. fst p + 1 = j")
    case True
    then obtain p where p: "p \<in> set prev" "fst p + 1 = j" "match_length prev j = snd p + 1"
      using match_length_cases [of prev j] by blast
    then have "lo' < j" "snd p = run A B lo lo' (i - 1) (j - 1)" using s by auto
    then show ?thesis using p(3) r by simp
  next
    case none: False
    then have "match_length prev j = 1" using match_length_cases [of prev j] by blast
    moreover have "run A B lo lo' (i - 1) (j - 1) = 0" if "lo' < j"
    proof (rule ccontr)
      assume "run A B lo lo' (i - 1) (j - 1) \<noteq> 0"
      then have "(j - 1, run A B lo lo' (i - 1) (j - 1)) \<in> set prev" using s that j by (auto simp: run_pos)
      then show False using none that by force
    qed
    ultimately show ?thesis using r by simp
  qed
qed

text \<open>The best match so far: a common block inside the window, at least as long as every block seen.\<close>

definition best_ok :: "(nat \<Rightarrow> size_t) \<Rightarrow> (nat \<Rightarrow> size_t) \<Rightarrow> nat \<Rightarrow> nat \<Rightarrow> nat \<Rightarrow> nat \<Rightarrow> (nat \<times> nat) set \<Rightarrow> lcs_match \<Rightarrow> bool" where
  "best_ok A B lo hi lo' hi' seen m \<longleftrightarrow>
     lo \<le> m_i m \<and> m_i m + m_size m \<le> hi \<and> lo' \<le> m_j m \<and> m_j m + m_size m \<le> hi' \<and>
     common_block A B (m_i m) (m_j m) (m_size m) \<and> (\<forall>(i, j) \<in> seen. run A B lo lo' i j \<le> m_size m)"

lemma match_step_ok:
  assumes prev: "i = lo \<and> prev = [] \<or> lo < i \<and> lengths_at A B lo lo' hi' (i - 1) prev"
    and i: "lo \<le> i" "i < hi" and j: "lo' \<le> j" "j < hi'" "A i = B j"
    and best: "best_ok A B lo hi lo' hi' seen best"
  shows "\<exists>best'. match_step mods lo hi lo' hi' i prev (cur, best) j = Some (cur @ [(j, run A B lo lo' i j)], best') \<and>
    best_ok A B lo hi lo' hi' (insert (i, j) seen) best'"
proof -
  let ?n = "run A B lo lo' i j"
  have n: "match_length prev j = ?n" by (rule match_length_run [OF prev j])
  note blk = run_block [OF i(1) j(1), of A B]
  have new: "best_ok A B lo hi lo' hi' (insert (i, j) seen) \<lparr>m_i = i + 1 - ?n, m_j = j + 1 - ?n, m_size = ?n, m_modified = x\<rparr>"
    if "m_size best \<le> ?n" for x
    using blk i j that best by (fastforce simp: best_ok_def)
  have old: "best_ok A B lo hi lo' hi' (insert (i, j) seen) (best\<lparr>m_modified := x\<rparr>)" if "?n \<le> m_size best" for x
    using that best by (auto simp: best_ok_def)
  have chk: "lo \<le> m_i m \<and> m_i m + m_size m \<le> hi \<and> lo' \<le> m_j m \<and> m_j m + m_size m \<le> hi'"
    if "best_ok A B lo hi lo' hi' (insert (i, j) seen) m" for m using that by (auto simp: best_ok_def)
  let ?best = "better_match mods i j ?n best"
  have bo: "best_ok A B lo hi lo' hi' (insert (i, j) seen) best" if "?n \<le> m_size best"
    using old [OF that, of "m_modified best"] by simp
  have ok: "best_ok A B lo hi lo' hi' (insert (i, j) seen) ?best"
    using new old bo by (auto simp: better_match_def Let_def)
  then have "match_step mods lo hi lo' hi' i prev (cur, best) j = Some (cur @ [(j, ?n)], ?best)"
    using chk [OF ok] by (simp add: match_step_def Let_def n)
  with ok show ?thesis by blast
qed

lemma match_row_ok:
  assumes prev: "i = lo \<and> prev = [] \<or> lo < i \<and> lengths_at A B lo lo' hi' (i - 1) prev" and i: "lo \<le> i" "i < hi"
    and js: "\<forall>j \<in> set js. lo' \<le> j \<and> j < hi' \<and> A i = B j" and best: "best_ok A B lo hi lo' hi' seen best"
  shows "\<exists>best'. match_row mods lo hi lo' hi' i prev (cur, best) js = Some (cur @ map (\<lambda>j. (j, run A B lo lo' i j)) js, best') \<and>
    best_ok A B lo hi lo' hi' ((\<lambda>j. (i, j)) ` set js \<union> seen) best'"
  using js best
proof (induction js arbitrary: cur best seen)
  case (Cons j js)
  from match_step_ok [OF prev i, where j = j and best = best and seen = seen and mods = mods and cur = cur] Cons.prems
  obtain b1 where
    1: "match_step mods lo hi lo' hi' i prev (cur, best) j = Some (cur @ [(j, run A B lo lo' i j)], b1)"
      "best_ok A B lo hi lo' hi' (insert (i, j) seen) b1" by auto
  from Cons.IH [OF _ 1(2), of "cur @ [(j, run A B lo lo' i j)]"] Cons.prems(1) obtain b2 where
    "match_row mods lo hi lo' hi' i prev (cur @ [(j, run A B lo lo' i j)], b1) js =
       Some (cur @ map (\<lambda>j. (j, run A B lo lo' i j)) (j # js), b2)"
    "best_ok A B lo hi lo' hi' ((\<lambda>j. (i, j)) ` set js \<union> insert (i, j) seen) b2" by auto
  then show ?case using 1(1) by simp
qed simp

section \<open>All rows of the window\<close>

text \<open>\<open>b\<close> finds the view positions of every row of \<open>a\<close>.\<close>

definition finds :: "lcs_row list \<Rightarrow> (nat \<Rightarrow> size_t) \<Rightarrow> (nat \<Rightarrow> size_t) \<Rightarrow> nat \<Rightarrow> nat \<Rightarrow> bool" where
  "finds b A B n n' \<longleftrightarrow> (\<forall>i < n. \<forall>lo' hi'. hi' \<le> n' \<longrightarrow>
     (\<exists>js. b_matches b (A i) lo' hi' = Some js \<and> set js = {j. lo' \<le> j \<and> j < hi' \<and> A i = B j}))"

lemma match_rows_ok:
  assumes b: "finds b A B n n'" and a: "\<forall>i < n. r_row (a ! i) = A i" and w: "hi \<le> n" "hi' \<le> n'"
    and i: "lo \<le> i" "i \<le> hi" and cur: "i = lo \<and> cur = [] \<or> lo < i \<and> lengths_at A B lo lo' hi' (i - 1) cur"
    and best: "best_ok A B lo hi lo' hi' seen best"
  shows "\<exists>m. match_rows a b mods lo hi lo' hi' cur best [i..<hi] = Some m \<and>
    best_ok A B lo hi lo' hi' (seen \<union> {(i', j). i \<le> i' \<and> i' < hi \<and> lo' \<le> j \<and> j < hi' \<and> A i' = B j}) m"
  using i cur best
proof (induction "hi - i" arbitrary: i cur best seen)
  case 0
  then have "i = hi" by simp
  have e: "seen \<union> {(i', j). i \<le> i' \<and> i' < hi \<and> lo' \<le> j \<and> j < hi' \<and> A i' = B j} = seen"
    using \<open>i = hi\<close> by auto
  have "[i..<hi] = []" using \<open>i = hi\<close> by simp
  then show ?case unfolding e using 0(5) by auto
next
  case (Suc d)
  then have lt: "i < hi" by simp
  then have up: "[i..<hi] = i # [Suc i..<hi]" by (simp add: upt_conv_Cons)
  obtain js where js: "b_matches b (A i) lo' hi' = Some js" "set js = {j. lo' \<le> j \<and> j < hi' \<and> A i = B j}"
    using b lt w unfolding finds_def by (meson less_le_trans)
  from match_row_ok [OF Suc.prems(3,1) lt _ Suc.prems(4), where js = js and mods = mods and cur = "[]"] js(2) obtain b1 where
    1: "match_row mods lo hi lo' hi' i cur ([], best) js = Some (map (\<lambda>j. (j, run A B lo lo' i j)) js, b1)"
      "best_ok A B lo hi lo' hi' ((\<lambda>j. (i, j)) ` set js \<union> seen) b1" by auto
  let ?cur = "map (\<lambda>j. (j, run A B lo lo' i j)) js"
  have "lengths_at A B lo lo' hi' i ?cur" using js(2) by (auto simp: lengths_at_def)
  then have "Suc i = lo \<and> ?cur = [] \<or> lo < Suc i \<and> lengths_at A B lo lo' hi' (Suc i - 1) ?cur" using Suc.prems(1) by simp
  have "d = hi - Suc i" "lo \<le> Suc i" "Suc i \<le> hi" using Suc.hyps(2) Suc.prems(1) lt by auto
  from Suc.hyps(1) [OF this \<open>Suc i = lo \<and> ?cur = [] \<or> lo < Suc i \<and> lengths_at A B lo lo' hi' (Suc i - 1) ?cur\<close> 1(2)] obtain m where
    2: "match_rows a b mods lo hi lo' hi' ?cur b1 [Suc i..<hi] = Some m"
      "best_ok A B lo hi lo' hi' ((\<lambda>j. (i, j)) ` set js \<union> seen \<union>
         {(i', j). Suc i \<le> i' \<and> i' < hi \<and> lo' \<le> j \<and> j < hi' \<and> A i' = B j}) m" by blast
  have r: "match_rows a b mods lo hi lo' hi' cur best [i..<hi] = Some m"
    unfolding up using a lt w js(1) 1(1) 2(1) by simp
  have e: "(\<lambda>j. (i, j)) ` set js \<union> seen \<union> {(i', j). Suc i \<le> i' \<and> i' < hi \<and> lo' \<le> j \<and> j < hi' \<and> A i' = B j} =
      seen \<union> {(i', j). i \<le> i' \<and> i' < hi \<and> lo' \<le> j \<and> j < hi' \<and> A i' = B j}"
    using lt by (auto simp: js(2) Suc_le_eq le_less)
  show ?case by (rule exI [of _ m], rule conjI [OF r]) (rule 2(2) [unfolded e])
qed

lemma find_longest_match_ok:
  assumes b: "finds b A B n n'" and a: "\<forall>i < n. r_row (a ! i) = A i" and w: "lo \<le> hi" "hi \<le> n" "lo' \<le> hi'" "hi' \<le> n'"
  shows "\<exists>m. find_longest_match a b mods lo hi lo' hi' = Some m \<and>
    lo \<le> m_i m \<and> m_i m + m_size m \<le> hi \<and> lo' \<le> m_j m \<and> m_j m + m_size m \<le> hi' \<and>
    common_block A B (m_i m) (m_j m) (m_size m) \<and>
    (\<forall>p q k. lo \<le> p \<and> p + k \<le> hi \<and> lo' \<le> q \<and> q + k \<le> hi' \<and> common_block A B p q k \<longrightarrow> k \<le> m_size m)"
proof -
  have "best_ok A B lo hi lo' hi' {} \<lparr>m_i = lo, m_j = lo', m_size = 0, m_modified = 0\<rparr>"
    using w by (simp add: best_ok_def common_block_def)
  from match_rows_ok [OF b a w(2,4) le_refl w(1) _ this, where cur = "[]" and mods = mods] obtain m where
    m: "find_longest_match a b mods lo hi lo' hi' = Some m"
      "best_ok A B lo hi lo' hi' {(i', j). lo \<le> i' \<and> i' < hi \<and> lo' \<le> j \<and> j < hi' \<and> A i' = B j} m"
    by (auto simp: find_longest_match_def)
  have "k \<le> m_size m" if k: "lo \<le> p" "p + k \<le> hi" "lo' \<le> q" "q + k \<le> hi'" "common_block A B p q k" for p q k
  proof (cases k)
    case (Suc l)
    then have "A (p + l) = B (q + l)" using k(5) by (simp add: common_block_def)
    then have "run A B lo lo' (p + l) (q + l) \<le> m_size m" using m(2) k Suc by (auto simp: best_ok_def)
    moreover have "Suc l \<le> run A B lo lo' (p + l) (q + l)" using run_longest k Suc by blast
    ultimately show ?thesis using Suc by simp
  qed simp
  then show ?thesis using m by (auto simp: best_ok_def)
qed

section \<open>The chain of matches\<close>

fun chain :: "(nat \<Rightarrow> size_t) \<Rightarrow> (nat \<Rightarrow> size_t) \<Rightarrow> nat \<Rightarrow> nat \<Rightarrow> lcs_match list \<Rightarrow> nat \<Rightarrow> nat \<Rightarrow> bool" where
  "chain A B i j [] hi hi' \<longleftrightarrow> i \<le> hi \<and> j \<le> hi'"
| "chain A B i j (m # ms) hi hi' \<longleftrightarrow> i \<le> m_i m \<and> j \<le> m_j m \<and> common_block A B (m_i m) (m_j m) (m_size m) \<and>
     chain A B (m_i m + m_size m) (m_j m + m_size m) ms hi hi'"

lemma chain_append:
  "chain A B i j ms (m_i m) (m_j m) \<Longrightarrow> common_block A B (m_i m) (m_j m) (m_size m) \<Longrightarrow>
     chain A B (m_i m + m_size m) (m_j m + m_size m) ms' hi hi' \<Longrightarrow> chain A B i j (ms @ m # ms') hi hi'"
  by (induction ms arbitrary: i j) auto

lemma find_longest_matches_ok:
  assumes b: "finds b A B n n'" and a: "\<forall>i < n. r_row (a ! i) = A i" and w: "lo \<le> hi" "hi \<le> n" "lo' \<le> hi'" "hi' \<le> n'"
    and same: "n = n'"
  shows "\<exists>ms. find_longest_matches a b mods lo hi lo' hi' = Some ms \<and> chain A B lo lo' ms hi hi'"
  using w
proof (induction "hi - lo" arbitrary: lo hi lo' hi' rule: less_induct)
  case less
  from find_longest_match_ok [OF b a less.prems, of mods] obtain m where
    m: "find_longest_match a b mods lo hi lo' hi' = Some m" "lo \<le> m_i m" "m_i m + m_size m \<le> hi" "lo' \<le> m_j m"
      "m_j m + m_size m \<le> hi'" "common_block A B (m_i m) (m_j m) (m_size m)" by blast
  show ?case
  proof (cases "m_size m = 0")
    case True
    then have "find_longest_matches a b mods lo hi lo' hi' = Some []"
      using m(1) by (simp add: find_longest_matches.simps [of a b mods lo hi lo' hi'])
    then show ?thesis using less.prems by auto
  next
    case False
    have "\<exists>xs. (if lo < m_i m \<and> lo' < m_j m then find_longest_matches a b mods lo (m_i m) lo' (m_j m) else Some []) = Some xs \<and>
        chain A B lo lo' xs (m_i m) (m_j m)"
    proof (cases "lo < m_i m \<and> lo' < m_j m")
      case True
      have "m_i m - lo < hi - lo" using m(2,3) False by linarith
      then show ?thesis using less.hyps [of "m_i m" lo lo' "m_j m"] m(2-5) True less.prems by simp
    qed (use m(2,4) in auto)
    then obtain xs where xs: "(if lo < m_i m \<and> lo' < m_j m then find_longest_matches a b mods lo (m_i m) lo' (m_j m) else Some []) = Some xs"
      "chain A B lo lo' xs (m_i m) (m_j m)" by blast
    let ?c = "m_i m + m_size m < hi' \<and> m_j m + m_size m < hi'"
    have "\<exists>ys. (if ?c then find_longest_matches a b mods (m_i m + m_size m) hi (m_j m + m_size m) hi' else Some []) = Some ys \<and>
        chain A B (m_i m + m_size m) (m_j m + m_size m) ys hi hi'"
    proof (cases ?c)
      case True
      have "hi - (m_i m + m_size m) < hi - lo" using m(2,3) False by linarith
      then show ?thesis using True less.hyps [of hi "m_i m + m_size m" "m_j m + m_size m" hi'] m(2-5) False less.prems by simp
    qed (use m(3,5) in auto)
    then obtain ys where ys: "(if ?c then find_longest_matches a b mods (m_i m + m_size m) hi (m_j m + m_size m) hi' else Some []) = Some ys"
      "chain A B (m_i m + m_size m) (m_j m + m_size m) ys hi hi'" by blast
    have "find_longest_matches a b mods lo hi lo' hi' = Some (xs @ m # ys)"
      using m(1) False xs(1) ys(1) by (simp add: find_longest_matches.simps [of a b mods lo hi lo' hi'])
    then show ?thesis using chain_append [OF xs(2) m(6) ys(2)] by blast
  qed
qed

end
