(* ===== verification/Change_Calc_Laws.thy ===== *)
theory Change_Calc_Laws
  imports Change_Calc_Lcs Change_Rows
begin

text \<open>
  The calculated record: the positions outside the deletions and outside the insertions show the same table rows in the same
  order, so that the debug-mode replay of \<open>calculate\<close> always succeeds.
\<close>

section \<open>Kept positions\<close>

lemma keep_filter: "keep S xs = map ((!) xs) (filter (\<lambda>i. i \<notin> S) [0..<length xs])"
proof (induction xs rule: rev_induct)
  case (snoc x xs)
  have "map ((!) (xs @ [x])) (filter (\<lambda>i. i \<notin> S) [0..<length xs]) = map ((!) xs) (filter (\<lambda>i. i \<notin> S) [0..<length xs])"
    by (auto simp: nth_append)
  then show ?case using snoc by (simp add: keep_snoc)
qed simp

lemma keep_positions:
  assumes "sorted_wrt (<) ps" "set ps = {..<length xs} - S"
  shows "keep S xs = map ((!) xs) ps"
proof -
  have "sorted_wrt (<) (filter (\<lambda>i. i \<notin> S) [0..<length xs])"
    by (rule sorted_wrt_filter) (rule sorted_wrt_upt)
  moreover have "set (filter (\<lambda>i. i \<notin> S) [0..<length xs]) = set ps" using assms(2) by auto
  ultimately have "filter (\<lambda>i. i \<notin> S) [0..<length xs] = ps" using assms(1) by (intro strict_sorted_equal)
  then show ?thesis by (simp add: keep_filter)
qed

lemma tracks_positions:
  assumes "finite D" "finite I" "D \<subseteq> {..<length old}" "I \<subseteq> {..<length new}"
    and "sorted_wrt (<) ps" "set ps = {..<length old} - D" "sorted_wrt (<) qs" "set qs = {..<length new} - I"
    and "map ((!) old) ps = map ((!) new) qs"
  shows "tracks old new D I"
  using assms keep_positions [of ps old D] keep_positions [of qs new I] by (simp add: tracks_def)

section \<open>The replay\<close>

lemma erase_ranges_keep:
  assumes "ranges_ok rs" "span rs \<subseteq> {..<length xs}"
  shows "erase_ranges (rev rs) xs = Some (keep (span rs) xs)"
  using assms
proof (induction rs arbitrary: xs rule: rev_induct)
  case (snoc r rs)
  let ?T = "{fst r..<snd r}" and ?ys = "take (fst r) xs @ drop (snd r) xs"
  have ok: "ranges_ok rs" "fst r < snd r" "\<forall>q \<in> set rs. snd q < fst r"
    using snoc.prems(1) by (auto simp: ranges_ok_append ranges_ok_Cons)
  have "snd r - 1 \<in> span (rs @ [r])" using ok(2) by auto
  then have "snd r - 1 < length xs" using snoc.prems(2) by blast
  then have le: "snd r \<le> length xs" using ok(2) by linarith
  have below: "span rs \<subseteq> {..<fst r}" using ok(3) by (fastforce simp: span_def)
  have "keep {fst r..<fst r + (snd r - fst r)} (take (fst r) xs @ drop (fst r) (take (snd r) xs) @ drop (snd r) xs) = ?ys"
    using ok(2) le by (intro keep_interval) auto
  moreover have "take (fst r) xs @ drop (fst r) (take (snd r) xs) @ drop (snd r) xs = xs"
    using ok(2) append_take_drop_id [of "fst r" "take (snd r) xs"] by (simp add: min_def append_assoc [symmetric] del: append_assoc)
  ultimately have k: "keep ?T xs = ?ys" using ok(2) by simp
  have "shift_in ?T ` span rs = span rs"
  proof -
    have "shift_in ?T i = i" if "i \<in> span rs" for i
    proof -
      have "i < fst r" using below that by auto
      then have "?T \<inter> {..<i} = {}" "i \<notin> ?T" by auto
      then show ?thesis by (intro shift_in_eqI) (simp_all add: unshift_in_def rank_def)
    qed
    then show ?thesis by simp
  qed
  then have kk: "keep (span rs) ?ys = keep (?T \<union> span rs) xs" using keep_keep [of ?T "span rs" xs] k by simp
  have "span rs \<subseteq> {..<length ?ys}" using below ok(2) le by auto
  from snoc.IH [OF ok(1) this] show ?case using le kk by (simp add: Un_commute)
qed simp

lemma insert_rows_keep:
  "sorted_wrt (<) is \<Longrightarrow> set is \<subseteq> {..<length xs} \<Longrightarrow> insert_rows is xs (keep (set is) xs) = Some xs"
proof (induction "is")
  case (Cons i "is")
  let ?S = "set (i # is)"
  have i: "i \<in> ?S" "i < length xs" "i \<notin> set is" using Cons.prems by auto
  have "?S \<inter> {..<i} = {}" using Cons.prems(1) by auto
  then have u: "unshift_in ?S i = i" by (simp only: unshift_in_def rank_def card.empty diff_zero)
  have le: "i \<le> length (keep ?S xs)" using unshift_in_mono [of i "length xs" ?S] u i(2) by (simp add: length_keep)
  have "keep (set is) xs = take i (keep ?S xs) @ [xs ! i] @ drop i (keep ?S xs)"
    using keep_put_back [OF i(1,2)] u i(3) by simp
  then show ?case using le i(2) Cons by simp
qed simp

lemma replays_tracks:
  assumes t: "tracks old new D I" and d: "rep K (deletions c) D" and i: "rep K (insertions c) I"
  shows "replays c old new"
proof -
  have b: "D \<subseteq> {..<length old}" "I \<subseteq> {..<length new}" "keep D old = keep I new" using t by (auto simp: tracks_def)
  have D: "ranges_ok (flat (deletions c))" "span (flat (deletions c)) = D"
    using d by (auto simp: rep_def vec_ok_def indices_def)
  have I: "sorted_wrt (<) (as_indexes (insertions c))" "set (as_indexes (insertions c)) = I"
    using i sorted_as_indexes [of K "insertions c"] by (auto simp: rep_def set_as_indexes)
  have "erase_ranges (rev (flat (deletions c))) old = Some (keep D old)"
    using erase_ranges_keep [OF D(1), of old] b(1) D(2) by simp
  moreover have "insert_rows (as_indexes (insertions c)) new (keep I new) = Some new"
    using insert_rows_keep [OF I(1), of new] b(2) I(2) by simp
  ultimately show ?thesis using b(3) by (simp add: replays_def)
qed

section \<open>Adding positions\<close>

lemma add_each_rep: "rep K d S \<Longrightarrow> \<exists>d'. add_each K d xs = Some d' \<and> rep K d' (S \<union> set xs)"
proof (induction xs arbitrary: d S)
  case (Cons x xs)
  from ixs.ins [OF Cons.prems, of x] obtain d1 where d1: "add K d x = Some d1" "rep K d1 (insert x S)" by blast
  from Cons.IH [OF d1(2)] show ?case using d1(1) by auto
qed auto

section \<open>The view positions of a table row\<close>

lemma b_range_set:
  assumes "sorted (map r_tv (takeWhile (\<lambda>r. r_row r = ai) rs))"
  shows "set (b_range ai lo hi rs) = {j \<in> r_tv ` set (takeWhile (\<lambda>r. r_row r = ai) rs). lo \<le> j \<and> j < hi}"
  using assms
proof (induction rs)
  case (Cons r rs)
  show ?case
  proof (cases "r_row r = ai")
    case True
    then have le: "\<forall>x \<in> set (takeWhile (\<lambda>r. r_row r = ai) rs). r_tv r \<le> r_tv x" using Cons.prems by simp
    show ?thesis
    proof (cases "lo \<le> r_tv r \<and> hi \<le> r_tv r")
      case True
      then show ?thesis using \<open>r_row r = ai\<close> le by fastforce
    next
      case False
      then show ?thesis using True Cons by auto
    qed
  qed simp
qed simp

lemma takeWhile_dropWhile_sorted:
  fixes f :: "'a \<Rightarrow> 'b :: linorder"
  assumes "sorted (map f xs)"
  shows "takeWhile (\<lambda>x. f x = k) (dropWhile (\<lambda>x. f x < k) xs) = filter (\<lambda>x. f x = k) xs"
  using assms
proof (induction xs)
  case (Cons x xs)
  have "filter (\<lambda>x. f x = k) xs = []" if "k < f x"
    using Cons.prems that by (auto simp: filter_empty_conv)
  moreover have "takeWhile (\<lambda>x. f x = k) xs = filter (\<lambda>x. f x = k) xs" if "f x = k"
  proof -
    have "dropWhile (\<lambda>x. f x < k) xs = xs" using Cons.prems that by (cases xs) auto
    then show ?thesis using Cons by simp
  qed
  ultimately show ?case using Cons by (cases "f x < k"; cases "f x = k") auto
qed simp

lemma b_matches_rows:
  fixes rows :: "row_info list"
  defines "b \<equiv> sort_key r_row (map2 (\<lambda>r i. \<lparr>r_row = row_index r, r_tv = i\<rparr>) rows [0..<length rows])"
  assumes k: "k < length rows" "row_index (rows ! k) = ai" and hi: "hi \<le> length rows"
  shows "\<exists>js. b_matches b ai lo hi = Some js \<and> set js = {j. lo \<le> j \<and> j < hi \<and> ai = row_index (rows ! j)}"
proof -
  let ?xs = "map2 (\<lambda>r i. \<lparr>r_row = row_index r, r_tv = i\<rparr>) rows [0..<length rows]"
  let ?it = "dropWhile (\<lambda>r. r_row r < ai) b" and ?g = "\<lambda>r. r_row r = ai"
  have "takeWhile ?g ?it = filter ?g b"
    unfolding b_def by (rule takeWhile_dropWhile_sorted) simp
  also have "\<dots> = filter ?g ?xs" unfolding b_def by (rule sort_key_stable)
  finally have tw: "takeWhile ?g ?it = filter ?g ?xs" .
  have xs': "?xs = map (\<lambda>j. \<lparr>r_row = row_index (rows ! j), r_tv = j\<rparr>) [0..<length rows]"
    by (rule nth_equalityI) simp_all
  have xs: "map r_tv ?xs = [0..<length rows]" unfolding xs' by (simp add: comp_def)
  have "sorted (map r_tv (filter ?g ?xs))"
    by (rule sorted_filter) (simp only: xs sorted_upt)
  then have s: "set (b_range ai lo hi ?it) = {j \<in> r_tv ` set (filter ?g ?xs). lo \<le> j \<and> j < hi}"
    using b_range_set [of ai ?it lo hi] by (simp add: tw)
  have e: "r_tv ` set (filter ?g ?xs) = {j. j < length rows \<and> row_index (rows ! j) = ai}"
    unfolding xs' by (auto simp: filter_map image_image comp_def)
  then have "k \<in> r_tv ` set (filter ?g ?xs)" using k by simp
  then have "filter ?g ?xs \<noteq> []" by (cases "filter ?g ?xs") simp_all
  then have "?it \<noteq> [] \<and> r_row (hd ?it) = ai" using tw by (cases ?it) (auto split: if_splits)
  then have "b_matches b ai lo hi = Some (b_range ai lo hi ?it)" by (simp add: b_matches_def Let_def)
  moreover have "set (b_range ai lo hi ?it) = {j. lo \<le> j \<and> j < hi \<and> ai = row_index (rows ! j)}"
    unfolding s e using hi by auto
  ultimately show ?thesis by blast
qed

lemma rows_found:
  fixes rows :: "row_info list"
  assumes "\<And>i. i < n \<Longrightarrow> A i \<in> row_index ` set rows"
  shows "finds (sort_key r_row (map2 (\<lambda>r i. \<lparr>r_row = row_index r, r_tv = i\<rparr>) rows [0..<length rows]))
    A (\<lambda>j. row_index (rows ! j)) n (length rows)"
  unfolding finds_def
proof (intro allI impI)
  fix i lo' hi' assume i: "i < n" and hi: "hi' \<le> length rows"
  from assms [OF i] obtain k where "k < length rows" "row_index (rows ! k) = A i" by (auto simp: in_set_conv_nth)
  from b_matches_rows [OF this hi] show "\<exists>js. b_matches (sort_key r_row (map2 (\<lambda>r i. \<lparr>r_row = row_index r, r_tv = i\<rparr>) rows
      [0..<length rows])) (A i) lo' hi' = Some js \<and> set js = {j. lo' \<le> j \<and> j < hi' \<and> A i = row_index (rows ! j)}" .
qed

section \<open>Aligning the matches\<close>

text \<open>
  The rows from \<open>i\<close> on in \<open>a\<close> and from \<open>j\<close> on in \<open>rows\<close> that no deletion and no insertion takes away show the same table rows.
\<close>

definition leftover :: "('a \<Rightarrow> size_t) \<Rightarrow> ('a \<Rightarrow> size_t) \<Rightarrow> size_t set \<Rightarrow> 'a list \<Rightarrow> size_t list" where
  "leftover row tv X xs = map row (filter (\<lambda>x. tv x \<notin> X) xs)"

lemma leftover_append: "leftover row tv X (xs @ ys) = leftover row tv X xs @ leftover row tv X ys"
  by (simp add: leftover_def)

lemma leftover_all: "tv ` set xs \<subseteq> X \<Longrightarrow> leftover row tv X xs = []"
  by (auto simp: leftover_def filter_empty_conv)

lemma leftover_none: "tv ` set xs \<inter> X = {} \<Longrightarrow> leftover row tv X xs = map row xs"
  by (auto simp: leftover_def disjoint_iff filter_id_conv intro!: arg_cong [of _ _ "map row"])

lemma leftover_cong: "(\<And>x. x \<in> set xs \<Longrightarrow> tv x \<in> X \<longleftrightarrow> tv x \<in> Y) \<Longrightarrow> leftover row tv X xs = leftover row tv Y xs"
  by (auto simp: leftover_def intro!: arg_cong [of _ _ "map row"] filter_cong)

lemma drop_blocks:
  assumes "i \<le> p" "p + n \<le> length xs"
  shows "drop i xs = drop i (take p xs) @ take n (drop p xs) @ drop (p + n) xs"
proof -
  have "drop i xs = drop i (take p xs @ drop p xs)" by simp
  also have "\<dots> = drop i (take p xs) @ drop p xs" unfolding drop_append using assms by simp
  also have "drop p xs = take n (drop p xs) @ drop (p + n) xs" by (metis add.commute append_take_drop_id drop_drop)
  finally show ?thesis by simp
qed

lemma chain_bounds: "chain A B i j ms hi hi' \<Longrightarrow> i \<le> hi \<and> j \<le> hi' \<and> (\<forall>m \<in> set ms. m_i m + m_size m \<le> hi \<and> m_j m + m_size m \<le> hi')"
  by (induction ms arbitrary: i j) (force)+

lemma map_nth_segment: "p \<le> length xs \<Longrightarrow> map (\<lambda>k. f (xs ! k)) [i..<p] = map f (drop i (take p xs))"
  by (rule nth_equalityI) auto

lemma disjoint_Un_subset: "A \<inter> B = {} \<Longrightarrow> A \<inter> C = {} \<Longrightarrow> X \<subseteq> C \<Longrightarrow> A \<inter> (B \<union> X) = {}"
  by blast

lemma leftover_parts:
  assumes "distinct (map tv (xs @ ys @ zs))" "X \<subseteq> tv ` set zs"
  shows "leftover row tv (tv ` set xs \<union> X) (xs @ ys @ zs) = map row ys @ leftover row tv X zs"
proof -
  have d: "tv ` set xs \<inter> tv ` set ys = {}" "tv ` set xs \<inter> tv ` set zs = {}" "tv ` set ys \<inter> tv ` set zs = {}"
    using assms(1) unfolding map_append distinct_append set_append set_map by blast+
  have "tv ` set ys \<inter> (tv ` set xs \<union> X) = {}"
    by (rule disjoint_Un_subset [OF _ d(3) assms(2)]) (simp only: d(1) Int_commute)
  then have "leftover row tv (tv ` set xs \<union> X) ys = map row ys" by (rule leftover_none)
  moreover have "leftover row tv (tv ` set xs \<union> X) zs = leftover row tv X zs"
    by (rule leftover_cong) (use d(2) in \<open>simp only: disjoint_iff Un_iff\<close>, use image_eqI in blast)
  moreover have "leftover row tv (tv ` set xs \<union> X) xs = []" by (rule leftover_all) blast
  ultimately show ?thesis by (simp add: leftover_append)
qed

lemma leftover_chain:
  assumes "distinct (map tv xs)" "i \<le> p" "p + n \<le> length xs" "X \<subseteq> tv ` set (drop (p + n) xs)"
  shows "leftover row tv (tv ` set (drop i (take p xs)) \<union> X) (drop i xs) =
    map row (take n (drop p xs)) @ leftover row tv X (drop (p + n) xs)"
proof -
  note e = drop_blocks [OF assms(2,3)]
  have "distinct (map tv (drop i xs))" using assms(1) by (simp add: drop_map [symmetric])
  then have "distinct (map tv (drop i (take p xs) @ take n (drop p xs) @ drop (p + n) xs))" by (simp only: e [symmetric])
  from leftover_parts [OF this assms(4)] show ?thesis by (simp only: e [symmetric])
qed

lemma align_matches_ok:
  fixes rows :: "row_info list" and a :: "lcs_row list"
  assumes da: "distinct (map r_tv a)" and dr: "distinct (map tv_index rows)"
  defines "A \<equiv> \<lambda>i. r_row (a ! i)" and "B \<equiv> \<lambda>j. row_index (rows ! j)"
  assumes "chain A B i j ms (length a) (length rows)" "rep K (deletions c) D" "rep K (insertions c) I" "ms \<noteq> []"
    "m_i (last ms) = length a" "m_j (last ms) = length rows" "m_size (last ms) = 0"
  shows "\<exists>d e X Y. align_matches K a rows i j ms c = Some (c\<lparr>deletions := d, insertions := e\<rparr>) \<and>
    rep K d (D \<union> X) \<and> rep K e (I \<union> Y) \<and> X \<subseteq> r_tv ` set (drop i a) \<and> Y \<subseteq> tv_index ` set (drop j rows) \<and>
    leftover r_row r_tv X (drop i a) = leftover row_index tv_index Y (drop j rows)"
  using assms(5-)
proof (induction ms arbitrary: i j c D I)
  case (Cons m ms)
  let ?p = "m_i m" and ?q = "m_j m" and ?n = "m_size m"
  have m: "i \<le> ?p" "j \<le> ?q" "common_block A B ?p ?q ?n" and ch: "chain A B (?p + ?n) (?q + ?n) ms (length a) (length rows)"
    using Cons.prems(1) by auto
  have b: "?p + ?n \<le> length a" "?q + ?n \<le> length rows" using chain_bounds [OF ch] by auto
  let ?P = "drop i (take ?p a)" and ?Q = "drop j (take ?q rows)"
  have sP: "map (\<lambda>k. r_tv (a ! k)) [i..<?p] = map r_tv ?P" "map (\<lambda>k. tv_index (rows ! k)) [j..<?q] = map tv_index ?Q"
    using b by (simp_all add: map_nth_segment)
  obtain d1 where d1: "add_each K (deletions c) (map r_tv ?P) = Some d1" "rep K d1 (D \<union> r_tv ` set ?P)"
    using add_each_rep [OF Cons.prems(2), of "map r_tv ?P"] by auto
  obtain e1 where e1: "add_each K (insertions c) (map tv_index ?Q) = Some e1" "rep K e1 (I \<union> tv_index ` set ?Q)"
    using add_each_rep [OF Cons.prems(3), of "map tv_index ?Q"] by auto
  let ?c = "c\<lparr>deletions := d1, insertions := e1\<rparr>"
  have "\<exists>d e X Y. align_matches K a rows (?p + ?n) (?q + ?n) ms ?c = Some (?c\<lparr>deletions := d, insertions := e\<rparr>) \<and>
      rep K d (D \<union> r_tv ` set ?P \<union> X) \<and> rep K e (I \<union> tv_index ` set ?Q \<union> Y) \<and>
      X \<subseteq> r_tv ` set (drop (?p + ?n) a) \<and> Y \<subseteq> tv_index ` set (drop (?q + ?n) rows) \<and>
      leftover r_row r_tv X (drop (?p + ?n) a) = leftover row_index tv_index Y (drop (?q + ?n) rows)"
  proof (cases "ms = []")
    case True
    then have "?p = length a" "?q = length rows" "?n = 0" using Cons.prems(5-7) by simp_all
    then show ?thesis using True d1(2) e1(2) by (intro exI [of _ d1] exI [of _ e1] exI [of _ "{}"]) (simp add: leftover_def)
  next
    case False
    then have l: "m_i (last ms) = length a" "m_j (last ms) = length rows" "m_size (last ms) = 0" using Cons.prems(5-7) by simp_all
    show ?thesis by (rule Cons.IH [OF ch _ _ False l]) (use d1(2) e1(2) in simp_all)
  qed
  then obtain d e X Y where r: "align_matches K a rows (?p + ?n) (?q + ?n) ms ?c = Some (?c\<lparr>deletions := d, insertions := e\<rparr>)"
      "rep K d (D \<union> r_tv ` set ?P \<union> X)" "rep K e (I \<union> tv_index ` set ?Q \<union> Y)"
      "X \<subseteq> r_tv ` set (drop (?p + ?n) a)" "Y \<subseteq> tv_index ` set (drop (?q + ?n) rows)"
      "leftover r_row r_tv X (drop (?p + ?n) a) = leftover row_index tv_index Y (drop (?q + ?n) rows)"
    by (elim exE conjE)
  let ?X = "r_tv ` set ?P \<union> X" and ?Y = "tv_index ` set ?Q \<union> Y"
  have "align_matches K a rows i j (m # ms) c = Some (c\<lparr>deletions := d, insertions := e\<rparr>)"
    using m(1,2) d1(1) e1(1) r(1) by (simp only: align_matches.simps sP bind.bind_lunit max_absorb2) simp
  moreover have "rep K d (D \<union> ?X)" "rep K e (I \<union> ?Y)" using r(2,3) by (simp_all only: Un_assoc)
  moreover have "?X \<subseteq> r_tv ` set (drop i a)" "?Y \<subseteq> tv_index ` set (drop j rows)"
    using r(4,5) unfolding drop_blocks [OF m(1) b(1)] drop_blocks [OF m(2) b(2)] by auto
  moreover have "leftover r_row r_tv ?X (drop i a) = leftover row_index tv_index ?Y (drop j rows)"
  proof -
    have "map r_row (take ?n (drop ?p a)) = map row_index (take ?n (drop ?q rows))"
      using b m(3) by (intro nth_equalityI) (simp_all add: common_block_def A_def B_def)
    then show ?thesis
      using leftover_chain [OF da m(1) b(1) r(4), of r_row] leftover_chain [OF dr m(2) b(2) r(5), of row_index] r(6) by simp
  qed
  ultimately show ?case by blast
qed simp

section \<open>Sorted results\<close>

definition by_old_position :: "row_info list \<Rightarrow> lcs_row list" where
  "by_old_position rows = sort_key r_tv (sort_key r_row (map (\<lambda>r. \<lparr>r_row = row_index r, r_tv = prev_tv_index r\<rparr>) rows))"

lemma by_old_position:
  assumes "distinct (map prev_tv_index rows)"
  shows "length (by_old_position rows) = length rows" "set (by_old_position rows) = (\<lambda>r. \<lparr>r_row = row_index r, r_tv = prev_tv_index r\<rparr>) ` set rows"
    "distinct (map r_tv (by_old_position rows))" "sorted_wrt (<) (map r_tv (by_old_position rows))"
proof -
  let ?xs = "map (\<lambda>r. \<lparr>r_row = row_index r, r_tv = prev_tv_index r\<rparr>) rows"
  show "length (by_old_position rows) = length rows" "set (by_old_position rows) = (\<lambda>r. \<lparr>r_row = row_index r, r_tv = prev_tv_index r\<rparr>) ` set rows"
    by (simp_all add: by_old_position_def)
  have "mset (map r_tv (by_old_position rows)) = mset (map prev_tv_index rows)"
    by (simp add: by_old_position_def image_mset.compositionality comp_def)
  then show d: "distinct (map r_tv (by_old_position rows))" using assms mset_eq_imp_distinct_iff by blast
  have "sorted (map r_tv (by_old_position rows))" unfolding by_old_position_def by (rule sorted_sort_key)
  then show "sorted_wrt (<) (map r_tv (by_old_position rows))" using d by (simp add: strict_sorted_iff)
qed

lemma first_difference:
  fixes f :: "'a \<Rightarrow> 'c" and g :: "'b \<Rightarrow> 'c"
  assumes "length xs = length ys"
  defines "n \<equiv> length (takeWhile (\<lambda>p. f (fst p) = g (snd p)) (zip xs ys))"
  shows "n \<le> length xs" "map f (take n xs) = map g (take n ys)"
proof -
  show n: "n \<le> length xs" using length_takeWhile_le [of "\<lambda>p. f (fst p) = g (snd p)" "zip xs ys"] assms(1) by (simp add: n_def)
  have "f (xs ! k) = g (ys ! k)" if "k < n" for k
  proof -
    have "zip xs ys ! k = takeWhile (\<lambda>p. f (fst p) = g (snd p)) (zip xs ys) ! k" using that by (simp add: n_def takeWhile_nth)
    also have "\<dots> \<in> set (takeWhile (\<lambda>p. f (fst p) = g (snd p)) (zip xs ys))" using that by (simp add: n_def)
    finally show ?thesis using set_takeWhileD [of "zip xs ys ! k"] that n assms(1) by fastforce
  qed
  then show "map f (take n xs) = map g (take n ys)" using n assms(1) by (intro nth_equalityI) simp_all
qed

lemma leftover_prefix:
  assumes "distinct (map tv xs)" "X \<subseteq> tv ` set (drop n xs)"
  shows "leftover row tv X xs = map row (take n xs) @ leftover row tv X (drop n xs)"
  using leftover_parts [of tv "[]" "take n xs" "drop n xs" X row] assms by simp

lemma calculate_moves_sorted_ok:
  fixes rows :: "row_info list"
  assumes dp: "distinct (map prev_tv_index rows)" and dt: "distinct (map tv_index rows)"
    and d: "rep K (deletions c) D" and e: "rep K (insertions c) I"
  shows "\<exists>d e X Y. calculate_moves_sorted K rows c = Some (c\<lparr>deletions := d, insertions := e\<rparr>) \<and>
    rep K d (D \<union> X) \<and> rep K e (I \<union> Y) \<and> X \<subseteq> prev_tv_index ` set rows \<and> Y \<subseteq> tv_index ` set rows \<and>
    leftover r_row r_tv X (by_old_position rows) = leftover row_index tv_index Y rows"
proof -
  define a where "a = by_old_position rows"
  note a = by_old_position [OF dp, folded a_def]
  define n where "n = length (takeWhile (\<lambda>p. r_row (fst p) = row_index (snd p)) (zip a rows))"
  note fd = first_difference [OF a(1), of r_row row_index, folded n_def]
  have ta: "r_tv ` set a = prev_tv_index ` set rows" using a(2) by (simp add: image_image)
  show ?thesis
  proof (cases "n = length a")
    case True
    then have "map r_row a = map row_index rows" using fd(2) a(1) by simp
    moreover have "calculate_moves_sorted K rows c = Some (c\<lparr>deletions := deletions c, insertions := insertions c\<rparr>)"
      using True by (simp add: calculate_moves_sorted_def by_old_position_def [symmetric] a_def [symmetric] n_def [symmetric] Let_def)
    ultimately show ?thesis using d e
      by (intro exI [of _ "deletions c"] exI [of _ "insertions c"] exI [of _ "{}"]) (simp add: leftover_def a_def)
  next
    case False
    let ?A = "\<lambda>i. r_row (a ! i)" and ?B = "\<lambda>j. row_index (rows ! j)"
    define b where "b = sort_key r_row (map2 (\<lambda>r i. \<lparr>r_row = row_index r, r_tv = i\<rparr>) rows [0..<length rows])"
    have lb: "length b = length rows" by (simp add: b_def)
    have "?A i \<in> row_index ` set rows" if "i < length a" for i using nth_mem [OF that] a(2) by auto
    then have f: "finds b ?A ?B (length a) (length rows)" unfolding b_def by (rule rows_found)
    from find_longest_matches_ok [OF f _ fd(1) le_refl _ le_refl a(1), of a n] fd(1) a(1) obtain ms where
      ms: "find_longest_matches a b (modifications c) n (length a) n (length rows) = Some ms"
        "chain ?A ?B n n ms (length a) (length rows)" by auto
    let ?z = "\<lparr>m_i = length a, m_j = length rows, m_size = 0, m_modified = 0\<rparr>"
    have ch: "chain ?A ?B n n (ms @ [?z]) (length a) (length rows)"
      using ms(2) by (intro chain_append) (simp_all add: common_block_def)
    from align_matches_ok [OF a(3) dt ch d e] obtain d' e' X Y where
      r: "align_matches K a rows n n (ms @ [?z]) c = Some (c\<lparr>deletions := d', insertions := e'\<rparr>)"
        "rep K d' (D \<union> X)" "rep K e' (I \<union> Y)" "X \<subseteq> r_tv ` set (drop n a)" "Y \<subseteq> tv_index ` set (drop n rows)"
        "leftover r_row r_tv X (drop n a) = leftover row_index tv_index Y (drop n rows)" by auto
    have "calculate_moves_sorted K rows c = Some (c\<lparr>deletions := d', insertions := e'\<rparr>)"
      using False ms(1) r(1) lb unfolding calculate_moves_sorted_def by_old_position_def [symmetric] a_def [symmetric] b_def [symmetric]
        n_def [symmetric] Let_def lcs_matches_def by simp
    moreover have "leftover r_row r_tv X a = leftover row_index tv_index Y rows"
      using leftover_prefix [OF a(3) r(4), of r_row] leftover_prefix [OF dt r(5), of row_index] fd(2) r(6) by simp
    moreover have "X \<subseteq> prev_tv_index ` set rows"
      using r(4) image_mono [OF set_drop_subset [of n a], of r_tv] unfolding ta by (rule subset_trans)
    moreover have "Y \<subseteq> tv_index ` set rows"
      using r(5) image_mono [OF set_drop_subset [of n rows], of tv_index] by (rule subset_trans)
    ultimately show ?thesis using r(2,3) unfolding a_def by blast
  qed
qed

section \<open>The rows of both versions\<close>

lemma old_rows_from_ok:
  assumes "rep K del D"
  shows "\<exists>os del'. old_rows_from K i n del rs = Some (os, del') \<and>
    rep K del' (D \<union> {i + k | k. k < length rs \<and> rs ! k = npos}) \<and>
    map tv_index os = filter (\<lambda>j. rs ! (j - i) \<noteq> npos) [i..<i + length rs] \<and>
    (\<forall>r \<in> set os. row_index r = rs ! (tv_index r - i))"
  using assms
proof (induction rs arbitrary: i n del D)
  case (Cons r rs)
  have shift: "filter (\<lambda>j. rs ! (j - Suc i) \<noteq> npos) [Suc i..<Suc i + length rs] =
      filter (\<lambda>j. (r # rs) ! (j - i) \<noteq> npos) [Suc i..<i + length (r # rs)]"
    by (rule filter_cong) (auto simp: nth_Cons' Suc_diff_Suc)
  have up: "[i..<i + length (r # rs)] = i # [Suc i..<i + length (r # rs)]" by (rule upt_conv_Cons) simp
  have idx: "(r # rs) ! (tv_index x - i) = rs ! (tv_index x - Suc i)" if "Suc i \<le> tv_index x" for x :: row_info
    using that by (simp add: nth_Cons' Suc_diff_Suc)
  have dels: "{i + k | k. k < length (r # rs) \<and> (r # rs) ! k = npos} =
      (if r = npos then {i} else {}) \<union> {Suc i + k | k. k < length rs \<and> rs ! k = npos}" (is "?L = ?R")
  proof (rule set_eqI)
    fix x
    have "x \<in> ?L \<longleftrightarrow> (\<exists>k. k < Suc (length rs) \<and> (r # rs) ! k = npos \<and> x = i + k)" by auto
    also have "\<dots> \<longleftrightarrow> r = npos \<and> x = i \<or> (\<exists>k. k < length rs \<and> rs ! k = npos \<and> x = Suc i + k)"
      unfolding Ex_less_Suc2 [of _ "\<lambda>k. (r # rs) ! k = npos \<and> x = i + k"] by simp
    also have "\<dots> \<longleftrightarrow> x \<in> ?R" by auto
    finally show "x \<in> ?L \<longleftrightarrow> x \<in> ?R" .
  qed
  have mem: "Suc i \<le> tv_index x" if "x \<in> set os" "map tv_index os = filter P [Suc i..<m]" for x os P m
  proof -
    have "tv_index x \<in> set (map tv_index os)" using that(1) by simp
    then show ?thesis unfolding that(2) by simp
  qed
  show ?case
  proof (cases "r = npos")
    case True
    obtain d1 where d1: "add K del i = Some d1" "rep K d1 (insert i D)" using ixs.ins [OF Cons.prems] by blast
    from Cons.IH [OF d1(2), of "Suc i" "Suc n"] obtain os d2 where
      h: "old_rows_from K (Suc i) (Suc n) d1 rs = Some (os, d2)"
        "rep K d2 (insert i D \<union> {Suc i + k | k. k < length rs \<and> rs ! k = npos})"
        "map tv_index os = filter (\<lambda>j. rs ! (j - Suc i) \<noteq> npos) [Suc i..<Suc i + length rs]"
        "\<forall>r \<in> set os. row_index r = rs ! (tv_index r - Suc i)" by blast
    have "map tv_index os = filter (\<lambda>j. (r # rs) ! (j - i) \<noteq> npos) [i..<i + length (r # rs)]"
      unfolding up using h(3) shift True by simp
    moreover have "row_index x = (r # rs) ! (tv_index x - i)" if "x \<in> set os" for x
      using h(4) that idx [OF mem [OF that h(3)]] by simp
    then have "\<forall>x \<in> set os. row_index x = (r # rs) ! (tv_index x - i)" by simp
    moreover have "old_rows_from K i n del (r # rs) = Some (os, d2)" using True d1(1) h(1) by simp
    moreover have "rep K d2 (D \<union> {i + k | k. k < length (r # rs) \<and> (r # rs) ! k = npos})"
      unfolding dels using h(2) True by simp
    ultimately show ?thesis by blast
  next
    case False
    from Cons.IH [OF Cons.prems, of "Suc i" n] obtain os d2 where
      h: "old_rows_from K (Suc i) n del rs = Some (os, d2)"
        "rep K d2 (D \<union> {Suc i + k | k. k < length rs \<and> rs ! k = npos})"
        "map tv_index os = filter (\<lambda>j. rs ! (j - Suc i) \<noteq> npos) [Suc i..<Suc i + length rs]"
        "\<forall>r \<in> set os. row_index r = rs ! (tv_index r - Suc i)" by blast
    let ?o = "\<lparr>row_index = r, prev_tv_index = npos, tv_index = i, shifted_tv_index = i - n\<rparr>"
    have "map tv_index (?o # os) = filter (\<lambda>j. (r # rs) ! (j - i) \<noteq> npos) [i..<i + length (r # rs)]"
      unfolding up using h(3) shift False by simp
    moreover have "row_index x = (r # rs) ! (tv_index x - i)" if "x \<in> set os" for x
      using h(4) that idx [OF mem [OF that h(3)]] by simp
    then have "\<forall>x \<in> set (?o # os). row_index x = (r # rs) ! (tv_index x - i)" by simp
    moreover have "old_rows_from K i n del (r # rs) = Some (?o # os, d2)" using False h(1) by simp
    moreover have "rep K d2 (D \<union> {i + k | k. k < length (r # rs) \<and> (r # rs) ! k = npos})"
      unfolding dels using h(2) False by simp
    ultimately show ?thesis by blast
  qed
qed simp

text \<open>
  What the walk over both versions gives: the new rows with their old positions, the old positions that found no new row, and
  the new positions that found no old row.
\<close>

definition matched :: "row_info list \<Rightarrow> row_info list" where
  "matched ns = filter (\<lambda>r. prev_tv_index r \<noteq> npos) ns"

definition walked :: "row_info list \<Rightarrow> row_info list \<Rightarrow> row_info list \<Rightarrow> size_t set \<Rightarrow> size_t set \<Rightarrow> bool" where
  "walked os ns ns' R I \<longleftrightarrow>
     map tv_index ns' = map tv_index ns \<and> map row_index ns' = map row_index ns \<and>
     distinct (map prev_tv_index (matched ns')) \<and>
     prev_tv_index ` set (matched ns') \<inter> R = {} \<and> prev_tv_index ` set (matched ns') \<union> R = tv_index ` set os \<and>
     I = tv_index ` (set ns' - set (matched ns')) \<and>
     (\<forall>r \<in> set (matched ns'). \<exists>q \<in> set os. tv_index q = prev_tv_index r \<and> row_index q = row_index r)"

lemma match_versions_ok:
  assumes "rep K d R" "rep K e I" "distinct (map tv_index os)" "\<forall>r \<in> set os. tv_index r \<noteq> npos"
    "\<forall>r \<in> set ns. prev_tv_index r = npos"
  shows "\<exists>ns' d' e' R' I'. match_versions K os ns d e = Some (ns', d', e') \<and> rep K d' (R \<union> R') \<and> rep K e' (I \<union> I') \<and>
    walked os ns ns' R' I'"
  using assms
proof (induction K os ns d e arbitrary: R I rule: match_versions.induct)
  case (1 K old os new ns d e)
  show ?case
  proof (cases "row_index old = row_index new")
    case True
    from 1(1) [OF True 1(4,5)] 1(6-8) obtain ns' d' e' R' I' where
      h: "match_versions K os ns d e = Some (ns', d', e')" "rep K d' (R \<union> R')" "rep K e' (I \<union> I')" "walked os ns ns' R' I'" by auto
    let ?n = "new\<lparr>prev_tv_index := tv_index old, shifted_tv_index := shifted_tv_index old\<rparr>"
    have r: "match_versions K (old # os) (new # ns) d e = Some (?n # ns', d', e')" using True h(1) by simp
    have fresh: "tv_index old \<notin> tv_index ` set os" "tv_index old \<noteq> npos" using 1(6,7) by auto
    have "matched (?n # ns') = ?n # matched ns'" using fresh(2) by (simp add: matched_def)
    moreover have "tv_index ` (set (?n # ns') - set (?n # matched ns')) = tv_index ` (set ns' - set (matched ns'))"
      using fresh(2) by (auto simp: matched_def)
    ultimately have "walked (old # os) (new # ns) (?n # ns') R' I'"
      using h(4) fresh True unfolding walked_def by (simp only:) auto
    then show ?thesis using r h(2,3) by blast
  next
    case False
    show ?thesis
    proof (cases "row_index old < row_index new")
      case True
      from ixs.ins [OF 1(4), of "tv_index old"] obtain d1 where
        d1: "add K d (tv_index old) = Some d1" "rep K d1 (insert (tv_index old) R)" by blast
      from 1(2) [OF False True d1(1,2) 1(5)] 1(6-8) obtain ns' d' e' R' I' where
        h: "match_versions K os (new # ns) d1 e = Some (ns', d', e')" "rep K d' (insert (tv_index old) R \<union> R')"
          "rep K e' (I \<union> I')" "walked os (new # ns) ns' R' I'" by auto
      have "match_versions K (old # os) (new # ns) d e = Some (ns', d', e')" using False True d1(1) h(1) by simp
      moreover have "tv_index old \<notin> tv_index ` set os" using 1(6) by simp
      then have "walked (old # os) (new # ns) ns' (insert (tv_index old) R') I'" using h(4) unfolding walked_def by auto
      moreover have "insert (tv_index old) R \<union> R' = R \<union> insert (tv_index old) R'" by auto
      ultimately show ?thesis using h(2,3) by metis
    next
      case 2: False
      from ixs.ins [OF 1(5), of "tv_index new"] obtain e1 where
        e1: "add K e (tv_index new) = Some e1" "rep K e1 (insert (tv_index new) I)" by blast
      from 1(3) [OF False 2 e1(1) 1(4) e1(2) 1(6,7)] 1(8) obtain ns' d' e' R' I' where
        h: "match_versions K (old # os) ns d e1 = Some (ns', d', e')" "rep K d' (R \<union> R')"
          "rep K e' (insert (tv_index new) I \<union> I')" "walked (old # os) ns ns' R' I'" by auto
      have "match_versions K (old # os) (new # ns) d e = Some (new # ns', d', e')" using False 2 e1(1) h(1) by simp
      moreover have m: "matched (new # ns') = matched ns'" "new \<notin> set (matched ns')" using 1(8) by (auto simp: matched_def)
      have "walked (old # os) (new # ns) (new # ns') R' (insert (tv_index new) I')"
        using h(4) m(2) unfolding walked_def m(1) by auto
      moreover have "insert (tv_index new) I \<union> I' = I \<union> insert (tv_index new) I'" by auto
      ultimately show ?thesis using h(2,3) by metis
    qed
  qed
next
  case (2 K os d e)
  from add_each_rep [OF 2(1), of "map tv_index os"] obtain d' where
    "add_each K d (map tv_index os) = Some d'" "rep K d' (R \<union> tv_index ` set os)" by auto
  moreover have "walked os [] [] (tv_index ` set os) {}" by (simp add: walked_def matched_def)
  ultimately show ?case using 2(2)
    by (intro exI [of _ "[]"] exI [of _ d'] exI [of _ e] exI [of _ "tv_index ` set os"] exI [of _ "{}"]) simp
next
  case (3 K n ns d e)
  let ?ns = "n # ns"
  from add_each_rep [OF 3(2), of "map tv_index ?ns"] obtain e' where
    "add_each K e (map tv_index ?ns) = Some e'" "rep K e' (I \<union> tv_index ` set ?ns)" by auto
  moreover have "matched ?ns = []" using 3(5) by (auto simp: matched_def filter_empty_conv)
  then have "walked [] ?ns ?ns {} (tv_index ` set ?ns)" by (simp add: walked_def)
  ultimately show ?case using 3(1) by (intro exI [of _ ?ns] exI [of _ d] exI [of _ e'] exI [of _ "{}"] exI [of _ "tv_index ` set ?ns"]) simp
qed

section \<open>The whole calculation\<close>

lemma leftover_keep:
  assumes "sorted_wrt (<) (map tv ys)" "X \<subseteq> tv ` set ys" "\<And>y. y \<in> set ys \<Longrightarrow> tv y < length xs \<and> row y = xs ! tv y"
  shows "leftover row tv X ys = keep ({..<length xs} - tv ` set ys \<union> X) xs"
proof -
  let ?ps = "map tv (filter (\<lambda>y. tv y \<notin> X) ys)"
  have "sorted_wrt (<) ?ps" using assms(1) by (simp add: sorted_wrt_map sorted_wrt_filter)
  moreover have "set ?ps = {..<length xs} - ({..<length xs} - tv ` set ys \<union> X)" using assms(3) by auto
  ultimately have "keep ({..<length xs} - tv ` set ys \<union> X) xs = map ((!) xs) ?ps" by (rule keep_positions)
  also have "\<dots> = leftover row tv X ys" using assms(3) by (simp add: leftover_def)
  finally show ?thesis ..
qed

lemma map2_index: "map2 f xs [0..<length xs] = map (\<lambda>i. f (xs ! i) i) [0..<length xs]"
  by (rule nth_equalityI) simp_all

lemma mset_sort_map: "mset (map f (sort_key g xs)) = mset (map f xs)"
  by simp

lemma distinct_sort_map: "distinct (map f (sort_key g xs)) = distinct (map f xs)"
  using mset_eq_imp_distinct_iff [OF mset_sort_map] .

text \<open>The rows found in both versions, as \<open>calculate\<close> hands them to the move calculation.\<close>

definition both_rows :: "size_t list \<Rightarrow> size_t list \<Rightarrow> size_t set \<Rightarrow> size_t set \<Rightarrow> size_t set \<Rightarrow> row_info list \<Rightarrow> bool" where
  "both_rows prev next D R I rows \<longleftrightarrow>
     distinct (map prev_tv_index rows) \<and> sorted_wrt (<) (map tv_index rows) \<and>
     (\<forall>r \<in> set rows. prev_tv_index r < length prev \<and> prev ! prev_tv_index r = row_index r \<and> row_index r \<noteq> npos \<and>
        tv_index r < length next \<and> next ! tv_index r = row_index r) \<and>
     D \<union> R = {..<length prev} - prev_tv_index ` set rows \<and> I = {..<length next} - tv_index ` set rows"

lemma versions_ok:
  assumes len: "length prev < npos" and K: "even K" "0 < K"
  shows "\<exists>os del ns removed ins D R I.
    old_rows_from K 0 0 [] prev = Some (os, del) \<and>
    match_versions K (sort_key row_index os) (sort_key row_index
      (map2 (\<lambda>r i. \<lparr>row_index = r, prev_tv_index = npos, tv_index = i, shifted_tv_index = 0\<rparr>) next [0..<length next])) [] [] =
      Some (ns, removed, ins) \<and>
    rep K del D \<and> rep K removed R \<and> rep K ins I \<and> both_rows prev next D R I (sort_key tv_index (matched ns))"
proof -
  note nil = rep_Nil [OF K]
  from old_rows_from_ok [OF nil, of 0 0 prev] obtain os del where
    o: "old_rows_from K 0 0 [] prev = Some (os, del)" "rep K del {k. k < length prev \<and> prev ! k = npos}"
      "map tv_index os = filter (\<lambda>j. prev ! j \<noteq> npos) [0..<length prev]" "\<forall>r \<in> set os. row_index r = prev ! tv_index r" by auto
  let ?os = "sort_key row_index os" and ?new = "\<lambda>i. \<lparr>row_index = next ! i, prev_tv_index = npos, tv_index = i, shifted_tv_index = 0\<rparr>"
  define new where "new = sort_key row_index
      (map2 (\<lambda>r i. \<lparr>row_index = r, prev_tv_index = npos, tv_index = i, shifted_tv_index = 0\<rparr>) next [0..<length next])"
  have snew: "set new = ?new ` {..<length next}" by (simp add: new_def map2_index atLeast0LessThan)
  have tos: "tv_index ` set os = {j. j < length prev \<and> prev ! j \<noteq> npos}"
    using arg_cong [OF o(3), of set] by auto
  have dos: "distinct (map tv_index ?os)" unfolding distinct_sort_map o(3) by simp
  have dnew: "distinct (map tv_index new)"
    unfolding new_def distinct_sort_map map2_index by (simp add: comp_def)
  have tv: "\<forall>r \<in> set ?os. tv_index r \<noteq> npos"
  proof
    fix r assume "r \<in> set ?os"
    then have "tv_index r \<in> tv_index ` set os" by simp
    then show "tv_index r \<noteq> npos" unfolding tos using len by auto
  qed
  have pn: "\<forall>r \<in> set new. prev_tv_index r = npos" by (auto simp: snew)
  from match_versions_ok [OF nil nil dos tv pn] obtain ns removed ins R I where
    m: "match_versions K ?os new [] [] = Some (ns, removed, ins)" "rep K removed R" "rep K ins I" "walked ?os new ns R I" by auto
  let ?rows = "sort_key tv_index (matched ns)"
  note w = m(4) [unfolded walked_def]
  have lns: "length ns = length new" using w by (metis length_map)
  have dns: "distinct (map tv_index ns)" using w dnew by simp
  have row: "tv_index r < length next \<and> next ! tv_index r = row_index r" if "r \<in> set ns" for r
  proof -
    from that obtain k where k: "k < length ns" "r = ns ! k" by (auto simp: in_set_conv_nth)
    have "tv_index r = tv_index (new ! k)" "row_index r = row_index (new ! k)"
      using w k lns by (metis nth_map)+
    moreover have "new ! k \<in> set new" using k lns by simp
    ultimately show ?thesis unfolding snew by auto
  qed
  have tns: "tv_index ` set ns = {..<length next}"
  proof -
    have "tv_index ` set ns = tv_index ` set new" using w by (metis set_map)
    then show ?thesis by (simp add: snew image_image)
  qed
  have sub: "set (matched ns) \<subseteq> set ns" by (auto simp: matched_def)
  have I: "I = {..<length next} - tv_index ` set (matched ns)"
  proof -
    have "inj_on tv_index (set ns)" using dns by (simp add: distinct_map)
    then have "tv_index ` (set ns - set (matched ns)) = tv_index ` set ns - tv_index ` set (matched ns)"
      using sub by (intro inj_on_image_set_diff) auto
    then show ?thesis using w tns by simp
  qed
  have "distinct (map tv_index (matched ns))" using dns by (simp add: matched_def distinct_map_filter)
  then have "sorted_wrt (<) (map tv_index ?rows)" using distinct_sort_map [of tv_index tv_index "matched ns"] by (simp add: strict_sorted_iff)
  moreover have "distinct (map prev_tv_index ?rows)" unfolding distinct_sort_map using w by blast
  moreover have "prev_tv_index r < length prev \<and> prev ! prev_tv_index r = row_index r \<and> row_index r \<noteq> npos \<and>
      tv_index r < length next \<and> next ! tv_index r = row_index r" if r: "r \<in> set ?rows" for r
  proof -
    from r have r': "r \<in> set (matched ns)" by simp
    with w obtain q where q: "q \<in> set os" "tv_index q = prev_tv_index r" "row_index q = row_index r" by auto
    then have "tv_index q \<in> {j. j < length prev \<and> prev ! j \<noteq> npos}" using tos by blast
    moreover have "row_index q = prev ! tv_index q" using q(1) o(4) by blast
    ultimately show ?thesis using q(2,3) row [of r] r' sub by auto
  qed
  moreover have "{k. k < length prev \<and> prev ! k = npos} \<union> R = {..<length prev} - prev_tv_index ` set ?rows"
  proof -
    have "prev_tv_index ` set ?rows \<inter> R = {}" "prev_tv_index ` set ?rows \<union> R = {j. j < length prev \<and> prev ! j \<noteq> npos}"
      using w tos by simp_all
    then show ?thesis by auto
  qed
  ultimately have "both_rows prev next {k. k < length prev \<and> prev ! k = npos} R I ?rows"
    using I unfolding both_rows_def by simp
  then show ?thesis using o(1,2) m(1-3) unfolding new_def by blast
qed

text \<open>A record with the deletions \<open>D \<union> X \<union> R\<close> and the insertions \<open>I \<union> Y\<close> when the rest of the rows agree.\<close>

lemma both_rows_tracks:
  assumes b: "both_rows prev next D R I rows" and x: "X \<subseteq> prev_tv_index ` set rows" and y: "Y \<subseteq> tv_index ` set rows"
    and l: "leftover r_row r_tv X (by_old_position rows) = leftover row_index tv_index Y rows"
  shows "tracks prev next (D \<union> X \<union> R) (I \<union> Y)"
proof -
  note u = b [unfolded both_rows_def]
  have dp: "distinct (map prev_tv_index rows)" using u by blast
  note a = by_old_position [OF dp]
  have ta: "r_tv ` set (by_old_position rows) = prev_tv_index ` set rows" using a(2) by (simp add: image_image)
  have "leftover r_row r_tv X (by_old_position rows) = keep ({..<length prev} - r_tv ` set (by_old_position rows) \<union> X) prev"
    by (rule leftover_keep [OF a(4)]) (use x ta u a(2) in auto)
  moreover have "leftover row_index tv_index Y rows = keep ({..<length next} - tv_index ` set rows \<union> Y) next"
    by (rule leftover_keep) (use y u in auto)
  moreover have "{..<length prev} - prev_tv_index ` set rows \<union> X = D \<union> X \<union> R" using u by auto
  ultimately have "keep (D \<union> X \<union> R) prev = keep (I \<union> Y) next" using l ta u by simp
  moreover have "prev_tv_index ` set rows \<subseteq> {..<length prev}" "tv_index ` set rows \<subseteq> {..<length next}" using u by auto
  then have "D \<union> X \<union> R \<subseteq> {..<length prev}" "I \<union> Y \<subseteq> {..<length next}" using x y u by auto
  ultimately show ?thesis by (auto simp: tracks_def intro: finite_subset [of _ "{..<length prev}"] finite_subset [of _ "{..<length next}"])
qed

text \<open>The last steps: adding the removed rows, \<open>verify\<close> and the replay.\<close>

lemma calculate_end:
  assumes ok: "ccb_ok K c" and d: "rep K (deletions c) D" and r: "rep K removed R" and i: "rep K (insertions c) I"
    and t: "tracks prev next (D \<union> R) I" and m: "moves_ok prev next (D \<union> R) I (moves c)" and mm: "move_mapping c = []"
  shows "\<exists>d. add_set K (deletions c) removed = Some d \<and> ccb_verify (c\<lparr>deletions := d\<rparr>) \<and> replays (c\<lparr>deletions := d\<rparr>) prev next \<and>
    ccb_ok K (c\<lparr>deletions := d\<rparr>) \<and> wf_changes prev next (abs_ccb (c\<lparr>deletions := d\<rparr>)) \<and> rep K d (D \<union> R)"
proof -
  obtain d' where d': "add_set K (deletions c) removed = Some d'" "rep K d' (D \<union> R)" using rep_add_set [OF d r] by blast
  let ?c = "c\<lparr>deletions := d'\<rparr>"
  have "ccb_ok K ?c" using ok d'(2) by (simp add: ccb_ok_def rep_def)
  moreover have "ccb_verify ?c"
    using m by (simp add: ccb_verify_def list_all_iff ixs.mem [OF d'(2)] ixs.mem [OF i] moves_ok_def)
  moreover have "replays ?c prev next" by (rule replays_tracks [OF t]) (use d' i in simp_all)
  moreover have "wf_changes prev next (abs_ccb ?c)"
    using t m d'(2) i mm by (simp add: wf_changes_def describes_def abs_ccb_def map_ok_def rep_def)
  ultimately show ?thesis using d' by blast
qed

lemma calculate_start:
  assumes len: "length prev < npos" and K: "even K" "0 < K"
  shows "\<exists>rows d r i m D R I. both_rows prev next D R I rows \<and> rep K d D \<and> rep K r R \<and> rep K i I \<and>
    rep K m {j \<in> tv_index ` set rows. changed (next ! j)} \<and>
    (\<forall>cs. ccb_calculate K prev next changed cs =
      (if cs \<noteq> None \<and> \<not> sorted next then None
       else do {
         (r', c) \<leftarrow> (let c0 = ccb_init\<lparr>deletions := d, insertions := i, modifications := m\<rparr>
           in case cs of Some ms \<Rightarrow> calculate_moves_unsorted K ms rows 0 r c0
              | None \<Rightarrow> map_option (Pair r) (calculate_moves_sorted K rows c0));
         d' \<leftarrow> add_set K (deletions c) r';
         let ret = c\<lparr>deletions := d'\<rparr> in
         if ccb_verify ret \<and> replays ret prev next then Some ret else None }))"
proof -
  from versions_ok [OF len K, of "next"] obtain os del ns removed ins D R I where
    v: "old_rows_from K 0 0 [] prev = Some (os, del)"
      "match_versions K (sort_key row_index os) (sort_key row_index
        (map2 (\<lambda>r i. \<lparr>row_index = r, prev_tv_index = npos, tv_index = i, shifted_tv_index = 0\<rparr>) next [0..<length next])) [] [] =
        Some (ns, removed, ins)"
      "rep K del D" "rep K removed R" "rep K ins I" "both_rows prev next D R I (sort_key tv_index (matched ns))"
    by (elim exE conjE)
  let ?rows = "sort_key tv_index (matched ns)"
  obtain m where m: "add_each K [] (map tv_index (filter (\<lambda>r. changed (row_index r)) ?rows)) = Some m"
    "rep K m (tv_index ` set (filter (\<lambda>r. changed (row_index r)) ?rows))"
    using add_each_rep [OF rep_Nil [OF K], of "map tv_index (filter (\<lambda>r. changed (row_index r)) ?rows)"] by auto
  have "tv_index ` set (filter (\<lambda>r. changed (row_index r)) ?rows) = {j \<in> tv_index ` set ?rows. changed (next ! j)}"
    using v(6) unfolding both_rows_def by force
  then have "rep K m {j \<in> tv_index ` set ?rows. changed (next ! j)}" using m(2) by simp
  moreover have "ccb_calculate K prev next changed cs =
      (if cs \<noteq> None \<and> \<not> sorted next then None
       else do {
         (r', c) \<leftarrow> (let c0 = ccb_init\<lparr>deletions := del, insertions := ins, modifications := m\<rparr>
           in case cs of Some ms \<Rightarrow> calculate_moves_unsorted K ms ?rows 0 removed c0
              | None \<Rightarrow> map_option (Pair removed) (calculate_moves_sorted K ?rows c0));
         d' \<leftarrow> add_set K (deletions c) r';
         let ret = c\<lparr>deletions := d'\<rparr> in
         if ccb_verify ret \<and> replays ret prev next then Some ret else None })" for cs
    unfolding ccb_calculate_def Let_def v(1) v(2) bind.bind_lunit prod.case matched_def [symmetric] m(1) by simp
  ultimately show ?thesis using v(3-6) by blast
qed

lemma calculate_sorted_ok:
  assumes len: "length prev < npos" and K: "even K" "0 < K"
  shows "\<exists>c. ccb_calculate K prev next changed None = Some c \<and> ccb_ok K c \<and> wf_changes prev next (abs_ccb c) \<and> moves c = [] \<and>
    indices (modifications c) \<subseteq> {j. j < length next \<and> changed (next ! j) \<and> next ! j \<in> set prev} \<and>
    {j. j < length next \<and> changed (next ! j)} \<subseteq> indices (modifications c) \<union> indices (insertions c)"
proof -
  from calculate_start [OF len K, of "next" changed] obtain rows d r i m D R I where
    s: "both_rows prev next D R I rows" "rep K d D" "rep K r R" "rep K i I"
      "rep K m {j \<in> tv_index ` set rows. changed (next ! j)}" and
    eq: "\<forall>cs. ccb_calculate K prev next changed cs =
      (if cs \<noteq> None \<and> \<not> sorted next then None
       else do {
         (r', c) \<leftarrow> (let c0 = ccb_init\<lparr>deletions := d, insertions := i, modifications := m\<rparr>
           in case cs of Some ms \<Rightarrow> calculate_moves_unsorted K ms rows 0 r c0
              | None \<Rightarrow> map_option (Pair r) (calculate_moves_sorted K rows c0));
         d' \<leftarrow> add_set K (deletions c) r';
         let ret = c\<lparr>deletions := d'\<rparr> in
         if ccb_verify ret \<and> replays ret prev next then Some ret else None })"
    by (elim exE conjE)
  note u = s(1) [unfolded both_rows_def]
  have dp: "distinct (map prev_tv_index rows)" and dt: "distinct (map tv_index rows)"
    using u by (auto simp: strict_sorted_iff)
  let ?c = "ccb_init\<lparr>deletions := d, insertions := i, modifications := m\<rparr>"
  from calculate_moves_sorted_ok [OF dp dt, of K ?c D I] s(2,4) obtain d1 i1 X Y where
    c: "calculate_moves_sorted K rows ?c = Some (?c\<lparr>deletions := d1, insertions := i1\<rparr>)"
      "rep K d1 (D \<union> X)" "rep K i1 (I \<union> Y)" "X \<subseteq> prev_tv_index ` set rows" "Y \<subseteq> tv_index ` set rows"
      "leftover r_row r_tv X (by_old_position rows) = leftover row_index tv_index Y rows" by auto
  let ?c1 = "?c\<lparr>deletions := d1, insertions := i1\<rparr>"
  note t = both_rows_tracks [OF s(1) c(4-6)]
  have ok: "ccb_ok K ?c1" using c(2,3) s(5) rep_Nil [OF K] by (simp add: ccb_ok_def ccb_init_def rep_def)
  from calculate_end [OF ok _ s(3) _ t] c(2,3) obtain d2 where
    e: "add_set K (deletions ?c1) r = Some d2" "ccb_verify (?c1\<lparr>deletions := d2\<rparr>)" "replays (?c1\<lparr>deletions := d2\<rparr>) prev next"
      "ccb_ok K (?c1\<lparr>deletions := d2\<rparr>)" "wf_changes prev next (abs_ccb (?c1\<lparr>deletions := d2\<rparr>))"
    by (auto simp: moves_ok_def ccb_init_def)
  have "ccb_calculate K prev next changed None = Some (?c1\<lparr>deletions := d2\<rparr>)"
    unfolding eq [rule_format] Let_def option.case c(1) option.map bind.bind_lunit prod.case e(1) using e(2,3) by simp
  moreover have "moves (?c1\<lparr>deletions := d2\<rparr>) = []" by (simp add: ccb_init_def)
  moreover have "indices m = {j \<in> tv_index ` set rows. changed (next ! j)}" using s(5) by (simp add: rep_def)
  moreover have "indices i1 = I \<union> Y" using c(3) by (simp add: rep_def)
  moreover have "next ! tv_index q \<in> set prev" if "q \<in> set rows" for q using u that by (metis nth_mem)
  ultimately show ?thesis using e(4,5) u by (intro exI [of _ "?c1\<lparr>deletions := d2\<rparr>"]) auto
qed

section \<open>Tables without a sort\<close>

lemma unsorted_moves:
  assumes "rep K removed R" "rep K (insertions c) I" "distinct (map prev_tv_index rows)" "distinct (map tv_index rows)"
  shows "\<exists>removed' i ms. calculate_moves_unsorted K cs rows n removed c =
      Some (removed', c\<lparr>moves := moves c @ ms, insertions := i\<rparr>) \<and>
    rep K removed' (R \<union> mv_from ` set ms) \<and> rep K i (I \<union> mv_to ` set ms) \<and>
    distinct (map mv_from ms) \<and> distinct (map mv_to ms) \<and>
    (\<forall>m \<in> set ms. \<exists>r \<in> set rows. mv_from m = prev_tv_index r \<and> mv_to m = tv_index r)"
  using assms
proof (induction rows arbitrary: n removed c R I)
  case Nil
  then show ?case by (intro exI [of _ removed] exI [of _ "insertions c"] exI [of _ "[]"]) simp
next
  case (Cons r rows)
  have d: "distinct (map prev_tv_index rows)" "distinct (map tv_index rows)" using Cons.prems(3,4) by simp_all
  have skip: ?case if "calculate_moves_unsorted K cs (r # rows) n removed c = calculate_moves_unsorted K cs rows n' removed c" for n'
    using Cons.IH [OF Cons.prems(1,2) d, of n'] unfolding that by fastforce
  let ?e = "tv_index r - count_set (insertions c) 0 (tv_index r) + count_set removed 0 (prev_tv_index r)"
  consider "shifted_tv_index r = n" | "shifted_tv_index r \<noteq> n" "\<not> contains cs (row_index r)"
    | "shifted_tv_index r \<noteq> n" "contains cs (row_index r)" "shifted_tv_index r = ?e"
    | "shifted_tv_index r \<noteq> n" "contains cs (row_index r)" "shifted_tv_index r \<noteq> ?e" by blast
  then show ?case
  proof cases
    case 4
    obtain i where i: "add K (insertions c) (tv_index r) = Some i" "rep K i (insert (tv_index r) I)"
      using ixs.ins [OF Cons.prems(2)] by blast
    obtain q where q: "add K removed (prev_tv_index r) = Some q" "rep K q (insert (prev_tv_index r) R)"
      using ixs.ins [OF Cons.prems(1)] by blast
    let ?m = "\<lparr>mv_from = prev_tv_index r, mv_to = tv_index r\<rparr>"
    let ?c = "c\<lparr>moves := moves c @ [?m], insertions := i\<rparr>"
    from Cons.IH [OF q(2) _ d, of ?c "insert (tv_index r) I" n] i(2) obtain q' i' ms where
      h: "calculate_moves_unsorted K cs rows n q ?c = Some (q', ?c\<lparr>moves := moves ?c @ ms, insertions := i'\<rparr>)"
        "rep K q' (insert (prev_tv_index r) R \<union> mv_from ` set ms)" "rep K i' (insert (tv_index r) I \<union> mv_to ` set ms)"
        "distinct (map mv_from ms)" "distinct (map mv_to ms)"
        "\<forall>m \<in> set ms. \<exists>r \<in> set rows. mv_from m = prev_tv_index r \<and> mv_to m = tv_index r" by auto
    have "calculate_moves_unsorted K cs (r # rows) n removed c =
        Some (q', c\<lparr>moves := moves c @ ?m # ms, insertions := i'\<rparr>)"
      using 4 i(1) q(1) h(1) by (simp add: Let_def)
    moreover have "distinct (map mv_from (?m # ms))" "distinct (map mv_to (?m # ms))" using h(4-6) Cons.prems(3,4) by fastforce+
    moreover have "rep K q' (R \<union> mv_from ` set (?m # ms))" "rep K i' (I \<union> mv_to ` set (?m # ms))" using h(2,3) by simp_all
    moreover have "\<forall>m \<in> set (?m # ms). \<exists>r \<in> set (r # rows). mv_from m = prev_tv_index r \<and> mv_to m = tv_index r"
      using h(6) by auto
    ultimately show ?thesis by blast
  qed (rule skip, simp add: Let_def)+
qed

lemma strict_filter_nth:
  assumes "sorted_wrt (<) (filter P xs)" "j < i" "i < length xs" "P (xs ! i)" "P (xs ! j)"
  shows "xs ! j < xs ! i"
proof -
  have "xs = take i xs @ xs ! i # drop (Suc i) xs" using assms(3) by (rule id_take_nth_drop)
  then have "filter P xs = filter P (take i xs) @ xs ! i # filter P (drop (Suc i) xs)" using assms(4) by (metis filter.simps(2) filter_append)
  moreover have "xs ! j \<in> set (filter P (take i xs))" using assms by (force simp: in_set_conv_nth)
  ultimately show ?thesis using assms(1) by (auto simp: sorted_wrt_append)
qed

lemma calculate_unsorted_ok:
  assumes len: "length prev < npos" and K: "even K" "0 < K" and sorted: "sorted next"
  shows "\<exists>c. ccb_calculate K prev next changed (Some cs) = (if replays c prev next then Some c else None) \<and> ccb_ok K c \<and>
    ccb_verify c \<and> moves_ok prev next (indices (deletions c)) (indices (insertions c)) (moves c) \<and>
    (cs = [] \<longrightarrow> moves c = []) \<and>
    (sorted_wrt (<) (filter (\<lambda>r. r \<noteq> npos) prev) \<and> sorted_wrt (<) next \<and> cs = [] \<longrightarrow> replays c prev next)"
proof -
  from calculate_start [OF len K, of "next" changed] obtain rows d r i m D R I where
    s: "both_rows prev next D R I rows" "rep K d D" "rep K r R" "rep K i I"
      "rep K m {j \<in> tv_index ` set rows. changed (next ! j)}" and
    eq: "\<forall>cs. ccb_calculate K prev next changed cs =
      (if cs \<noteq> None \<and> \<not> sorted next then None
       else do {
         (r', c) \<leftarrow> (let c0 = ccb_init\<lparr>deletions := d, insertions := i, modifications := m\<rparr>
           in case cs of Some ms \<Rightarrow> calculate_moves_unsorted K ms rows 0 r c0
              | None \<Rightarrow> map_option (Pair r) (calculate_moves_sorted K rows c0));
         d' \<leftarrow> add_set K (deletions c) r';
         let ret = c\<lparr>deletions := d'\<rparr> in
         if ccb_verify ret \<and> replays ret prev next then Some ret else None })"
    by (elim exE conjE)
  note u = s(1) [unfolded both_rows_def]
  have dp: "distinct (map prev_tv_index rows)" and dt: "distinct (map tv_index rows)"
    using u by (auto simp: strict_sorted_iff)
  let ?c = "ccb_init\<lparr>deletions := d, insertions := i, modifications := m\<rparr>"
  from unsorted_moves [OF s(3) _ dp dt, of ?c I cs 0] s(4) obtain r' i' ms where
    c: "calculate_moves_unsorted K cs rows 0 r ?c = Some (r', ?c\<lparr>moves := moves ?c @ ms, insertions := i'\<rparr>)"
      "rep K r' (R \<union> mv_from ` set ms)" "rep K i' (I \<union> mv_to ` set ms)" "distinct (map mv_from ms)" "distinct (map mv_to ms)"
      "\<forall>m \<in> set ms. \<exists>r \<in> set rows. mv_from m = prev_tv_index r \<and> mv_to m = tv_index r" by auto
  let ?c1 = "?c\<lparr>moves := moves ?c @ ms, insertions := i'\<rparr>"
  obtain d2 where d2: "add_set K d r' = Some d2" "rep K d2 (D \<union> (R \<union> mv_from ` set ms))" using rep_add_set [OF s(2) c(2)] by blast
  let ?ret = "?c1\<lparr>deletions := d2\<rparr>"
  have ms: "moves ?ret = ms" by (simp add: ccb_init_def)
  have m: "moves_ok prev next (indices (deletions ?ret)) (indices (insertions ?ret)) (moves ?ret)"
    unfolding ms moves_ok_def
  proof (intro conjI ballI)
    fix m assume m: "m \<in> set ms"
    then show "mv_from m \<in> indices (deletions ?ret)" "mv_to m \<in> indices (insertions ?ret)"
      using d2(2) c(3) by (simp_all add: rep_def)
    from c(6) m obtain r where "r \<in> set rows" "mv_from m = prev_tv_index r" "mv_to m = tv_index r" by blast
    then show "prev ! mv_from m = next ! mv_to m" using u by simp
  qed (fact c(4,5))+
  have v: "ccb_verify ?ret"
    using m d2(2) c(3) ixs.mem [OF d2(2)] ixs.mem [OF c(3)] by (simp add: ccb_verify_def list_all_iff moves_ok_def rep_def)
  have ok: "ccb_ok K ?ret" using d2(2) c(3) s(5) rep_Nil [OF K] by (simp add: ccb_ok_def ccb_init_def rep_def)
  have "ccb_calculate K prev next changed (Some cs) = (if replays ?ret prev next then Some ?ret else None)"
    unfolding eq [rule_format] Let_def option.case c(1) bind.bind_lunit prod.case using d2(1) v sorted by simp
  moreover have none: "ms = []" if "cs = []"
  proof -
    have "calculate_moves_unsorted K [] rs n r0 c0 = Some (r0, c0)" for rs n r0 c0
    proof (induction rs arbitrary: n)
      case (Cons x xs)
      have "\<not> contains [] i" for i using ixs.mem [OF rep_Nil [OF K]] by simp
      then show ?case using Cons by simp
    qed simp
    from this [of rows 0 r ?c] c(1) have "Some (r, ?c) = Some (r', ?c1)" unfolding that by (rule trans [OF sym])
    then have "?c = ?c1" by (simp only: option.inject prod.inject)
    from arg_cong [OF this, of moves] show ?thesis by (simp add: ccb_init_def)
  qed
  moreover have "replays ?ret prev next" if h: "sorted_wrt (<) (filter (\<lambda>r. r \<noteq> npos) prev)" "sorted_wrt (<) next" "cs = []"
  proof -
    have e: "ms = []" by (rule none [OF h(3)])
    have mono: "prev_tv_index a < prev_tv_index b" if ab: "a \<in> set rows" "b \<in> set rows" "tv_index a < tv_index b" for a b
    proof (rule ccontr)
      assume "\<not> prev_tv_index a < prev_tv_index b"
      have "row_index a < row_index b"
        using u ab sorted_wrt_nth_less [OF h(2), of "tv_index a" "tv_index b"] by auto
      then have "prev_tv_index b < prev_tv_index a" using u ab \<open>\<not> _\<close> by (metis less_irrefl linorder_neqE_nat)
      moreover have "prev_tv_index a < length prev" "prev ! prev_tv_index a = row_index a" "prev ! prev_tv_index b = row_index b"
        "row_index a \<noteq> npos" "row_index b \<noteq> npos" using u ab by auto
      ultimately have "row_index b < row_index a" using strict_filter_nth [OF h(1)] by metis
      then show False using \<open>row_index a < row_index b\<close> by simp
    qed
    have "sorted_wrt (\<lambda>a b. tv_index a < tv_index b) rows" using u by (simp add: sorted_wrt_map)
    then have "sorted_wrt (\<lambda>a b. prev_tv_index a < prev_tv_index b) rows"
      by (rule sorted_wrt_mono_rel [rotated]) (use mono in blast)
    then have sp: "sorted_wrt (<) (map prev_tv_index rows)" by (simp add: sorted_wrt_map)
    have "tracks prev next (D \<union> R) I"
    proof (rule tracks_positions [OF _ _ _ _ sp])
      show "finite (D \<union> R)" "finite I" using ixs.finite s(2-4) by blast+
      show "D \<union> R \<subseteq> {..<length prev}" "I \<subseteq> {..<length next}" "set (map prev_tv_index rows) = {..<length prev} - (D \<union> R)"
        "sorted_wrt (<) (map tv_index rows)" "set (map tv_index rows) = {..<length next} - I"
        "map ((!) prev) (map prev_tv_index rows) = map ((!) next) (map tv_index rows)"
        using u by auto
    qed
    then show ?thesis by (rule replays_tracks) (use d2(2) c(3) e in simp_all)
  qed
  ultimately show ?thesis using m v ok ms by blast
qed

end
