(* ===== verification/Change_Calc_Props.thy ===== *)
theory Change_Calc_Props
  imports Change_Calc_Laws
begin

text \<open>The properties of \<open>calculate\<close> and of the longest common subsequence it uses.\<close>

text \<open>C2: for sorted results, whatever the two versions are (duplicates included), \<open>calculate\<close> hits none of its
  assertions: it returns a well-formed record without moves that leads from the old rows to the new ones, so that its own replay succeeds;
  a row that is in both versions and has changed is reported as modified or as inserted, and only such rows are.\<close>

theorem ccb_calculate_correct:
  assumes "length prev < npos" "even K" "0 < K"
  shows "\<exists>c. ccb_calculate K prev next changed None = Some c \<and> ccb_ok K c \<and> wf_changes prev next (abs_ccb c) \<and>
    replays c prev next \<and> moves c = [] \<and>
    indices (modifications c) \<subseteq> {j. j < length next \<and> changed (next ! j) \<and> next ! j \<in> set prev} \<and>
    {j. j < length next \<and> changed (next ! j)} \<subseteq> indices (modifications c) \<union> indices (insertions c)"
proof -
  from calculate_sorted_ok [OF assms, of "next" changed] obtain c where
    c: "ccb_calculate K prev next changed None = Some c" "ccb_ok K c" "wf_changes prev next (abs_ccb c)" "moves c = []"
      "indices (modifications c) \<subseteq> {j. j < length next \<and> changed (next ! j) \<and> next ! j \<in> set prev}"
      "{j. j < length next \<and> changed (next ! j)} \<subseteq> indices (modifications c) \<union> indices (insertions c)" by blast
  have "replays c prev next"
    using c(3) by (intro replays_tracks [OF _ ok_rep(1,2) [OF c(2)]]) (simp add: wf_changes_def describes_def)
  then show ?thesis using c by blast
qed

theorem ccb_calculate_correct_witness:
  "\<exists>c. ccb_calculate 4 [3, 7, npos, 4, 7] [7, 4, 3, 9] (\<lambda>r. r = 4) None = Some c \<and> replays c [3, 7, npos, 4, 7] [7, 4, 3, 9]"
proof -
  have "length [3, 7, npos, 4, 7] < npos" by (simp add: npos_def)
  from ccb_calculate_correct [OF this, of 4 "[7, 4, 3, 9]" "\<lambda>r. r = 4"] show ?thesis by auto
qed

text \<open>for results in table order, \<open>calculate\<close> with move candidates records only true moves (the same table row at both ends, each end a
  deletion and an insertion), and fails only when its replay does; without candidates, on strictly increasing rows, it always succeeds.\<close>

theorem ccb_calculate_unsorted_correct:
  assumes "length prev < npos" "even K" "0 < K" "sorted next"
  shows "\<exists>c. ccb_calculate K prev next changed (Some candidates) = (if replays c prev next then Some c else None) \<and>
    ccb_ok K c \<and> ccb_verify c \<and> moves_ok prev next (indices (deletions c)) (indices (insertions c)) (moves c) \<and>
    (sorted_wrt (<) (filter (\<lambda>r. r \<noteq> npos) prev) \<and> sorted_wrt (<) next \<and> candidates = [] \<longrightarrow>
       ccb_calculate K prev next changed (Some candidates) = Some c \<and> moves c = [])"
  using calculate_unsorted_ok [OF assms, of changed candidates] by fastforce

theorem ccb_calculate_unsorted_correct_witness:
  "\<exists>c. ccb_calculate 4 [3, npos, 5, 8] [3, 8, 9] (\<lambda>r. False) (Some []) = Some c \<and> moves c = []"
proof -
  have "length [3, npos, 5, 8] < npos" "sorted [3, 8, 9 :: nat]" by (simp_all add: npos_def)
  from ccb_calculate_unsorted_correct [OF this(1) _ _ this(2), of 4 "\<lambda>r. False" "[]"] show ?thesis by (auto simp: npos_def)
qed

text \<open>C32: \<open>find_longest_match\<close> on the rows of the two versions hits none of its assertions and returns a block of equal rows
  inside the two windows that is at least as long as every other such block.\<close>

theorem find_longest_match_correct:
  fixes a :: "lcs_row list" and rows :: "row_info list"
  defines "b \<equiv> sort_key r_row (map2 (\<lambda>r i. \<lparr>r_row = row_index r, r_tv = i\<rparr>) rows [0..<length rows])"
  assumes "r_row ` set a \<subseteq> row_index ` set rows" "lo \<le> hi" "hi \<le> length a" "lo' \<le> hi'" "hi' \<le> length rows"
  shows "\<exists>m. find_longest_match a b mods lo hi lo' hi' = Some m \<and>
    lo \<le> m_i m \<and> m_i m + m_size m \<le> hi \<and> lo' \<le> m_j m \<and> m_j m + m_size m \<le> hi' \<and>
    (\<forall>k < m_size m. r_row (a ! (m_i m + k)) = row_index (rows ! (m_j m + k))) \<and>
    (\<forall>p q n. lo \<le> p \<and> p + n \<le> hi \<and> lo' \<le> q \<and> q + n \<le> hi' \<and>
       (\<forall>k < n. r_row (a ! (p + k)) = row_index (rows ! (q + k))) \<longrightarrow> n \<le> m_size m)"
proof -
  have "r_row (a ! i) \<in> row_index ` set rows" if "i < length a" for i using assms(2) that by auto
  then have "finds b (\<lambda>i. r_row (a ! i)) (\<lambda>j. row_index (rows ! j)) (length a) (length rows)"
    unfolding b_def by (rule rows_found)
  from find_longest_match_ok [OF this _ assms(3-6), of a mods] show ?thesis by (simp add: common_block_def)
qed

definition sample_lcs_rows :: "row_info list" where
  "sample_lcs_rows = map (\<lambda>r. \<lparr>row_index = r, prev_tv_index = 0, tv_index = 0, shifted_tv_index = 0\<rparr>) [7, 4, 3]"

theorem find_longest_match_correct_witness:
  "\<exists>m. find_longest_match (map (\<lambda>r. \<lparr>r_row = r, r_tv = 0\<rparr>) [3, 7, 4])
     (sort_key r_row (map2 (\<lambda>r i. \<lparr>r_row = row_index r, r_tv = i\<rparr>) sample_lcs_rows [0..<length sample_lcs_rows])) [] 0 3 0 3 = Some m \<and>
     2 \<le> m_size m"
proof -
  let ?a = "map (\<lambda>r. \<lparr>r_row = r, r_tv = 0\<rparr>) [3, 7, 4 :: nat]"
  have "\<forall>k < 2. r_row (?a ! (1 + k)) = row_index (sample_lcs_rows ! (0 + k))"
    by (auto simp: sample_lcs_rows_def less_2_cases_iff)
  then have blk: "0 \<le> (1::nat) \<and> 1 + 2 \<le> (3::nat) \<and> 0 \<le> (0::nat) \<and> 0 + 2 \<le> (3::nat) \<and>
      (\<forall>k < 2. r_row (?a ! (1 + k)) = row_index (sample_lcs_rows ! (0 + k)))" by simp
  have "r_row ` set ?a \<subseteq> row_index ` set sample_lcs_rows" "(0::nat) \<le> 3" "3 \<le> length ?a" "3 \<le> length sample_lcs_rows"
    by (simp_all add: sample_lcs_rows_def)
  from find_longest_match_correct [OF this(1,2,3,2,4), of "[]"] blk show ?thesis by blast
qed

text \<open>the recursion of \<open>find_longest_matches\<close> ends and its result, closed by the empty match at the ends, is a chain: every match is a block
  of equal rows that starts after the match before it in both versions.\<close>

theorem lcs_matches_correct:
  fixes a :: "lcs_row list" and rows :: "row_info list"
  defines "b \<equiv> sort_key r_row (map2 (\<lambda>r i. \<lparr>r_row = row_index r, r_tv = i\<rparr>) rows [0..<length rows])"
  assumes "r_row ` set a \<subseteq> row_index ` set rows" "length a = length rows" "n \<le> length a"
  shows "\<exists>ms. lcs_matches a b n mods = Some ms \<and> m_i (last ms) = length a \<and> m_j (last ms) = length rows \<and>
    sorted_wrt (\<lambda>x y. m_i x + m_size x \<le> m_i y \<and> m_j x + m_size x \<le> m_j y) ms \<and>
    (\<forall>m \<in> set ms. n \<le> m_i m \<and> n \<le> m_j m \<and> (\<forall>k < m_size m. r_row (a ! (m_i m + k)) = row_index (rows ! (m_j m + k))))"
proof -
  let ?A = "\<lambda>i. r_row (a ! i)" and ?B = "\<lambda>j. row_index (rows ! j)"
  have "?A i \<in> row_index ` set rows" if "i < length a" for i using assms(2) that by auto
  then have f: "finds b ?A ?B (length a) (length rows)" unfolding b_def by (rule rows_found)
  from find_longest_matches_ok [OF f _ assms(4) le_refl _ le_refl assms(3), of a n mods] assms(3,4) obtain ms where
    ms: "find_longest_matches a b mods n (length a) n (length rows) = Some ms" "chain ?A ?B n n ms (length a) (length rows)" by auto
  let ?z = "\<lparr>m_i = length a, m_j = length rows, m_size = 0, m_modified = 0\<rparr>"
  have ch: "chain ?A ?B n n (ms @ [?z]) (length a) (length rows)"
    using ms(2) by (intro chain_append) (simp_all add: common_block_def)
  have "sorted_wrt (\<lambda>x y. m_i x + m_size x \<le> m_i y \<and> m_j x + m_size x \<le> m_j y) xs \<and>
      (\<forall>m \<in> set xs. i \<le> m_i m \<and> j \<le> m_j m \<and> common_block ?A ?B (m_i m) (m_j m) (m_size m))"
    if "chain ?A ?B i j xs hi hi'" for xs i j hi hi' using that by (induction xs arbitrary: i j) fastforce+
  from this [OF ch] have "sorted_wrt (\<lambda>x y. m_i x + m_size x \<le> m_i y \<and> m_j x + m_size x \<le> m_j y) (ms @ [?z])"
    "\<forall>m \<in> set (ms @ [?z]). n \<le> m_i m \<and> n \<le> m_j m \<and> common_block ?A ?B (m_i m) (m_j m) (m_size m)" by blast+
  moreover have "lcs_matches a b n mods = Some (ms @ [?z])"
    using ms(1) by (simp add: lcs_matches_def b_def)
  ultimately show ?thesis by (intro exI [of _ "ms @ [?z]"]) (simp add: common_block_def)
qed

theorem lcs_matches_correct_witness:
  "\<exists>ms. lcs_matches (map (\<lambda>r. \<lparr>r_row = r, r_tv = 0\<rparr>) [3, 7, 4])
     (sort_key r_row (map2 (\<lambda>r i. \<lparr>r_row = row_index r, r_tv = i\<rparr>) sample_lcs_rows [0..<length sample_lcs_rows])) 0 [] = Some ms \<and>
     m_i (last ms) = 3"
  using lcs_matches_correct [of "map (\<lambda>r. \<lparr>r_row = r, r_tv = 0\<rparr>) [3, 7, 4]" sample_lcs_rows 0 "[]"]
  by (fastforce simp: sample_lcs_rows_def)

end
