(* ===== verification/Schema_Types.thy ===== *)
theory Schema_Types
  imports Prelude "HOL-Library.Word" "HOL-Library.List_Lexorder" "HOL-Library.Char_ord"
begin

text \<open>
  \<open>property.hpp\<close> and the data of \<open>object_schema.hpp\<close>: property types as the bytes they are, a base type
  in the low bits and two flags, and properties and object schemas as records.  Strings are lists of characters, compared
  lexicographically.  A switch that falls through to \<open>REALM_COMPILER_HINT_UNREACHABLE\<close> is \<open>None\<close>.
\<close>

unbundle bit_operations_syntax

section \<open>Property types\<close>

type_synonym property_type = "8 word"

abbreviation (input) PT_Int :: property_type where "PT_Int \<equiv> 0"
abbreviation (input) PT_Bool :: property_type where "PT_Bool \<equiv> 1"
abbreviation (input) PT_String :: property_type where "PT_String \<equiv> 2"
abbreviation (input) PT_Data :: property_type where "PT_Data \<equiv> 3"
abbreviation (input) PT_Date :: property_type where "PT_Date \<equiv> 4"
abbreviation (input) PT_Float :: property_type where "PT_Float \<equiv> 5"
abbreviation (input) PT_Double :: property_type where "PT_Double \<equiv> 6"
abbreviation (input) PT_Object :: property_type where "PT_Object \<equiv> 7"
abbreviation (input) PT_LinkingObjects :: property_type where "PT_LinkingObjects \<equiv> 8"
abbreviation (input) PT_Any :: property_type where "PT_Any \<equiv> 9"
abbreviation (input) PT_Required :: property_type where "PT_Required \<equiv> 0"
abbreviation (input) PT_Nullable :: property_type where "PT_Nullable \<equiv> 64"
abbreviation (input) PT_Array :: property_type where "PT_Array \<equiv> 128"

definition PT_Flags :: property_type where
  "PT_Flags = PT_Nullable OR PT_Array"

definition base_type :: "property_type \<Rightarrow> property_type" where
  "base_type t = t AND NOT PT_Flags"

text \<open>\<open>operator==\<close> on types ignores the flags.\<close>

definition same_type :: "property_type \<Rightarrow> property_type \<Rightarrow> bool" where
  "same_type a b \<longleftrightarrow> base_type a = base_type b"

definition is_array :: "property_type \<Rightarrow> bool" where
  "is_array a \<longleftrightarrow> a AND PT_Array = PT_Array"

definition is_nullable :: "property_type \<Rightarrow> bool" where
  "is_nullable a \<longleftrightarrow> a AND PT_Nullable = PT_Nullable"

text \<open>\<open>switch_on_type\<close>: the C++ type its function is applied to.\<close>

datatype cpp_type =
  Cpp_int64 | Cpp_bool | Cpp_float | Cpp_double | Cpp_Optional cpp_type | Cpp_StringData | Cpp_BinaryData | Cpp_Timestamp | Cpp_RowExpr

definition switch_on_type :: "property_type \<Rightarrow> (cpp_type \<Rightarrow> 'a) \<Rightarrow> 'a option" where
  "switch_on_type t fn =
     (let opt = (\<lambda>c. if is_nullable t then fn (Cpp_Optional c) else fn c); b = base_type t
      in if b = PT_Int then Some (opt Cpp_int64)
         else if b = PT_Bool then Some (opt Cpp_bool)
         else if b = PT_Float then Some (opt Cpp_float)
         else if b = PT_Double then Some (opt Cpp_double)
         else if b = PT_String then Some (fn Cpp_StringData)
         else if b = PT_Data then Some (fn Cpp_BinaryData)
         else if b = PT_Date then Some (fn Cpp_Timestamp)
         else if b = PT_Object then Some (fn Cpp_RowExpr)
         else None)"

definition string_for_property_type :: "property_type \<Rightarrow> string option" where
  "string_for_property_type t =
     (if is_array t then if same_type t PT_LinkingObjects then Some ''linking objects'' else Some ''array''
      else let b = base_type t
           in if b = PT_String then Some ''string''
              else if b = PT_Int then Some ''int''
              else if b = PT_Bool then Some ''bool''
              else if b = PT_Date then Some ''date''
              else if b = PT_Data then Some ''data''
              else if b = PT_Double then Some ''double''
              else if b = PT_Float then Some ''float''
              else if b = PT_Object then Some ''object''
              else if b = PT_Any then Some ''any''
              else if b = PT_LinkingObjects then Some ''linking objects''
              else None)"

section \<open>Properties\<close>

record property =
  p_name :: string
  p_public_name :: string
  p_type :: property_type
  p_object_type :: string
  p_link_origin :: string
  p_is_primary :: bool
  p_is_indexed :: bool
  p_table_column :: size_t

definition property_init :: property where
  "property_init = \<lparr>p_name = [], p_public_name = [], p_type = PT_Int, p_object_type = [], p_link_origin = [],
     p_is_primary = False, p_is_indexed = False, p_table_column = npos\<rparr>"

definition make_property :: "string \<Rightarrow> property_type \<Rightarrow> bool \<Rightarrow> bool \<Rightarrow> string \<Rightarrow> property" where
  "make_property name t primary indexed public_name =
     property_init\<lparr>p_name := name, p_public_name := public_name, p_type := t, p_is_primary := primary, p_is_indexed := indexed\<rparr>"

definition make_link_property :: "string \<Rightarrow> property_type \<Rightarrow> string \<Rightarrow> string \<Rightarrow> string \<Rightarrow> property" where
  "make_link_property name t object_type origin public_name =
     property_init\<lparr>p_name := name, p_public_name := public_name, p_type := t, p_object_type := object_type, p_link_origin := origin\<rparr>"

definition requires_index :: "property \<Rightarrow> bool" where
  "requires_index p \<longleftrightarrow> p_is_primary p \<or> p_is_indexed p"

definition type_is_indexable :: "property \<Rightarrow> bool" where
  "type_is_indexable p \<longleftrightarrow> same_type (p_type p) PT_Int \<or> same_type (p_type p) PT_Bool \<or>
     same_type (p_type p) PT_Date \<or> same_type (p_type p) PT_String"

definition type_is_nullable :: "property \<Rightarrow> bool" where
  "type_is_nullable p \<longleftrightarrow> \<not> (is_array (p_type p) \<and> same_type (p_type p) PT_Object) \<and> \<not> same_type (p_type p) PT_LinkingObjects"

definition type_string :: "property \<Rightarrow> string option" where
  "type_string p =
     (let t = p_type p
      in if is_array t
         then if same_type t PT_Object then Some (''array<'' @ p_object_type p @ ''>'')
              else if same_type t PT_LinkingObjects then Some (''linking objects<'' @ p_object_type p @ ''>'')
              else map_option (\<lambda>s. ''array<'' @ s @ ''>'') (string_for_property_type (base_type t))
         else if base_type t = PT_Object then Some (''<'' @ p_object_type p @ ''>'')
         else if base_type t = PT_LinkingObjects then Some (''linking objects<'' @ p_object_type p @ ''>'')
         else string_for_property_type (base_type t))"

text \<open>\<open>operator==\<close> on properties does not look at the column nor at the public name.\<close>

definition same_property :: "property \<Rightarrow> property \<Rightarrow> bool" where
  "same_property a b \<longleftrightarrow> p_type a = p_type b \<and> p_is_primary a = p_is_primary b \<and> requires_index a = requires_index b \<and>
     p_name a = p_name b \<and> p_object_type a = p_object_type b \<and> p_link_origin a = p_link_origin b"

section \<open>Object schemas\<close>

record object_schema =
  os_name :: string
  persisted :: "property list"
  computed :: "property list"
  primary_key :: string

definition make_object_schema :: "string \<Rightarrow> property list \<Rightarrow> property list \<Rightarrow> object_schema" where
  "make_object_schema name ps cs =
     \<lparr>os_name = name, persisted = ps, computed = cs,
      primary_key = (case List.find p_is_primary ps of Some p \<Rightarrow> p_name p | None \<Rightarrow> [])\<rparr>"

text \<open>The column types of the database, and a column as a descriptor shows it: its type, whether it is nullable,
  and for a subtable its first column.\<close>

datatype core_type = T_Int | T_Float | T_Double | T_Bool | T_String | T_Binary | T_Timestamp | T_Mixed | T_Link | T_LinkList | T_Table

datatype core_column = Core_Column core_type bool "core_column option"

fun from_core_type :: "core_column \<Rightarrow> property_type option" where
  "from_core_type (Core_Column t nullable sub) =
     (let optional = (if nullable then PT_Nullable else PT_Required)
      in case t of
           T_Int \<Rightarrow> Some (PT_Int OR optional)
         | T_Float \<Rightarrow> Some (PT_Float OR optional)
         | T_Double \<Rightarrow> Some (PT_Double OR optional)
         | T_Bool \<Rightarrow> Some (PT_Bool OR optional)
         | T_String \<Rightarrow> Some (PT_String OR optional)
         | T_Binary \<Rightarrow> Some (PT_Data OR optional)
         | T_Timestamp \<Rightarrow> Some (PT_Date OR optional)
         | T_Mixed \<Rightarrow> Some (PT_Any OR optional)
         | T_Link \<Rightarrow> Some (PT_Object OR PT_Nullable)
         | T_LinkList \<Rightarrow> Some (PT_Object OR PT_Array)
         | T_Table \<Rightarrow> (case sub of Some c \<Rightarrow> map_option (\<lambda>p. p OR PT_Array) (from_core_type c) | None \<Rightarrow> None))"

definition property_for_name :: "object_schema \<Rightarrow> string \<Rightarrow> property option" where
  "property_for_name os name =
     (case List.find (\<lambda>p. p_name p = name) (persisted os) of
        Some p \<Rightarrow> Some p
      | None \<Rightarrow> List.find (\<lambda>p. p_name p = name) (computed os))"

definition primary_key_property :: "object_schema \<Rightarrow> property option" where
  "primary_key_property os = property_for_name os (primary_key os)"

definition property_for_public_name :: "object_schema \<Rightarrow> string \<Rightarrow> property option" where
  "property_for_public_name os name =
     (case List.find (\<lambda>p. p_public_name p = name \<or> p_public_name p = [] \<and> p_name p = name) (persisted os) of
        Some p \<Rightarrow> Some p
      | None \<Rightarrow> List.find (\<lambda>p. (if p_public_name p = [] then p_name p else p_public_name p) = name) (computed os))"

definition property_is_computed :: "object_schema \<Rightarrow> property \<Rightarrow> bool" where
  "property_is_computed os p \<longleftrightarrow> List.find (\<lambda>q. same_property q p) (computed os) \<noteq> None"

text \<open>\<open>set_primary_key_property\<close> marks the property that \<open>property_for_name\<close> finds.\<close>

fun mark_primary :: "string \<Rightarrow> property list \<Rightarrow> property list" where
  "mark_primary name [] = []"
| "mark_primary name (p # ps) = (if p_name p = name then p\<lparr>p_is_primary := True\<rparr> # ps else p # mark_primary name ps)"

definition set_primary_key_property :: "object_schema \<Rightarrow> object_schema" where
  "set_primary_key_property os =
     (if primary_key os = [] then os
      else if List.find (\<lambda>p. p_name p = primary_key os) (persisted os) \<noteq> None
      then os\<lparr>persisted := mark_primary (primary_key os) (persisted os)\<rparr>
      else os\<lparr>computed := mark_primary (primary_key os) (computed os)\<rparr>)"

definition same_object_schema :: "object_schema \<Rightarrow> object_schema \<Rightarrow> bool" where
  "same_object_schema a b \<longleftrightarrow> os_name a = os_name b \<and> primary_key a = primary_key b \<and>
     list_all2 same_property (persisted a) (persisted b) \<and> list_all2 same_property (computed a) (computed b)"

end
