(* ===== verification/Schema_Model.thy ===== *)
theory Schema_Model
  imports Schema_Types
begin

text \<open>
  \<open>object_schema.cpp\<close> and \<open>schema.cpp\<close>: validation of schemas, and the comparison of two schemas as a list of changes.
  A schema is the list of its object schemas, sorted by name.  The exceptions that validation collects are values: one
  constructor per message, with the arguments of the message.
\<close>

datatype schema_error =
    Linking_Not_Array string string
  | Cannot_Be_Nullable string string "string option"
  | Must_Be_Nullable string string
  | Cannot_Be_Primary string string "string option"
  | Two_Primary_Keys string string string
  | Cannot_Be_Indexed string string "string option"
  | Cannot_Have_Origin string string "string option"
  | Must_Have_Origin string string "string option"
  | Cannot_Have_Object_Type string string "string option"
  | Unknown_Object_Type string string "string option" string
  | Origin_Does_Not_Exist string string string string
  | Origin_Not_A_Link string string string string
  | Origin_Links_Elsewhere string string string string string
  | Duplicate_Alias string string
  | Duplicate_Property string string
  | Alias_Conflict string "string option" string
  | Missing_Primary_Key string string
  | Duplicate_Type string
  | Class_Added string
  | Class_Removed string
  | Property_Added string string
  | Property_Removed string string
  | Property_Type_Changed string string "string option" "string option"
  | Property_Made_Optional string string
  | Property_Made_Required string string
  | Primary_Key_Changed string string string
  | Primary_Key_Added string
  | Primary_Key_Removed string
  | Property_Made_Indexed string string
  | Property_Made_Unindexed string string

section \<open>Schemas\<close>

type_synonym schema = "object_schema list"

definition make_schema :: "object_schema list \<Rightarrow> schema" where
  "make_schema types = sort_key os_name types"

definition schema_find :: "schema \<Rightarrow> string \<Rightarrow> object_schema option" where
  "schema_find s name =
     (case dropWhile (\<lambda>os. os_name os < name) s of
        [] \<Rightarrow> None
      | os # _ \<Rightarrow> if os_name os \<noteq> name then None else Some os)"

definition same_schema :: "schema \<Rightarrow> schema \<Rightarrow> bool" where
  "same_schema a b \<longleftrightarrow> list_all2 same_object_schema a b"

section \<open>Validation\<close>

definition type_errors :: "string \<Rightarrow> property \<Rightarrow> schema_error list" where
  "type_errors object_name p =
     (if same_type (p_type p) PT_LinkingObjects \<and> \<not> is_array (p_type p)
      then [Linking_Not_Array object_name (p_name p)] else []) @
     (if is_nullable (p_type p) \<and> \<not> type_is_nullable p
      then [Cannot_Be_Nullable object_name (p_name p) (string_for_property_type (p_type p))]
      else if same_type (p_type p) PT_Object \<and> \<not> is_nullable (p_type p) \<and> \<not> is_array (p_type p)
      then [Must_Be_Nullable object_name (p_name p)] else [])"

definition primary_errors :: "string \<Rightarrow> property \<Rightarrow> property option \<Rightarrow> schema_error list" where
  "primary_errors object_name p primary =
     (if p_is_primary p
      then (if \<not> same_type (p_type p) PT_Int \<and> \<not> same_type (p_type p) PT_String
            then [Cannot_Be_Primary object_name (p_name p) (string_for_property_type (p_type p))] else []) @
           (case primary of Some q \<Rightarrow> [Two_Primary_Keys (p_name p) (p_name q) object_name] | None \<Rightarrow> [])
      else [])"

definition index_errors :: "string \<Rightarrow> property \<Rightarrow> schema_error list" where
  "index_errors object_name p =
     (if p_is_indexed p \<and> \<not> type_is_indexable p
      then [Cannot_Be_Indexed object_name (p_name p) (string_for_property_type (p_type p))] else []) @
     (if \<not> same_type (p_type p) PT_LinkingObjects \<and> p_link_origin p \<noteq> []
      then [Cannot_Have_Origin object_name (p_name p) (string_for_property_type (p_type p))]
      else if same_type (p_type p) PT_LinkingObjects \<and> p_link_origin p = []
      then [Must_Have_Origin object_name (p_name p) (string_for_property_type (p_type p))] else [])"

definition link_errors :: "schema \<Rightarrow> string \<Rightarrow> property \<Rightarrow> schema_error list" where
  "link_errors schema object_name p =
     (if \<not> same_type (p_type p) PT_Object \<and> \<not> same_type (p_type p) PT_LinkingObjects
      then if p_object_type p \<noteq> [] then [Cannot_Have_Object_Type object_name (p_name p) (type_string p)] else []
      else case schema_find schema (p_object_type p) of
             None \<Rightarrow> [Unknown_Object_Type object_name (p_name p) (string_for_property_type (p_type p)) (p_object_type p)]
           | Some target \<Rightarrow>
               if \<not> same_type (p_type p) PT_LinkingObjects then []
               else case property_for_name target (p_link_origin p) of
                      None \<Rightarrow> [Origin_Does_Not_Exist (p_object_type p) (p_link_origin p) object_name (p_name p)]
                    | Some origin \<Rightarrow>
                        if \<not> same_type (p_type origin) PT_Object
                        then [Origin_Not_A_Link (p_object_type p) (p_link_origin p) object_name (p_name p)]
                        else if p_object_type origin \<noteq> object_name
                        then [Origin_Links_Elsewhere (p_object_type p) (p_link_origin p) object_name (p_name p) (p_object_type origin)]
                        else [])"

definition validate_property :: "schema \<Rightarrow> string \<Rightarrow> property \<Rightarrow> property option \<Rightarrow> schema_error list \<times> property option" where
  "validate_property schema object_name p primary =
     (type_errors object_name p @ primary_errors object_name p primary @ index_errors object_name p @
      link_errors schema object_name p,
      if p_is_primary p then Some p else primary)"

fun validate_properties :: "schema \<Rightarrow> string \<Rightarrow> property list \<Rightarrow> property option \<Rightarrow> schema_error list \<times> property option" where
  "validate_properties schema name [] primary = ([], primary)"
| "validate_properties schema name (p # ps) primary =
     (let (es, primary1) = validate_property schema name p primary;
          (es', primary2) = validate_properties schema name ps primary1
      in (es @ es', primary2))"

text \<open>\<open>for_each_duplicate\<close>: \<open>adjacent_find\<close>, resumed two places after each hit.\<close>

fun duplicates :: "'a list \<Rightarrow> 'a list" where
  "duplicates (x # y # zs) = (if x = y then x # duplicates zs else duplicates (y # zs))"
| "duplicates xs = []"

text \<open>\<open>std::set_intersection\<close> of two sorted sequences.\<close>

fun set_intersection :: "'a :: linorder list \<Rightarrow> 'a list \<Rightarrow> 'a list" where
  "set_intersection (x # xs) (y # ys) =
     (if x < y then set_intersection xs (y # ys)
      else if y < x then set_intersection (x # xs) ys
      else x # set_intersection xs ys)"
| "set_intersection xs ys = []"

definition validate_object :: "schema \<Rightarrow> object_schema \<Rightarrow> schema_error list" where
  "validate_object schema os =
     (let ps = persisted os @ computed os;
          internal_names = sort (map p_name ps);
          public_names = sort (map p_public_name (filter (\<lambda>p. p_public_name p \<noteq> []) ps));
          (es1, primary1) = validate_properties schema (os_name os) (persisted os) None;
          (es2, primary2) = validate_properties schema (os_name os) (computed os) primary1
      in map (\<lambda>n. Duplicate_Alias n (os_name os)) (duplicates public_names) @
         map (\<lambda>n. Duplicate_Property n (os_name os)) (duplicates internal_names) @
         map (\<lambda>n. Alias_Conflict (os_name os) (map_option p_name (property_for_public_name os n)) n)
           (set_intersection public_names internal_names) @
         es1 @ es2 @
         (if primary_key os \<noteq> [] \<and> primary2 = None \<and> primary_key_property os = None
          then [Missing_Primary_Key (os_name os) (primary_key os)] else []))"

text \<open>\<open>find_next_duplicate\<close> resumes at the element after the hit.\<close>

fun duplicate_types :: "object_schema list \<Rightarrow> schema_error list" where
  "duplicate_types (x # y # zs) =
     (if os_name x = os_name y then Duplicate_Type (os_name x) # duplicate_types (y # zs) else duplicate_types (y # zs))"
| "duplicate_types xs = []"

definition validate_schema :: "schema \<Rightarrow> schema_error list + unit" where
  "validate_schema s =
     (let errors = duplicate_types s @ concat (map (validate_object s) s)
      in if errors \<noteq> [] then Inl errors else Inr ())"

section \<open>Changes\<close>

text \<open>The types of \<open>namespace schema_change\<close>; the pointers are the object schemas and properties they point to.\<close>

datatype schema_change =
    AddTable object_schema
  | RemoveTable object_schema
  | AddInitialProperties object_schema
  | AddProperty object_schema property
  | RemoveProperty object_schema property
  | ChangePropertyType object_schema property property
  | MakePropertyNullable object_schema property
  | MakePropertyRequired object_schema property
  | AddIndex object_schema property
  | RemoveIndex object_schema property
  | ChangePrimaryKey object_schema "property option"

fun is_not_remove_property :: "schema_change \<Rightarrow> bool" where
  "is_not_remove_property (RemoveProperty os p) = False"
| "is_not_remove_property _ = True"

fun removed_column :: "schema_change \<Rightarrow> size_t" where
  "removed_column (RemoveProperty os p) = p_table_column p"
| "removed_column _ = 0"

text \<open>\<open>std::partition\<close> on a bidirectional range: the first element that fails the test is exchanged with the last that passes.\<close>

function partition_swap :: "('a \<Rightarrow> bool) \<Rightarrow> 'a list \<Rightarrow> 'a list" where
  "partition_swap P [] = []"
| "partition_swap P (x # xs) =
     (if P x then x # partition_swap P xs
      else let tail = rev (takeWhile (\<lambda>y. \<not> P y) (rev xs)); front = rev (dropWhile (\<lambda>y. \<not> P y) (rev xs))
           in if front = [] then x # xs
              else last front # partition_swap P (butlast front) @ x # tail)"
  by pat_completeness auto
termination
proof (relation "measure (length \<circ> snd)")
  fix P :: "'a \<Rightarrow> bool" and x xs tail and front :: "'a list"
  assume f: "front = rev (dropWhile (\<lambda>y. \<not> P y) (rev xs))"
  have "length front \<le> length xs" unfolding f length_rev using length_dropWhile_le [of "\<lambda>y. \<not> P y" "rev xs"] by simp
  then show "((P, butlast front), (P, x # xs)) \<in> measure (length \<circ> snd)" by simp
qed auto

definition compare_property :: "object_schema \<Rightarrow> object_schema \<Rightarrow> property \<Rightarrow> schema_change list" where
  "compare_property existing target current =
     (case property_for_name target (p_name current) of
        None \<Rightarrow> [RemoveProperty existing current]
      | Some p \<Rightarrow>
          if property_is_computed target p then [RemoveProperty existing current]
          else if \<not> same_type (p_type current) (p_type p) \<or> p_object_type current \<noteq> p_object_type p \<or>
                  is_array (p_type current) \<noteq> is_array (p_type p)
          then [ChangePropertyType existing current p]
          else (if is_nullable (p_type current) \<noteq> is_nullable (p_type p)
                then if is_nullable (p_type current) then [MakePropertyRequired existing current]
                     else [MakePropertyNullable existing current]
                else []) @
               (if requires_index p
                then if \<not> p_is_indexed current then [AddIndex existing current] else []
                else if requires_index current then [RemoveIndex existing current] else []))"

text \<open>The static function \<open>compare\<close> works on the changes of all the object schemas so far.\<close>

definition compare_objects :: "object_schema \<Rightarrow> object_schema \<Rightarrow> schema_change list \<Rightarrow> schema_change list" where
  "compare_objects existing target changes =
     (let all = changes @ concat (map (compare_property existing target) (persisted existing)) @
            (if primary_key existing \<noteq> primary_key target
             then [ChangePrimaryKey existing (primary_key_property target)] else []) @
            map (AddProperty existing)
              (filter (\<lambda>p. property_for_name existing (p_name p) = None) (persisted target));
          parted = partition_swap is_not_remove_property all
      in takeWhile is_not_remove_property parted @
         rev (sort_key removed_column (rev (dropWhile is_not_remove_property parted))))"

fun zip_matching :: "('a option \<Rightarrow> 'a option \<Rightarrow> 's \<Rightarrow> 's) \<Rightarrow> ('a \<Rightarrow> string) \<Rightarrow> 'a list \<Rightarrow> 'a list \<Rightarrow> 's \<Rightarrow> 's" where
  "zip_matching f name (a # as) (b # bs) s =
     (if name a = name b then zip_matching f name as bs (f (Some a) (Some b) s)
      else if name a < name b then zip_matching f name as (b # bs) (f (Some a) None s)
      else zip_matching f name (a # as) bs (f None (Some b) s))"
| "zip_matching f name [] bs s = foldl (\<lambda>s b. f None (Some b) s) s bs"
| "zip_matching f name as [] s = foldl (\<lambda>s a. f (Some a) None s) s as"

definition table_change :: "bool \<Rightarrow> object_schema option \<Rightarrow> object_schema option \<Rightarrow> schema_change list \<Rightarrow> schema_change list" where
  "table_change include_removals target existing changes =
     (case (target, existing) of
        (Some t, None) \<Rightarrow> changes @ [AddTable t]
      | (None, Some e) \<Rightarrow> if include_removals then changes @ [RemoveTable e] else changes
      | _ \<Rightarrow> changes)"

definition column_change :: "object_schema option \<Rightarrow> object_schema option \<Rightarrow> schema_change list \<Rightarrow> schema_change list" where
  "column_change target existing changes =
     (case (target, existing) of
        (Some t, Some e) \<Rightarrow> compare_objects e t changes
      | (Some t, None) \<Rightarrow> changes @ [AddInitialProperties t]
      | _ \<Rightarrow> changes)"

definition schema_compare :: "schema \<Rightarrow> schema \<Rightarrow> bool \<Rightarrow> schema_change list" where
  "schema_compare existing target include_removals =
     zip_matching column_change os_name target existing
       (zip_matching (table_change include_removals) os_name target existing [])"

text \<open>\<open>copy_table_columns_from\<close>: the pairs are visited in order, so the result is built beside the walk.\<close>

fun set_column :: "string \<Rightarrow> size_t \<Rightarrow> property list \<Rightarrow> property list" where
  "set_column name col [] = []"
| "set_column name col (p # ps) =
     (if p_name p = name then p\<lparr>p_table_column := col\<rparr> # ps else p # set_column name col ps)"

definition copy_column :: "object_schema \<Rightarrow> property \<Rightarrow> object_schema" where
  "copy_column os p =
     (if List.find (\<lambda>q. p_name q = p_name p) (persisted os) \<noteq> None
      then os\<lparr>persisted := set_column (p_name p) (p_table_column p) (persisted os)\<rparr>
      else os\<lparr>computed := set_column (p_name p) (p_table_column p) (computed os)\<rparr>)"

definition copy_columns :: "object_schema option \<Rightarrow> object_schema option \<Rightarrow> schema \<Rightarrow> schema" where
  "copy_columns existing other acc =
     (case (existing, other) of
        (Some e, Some q) \<Rightarrow> acc @ [foldl copy_column e (persisted q)]
      | (Some e, None) \<Rightarrow> acc @ [e]
      | _ \<Rightarrow> acc)"

definition copy_table_columns_from :: "schema \<Rightarrow> schema \<Rightarrow> schema" where
  "copy_table_columns_from s other = zip_matching copy_columns os_name s other []"

end
