(* ===== verification/Schema_Laws.thy ===== *)
theory Schema_Laws
  imports Schema_Model Change_Laws "HOL-Library.Multiset"
begin

text \<open>
  Laws of the schema operations: what \<open>zip_matching\<close> visits, what \<open>partition\<close> and the sorting of the removals do to
  a list of changes, and what \<open>compare\<close> reports as a specification on lists.
\<close>

section \<open>Sorted schemas\<close>

definition sorted_schema :: "schema \<Rightarrow> bool" where
  "sorted_schema s \<longleftrightarrow> sorted_wrt (<) (map os_name s)"

lemma sorted_schema_Nil [simp]: "sorted_schema []"
  by (simp add: sorted_schema_def)

lemma sorted_schema_Cons: "sorted_schema (a # s) \<longleftrightarrow> (\<forall>b\<in>set s. os_name a < os_name b) \<and> sorted_schema s"
  by (simp add: sorted_schema_def)

lemma sorted_schema_distinct: "sorted_schema s \<Longrightarrow> distinct (map os_name s)"
  by (simp add: sorted_schema_def strict_sorted_iff)

lemma sorted_make_schema: "distinct (map os_name ts) \<Longrightarrow> sorted_schema (make_schema ts)"
  by (simp add: sorted_schema_def make_schema_def strict_sorted_iff distinct_map)

lemma set_make_schema [simp]: "set (make_schema ts) = set ts"
  by (simp add: make_schema_def)

lemma schema_find_Cons:
  "schema_find (os # s) name = (if os_name os < name then schema_find s name else if os_name os = name then Some os else None)"
  by (simp add: schema_find_def)

lemma schema_find_Nil [simp]: "schema_find [] name = None"
  by (simp add: schema_find_def)

lemma schema_find_SomeD: "schema_find s name = Some os \<Longrightarrow> os \<in> set s \<and> os_name os = name"
  by (induction s) (auto simp: schema_find_Cons split: if_splits)

lemma schema_find_iff: "sorted_schema s \<Longrightarrow> schema_find s name = Some os \<longleftrightarrow> os \<in> set s \<and> os_name os = name"
  by (induction s) (auto simp: schema_find_Cons sorted_schema_Cons)

lemma schema_find_None_iff: "sorted_schema s \<Longrightarrow> schema_find s name = None \<longleftrightarrow> name \<notin> os_name ` set s"
  by (induction s) (auto simp: schema_find_Cons sorted_schema_Cons)

lemma schema_find_Ex:
  assumes "sorted_schema s"
  shows "(\<exists>e\<in>set s. os_name e = n \<and> Q e) \<longleftrightarrow> (\<exists>e. schema_find s n = Some e \<and> Q e)"
  using schema_find_iff [OF assms] by metis

lemma schema_find_All:
  assumes "sorted_schema s"
  shows "(\<forall>e\<in>set s. os_name e = n \<longrightarrow> Q e) \<longleftrightarrow> (\<forall>e. schema_find s n = Some e \<longrightarrow> Q e)"
  using schema_find_iff [OF assms] by metis

section \<open>Walking two schemas\<close>

text \<open>The pairs \<open>zip_matching\<close> visits, in order.\<close>

definition matching :: "('a \<Rightarrow> string) \<Rightarrow> 'a list \<Rightarrow> 'a list \<Rightarrow> ('a option \<times> 'a option) list" where
  "matching name as bs = zip_matching (\<lambda>a b ps. ps @ [(a, b)]) name as bs []"

lemma foldl_snoc: "foldl (\<lambda>ps b. ps @ [h b]) ps bs = ps @ map h bs"
  by (induction bs arbitrary: ps) simp_all

lemma zip_matching_hom:
  assumes "\<And>a b s. h (f a b s) = g a b (h s)"
  shows "h (zip_matching f name as bs s) = zip_matching g name as bs (h s)"
  using assms
proof (induction f name as bs s rule: zip_matching.induct)
  case (1 f name a as b bs s)
  consider "name a = name b" | "name a \<noteq> name b" "name a < name b" | "name a \<noteq> name b" "\<not> name a < name b" by blast
  then show ?case
  proof cases
    case c: 1
    show ?thesis using "1.IH"(1) [OF c "1.prems"] unfolding zip_matching.simps if_P [OF c] "1.prems" .
  next
    case c: 2
    show ?thesis using "1.IH"(2) [OF c "1.prems"] by (simp only: zip_matching.simps c if_True if_False "1.prems")
  next
    case c: 3
    show ?thesis using "1.IH"(3) [OF c "1.prems"] by (simp only: zip_matching.simps c if_True if_False "1.prems")
  qed
next
  case (2 f name bs s)
  then have "h (foldl (\<lambda>s b. f None (Some b) s) s bs) = foldl (\<lambda>s b. g None (Some b) s) (h s) bs"
    by (induction bs arbitrary: s) simp_all
  then show ?case by (simp only: zip_matching.simps)
next
  case (3 f name a as s)
  then have "h (foldl (\<lambda>s a. f (Some a) None s) s as) = foldl (\<lambda>s a. g (Some a) None s) (h s) as" for as s
    by (induction as arbitrary: s) simp_all
  then show ?case by (simp only: zip_matching.simps)
qed

lemma zip_matching_snoc: "zip_matching (\<lambda>a b ps. ps @ [(a, b)]) name as bs ps = ps @ matching name as bs"
  unfolding matching_def
  using zip_matching_hom [of "append ps" "\<lambda>a b ps. ps @ [(a, b)]" "\<lambda>a b ps. ps @ [(a, b)]" name as bs "[]"] by simp

lemma matching_Cons [simp]:
  "matching name (a # as) (b # bs) =
     (if name a = name b then (Some a, Some b) # matching name as bs
      else if name a < name b then (Some a, None) # matching name as (b # bs)
      else (None, Some b) # matching name (a # as) bs)"
proof -
  have "matching name (a # as) (b # bs) = zip_matching (\<lambda>a b ps. ps @ [(a, b)]) name (a # as) (b # bs) []" by (rule matching_def)
  also have "\<dots> = (if name a = name b then [(Some a, Some b)] @ matching name as bs
      else if name a < name b then [(Some a, None)] @ matching name as (b # bs) else [(None, Some b)] @ matching name (a # as) bs)"
    unfolding zip_matching.simps unfolding append_Nil unfolding zip_matching_snoc ..
  finally show ?thesis by (simp only: append_Cons append_Nil)
qed

lemma matching_Nil [simp]: "matching name [] bs = map (\<lambda>b. (None, Some b)) bs" "matching name as [] = map (\<lambda>a. (Some a, None)) as"
  by (cases as; simp add: matching_def foldl_snoc)+

lemma zip_matching_fold: "zip_matching f name as bs s = foldl (\<lambda>s p. f (fst p) (snd p) s) s (matching name as bs)"
proof -
  define h where "h ps = foldl (\<lambda>s p. f (fst p) (snd p) s) s ps" for ps
  have "h (zip_matching (\<lambda>a b ps. ps @ [(a, b)]) name as bs []) = zip_matching f name as bs (h [])"
    by (rule zip_matching_hom) (simp add: h_def)
  then show ?thesis by (simp add: h_def matching_def)
qed

definition matched :: "('a \<Rightarrow> string) \<Rightarrow> 'a list \<Rightarrow> 'a list \<Rightarrow> 'a option \<times> 'a option \<Rightarrow> bool" where
  "matched name as bs p \<longleftrightarrow>
     (case p of
        (Some a, Some b) \<Rightarrow> a \<in> set as \<and> b \<in> set bs \<and> name a = name b
      | (Some a, None) \<Rightarrow> a \<in> set as \<and> name a \<notin> name ` set bs
      | (None, Some b) \<Rightarrow> b \<in> set bs \<and> name b \<notin> name ` set as
      | (None, None) \<Rightarrow> False)"

lemma matched_Nil:
  "matched name [] bs p \<longleftrightarrow> (\<exists>b\<in>set bs. p = (None, Some b))" "matched name as [] p \<longleftrightarrow> (\<exists>a\<in>set as. p = (Some a, None))"
  by (auto simp: matched_def split: option.splits prod.splits)

lemma matched_both:
  assumes "name a = name b" "\<forall>x\<in>set as. name a < name x" "\<forall>x\<in>set bs. name b < name x"
  shows "matched name (a # as) (b # bs) p \<longleftrightarrow> p = (Some a, Some b) \<or> matched name as bs p"
proof -
  have "name x \<noteq> name a" "name x \<noteq> name b" if "x \<in> set as" for x using assms(1,2) that by auto
  moreover have "name x \<noteq> name b" "name x \<noteq> name a" if "x \<in> set bs" for x using assms(1,3) that by auto
  ultimately show ?thesis using assms(1) unfolding matched_def by (cases "fst p"; cases "snd p"; cases p) (simp_all, (metis+)?)
qed

lemma matched_left:
  assumes "name a < name b" "\<forall>x\<in>set bs. name b < name x"
  shows "matched name (a # as) (b # bs) p \<longleftrightarrow> p = (Some a, None) \<or> matched name as (b # bs) p"
proof -
  have "name x \<noteq> name a" if "x \<in> set (b # bs)" for x using assms that by (auto dest: order.strict_trans)
  then show ?thesis unfolding matched_def by (cases "fst p"; cases "snd p"; cases p) (simp_all add: image_iff, (metis+)?)
qed

lemma matched_right:
  assumes "name b < name a" "\<forall>x\<in>set as. name a < name x"
  shows "matched name (a # as) (b # bs) p \<longleftrightarrow> p = (None, Some b) \<or> matched name (a # as) bs p"
proof -
  have "name x \<noteq> name b" if "x \<in> set (a # as)" for x using assms that by (auto dest: order.strict_trans)
  then show ?thesis unfolding matched_def by (cases "fst p"; cases "snd p"; cases p) (simp_all add: image_iff, (metis+)?)
qed

lemma set_matching:
  assumes "sorted_wrt (<) (map name as)" "sorted_wrt (<) (map name bs)"
  shows "p \<in> set (matching name as bs) \<longleftrightarrow> matched name as bs p"
  using assms
proof (induction as arbitrary: bs)
  case Nil
  then show ?case unfolding matched_Nil by auto
next
  case (Cons a as)
  note outer = Cons.IH and sa = Cons.prems(1)
  from Cons.prems(2) show ?case
  proof (induction bs)
    case Nil
    then show ?case unfolding matched_Nil by auto
  next
    case (Cons b bs)
    have as: "\<forall>x\<in>set as. name a < name x" "sorted_wrt (<) (map name as)" and bs: "\<forall>x\<in>set bs. name b < name x" "sorted_wrt (<) (map name bs)"
      using sa Cons.prems by simp_all
    consider "name a = name b" | "name a < name b" | "name b < name a" by (rule linorder_cases)
    then show ?case
    proof cases
      case 1
      show ?thesis unfolding matched_both [of name, OF 1 as(1) bs(1)] outer [OF as(2) bs(2), symmetric] using 1 by simp
    next
      case 2
      have "\<not> name a = name b" using 2 by simp
      then show ?thesis unfolding matched_left [of name, OF 2 bs(1)] outer [OF as(2) Cons.prems, symmetric] using 2 by simp
    next
      case 3
      have "\<not> name a = name b" "\<not> name a < name b" using 3 by (simp_all add: not_less_iff_gr_or_eq)
      then show ?thesis unfolding matched_right [of name, OF 3 as(1)] Cons.IH [OF bs(2), symmetric] by simp
    qed
  qed
qed

section \<open>Partition and sorting of removals\<close>

lemma rev_takeWhile_dropWhile: "rev (dropWhile P (rev xs)) @ rev (takeWhile P (rev xs)) = xs"
  by (metis rev_append rev_rev_ident takeWhile_dropWhile_id)

lemma last_rev_dropWhile: "rev (dropWhile (\<lambda>y. \<not> P y) (rev xs)) \<noteq> [] \<Longrightarrow> P (last (rev (dropWhile (\<lambda>y. \<not> P y) (rev xs))))"
  by (metis hd_dropWhile last_rev rev_is_Nil_conv)

lemma set_rev_takeWhile: "y \<in> set (rev (takeWhile (\<lambda>y. \<not> P y) (rev xs))) \<Longrightarrow> \<not> P y"
  by (metis set_rev set_takeWhileD)

lemma partition_swap_else:
  assumes "\<not> P x" "rev (dropWhile (\<lambda>y. \<not> P y) (rev xs)) \<noteq> []"
  obtains front y tail where "xs = front @ y # tail" "P y" "\<And>z. z \<in> set tail \<Longrightarrow> \<not> P z"
    "partition_swap P (x # xs) = y # partition_swap P front @ x # tail"
    "butlast (rev (dropWhile (\<lambda>y. \<not> P y) (rev xs))) = front"
proof -
  define tail where "tail = rev (takeWhile (\<lambda>y. \<not> P y) (rev xs))"
  define front where "front = rev (dropWhile (\<lambda>y. \<not> P y) (rev xs))"
  have f: "front \<noteq> []" unfolding front_def by (rule assms(2))
  have "xs = front @ tail" unfolding front_def tail_def by (rule rev_takeWhile_dropWhile [symmetric])
  then have "xs = butlast front @ last front # tail" using f by (metis append.assoc append_Cons append_Nil append_butlast_last_id)
  moreover have "P (last front)" unfolding front_def by (rule last_rev_dropWhile [OF assms(2)])
  moreover have "\<not> P z" if "z \<in> set tail" for z using that unfolding tail_def by (rule set_rev_takeWhile)
  moreover have "partition_swap P (x # xs) = last front # partition_swap P (butlast front) @ x # tail"
    using assms(1) f by (simp only: partition_swap.simps Let_def front_def [symmetric] tail_def [symmetric] if_False)
  ultimately show thesis using front_def by (intro that [of "butlast front" "last front" tail]) simp_all
qed

lemma partition_swap_none:
  assumes "\<not> P x" "rev (dropWhile (\<lambda>y. \<not> P y) (rev xs)) = []"
  shows "partition_swap P (x # xs) = x # xs" "\<forall>z\<in>set xs. \<not> P z"
proof -
  show "partition_swap P (x # xs) = x # xs" using assms by (simp only: partition_swap.simps Let_def if_True if_False simp_thms)
  show "\<forall>z\<in>set xs. \<not> P z" using assms(2) by (simp add: dropWhile_eq_Nil_conv)
qed

lemma mset_partition_swap [simp]: "mset (partition_swap P xs) = mset xs"
proof (induction P xs rule: partition_swap.induct)
  case (2 P x xs)
  show ?case
  proof (cases "P x")
    case True
    then show ?thesis using 2(1) by simp
  next
    case False
    show ?thesis
    proof (cases "rev (dropWhile (\<lambda>y. \<not> P y) (rev xs)) = []")
      case True
      show ?thesis unfolding partition_swap_none(1) [OF False True] ..
    next
      case nonempty: False
      obtain front y tail where e: "xs = front @ y # tail" "partition_swap P (x # xs) = y # partition_swap P front @ x # tail"
        "butlast (rev (dropWhile (\<lambda>y. \<not> P y) (rev xs))) = front" using partition_swap_else [OF False nonempty] by metis
      show ?thesis using 2(2) [OF False refl refl nonempty] unfolding e(2) e(3) by (simp add: e(1))
    qed
  qed
qed simp

lemma set_dropWhile_append: "set (dropWhile P (xs @ ys)) \<subseteq> set (dropWhile P xs) \<union> set ys"
  by (induction xs) (auto dest: set_dropWhileD)

lemma partition_swap_drop: "y \<in> set (dropWhile P (partition_swap P xs)) \<Longrightarrow> \<not> P y"
proof (induction P xs rule: partition_swap.induct)
  case (2 P x xs)
  show ?case
  proof (cases "P x")
    case True
    then show ?thesis using 2(1,3) by simp
  next
    case False
    show ?thesis
    proof (cases "rev (dropWhile (\<lambda>y. \<not> P y) (rev xs)) = []")
      case True
      show ?thesis using 2(3) partition_swap_none [OF False True] False by auto
    next
      case nonempty: False
      obtain front z tail where e: "P z" "\<And>u. u \<in> set tail \<Longrightarrow> \<not> P u"
        "partition_swap P (x # xs) = z # partition_swap P front @ x # tail"
        "butlast (rev (dropWhile (\<lambda>y. \<not> P y) (rev xs))) = front" using partition_swap_else [OF False nonempty] by metis
      have "y \<in> set (dropWhile P (partition_swap P front)) \<or> y \<in> set (x # tail)"
        using 2(3) e(1) set_dropWhile_append [of P "partition_swap P front" "x # tail"] unfolding e(3) by auto
      then show ?thesis using 2(2) [OF False refl refl nonempty] e(2) False unfolding e(4) by auto
    qed
  qed
qed simp

lemma partition_swap_prefix: "list_all P xs \<Longrightarrow> partition_swap P (xs @ ys) = xs @ partition_swap P ys"
  by (induction xs) simp_all

lemma find_Cons_later: "\<forall>x\<in>set as. os_name b < os_name x \<Longrightarrow>
    map (\<lambda>a. h (Some a, schema_find (b # bs) (os_name a))) as = map (\<lambda>a. h (Some a, schema_find bs (os_name a))) as"
  by (simp add: schema_find_Cons)

lemma matching_left:
  assumes "sorted_schema as" "sorted_schema bs" "\<And>b. h (None, Some b) = []"
  shows "concat (map h (matching os_name as bs)) = concat (map (\<lambda>a. h (Some a, schema_find bs (os_name a))) as)"
  using assms(1,2)
proof (induction as arbitrary: bs)
  case Nil
  then show ?case using assms(3) by (simp add: comp_def)
next
  case (Cons a as)
  note outer = Cons.IH and sa = Cons.prems(1)
  from Cons.prems(2) show ?case
  proof (induction bs)
    case Nil
    then show ?case by (simp add: comp_def)
  next
    case (Cons b bs)
    have as: "\<forall>x\<in>set as. os_name a < os_name x" "sorted_schema as" and bs: "sorted_schema bs"
      using sa Cons.prems by (simp_all add: sorted_schema_Cons)
    consider "os_name a = os_name b" | "os_name a < os_name b" | "os_name b < os_name a" by (rule linorder_cases)
    then show ?case
    proof cases
      case 1
      have "schema_find (b # bs) (os_name a) = Some b" using 1 by (simp add: schema_find_Cons)
      moreover have "\<forall>x\<in>set as. os_name b < os_name x" using as(1) 1 by simp
      ultimately show ?thesis using outer [OF as(2) bs] 1 by (simp add: find_Cons_later)
    next
      case 2
      have "schema_find (b # bs) (os_name a) = None" using order.asym [OF 2] order.strict_implies_not_eq [OF 2] by (auto simp: schema_find_Cons)
      then show ?thesis using outer [OF as(2) Cons.prems] 2 order.strict_implies_not_eq [OF 2] by simp
    next
      case 3
      have e: "\<not> os_name a = os_name b" "\<not> os_name a < os_name b" using 3 by (simp_all add: not_less_iff_gr_or_eq)
      have l: "\<forall>x\<in>set (a # as). os_name b < os_name x" using as(1) 3 by (auto intro: order.strict_trans)
      have "concat (map h (matching os_name (a # as) (b # bs))) = concat (map h (matching os_name (a # as) bs))"
        using e assms(3) by simp
      also have "\<dots> = concat (map (\<lambda>x. h (Some x, schema_find bs (os_name x))) (a # as))" by (rule Cons.IH [OF bs])
      finally show ?thesis unfolding find_Cons_later [OF l] .
    qed
  qed
qed

lemma matching_right:
  assumes "sorted_schema as" "sorted_schema bs" "\<And>a b. h (Some a, b) = []"
  shows "concat (map h (matching os_name as bs)) = concat (map (\<lambda>b. h (None, Some b)) (filter (\<lambda>b. os_name b \<notin> os_name ` set as) bs))"
  using assms(1,2)
proof (induction as arbitrary: bs)
  case Nil
  then show ?case by (simp add: comp_def)
next
  case (Cons a as)
  note outer = Cons.IH and sa = Cons.prems(1)
  from Cons.prems(2) show ?case
  proof (induction bs)
    case Nil
    then show ?case using assms(3) by (simp add: comp_def)
  next
    case (Cons b bs)
    have as: "\<forall>x\<in>set as. os_name a < os_name x" "sorted_schema as" and bs: "\<forall>x\<in>set bs. os_name b < os_name x" "sorted_schema bs"
      using sa Cons.prems by (simp_all add: sorted_schema_Cons)
    have drop_a: "filter (\<lambda>y. os_name y \<notin> os_name ` set (a # as)) ys = filter (\<lambda>y. os_name y \<notin> os_name ` set as) ys"
      if "\<forall>y\<in>set ys. os_name a < os_name y" for ys using that by (intro filter_cong) auto
    consider "os_name a = os_name b" | "os_name a < os_name b" | "os_name b < os_name a" by (rule linorder_cases)
    then show ?case
    proof cases
      case 1
      have "\<forall>y\<in>set bs. os_name a < os_name y" using bs(1) 1 by simp
      note d = drop_a [OF this]
      have "concat (map h (matching os_name (a # as) (b # bs))) = concat (map h (matching os_name as bs))" using 1 assms(3) by simp
      moreover have "filter (\<lambda>y. os_name y \<notin> os_name ` set (a # as)) (b # bs) = filter (\<lambda>y. os_name y \<notin> os_name ` set (a # as)) bs"
        using 1 by simp
      ultimately show ?thesis unfolding d outer [OF as(2) bs(2)] by simp
    next
      case 2
      have "\<forall>y\<in>set (b # bs). os_name a < os_name y" using bs(1) 2 by (auto intro: order.strict_trans)
      note d = drop_a [OF this]
      have "concat (map h (matching os_name (a # as) (b # bs))) = concat (map h (matching os_name as (b # bs)))"
        using 2 assms(3) by (simp add: order.strict_implies_not_eq)
      then show ?thesis unfolding d outer [OF as(2) Cons.prems] .
    next
      case 3
      have e: "\<not> os_name a = os_name b" "\<not> os_name a < os_name b" using 3 by (simp_all add: not_less_iff_gr_or_eq)
      have "\<forall>x\<in>set (a # as). os_name b < os_name x" using as(1) 3 by (auto intro: order.strict_trans)
      then have "os_name b \<notin> os_name ` set (a # as)" by fastforce
      then show ?thesis using e Cons.IH [OF bs(2)] by (simp del: image_insert list.set)
    qed
  qed
qed

section \<open>Comparison\<close>

text \<open>What \<open>compare\<close> finds for one object schema, before anything is reordered.\<close>

definition object_changes :: "object_schema \<Rightarrow> object_schema \<Rightarrow> schema_change list" where
  "object_changes existing target =
     concat (map (compare_property existing target) (persisted existing)) @
     (if primary_key existing \<noteq> primary_key target then [ChangePrimaryKey existing (primary_key_property target)] else []) @
     map (AddProperty existing) (filter (\<lambda>p. property_for_name existing (p_name p) = None) (persisted target))"

definition order_changes :: "schema_change list \<Rightarrow> schema_change list" where
  "order_changes cs =
     (let parted = partition_swap is_not_remove_property cs
      in takeWhile is_not_remove_property parted @
         rev (sort_key removed_column (rev (dropWhile is_not_remove_property parted))))"

lemma compare_objects_order: "compare_objects e t cs = order_changes (cs @ object_changes e t)"
  by (simp add: compare_objects_def order_changes_def object_changes_def Let_def)

lemma mset_order_changes [simp]: "mset (order_changes cs) = mset cs"
proof -
  let ?p = "partition_swap is_not_remove_property cs"
  have "mset (order_changes cs) = mset (takeWhile is_not_remove_property ?p @ dropWhile is_not_remove_property ?p)"
    unfolding order_changes_def Let_def mset_append mset_rev mset_sort ..
  also have "\<dots> = mset cs" unfolding takeWhile_dropWhile_id by simp
  finally show ?thesis .
qed

abbreviation removals :: "schema_change list \<Rightarrow> schema_change list" where
  "removals cs \<equiv> filter (\<lambda>c. \<not> is_not_remove_property c) cs"

lemma removals_none: "\<forall>c\<in>set cs. is_not_remove_property c \<Longrightarrow> removals cs = []"
  by (simp add: filter_empty_conv)

lemma removals_order_changes: "sorted_wrt (\<ge>) (map removed_column (removals (order_changes cs)))"
proof -
  let ?p = "partition_swap is_not_remove_property cs"
  let ?b = "rev (sort_key removed_column (rev (dropWhile is_not_remove_property ?p)))"
  have "removals (takeWhile is_not_remove_property ?p) = []" by (rule removals_none) (auto dest: set_takeWhileD)
  moreover have "removals ?b = ?b" using partition_swap_drop [of _ is_not_remove_property cs] by (intro filter_True) simp
  ultimately have "removals (order_changes cs) = ?b" by (simp add: order_changes_def Let_def)
  moreover have "sorted_wrt (\<ge>) (map removed_column ?b)"
    using sorted_sort_key [of removed_column "rev (dropWhile is_not_remove_property ?p)"] unfolding rev_map [symmetric] sorted_wrt_rev
    by (simp add: sorted_wrt_map)
  ultimately show ?thesis by simp
qed

lemma order_changes_prefix: "\<forall>c\<in>set xs. is_not_remove_property c \<Longrightarrow> order_changes (xs @ ys) = xs @ order_changes ys"
  by (simp add: order_changes_def Let_def partition_swap_prefix list_all_iff)

text \<open>The specification of the comparison: the tables to add or drop, and what is to be done to the columns of each type.\<close>

definition expected_table_changes :: "bool \<Rightarrow> schema \<Rightarrow> schema \<Rightarrow> schema_change list" where
  "expected_table_changes include_removals existing target =
     map AddTable (filter (\<lambda>t. os_name t \<notin> os_name ` set existing) target) @
     (if include_removals then map RemoveTable (filter (\<lambda>e. os_name e \<notin> os_name ` set target) existing) else [])"

definition expected_column_changes :: "schema \<Rightarrow> schema \<Rightarrow> schema_change list" where
  "expected_column_changes existing target =
     concat (map (\<lambda>t. case schema_find existing (os_name t) of Some e \<Rightarrow> object_changes e t | None \<Rightarrow> [AddInitialProperties t]) target)"

definition pair_changes :: "object_schema option \<times> object_schema option \<Rightarrow> schema_change list" where
  "pair_changes p =
     (case p of (Some t, Some e) \<Rightarrow> object_changes e t | (Some t, None) \<Rightarrow> [AddInitialProperties t] | _ \<Rightarrow> [])"

lemma mset_concat_append: "mset (concat (map (\<lambda>x. f x @ g x) xs)) = mset (concat (map f xs)) + mset (concat (map g xs))"
  by (induction xs) simp_all

lemma concat_if: "concat (map (\<lambda>x. if P x then [f x] else []) xs) = map f (filter P xs)"
  by (induction xs) simp_all

lemma table_pass:
  "zip_matching (table_change r) os_name target existing cs =
     cs @ concat (map (\<lambda>p. table_change r (fst p) (snd p) []) (matching os_name target existing))"
proof -
  have a: "table_change r a b cs = cs @ table_change r a b []" for a b cs
    by (simp add: table_change_def split: option.split)
  have "foldl (\<lambda>s p. table_change r (fst p) (snd p) s) cs ps = cs @ concat (map (\<lambda>p. table_change r (fst p) (snd p) []) ps)" for ps
  proof (induction ps arbitrary: cs)
    case (Cons p ps)
    show ?case unfolding foldl_Cons Cons.IH by (subst a) simp
  qed simp
  then show ?thesis by (simp add: zip_matching_fold)
qed

lemma mset_table_pass:
  assumes "sorted_schema target" "sorted_schema existing"
  shows "mset (concat (map (\<lambda>p. table_change r (fst p) (snd p) []) (matching os_name target existing))) =
    mset (expected_table_changes r existing target)"
proof -
  define h1 where "h1 p = (case p of (Some t, None) \<Rightarrow> [AddTable t] | _ \<Rightarrow> [])" for p :: "object_schema option \<times> object_schema option"
  define h2 where "h2 p = (case p of (None, Some e) \<Rightarrow> if r then [RemoveTable e] else [] | _ \<Rightarrow> [])" for p :: "object_schema option \<times> object_schema option"
  have split: "(\<lambda>p. table_change r (fst p) (snd p) []) = (\<lambda>p. h1 p @ h2 p)"
    by (rule ext) (auto simp: table_change_def h1_def h2_def split: option.splits prod.splits)
  have "concat (map h1 (matching os_name target existing)) = concat (map (\<lambda>t. h1 (Some t, schema_find existing (os_name t))) target)"
    by (rule matching_left [OF assms]) (simp add: h1_def)
  also have "\<dots> = concat (map (\<lambda>t. if os_name t \<notin> os_name ` set existing then [AddTable t] else []) target)"
    unfolding h1_def schema_find_None_iff [OF assms(2), symmetric]
    by (intro arg_cong [of _ _ concat] map_cong) (simp_all split: option.split)
  finally have 1: "concat (map h1 (matching os_name target existing)) = map AddTable (filter (\<lambda>t. os_name t \<notin> os_name ` set existing) target)"
    unfolding concat_if .
  have 2: "concat (map h2 (matching os_name target existing)) = concat (map (\<lambda>e. h2 (None, Some e)) (filter (\<lambda>e. os_name e \<notin> os_name ` set target) existing))"
    by (rule matching_right [OF assms]) (simp add: h2_def)
  have 3: "concat (map (\<lambda>e. h2 (None, Some e)) es) = (if r then map RemoveTable es else [])" for es
    by (induction es) (simp_all add: h2_def)
  show ?thesis unfolding split mset_concat_append 1 2 3 expected_table_changes_def by simp
qed

lemma column_pass:
  assumes "\<forall>c\<in>set tables. is_not_remove_property c"
  shows "\<exists>rest. foldl (\<lambda>s p. column_change (fst p) (snd p) s) tables ps = tables @ rest \<and>
    mset rest = mset (concat (map pair_changes ps)) \<and> sorted_wrt (\<ge>) (map removed_column (removals rest))"
proof (induction ps rule: rev_induct)
  case Nil
  then show ?case by simp
next
  case (snoc p ps)
  then obtain rest where rest: "foldl (\<lambda>s p. column_change (fst p) (snd p) s) tables ps = tables @ rest"
    "mset rest = mset (concat (map pair_changes ps))" "sorted_wrt (\<ge>) (map removed_column (removals rest))" by blast
  consider (both) t e where "p = (Some t, Some e)" | (new) t where "p = (Some t, None)" | (none) x where "p = (None, x)"
    by (cases p; cases "fst p"; cases "snd p") auto
  then show ?case
  proof cases
    case both
    have "column_change (fst p) (snd p) (tables @ rest) = tables @ order_changes (rest @ object_changes e t)"
      using both order_changes_prefix [OF assms, of "rest @ object_changes e t"] by (simp add: column_change_def compare_objects_order)
    moreover have "mset (order_changes (rest @ object_changes e t)) = mset (concat (map pair_changes (ps @ [p])))"
      using rest(2) both by (simp add: pair_changes_def)
    ultimately show ?thesis using rest(1) removals_order_changes by (intro exI [of _ "order_changes (rest @ object_changes e t)"]) simp
  next
    case new
    have "column_change (fst p) (snd p) (tables @ rest) = tables @ rest @ [AddInitialProperties t]"
      "pair_changes p = [AddInitialProperties t]" using new by (simp_all add: column_change_def pair_changes_def)
    then show ?thesis using rest by (intro exI [of _ "rest @ [AddInitialProperties t]"]) simp
  next
    case none
    have "column_change (fst p) (snd p) (tables @ rest) = tables @ rest" "pair_changes p = []"
      using none by (simp_all add: column_change_def pair_changes_def)
    then show ?thesis using rest by (intro exI [of _ rest]) simp
  qed
qed

lemma concat_pair_changes:
  assumes "sorted_schema target" "sorted_schema existing"
  shows "concat (map pair_changes (matching os_name target existing)) = expected_column_changes existing target"
proof -
  have "concat (map pair_changes (matching os_name target existing)) = concat (map (\<lambda>t. pair_changes (Some t, schema_find existing (os_name t))) target)"
    by (rule matching_left [OF assms]) (simp add: pair_changes_def)
  then show ?thesis by (simp add: expected_column_changes_def pair_changes_def)
qed

lemma schema_compare_split:
  assumes "sorted_schema existing" "sorted_schema target"
  shows "\<exists>tables rest. schema_compare existing target r = tables @ rest \<and>
    mset tables = mset (expected_table_changes r existing target) \<and>
    mset rest = mset (expected_column_changes existing target) \<and>
    sorted_wrt (\<ge>) (map removed_column (removals rest))"
proof -
  define tables where "tables = concat (map (\<lambda>p. table_change r (fst p) (snd p) []) (matching os_name target existing))"
  have t: "mset tables = mset (expected_table_changes r existing target)" unfolding tables_def by (rule mset_table_pass [OF assms(2,1)])
  then have "set tables = set (expected_table_changes r existing target)" by (metis set_mset_mset)
  then have "\<forall>c\<in>set tables. is_not_remove_property c" by (auto simp: expected_table_changes_def split: if_splits)
  from column_pass [OF this, of "matching os_name target existing"] show ?thesis
    using t unfolding concat_pair_changes [OF assms(2,1)] schema_compare_def table_pass append_Nil tables_def [symmetric] zip_matching_fold [of column_change]
    by blast
qed

lemma schema_compare_mset:
  assumes "sorted_schema existing" "sorted_schema target"
  shows "mset (schema_compare existing target r) = mset (expected_table_changes r existing target @ expected_column_changes existing target)"
  using schema_compare_split [OF assms, of r] by (metis mset_append)

end
