(* ===== verification/Schema_Verify.thy ===== *)
theory Schema_Verify
  imports Schema_Model
begin

text \<open>
  The verifiers of \<open>object_store.cpp\<close>: which lists of changes are acceptable in which mode.  An exception is a value
  with the errors it carries.
\<close>

section \<open>Verifiers\<close>

text \<open>\<open>SchemaDifferenceExplainer\<close>: what each change is reported as.\<close>

fun explain :: "schema_change \<Rightarrow> schema_error list" where
  "explain (AddTable os) = [Class_Added (os_name os)]"
| "explain (RemoveTable os) = []"
| "explain (AddInitialProperties os) = []"
| "explain (AddProperty os p) = [Property_Added (os_name os) (p_name p)]"
| "explain (RemoveProperty os p) = [Property_Removed (os_name os) (p_name p)]"
| "explain (ChangePropertyType os p q) = [Property_Type_Changed (os_name os) (p_name q) (type_string p) (type_string q)]"
| "explain (MakePropertyNullable os p) = [Property_Made_Optional (os_name os) (p_name p)]"
| "explain (MakePropertyRequired os p) = [Property_Made_Required (os_name os) (p_name p)]"
| "explain (ChangePrimaryKey os (Some p)) =
     (if primary_key os \<noteq> [] then [Primary_Key_Changed (os_name os) (primary_key os) (p_name p)]
      else [Primary_Key_Added (os_name os)])"
| "explain (ChangePrimaryKey os None) = [Primary_Key_Removed (os_name os)]"
| "explain (AddIndex os p) = [Property_Made_Indexed (os_name os) (p_name p)]"
| "explain (RemoveIndex os p) = [Property_Made_Unindexed (os_name os) (p_name p)]"

datatype schema_exception =
    Schema_Mismatch "schema_error list"
  | Invalid_Schema_Change "schema_error list"
  | Invalid_External_Change "schema_error list"
  | Duplicate_Primary_Key string string
  | Renamed_Does_Not_Exist string string
  | Rename_Error string
  | Assertion_Failed
  | Migration_Failed

definition verify_no_errors :: "(schema_error list \<Rightarrow> schema_exception) \<Rightarrow> (schema_change \<Rightarrow> schema_error list) \<Rightarrow>
    schema_change list \<Rightarrow> schema_exception + unit" where
  "verify_no_errors ex verifier changes =
     (let errors = concat (map verifier changes) in if errors \<noteq> [] then Inl (ex errors) else Inr ())"

fun change_needs_migration :: "schema_change \<Rightarrow> bool" where
  "change_needs_migration (AddIndex os p) = False"
| "change_needs_migration (AddInitialProperties os) = False"
| "change_needs_migration (AddProperty os p) = True"
| "change_needs_migration (AddTable os) = False"
| "change_needs_migration (RemoveTable os) = False"
| "change_needs_migration (ChangePrimaryKey os p) = True"
| "change_needs_migration (ChangePropertyType os p q) = True"
| "change_needs_migration (MakePropertyNullable os p) = True"
| "change_needs_migration (MakePropertyRequired os p) = True"
| "change_needs_migration (RemoveIndex os p) = False"
| "change_needs_migration (RemoveProperty os p) = True"

definition needs_migration :: "schema_change list \<Rightarrow> bool" where
  "needs_migration changes = list_ex change_needs_migration changes"

definition verify_no_changes_required :: "schema_change list \<Rightarrow> schema_exception + unit" where
  "verify_no_changes_required = verify_no_errors Schema_Mismatch explain"

fun no_migration_verifier :: "schema_change \<Rightarrow> schema_error list" where
  "no_migration_verifier (AddTable os) = []"
| "no_migration_verifier (AddInitialProperties os) = []"
| "no_migration_verifier (AddIndex os p) = []"
| "no_migration_verifier (RemoveIndex os p) = []"
| "no_migration_verifier c = explain c"

definition verify_no_migration_required :: "schema_change list \<Rightarrow> schema_exception + unit" where
  "verify_no_migration_required = verify_no_errors Schema_Mismatch no_migration_verifier"

fun additive_verifier :: "schema_change \<Rightarrow> schema_error list" where
  "additive_verifier (AddTable os) = []"
| "additive_verifier (AddInitialProperties os) = []"
| "additive_verifier (AddProperty os p) = []"
| "additive_verifier (RemoveProperty os p) = []"
| "additive_verifier (AddIndex os p) = []"
| "additive_verifier (RemoveIndex os p) = []"
| "additive_verifier c = explain c"

fun is_index_change :: "schema_change \<Rightarrow> bool" where
  "is_index_change (AddIndex os p) = True"
| "is_index_change (RemoveIndex os p) = True"
| "is_index_change c = False"

fun is_addition :: "schema_change \<Rightarrow> bool" where
  "is_addition (AddTable os) = True"
| "is_addition (AddInitialProperties os) = True"
| "is_addition (AddProperty os p) = True"
| "is_addition c = False"

definition verify_valid_additive_changes :: "schema_change list \<Rightarrow> bool \<Rightarrow> schema_exception + bool" where
  "verify_valid_additive_changes changes update_indexes =
     (case verify_no_errors Invalid_Schema_Change additive_verifier changes of
        Inl e \<Rightarrow> Inl e
      | Inr _ \<Rightarrow> Inr (list_ex is_addition changes \<or> list_ex is_index_change changes \<and> update_indexes))"

fun external_verifier :: "schema_change \<Rightarrow> schema_error list" where
  "external_verifier (AddTable os) = []"
| "external_verifier (AddInitialProperties os) = []"
| "external_verifier (AddProperty os p) = []"
| "external_verifier (AddIndex os p) = []"
| "external_verifier (RemoveIndex os p) = []"
| "external_verifier (RemoveTable os) = [Class_Removed (os_name os)]"
| "external_verifier c = explain c"

definition verify_valid_external_changes :: "schema_change list \<Rightarrow> schema_exception + unit" where
  "verify_valid_external_changes = verify_no_errors Invalid_External_Change external_verifier"

fun readonly_verifier :: "schema_change \<Rightarrow> schema_error list" where
  "readonly_verifier (AddTable os) = []"
| "readonly_verifier (AddInitialProperties os) = []"
| "readonly_verifier (RemoveProperty os p) = []"
| "readonly_verifier (AddIndex os p) = []"
| "readonly_verifier (RemoveIndex os p) = []"
| "readonly_verifier c = explain c"

definition verify_compatible_for_immutable_and_readonly :: "schema_change list \<Rightarrow> schema_exception + unit" where
  "verify_compatible_for_immutable_and_readonly = verify_no_errors Invalid_Schema_Change readonly_verifier"

end
