(* ===== verification/Schema_Diff.thy ===== *)
theory Schema_Diff
  imports Schema_Laws Schema_Verify
begin

text \<open>
  What the list of changes of a comparison means: when it is empty, when it needs a migration, and what is left of the
  columns of a table when its removals are carried out one by one.
\<close>

section \<open>Agreement of two object schemas\<close>

text \<open>The property is stored with the same kind of column.\<close>

definition same_kind :: "property \<Rightarrow> property \<Rightarrow> bool" where
  "same_kind p q \<longleftrightarrow> same_type (p_type p) (p_type q) \<and> p_object_type p = p_object_type q \<and>
     is_array (p_type p) = is_array (p_type q) \<and> is_nullable (p_type p) = is_nullable (p_type q)"

definition kept_as :: "object_schema \<Rightarrow> property \<Rightarrow> property \<Rightarrow> bool" where
  "kept_as target p q \<longleftrightarrow> property_for_name target (p_name p) = Some q \<and> \<not> property_is_computed target q"

definition columns_agree :: "object_schema \<Rightarrow> object_schema \<Rightarrow> bool" where
  "columns_agree existing target \<longleftrightarrow>
     primary_key existing = primary_key target \<and>
     (\<forall>p\<in>set (persisted existing). \<exists>q. kept_as target p q \<and> same_kind p q) \<and>
     (\<forall>q\<in>set (persisted target). property_for_name existing (p_name q) \<noteq> None)"

definition indexes_agree :: "object_schema \<Rightarrow> object_schema \<Rightarrow> bool" where
  "indexes_agree existing target \<longleftrightarrow>
     (\<forall>p\<in>set (persisted existing). \<forall>q. kept_as target p q \<longrightarrow>
        (if requires_index q then p_is_indexed p else \<not> requires_index p))"

lemma compare_property_Nil:
  "compare_property existing target p = [] \<longleftrightarrow>
     (\<exists>q. kept_as target p q \<and> same_kind p q \<and> (if requires_index q then p_is_indexed p else \<not> requires_index p))"
  by (auto simp: compare_property_def kept_as_def same_kind_def split: option.split)

lemma compare_property_no_migration:
  "(\<forall>c\<in>set (compare_property existing target p). \<not> change_needs_migration c) \<longleftrightarrow> (\<exists>q. kept_as target p q \<and> same_kind p q)"
  by (auto simp: compare_property_def kept_as_def same_kind_def split: option.split)

lemma object_changes_Nil: "object_changes existing target = [] \<longleftrightarrow> columns_agree existing target \<and> indexes_agree existing target"
proof -
  have k: "kept_as target p q \<Longrightarrow> kept_as target p q' \<Longrightarrow> q' = q" for p q q' by (simp add: kept_as_def)
  have "(\<exists>q. kept_as target p q \<and> same_kind p q \<and> (if requires_index q then p_is_indexed p else \<not> requires_index p)) \<longleftrightarrow>
      (\<exists>q. kept_as target p q \<and> same_kind p q) \<and>
      (\<forall>q. kept_as target p q \<longrightarrow> (if requires_index q then p_is_indexed p else \<not> requires_index p))" for p
    using k by metis
  then show ?thesis
    unfolding object_changes_def columns_agree_def indexes_agree_def
    by (simp add: compare_property_Nil filter_empty_conv) blast
qed

lemma object_changes_no_migration: "(\<forall>c\<in>set (object_changes existing target). \<not> change_needs_migration c) \<longleftrightarrow> columns_agree existing target"
proof -
  have "(\<forall>c\<in>set (object_changes existing target). \<not> change_needs_migration c) \<longleftrightarrow>
      (\<forall>p\<in>set (persisted existing). \<forall>c\<in>set (compare_property existing target p). \<not> change_needs_migration c) \<and>
      primary_key existing = primary_key target \<and>
      (\<forall>q\<in>set (persisted target). property_for_name existing (p_name q) \<noteq> None)"
    unfolding object_changes_def by (auto simp: ball_Un)
  then show ?thesis unfolding columns_agree_def compare_property_no_migration by blast
qed

section \<open>Agreement of two schemas\<close>

definition conforms :: "schema \<Rightarrow> schema \<Rightarrow> bool" where
  "conforms existing target \<longleftrightarrow>
     (\<forall>t\<in>set target. \<exists>e\<in>set existing. os_name e = os_name t \<and> columns_agree e t \<and> indexes_agree e t)"

definition conforms_shared :: "schema \<Rightarrow> schema \<Rightarrow> bool" where
  "conforms_shared existing target \<longleftrightarrow>
     (\<forall>t\<in>set target. \<forall>e\<in>set existing. os_name e = os_name t \<longrightarrow> columns_agree e t)"

lemma expected_column_changes_Nil:
  assumes "sorted_schema existing"
  shows "expected_column_changes existing target = [] \<longleftrightarrow> conforms existing target"
proof -
  have "(case schema_find existing (os_name t) of Some e \<Rightarrow> object_changes e t | None \<Rightarrow> [AddInitialProperties t]) = [] \<longleftrightarrow>
      (\<exists>e\<in>set existing. os_name e = os_name t \<and> columns_agree e t \<and> indexes_agree e t)" for t
    unfolding schema_find_Ex [OF assms] by (simp add: object_changes_Nil split: option.split)
  then show ?thesis by (simp add: expected_column_changes_def conforms_def)
qed

lemma expected_column_changes_no_migration:
  assumes "sorted_schema existing"
  shows "(\<forall>c\<in>set (expected_column_changes existing target). \<not> change_needs_migration c) \<longleftrightarrow> conforms_shared existing target"
proof -
  have "(\<forall>c\<in>set (case schema_find existing (os_name t) of Some e \<Rightarrow> object_changes e t | None \<Rightarrow> [AddInitialProperties t]). \<not> change_needs_migration c) \<longleftrightarrow>
      (\<forall>e\<in>set existing. os_name e = os_name t \<longrightarrow> columns_agree e t)" for t
    unfolding schema_find_All [OF assms] by (simp add: object_changes_no_migration split: option.split)
  then show ?thesis by (simp add: expected_column_changes_def conforms_shared_def ball_UN)
qed

lemma conforms_compare:
  assumes "sorted_schema existing" "sorted_schema target"
  shows "schema_compare existing target False = [] \<longleftrightarrow> conforms existing target"
proof -
  have "schema_compare existing target False = [] \<longleftrightarrow> expected_table_changes False existing target @ expected_column_changes existing target = []"
    using schema_compare_mset [OF assms, of False] by (metis mset_zero_iff)
  moreover have "expected_table_changes False existing target = []" if "conforms existing target"
  proof -
    have "os_name t \<in> os_name ` set existing" if "t \<in> set target" for t
      using \<open>conforms existing target\<close> that unfolding conforms_def by (metis imageI)
    then show ?thesis by (simp add: expected_table_changes_def)
  qed
  ultimately show ?thesis using expected_column_changes_Nil [OF assms(1), of target] by auto
qed

lemma set_schema_compare:
  assumes "sorted_schema existing" "sorted_schema target"
  shows "set (schema_compare existing target r) = set (expected_table_changes r existing target) \<union> set (expected_column_changes existing target)"
  using schema_compare_mset [OF assms, of r] by (metis set_append set_mset_mset)

lemma needs_migration_compare:
  assumes "sorted_schema existing" "sorted_schema target"
  shows "needs_migration (schema_compare existing target r) \<longleftrightarrow> \<not> conforms_shared existing target"
proof -
  have "\<forall>c\<in>set (expected_table_changes r existing target). \<not> change_needs_migration c"
    by (auto simp: expected_table_changes_def split: if_splits)
  then show ?thesis
    using expected_column_changes_no_migration [OF assms(1), of target]
    unfolding needs_migration_def list_ex_iff set_schema_compare [OF assms] by blast
qed

section \<open>Verifiers\<close>

lemma verify_no_errors_ok: "verify_no_errors ex v cs = Inr () \<longleftrightarrow> (\<forall>c\<in>set cs. v c = [])"
  by (auto simp: verify_no_errors_def Let_def)

lemma no_migration_verifier_ok: "no_migration_verifier c = [] \<longleftrightarrow> \<not> change_needs_migration c"
proof (cases c)
  case (ChangePrimaryKey os p)
  then show ?thesis by (cases p) simp_all
qed simp_all

lemma explain_Nil: "explain c = [] \<longleftrightarrow> (\<exists>os. c = RemoveTable os \<or> c = AddInitialProperties os)"
proof (cases c)
  case (ChangePrimaryKey os p)
  then show ?thesis by (cases p) simp_all
qed simp_all

lemma object_changes_only: "AddInitialProperties os \<notin> set (object_changes e t)" "RemoveTable os \<notin> set (object_changes e t)"
proof -
  have "AddInitialProperties os \<notin> set (compare_property e t p)" "RemoveTable os \<notin> set (compare_property e t p)" for p
    by (simp_all add: compare_property_def split: option.split)
  then show "AddInitialProperties os \<notin> set (object_changes e t)" "RemoveTable os \<notin> set (object_changes e t)"
    by (auto simp: object_changes_def)
qed

lemma verify_no_changes_compare:
  assumes "sorted_schema existing" "sorted_schema target"
  shows "verify_no_changes_required (schema_compare existing target r) = Inr () \<longleftrightarrow> conforms existing target"
proof -
  have "(\<forall>c\<in>set (expected_table_changes r existing target). explain c = []) \<longleftrightarrow> (\<forall>t\<in>set target. os_name t \<in> os_name ` set existing)"
  proof -
    have "(\<forall>c\<in>set (expected_table_changes r existing target). explain c = []) \<longleftrightarrow>
        filter (\<lambda>t. os_name t \<notin> os_name ` set existing) target = []"
      by (cases "filter (\<lambda>t. os_name t \<notin> os_name ` set existing) target") (auto simp: expected_table_changes_def)
    then show ?thesis by (simp only: filter_empty_conv not_not)
  qed
  moreover have "(\<forall>c\<in>set (expected_column_changes existing target). explain c = []) \<longleftrightarrow>
      (\<forall>t\<in>set target. \<forall>e. schema_find existing (os_name t) = Some e \<longrightarrow> object_changes e t = [])"
  proof -
    have "explain c \<noteq> []" if "c \<in> set (object_changes e t)" for c e t
      using that unfolding explain_Nil by (auto simp: object_changes_only)
    then have n: "(\<forall>c\<in>set (object_changes e t). explain c = []) \<longleftrightarrow> object_changes e t = []" for e t
      by (metis list.set_intros(1) neq_Nil_conv empty_iff list.set(1))
    have "(\<forall>c\<in>set (case schema_find existing (os_name t) of Some e \<Rightarrow> object_changes e t | None \<Rightarrow> [AddInitialProperties t]). explain c = []) \<longleftrightarrow>
        (\<forall>e. schema_find existing (os_name t) = Some e \<longrightarrow> object_changes e t = [])" for t
      by (simp add: n split: option.split)
    then show ?thesis unfolding expected_column_changes_def set_concat set_map by (simp only: ball_UN ball_simps)
  qed
  moreover have "os_name t \<in> os_name ` set existing \<and> (\<forall>e. schema_find existing (os_name t) = Some e \<longrightarrow> object_changes e t = []) \<longleftrightarrow>
      (\<exists>e\<in>set existing. os_name e = os_name t \<and> columns_agree e t \<and> indexes_agree e t)" for t
    unfolding schema_find_Ex [OF assms(1)] object_changes_Nil [symmetric] using schema_find_None_iff [OF assms(1), of "os_name t"]
    by (cases "schema_find existing (os_name t)") simp_all
  ultimately show ?thesis
    unfolding verify_no_changes_required_def verify_no_errors_ok set_schema_compare [OF assms] ball_Un conforms_def
    by (simp only: ball_conj_distrib [symmetric])
qed

section \<open>Removals\<close>

definition drop_column :: "size_t \<Rightarrow> 'a list \<Rightarrow> 'a list" where
  "drop_column i xs = take i xs @ drop (Suc i) xs"

lemma drop_columns_keep:
  "sorted_wrt (>) is \<Longrightarrow> \<forall>i\<in>set is. i < length xs \<Longrightarrow> foldl (\<lambda>xs i. drop_column i xs) xs is = keep (set is) xs"
proof (induction "is" arbitrary: xs)
  case (Cons i "is")
  have i: "i < length xs" and below: "\<forall>j\<in>set is. j < i" using Cons.prems by simp_all
  have "foldl (\<lambda>xs i. drop_column i xs) (drop_column i xs) is = keep (set is) (drop_column i xs)"
    using Cons.prems i below by (intro Cons.IH) (auto simp: drop_column_def)
  also have "\<dots> = keep (set is) (take i xs) @ keep {} (drop (Suc i) xs)"
    unfolding drop_column_def keep_append using i below by (intro arg_cong2 [of _ _ _ _ append] keep_cong) auto
  also have "\<dots> = keep (set (i # is)) xs"
  proof -
    have "keep (set (i # is)) (take i xs) = keep (set is) (take i xs)" by (intro keep_cong) auto
    moreover have "keep {j. j + Suc i \<in> set (i # is)} (drop (Suc i) xs) = keep {} (drop (Suc i) xs)"
      using below by (intro keep_cong) auto
    ultimately show ?thesis unfolding keep_split [OF i, of "set (i # is)"] by simp
  qed
  finally show ?case by simp
qed simp

text \<open>The columns of a type that a list of changes removes, in the order in which it removes them.\<close>

definition removed_columns :: "object_schema \<Rightarrow> schema_change list \<Rightarrow> size_t list" where
  "removed_columns os cs = concat (map (\<lambda>c. case c of RemoveProperty os' p \<Rightarrow> if os' = os then [p_table_column p] else [] | _ \<Rightarrow> []) cs)"

definition dropped :: "object_schema \<Rightarrow> property \<Rightarrow> bool" where
  "dropped target p \<longleftrightarrow> (\<nexists>q. kept_as target p q)"

lemma removed_columns_append [simp]: "removed_columns os (cs @ ds) = removed_columns os cs @ removed_columns os ds"
  by (simp add: removed_columns_def)

lemma removed_columns_none: "\<forall>c\<in>set cs. is_not_remove_property c \<Longrightarrow> removed_columns os cs = []"
  by (auto simp: removed_columns_def split: schema_change.splits)

lemma removed_columns_removals: "removed_columns os cs = map removed_column (filter (\<lambda>c. \<exists>p. c = RemoveProperty os p) (removals cs))"
  by (induction cs) (auto simp: removed_columns_def split: schema_change.splits)

lemma removed_columns_object:
  "removed_columns os (object_changes e t) = (if e = os then map p_table_column (filter (dropped t) (persisted e)) else [])"
proof -
  have "removed_columns os (compare_property e t p) = (if e = os \<and> dropped t p then [p_table_column p] else [])" for p
    by (auto simp: compare_property_def removed_columns_def dropped_def kept_as_def split: option.splits)
  then have "removed_columns os (concat (map (compare_property e t) ps)) = (if e = os then map p_table_column (filter (dropped t) ps) else [])" for ps
    by (induction ps) (auto simp: removed_columns_def)
  moreover have "removed_columns os (map (AddProperty e) ps) = []" for ps by (induction ps) (simp_all add: removed_columns_def)
  ultimately show ?thesis by (simp add: object_changes_def) (simp add: removed_columns_def)
qed

lemma removed_columns_mset: "mset cs = mset ds \<Longrightarrow> mset (removed_columns os cs) = mset (removed_columns os ds)"
proof -
  assume e: "mset cs = mset ds"
  define h where "h c = (case c of RemoveProperty os' p \<Rightarrow> if os' = os then [p_table_column p] else [] | _ \<Rightarrow> [])" for c
  have "mset (concat (map h xs)) = \<Sum>\<^sub># (image_mset (\<lambda>c. mset (h c)) (mset xs))" for xs by (induction xs) simp_all
  then show ?thesis using e unfolding removed_columns_def h_def [abs_def, symmetric] by (simp add: h_def)
qed

lemma removed_columns_expected:
  assumes "sorted_schema existing" "sorted_schema target" "e \<in> set existing" "t \<in> set target" "os_name e = os_name t"
  shows "removed_columns e (expected_column_changes existing target) = map p_table_column (filter (dropped t) (persisted e))"
proof -
  define h where "h t = (case schema_find existing (os_name t) of Some e \<Rightarrow> object_changes e t | None \<Rightarrow> [AddInitialProperties t])" for t
  have other: "removed_columns e (h t') = []" if "t' \<in> set target" "t' \<noteq> t" for t'
  proof -
    have "os_name t' \<noteq> os_name e" using sorted_schema_distinct [OF assms(2)] assms(4,5) that by (auto simp: distinct_map inj_on_def)
    then have "schema_find existing (os_name t') \<noteq> Some e" using schema_find_SomeD by metis
    then show ?thesis by (cases "schema_find existing (os_name t')") (simp_all add: h_def removed_columns_object removed_columns_none)
  qed
  have own: "removed_columns e (h t) = map p_table_column (filter (dropped t) (persisted e))"
    using schema_find_iff [OF assms(1), of "os_name t" e] assms(3,5) by (simp add: h_def removed_columns_object)
  obtain as bs where ab: "target = as @ t # bs" using assms(4) by (meson split_list)
  have "t \<notin> set as \<union> set bs" using sorted_schema_distinct [OF assms(2)] unfolding ab by (auto simp: distinct_map)
  then have "removed_columns e (concat (map h as)) = []" "removed_columns e (concat (map h bs)) = []"
    using other unfolding ab by (auto simp: removed_columns_def)
  then show ?thesis unfolding expected_column_changes_def h_def [symmetric] ab by (simp add: own)
qed

lemma removals_leave_rest:
  assumes "sorted_schema existing" "sorted_schema target" "e \<in> set existing" "t \<in> set target" "os_name e = os_name t"
    "distinct (map p_table_column (persisted e))" "\<forall>p\<in>set (persisted e). p_table_column p < length cols"
  shows "foldl (\<lambda>xs i. drop_column i xs) cols (removed_columns e (schema_compare existing target r)) =
    keep (p_table_column ` {p \<in> set (persisted e). dropped t p}) cols"
proof -
  obtain tables rest where r: "schema_compare existing target r = tables @ rest"
    "mset tables = mset (expected_table_changes r existing target)" "mset rest = mset (expected_column_changes existing target)"
    "sorted_wrt (\<ge>) (map removed_column (removals rest))" using schema_compare_split [OF assms(1,2)] by blast
  have "set tables = set (expected_table_changes r existing target)" using r(2) by (metis set_mset_mset)
  then have "removed_columns e tables = []" by (intro removed_columns_none) (auto simp: expected_table_changes_def split: if_splits)
  then have cols: "removed_columns e (schema_compare existing target r) = removed_columns e rest" unfolding r(1) by simp
  have m: "mset (removed_columns e rest) = mset (map p_table_column (filter (dropped t) (persisted e)))"
    using removed_columns_mset [OF r(3), of e] unfolding removed_columns_expected [OF assms(1-5)] .
  have "distinct (map p_table_column (filter (dropped t) (persisted e)))" using assms(6) by (auto simp: distinct_map inj_on_def)
  then have "distinct (removed_columns e rest)" using m mset_eq_imp_distinct_iff by blast
  moreover have "sorted_wrt (\<ge>) (removed_columns e rest)" using r(4) unfolding removed_columns_removals sorted_wrt_map
    by (rule sorted_wrt_filter)
  ultimately have s: "sorted_wrt (>) (removed_columns e rest)"
    by (simp add: sorted_wrt_iff_nth_less distinct_conv_nth order.strict_iff_order)
  have set_eq: "set (removed_columns e rest) = p_table_column ` {p \<in> set (persisted e). dropped t p}"
    using m by (metis list.set_map set_filter set_mset_mset)
  show ?thesis unfolding cols using drop_columns_keep [OF s, of cols] assms(7) unfolding set_eq by auto
qed

end
