(* ===== verification/Schema_Valid.thy ===== *)
theory Schema_Valid
  imports Schema_Laws
begin

text \<open>
  What validation accepts, stated without the order in which the code looks: names are unique, every property is well typed,
  and links and their origins resolve.
\<close>

definition valid_link :: "schema \<Rightarrow> string \<Rightarrow> property \<Rightarrow> bool" where
  "valid_link s name p \<longleftrightarrow>
     (if same_type (p_type p) PT_Object \<or> same_type (p_type p) PT_LinkingObjects
      then \<exists>target\<in>set s. os_name target = p_object_type p \<and>
             (same_type (p_type p) PT_LinkingObjects \<longrightarrow>
                (\<exists>origin. property_for_name target (p_link_origin p) = Some origin \<and>
                   same_type (p_type origin) PT_Object \<and> p_object_type origin = name))
      else p_object_type p = [])"

definition valid_property :: "schema \<Rightarrow> string \<Rightarrow> property \<Rightarrow> bool" where
  "valid_property s name p \<longleftrightarrow>
     (same_type (p_type p) PT_LinkingObjects \<longrightarrow> is_array (p_type p)) \<and>
     (is_nullable (p_type p) \<longrightarrow> type_is_nullable p) \<and>
     (same_type (p_type p) PT_Object \<longrightarrow> is_nullable (p_type p) \<or> is_array (p_type p)) \<and>
     (p_is_primary p \<longrightarrow> same_type (p_type p) PT_Int \<or> same_type (p_type p) PT_String) \<and>
     (p_is_indexed p \<longrightarrow> type_is_indexable p) \<and>
     (p_link_origin p \<noteq> [] \<longleftrightarrow> same_type (p_type p) PT_LinkingObjects) \<and>
     valid_link s name p"

definition public_names :: "object_schema \<Rightarrow> string list" where
  "public_names os = map p_public_name (filter (\<lambda>p. p_public_name p \<noteq> []) (persisted os @ computed os))"

definition valid_object :: "schema \<Rightarrow> object_schema \<Rightarrow> bool" where
  "valid_object s os \<longleftrightarrow>
     (let ps = persisted os @ computed os
      in distinct (map p_name ps) \<and> distinct (public_names os) \<and> set (public_names os) \<inter> p_name ` set ps = {} \<and>
         (\<forall>p\<in>set ps. valid_property s (os_name os) p) \<and>
         length (filter p_is_primary ps) \<le> 1 \<and>
         (primary_key os \<noteq> [] \<longrightarrow> filter p_is_primary ps \<noteq> [] \<or> primary_key os \<in> p_name ` set ps))"

definition valid_schema :: "schema \<Rightarrow> bool" where
  "valid_schema s \<longleftrightarrow> distinct (map os_name s) \<and> (\<forall>os\<in>set s. valid_object s os)"

section \<open>Helper functions of the validation\<close>

lemma find_is_None: "List.find P xs = None \<longleftrightarrow> (\<forall>x\<in>set xs. \<not> P x)"
  by (auto simp: find_None_iff)

lemma property_for_name_None: "property_for_name os n = None \<longleftrightarrow> n \<notin> p_name ` set (persisted os @ computed os)"
proof (cases "List.find (\<lambda>p. p_name p = n) (persisted os)")
  case None
  then have "property_for_name os n = List.find (\<lambda>p. p_name p = n) (computed os)" by (simp add: property_for_name_def)
  then show ?thesis using None by (auto simp: find_is_None)
next
  case (Some p)
  then have "p \<in> set (persisted os)" "p_name p = n" by (auto simp: find_Some_iff)
  then show ?thesis using Some by (auto simp: property_for_name_def)
qed

lemma duplicates_Nil: "sorted xs \<Longrightarrow> duplicates xs = [] \<longleftrightarrow> distinct (xs :: 'a :: linorder list)"
proof (induction xs rule: duplicates.induct)
  case (1 x y zs)
  have "distinct (x # y # zs) \<longleftrightarrow> x \<noteq> y \<and> distinct (y # zs)" using 1(3) by (auto simp: order.antisym)
  then show ?case using 1 by (cases "x = y") simp_all
qed simp_all

lemma duplicate_types_Nil: "sorted (map os_name s) \<Longrightarrow> duplicate_types s = [] \<longleftrightarrow> distinct (map os_name s)"
proof (induction s rule: duplicate_types.induct)
  case (1 x y zs)
  have "distinct (map os_name (x # y # zs)) \<longleftrightarrow> os_name x \<noteq> os_name y \<and> distinct (map os_name (y # zs))"
    using 1(3) by (auto simp: order.antisym)
  then show ?case using 1 by (cases "os_name x = os_name y") simp_all
qed simp_all

lemma set_intersection_Nil: "sorted xs \<Longrightarrow> sorted ys \<Longrightarrow> set_intersection xs ys = [] \<longleftrightarrow> set xs \<inter> set (ys :: 'a :: linorder list) = {}"
proof (induction xs ys rule: set_intersection.induct)
  case (1 x xs y ys)
  consider "x < y" | "y < x" | "x = y" by (rule linorder_cases)
  then show ?case
  proof cases
    case 1
    then have "x \<notin> set (y # ys)" using "1.prems" by auto
    then show ?thesis using "1.IH"(1) [OF 1] "1.prems" 1 by simp
  next
    case 2
    then have "y \<notin> set (x # xs)" using "1.prems" by auto
    moreover have "\<not> x < y" using 2 by simp
    ultimately show ?thesis using "1.IH"(2) "1.prems" 2 by auto
  qed simp
qed simp_all

lemma type_errors_Nil:
  "type_errors n p = [] \<longleftrightarrow> (same_type (p_type p) PT_LinkingObjects \<longrightarrow> is_array (p_type p)) \<and>
     (is_nullable (p_type p) \<longrightarrow> type_is_nullable p) \<and>
     (same_type (p_type p) PT_Object \<longrightarrow> is_nullable (p_type p) \<or> is_array (p_type p))"
  by (auto simp: type_errors_def)

lemma primary_errors_Nil:
  "primary_errors n p q = [] \<longleftrightarrow> (p_is_primary p \<longrightarrow> (same_type (p_type p) PT_Int \<or> same_type (p_type p) PT_String) \<and> q = None)"
  by (auto simp: primary_errors_def split: option.splits)

lemma index_errors_Nil:
  "index_errors n p = [] \<longleftrightarrow> (p_is_indexed p \<longrightarrow> type_is_indexable p) \<and> (p_link_origin p \<noteq> [] \<longleftrightarrow> same_type (p_type p) PT_LinkingObjects)"
  by (auto simp: index_errors_def)

lemma link_errors_Nil:
  assumes "sorted_schema s"
  shows "link_errors s n p = [] \<longleftrightarrow> valid_link s n p"
proof (cases "same_type (p_type p) PT_Object \<or> same_type (p_type p) PT_LinkingObjects")
  case True
  show ?thesis
  proof (cases "schema_find s (p_object_type p)")
    case None
    then have "\<not> valid_link s n p" unfolding valid_link_def if_P [OF True] schema_find_Ex [OF assms] by simp
    then show ?thesis using True None by (simp add: link_errors_def)
  next
    case (Some target)
    define ok where "ok t \<longleftrightarrow> (same_type (p_type p) PT_LinkingObjects \<longrightarrow>
        (\<exists>origin. property_for_name t (p_link_origin p) = Some origin \<and> same_type (p_type origin) PT_Object \<and> p_object_type origin = n))" for t
    have "valid_link s n p \<longleftrightarrow> ok target" unfolding valid_link_def if_P [OF True] ok_def [symmetric] schema_find_Ex [OF assms] using Some by simp
    moreover have "link_errors s n p = [] \<longleftrightarrow> ok target"
    proof (cases "same_type (p_type p) PT_LinkingObjects")
      case l: True
      show ?thesis unfolding link_errors_def ok_def Some option.case using l
        by (cases "property_for_name target (p_link_origin p)") simp_all
    next
      case False
      then show ?thesis unfolding link_errors_def ok_def Some option.case using True by simp
    qed
    ultimately show ?thesis by simp
  qed
qed (simp add: link_errors_def valid_link_def)

lemma validate_property_Nil:
  assumes "sorted_schema s"
  shows "fst (validate_property s n p q) = [] \<longleftrightarrow> valid_property s n p \<and> (p_is_primary p \<longrightarrow> q = None)"
  unfolding validate_property_def fst_conv append_is_Nil_conv type_errors_Nil primary_errors_Nil index_errors_Nil link_errors_Nil [OF assms] valid_property_def
  by blast

lemma validate_properties_Cons:
  "fst (validate_properties s n (p # ps) q) =
     fst (validate_property s n p q) @ fst (validate_properties s n ps (if p_is_primary p then Some p else q))"
  "snd (validate_properties s n (p # ps) q) = snd (validate_properties s n ps (if p_is_primary p then Some p else q))"
  by (simp_all add: validate_property_def split_beta)

lemma validate_properties_snd: "snd (validate_properties s n ps q) = (if filter p_is_primary ps = [] then q else Some (last (filter p_is_primary ps)))"
  by (induction ps arbitrary: q) (simp_all add: validate_properties_Cons del: validate_properties.simps(2))

lemma validate_properties_Nil:
  assumes "sorted_schema s"
  shows "fst (validate_properties s n ps q) = [] \<longleftrightarrow> (\<forall>p\<in>set ps. valid_property s n p) \<and>
    length (filter p_is_primary ps) \<le> (if q = None then 1 else 0)"
proof (induction ps arbitrary: q)
  case (Cons p ps)
  show ?case unfolding validate_properties_Cons append_is_Nil_conv Cons.IH validate_property_Nil [OF assms] by auto
qed simp

section \<open>Objects and schemas\<close>

lemma validate_object_Nil:
  assumes "sorted_schema s"
  shows "validate_object s os = [] \<longleftrightarrow> valid_object s os"
proof -
  define ps where "ps = persisted os @ computed os"
  define e1 where "e1 = validate_properties s (os_name os) (persisted os) None"
  define e2 where "e2 = validate_properties s (os_name os) (computed os) (snd e1)"
  have names: "validate_object s os = [] \<longleftrightarrow>
      duplicates (sort (public_names os)) = [] \<and> duplicates (sort (map p_name ps)) = [] \<and>
      set_intersection (sort (public_names os)) (sort (map p_name ps)) = [] \<and> fst e1 = [] \<and> fst e2 = [] \<and>
      (primary_key os \<noteq> [] \<longrightarrow> snd e2 \<noteq> None \<or> primary_key_property os \<noteq> None)"
    by (auto simp: validate_object_def Let_def e1_def e2_def ps_def public_names_def split: prod.splits)
  have snd1: "snd e1 = None \<longleftrightarrow> filter p_is_primary (persisted os) = []" unfolding e1_def by (simp add: validate_properties_snd)
  have snd2: "snd e2 = None \<longleftrightarrow> filter p_is_primary ps = []" unfolding e2_def ps_def using snd1 by (simp add: validate_properties_snd)
  have errs: "fst e1 = [] \<and> fst e2 = [] \<longleftrightarrow> (\<forall>p\<in>set ps. valid_property s (os_name os) p) \<and> length (filter p_is_primary ps) \<le> 1"
  proof -
    have 1: "fst e1 = [] \<longleftrightarrow> (\<forall>p\<in>set (persisted os). valid_property s (os_name os) p) \<and> length (filter p_is_primary (persisted os)) \<le> 1"
      unfolding e1_def validate_properties_Nil [OF assms] by simp
    have 2: "fst e2 = [] \<longleftrightarrow> (\<forall>p\<in>set (computed os). valid_property s (os_name os) p) \<and>
        length (filter p_is_primary (computed os)) \<le> (if filter p_is_primary (persisted os) = [] then 1 else 0)"
      unfolding e2_def validate_properties_Nil [OF assms] snd1 ..
    have 3: "length xs \<le> 1 \<and> length ys \<le> (if xs = [] then 1 else 0) \<longleftrightarrow> length (xs @ ys) \<le> 1" for xs ys :: "property list"
      by (cases xs) auto
    show ?thesis unfolding 1 2 ps_def filter_append 3 [symmetric] set_append ball_Un by blast
  qed
  have pk: "primary_key_property os \<noteq> None \<longleftrightarrow> primary_key os \<in> p_name ` set ps"
    unfolding primary_key_property_def property_for_name_None ps_def by simp
  show ?thesis
    unfolding names snd2 pk valid_object_def Let_def ps_def [symmetric] using errs
    by (auto simp: duplicates_Nil set_intersection_Nil)
qed

lemma valid_object_cong: "set s = set s' \<Longrightarrow> valid_object s os \<longleftrightarrow> valid_object s' os"
  by (simp add: valid_object_def valid_property_def valid_link_def)

lemma validate_schema_valid: "validate_schema (make_schema ts) = Inr () \<longleftrightarrow> valid_schema ts"
proof (cases "distinct (map os_name ts)")
  case True
  have "duplicate_types (make_schema ts) = []" using sorted_make_schema [OF True] duplicate_types_Nil
    by (simp add: sorted_schema_def strict_sorted_iff)
  moreover have "concat (map (validate_object (make_schema ts)) (make_schema ts)) = [] \<longleftrightarrow> (\<forall>os\<in>set ts. valid_object ts os)"
    using validate_object_Nil [OF sorted_make_schema [OF True]] valid_object_cong [of "make_schema ts" ts] by simp
  ultimately show ?thesis using True by (simp add: validate_schema_def valid_schema_def Let_def)
next
  case False
  have "sorted (map os_name (make_schema ts))" by (simp add: make_schema_def)
  moreover have "\<not> distinct (map os_name (make_schema ts))" using False
    by (metis make_schema_def mset_sort distinct_map mset_eq_imp_distinct_iff set_make_schema)
  ultimately have "duplicate_types (make_schema ts) \<noteq> []" by (simp add: duplicate_types_Nil)
  then show ?thesis using False by (simp add: validate_schema_def valid_schema_def Let_def)
qed

end
