(* ===== verification/Object_Store.thy ===== *)
theory Object_Store
  imports Schema_Verify
begin

text \<open>
  The operations of \<open>object_store.cpp\<close> on a file: columns, primary keys, object tables, the schema version, and reading
  the schema back.  The file, a \<open>Group\<close> of the database core, is not part of this repository: the state \<open>'g\<close> and the
  calls on it are a parameter, the record \<open>core\<close>.  A failed assertion is \<open>None\<close>.
\<close>

section \<open>The database core\<close>

text \<open>
  A column as the core shows it: its name, its type with the first column of a subtable, whether it has a search index,
  the name of the table it links to, and the names of the columns of a subtable.
\<close>

record column =
  col_name :: string
  col_type :: core_column
  col_indexed :: bool
  col_link_target :: string
  col_sub_names :: "string list"

text \<open>
  The calls on the group and its tables.  Tables are named by their table name; everything the code reads of the columns of
  a table is read from the list \<open>columns_of\<close>.  \<open>create_with_key\<close> and \<open>create_plain\<close> are the functions of the
  sync library that create an object table; \<open>set_up_basic_permissions\<close>, \<open>add_user_to_role\<close> and
  \<open>set_class_permissions\<close> (with all privileges) are its permission calls, and \<open>initialize_subscriptions\<close> is the
  set-up of the subscription table (partial sync, which is not modelled).
\<close>

record 'g core =
  table_names :: "'g \<Rightarrow> string list"
  get_or_add_table :: "'g \<Rightarrow> string \<Rightarrow> 'g"
  remove_table :: "'g \<Rightarrow> string \<Rightarrow> 'g"
  create_plain :: "'g \<Rightarrow> string \<Rightarrow> 'g"
  create_with_key :: "'g \<Rightarrow> string \<Rightarrow> core_type \<Rightarrow> string \<Rightarrow> bool \<Rightarrow> 'g"
  columns_of :: "'g \<Rightarrow> string \<Rightarrow> column list"
  insert_column_core :: "'g \<Rightarrow> string \<Rightarrow> nat \<Rightarrow> core_type \<Rightarrow> string \<Rightarrow> bool \<Rightarrow> 'g"
  insert_column_link :: "'g \<Rightarrow> string \<Rightarrow> nat \<Rightarrow> core_type \<Rightarrow> string \<Rightarrow> string \<Rightarrow> 'g"
  insert_column_table :: "'g \<Rightarrow> string \<Rightarrow> nat \<Rightarrow> string \<Rightarrow> core_type \<Rightarrow> string \<Rightarrow> bool \<Rightarrow> 'g"
  remove_column :: "'g \<Rightarrow> string \<Rightarrow> nat \<Rightarrow> 'g"
  rename_column :: "'g \<Rightarrow> string \<Rightarrow> nat \<Rightarrow> string \<Rightarrow> 'g"
  add_search_index :: "'g \<Rightarrow> string \<Rightarrow> nat \<Rightarrow> 'g"
  remove_search_index :: "'g \<Rightarrow> string \<Rightarrow> nat \<Rightarrow> 'g"
  table_size :: "'g \<Rightarrow> string \<Rightarrow> nat"
  add_empty_row :: "'g \<Rightarrow> string \<Rightarrow> 'g"
  copy_value :: "'g \<Rightarrow> string \<Rightarrow> core_type \<Rightarrow> nat \<Rightarrow> nat \<Rightarrow> nat \<Rightarrow> 'g"
  distinct_count :: "'g \<Rightarrow> string \<Rightarrow> size_t \<Rightarrow> nat"
  has_object_ids :: "'g \<Rightarrow> bool"
  pk_rows :: "'g \<Rightarrow> (string \<times> string) list"
  pk_add :: "'g \<Rightarrow> string \<Rightarrow> string \<Rightarrow> 'g"
  pk_set :: "'g \<Rightarrow> nat \<Rightarrow> string \<Rightarrow> 'g"
  pk_move_last_over :: "'g \<Rightarrow> nat \<Rightarrow> 'g"
  version_cell :: "'g \<Rightarrow> 64 word"
  set_version_cell :: "'g \<Rightarrow> 64 word \<Rightarrow> 'g"
  find_first_string :: "'g \<Rightarrow> string \<Rightarrow> size_t \<Rightarrow> string \<Rightarrow> nat option"
  set_link :: "'g \<Rightarrow> string \<Rightarrow> size_t \<Rightarrow> nat \<Rightarrow> nat \<Rightarrow> 'g"
  initialize_subscriptions :: "'g \<Rightarrow> 'g"
  set_up_basic_permissions :: "'g \<Rightarrow> 'g"
  add_user_to_role :: "'g \<Rightarrow> string \<Rightarrow> string \<Rightarrow> 'g"
  set_class_permissions :: "'g \<Rightarrow> string \<Rightarrow> string \<Rightarrow> 'g"

definition table_exists :: "'g core \<Rightarrow> 'g \<Rightarrow> string \<Rightarrow> bool" where
  "table_exists C g table \<longleftrightarrow> table \<in> set (table_names C g)"

text \<open>\<open>get_column_index\<close>, which is \<open>not_found\<close> for an unknown name.\<close>

definition column_index :: "'g core \<Rightarrow> 'g \<Rightarrow> string \<Rightarrow> string \<Rightarrow> size_t" where
  "column_index C g table name =
     (let i = length (takeWhile (\<lambda>c. col_name c \<noteq> name) (columns_of C g table))
      in if i < length (columns_of C g table) then i else npos)"

definition table_name_for_object_type :: "string \<Rightarrow> string" where
  "table_name_for_object_type object_type = ''class_'' @ object_type"

definition object_type_for_table_name :: "string \<Rightarrow> string" where
  "object_type_for_table_name table_name =
     (if take (length ''class_'') table_name = ''class_'' then drop (length ''class_'') table_name else [])"

definition to_core_type :: "property_type \<Rightarrow> core_type option" where
  "to_core_type t =
     (let b = base_type t
      in if b = PT_Object \<or> b = PT_Any then None
         else if b = PT_Int then Some T_Int
         else if b = PT_Bool then Some T_Bool
         else if b = PT_Float then Some T_Float
         else if b = PT_Double then Some T_Double
         else if b = PT_String then Some T_String
         else if b = PT_Date then Some T_Timestamp
         else if b = PT_Data then Some T_Binary
         else None)"

section \<open>Columns\<close>

definition insert_property_column :: "'g core \<Rightarrow> 'g \<Rightarrow> string \<Rightarrow> property \<Rightarrow> nat \<Rightarrow> 'g option" where
  "insert_property_column C g table p col =
     (if same_type (p_type p) PT_LinkingObjects then None
      else if same_type (p_type p) PT_Object
      then let target = table_name_for_object_type (p_object_type p)
           in if table_exists C g target
              then Some (insert_column_link C g table col (if is_array (p_type p) then T_LinkList else T_Link) (p_name p) target)
              else None
      else if is_array (p_type p)
      then do { t \<leftarrow> to_core_type (base_type (p_type p));
                Some (insert_column_table C g table col (p_name p) t ''!ARRAY_VALUE'' (is_nullable (p_type p))) }
      else do { t \<leftarrow> to_core_type (p_type p);
                let g1 = insert_column_core C g table col t (p_name p) (is_nullable (p_type p))
                in Some (if requires_index p then add_search_index C g1 table col else g1) })"

definition add_column :: "'g core \<Rightarrow> 'g \<Rightarrow> string \<Rightarrow> property \<Rightarrow> 'g option" where
  "add_column C g table p = insert_property_column C g table p (length (columns_of C g table))"

definition replace_column :: "'g core \<Rightarrow> 'g \<Rightarrow> string \<Rightarrow> property \<Rightarrow> property \<Rightarrow> 'g option" where
  "replace_column C g table old new =
     do { g1 \<leftarrow> insert_property_column C g table new (p_table_column old);
          Some (remove_column C g1 table (p_table_column old + 1)) }"

definition copy_property_values :: "'g core \<Rightarrow> 'g \<Rightarrow> string \<Rightarrow> property \<Rightarrow> 'g" where
  "copy_property_values C g table p =
     (if base_type (p_type p) \<in> {PT_Int, PT_Bool, PT_Float, PT_Double, PT_String, PT_Data, PT_Date}
      then foldl (\<lambda>g i. copy_value C g table (the (to_core_type (p_type p))) (p_table_column p) (p_table_column p + 1) i)
             g [0..<table_size C g table]
      else g)"

definition make_property_optional :: "'g core \<Rightarrow> 'g \<Rightarrow> string \<Rightarrow> property \<Rightarrow> 'g option" where
  "make_property_optional C g table p =
     (let p1 = p\<lparr>p_type := p_type p OR PT_Nullable\<rparr>
      in do { g1 \<leftarrow> insert_property_column C g table p1 (p_table_column p1);
              Some (remove_column C (copy_property_values C g1 table p1) table (p_table_column p1 + 1)) })"

definition make_property_required :: "'g core \<Rightarrow> 'g \<Rightarrow> string \<Rightarrow> property \<Rightarrow> 'g option" where
  "make_property_required C g table p =
     (let p1 = p\<lparr>p_type := p_type p AND NOT PT_Nullable\<rparr>
      in do { g1 \<leftarrow> insert_property_column C g table p1 (p_table_column p1);
              Some (remove_column C g1 table (p_table_column p1 + 1)) })"

section \<open>Primary keys\<close>

definition find_pk :: "'g core \<Rightarrow> 'g \<Rightarrow> string \<Rightarrow> nat option" where
  "find_pk C g object_type =
     (let i = length (takeWhile (\<lambda>r. fst r \<noteq> object_type) (pk_rows C g)) in if i < length (pk_rows C g) then Some i else None)"

definition get_primary_key_for_object :: "'g core \<Rightarrow> 'g \<Rightarrow> string \<Rightarrow> string" where
  "get_primary_key_for_object C g object_type =
     (if \<not> table_exists C g ''pk'' then []
      else case find_pk C g object_type of None \<Rightarrow> [] | Some i \<Rightarrow> snd (pk_rows C g ! i))"

definition set_primary_key_for_object :: "bool \<Rightarrow> 'g core \<Rightarrow> 'g \<Rightarrow> string \<Rightarrow> string \<Rightarrow> 'g option" where
  "set_primary_key_for_object sync C g object_type key =
     (let row = find_pk C g object_type
      in if sync \<and> has_object_ids C g
         then if key = [] then (if row = None then Some g else None)
              else (case row of None \<Rightarrow> None | Some i \<Rightarrow> if snd (pk_rows C g ! i) = key then Some g else None)
         else case row of
                None \<Rightarrow> Some (if key \<noteq> [] then pk_add C g object_type key else g)
              | Some i \<Rightarrow> Some (if key = [] then pk_move_last_over C g i else pk_set C g i key))"

definition primary_column_unique :: "'g core \<Rightarrow> 'g \<Rightarrow> string \<Rightarrow> string \<Rightarrow> bool" where
  "primary_column_unique C g object_type key \<longleftrightarrow>
     (let table = table_name_for_object_type object_type
      in distinct_count C g table (column_index C g table key) = table_size C g table)"

text \<open>\<open>validate_primary_column_uniqueness\<close> of one type, and of every row of the table of primary keys.\<close>

definition validate_unique :: "'g core \<Rightarrow> 'g \<Rightarrow> string \<Rightarrow> string \<Rightarrow> schema_exception + unit" where
  "validate_unique C g object_type key =
     (if primary_column_unique C g object_type key then Inr () else Inl (Duplicate_Primary_Key object_type key))"

fun validate_unique_rows :: "'g core \<Rightarrow> 'g \<Rightarrow> (string \<times> string) list \<Rightarrow> schema_exception + unit" where
  "validate_unique_rows C g [] = Inr ()"
| "validate_unique_rows C g (r # rs) =
     (case validate_unique C g (fst r) (snd r) of Inl e \<Rightarrow> Inl e | Inr _ \<Rightarrow> validate_unique_rows C g rs)"

section \<open>Tables\<close>

text \<open>\<open>sync\<close> says whether the library is built with \<open>REALM_ENABLE_SYNC\<close>.\<close>

definition create_table :: "bool \<Rightarrow> 'g core \<Rightarrow> 'g \<Rightarrow> object_schema \<Rightarrow> 'g option" where
  "create_table sync C g os =
     (let name = table_name_for_object_type (os_name os)
      in if sync
         then case primary_key_property os of
                Some p \<Rightarrow> do { t \<leftarrow> to_core_type (p_type p);
                               Some (create_with_key C g name t (p_name p) (is_nullable (p_type p))) }
              | None \<Rightarrow> Some (create_plain C g name)
         else set_primary_key_for_object sync C (get_or_add_table C g name) (os_name os) (primary_key os))"

fun add_columns :: "bool \<Rightarrow> 'g core \<Rightarrow> 'g \<Rightarrow> string \<Rightarrow> property list \<Rightarrow> 'g option" where
  "add_columns sync C g table [] = Some g"
| "add_columns sync C g table (p # ps) =
     (if sync \<and> p_is_primary p then add_columns sync C g table ps
      else do { g1 \<leftarrow> add_column C g table p; add_columns sync C g1 table ps })"

definition add_initial_columns :: "bool \<Rightarrow> 'g core \<Rightarrow> 'g \<Rightarrow> object_schema \<Rightarrow> 'g option" where
  "add_initial_columns sync C g os = add_columns sync C g (table_name_for_object_type (os_name os)) (persisted os)"

text \<open>\<open>TableHelper\<close>: the table of an object schema, which must exist.\<close>

definition with_table :: "'g core \<Rightarrow> 'g \<Rightarrow> object_schema \<Rightarrow> (string \<Rightarrow> 'g option) \<Rightarrow> 'g option" where
  "with_table C g os f =
     (let table = table_name_for_object_type (os_name os) in if table_exists C g table then f table else None)"

section \<open>Metadata and versions\<close>

definition NotVersioned :: "64 word" where
  "NotVersioned = - 1"

definition create_metadata_tables :: "'g core \<Rightarrow> 'g \<Rightarrow> 'g" where
  "create_metadata_tables C g =
     (let g1 = get_or_add_table C (get_or_add_table C g ''pk'') ''metadata'';
          g2 = (if columns_of C g1 ''metadata'' = []
                then set_version_cell C (add_empty_row C (insert_column_core C g1 ''metadata'' 0 T_Int ''version'' False) ''metadata'') NotVersioned
                else g1);
          g3 = (if columns_of C g2 ''pk'' = []
                then insert_column_core C (insert_column_core C g2 ''pk'' 0 T_String ''pk_table'' False) ''pk'' 1 T_String ''pk_property'' False
                else g2)
      in add_search_index C g3 ''pk'' 0)"

definition set_schema_version :: "'g core \<Rightarrow> 'g \<Rightarrow> 64 word \<Rightarrow> 'g" where
  "set_schema_version C g version = set_version_cell C (create_metadata_tables C g) version"

definition get_schema_version :: "'g core \<Rightarrow> 'g \<Rightarrow> 64 word" where
  "get_schema_version C g =
     (if \<not> table_exists C g ''metadata'' \<or> columns_of C g ''metadata'' = [] then NotVersioned else version_cell C g)"

section \<open>Reading the schema\<close>

text \<open>A column whose type is no property type makes the switch of \<open>from_core_type\<close> unreachable: the outer option.\<close>

definition property_for_column :: "bool \<Rightarrow> column \<Rightarrow> size_t \<Rightarrow> property option option" where
  "property_for_column sync c i =
     (if sync \<and> col_name c = ''!OID'' then Some None
      else if (case col_type c of Core_Column t n s \<Rightarrow> t = T_Table) \<and> col_sub_names c \<noteq> [''!ARRAY_VALUE''] then Some None
      else do { t \<leftarrow> from_core_type (col_type c);
                Some (Some (property_init\<lparr>p_name := col_name c, p_type := t, p_is_indexed := col_indexed c, p_table_column := i,
                  p_object_type := (if same_type t PT_Object then object_type_for_table_name (col_link_target c) else [])\<rparr>)) })"

fun properties_of :: "bool \<Rightarrow> column list \<Rightarrow> size_t \<Rightarrow> property list option" where
  "properties_of sync [] i = Some []"
| "properties_of sync (c # cs) i =
     do { p \<leftarrow> property_for_column sync c i; ps \<leftarrow> properties_of sync cs (i + 1);
          Some (case p of None \<Rightarrow> ps | Some q \<Rightarrow> q # ps) }"

definition object_schema_from_group :: "bool \<Rightarrow> 'g core \<Rightarrow> 'g \<Rightarrow> string \<Rightarrow> object_schema option" where
  "object_schema_from_group sync C g object_type =
     do { ps \<leftarrow> properties_of sync (columns_of C g (table_name_for_object_type object_type)) 0;
          Some (set_primary_key_property
            \<lparr>os_name = object_type, persisted = ps, computed = [], primary_key = get_primary_key_for_object C g object_type\<rparr>) }"

definition schema_from_group :: "bool \<Rightarrow> 'g core \<Rightarrow> 'g \<Rightarrow> schema option" where
  "schema_from_group sync C g =
     map_option make_schema (those (map (object_schema_from_group sync C g)
       (filter (\<lambda>t. t \<noteq> []) (map object_type_for_table_name (table_names C g)))))"

definition set_schema_columns :: "'g core \<Rightarrow> 'g \<Rightarrow> schema \<Rightarrow> schema" where
  "set_schema_columns C g schema =
     map (\<lambda>os. let table = table_name_for_object_type (os_name os)
               in if table_exists C g table
                  then os\<lparr>persisted := map (\<lambda>p. p\<lparr>p_table_column := column_index C g table (p_name p)\<rparr>) (persisted os)\<rparr>
                  else os) schema"

end
