(* ===== verification/Schema_Props.thy ===== *)
theory Schema_Props
  imports Schema_Diff Schema_Valid Object_Store
begin

text \<open>The properties of schemas, their validation and their comparison, with the inputs at which they are applied.\<close>

section \<open>Sample schemas\<close>

definition sample_dog :: object_schema where
  "sample_dog = make_object_schema ''Dog'' [make_property ''name'' PT_String False False [],
     (make_link_property ''owner'' (PT_Object OR PT_Nullable) ''Person'' [] [])] []"

definition sample_person :: object_schema where
  "sample_person = make_object_schema ''Person''
     [(make_property ''id'' PT_Int True False [])\<lparr>p_table_column := 0\<rparr>,
      (make_property ''age'' PT_Int False False [])\<lparr>p_table_column := 1\<rparr>,
      (make_property ''born'' PT_Date False False [])\<lparr>p_table_column := 2\<rparr>]
     [make_link_property ''dogs'' (PT_LinkingObjects OR PT_Array) ''Dog'' ''owner'' []]"

definition sample_person_new :: object_schema where
  "sample_person_new = make_object_schema ''Person'' [make_property ''age'' PT_Int False False [], make_property ''email'' PT_String False False []] []"

lemma sample_names [simp]: "os_name sample_dog = ''Dog''" "os_name sample_person = ''Person''" "os_name sample_person_new = ''Person''"
  by (simp_all add: sample_dog_def sample_person_def sample_person_new_def make_object_schema_def)

lemma sample_sorted: "sorted_schema [sample_dog, sample_person]" "sorted_schema [sample_person]" "sorted_schema [sample_dog, sample_person_new]"
  by (simp_all add: sorted_schema_def)

lemma sample_persisted: "persisted sample_person =
    [(make_property ''id'' PT_Int True False [])\<lparr>p_table_column := 0\<rparr>,
     (make_property ''age'' PT_Int False False [])\<lparr>p_table_column := 1\<rparr>,
     (make_property ''born'' PT_Date False False [])\<lparr>p_table_column := 2\<rparr>]"
  by (simp add: sample_person_def make_object_schema_def)

section \<open>Schemas\<close>

text \<open>C18: Validation accepts a schema exactly when it is valid: class names are unique, in every class the property names
  and aliases are unique and do not clash, every property is well typed, links and their origins resolve, and there is at most one
  primary key, which exists.  The order of the checks and of the classes does not matter.\<close>

theorem validate_schema_correct: "validate_schema (make_schema ts) = Inr () \<longleftrightarrow> valid_schema ts"
  by (rule validate_schema_valid)

text \<open>Validation accepts an array of integers as the primary key of a class, and the column made for that key in a
  synchronized file is a plain integer: the comparison of types ignores the array flag.\<close>

theorem array_primary_key_accepted:
  "validate_schema [make_object_schema ''A'' [make_property ''k'' (PT_Int OR PT_Array) True False []] []] = Inr () \<and>
   is_array (PT_Int OR PT_Array) \<and> to_core_type (PT_Int OR PT_Array) = Some T_Int"
proof -
  have "valid_schema [make_object_schema ''A'' [make_property ''k'' (PT_Int OR PT_Array) True False []] []]"
    by (simp add: valid_schema_def valid_object_def make_object_schema_def make_property_def property_init_def public_names_def
        valid_property_def valid_link_def same_type_def base_type_def PT_Flags_def is_array_def is_nullable_def type_is_nullable_def)
  then show ?thesis using validate_schema_valid [of "[make_object_schema ''A'' [make_property ''k'' (PT_Int OR PT_Array) True False []] []]"]
    by (simp add: make_schema_def is_array_def to_core_type_def base_type_def PT_Flags_def)
qed

section \<open>Comparison\<close>

text \<open>C16: Comparing two schemas lists first the tables to add (or, on request, to drop), then every change of the columns of
  the classes of the target, each exactly once, with the removals of columns by descending column.\<close>

theorem schema_compare_correct:
  assumes "sorted_schema existing" "sorted_schema target"
  shows "\<exists>tables rest. schema_compare existing target include_removals = tables @ rest \<and>
    mset tables = mset (expected_table_changes include_removals existing target) \<and>
    mset rest = mset (expected_column_changes existing target) \<and>
    sorted_wrt (\<ge>) (map removed_column (filter (\<lambda>c. \<not> is_not_remove_property c) rest))"
  by (rule schema_compare_split [OF assms])

theorem schema_compare_correct_witness:
  "\<exists>tables rest. schema_compare [sample_person] [sample_dog, sample_person_new] True = tables @ rest \<and>
    mset tables = {#AddTable sample_dog#} \<and>
    sorted_wrt (\<ge>) (map removed_column (filter (\<lambda>c. \<not> is_not_remove_property c) rest))"
  using schema_compare_correct [OF sample_sorted(2,3), of True] by (auto simp: expected_table_changes_def)

text \<open>Carrying out the removals of a comparison one by one, each shifting the later columns, removes exactly the columns
  of the properties that the target no longer stores.\<close>

theorem removals_correct:
  assumes "sorted_schema existing" "sorted_schema target" "e \<in> set existing" "t \<in> set target" "os_name e = os_name t"
    "distinct (map p_table_column (persisted e))" "\<forall>p\<in>set (persisted e). p_table_column p < length cols"
  shows "foldl (\<lambda>cols i. drop_column i cols) cols (removed_columns e (schema_compare existing target include_removals)) =
    keep (p_table_column ` {p \<in> set (persisted e). dropped t p}) cols"
  by (rule removals_leave_rest [OF assms])

theorem removals_correct_witness:
  "foldl (\<lambda>cols i. drop_column i cols) [CHR ''i'', CHR ''a'', CHR ''b'']
     (removed_columns sample_person (schema_compare [sample_person] [sample_dog, sample_person_new] False)) = [CHR ''a'']"
proof -
  have "{p \<in> set (persisted sample_person). dropped sample_person_new p} =
      {(make_property ''id'' PT_Int True False [])\<lparr>p_table_column := 0\<rparr>, (make_property ''born'' PT_Date False False [])\<lparr>p_table_column := 2\<rparr>}"
    by (auto simp: sample_persisted dropped_def kept_as_def property_for_name_def property_is_computed_def
        sample_person_new_def make_object_schema_def make_property_def property_init_def)
  then show ?thesis
    using removals_correct [OF sample_sorted(2,3), of sample_person sample_person_new "[CHR ''i'', CHR ''a'', CHR ''b'']" False]
    by (simp add: sample_persisted make_property_def property_init_def keep_def nths_Cons)
qed

text \<open>C17: The verdicts on a comparison agree with what the schemas say.  Nothing is to be done, and
  \<open>verify_no_changes_required\<close> passes, exactly when every class of the target is in the file with the same columns, key and
  indexes; a migration is needed, and \<open>verify_no_migration_required\<close> fails, exactly when some class that both have differs in
  more than its indexes.\<close>

theorem verdicts_correct:
  assumes "sorted_schema existing" "sorted_schema target"
  shows "(schema_compare existing target False = [] \<longleftrightarrow> conforms existing target) \<and>
    (verify_no_changes_required (schema_compare existing target r) = Inr () \<longleftrightarrow> conforms existing target) \<and>
    (needs_migration (schema_compare existing target r) \<longleftrightarrow> \<not> conforms_shared existing target) \<and>
    (verify_no_migration_required (schema_compare existing target r) = Inr () \<longleftrightarrow> conforms_shared existing target)"
proof -
  have "verify_no_migration_required cs = Inr () \<longleftrightarrow> \<not> needs_migration cs" for cs
    unfolding verify_no_migration_required_def verify_no_errors_ok no_migration_verifier_ok needs_migration_def list_ex_iff by blast
  then show ?thesis
    using conforms_compare [OF assms] verify_no_changes_compare [OF assms] needs_migration_compare [OF assms] by simp
qed

theorem verdicts_correct_witness:
  "needs_migration (schema_compare [sample_person] [sample_dog, sample_person_new] False) \<and>
   schema_compare [sample_person] [sample_dog, sample_person_new] False \<noteq> []"
proof -
  have "\<not> conforms_shared [sample_person] [sample_dog, sample_person_new]"
    by (simp add: conforms_shared_def columns_agree_def) (simp add: sample_person_def sample_person_new_def make_object_schema_def
        make_property_def property_init_def)
  then show ?thesis using verdicts_correct [OF sample_sorted(2,3), of False] by (auto simp: needs_migration_def)
qed

text \<open>C36: \<open>needs_migration\<close> answers true for a list of changes exactly when \<open>verify_no_migration_required\<close>
  throws, and then the exception lists the changes that need it.\<close>

theorem needs_migration_iff_throws:
  "needs_migration cs \<longleftrightarrow> verify_no_migration_required cs =
     Inl (Schema_Mismatch (concat (map explain (filter change_needs_migration cs))))"
proof -
  have "no_migration_verifier c = (if change_needs_migration c then explain c else [])" for c
  proof (cases c)
    case (ChangePrimaryKey os p)
    then show ?thesis by (cases p) simp_all
  qed simp_all
  then have v: "concat (map no_migration_verifier cs) = concat (map explain (filter change_needs_migration cs))" by (induction cs) simp_all
  have "concat (map no_migration_verifier cs) = [] \<longleftrightarrow> \<not> needs_migration cs"
    by (auto simp: needs_migration_def list_ex_iff no_migration_verifier_ok)
  then show ?thesis unfolding verify_no_migration_required_def verify_no_errors_def Let_def v by simp
qed

end
