(* ===== verification/Schema_Apply.thy ===== *)
theory Schema_Apply
  imports Object_Store
begin

text \<open>
  How \<open>object_store.cpp\<close> applies a list of changes to a file in each mode, and its remaining operations: deleting a
  type, the emptiness test and the renaming of a property.
\<close>

section \<open>Appliers\<close>

text \<open>One function per applier: what it does for each kind of change.\<close>

fun apply_initial :: "bool \<Rightarrow> 'g core \<Rightarrow> schema_change \<Rightarrow> 'g \<Rightarrow> 'g option" where
  "apply_initial sync C (AddTable os) g = create_table sync C g os"
| "apply_initial sync C (RemoveTable os) g = Some g"
| "apply_initial sync C (AddInitialProperties os) g = add_initial_columns sync C g os"
| "apply_initial sync C (AddProperty os p) g = with_table C g os (\<lambda>t. add_column C g t p)"
| "apply_initial sync C (RemoveProperty os p) g = with_table C g os (\<lambda>t. Some (remove_column C g t (p_table_column p)))"
| "apply_initial sync C (MakePropertyNullable os p) g = with_table C g os (\<lambda>t. make_property_optional C g t p)"
| "apply_initial sync C (MakePropertyRequired os p) g = with_table C g os (\<lambda>t. make_property_required C g t p)"
| "apply_initial sync C (ChangePrimaryKey os p) g =
     set_primary_key_for_object sync C g (os_name os) (case p of Some q \<Rightarrow> p_name q | None \<Rightarrow> [])"
| "apply_initial sync C (AddIndex os p) g = with_table C g os (\<lambda>t. Some (add_search_index C g t (p_table_column p)))"
| "apply_initial sync C (RemoveIndex os p) g = with_table C g os (\<lambda>t. Some (remove_search_index C g t (p_table_column p)))"
| "apply_initial sync C (ChangePropertyType os p q) g = with_table C g os (\<lambda>t. replace_column C g t p q)"

text \<open>Before a migration the same is done, but no column is removed yet.\<close>

fun apply_pre :: "bool \<Rightarrow> 'g core \<Rightarrow> schema_change \<Rightarrow> 'g \<Rightarrow> 'g option" where
  "apply_pre sync C (AddTable os) g = create_table sync C g os"
| "apply_pre sync C (RemoveTable os) g = Some g"
| "apply_pre sync C (AddInitialProperties os) g = add_initial_columns sync C g os"
| "apply_pre sync C (AddProperty os p) g = with_table C g os (\<lambda>t. add_column C g t p)"
| "apply_pre sync C (RemoveProperty os p) g = Some g"
| "apply_pre sync C (ChangePropertyType os p q) g = with_table C g os (\<lambda>t. replace_column C g t p q)"
| "apply_pre sync C (MakePropertyNullable os p) g = with_table C g os (\<lambda>t. make_property_optional C g t p)"
| "apply_pre sync C (MakePropertyRequired os p) g = with_table C g os (\<lambda>t. make_property_required C g t p)"
| "apply_pre sync C (ChangePrimaryKey os p) g =
     set_primary_key_for_object sync C g (os_name os) (case p of Some q \<Rightarrow> p_name q | None \<Rightarrow> [])"
| "apply_pre sync C (AddIndex os p) g = with_table C g os (\<lambda>t. Some (add_search_index C g t (p_table_column p)))"
| "apply_pre sync C (RemoveIndex os p) g = with_table C g os (\<lambda>t. Some (remove_search_index C g t (p_table_column p)))"

fun apply_additive :: "bool \<Rightarrow> 'g core \<Rightarrow> bool \<Rightarrow> schema_change \<Rightarrow> 'g \<Rightarrow> 'g option" where
  "apply_additive sync C update_indexes (AddTable os) g = create_table sync C g os"
| "apply_additive sync C update_indexes (AddInitialProperties os) g = add_initial_columns sync C g os"
| "apply_additive sync C update_indexes (AddProperty os p) g = with_table C g os (\<lambda>t. add_column C g t p)"
| "apply_additive sync C update_indexes (AddIndex os p) g =
     (if update_indexes then with_table C g os (\<lambda>t. Some (add_search_index C g t (p_table_column p))) else Some g)"
| "apply_additive sync C update_indexes (RemoveIndex os p) g =
     (if update_indexes then with_table C g os (\<lambda>t. Some (remove_search_index C g t (p_table_column p))) else Some g)"
| "apply_additive sync C update_indexes (RemoveTable os) g = Some g"
| "apply_additive sync C update_indexes (RemoveProperty os p) g = Some g"
| "apply_additive sync C update_indexes (ChangePrimaryKey os p) g = Some g"
| "apply_additive sync C update_indexes (ChangePropertyType os p q) g = Some g"
| "apply_additive sync C update_indexes (MakePropertyNullable os p) g = Some g"
| "apply_additive sync C update_indexes (MakePropertyRequired os p) g = Some g"

fun apply_non_migration :: "bool \<Rightarrow> 'g core \<Rightarrow> schema_change \<Rightarrow> 'g \<Rightarrow> 'g option" where
  "apply_non_migration sync C (AddTable os) g = create_table sync C g os"
| "apply_non_migration sync C (AddInitialProperties os) g = add_initial_columns sync C g os"
| "apply_non_migration sync C (AddIndex os p) g = with_table C g os (\<lambda>t. Some (add_search_index C g t (p_table_column p)))"
| "apply_non_migration sync C (RemoveIndex os p) g = with_table C g os (\<lambda>t. Some (remove_search_index C g t (p_table_column p)))"
| "apply_non_migration sync C c g = Some g"

fun apply_each :: "(schema_change \<Rightarrow> 'g \<Rightarrow> 'g option) \<Rightarrow> schema_change list \<Rightarrow> 'g \<Rightarrow> 'g option" where
  "apply_each f [] g = Some g"
| "apply_each f (c # cs) g = Option.bind (f c g) (apply_each f cs)"

definition asserted :: "'g option \<Rightarrow> schema_exception + 'g" where
  "asserted r = (case r of None \<Rightarrow> Inl Assertion_Failed | Some g \<Rightarrow> Inr g)"

text \<open>\<open>apply_non_migration_changes\<close>: the supported changes are applied, the others reported when all have been visited.\<close>

definition apply_non_migration_changes :: "bool \<Rightarrow> 'g core \<Rightarrow> 'g \<Rightarrow> schema_change list \<Rightarrow> schema_exception + 'g" where
  "apply_non_migration_changes sync C g changes =
     (case apply_each (apply_non_migration sync C) changes g of
        None \<Rightarrow> Inl Assertion_Failed
      | Some g' \<Rightarrow> (case verify_no_errors Schema_Mismatch no_migration_verifier changes of Inl e \<Rightarrow> Inl e | Inr _ \<Rightarrow> Inr g'))"

text \<open>After a migration.  The removed properties of a renaming must have been in the schema before the migration.\<close>

fun apply_post :: "bool \<Rightarrow> 'g core \<Rightarrow> schema \<Rightarrow> bool \<Rightarrow> schema_change \<Rightarrow> 'g \<Rightarrow> schema_exception + 'g" where
  "apply_post sync C initial reread (RemoveProperty os p) g =
     (if initial = [] then Inr (remove_column C g (table_name_for_object_type (os_name os)) (p_table_column p))
      else case schema_find initial (os_name os) of
             None \<Rightarrow> Inl Assertion_Failed
           | Some os0 \<Rightarrow>
               if property_for_name os0 (p_name p) = None then Inl (Renamed_Does_Not_Exist (os_name os) (p_name p))
               else Inr (remove_column C g (table_name_for_object_type (os_name os)) (p_table_column p)))"
| "apply_post sync C initial reread (ChangePrimaryKey os p) g =
     (case p of Some q \<Rightarrow> (case validate_unique C g (os_name os) (p_name q) of Inl e \<Rightarrow> Inl e | Inr _ \<Rightarrow> Inr g) | None \<Rightarrow> Inr g)"
| "apply_post sync C initial reread (AddTable os) g = asserted (create_table sync C g os)"
| "apply_post sync C initial reread (AddInitialProperties os) g =
     (if reread then asserted (add_initial_columns sync C g os) else Inr g)"
| "apply_post sync C initial reread (AddIndex os p) g =
     asserted (with_table C g os (\<lambda>t. Some (add_search_index C g t (p_table_column p))))"
| "apply_post sync C initial reread (RemoveIndex os p) g =
     asserted (with_table C g os (\<lambda>t. Some (remove_search_index C g t (p_table_column p))))"
| "apply_post sync C initial reread c g = Inr g"

fun apply_post_changes :: "bool \<Rightarrow> 'g core \<Rightarrow> schema \<Rightarrow> bool \<Rightarrow> schema_change list \<Rightarrow> 'g \<Rightarrow> schema_exception + 'g" where
  "apply_post_changes sync C initial reread [] g = Inr g"
| "apply_post_changes sync C initial reread (c # cs) g =
     (case apply_post sync C initial reread c g of
        Inl e \<Rightarrow> Inl e | Inr g' \<Rightarrow> apply_post_changes sync C initial reread cs g')"

section \<open>Applying the changes\<close>

datatype schema_mode = Automatic | Immutable | ReadOnlyAlternative | ResetFile | Additive | Manual

definition target_newer :: "64 word \<Rightarrow> 64 word \<Rightarrow> bool" where
  "target_newer version target \<longleftrightarrow> version < target \<or> version = NotVersioned"

text \<open>\<open>*find_first_string\<close> of a string that is not found is the row \<open>npos\<close>.\<close>

definition row_or_npos :: "nat option \<Rightarrow> size_t" where
  "row_or_npos r = (case r of Some i \<Rightarrow> i | None \<Rightarrow> npos)"

definition ensure_private_role_exists_for_user :: "'g core \<Rightarrow> 'g \<Rightarrow> string \<Rightarrow> 'g" where
  "ensure_private_role_exists_for_user C g user =
     (let role = ''__User:'' @ user; roles = table_name_for_object_type ''__Role''; users = table_name_for_object_type ''__User''
      in if find_first_string C g roles (column_index C g roles ''name'') role \<noteq> None then g
         else let g1 = add_user_to_role C g user role;
                  role_ndx = row_or_npos (find_first_string C g1 roles (column_index C g1 roles ''name'') role);
                  user_ndx = row_or_npos (find_first_string C g1 users (column_index C g1 users ''id'') user)
              in set_link C g1 users (column_index C g1 users ''role'') user_ndx role_ndx)"

fun grant_everyone :: "'g core \<Rightarrow> schema_change \<Rightarrow> 'g \<Rightarrow> 'g" where
  "grant_everyone C (AddTable os) g = set_class_permissions C g (os_name os) ''everyone''"
| "grant_everyone C c g = g"

definition create_default_permissions :: "bool \<Rightarrow> 'g core \<Rightarrow> 'g \<Rightarrow> schema_change list \<Rightarrow> string \<Rightarrow> 'g" where
  "create_default_permissions sync C g changes user =
     (if sync
      then let g1 = set_up_basic_permissions C (initialize_subscriptions C g);
               g2 = ensure_private_role_exists_for_user C (add_user_to_role C g1 user ''everyone'') user
           in foldl (\<lambda>g c. grant_everyone C c g) g2 changes
      else g)"

type_synonym 'g migration = "('g \<times> schema \<Rightarrow> schema_exception + 'g \<times> schema) option"

definition run_migration :: "'g migration \<Rightarrow> 'g \<times> schema \<Rightarrow> schema_exception + 'g \<times> schema" where
  "run_migration m s = (case m of None \<Rightarrow> Inr s | Some f \<Rightarrow> f s)"

definition set_schema_version_cell :: "'g core \<Rightarrow> 'g \<Rightarrow> 64 word \<Rightarrow> 'g" where
  "set_schema_version_cell C g version = set_version_cell C g version"

definition apply_additive_mode :: "bool \<Rightarrow> 'g core \<Rightarrow> 'g \<Rightarrow> 64 word \<Rightarrow> schema \<Rightarrow> 64 word \<Rightarrow> schema_change list \<Rightarrow> string option \<Rightarrow>
    schema_exception + 'g \<times> schema" where
  "apply_additive_mode sync C g version target target_version changes user =
     (case apply_each (apply_additive sync C True) changes g of
        None \<Rightarrow> Inl Assertion_Failed
      | Some g1 \<Rightarrow>
          let g2 = (if target_newer version target_version then set_schema_version_cell C g1 target_version else g1);
              g3 = (case user of None \<Rightarrow> g2 | Some u \<Rightarrow> create_default_permissions sync C g2 changes u)
          in Inr (g3, set_schema_columns C g3 target))"

definition apply_initial_mode :: "bool \<Rightarrow> 'g core \<Rightarrow> 'g \<Rightarrow> schema \<Rightarrow> 64 word \<Rightarrow> schema_change list \<Rightarrow> schema_exception + 'g \<times> schema" where
  "apply_initial_mode sync C g target target_version changes =
     (case apply_each (apply_initial sync C) changes g of
        None \<Rightarrow> Inl Assertion_Failed
      | Some g1 \<Rightarrow> let g2 = set_schema_version_cell C g1 target_version in Inr (g2, set_schema_columns C g2 target))"

definition apply_manual_mode :: "bool \<Rightarrow> 'g core \<Rightarrow> 'g \<Rightarrow> schema \<Rightarrow> 64 word \<Rightarrow> 'g migration \<Rightarrow> schema_exception + 'g \<times> schema" where
  "apply_manual_mode sync C g target target_version migration =
     (case run_migration migration (g, set_schema_columns C g target) of
        Inl e \<Rightarrow> Inl e
      | Inr (g1, target1) \<Rightarrow>
          (case schema_from_group sync C g1 of
             None \<Rightarrow> Inl Assertion_Failed
           | Some now \<Rightarrow>
               (case verify_no_changes_required (schema_compare now target1 False) of
                  Inl e \<Rightarrow> Inl e
                | Inr _ \<Rightarrow>
                    (case validate_unique_rows C g1 (pk_rows C g1) of
                       Inl e \<Rightarrow> Inl e
                     | Inr _ \<Rightarrow> let g2 = set_schema_version_cell C g1 target_version in Inr (g2, set_schema_columns C g1 target1)))))"

definition apply_migration_mode :: "bool \<Rightarrow> 'g core \<Rightarrow> 'g \<Rightarrow> schema \<Rightarrow> 64 word \<Rightarrow> schema_change list \<Rightarrow> 'g migration \<Rightarrow>
    schema_exception + 'g \<times> schema" where
  "apply_migration_mode sync C g target target_version changes migration =
     (case schema_from_group sync C g of
        None \<Rightarrow> Inl Assertion_Failed
      | Some old_schema \<Rightarrow>
          (case apply_each (apply_pre sync C) changes g of
             None \<Rightarrow> Inl Assertion_Failed
           | Some g1 \<Rightarrow>
               (case (case migration of
                        None \<Rightarrow> map_sum id (\<lambda>g2. (g2, target)) (apply_post_changes sync C [] False changes g1)
                      | Some f \<Rightarrow>
                          (case f (g1, set_schema_columns C g1 target) of
                             Inl e \<Rightarrow> Inl e
                           | Inr (g2, target2) \<Rightarrow>
                               (case schema_from_group sync C g2 of
                                  None \<Rightarrow> Inl Assertion_Failed
                                | Some now \<Rightarrow>
                                    (case apply_post_changes sync C old_schema True (schema_compare now target2 False) g2 of
                                       Inl e \<Rightarrow> Inl e
                                     | Inr g3 \<Rightarrow>
                                         (case validate_unique_rows C g3 (pk_rows C g3) of
                                            Inl e \<Rightarrow> Inl e | Inr _ \<Rightarrow> Inr (g3, target2)))))) of
                  Inl e \<Rightarrow> Inl e
                | Inr (g4, target4) \<Rightarrow>
                    let g5 = set_schema_version_cell C g4 target_version in Inr (g5, set_schema_columns C g5 target4))))"

definition apply_schema_changes :: "bool \<Rightarrow> 'g core \<Rightarrow> 'g \<Rightarrow> 64 word \<Rightarrow> schema \<Rightarrow> 64 word \<Rightarrow> schema_mode \<Rightarrow> schema_change list \<Rightarrow>
    string option \<Rightarrow> 'g migration \<Rightarrow> schema_exception + 'g \<times> schema" where
  "apply_schema_changes sync C g0 version target target_version mode changes user migration =
     (let g = create_metadata_tables C g0
      in if mode = Additive then apply_additive_mode sync C g version target target_version changes user
         else if version = NotVersioned then apply_initial_mode sync C g target target_version changes
         else if mode = Manual then apply_manual_mode sync C g target target_version migration
         else if version = target_version
         then (case apply_non_migration_changes sync C g changes of
                 Inl e \<Rightarrow> Inl e | Inr g1 \<Rightarrow> Inr (g1, set_schema_columns C g1 target))
         else apply_migration_mode sync C g target target_version changes migration)"

section \<open>Other operations\<close>

definition delete_data_for_object :: "bool \<Rightarrow> 'g core \<Rightarrow> 'g \<Rightarrow> string \<Rightarrow> 'g option" where
  "delete_data_for_object sync C g object_type =
     (let table = table_name_for_object_type object_type
      in if table_exists C g table then set_primary_key_for_object sync C (remove_table C g table) object_type [] else Some g)"

definition group_is_empty :: "'g core \<Rightarrow> 'g \<Rightarrow> bool" where
  "group_is_empty C g \<longleftrightarrow>
     list_all (\<lambda>t. let object_type = object_type_for_table_name t
                   in object_type = [] \<or> take 2 object_type = ''__'' \<or> table_size C g t = 0) (table_names C g)"

definition shift_columns :: "size_t \<Rightarrow> size_t \<Rightarrow> property list \<Rightarrow> property list" where
  "shift_columns removed old ps =
     map (\<lambda>p. if p_table_column p = removed then p\<lparr>p_table_column := old\<rparr>
              else if removed < p_table_column p then p\<lparr>p_table_column := p_table_column p - 1\<rparr> else p) ps"

definition rename_property :: "bool \<Rightarrow> 'g core \<Rightarrow> 'g \<Rightarrow> schema \<Rightarrow> string \<Rightarrow> string \<Rightarrow> string \<Rightarrow> schema_exception + 'g \<times> schema" where
  "rename_property sync C g target object_type old_name new_name =
     (let table = table_name_for_object_type object_type
      in if \<not> table_exists C g table then Inl (Rename_Error ''type does not exist'')
         else case schema_find target object_type of
                None \<Rightarrow> Inl (Rename_Error ''type has been removed'')
              | Some tos \<Rightarrow>
                  if property_for_name tos old_name \<noteq> None then Inl (Rename_Error ''source property still exists'')
                  else (case object_schema_from_group sync C g object_type of
                     None \<Rightarrow> Inl Assertion_Failed
                   | Some os \<Rightarrow>
                       (case (property_for_name os old_name, property_for_name os new_name) of
                          (None, _) \<Rightarrow> Inl (Rename_Error ''property does not exist'')
                        | (Some old, None) \<Rightarrow> Inr (rename_column C g table (p_table_column old) new_name, target)
                        | (Some old, Some new) \<Rightarrow>
                            if \<not> same_type (p_type old) (p_type new) \<or> p_object_type old \<noteq> p_object_type new
                            then Inl (Rename_Error ''type would change'')
                            else if is_nullable (p_type old) \<and> \<not> is_nullable (p_type new)
                            then Inl (Rename_Error ''optional would become required'')
                            else let removed = p_table_column new;
                                     g1 = remove_column C (rename_column C g table (p_table_column old) new_name) table removed;
                                     target1 = target[length (takeWhile (\<lambda>o1. o1 \<noteq> tos) target) :=
                                       tos\<lparr>persisted := shift_columns removed (p_table_column old) (persisted tos)\<rparr>]
                                 in if is_nullable (p_type new) \<and> \<not> is_nullable (p_type old)
                                    then map_sum id (\<lambda>g2. (g2, target1))
                                           (asserted (make_property_optional C g1 table (new\<lparr>p_table_column := p_table_column old\<rparr>)))
                                    else Inr (g1, target1))))"

end
