(* ===== verification/Core_Laws.thy ===== *)
theory Core_Laws
  imports Schema_Apply Schema_Diff Schema_Valid
begin

text \<open>
  What the code relies on of the database core, stated on what the code can see of a file: the names of its tables, their
  columns, the rows of the table of primary keys and the schema version.  \<open>core_ok\<close> says that every call acts on this view
  as documented.  The views themselves are such a core.
\<close>

section \<open>Views of a file\<close>

record file_view =
  v_tables :: "string list"
  v_columns :: "string \<Rightarrow> column list"
  v_keys :: "(string \<times> string) list"
  v_version :: "64 word"

definition view :: "'g core \<Rightarrow> 'g \<Rightarrow> file_view" where
  "view C g = \<lparr>v_tables = table_names C g, v_columns = columns_of C g, v_keys = pk_rows C g, v_version = version_cell C g\<rparr>"

lemma view_sel [simp]:
  "v_tables (view C g) = table_names C g" "v_columns (view C g) = columns_of C g" "v_keys (view C g) = pk_rows C g"
  "v_version (view C g) = version_cell C g"
  by (simp_all add: view_def)

definition plain_column :: "string \<Rightarrow> core_type \<Rightarrow> bool \<Rightarrow> column" where
  "plain_column name t nullable =
     \<lparr>col_name = name, col_type = Core_Column t nullable None, col_indexed = False, col_link_target = [], col_sub_names = []\<rparr>"

definition link_column :: "string \<Rightarrow> core_type \<Rightarrow> string \<Rightarrow> column" where
  "link_column name t target =
     \<lparr>col_name = name, col_type = Core_Column t False None, col_indexed = False, col_link_target = target, col_sub_names = []\<rparr>"

definition table_column :: "string \<Rightarrow> core_type \<Rightarrow> string \<Rightarrow> bool \<Rightarrow> column" where
  "table_column name t sub nullable =
     \<lparr>col_name = name, col_type = Core_Column T_Table False (Some (Core_Column t nullable None)), col_indexed = False,
      col_link_target = [], col_sub_names = [sub]\<rparr>"

definition insert_nth :: "nat \<Rightarrow> 'a \<Rightarrow> 'a list \<Rightarrow> 'a list" where
  "insert_nth i x xs = take i xs @ x # drop i xs"

definition upd_columns :: "string \<Rightarrow> (column list \<Rightarrow> column list) \<Rightarrow> file_view \<Rightarrow> file_view" where
  "upd_columns t f v = v\<lparr>v_columns := (v_columns v)(t := f (v_columns v t))\<rparr>"

definition upd_column :: "string \<Rightarrow> nat \<Rightarrow> (column \<Rightarrow> column) \<Rightarrow> file_view \<Rightarrow> file_view" where
  "upd_column t i f = upd_columns t (\<lambda>cs. cs[i := f (cs ! i)])"

definition with_new_table :: "string \<Rightarrow> file_view \<Rightarrow> file_view" where
  "with_new_table t v =
     (if t \<in> set (v_tables v) then v else v\<lparr>v_tables := v_tables v @ [t], v_columns := (v_columns v)(t := [])\<rparr>)"

section \<open>Laws\<close>

definition columns_ok :: "'g core \<Rightarrow> bool" where
  "columns_ok C \<longleftrightarrow>
     (\<forall>g t i. t \<in> set (table_names C g) \<longrightarrow>
        (i \<le> length (columns_of C g t) \<longrightarrow>
           (\<forall>ct name n. view C (insert_column_core C g t i ct name n) = upd_columns t (insert_nth i (plain_column name ct n)) (view C g)) \<and>
           (\<forall>ct name target. view C (insert_column_link C g t i ct name target) = upd_columns t (insert_nth i (link_column name ct target)) (view C g)) \<and>
           (\<forall>name ct sub n. view C (insert_column_table C g t i name ct sub n) = upd_columns t (insert_nth i (table_column name ct sub n)) (view C g))) \<and>
        (i < length (columns_of C g t) \<longrightarrow>
           view C (remove_column C g t i) = upd_columns t (drop_column i) (view C g) \<and>
           (\<forall>name. view C (rename_column C g t i name) = upd_column t i (col_name_update (\<lambda>_. name)) (view C g)) \<and>
           view C (add_search_index C g t i) = upd_column t i (col_indexed_update (\<lambda>_. True)) (view C g) \<and>
           view C (remove_search_index C g t i) = upd_column t i (col_indexed_update (\<lambda>_. False)) (view C g)) \<and>
        (\<forall>ct j k. view C (copy_value C g t ct i j k) = view C g))"

definition tables_ok :: "'g core \<Rightarrow> bool" where
  "tables_ok C \<longleftrightarrow>
     (\<forall>g t. view C (get_or_add_table C g t) = with_new_table t (view C g)) \<and>
     (\<forall>g t. t \<in> set (table_names C g) \<longrightarrow> view C (add_empty_row C g t) = view C g)"

definition keys_ok :: "'g core \<Rightarrow> bool" where
  "keys_ok C \<longleftrightarrow>
     (\<forall>g os key. view C (pk_add C g os key) = (view C g)\<lparr>v_keys := pk_rows C g @ [(os, key)]\<rparr>) \<and>
     (\<forall>g i key. i < length (pk_rows C g) \<longrightarrow>
        view C (pk_set C g i key) = (view C g)\<lparr>v_keys := (pk_rows C g)[i := (fst (pk_rows C g ! i), key)]\<rparr> \<and>
        view C (pk_move_last_over C g i) = (view C g)\<lparr>v_keys := butlast ((pk_rows C g)[i := last (pk_rows C g)])\<rparr>) \<and>
     (\<forall>g v. view C (set_version_cell C g v) = (view C g)\<lparr>v_version := v\<rparr>)"

definition core_ok :: "'g core \<Rightarrow> bool" where
  "core_ok C \<longleftrightarrow> columns_ok C \<and> tables_ok C \<and> keys_ok C"

lemma columns_okD:
  assumes "core_ok C" "t \<in> set (table_names C g)" "i \<le> length (columns_of C g t)"
  shows "view C (insert_column_core C g t i ct name n) = upd_columns t (insert_nth i (plain_column name ct n)) (view C g)"
    "view C (insert_column_link C g t i ct name target) = upd_columns t (insert_nth i (link_column name ct target)) (view C g)"
    "view C (insert_column_table C g t i name ct sub n) = upd_columns t (insert_nth i (table_column name ct sub n)) (view C g)"
  using assms unfolding core_ok_def columns_ok_def by blast+

lemma copy_okD: "core_ok C \<Longrightarrow> t \<in> set (table_names C g) \<Longrightarrow> view C (copy_value C g t ct i j k) = view C g"
  unfolding core_ok_def columns_ok_def by blast

lemma column_okD:
  assumes "core_ok C" "t \<in> set (table_names C g)" "i < length (columns_of C g t)"
  shows "view C (remove_column C g t i) = upd_columns t (drop_column i) (view C g)"
    "view C (rename_column C g t i name) = upd_column t i (col_name_update (\<lambda>_. name)) (view C g)"
    "view C (add_search_index C g t i) = upd_column t i (col_indexed_update (\<lambda>_. True)) (view C g)"
    "view C (remove_search_index C g t i) = upd_column t i (col_indexed_update (\<lambda>_. False)) (view C g)"
  using assms unfolding core_ok_def columns_ok_def by blast+

lemma tables_okD:
  assumes "core_ok C"
  shows "view C (get_or_add_table C g t) = with_new_table t (view C g)"
    "t \<in> set (table_names C g) \<Longrightarrow> view C (add_empty_row C g t) = view C g"
  using assms unfolding core_ok_def tables_ok_def by blast+

lemma keys_okD:
  assumes "core_ok C"
  shows "view C (pk_add C g os key) = (view C g)\<lparr>v_keys := pk_rows C g @ [(os, key)]\<rparr>"
    "i < length (pk_rows C g) \<Longrightarrow> view C (pk_set C g i key) = (view C g)\<lparr>v_keys := (pk_rows C g)[i := (fst (pk_rows C g ! i), key)]\<rparr>"
    "i < length (pk_rows C g) \<Longrightarrow> view C (pk_move_last_over C g i) = (view C g)\<lparr>v_keys := butlast ((pk_rows C g)[i := last (pk_rows C g)])\<rparr>"
    "view C (set_version_cell C g v) = (view C g)\<lparr>v_version := v\<rparr>"
  using assms unfolding core_ok_def keys_ok_def by blast+

lemma view_columns: "view C g' = upd_columns t f (view C g) \<Longrightarrow>
    columns_of C g' = (columns_of C g)(t := f (columns_of C g t)) \<and> table_names C g' = table_names C g \<and>
    pk_rows C g' = pk_rows C g \<and> version_cell C g' = version_cell C g"
  by (simp add: view_def upd_columns_def)

lemma view_with_new_table: "view C g' = with_new_table t (view C g) \<Longrightarrow>
    table_names C g' = (if t \<in> set (table_names C g) then table_names C g else table_names C g @ [t]) \<and>
    columns_of C g' = (if t \<in> set (table_names C g) then columns_of C g else (columns_of C g)(t := [])) \<and>
    pk_rows C g' = pk_rows C g \<and> version_cell C g' = version_cell C g"
  by (simp add: view_def with_new_table_def split: if_splits)

lemma view_keys: "view C g' = (view C g)\<lparr>v_keys := ks\<rparr> \<Longrightarrow>
    columns_of C g' = columns_of C g \<and> table_names C g' = table_names C g \<and> pk_rows C g' = ks \<and> version_cell C g' = version_cell C g"
  by (simp add: view_def)

lemma view_version: "view C g' = (view C g)\<lparr>v_version := v\<rparr> \<Longrightarrow>
    columns_of C g' = columns_of C g \<and> table_names C g' = table_names C g \<and> pk_rows C g' = pk_rows C g \<and> version_cell C g' = v"
  by (simp add: view_def)

section \<open>A core\<close>

definition view_core :: "file_view core" where
  "view_core =
     \<lparr>table_names = v_tables, get_or_add_table = (\<lambda>v t. with_new_table t v),
      remove_table = (\<lambda>v t. v\<lparr>v_tables := remove1 t (v_tables v)\<rparr>),
      create_plain = (\<lambda>v t. with_new_table t v),
      create_with_key = (\<lambda>v t ct name n. upd_columns t (\<lambda>cs. cs @ [plain_column name ct n]) (with_new_table t v)),
      columns_of = v_columns,
      insert_column_core = (\<lambda>v t i ct name n. upd_columns t (insert_nth i (plain_column name ct n)) v),
      insert_column_link = (\<lambda>v t i ct name target. upd_columns t (insert_nth i (link_column name ct target)) v),
      insert_column_table = (\<lambda>v t i name ct sub n. upd_columns t (insert_nth i (table_column name ct sub n)) v),
      remove_column = (\<lambda>v t i. upd_columns t (drop_column i) v),
      rename_column = (\<lambda>v t i name. upd_column t i (col_name_update (\<lambda>_. name)) v),
      add_search_index = (\<lambda>v t i. upd_column t i (col_indexed_update (\<lambda>_. True)) v),
      remove_search_index = (\<lambda>v t i. upd_column t i (col_indexed_update (\<lambda>_. False)) v),
      table_size = (\<lambda>v t. 0), add_empty_row = (\<lambda>v t. v), copy_value = (\<lambda>v t ct i j k. v),
      distinct_count = (\<lambda>v t i. 0), has_object_ids = (\<lambda>v. False), pk_rows = v_keys,
      pk_add = (\<lambda>v os key. v\<lparr>v_keys := v_keys v @ [(os, key)]\<rparr>),
      pk_set = (\<lambda>v i key. v\<lparr>v_keys := (v_keys v)[i := (fst (v_keys v ! i), key)]\<rparr>),
      pk_move_last_over = (\<lambda>v i. v\<lparr>v_keys := butlast ((v_keys v)[i := last (v_keys v)])\<rparr>),
      version_cell = v_version, set_version_cell = (\<lambda>v n. v\<lparr>v_version := n\<rparr>),
      find_first_string = (\<lambda>v t i s. None), set_link = (\<lambda>v t i j k. v), initialize_subscriptions = (\<lambda>v. v),
      set_up_basic_permissions = (\<lambda>v. v), add_user_to_role = (\<lambda>v u r. v), set_class_permissions = (\<lambda>v c r. v)\<rparr>"

lemma view_view_core [simp]: "view view_core v = v"
  by (simp add: view_def view_core_def)

lemma core_ok_view_core: "core_ok view_core"
  unfolding core_ok_def columns_ok_def tables_ok_def keys_ok_def view_view_core by (simp add: view_core_def)

lemma view_core_sel [simp]:
  "table_names view_core = v_tables"
  "get_or_add_table view_core = (\<lambda>v t. with_new_table t v)"
  "columns_of view_core = v_columns"
  "insert_column_core view_core = (\<lambda>v t i ct name n. upd_columns t (insert_nth i (plain_column name ct n)) v)"
  "insert_column_link view_core = (\<lambda>v t i ct name target. upd_columns t (insert_nth i (link_column name ct target)) v)"
  "insert_column_table view_core = (\<lambda>v t i name ct sub n. upd_columns t (insert_nth i (table_column name ct sub n)) v)"
  "remove_column view_core = (\<lambda>v t i. upd_columns t (drop_column i) v)"
  "rename_column view_core = (\<lambda>v t i name. upd_column t i (col_name_update (\<lambda>_. name)) v)"
  "add_search_index view_core = (\<lambda>v t i. upd_column t i (col_indexed_update (\<lambda>_. True)) v)"
  "remove_search_index view_core = (\<lambda>v t i. upd_column t i (col_indexed_update (\<lambda>_. False)) v)"
  "table_size view_core = (\<lambda>v t. 0)"
  "add_empty_row view_core = (\<lambda>v t. v)"
  "copy_value view_core = (\<lambda>v t ct i j k. v)"
  "pk_rows view_core = v_keys"
  "pk_add view_core = (\<lambda>v os key. v\<lparr>v_keys := v_keys v @ [(os, key)]\<rparr>)"
  "pk_set view_core = (\<lambda>v i key. v\<lparr>v_keys := (v_keys v)[i := (fst (v_keys v ! i), key)]\<rparr>)"
  "pk_move_last_over view_core = (\<lambda>v i. v\<lparr>v_keys := butlast ((v_keys v)[i := last (v_keys v)])\<rparr>)"
  "version_cell view_core = v_version"
  "set_version_cell view_core = (\<lambda>v n. v\<lparr>v_version := n\<rparr>)"
  by (simp_all add: view_core_def)

end
