(* ===== verification/Store_Laws.thy ===== *)
theory Store_Laws
  imports Core_Laws
begin

text \<open>Laws of the operations on a file: the bits of a property type, columns, the table of primary keys and the metadata.\<close>

section \<open>Bits of a property type\<close>

lemma bit_64: "bit (64 :: 8 word) n \<longleftrightarrow> n = 6"
proof -
  have "(64 :: 8 word) = 2 ^ 6" by simp
  then show ?thesis by (simp only: bit_exp_iff possible_bit_word) auto
qed

lemma bit_128: "bit (128 :: 8 word) n \<longleftrightarrow> n = 7"
proof -
  have "(128 :: 8 word) = 2 ^ 7" by simp
  then show ?thesis by (simp only: bit_exp_iff possible_bit_word) auto
qed

lemma bit_0_type: "\<not> bit (0 :: 8 word) n"
  by simp

lemma bit_base_type: "bit (base_type t) n \<longleftrightarrow> bit t n \<and> n \<noteq> 6 \<and> n \<noteq> 7"
  unfolding base_type_def PT_Flags_def bit_and_iff bit_not_iff bit_or_iff bit_64 bit_128
  by (auto dest: bit_imp_possible_bit)

lemma is_nullable_bit: "is_nullable t \<longleftrightarrow> bit t 6"
proof
  assume "is_nullable t"
  then have "bit (t AND PT_Nullable) 6" unfolding is_nullable_def by (simp add: bit_64)
  then show "bit t 6" by (simp add: bit_and_iff)
next
  assume "bit t 6"
  then show "is_nullable t" unfolding is_nullable_def by (intro bit_word_eqI, simp only: bit_and_iff bit_64) auto
qed

lemma is_array_bit: "is_array t \<longleftrightarrow> bit t 7"
proof
  assume "is_array t"
  then have "bit (t AND PT_Array) 7" unfolding is_array_def by (simp add: bit_128)
  then show "bit t 7" by (simp add: bit_and_iff)
next
  assume "bit t 7"
  then show "is_array t" unfolding is_array_def by (intro bit_word_eqI, simp only: bit_and_iff bit_128) auto
qed

lemmas type_bits = bit_base_type is_nullable_bit is_array_bit bit_64 bit_128 bit_0_type bit_or_iff bit_and_iff

lemma type_split: "t = base_type t OR (if is_nullable t then PT_Nullable else PT_Required) OR (if is_array t then PT_Array else PT_Required)"
  by (rule bit_word_eqI, cases "bit t 6"; cases "bit t 7"; simp only: type_bits if_True if_False) auto

lemma base_type_idem [simp]: "base_type (base_type t) = base_type t"
  by (rule bit_word_eqI) (auto simp: type_bits)

lemma flags_base_type [simp]: "\<not> is_nullable (base_type t)" "\<not> is_array (base_type t)"
  by (simp_all add: type_bits)

section \<open>Columns\<close>

text \<open>The column a property is stored in.\<close>

definition stored_column :: "property \<Rightarrow> column option" where
  "stored_column p =
     (if same_type (p_type p) PT_LinkingObjects then None
      else if same_type (p_type p) PT_Object
      then Some (link_column (p_name p) (if is_array (p_type p) then T_LinkList else T_Link) (table_name_for_object_type (p_object_type p)))
      else if is_array (p_type p)
      then map_option (\<lambda>t. table_column (p_name p) t ''!ARRAY_VALUE'' (is_nullable (p_type p))) (to_core_type (base_type (p_type p)))
      else map_option (\<lambda>t. (plain_column (p_name p) t (is_nullable (p_type p)))\<lparr>col_indexed := requires_index p\<rparr>) (to_core_type (p_type p)))"

lemma upd_columns_upd_columns [simp]: "upd_columns t f (upd_columns t g v) = upd_columns t (\<lambda>cs. f (g cs)) v"
  by (simp add: upd_columns_def)

lemma insert_property_column_view:
  assumes "core_ok C" "t \<in> set (table_names C g)" "i \<le> length (columns_of C g t)" "stored_column p = Some c"
    "same_type (p_type p) PT_Object \<Longrightarrow> table_name_for_object_type (p_object_type p) \<in> set (table_names C g)"
  shows "\<exists>g'. insert_property_column C g t p i = Some g' \<and> view C g' = upd_columns t (insert_nth i c) (view C g)"
proof -
  note cols = columns_okD [OF assms(1-3)]
  have plain: "view C (insert_column_core C g t i ct n nl) = upd_columns t (insert_nth i (plain_column n ct nl)) (view C g)" for ct n nl
    by (rule cols(1))
  have len: "i < length (columns_of C (insert_column_core C g t i ct n nl) t)" and tab: "t \<in> set (table_names C (insert_column_core C g t i ct n nl))" for ct n nl
    using view_columns [OF plain [of ct n nl]] assms(2,3) by (simp_all add: insert_nth_def)
  have idx: "view C (add_search_index C (insert_column_core C g t i ct n nl) t i) =
      upd_columns t (insert_nth i ((plain_column n ct nl)\<lparr>col_indexed := True\<rparr>)) (view C g)" for ct n nl
    using assms(3) column_okD(3) [OF assms(1) tab len]
    by (simp add: plain upd_column_def upd_columns_def insert_nth_def nth_append list_update_append)
  show ?thesis using assms(4,5) plain idx cols(2,3)
    by (auto simp: stored_column_def insert_property_column_def table_exists_def Let_def plain_column_def split: if_splits)
qed

text \<open>Properties that a file can hold: a scalar type or a link, an index only on a column that can have one.\<close>

definition storable :: "property \<Rightarrow> bool" where
  "storable p \<longleftrightarrow>
     (if same_type (p_type p) PT_Object
      then is_nullable (p_type p) \<noteq> is_array (p_type p) \<and> \<not> requires_index p
      else base_type (p_type p) \<in> {PT_Int, PT_Bool, PT_String, PT_Data, PT_Date, PT_Float, PT_Double} \<and>
        p_object_type p = [] \<and> (is_array (p_type p) \<longrightarrow> \<not> requires_index p))"

definition read_back :: "property \<Rightarrow> size_t \<Rightarrow> property" where
  "read_back p i = property_init\<lparr>p_name := p_name p, p_type := p_type p, p_is_indexed := requires_index p,
     p_table_column := i, p_object_type := p_object_type p\<rparr>"

definition core_type_of :: "property_type \<Rightarrow> core_type" where
  "core_type_of b = the (to_core_type b)"

lemma object_type_table_name [simp]: "object_type_for_table_name (table_name_for_object_type n) = n"
  by (simp add: object_type_for_table_name_def table_name_for_object_type_def)

lemma base_type_values [simp]:
  "base_type PT_Object = PT_Object" "base_type PT_LinkingObjects = PT_LinkingObjects" "base_type PT_Int = PT_Int" "base_type PT_String = PT_String"
  by (simp_all add: base_type_def PT_Flags_def)

lemma to_core_type_base [simp]: "to_core_type (base_type t) = to_core_type t"
  by (simp add: to_core_type_def)

lemma from_core_scalar:
  assumes "base_type t \<in> {PT_Int, PT_Bool, PT_String, PT_Data, PT_Date, PT_Float, PT_Double}"
  shows "\<exists>ct. to_core_type t = Some ct \<and> ct \<noteq> T_Table \<and>
    from_core_type (Core_Column ct (is_nullable t) None) = Some (base_type t OR (if is_nullable t then PT_Nullable else PT_Required))"
  using assms by (auto simp: to_core_type_def Let_def)

lemma stored_column_scalar:
  assumes "storable p" "\<not> same_type (p_type p) PT_Object" "p_name p \<noteq> ''!OID'' \<or> \<not> sync"
  shows "\<exists>c. stored_column p = Some c \<and> col_name c = p_name p \<and> property_for_column sync c i = Some (Some (read_back p i))"
proof -
  let ?t = "p_type p"
  have b: "base_type ?t \<in> {PT_Int, PT_Bool, PT_String, PT_Data, PT_Date, PT_Float, PT_Double}" and o: "p_object_type p = []"
    and x: "is_array ?t \<Longrightarrow> \<not> requires_index p" using assms(1,2) by (auto simp: storable_def)
  have nl: "\<not> same_type ?t PT_LinkingObjects" using b by (auto simp: same_type_def)
  obtain ct where ct: "to_core_type ?t = Some ct" "ct \<noteq> T_Table"
    "from_core_type (Core_Column ct (is_nullable ?t) None) = Some (base_type ?t OR (if is_nullable ?t then PT_Nullable else PT_Required))"
    using from_core_scalar [OF b] by blast
  show ?thesis
  proof (cases "is_array ?t")
    case True
    have "(base_type ?t OR (if is_nullable ?t then PT_Nullable else PT_Required)) OR PT_Array = ?t"
      using type_split [of ?t] True by (simp add: or.assoc)
    then have "from_core_type (Core_Column T_Table False (Some (Core_Column ct (is_nullable ?t) None))) = Some ?t"
      unfolding from_core_type.simps(1) [of T_Table] core_type.case option.case ct(3) option.map by (simp only: Let_def)
    then show ?thesis using assms(2,3) nl o x ct(1) True
      by (auto simp: stored_column_def property_for_column_def table_column_def read_back_def)
  next
    case False
    have "base_type ?t OR (if is_nullable ?t then PT_Nullable else PT_Required) = ?t" using type_split [of ?t] False by simp
    then show ?thesis using assms(2,3) nl o ct False
      by (auto simp: stored_column_def property_for_column_def plain_column_def read_back_def simp del: from_core_type.simps)
  qed
qed

lemma stored_column_link:
  assumes "storable p" "same_type (p_type p) PT_Object" "p_name p \<noteq> ''!OID'' \<or> \<not> sync"
  shows "\<exists>c. stored_column p = Some c \<and> col_name c = p_name p \<and> property_for_column sync c i = Some (Some (read_back p i))"
proof -
  let ?t = "p_type p"
  have b: "base_type ?t = PT_Object" using assms(2) by (simp add: same_type_def)
  have na: "is_nullable ?t \<noteq> is_array ?t" "\<not> requires_index p" using assms(1,2) by (simp_all add: storable_def)
  have nl: "\<not> same_type ?t PT_LinkingObjects" using b by (simp add: same_type_def)
  have "PT_Object OR (if is_array ?t then PT_Array else PT_Nullable) = ?t"
    using type_split [of ?t] na(1) unfolding b by (cases "is_array ?t") simp_all
  then show ?thesis using assms(2,3) nl na b
    by (cases "is_array ?t") (auto simp: stored_column_def property_for_column_def link_column_def read_back_def)
qed

lemma stored_column_read:
  assumes "storable p" "p_name p \<noteq> ''!OID'' \<or> \<not> sync"
  shows "\<exists>c. stored_column p = Some c \<and> col_name c = p_name p \<and> property_for_column sync c i = Some (Some (read_back p i))"
  using stored_column_scalar [OF assms(1) _ assms(2)] stored_column_link [OF assms(1) _ assms(2)] by blast

section \<open>Primary keys\<close>

lemma find_pk_Some:
  assumes "find_pk C g os = Some i"
  shows "i < length (pk_rows C g) \<and> fst (pk_rows C g ! i) = os"
proof -
  let ?w = "takeWhile (\<lambda>r. fst r \<noteq> os) (pk_rows C g)"
  have "i = length ?w" "length ?w < length (pk_rows C g)" using assms by (auto simp: find_pk_def Let_def split: if_splits)
  then show ?thesis using nth_length_takeWhile [of "\<lambda>r. fst r \<noteq> os" "pk_rows C g"] by simp
qed

lemma find_pk_None: "find_pk C g os = None \<longleftrightarrow> os \<notin> fst ` set (pk_rows C g)"
proof -
  let ?w = "takeWhile (\<lambda>r. fst r \<noteq> os) (pk_rows C g)"
  have "find_pk C g os = None \<longleftrightarrow> length ?w = length (pk_rows C g)"
    using length_takeWhile_le [of "\<lambda>r. fst r \<noteq> os" "pk_rows C g"] by (auto simp: find_pk_def Let_def)
  also have "\<dots> \<longleftrightarrow> ?w = pk_rows C g"
    by (metis (no_types, lifting) append_Nil2 append_eq_append_conv takeWhile_dropWhile_id)
  also have "\<dots> \<longleftrightarrow> os \<notin> fst ` set (pk_rows C g)" by (auto simp: takeWhile_eq_all_conv)
  finally show ?thesis .
qed

lemma find_pk_map:
  assumes "distinct (map fst (pk_rows C g))"
  shows "map_of (pk_rows C g) os = map_option (\<lambda>i. snd (pk_rows C g ! i)) (find_pk C g os)"
proof (cases "find_pk C g os")
  case None
  moreover have "map_of (pk_rows C g) os = None" using None unfolding find_pk_None map_of_eq_None_iff .
  ultimately show ?thesis by simp
next
  case (Some i)
  have "i < length (pk_rows C g)" "fst (pk_rows C g ! i) = os" using find_pk_Some [OF Some] by simp_all
  then show ?thesis using Some assms by (metis map_of_eq_Some_iff nth_mem option.simps(9) prod.collapse)
qed

lemma map_of_snoc: "k \<notin> fst ` set xs \<Longrightarrow> map_of (xs @ [(k, v)]) = (map_of xs)(k \<mapsto> v)"
  by (induction xs) (auto simp: fun_eq_iff)

lemma map_of_middle: "fst r \<notin> fst ` set as \<Longrightarrow> map_of (as @ r # bs) = (map_of (as @ bs))(fst r \<mapsto> snd r)"
  by (induction as) (auto simp: fun_eq_iff)

lemma move_last_over:
  assumes "distinct (map fst rows)" "i < length rows"
  shows "map_of (butlast (rows[i := last rows])) = (map_of rows)(fst (rows ! i) := None) \<and>
    distinct (map fst (butlast (rows[i := last rows])))"
proof -
  obtain xs l where rows: "rows = xs @ [l]" using assms(2) by (cases rows rule: rev_cases) auto
  have d: "distinct (map fst xs)" "fst l \<notin> fst ` set xs" using assms(1) by (simp_all add: rows)
  show ?thesis
  proof (cases "i = length xs")
    case True
    then show ?thesis using d by (auto simp: rows map_add_def fun_eq_iff map_of_eq_None_iff split: option.split)
  next
    case False
    then have i: "i < length xs" using assms(2) by (simp add: rows)
    obtain as r bs where xs: "xs = as @ r # bs" "length as = i" using id_take_nth_drop [OF i] i by (metis length_take min.absorb2 order.strict_implies_order)
    have e: "butlast (rows[i := last rows]) = as @ l # bs" using i xs by (simp add: rows list_update_append butlast_append)
    have "rows ! i = r" using xs by (simp add: rows nth_append)
    moreover have "distinct (map fst (as @ l # bs))" using d by (auto simp: xs)
    moreover have "map_of (as @ l # bs) = (map_of rows)(fst r := None)"
    proof -
      have 1: "map_of (as @ l # bs) = (map_of (as @ bs))(fst l \<mapsto> snd l)" using d by (intro map_of_middle) (auto simp: xs)
      have 2: "map_of rows = (map_of (as @ (bs @ [l])))(fst r \<mapsto> snd r)" unfolding rows xs append_assoc append_Cons
        using d by (intro map_of_middle) (auto simp: xs)
      have 3: "map_of ((as @ bs) @ [(fst l, snd l)]) = (map_of (as @ bs))(fst l \<mapsto> snd l)" using d by (intro map_of_snoc) (auto simp: xs)
      have "fst r \<notin> fst ` set (as @ bs)" "fst r \<noteq> fst l" using d by (auto simp: xs)
      then have 4: "map_of (as @ bs) (fst r) = None" "fst r \<noteq> fst l" unfolding map_of_eq_None_iff by auto
      show ?thesis unfolding 1 2 using 3 4 by (simp add: fun_upd_twist) (simp add: fun_eq_iff)
    qed
    ultimately show ?thesis unfolding e by simp
  qed
qed

lemma pk_set_map:
  assumes "distinct (map fst rows)" "i < length rows"
  shows "map_of (rows[i := (fst (rows ! i), key)]) = (map_of rows)(fst (rows ! i) := Some key) \<and>
    distinct (map fst (rows[i := (fst (rows ! i), key)]))"
proof -
  obtain as r bs where xs: "rows = as @ r # bs" "length as = i"
    using id_take_nth_drop [OF assms(2)] assms(2) by (metis length_take min.absorb2 order.strict_implies_order)
  have r: "rows ! i = r" using xs by (simp add: nth_append)
  have e: "rows[i := (fst r, key)] = as @ (fst r, key) # bs" using xs by (simp add: list_update_append)
  have "map_of (as @ (fst r, key) # bs) = (map_of rows)(fst r := Some key)"
  proof -
    have a: "fst r \<notin> fst ` set as" using assms(1) by (auto simp: xs)
    show ?thesis using map_of_middle [of "(fst r, key)" as bs] map_of_middle [OF a, of bs] a unfolding xs by simp
  qed
  moreover have "distinct (map fst (as @ (fst r, key) # bs))" using assms(1) by (simp add: xs)
  ultimately show ?thesis unfolding r e by simp
qed

lemma set_primary_key_view:
  assumes "core_ok C" "distinct (map fst (pk_rows C g))"
  shows "\<exists>g' ks. set_primary_key_for_object False C g os key = Some g' \<and> view C g' = (view C g)\<lparr>v_keys := ks\<rparr> \<and>
    map_of ks = (map_of (pk_rows C g))(os := if key = [] then None else Some key) \<and> distinct (map fst ks)"
proof (cases "find_pk C g os")
  case None
  then have n: "os \<notin> fst ` set (pk_rows C g)" by (simp add: find_pk_None)
  then have m: "map_of (pk_rows C g) os = None" by (simp add: map_of_eq_None_iff)
  show ?thesis
  proof (cases "key = []")
    case True
    have "view C g = (view C g)\<lparr>v_keys := pk_rows C g\<rparr>" by (simp add: view_def)
    then show ?thesis using True None m assms(2) by (intro exI [of _ g] exI [of _ "pk_rows C g"]) (auto simp: set_primary_key_for_object_def fun_eq_iff)
  next
    case False
    have "distinct (map fst (pk_rows C g @ [(os, key)]))" using assms(2) n by simp
    then show ?thesis using None False map_of_snoc [OF n] keys_okD(1) [OF assms(1), of g os key]
      by (intro exI [of _ "pk_add C g os key"] exI [of _ "pk_rows C g @ [(os, key)]"]) (simp add: set_primary_key_for_object_def)
  qed
next
  case (Some i)
  have i: "i < length (pk_rows C g)" "fst (pk_rows C g ! i) = os" using find_pk_Some [OF Some] by simp_all
  show ?thesis
  proof (cases "key = []")
    case True
    then show ?thesis using Some i keys_okD(3) [OF assms(1) i(1)] move_last_over [OF assms(2) i(1)]
      by (intro exI [of _ "pk_move_last_over C g i"] exI [of _ "butlast ((pk_rows C g)[i := last (pk_rows C g)])"])
         (simp add: set_primary_key_for_object_def)
  next
    case False
    then show ?thesis using Some i keys_okD(2) [OF assms(1) i(1), of key] pk_set_map [OF assms(2) i(1), of key]
      by (intro exI [of _ "pk_set C g i key"] exI [of _ "(pk_rows C g)[i := (fst (pk_rows C g ! i), key)]"])
         (simp add: set_primary_key_for_object_def)
  qed
qed

lemma get_primary_key_map:
  assumes "distinct (map fst (pk_rows C g))" "''pk'' \<in> set (table_names C g)"
  shows "get_primary_key_for_object C g os = (case map_of (pk_rows C g) os of None \<Rightarrow> [] | Some k \<Rightarrow> k)"
  using assms find_pk_map [OF assms(1), of os] by (cases "find_pk C g os") (simp_all add: get_primary_key_for_object_def table_exists_def)

section \<open>Metadata\<close>

lemma create_metadata_view:
  assumes "core_ok C"
  shows "\<exists>cs ks. view C (create_metadata_tables C g) =
     (with_new_table ''metadata'' (with_new_table ''pk'' (view C g)))
       \<lparr>v_columns := (v_columns (with_new_table ''metadata'' (with_new_table ''pk'' (view C g))))(''metadata'' := cs, ''pk'' := ks),
        v_version := (if ''metadata'' \<in> set (table_names C g) \<and> columns_of C g ''metadata'' \<noteq> [] then version_cell C g else NotVersioned)\<rparr> \<and>
     cs \<noteq> [] \<and> ks \<noteq> []"
proof -
  define v1 where "v1 = with_new_table ''metadata'' (with_new_table ''pk'' (view C g))"
  define g1 where "g1 = get_or_add_table C (get_or_add_table C g ''pk'') ''metadata''"
  define g2 where "g2 = (if columns_of C g1 ''metadata'' = []
      then set_version_cell C (add_empty_row C (insert_column_core C g1 ''metadata'' 0 T_Int ''version'' False) ''metadata'') NotVersioned else g1)"
  define g3 where "g3 = (if columns_of C g2 ''pk'' = []
      then insert_column_core C (insert_column_core C g2 ''pk'' 0 T_String ''pk_table'' False) ''pk'' 1 T_String ''pk_property'' False else g2)"
  have tabs: "''metadata'' \<in> set (v_tables v1)" "''pk'' \<in> set (v_tables v1)" by (simp_all add: v1_def with_new_table_def)
  have meta: "v_columns v1 ''metadata'' \<noteq> [] \<longleftrightarrow> ''metadata'' \<in> set (table_names C g) \<and> columns_of C g ''metadata'' \<noteq> []"
    and ver: "v_version v1 = version_cell C g" by (auto simp: v1_def with_new_table_def)
  have g1: "view C g1 = v1" unfolding g1_def v1_def by (simp add: tables_okD(1) [OF assms])
  have sel1: "table_names C g1 = v_tables v1" "columns_of C g1 = v_columns v1" using g1 by (metis view_sel)+
  define v2 where "v2 = (if v_columns v1 ''metadata'' = []
      then (upd_columns ''metadata'' (insert_nth 0 (plain_column ''version'' T_Int False)) v1)\<lparr>v_version := NotVersioned\<rparr> else v1)"
  have g2: "view C g2 = v2"
  proof (cases "v_columns v1 ''metadata'' = []")
    case True
    let ?g = "insert_column_core C g1 ''metadata'' 0 T_Int ''version'' False"
    have i: "view C ?g = upd_columns ''metadata'' (insert_nth 0 (plain_column ''version'' T_Int False)) v1"
      using columns_okD(1) [OF assms, of "''metadata''" g1 0] tabs by (simp add: sel1 g1)
    have "''metadata'' \<in> set (table_names C ?g)" using view_columns [of C ?g] i g1 tabs(1) by (metis sel1(1))
    then have "view C (add_empty_row C ?g ''metadata'') = view C ?g" by (rule tables_okD(2) [OF assms])
    then show ?thesis using True i keys_okD(4) [OF assms] by (simp add: g2_def v2_def sel1)
  qed (simp add: g2_def v2_def sel1 g1)
  have sel2: "table_names C g2 = v_tables v2" "columns_of C g2 = v_columns v2" using g2 by (metis view_sel)+
  have v2: "v_tables v2 = v_tables v1" "v_columns v2 ''metadata'' \<noteq> []" "v_columns v2 ''pk'' = v_columns v1 ''pk''"
    by (simp_all add: v2_def upd_columns_def insert_nth_def)
  define ks where "ks = (if v_columns v1 ''pk'' = [] then [plain_column ''pk_table'' T_String False, plain_column ''pk_property'' T_String False]
      else v_columns v1 ''pk'')"
  have g3: "view C g3 = upd_columns ''pk'' (\<lambda>_. ks) v2"
  proof (cases "v_columns v1 ''pk'' = []")
    case True
    let ?g = "insert_column_core C g2 ''pk'' 0 T_String ''pk_table'' False"
    have i: "view C ?g = upd_columns ''pk'' (insert_nth 0 (plain_column ''pk_table'' T_String False)) (view C g2)"
      using columns_okD(1) [OF assms, of "''pk''" g2 0] tabs by (simp add: sel2 v2)
    have "view C (insert_column_core C ?g ''pk'' 1 T_String ''pk_property'' False) =
        upd_columns ''pk'' (insert_nth 1 (plain_column ''pk_property'' T_String False)) (view C ?g)"
      using view_columns [OF i] tabs v2 by (intro columns_okD(1) [OF assms]) (simp_all add: sel2 insert_nth_def)
    then show ?thesis using True v2 by (simp add: g3_def sel2 i g2 ks_def insert_nth_def upd_columns_def)
  next
    case False
    have "(v_columns v2)(''pk'' := v_columns v1 ''pk'') = v_columns v2" using v2(3) by (simp add: fun_upd_idem)
    then have "upd_columns ''pk'' (\<lambda>_. ks) v2 = v2" using False by (simp add: ks_def upd_columns_def)
    then show ?thesis using v2 False by (simp add: g3_def sel2 g2)
  qed
  have ks: "ks \<noteq> []" by (simp add: ks_def)
  have sel3: "table_names C g3 = v_tables v2" "columns_of C g3 ''pk'' = ks" using arg_cong [OF g3, of v_tables] arg_cong [OF g3, of v_columns]
    by (simp_all add: upd_columns_def)
  have "view C (add_search_index C g3 ''pk'' 0) = upd_column ''pk'' 0 (col_indexed_update (\<lambda>_. True)) (view C g3)"
    using ks tabs by (intro column_okD(3) [OF assms]) (simp_all add: sel3 v2)
  moreover have "create_metadata_tables C g = add_search_index C g3 ''pk'' 0"
    by (simp add: create_metadata_tables_def Let_def g1_def g2_def g3_def)
  ultimately have "view C (create_metadata_tables C g) =
      v1\<lparr>v_columns := (v_columns v1)(''metadata'' := v_columns v2 ''metadata'', ''pk'' := ks[0 := col_indexed_update (\<lambda>_. True) (ks ! 0)]),
         v_version := (if v_columns v1 ''metadata'' \<noteq> [] then version_cell C g else NotVersioned)\<rparr>"
    unfolding g3 upd_column_def upd_columns_def v2_def using ver by (auto simp: upd_columns_def insert_nth_def fun_eq_iff)
  then show ?thesis using v2(2) ks unfolding v1_def [symmetric] meta by (intro exI conjI) (assumption, simp_all)
qed

end
