(* ===== verification/Store_Init.thy ===== *)
theory Store_Init
  imports Store_Laws
begin

text \<open>
  Creating the tables of a schema in a new file: each phase of the initial mode, what it leaves in the file, and that
  the schema read back from the file is the one that was asked for.
\<close>

section \<open>Schemas that a file can hold\<close>

definition creatable :: "schema \<Rightarrow> bool" where
  "creatable target \<longleftrightarrow> valid_schema target \<and>
     (\<forall>os\<in>set target. os_name os \<noteq> [] \<and> (\<forall>p\<in>set (persisted os). storable p) \<and>
        primary_key os = (case List.find p_is_primary (persisted os) of Some p \<Rightarrow> p_name p | None \<Rightarrow> []))"

definition table_of :: "object_schema \<Rightarrow> string" where
  "table_of os = table_name_for_object_type (os_name os)"

definition columns_for :: "object_schema \<Rightarrow> column list" where
  "columns_for os = map (\<lambda>p. the (stored_column p)) (persisted os)"

lemma table_name_inj [simp]: "table_name_for_object_type a = table_name_for_object_type b \<longleftrightarrow> a = b"
  by (simp add: table_name_for_object_type_def)

lemma table_of_iff: "table_of a = table_of b \<longleftrightarrow> os_name a = os_name b"
  by (simp add: table_of_def)

lemma table_name_other [simp]: "table_name_for_object_type n \<noteq> ''pk''" "table_name_for_object_type n \<noteq> ''metadata''"
  "table_of os \<noteq> ''pk''" "table_of os \<noteq> ''metadata''"
  by (simp_all add: table_of_def table_name_for_object_type_def)

lemma object_type_other [simp]: "object_type_for_table_name ''pk'' = []" "object_type_for_table_name ''metadata'' = []"
  by (simp_all add: object_type_for_table_name_def)

section \<open>Adding the tables\<close>

lemma create_table_view:
  assumes "core_ok C" "table_of os \<notin> set (table_names C g)" "distinct (map fst (pk_rows C g))"
  shows "\<exists>g'. create_table False C g os = Some g' \<and>
    table_names C g' = table_names C g @ [table_of os] \<and> columns_of C g' = (columns_of C g)(table_of os := []) \<and>
    map_of (pk_rows C g') = (map_of (pk_rows C g))(os_name os := if primary_key os = [] then None else Some (primary_key os)) \<and>
    distinct (map fst (pk_rows C g')) \<and> version_cell C g' = version_cell C g"
proof -
  let ?g = "get_or_add_table C g (table_of os)"
  have "view C ?g = with_new_table (table_of os) (view C g)" by (rule tables_okD(1) [OF assms(1)])
  note v = view_with_new_table [OF this]
  then have d: "distinct (map fst (pk_rows C ?g))" using assms(3) by simp
  obtain g' ks where g': "set_primary_key_for_object False C ?g (os_name os) (primary_key os) = Some g'"
    "view C g' = (view C ?g)\<lparr>v_keys := ks\<rparr>"
    "map_of ks = (map_of (pk_rows C ?g))(os_name os := if primary_key os = [] then None else Some (primary_key os))" "distinct (map fst ks)"
    using set_primary_key_view [OF assms(1) d, of "os_name os" "primary_key os"] by blast
  have "create_table False C g os = Some g'" using g'(1) by (simp add: create_table_def table_of_def)
  then show ?thesis using v view_keys [OF g'(2)] g'(3,4) assms(2) by simp
qed

lemma create_tables_view:
  assumes "core_ok C" "distinct (map os_name ts)" "\<forall>os\<in>set ts. table_of os \<notin> set (table_names C g)" "distinct (map fst (pk_rows C g))"
  shows "\<exists>g'. apply_each (apply_initial False C) (map AddTable ts) g = Some g' \<and>
    table_names C g' = table_names C g @ map table_of ts \<and>
    (\<forall>t. columns_of C g' t = (if t \<in> table_of ` set ts then [] else columns_of C g t)) \<and>
    (\<forall>n. n \<notin> os_name ` set ts \<longrightarrow> map_of (pk_rows C g') n = map_of (pk_rows C g) n) \<and>
    (\<forall>os\<in>set ts. map_of (pk_rows C g') (os_name os) = (if primary_key os = [] then None else Some (primary_key os))) \<and>
    distinct (map fst (pk_rows C g')) \<and> version_cell C g' = version_cell C g"
  using assms(2-4)
proof (induction ts arbitrary: g)
  case (Cons os ts)
  obtain g1 where g1: "create_table False C g os = Some g1"
    "table_names C g1 = table_names C g @ [table_of os]" "columns_of C g1 = (columns_of C g)(table_of os := [])"
    "map_of (pk_rows C g1) = (map_of (pk_rows C g))(os_name os := if primary_key os = [] then None else Some (primary_key os))"
    "distinct (map fst (pk_rows C g1))" "version_cell C g1 = version_cell C g"
    using create_table_view [OF assms(1), of os g] Cons.prems by auto
  have n: "os_name os \<notin> os_name ` set ts" using Cons.prems(1) by simp
  then have "table_of o' \<noteq> table_of os" if "o' \<in> set ts" for o' unfolding table_of_iff using that by (metis imageI)
  then have "\<forall>o'\<in>set ts. table_of o' \<notin> set (table_names C g1)" using Cons.prems(2) g1(2) by auto
  then obtain g' where g': "apply_each (apply_initial False C) (map AddTable ts) g1 = Some g'"
    "table_names C g' = table_names C g1 @ map table_of ts"
    "\<forall>t. columns_of C g' t = (if t \<in> table_of ` set ts then [] else columns_of C g1 t)"
    "\<forall>n. n \<notin> os_name ` set ts \<longrightarrow> map_of (pk_rows C g') n = map_of (pk_rows C g1) n"
    "\<forall>os\<in>set ts. map_of (pk_rows C g') (os_name os) = (if primary_key os = [] then None else Some (primary_key os))"
    "distinct (map fst (pk_rows C g'))" "version_cell C g' = version_cell C g1"
    using Cons.IH [of g1] Cons.prems(1) g1(5) by auto
  have "apply_each (apply_initial False C) (map AddTable (os # ts)) g = Some g'" using g1(1) g'(1) by simp
  then show ?case using g'(2-7) g1(2-6) n by (intro exI [of _ g']) auto
qed simp

section \<open>Adding the columns\<close>

lemma add_columns_view:
  assumes "core_ok C" "t \<in> set (table_names C g)"
    "\<forall>p\<in>set ps. storable p \<and> (same_type (p_type p) PT_Object \<longrightarrow> table_name_for_object_type (p_object_type p) \<in> set (table_names C g))"
  shows "\<exists>g'. add_columns False C g t ps = Some g' \<and>
    view C g' = upd_columns t (\<lambda>cs. cs @ map (\<lambda>p. the (stored_column p)) ps) (view C g)"
  using assms(2,3)
proof (induction ps arbitrary: g)
  case Nil
  then show ?case by (simp add: upd_columns_def)
next
  case (Cons p ps)
  obtain c where c: "stored_column p = Some c" using stored_column_read [of p False 0] Cons.prems(2) by auto
  obtain g1 where g1: "add_column C g t p = Some g1" "view C g1 = upd_columns t (insert_nth (length (columns_of C g t)) c) (view C g)"
    using insert_property_column_view [OF assms(1) Cons.prems(1) order.refl c] Cons.prems(2) by (auto simp: add_column_def)
  note v1 = view_columns [OF g1(2)]
  obtain g' where g': "add_columns False C g1 t ps = Some g'" "view C g' = upd_columns t (\<lambda>cs. cs @ map (\<lambda>p. the (stored_column p)) ps) (view C g1)"
    using Cons.IH [of g1] Cons.prems v1 by auto
  have "view C g' = upd_columns t (\<lambda>cs. cs @ map (\<lambda>p. the (stored_column p)) (p # ps)) (view C g)"
    unfolding g'(2) g1(2) by (simp add: upd_columns_def insert_nth_def c)
  then show ?case using g1(1) g'(1) by simp
qed

lemma add_initial_view:
  assumes "core_ok C" "distinct (map os_name ts)" "\<forall>os\<in>set ts. table_of os \<in> set (table_names C g) \<and> columns_of C g (table_of os) = []"
    "\<forall>os\<in>set ts. \<forall>p\<in>set (persisted os). storable p \<and>
      (same_type (p_type p) PT_Object \<longrightarrow> table_name_for_object_type (p_object_type p) \<in> set (table_names C g))"
  shows "\<exists>g'. apply_each (apply_initial False C) (map AddInitialProperties ts) g = Some g' \<and>
    table_names C g' = table_names C g \<and> pk_rows C g' = pk_rows C g \<and> version_cell C g' = version_cell C g \<and>
    (\<forall>os\<in>set ts. columns_of C g' (table_of os) = columns_for os) \<and>
    (\<forall>t. t \<notin> table_of ` set ts \<longrightarrow> columns_of C g' t = columns_of C g t)"
  using assms(2-4)
proof (induction ts arbitrary: g)
  case (Cons os ts)
  obtain g1 where g1: "add_initial_columns False C g os = Some g1"
    "view C g1 = upd_columns (table_of os) (\<lambda>cs. cs @ map (\<lambda>p. the (stored_column p)) (persisted os)) (view C g)"
    using add_columns_view [OF assms(1), of "table_of os" g "persisted os"] Cons.prems(2,3) by (auto simp: add_initial_columns_def table_of_def)
  note v1 = view_columns [OF g1(2)]
  have n: "os_name os \<notin> os_name ` set ts" using Cons.prems(1) by simp
  then have ne: "table_of o' \<noteq> table_of os" if "o' \<in> set ts" for o' unfolding table_of_iff using that by (metis imageI)
  obtain g' where g': "apply_each (apply_initial False C) (map AddInitialProperties ts) g1 = Some g'"
    "table_names C g' = table_names C g1" "pk_rows C g' = pk_rows C g1" "version_cell C g' = version_cell C g1"
    "\<forall>os\<in>set ts. columns_of C g' (table_of os) = columns_for os"
    "\<forall>t. t \<notin> table_of ` set ts \<longrightarrow> columns_of C g' t = columns_of C g1 t"
    using Cons.IH [of g1] Cons.prems v1 ne by auto
  have "table_of os \<notin> table_of ` set ts" using ne by (metis imageE)
  then have "columns_of C g' (table_of os) = columns_for os" using g'(6) v1 Cons.prems(2) by (simp add: columns_for_def)
  then show ?case using g1(1) g' v1 by (intro exI [of _ g']) auto
qed simp

section \<open>Reading the schema back\<close>

definition read_object :: "object_schema \<Rightarrow> object_schema" where
  "read_object os = set_primary_key_property
     \<lparr>os_name = os_name os, persisted = map2 read_back (persisted os) [0..<length (persisted os)], computed = [], primary_key = primary_key os\<rparr>"

lemma properties_of_stored:
  "\<forall>p\<in>set ps. storable p \<Longrightarrow> properties_of False (map (\<lambda>p. the (stored_column p)) ps) i = Some (map2 read_back ps [i..<i + length ps])"
proof (induction ps arbitrary: i)
  case (Cons p ps)
  obtain c where "stored_column p = Some c" "property_for_column False c i = Some (Some (read_back p i))"
    using stored_column_read [of p False i] Cons.prems by auto
  moreover have "[i..<i + length (p # ps)] = i # [i + 1..<i + 1 + length ps]" by (simp add: upt_rec)
  ultimately show ?case using Cons.IH [of "i + 1"] Cons.prems by simp
qed simp

lemma those_all_Some: "\<forall>x\<in>set xs. f x = Some (h x) \<Longrightarrow> those (map f xs) = Some (map h xs)"
  by (induction xs) simp_all

lemma object_schema_read:
  assumes "columns_of C g (table_of os) = columns_for os" "\<forall>p\<in>set (persisted os). storable p"
    "map_of (pk_rows C g) (os_name os) = (if primary_key os = [] then None else Some (primary_key os))"
    "distinct (map fst (pk_rows C g))" "''pk'' \<in> set (table_names C g)"
  shows "object_schema_from_group False C g (os_name os) = Some (read_object os)"
  using properties_of_stored [OF assms(2), of 0] get_primary_key_map [OF assms(4,5), of "os_name os"] assms(1,3)
  by (simp add: object_schema_from_group_def columns_for_def table_of_def read_object_def)

lemma schema_read:
  assumes "table_names C g = [''pk'', ''metadata''] @ map table_of target" "\<forall>os\<in>set target. os_name os \<noteq> []"
    "\<forall>os\<in>set target. object_schema_from_group False C g (os_name os) = Some (read_object os)"
  shows "schema_from_group False C g = Some (make_schema (map read_object target))"
proof -
  have "filter (\<lambda>t. t \<noteq> []) (map object_type_for_table_name (table_names C g)) = map os_name target"
    using assms(1,2) by (simp add: comp_def table_of_def)
  moreover have "those (map (object_schema_from_group False C g) (map os_name target)) = Some (map read_object target)"
    unfolding map_map comp_def using assms(3) by (intro those_all_Some) simp
  ultimately show ?thesis by (simp add: schema_from_group_def)
qed

section \<open>What is read back conforms\<close>

lemma mark_primary_names [simp]: "map p_name (mark_primary n ps) = map p_name ps"
  by (induction ps) simp_all

lemma mark_primary_set: "q \<in> set (mark_primary n ps) \<Longrightarrow> \<exists>p\<in>set ps. q = p \<or> p_name p = n \<and> q = p\<lparr>p_is_primary := True\<rparr>"
  by (induction ps) (auto split: if_splits)

lemma read_object_sel [simp]: "os_name (read_object os) = os_name os" "primary_key (read_object os) = primary_key os" "computed (read_object os) = []"
  by (simp_all add: read_object_def set_primary_key_property_def)

lemma read_object_persisted:
  "map p_name (persisted (read_object os)) = map p_name (persisted os)"
  "r \<in> set (persisted (read_object os)) \<Longrightarrow> \<exists>q\<in>set (persisted os). \<exists>i. r = read_back q i \<or>
     p_name q = primary_key os \<and> primary_key os \<noteq> [] \<and> r = (read_back q i)\<lparr>p_is_primary := True\<rparr>"
proof -
  let ?ps = "map2 read_back (persisted os) [0..<length (persisted os)]"
  have names: "map p_name ?ps = map p_name (persisted os)" by (rule nth_equalityI) (simp_all add: read_back_def)
  have m: "\<exists>q\<in>set (persisted os). \<exists>i. r = read_back q i" if "r \<in> set ?ps" for r using that by (auto dest: set_zip_leftD)
  have cases: "persisted (read_object os) = ?ps \<or> primary_key os \<noteq> [] \<and> persisted (read_object os) = mark_primary (primary_key os) ?ps"
    by (simp add: read_object_def set_primary_key_property_def)
  show "map p_name (persisted (read_object os)) = map p_name (persisted os)" using cases names by auto
  show "\<exists>q\<in>set (persisted os). \<exists>i. r = read_back q i \<or> p_name q = primary_key os \<and> primary_key os \<noteq> [] \<and> r = (read_back q i)\<lparr>p_is_primary := True\<rparr>"
    if r: "r \<in> set (persisted (read_object os))"
  proof (cases "persisted (read_object os) = ?ps")
    case True
    then show ?thesis using m r by auto
  next
    case False
    then have pk: "primary_key os \<noteq> []" "r \<in> set (mark_primary (primary_key os) ?ps)" using cases r by auto
    obtain p where p: "p \<in> set ?ps" "r = p \<or> p_name p = primary_key os \<and> r = p\<lparr>p_is_primary := True\<rparr>" using mark_primary_set [OF pk(2)] by blast
    obtain q i where q: "q \<in> set (persisted os)" "p = read_back q i" using m [OF p(1)] by blast
    have "p_name p = p_name q" unfolding q(2) by (simp add: read_back_def)
    then show ?thesis using p(2) q pk(1) by auto
  qed
qed

lemma kept_as_own:
  assumes "q \<in> set (persisted os)" "distinct (map p_name (persisted os @ computed os))" "p_name p = p_name q"
  shows "kept_as os p q' \<longleftrightarrow> q' = q"
proof -
  have "q' = q" if "q' \<in> set (persisted os)" "p_name q' = p_name q" for q' using that assms(1,2) by (auto simp: distinct_map inj_on_def)
  moreover have "\<exists>q'. List.find (\<lambda>x. p_name x = p_name q) (persisted os) = Some q'"
    using assms(1) find_is_None [of "\<lambda>x. p_name x = p_name q" "persisted os"] by fastforce
  ultimately have "List.find (\<lambda>x. p_name x = p_name q) (persisted os) = Some q" by (metis (mono_tags, lifting) find_Some_iff nth_mem)
  then have f: "property_for_name os (p_name q) = Some q" by (simp add: property_for_name_def)
  have "\<forall>c\<in>set (computed os). p_name c \<noteq> p_name q" using assms(1,2) by (auto simp: distinct_map)
  then have "\<not> property_is_computed os q" by (auto simp: property_is_computed_def find_is_None same_property_def)
  then show ?thesis using f assms(3) by (auto simp: kept_as_def)
qed

lemma read_object_conforms:
  assumes "valid_object target os"
    "primary_key os = (case List.find p_is_primary (persisted os) of Some p \<Rightarrow> p_name p | None \<Rightarrow> [])"
  shows "columns_agree (read_object os) os \<and> indexes_agree (read_object os) os"
proof -
  have d: "distinct (map p_name (persisted os @ computed os))" using assms(1) by (simp add: valid_object_def Let_def)
  have kind: "same_kind (read_back q i) q" "same_kind ((read_back q i)\<lparr>p_is_primary := True\<rparr>) q" for q i
    by (simp_all add: same_kind_def read_back_def same_type_def)
  have prim: "p_is_primary q" if q: "q \<in> set (persisted os)" "p_name q = primary_key os" "primary_key os \<noteq> []" for q
  proof -
    obtain p where p: "List.find p_is_primary (persisted os) = Some p" "p_name p = p_name q" using assms(2) q by (cases "List.find p_is_primary (persisted os)") auto
    then have "p \<in> set (persisted os)" "p_is_primary p" by (auto simp: find_Some_iff)
    moreover have "p = q" using calculation(1) q(1) p(2) d by (auto simp: distinct_map inj_on_def)
    ultimately show ?thesis by simp
  qed
  have each: "\<exists>q. kept_as os r q \<and> same_kind r q \<and> (if requires_index q then p_is_indexed r else \<not> requires_index r)"
    if r: "r \<in> set (persisted (read_object os))" for r
  proof -
    obtain q i where q: "q \<in> set (persisted os)" and c: "r = read_back q i \<or>
        p_name q = primary_key os \<and> primary_key os \<noteq> [] \<and> r = (read_back q i)\<lparr>p_is_primary := True\<rparr>"
      using read_object_persisted(2) [OF r] by blast
    have "p_name r = p_name q" using c by (auto simp: read_back_def)
    then have "kept_as os r q" using kept_as_own [OF q d] by simp
    moreover have "same_kind r q" using c kind by auto
    moreover have "if requires_index q then p_is_indexed r else \<not> requires_index r"
      using c prim [OF q] by (auto simp: read_back_def requires_index_def property_init_def)
    ultimately show ?thesis by blast
  qed
  have one: "q' = q" if "kept_as os r q" "kept_as os r q'" for r q q' using that by (simp add: kept_as_def)
  have "property_for_name (read_object os) (p_name q) \<noteq> None" if "q \<in> set (persisted os)" for q
  proof -
    have "p_name q \<in> set (map p_name (persisted os))" using that by simp
    then have "p_name q \<in> p_name ` set (persisted (read_object os))" using read_object_persisted(1) [of os] by (metis list.set_map)
    then show ?thesis unfolding property_for_name_None by auto
  qed
  then have "columns_agree (read_object os) os" unfolding columns_agree_def read_object_sel using each by blast
  moreover have "indexes_agree (read_object os) os" unfolding indexes_agree_def using each one by blast
  ultimately show ?thesis ..
qed

section \<open>The initial mode\<close>

lemma compare_with_nothing: "schema_compare [] target r = map AddTable target @ map AddInitialProperties target"
proof -
  have t: "foldl (\<lambda>s p. table_change r (fst p) (snd p) s) cs (map (\<lambda>a. (Some a, None)) ts) = cs @ map AddTable ts" for cs ts
    by (induction ts arbitrary: cs) (simp_all add: table_change_def)
  have c: "foldl (\<lambda>s p. column_change (fst p) (snd p) s) cs (map (\<lambda>a. (Some a, None)) ts) = cs @ map AddInitialProperties ts" for cs ts
    by (induction ts arbitrary: cs) (simp_all add: column_change_def)
  show ?thesis unfolding schema_compare_def zip_matching_fold matching_Nil t c by simp
qed

lemma apply_each_append: "apply_each f (cs @ ds) g = Option.bind (apply_each f cs g) (apply_each f ds)"
  by (induction cs arbitrary: g) (auto split: bind_splits)

lemma column_index_columns_for:
  assumes "columns_of C g t = columns_for os" "\<forall>p\<in>set (persisted os). storable p" "distinct (map p_name (persisted os))" "i < length (persisted os)"
  shows "column_index C g t (p_name (persisted os ! i)) = i"
proof -
  have n: "map col_name (columns_for os) = map p_name (persisted os)"
  proof -
    have "col_name (the (stored_column p)) = p_name p" if "p \<in> set (persisted os)" for p
      using stored_column_read [of p False 0] assms(2) that by auto
    then show ?thesis by (simp add: columns_for_def comp_def)
  qed
  define cs where "cs = columns_for os"
  have len: "length cs = length (persisted os)" by (simp add: cs_def columns_for_def)
  have nth: "col_name (cs ! j) = p_name (persisted os ! j)" if "j < length cs" for j using that n len unfolding cs_def by (metis nth_map)
  have "takeWhile (\<lambda>c. col_name c \<noteq> p_name (persisted os ! i)) cs = take i cs"
    using nth len assms(3,4) by (intro takeWhile_eq_take_P_nth) (auto simp: distinct_conv_nth)
  then show ?thesis using assms(1,4) len by (simp add: column_index_def cs_def)
qed

lemma initial_mode_view:
  assumes "core_ok C" "table_names C g0 = []" "pk_rows C g0 = []" "sorted_schema target" "creatable target"
  shows "\<exists>g'. apply_initial_mode False C (create_metadata_tables C g0) target v (schema_compare [] target r) = Inr (g', set_schema_columns C g' target) \<and>
    version_cell C g' = v \<and> (\<forall>os\<in>set target. table_of os \<in> set (table_names C g') \<and> columns_of C g' (table_of os) = columns_for os) \<and>
    schema_from_group False C g' = Some (make_schema (map read_object target))"
proof -
  define g where "g = create_metadata_tables C g0"
  have d: "distinct (map os_name target)" by (rule sorted_schema_distinct [OF assms(4)])
  have g: "table_names C g = [''pk'', ''metadata'']" "pk_rows C g = []"
    using create_metadata_view [OF assms(1), of g0] assms(2,3) unfolding g_def [symmetric]
    by (auto simp: view_def with_new_table_def)
  have st: "storable p" if "os \<in> set target" "p \<in> set (persisted os)" for os p using assms(5) that by (auto simp: creatable_def)
  have link: "p_object_type p \<in> os_name ` set target" if "os \<in> set target" "p \<in> set (persisted os)" "same_type (p_type p) PT_Object" for os p
  proof -
    have "valid_object target os" using assms(5) that(1) by (simp add: creatable_def valid_schema_def)
    then have "valid_property target (os_name os) p" using that(2) by (simp add: valid_object_def Let_def)
    then have "valid_link target (os_name os) p" by (simp add: valid_property_def)
    then show ?thesis using that(3) unfolding valid_link_def by force
  qed
  obtain g1 where g1: "apply_each (apply_initial False C) (map AddTable target) g = Some g1"
    "table_names C g1 = table_names C g @ map table_of target" "\<forall>os\<in>set target. columns_of C g1 (table_of os) = []"
    "\<forall>os\<in>set target. map_of (pk_rows C g1) (os_name os) = (if primary_key os = [] then None else Some (primary_key os))"
    "distinct (map fst (pk_rows C g1))"
    using create_tables_view [OF assms(1) d, of g] g by auto
  have "table_name_for_object_type (p_object_type p) \<in> set (table_names C g1)"
    if "os \<in> set target" "p \<in> set (persisted os)" "same_type (p_type p) PT_Object" for os p
    using link [OF that] unfolding g1(2) table_of_def by auto
  then obtain g2 where g2: "apply_each (apply_initial False C) (map AddInitialProperties target) g1 = Some g2"
    "table_names C g2 = table_names C g1" "pk_rows C g2 = pk_rows C g1" "\<forall>os\<in>set target. columns_of C g2 (table_of os) = columns_for os"
    using add_initial_view [OF assms(1) d, of g1] g1(2,3) st by auto
  define g' where "g' = set_schema_version_cell C g2 v"
  have "view C g' = (view C g2)\<lparr>v_version := v\<rparr>" unfolding g'_def set_schema_version_cell_def by (rule keys_okD(4) [OF assms(1)])
  note v' = view_version [OF this]
  have "apply_initial_mode False C g target v (schema_compare [] target r) = Inr (g', set_schema_columns C g' target)"
    using g1(1) g2(1) by (simp add: apply_initial_mode_def compare_with_nothing apply_each_append g'_def Let_def)
  moreover have "schema_from_group False C g' = Some (make_schema (map read_object target))"
  proof (rule schema_read)
    show "table_names C g' = [''pk'', ''metadata''] @ map table_of target" using v' g2(2) g1(2) g(1) by simp
    show "\<forall>os\<in>set target. os_name os \<noteq> []" using assms(5) by (auto simp: creatable_def)
    show "\<forall>os\<in>set target. object_schema_from_group False C g' (os_name os) = Some (read_object os)"
    proof
      fix os
      assume os: "os \<in> set target"
      show "object_schema_from_group False C g' (os_name os) = Some (read_object os)"
        using os st v' g1(4,5) g2(2,3,4) g1(2) g(1) by (intro object_schema_read) auto
    qed
  qed
  ultimately show ?thesis using v' g2(2,4) g1(2) unfolding g_def [symmetric] by (intro exI [of _ g']) auto
qed

end
