(* ===== verification/Store_Additive.thy ===== *)
theory Store_Additive
  imports Store_Init
begin

text \<open>
  The additive mode never loses a column: every table keeps its columns at their places, whatever is added behind them,
  and only search indexes may differ.
\<close>

definition unindexed :: "column \<Rightarrow> column" where
  "unindexed c = c\<lparr>col_indexed := False\<rparr>"

definition grown :: "'g core \<Rightarrow> 'g \<Rightarrow> 'g \<Rightarrow> bool" where
  "grown C g g' \<longleftrightarrow>
     (\<forall>t\<in>set (table_names C g). t \<in> set (table_names C g') \<and>
        (\<exists>cs. map unindexed (columns_of C g' t) = map unindexed (columns_of C g t) @ cs))"

lemma grown_refl [simp]: "grown C g g"
  by (simp add: grown_def)

lemma grown_trans: "grown C g g1 \<Longrightarrow> grown C g1 g2 \<Longrightarrow> grown C g g2"
  unfolding grown_def by (metis append.assoc)

lemma grown_length: "grown C g g' \<Longrightarrow> t \<in> set (table_names C g) \<Longrightarrow> length (columns_of C g t) \<le> length (columns_of C g' t)"
  unfolding grown_def by (metis length_append length_map le_add1)

lemma grown_mem: "grown C g g' \<Longrightarrow> t \<in> set (table_names C g) \<Longrightarrow> t \<in> set (table_names C g')"
  by (simp add: grown_def)

lemma grown_upd_columns:
  assumes "view C g' = upd_columns t f (view C g)" "\<And>cs. \<exists>ds. map unindexed (f cs) = map unindexed cs @ ds"
  shows "grown C g g'"
  using view_columns [OF assms(1)] assms(2) by (auto simp: grown_def)

lemma grown_same: "table_names C g' = table_names C g \<Longrightarrow> columns_of C g' = columns_of C g \<Longrightarrow> grown C g g'"
  by (simp add: grown_def)

section \<open>The calls\<close>

lemma insert_property_column_some:
  assumes "core_ok C" "t \<in> set (table_names C g)" "i \<le> length (columns_of C g t)" "insert_property_column C g t p i = Some g'"
  shows "\<exists>c. stored_column p = Some c \<and> view C g' = upd_columns t (insert_nth i c) (view C g)"
proof -
  have t: "same_type (p_type p) PT_Object \<Longrightarrow> table_name_for_object_type (p_object_type p) \<in> set (table_names C g)"
    using assms(4) by (auto simp: insert_property_column_def table_exists_def Let_def split: if_splits)
  have "stored_column p \<noteq> None"
    using assms(4) by (auto simp: insert_property_column_def stored_column_def Let_def split: if_splits bind_splits)
  then obtain c where c: "stored_column p = Some c" by blast
  show ?thesis using insert_property_column_view [OF assms(1-3) c t] assms(4) c by auto
qed

lemma add_column_grown:
  assumes "core_ok C" "t \<in> set (table_names C g)" "add_column C g t p = Some g'"
  shows "grown C g g'"
proof -
  obtain c where "view C g' = upd_columns t (insert_nth (length (columns_of C g t)) c) (view C g)"
    using insert_property_column_some [OF assms(1,2) order.refl assms(3) [unfolded add_column_def]] by blast
  then have "view C g' = upd_columns t (\<lambda>cs. cs @ [c]) (view C g)" by (simp add: upd_columns_def insert_nth_def)
  then show ?thesis by (rule grown_upd_columns) simp
qed

lemma add_columns_grown:
  assumes "core_ok C"
  shows "t \<in> set (table_names C g) \<Longrightarrow> add_columns False C g t ps = Some g' \<Longrightarrow> grown C g g'"
proof (induction ps arbitrary: g)
  case (Cons p ps)
  then obtain g1 where g1: "add_column C g t p = Some g1" "add_columns False C g1 t ps = Some g'" by (auto split: bind_splits)
  have "grown C g g1" by (rule add_column_grown [OF assms Cons.prems(1) g1(1)])
  moreover have "grown C g1 g'" using grown_mem [OF calculation Cons.prems(1)] g1(2) by (rule Cons.IH)
  ultimately show ?case by (rule grown_trans)
qed simp

lemma set_primary_key_grown:
  assumes "core_ok C" "set_primary_key_for_object False C g os key = Some g'"
  shows "table_names C g' = table_names C g \<and> columns_of C g' = columns_of C g"
proof (cases "find_pk C g os")
  case None
  then show ?thesis using assms(2) view_keys [OF keys_okD(1) [OF assms(1)]]
    by (auto simp: set_primary_key_for_object_def split: if_splits)
next
  case (Some i)
  have "i < length (pk_rows C g)" using find_pk_Some [OF Some] by simp
  note v = keys_okD(2,3) [OF assms(1) this]
  show ?thesis using assms(2) Some view_keys [OF v(1)] view_keys [OF v(2)]
    by (auto simp: set_primary_key_for_object_def split: if_splits)
qed

lemma create_table_grown:
  assumes "core_ok C" "create_table False C g os = Some g'"
  shows "grown C g g' \<and> table_of os \<in> set (table_names C g')"
proof -
  let ?g = "get_or_add_table C g (table_of os)"
  have "set_primary_key_for_object False C ?g (os_name os) (primary_key os) = Some g'"
    using assms(2) by (simp add: create_table_def table_of_def)
  note k = set_primary_key_grown [OF assms(1) this]
  have v: "view C ?g = with_new_table (table_of os) (view C g)" by (rule tables_okD(1) [OF assms(1)])
  show ?thesis using view_with_new_table [OF v] k by (auto simp: grown_def)
qed

lemma index_grown:
  assumes "core_ok C" "t \<in> set (table_names C g)" "i < length (columns_of C g t)"
  shows "grown C g (add_search_index C g t i)" "grown C g (remove_search_index C g t i)"
proof -
  have u: "\<exists>ds. map unindexed (cs[i := (cs ! i)\<lparr>col_indexed := b\<rparr>]) = map unindexed cs @ ds" for cs b
  proof -
    have "unindexed (cs[i := (cs ! i)\<lparr>col_indexed := b\<rparr>] ! j) = unindexed (cs ! j)" if "j < length cs" for j
      using that by (cases "j = i") (simp_all add: unindexed_def)
    then show ?thesis by (intro exI [of _ "[]"] nth_equalityI) simp_all
  qed
  show "grown C g (add_search_index C g t i)" "grown C g (remove_search_index C g t i)"
    using column_okD(3,4) [OF assms] u unfolding upd_column_def by (auto intro!: grown_upd_columns)
qed

section \<open>Additive changes\<close>

text \<open>What a change relies on: its table, and the column of an index.\<close>

fun ready :: "'g core \<Rightarrow> 'g \<Rightarrow> schema_change \<Rightarrow> bool" where
  "ready C g (AddInitialProperties os) \<longleftrightarrow> table_of os \<in> set (table_names C g)"
| "ready C g (AddIndex os p) \<longleftrightarrow> table_of os \<in> set (table_names C g) \<and> p_table_column p < length (columns_of C g (table_of os))"
| "ready C g (RemoveIndex os p) \<longleftrightarrow> table_of os \<in> set (table_names C g) \<and> p_table_column p < length (columns_of C g (table_of os))"
| "ready C g c \<longleftrightarrow> True"

lemma ready_grown: "ready C g c \<Longrightarrow> grown C g g' \<Longrightarrow> ready C g' c"
  by (cases c) (auto dest: grown_mem grown_length intro: order.strict_trans2)

lemma apply_additive_grown:
  assumes "core_ok C" "apply_additive False C u c g = Some g'" "ready C g c"
  shows "grown C g g'"
proof (cases c)
  case (AddTable os)
  then show ?thesis using create_table_grown [OF assms(1)] assms(2) by simp
next
  case (AddInitialProperties os)
  then show ?thesis using add_columns_grown [OF assms(1)] assms(2,3) by (simp add: add_initial_columns_def table_of_def)
next
  case (AddProperty os p)
  then show ?thesis using add_column_grown [OF assms(1)] assms(2) by (auto simp: with_table_def table_exists_def Let_def split: if_splits)
next
  case (AddIndex os p)
  then show ?thesis using index_grown(1) [OF assms(1)] assms(2,3) by (auto simp: with_table_def table_exists_def Let_def table_of_def split: if_splits)
next
  case (RemoveIndex os p)
  then show ?thesis using index_grown(2) [OF assms(1)] assms(2,3) by (auto simp: with_table_def table_exists_def Let_def table_of_def split: if_splits)
qed (use assms(2) in simp_all)

lemma apply_each_additive_grown:
  assumes "core_ok C"
  shows "apply_each (apply_additive False C u) cs g = Some g' \<Longrightarrow> \<forall>c\<in>set cs. ready C g c \<Longrightarrow> grown C g g'"
proof (induction cs arbitrary: g)
  case (Cons c cs)
  then obtain g1 where g1: "apply_additive False C u c g = Some g1" "apply_each (apply_additive False C u) cs g1 = Some g'"
    by (auto split: bind_splits)
  have "grown C g g1" using apply_additive_grown [OF assms g1(1)] Cons.prems(2) by simp
  moreover have "grown C g1 g'" using Cons.prems(2) ready_grown [OF _ \<open>grown C g g1\<close>] by (intro Cons.IH [OF g1(2)]) simp
  ultimately show ?case by (rule grown_trans)
qed simp

lemma apply_each_tables:
  assumes "core_ok C"
  shows "apply_each (apply_additive False C u) cs g = Some g' \<Longrightarrow> \<forall>c\<in>set cs. \<exists>os. c = AddTable os \<or> c = RemoveTable os \<Longrightarrow>
    AddTable os \<in> set cs \<Longrightarrow> table_of os \<in> set (table_names C g')"
proof (induction cs arbitrary: g)
  case (Cons c cs)
  then obtain g1 where g1: "apply_additive False C u c g = Some g1" "apply_each (apply_additive False C u) cs g1 = Some g'"
    by (auto split: bind_splits)
  show ?case
  proof (cases "c = AddTable os")
    case True
    have "ready C g1 d" if d: "d \<in> set cs" for d
    proof -
      obtain o' where "d = AddTable o' \<or> d = RemoveTable o'" using Cons.prems(2) d by auto
      then show ?thesis by auto
    qed
    then have "grown C g1 g'" using apply_each_additive_grown [OF assms g1(2)] by blast
    moreover have "table_of os \<in> set (table_names C g1)" using create_table_grown [OF assms] g1(1) True by simp
    ultimately show ?thesis by (rule grown_mem)
  next
    case False
    then show ?thesis using Cons g1(2) by auto
  qed
qed simp

section \<open>The schema of a file\<close>

lemma properties_of_columns: "properties_of sync cs i = Some ps \<Longrightarrow> p \<in> set ps \<Longrightarrow> p_table_column p < i + length cs"
proof (induction cs arbitrary: i ps)
  case (Cons c cs)
  obtain q qs where q: "property_for_column sync c i = Some q" "properties_of sync cs (i + 1) = Some qs"
    "ps = (case q of None \<Rightarrow> qs | Some q \<Rightarrow> q # qs)" using Cons.prems(1) by (auto split: bind_splits)
  show ?case
  proof (cases "p \<in> set qs")
    case True
    then show ?thesis using Cons.IH [OF q(2)] by simp
  next
    case False
    then have "q = Some p" using q(3) Cons.prems(2) by (auto split: option.splits)
    then have "p_table_column p = i" using q(1) by (auto simp: property_for_column_def split: if_splits bind_splits)
    then show ?thesis by simp
  qed
qed simp

lemma object_schema_columns:
  assumes "object_schema_from_group sync C g n = Some os"
  shows "os_name os = n \<and> (\<forall>p\<in>set (persisted os). p_table_column p < length (columns_of C g (table_of os)))"
proof -
  obtain ps where ps: "properties_of sync (columns_of C g (table_name_for_object_type n)) 0 = Some ps"
    "os = set_primary_key_property \<lparr>os_name = n, persisted = ps, computed = [], primary_key = get_primary_key_for_object C g n\<rparr>"
    using assms by (auto simp: object_schema_from_group_def split: bind_splits)
  have n: "os_name os = n" unfolding ps(2) by (simp add: set_primary_key_property_def)
  have "p_table_column p < length (columns_of C g (table_name_for_object_type n))" if "p \<in> set (persisted os)" for p
  proof -
    have "p \<in> set ps \<or> p \<in> set (mark_primary (get_primary_key_for_object C g n) ps)"
      using that unfolding ps(2) by (auto simp: set_primary_key_property_def split: if_splits)
    then obtain q where "q \<in> set ps" "p_table_column p = p_table_column q" by (auto dest: mark_primary_set)
    then show ?thesis using properties_of_columns [OF ps(1)] by simp
  qed
  then show ?thesis using n by (simp add: table_of_def)
qed

lemma those_Some: "those xs = Some ys \<Longrightarrow> xs = map Some ys"
  by (induction xs arbitrary: ys) (auto split: option.splits)

lemma schema_from_group_objects:
  assumes "schema_from_group sync C g = Some s"
  shows "\<exists>names objs. s = make_schema objs \<and> map os_name objs = names \<and> (distinct (table_names C g) \<longrightarrow> distinct names) \<and>
    (\<forall>n\<in>set names. n \<noteq> [] \<and> table_name_for_object_type n \<in> set (table_names C g)) \<and>
    (\<forall>os\<in>set objs. object_schema_from_group sync C g (os_name os) = Some os)"
proof -
  define names where "names = filter (\<lambda>t. t \<noteq> []) (map object_type_for_table_name (table_names C g))"
  obtain objs where objs: "those (map (object_schema_from_group sync C g) names) = Some objs" "s = make_schema objs"
    using assms by (auto simp: schema_from_group_def names_def)
  have m: "map (object_schema_from_group sync C g) names = map Some objs" by (rule those_Some [OF objs(1)])
  have len: "length names = length objs" using arg_cong [OF m, of length] by simp
  have nth: "object_schema_from_group sync C g (names ! i) = Some (objs ! i)" if "i < length names" for i
    using arg_cong [OF m, of "\<lambda>xs. xs ! i"] that len by simp
  have names_os: "map os_name objs = names"
  proof (rule nth_equalityI)
    show "length (map os_name objs) = length names" using len by simp
    fix i
    assume "i < length (map os_name objs)"
    then show "map os_name objs ! i = names ! i" using object_schema_columns [OF nth [of i]] len by simp
  qed
  have inv: "table_name_for_object_type (object_type_for_table_name t) = t" if "object_type_for_table_name t \<noteq> []" for t
  proof -
    have t: "take (length ''class_'') t = ''class_''" using that unfolding object_type_for_table_name_def by presburger
    have "take (length ''class_'') t @ drop (length ''class_'') t = t" by (rule append_take_drop_id)
    then show ?thesis unfolding object_type_for_table_name_def table_name_for_object_type_def if_P [OF t] by (simp only: t)
  qed
  have "distinct names" if "distinct (table_names C g)"
  proof -
    have "inj_on object_type_for_table_name (set (filter (\<lambda>t. object_type_for_table_name t \<noteq> []) (table_names C g)))"
      by (rule inj_on_inverseI [where g = table_name_for_object_type]) (use inv in simp)
    then show ?thesis using that unfolding names_def filter_map comp_def by (simp add: distinct_map)
  qed
  moreover have "n \<noteq> [] \<and> table_name_for_object_type n \<in> set (table_names C g)" if n: "n \<in> set names" for n
  proof -
    obtain t where t: "t \<in> set (table_names C g)" "n = object_type_for_table_name t" "n \<noteq> []" using n by (auto simp: names_def)
    have "table_name_for_object_type n = t" using inv [OF t(3) [unfolded t(2)]] unfolding t(2) .
    then have "table_name_for_object_type n \<in> set (table_names C g)" using t(1) by (rule ssubst)
    then show ?thesis by (rule conjI [OF t(3)])
  qed
  moreover have "object_schema_from_group sync C g (os_name os) = Some os" if os: "os \<in> set objs" for os
  proof -
    obtain i where i: "i < length objs" "objs ! i = os" using os by (auto simp: in_set_conv_nth)
    have "names ! i = os_name os" unfolding names_os [symmetric] using i by simp
    then show ?thesis using nth [of i] i len by simp
  qed
  ultimately show ?thesis using objs(2) names_os by (intro exI [of _ names] exI [of _ objs]) blast
qed

lemma compare_ready:
  assumes "schema_from_group sync C g = Some existing" "distinct (table_names C g)" "sorted_schema target"
    "schema_compare existing target r = tables @ rest" "mset tables = mset (expected_table_changes r existing target)"
    "mset rest = mset (expected_column_changes existing target)" "c \<in> set rest"
    "\<forall>t\<in>set (table_names C g). t \<in> set (table_names C g') \<and> length (columns_of C g t) \<le> length (columns_of C g' t) \<or> t \<in> {''pk'', ''metadata''}"
    "\<forall>os. AddTable os \<in> set tables \<longrightarrow> table_of os \<in> set (table_names C g')"
  shows "ready C g' c"
proof -
  obtain objs where o: "existing = make_schema objs" "distinct (map os_name objs)"
    "\<forall>os\<in>set objs. table_of os \<in> set (table_names C g) \<and> (\<forall>p\<in>set (persisted os). p_table_column p < length (columns_of C g (table_of os)))"
  proof -
    obtain objs where o: "existing = make_schema objs" "distinct (map os_name objs)"
      "\<forall>n\<in>set (map os_name objs). table_name_for_object_type n \<in> set (table_names C g)"
      "\<forall>os\<in>set objs. object_schema_from_group sync C g (os_name os) = Some os"
      using schema_from_group_objects [OF assms(1)] assms(2) by blast
    have "table_of os \<in> set (table_names C g) \<and> (\<forall>p\<in>set (persisted os). p_table_column p < length (columns_of C g (table_of os)))"
      if "os \<in> set objs" for os
      using that o(3) object_schema_columns [of sync C g "os_name os" os] o(4) by (simp add: table_of_def)
    then show thesis using o(1,2) by (intro that) blast+
  qed
  have se: "sorted_schema existing" unfolding o(1) by (rule sorted_make_schema [OF o(2)])
  have col: "table_of e \<in> set (table_names C g') \<and> p_table_column p < length (columns_of C g' (table_of e))"
    if "e \<in> set existing" "p \<in> set (persisted e)" for e p
  proof -
    have "table_of e \<in> set (table_names C g)" "p_table_column p < length (columns_of C g (table_of e))" using o(1,3) that by auto
    moreover have "table_of e \<notin> {''pk'', ''metadata''}" by simp
    ultimately show ?thesis using bspec [OF assms(8), of "table_of e"] by auto
  qed
  have tab: "set tables = set (expected_table_changes r existing target)" using assms(5) by (metis set_mset_mset)
  have "c \<in> set (expected_column_changes existing target)" using assms(6,7) by (metis set_mset_mset)
  then obtain t where t: "t \<in> set target" "c \<in> set (case schema_find existing (os_name t) of Some e \<Rightarrow> object_changes e t | None \<Rightarrow> [AddInitialProperties t])"
    by (auto simp: expected_column_changes_def)
  show ?thesis
  proof (cases "schema_find existing (os_name t)")
    case None
    then have "AddTable t \<in> set tables" using t(1) schema_find_None_iff [OF se] unfolding tab by (auto simp: expected_table_changes_def)
    then show ?thesis using t(2) None assms(9) by simp
  next
    case (Some e)
    then have e: "e \<in> set existing" using schema_find_SomeD by blast
    have c: "c \<in> set (object_changes e t)" using t(2) Some by simp
    have "d = RemoveProperty e p \<or> (\<exists>q. d = ChangePropertyType e p q) \<or> d = MakePropertyNullable e p \<or> d = MakePropertyRequired e p \<or>
        d = AddIndex e p \<or> d = RemoveIndex e p" if "d \<in> set (compare_property e t p)" for d p
      using that by (auto simp: compare_property_def split: option.splits if_splits)
    moreover have "(\<exists>p\<in>set (persisted e). c \<in> set (compare_property e t p)) \<or> (\<exists>k. c = ChangePrimaryKey e k) \<or> (\<exists>p. c = AddProperty e p)"
      using c unfolding object_changes_def by (auto split: if_splits)
    ultimately have "(\<exists>p\<in>set (persisted e). c = RemoveProperty e p \<or> (\<exists>q. c = ChangePropertyType e p q) \<or> c = MakePropertyNullable e p \<or>
        c = MakePropertyRequired e p \<or> c = AddIndex e p \<or> c = RemoveIndex e p) \<or> (\<exists>k. c = ChangePrimaryKey e k) \<or> (\<exists>p. c = AddProperty e p)"
      by blast
    then show ?thesis using col [OF e] by auto
  qed
qed

section \<open>The additive mode\<close>

lemma create_metadata_columns:
  assumes "core_ok C"
  shows "(\<forall>t\<in>set (table_names C g). t \<in> set (table_names C (create_metadata_tables C g))) \<and>
    (\<forall>t. t \<notin> {''pk'', ''metadata''} \<longrightarrow> columns_of C (create_metadata_tables C g) t = columns_of C g t) \<and>
    pk_rows C (create_metadata_tables C g) = pk_rows C g"
proof -
  obtain cs ks where v: "view C (create_metadata_tables C g) =
     (with_new_table ''metadata'' (with_new_table ''pk'' (view C g)))
       \<lparr>v_columns := (v_columns (with_new_table ''metadata'' (with_new_table ''pk'' (view C g))))(''metadata'' := cs, ''pk'' := ks),
        v_version := (if ''metadata'' \<in> set (table_names C g) \<and> columns_of C g ''metadata'' \<noteq> [] then version_cell C g else NotVersioned)\<rparr>"
    using create_metadata_view [OF assms, of g] by blast
  show ?thesis using arg_cong [OF v, of v_tables] arg_cong [OF v, of v_columns] arg_cong [OF v, of v_keys]
    by (auto simp: with_new_table_def)
qed

lemma additive_mode_grown:
  assumes "core_ok C" "schema_from_group False C g = Some existing" "distinct (table_names C g)" "sorted_schema existing" "sorted_schema target"
    "apply_schema_changes False C g v target w Additive (schema_compare existing target False) user mig = Inr (g', target')"
  shows "\<exists>g1. grown C g1 g' \<and> (\<forall>t\<in>set (table_names C g). t \<in> set (table_names C g1)) \<and>
    (\<forall>t. t \<notin> {''pk'', ''metadata''} \<longrightarrow> columns_of C g1 t = columns_of C g t)"
proof -
  define g1 where "g1 = create_metadata_tables C g"
  note m = create_metadata_columns [OF assms(1), of g, folded g1_def]
  obtain tables rest where cs: "schema_compare existing target False = tables @ rest"
    "mset tables = mset (expected_table_changes False existing target)" "mset rest = mset (expected_column_changes existing target)"
    using schema_compare_split [OF assms(4,5), of False] by blast
  obtain g4 where g4: "apply_each (apply_additive False C True) (schema_compare existing target False) g1 = Some g4"
    and g': "g' = (if target_newer v w then set_schema_version_cell C g4 w else g4) "
    using assms(6) by (auto simp: apply_schema_changes_def apply_additive_mode_def create_default_permissions_def g1_def Let_def
        split: option.splits if_splits)
  obtain g2 where g2: "apply_each (apply_additive False C True) tables g1 = Some g2" "apply_each (apply_additive False C True) rest g2 = Some g4"
    using g4 unfolding cs(1) apply_each_append by (auto split: bind_splits)
  have "set tables = set (expected_table_changes False existing target)" using cs(2) by (metis set_mset_mset)
  then have tab: "\<forall>c\<in>set tables. \<exists>os. c = AddTable os \<or> c = RemoveTable os" by (auto simp: expected_table_changes_def)
  have "\<forall>c\<in>set tables. ready C g1 c" using tab by (metis ready.simps(4,5))
  note 1 = apply_each_additive_grown [OF assms(1) g2(1) this]
  have "ready C g2 c" if c: "c \<in> set rest" for c
  proof (rule compare_ready [OF assms(2,3,5) cs c])
    show "\<forall>t\<in>set (table_names C g). t \<in> set (table_names C g2) \<and> length (columns_of C g t) \<le> length (columns_of C g2 t) \<or> t \<in> {''pk'', ''metadata''}"
      using m grown_mem [OF 1] grown_length [OF 1] by metis
    show "\<forall>os. AddTable os \<in> set tables \<longrightarrow> table_of os \<in> set (table_names C g2)"
      using apply_each_tables [OF assms(1) g2(1) tab] by blast
  qed
  then have 2: "grown C g2 g4" using apply_each_additive_grown [OF assms(1) g2(2)] by blast
  have w: "view C (set_version_cell C g4 w) = (view C g4)\<lparr>v_version := w\<rparr>" by (rule keys_okD(4) [OF assms(1)])
  then have 3: "grown C g4 g'" unfolding g' set_schema_version_cell_def using view_version [OF w] by (simp add: grown_same)
  have "grown C g1 g'" by (rule grown_trans [OF grown_trans [OF 1 2] 3])
  then show ?thesis using m by blast
qed

end
