(* ===== verification/Store_Rename.thy ===== *)
theory Store_Rename
  imports Store_Additive
begin

text \<open>Renaming a property to one that the table already has: the columns of the file and of the target schema afterwards.\<close>

lemma property_of_column:
  "properties_of sync cs i = Some ps \<Longrightarrow> p \<in> set ps \<Longrightarrow>
     i \<le> p_table_column p \<and> p_table_column p < i + length cs \<and> col_name (cs ! (p_table_column p - i)) = p_name p"
proof (induction cs arbitrary: i ps)
  case (Cons c cs)
  obtain q qs where q: "property_for_column sync c i = Some q" "properties_of sync cs (i + 1) = Some qs"
    "ps = (case q of None \<Rightarrow> qs | Some q \<Rightarrow> q # qs)" using Cons.prems(1) by (auto split: bind_splits)
  show ?case
  proof (cases "p \<in> set qs")
    case True
    note h = Cons.IH [OF q(2) True]
    then have "p_table_column p - i = Suc (p_table_column p - (i + 1))" by arith
    then show ?thesis using h by simp
  next
    case False
    then have "q = Some p" using q(3) Cons.prems(2) by (auto split: option.splits)
    then have "p_table_column p = i \<and> p_name p = col_name c" using q(1) by (auto simp: property_for_column_def split: if_splits bind_splits)
    then show ?thesis by simp
  qed
qed simp

lemma find_name: "property_for_name os n = Some p \<Longrightarrow> computed os = [] \<Longrightarrow> p \<in> set (persisted os) \<and> p_name p = n"
  by (auto simp: property_for_name_def find_Some_iff split: option.splits)

lemma file_property:
  assumes "object_schema_from_group sync C g ot = Some os" "property_for_name os n = Some p"
  shows "p_name p = n \<and> p_table_column p < length (columns_of C g (table_name_for_object_type ot)) \<and>
    col_name (columns_of C g (table_name_for_object_type ot) ! p_table_column p) = n"
proof -
  let ?cs = "columns_of C g (table_name_for_object_type ot)"
  obtain ps where ps: "properties_of sync ?cs 0 = Some ps"
    "os = set_primary_key_property \<lparr>os_name = ot, persisted = ps, computed = [], primary_key = get_primary_key_for_object C g ot\<rparr>"
    using assms(1) by (auto simp: object_schema_from_group_def split: bind_splits)
  have "computed os = []" unfolding ps(2) by (simp add: set_primary_key_property_def)
  then have p: "p \<in> set (persisted os)" "p_name p = n" using find_name [OF assms(2)] by simp_all
  have "p \<in> set ps \<or> p \<in> set (mark_primary (get_primary_key_for_object C g ot) ps)"
    using p(1) unfolding ps(2) by (auto simp: set_primary_key_property_def split: if_splits)
  then obtain q where "q \<in> set ps" "p_table_column p = p_table_column q" "p_name p = p_name q" by (auto dest: mark_primary_set)
  then show ?thesis using property_of_column [OF ps(1), of q] p(2) by simp
qed

lemma column_index_nth:
  assumes "distinct (map col_name (columns_of C g t))" "i < length (columns_of C g t)" "col_name (columns_of C g t ! i) = n"
  shows "column_index C g t n = i"
proof -
  let ?cs = "columns_of C g t"
  have "col_name (?cs ! j) \<noteq> n" if "j < i" for j
    using assms that nth_eq_iff_index_eq [OF assms(1), of j i] by auto
  then have "takeWhile (\<lambda>c. col_name c \<noteq> n) ?cs = take i ?cs"
    using assms(3) by (intro takeWhile_eq_take_P_nth) auto
  then show ?thesis using assms(2) by (simp add: column_index_def)
qed

lemma column_index_lt:
  assumes "column_index C g t n < length (columns_of C g t)"
  shows "col_name (columns_of C g t ! column_index C g t n) = n \<or> column_index C g t n = npos"
proof (cases "length (takeWhile (\<lambda>c. col_name c \<noteq> n) (columns_of C g t)) < length (columns_of C g t)")
  case True
  then show ?thesis using nth_length_takeWhile [OF True] by (simp add: column_index_def)
qed (simp add: column_index_def)

section \<open>Column names\<close>

definition moved :: "size_t \<Rightarrow> size_t \<Rightarrow> size_t \<Rightarrow> size_t" where
  "moved j i c = (if c = j then i else if j < c then c - 1 else c)"

lemma renamed_nth:
  assumes "distinct ns" "i < j" "j < length ns" "c < length ns" "c \<noteq> i"
  shows "moved j i c < length (drop_column j (ns[i := ns ! j])) \<and> drop_column j (ns[i := ns ! j]) ! moved j i c = ns ! c"
proof -
  have len: "length (drop_column j (ns[i := ns ! j])) = length ns - 1" using assms(3) by (simp add: drop_column_def)
  have nth: "drop_column j xs ! k = (if k < j then xs ! k else xs ! Suc k)" if "j < length xs" "k < length xs - 1" for xs :: "'a list" and k
    using that by (simp add: drop_column_def nth_append min_def)
  consider "c = j" | "c < j" | "j < c" by linarith
  then show ?thesis
  proof cases
    case 1
    then show ?thesis using assms nth [of "ns[i := ns ! j]" i] len by (simp add: moved_def)
  next
    case 2
    then show ?thesis using assms nth [of "ns[i := ns ! j]" c] len by (simp add: moved_def)
  next
    case 3
    then obtain k where "c = Suc k" "j \<le> k" by (cases c) auto
    then show ?thesis using assms nth [of "ns[i := ns ! j]" k] len by (auto simp: moved_def)
  qed
qed

lemma renamed_distinct:
  assumes "distinct ns" "i < j" "j < length ns"
  shows "distinct (drop_column j (ns[i := ns ! j]))"
proof -
  have "drop_column j (ns[i := ns ! j]) = (take j ns)[i := ns ! j] @ drop (Suc j) ns"
    using assms(2) by (simp add: drop_column_def take_update_swap drop_update_cancel)
  moreover have "ns = take j ns @ ns ! j # drop (Suc j) ns" using assms(3) by (rule id_take_nth_drop)
  then have d: "distinct (take j ns @ ns ! j # drop (Suc j) ns)" using assms(1) by simp
  have "set ((take j ns)[i := ns ! j]) \<subseteq> insert (ns ! j) (set (take j ns))" by (rule set_update_subset_insert)
  moreover have "distinct ((take j ns)[i := ns ! j])" using d by (intro distinct_list_update) (auto dest: in_set_takeD)
  ultimately show ?thesis using d by auto
qed

section \<open>Renaming\<close>

lemma map_drop_column: "map f (drop_column j xs) = drop_column j (map f xs)"
  by (simp add: drop_column_def take_map drop_map)

lemma shift_columns_moved: "shift_columns j i ps = map (\<lambda>p. p\<lparr>p_table_column := moved j i (p_table_column p)\<rparr>) ps"
  by (simp add: shift_columns_def moved_def)

lemma make_optional_names:
  assumes "core_ok C" "t \<in> set (table_names C g)" "p_table_column p < length (columns_of C g t)"
    "col_name (columns_of C g t ! p_table_column p) = p_name p" "make_property_optional C g t p = Some g'"
  shows "map col_name (columns_of C g' t) = map col_name (columns_of C g t)"
proof -
  let ?i = "p_table_column p"
  define p1 where "p1 = p\<lparr>p_type := p_type p OR PT_Nullable\<rparr>"
  obtain g1 where g1: "insert_property_column C g t p1 ?i = Some g1" "g' = remove_column C (copy_property_values C g1 t p1) t (?i + 1)"
    using assms(5) by (auto simp: make_property_optional_def Let_def p1_def split: bind_splits)
  obtain c where c: "stored_column p1 = Some c" "view C g1 = upd_columns t (insert_nth ?i c) (view C g)"
    using insert_property_column_some [OF assms(1,2) less_imp_le [OF assms(3)] g1(1)] by blast
  have n: "col_name c = p_name p" using c(1)
    by (auto simp: stored_column_def p1_def link_column_def table_column_def plain_column_def split: if_splits)
  note v1 = view_columns [OF c(2)]
  have "view C (foldl (\<lambda>g k. copy_value C g t ct a b k) h ks) = view C h" if "t \<in> set (table_names C h)" for ct a b h ks
    using that
  proof (induction ks arbitrary: h)
    case (Cons k ks)
    have e: "view C (copy_value C h t ct a b k) = view C h" by (rule copy_okD [OF assms(1) Cons.prems])
    have "table_names C (copy_value C h t ct a b k) = table_names C h" using arg_cong [OF e, of v_tables] by simp
    then show ?case using Cons.IH [of "copy_value C h t ct a b k"] Cons.prems e by simp
  qed simp
  then have cp: "view C (copy_property_values C g1 t p1) = view C g1" using v1 assms(2) by (simp add: copy_property_values_def)
  have s: "table_names C (copy_property_values C g1 t p1) = table_names C g1" "columns_of C (copy_property_values C g1 t p1) = columns_of C g1"
    using arg_cong [OF cp, of v_tables] arg_cong [OF cp, of v_columns] by simp_all
  have "view C g' = upd_columns t (drop_column (?i + 1)) (view C (copy_property_values C g1 t p1))"
    unfolding g1(2) using s v1 assms(2,3) by (intro column_okD(1) [OF assms(1)]) (simp_all add: insert_nth_def)
  then have "columns_of C g' t = drop_column (?i + 1) (insert_nth ?i c (columns_of C g t))"
    using view_columns s v1 by fastforce
  also have "map col_name \<dots> = map col_name (take ?i (columns_of C g t) @ columns_of C g t ! ?i # drop (Suc ?i) (columns_of C g t))"
    using assms(3,4) n by (simp add: drop_column_def insert_nth_def Suc_diff_le)
  also have "\<dots> = map col_name (columns_of C g t)" using id_take_nth_drop [OF assms(3)] by simp
  finally show ?thesis .
qed

lemma rename_property_columns:
  assumes "core_ok C" "schema_find target ot = Some tos"
    and t: "t = table_name_for_object_type ot" "t \<in> set (table_names C g)"
    and d: "distinct (map col_name (columns_of C g t))"
    and os: "object_schema_from_group False C g ot = Some os"
    and old: "property_for_name os old_name = Some old" and new: "property_for_name os new_name = Some new"
    and lt: "p_table_column old < p_table_column new"
    and cols: "\<forall>p\<in>set (persisted tos). p_table_column p < length (columns_of C g t) \<and> col_name (columns_of C g t ! p_table_column p) = p_name p"
    and r: "rename_property False C g target ot old_name new_name = Inr (g', target')"
  shows "target' = target[length (takeWhile (\<lambda>o1. o1 \<noteq> tos) target) :=
      tos\<lparr>persisted := map (\<lambda>p. p\<lparr>p_table_column := column_index C g' t (p_name p)\<rparr>) (persisted tos)\<rparr>] \<and>
    map col_name (columns_of C g' t) = drop_column (p_table_column new) ((map col_name (columns_of C g t))[p_table_column old := new_name])"
proof -
  let ?cs = "columns_of C g t" and ?i = "p_table_column old" and ?j = "p_table_column new"
  define ns where "ns = map col_name ?cs"
  have i: "?i < length ns" "ns ! ?i = old_name" and j: "?j < length ns" "ns ! ?j = new_name" and names: "p_name old = old_name" "p_name new = new_name"
    using file_property [OF os old] file_property [OF os new] t by (simp_all add: ns_def)
  have ns: "distinct ns" using d by (simp add: ns_def)
  have none: "property_for_name tos old_name = None" using r t assms(2) by (auto simp: rename_property_def table_exists_def Let_def split: if_splits)
  define ren where "ren = rename_column C g t ?i new_name"
  define g1 where "g1 = remove_column C ren t ?j"
  have vr: "view C ren = upd_column t ?i (col_name_update (\<lambda>_. new_name)) (view C g)"
    unfolding ren_def using i by (intro column_okD(2) [OF assms(1) t(2)]) (simp add: ns_def)
  note ren = view_columns [OF vr [unfolded upd_column_def]]
  have v1: "view C g1 = upd_columns t (drop_column ?j) (view C ren)"
    unfolding g1_def using ren t(2) j by (intro column_okD(1) [OF assms(1)]) (simp_all add: ns_def)
  note g1 = view_columns [OF v1]
  have n1: "map col_name (columns_of C g1 t) = drop_column ?j (ns[?i := new_name])" "t \<in> set (table_names C g1)"
    using g1 ren t(2) i by (simp_all add: map_drop_column map_update ns_def)
  have target': "target' = target[length (takeWhile (\<lambda>o1. o1 \<noteq> tos) target) := tos\<lparr>persisted := shift_columns ?j ?i (persisted tos)\<rparr>]"
    and g': "g' = g1 \<or> make_property_optional C g1 t (new\<lparr>p_table_column := ?i\<rparr>) = Some g'"
    using r t assms(2) none os old new
    by (auto simp: rename_property_def table_exists_def Let_def g1_def ren_def asserted_def split: if_splits option.splits)
  have len1: "length (columns_of C g1 t) = length ns - 1"
    using arg_cong [OF n1(1), of length] j(1) by (simp add: drop_column_def)
  have ni: "col_name (columns_of C g1 t ! ?i) = new_name"
    using renamed_nth [OF ns lt j(1), of ?j] lt i j n1(1) len1 nth_map [of ?i "columns_of C g1 t" col_name] by (simp add: moved_def)
  have names': "map col_name (columns_of C g' t) = drop_column ?j (ns[?i := new_name])"
  proof (cases "g' = g1")
    case False
    then have "make_property_optional C g1 t (new\<lparr>p_table_column := ?i\<rparr>) = Some g'" using g' by blast
    then have "map col_name (columns_of C g' t) = map col_name (columns_of C g1 t)"
      using n1(2) len1 lt j ni names by (intro make_optional_names [OF assms(1)]) auto
    then show ?thesis using n1(1) by simp
  qed (use n1 in simp)
  have dist': "distinct (map col_name (columns_of C g' t))" unfolding names' using renamed_distinct [OF ns lt j(1)] j(2) by simp
  have shifted: "moved ?j ?i (p_table_column p) = column_index C g' t (p_name p)" if p: "p \<in> set (persisted tos)" for p
  proof -
    let ?c = "p_table_column p"
    have c: "?c < length ns" "ns ! ?c = p_name p" using cols p by (simp_all add: ns_def)
    have "p_name p \<noteq> old_name" using none p unfolding property_for_name_None by auto
    then have "?c \<noteq> ?i" using c(2) i(2) by auto
    then have m: "moved ?j ?i ?c < length (map col_name (columns_of C g' t)) \<and> map col_name (columns_of C g' t) ! moved ?j ?i ?c = p_name p"
      unfolding names' using renamed_nth [OF ns lt j(1) c(1)] c(2) j(2) by simp
    then have "column_index C g' t (p_name p) = moved ?j ?i ?c" by (intro column_index_nth [OF dist']) auto
    then show ?thesis by simp
  qed
  have "shift_columns ?j ?i (persisted tos) = map (\<lambda>p. p\<lparr>p_table_column := column_index C g' t (p_name p)\<rparr>) (persisted tos)"
    unfolding shift_columns_moved using shifted by simp
  then show ?thesis using target' names' by (simp add: ns_def)
qed

end
