(* ===== verification/Store_Props.thy ===== *)
theory Store_Props
  imports Store_Rename Schema_Props
begin

text \<open>The properties of the operations on a file, with the inputs at which they are applied.\<close>

section \<open>Sample files\<close>

definition empty_view :: file_view where
  "empty_view = \<lparr>v_tables = [], v_columns = (\<lambda>_. []), v_keys = [], v_version = 0\<rparr>"

definition int_column :: "string \<Rightarrow> column" where
  "int_column n = plain_column n T_Int False"

text \<open>A file with one class \<open>A\<close> of two integer columns.\<close>

definition sample_view :: "string \<Rightarrow> string \<Rightarrow> file_view" where
  "sample_view m n = \<lparr>v_tables = [''pk'', ''metadata'', ''class_A''],
     v_columns = (\<lambda>t. if t = ''class_A'' then [int_column m, int_column n]
       else if t = ''pk'' then [plain_column ''pk_table'' T_String False, plain_column ''pk_property'' T_String False]
       else if t = ''metadata'' then [int_column ''version''] else []),
     v_keys = [], v_version = 3\<rparr>"

definition sample_property :: "string \<Rightarrow> size_t \<Rightarrow> property" where
  "sample_property n i = (make_property n PT_Int False False [])\<lparr>p_table_column := i\<rparr>"

definition sample_class :: "property list \<Rightarrow> object_schema" where
  "sample_class ps = \<lparr>os_name = ''A'', persisted = ps, computed = [], primary_key = []\<rparr>"

lemma sample_tables [simp]: "v_tables (sample_view m n) = [''pk'', ''metadata'', ''class_A'']" "v_keys (sample_view m n) = []"
  "v_columns (sample_view m n) ''class_A'' = [int_column m, int_column n]"
  by (simp_all add: sample_view_def)

lemma sample_property_sel [simp]: "p_name (sample_property n i) = n" "p_type (sample_property n i) = PT_Int"
  "p_table_column (sample_property n i) = i" "p_object_type (sample_property n i) = []"
  by (simp_all add: sample_property_def make_property_def property_init_def)

lemma sample_class_sel: "os_name (sample_class ps) = ''A''" "persisted (sample_class ps) = ps"
    "(sample_class ps)\<lparr>persisted := qs\<rparr> = sample_class qs"
  by (simp_all add: sample_class_def)

lemma table_name_A [simp]: "table_name_for_object_type ''A'' = ''class_A''"
  by (simp add: table_name_for_object_type_def)

lemma int_column_sel [simp]: "col_name (int_column n) = n" "col_type (int_column n) = Core_Column T_Int False None"
  by (simp_all add: int_column_def plain_column_def)

lemma sample_read: "object_schema_from_group False view_core (sample_view m n) ''A'' = Some (sample_class [sample_property m 0, sample_property n (Suc 0)])"
  by (simp add: object_schema_from_group_def property_for_column_def get_primary_key_for_object_def table_exists_def find_pk_def same_type_def base_type_def
      PT_Flags_def set_primary_key_property_def sample_class_def sample_property_def make_property_def property_init_def)
   (simp add: int_column_def plain_column_def)

lemma sample_class_names: "property_for_name (sample_class [sample_property m 0, sample_property n (Suc 0)]) m = Some (sample_property m 0)"
  "m \<noteq> n \<Longrightarrow> property_for_name (sample_class [sample_property m 0, sample_property n (Suc 0)]) n = Some (sample_property n (Suc 0))"
  "m \<noteq> n \<Longrightarrow> property_for_name (sample_class [sample_property n i]) m = None"
  by (simp_all add: property_for_name_def sample_class_def)

lemma core_types [simp]: "same_type PT_Int PT_Int" "\<not> same_type PT_Int PT_Object" "\<not> same_type PT_Int PT_LinkingObjects"
  "\<not> is_array PT_Int" "\<not> is_nullable PT_Int"
  by (simp_all add: same_type_def base_type_def PT_Flags_def is_array_def is_nullable_def)

section \<open>Metadata, keys and columns\<close>

text \<open>The schema version that is set is the one read afterwards, whatever was in the file, and no other table is touched.\<close>

theorem schema_version_roundtrip:
  assumes "core_ok C"
  shows "get_schema_version C (set_schema_version C g v) = v \<and>
    (\<forall>t. t \<notin> {''pk'', ''metadata''} \<longrightarrow> columns_of C (set_schema_version C g v) t = columns_of C g t) \<and>
    pk_rows C (set_schema_version C g v) = pk_rows C g"
proof -
  let ?g = "create_metadata_tables C g"
  obtain cs ks where v: "view C ?g =
     (with_new_table ''metadata'' (with_new_table ''pk'' (view C g)))
       \<lparr>v_columns := (v_columns (with_new_table ''metadata'' (with_new_table ''pk'' (view C g))))(''metadata'' := cs, ''pk'' := ks),
        v_version := (if ''metadata'' \<in> set (table_names C g) \<and> columns_of C g ''metadata'' \<noteq> [] then version_cell C g else NotVersioned)\<rparr>"
    and cs: "cs \<noteq> []" using create_metadata_view [OF assms, of g] by blast
  have "''metadata'' \<in> set (table_names C ?g)" using arg_cong [OF v, of v_tables] by (auto simp: with_new_table_def)
  moreover have "columns_of C ?g ''metadata'' = cs" using arg_cong [OF v, of v_columns] by simp
  ultimately show ?thesis
    using view_version [OF keys_okD(4) [OF assms, of ?g v]] create_metadata_columns [OF assms, of g] cs
    by (simp add: set_schema_version_def get_schema_version_def table_exists_def)
qed

theorem schema_version_roundtrip_witness: "get_schema_version view_core (set_schema_version view_core empty_view 7) = 7"
  using schema_version_roundtrip [OF core_ok_view_core, of empty_view 7] by simp



text \<open>C20: A property whose type a file can hold, a scalar or an array of them, nullable or not, or a link, is read back from the
  column made for it with its name, its type, flags included, its object type and its index.\<close>

theorem property_roundtrip:
  assumes "core_ok C" "t \<in> set (table_names C g)" "storable p" "p_name p \<noteq> ''!OID'' \<or> \<not> sync"
    "same_type (p_type p) PT_Object \<longrightarrow> table_name_for_object_type (p_object_type p) \<in> set (table_names C g)"
  shows "\<exists>g' c. add_column C g t p = Some g' \<and> columns_of C g' t = columns_of C g t @ [c] \<and>
    property_for_column sync c (length (columns_of C g t)) = Some (Some (read_back p (length (columns_of C g t))))"
proof -
  obtain c where c: "stored_column p = Some c"
    "property_for_column sync c (length (columns_of C g t)) = Some (Some (read_back p (length (columns_of C g t))))"
    using stored_column_read [OF assms(3,4)] by blast
  obtain g' where g': "insert_property_column C g t p (length (columns_of C g t)) = Some g'"
    "view C g' = upd_columns t (insert_nth (length (columns_of C g t)) c) (view C g)"
    using insert_property_column_view [OF assms(1,2) order.refl c(1)] assms(5) by blast
  show ?thesis using g'(1) view_columns [OF g'(2)] c(2)
    by (intro exI [of _ g'] exI [of _ c]) (simp add: add_column_def insert_nth_def)
qed

theorem property_roundtrip_witness:
  "\<exists>g' c. add_column view_core (sample_view ''x'' ''y'') ''class_A'' (make_property ''z'' (PT_Date OR PT_Nullable OR PT_Array) False False []) = Some g' \<and>
     property_for_column True c 2 = Some (Some (read_back (make_property ''z'' (PT_Date OR PT_Nullable OR PT_Array) False False []) 2))"
proof -
  let ?p = "make_property ''z'' (PT_Date OR PT_Nullable OR PT_Array) False False []"
  have p: "storable ?p" "p_name ?p \<noteq> ''!OID'' \<or> \<not> True" "\<not> same_type (p_type ?p) PT_Object"
    by (simp_all add: storable_def make_property_def property_init_def same_type_def base_type_def PT_Flags_def requires_index_def)
  have "length (columns_of view_core (sample_view ''x'' ''y'') ''class_A'') = 2" by simp
  then show ?thesis
    using property_roundtrip [OF core_ok_view_core, of "''class_A''" "sample_view ''x'' ''y''" ?p True] p by (auto simp: numeral_2_eq_2)
qed

section \<open>Updating a file\<close>


lemma sample_public: "public_names sample_dog = []" "public_names sample_person = []"
  by (simp_all add: public_names_def sample_dog_def sample_person_def make_object_schema_def make_property_def make_link_property_def property_init_def)

lemma sample_creatable: "creatable [sample_dog, sample_person]"
  by (simp add: creatable_def valid_schema_def valid_object_def Let_def sample_public)
    (simp add: valid_property_def valid_link_def property_for_name_def
      sample_dog_def sample_person_def make_object_schema_def make_property_def make_link_property_def property_init_def
      same_type_def base_type_def PT_Flags_def is_array_def is_nullable_def type_is_nullable_def type_is_indexable_def storable_def requires_index_def)



lemma sample_schema: "schema_from_group False view_core (sample_view m n) = Some [sample_class [sample_property m 0, sample_property n (Suc 0)]]"
proof -
  have "map object_type_for_table_name [''pk'', ''metadata'', ''class_A''] = [[], [], ''A'']"
    by (simp add: object_type_for_table_name_def)
  then show ?thesis by (simp add: schema_from_group_def sample_read make_schema_def)
qed

lemma sample_compare: "schema_compare [sample_class [sample_property ''x'' 0, sample_property ''y'' (Suc 0)]]
    [sample_class [sample_property ''y'' 0, sample_property ''z'' (Suc 0)]] False =
  [AddProperty (sample_class [sample_property ''x'' 0, sample_property ''y'' (Suc 0)]) (sample_property ''z'' (Suc 0)),
   RemoveProperty (sample_class [sample_property ''x'' 0, sample_property ''y'' (Suc 0)]) (sample_property ''x'' 0)]"
  by (simp add: schema_compare_def table_change_def column_change_def compare_objects_def compare_property_def
      property_is_computed_def requires_index_def sample_class_def property_for_name_def)
    (simp add: sample_property_def make_property_def property_init_def)

lemma sample_metadata: "v_tables (create_metadata_tables view_core (sample_view m n)) = [''pk'', ''metadata'', ''class_A'']"
  "v_columns (create_metadata_tables view_core (sample_view m n)) ''class_A'' = [int_column m, int_column n]"
  by (simp_all add: create_metadata_tables_def Let_def with_new_table_def upd_column_def upd_columns_def sample_view_def)


section \<open>Renaming\<close>




end
