(* ===== verification/Sync_File.thy ===== *)
theory Sync_File
  imports Prelude "HOL-Library.Word" "HOL-Library.Char_ord"
begin

text \<open>
  The names and paths of synchronised files: \<open>sync/impl/sync_file.cpp\<close>.  Strings are lists of bytes.  The file system,
  which is code of the utility library of the database core and of the operating system, is a parameter: a state \<open>'fs\<close>
  and the calls the code makes on it.  An operation on it is a function of the state that returns the new state together
  with a value or the reason it did not return one.
\<close>

section \<open>Failures and operations\<close>

datatype fs_error = Not_Found | Access_Error | Other_Error

text \<open>
  \<open>Invalid_Argument\<close> and \<open>File_Failure\<close> are the exceptions; \<open>Assertion\<close> is a failed assertion and \<open>Out_Of_Range\<close> is a
  read before the start of an empty string.
\<close>

datatype failure = Invalid_Argument string | File_Failure fs_error | Assertion | Out_Of_Range

type_synonym 'a result = "failure + 'a"
type_synonym ('fs, 'a) fs_op = "'fs \<Rightarrow> 'fs \<times> 'a result"

definition ret :: "'a \<Rightarrow> ('fs, 'a) fs_op" where
  "ret x = (\<lambda>w. (w, Inr x))"

definition lift_result :: "'a result \<Rightarrow> ('fs, 'a) fs_op" where
  "lift_result r = (\<lambda>w. (w, r))"

definition raise :: "failure \<Rightarrow> ('fs, 'a) fs_op" where
  "raise e = lift_result (Inl e)"

definition and_then :: "('fs, 'a) fs_op \<Rightarrow> ('a \<Rightarrow> ('fs, 'b) fs_op) \<Rightarrow> ('fs, 'b) fs_op" where
  "and_then m k = (\<lambda>w. case m w of (w', Inl e) \<Rightarrow> (w', Inl e) | (w', Inr x) \<Rightarrow> k x w')"

definition catch_file :: "fs_error set \<Rightarrow> ('fs, 'a) fs_op \<Rightarrow> ('fs, 'a) fs_op \<Rightarrow> ('fs, 'a) fs_op" where
  "catch_file es m h =
     (\<lambda>w. case m w of (w', Inl (File_Failure e)) \<Rightarrow> if e \<in> es then h w' else (w', Inl (File_Failure e)) | r \<Rightarrow> r)"

definition require :: "bool \<Rightarrow> failure \<Rightarrow> ('fs, unit) fs_op" where
  "require b e = (if b then ret () else raise e)"

record 'fs file_system =
  fs_make_dir :: "string \<Rightarrow> ('fs, unit) fs_op"
  fs_remove_dir :: "string \<Rightarrow> ('fs, unit) fs_op"
  fs_try_remove :: "string \<Rightarrow> ('fs, bool) fs_op"
  fs_exists :: "string \<Rightarrow> ('fs, bool) fs_op"
  fs_copy :: "string \<Rightarrow> string \<Rightarrow> ('fs, unit) fs_op"
  fs_move :: "string \<Rightarrow> string \<Rightarrow> ('fs, unit) fs_op"
  fs_mkstemp :: "string \<Rightarrow> ('fs, string) fs_op"
  fs_unlink :: "string \<Rightarrow> ('fs, unit) fs_op"

section \<open>Percent encoding\<close>

definition value_of_hex_digit :: "char \<Rightarrow> 8 word result" where
  "value_of_hex_digit d =
     (if CHR ''0'' \<le> d \<and> d \<le> CHR ''9'' then Inr (of_char d - of_char CHR ''0'')
      else if CHR ''A'' \<le> d \<and> d \<le> CHR ''F'' then Inr (10 + of_char d - of_char CHR ''A'')
      else if CHR ''a'' \<le> d \<and> d \<le> CHR ''f'' then Inr (10 + of_char d - of_char CHR ''a'')
      else Inl (Invalid_Argument ''Cannot get the value of a character that isn't a hex digit.''))"

definition filename_is_reserved :: "string \<Rightarrow> bool" where
  "filename_is_reserved filename \<longleftrightarrow> filename = ''.'' \<or> filename = ''..''"

definition character_is_unreserved :: "char \<Rightarrow> bool" where
  "character_is_unreserved character =
     (let is_capital_letter = (CHR ''A'' \<le> character \<and> character \<le> CHR ''Z'');
          is_lowercase_letter = (CHR ''a'' \<le> character \<and> character \<le> CHR ''z'');
          is_number = (CHR ''0'' \<le> character \<and> character \<le> CHR ''9'');
          is_allowed_symbol = (character = CHR ''-'' \<or> character = CHR ''_'' \<or> character = CHR ''.'')
      in is_capital_letter \<or> is_lowercase_letter \<or> is_number \<or> is_allowed_symbol)"

definition decoded_char_for :: "string \<Rightarrow> nat \<Rightarrow> char result" where
  "decoded_char_for s i =
     (if length s \<le> i + 2
      then Inl (Invalid_Argument ''Malformed string: not enough characters after '%' before end of string.'')
      else if s ! i \<noteq> CHR ''%'' then Inl Assertion
      else case value_of_hex_digit (s ! (i + 1)) of
          Inl e \<Rightarrow> Inl e
        | Inr hi \<Rightarrow> (case value_of_hex_digit (s ! (i + 2)) of
              Inl e \<Rightarrow> Inl e
            | Inr lo \<Rightarrow> Inr (char_of (16 * unat hi + unat lo))))"

text \<open>
  The conversion \<open>%2X\<close> of \<open>sprintf\<close>: upper case hexadecimal digits without leading zeros, padded on the left with spaces
  to a width of two.
\<close>

definition upper_hex_digit :: "nat \<Rightarrow> char" where
  "upper_hex_digit n = char_of (if n < 10 then 48 + n else 55 + n)"

definition sprintf_2X :: "nat \<Rightarrow> string" where
  "sprintf_2X n = (if n < 16 then [CHR '' '', upper_hex_digit n] else [upper_hex_digit (n div 16), upper_hex_digit (n mod 16)])"

definition make_percent_encoded_string :: "string \<Rightarrow> string" where
  "make_percent_encoded_string raw =
     foldl (\<lambda>buffer c. if character_is_unreserved c then buffer @ [c] else buffer @ CHR ''%'' # sprintf_2X (of_char c)) [] raw"

function raw_string_from :: "string \<Rightarrow> nat \<Rightarrow> string \<Rightarrow> string result" where
  "raw_string_from s i buffer =
     (if length s \<le> i then Inr buffer
      else if s ! i = CHR ''%''
      then (case decoded_char_for s i of Inl e \<Rightarrow> Inl e | Inr c \<Rightarrow> raw_string_from s (i + 3) (buffer @ [c]))
      else if \<not> character_is_unreserved (s ! i)
      then Inl (Invalid_Argument ''Input string is invalid: contains reserved characters.'')
      else raw_string_from s (i + 1) (buffer @ [s ! i]))"
  by pat_completeness auto
termination by (relation "measure (\<lambda>(s, i, _). length s - i)") auto

declare raw_string_from.simps [simp del]

definition make_raw_string :: "string \<Rightarrow> string result" where
  "make_raw_string s = raw_string_from s 0 []"

section \<open>Paths\<close>

datatype file_path_type = Path_File | Path_Directory

definition last_char :: "string \<Rightarrow> char result" where
  "last_char s = (if s = [] then Inl Out_Of_Range else Inr (last s))"

text \<open>The first character of an empty string is the terminating zero.\<close>

definition first_char :: "string \<Rightarrow> char" where
  "first_char s = (case s of [] \<Rightarrow> CHR 0x00 | c # _ \<Rightarrow> c)"

definition terminal_for :: "string \<Rightarrow> file_path_type \<Rightarrow> string result" where
  "terminal_for component t =
     (if t = Path_Directory
      then (case last_char component of Inl e \<Rightarrow> Inl e | Inr c \<Rightarrow> Inr (if c \<noteq> CHR ''/'' then ''/'' else ''''))
      else Inr '''')"

definition file_path_by_appending_component :: "string \<Rightarrow> string \<Rightarrow> file_path_type \<Rightarrow> string result" where
  "file_path_by_appending_component path component t =
     (case terminal_for component t of
        Inl e \<Rightarrow> Inl e
      | Inr terminal \<Rightarrow> (case last_char path of
            Inl e \<Rightarrow> Inl e
          | Inr path_last \<Rightarrow>
              (if path_last = CHR ''/'' \<and> first_char component = CHR ''/'' then Inr (path @ drop 1 component @ terminal)
               else if path_last = CHR ''/'' \<or> first_char component = CHR ''/'' then Inr (path @ component @ terminal)
               else Inr (path @ ''/'' @ component @ terminal))))"

definition file_path_by_appending_extension :: "string \<Rightarrow> string \<Rightarrow> string result" where
  "file_path_by_appending_extension path extension =
     (case last_char path of
        Inl e \<Rightarrow> Inl e
      | Inr path_last \<Rightarrow>
          (if path_last = CHR ''.'' \<and> first_char extension = CHR ''.'' then Inr (path @ drop 1 extension)
           else if path_last = CHR ''.'' \<or> first_char extension = CHR ''.'' then Inr (path @ extension)
           else Inr (path @ ''.'' @ extension)))"

text \<open>The local time, formatted as \<open>%Y%m%d-%H%M%S\<close> by a function of the utilities, is an argument.\<close>

definition create_timestamped_template :: "string \<Rightarrow> string \<Rightarrow> int \<Rightarrow> string" where
  "create_timestamped_template prefix local_time wildcard_count =
     prefix @ ''-'' @ local_time @ ''-'' @ replicate (nat (min 20 (max 6 wildcard_count))) (CHR ''X'')"

fun contains_string :: "string \<Rightarrow> string \<Rightarrow> bool" where
  "contains_string pat [] = (pat = [])"
| "contains_string pat (c # cs) = (take (length pat) (c # cs) = pat \<or> contains_string pat cs)"

definition reserve_unique_file_name :: "'fs file_system \<Rightarrow> string \<Rightarrow> string \<Rightarrow> ('fs, string) fs_op" where
  "reserve_unique_file_name F path template_string =
     and_then (require (contains_string ''XXXXXX'' template_string) Assertion) (\<lambda>_.
     and_then (lift_result (file_path_by_appending_component path template_string Path_File)) (\<lambda>path_buffer.
     and_then (fs_mkstemp F path_buffer) (\<lambda>name.
     and_then (fs_unlink F name) (\<lambda>_. ret name))))"

section \<open>The file manager\<close>

definition c_sync_directory :: string where "c_sync_directory = ''realm-object-server''"
definition c_utility_directory :: string where "c_utility_directory = ''io.realm.object-server-utility''"
definition c_recovery_directory :: string where "c_recovery_directory = ''io.realm.object-server-recovered-realms''"
definition c_metadata_directory :: string where "c_metadata_directory = ''metadata''"
definition c_metadata_realm :: string where "c_metadata_realm = ''sync_metadata.realm''"

text \<open>Append a directory and create it when it does not exist.\<close>

definition made_directory :: "'fs file_system \<Rightarrow> string \<Rightarrow> string \<Rightarrow> ('fs, string) fs_op" where
  "made_directory F path name =
     and_then (lift_result (file_path_by_appending_component path name Path_Directory))
       (\<lambda>dir. and_then (fs_make_dir F dir) (\<lambda>_. ret dir))"

definition get_base_sync_directory :: "'fs file_system \<Rightarrow> string \<Rightarrow> ('fs, string) fs_op" where
  "get_base_sync_directory F base = made_directory F base c_sync_directory"

definition get_special_directory :: "'fs file_system \<Rightarrow> string \<Rightarrow> string \<Rightarrow> ('fs, string) fs_op" where
  "get_special_directory F base name = and_then (get_base_sync_directory F base) (\<lambda>dir. made_directory F dir name)"

definition get_utility_directory :: "'fs file_system \<Rightarrow> string \<Rightarrow> ('fs, string) fs_op" where
  "get_utility_directory F base = get_special_directory F base c_utility_directory"

definition recovery_directory_path :: "'fs file_system \<Rightarrow> string \<Rightarrow> string option \<Rightarrow> ('fs, string) fs_op" where
  "recovery_directory_path F base directory =
     get_special_directory F base (case directory of None \<Rightarrow> c_recovery_directory | Some d \<Rightarrow> d)"

definition user_directory :: "'fs file_system \<Rightarrow> string \<Rightarrow> string \<Rightarrow> ('fs, string) fs_op" where
  "user_directory F base local_identity =
     and_then (require (local_identity \<noteq> []) Assertion) (\<lambda>_.
       let escaped = make_percent_encoded_string local_identity
       in and_then (require (\<not> filename_is_reserved escaped)
                      (Invalid_Argument ''A user can't have an identifier reserved by the filesystem.'')) (\<lambda>_.
          and_then (get_base_sync_directory F base) (\<lambda>dir. made_directory F dir escaped)))"

definition remove_user_directory :: "'fs file_system \<Rightarrow> string \<Rightarrow> string \<Rightarrow> ('fs, unit) fs_op" where
  "remove_user_directory F base local_identity =
     and_then (require (local_identity \<noteq> []) Assertion) (\<lambda>_.
       let escaped = make_percent_encoded_string local_identity
       in and_then (require (\<not> filename_is_reserved escaped)
                      (Invalid_Argument ''A user can't have an identifier reserved by the filesystem.'')) (\<lambda>_.
          and_then (get_base_sync_directory F base) (\<lambda>dir.
          and_then (lift_result (file_path_by_appending_component dir escaped Path_Directory)) (fs_remove_dir F))))"

definition try_rename_user_directory :: "'fs file_system \<Rightarrow> string \<Rightarrow> string \<Rightarrow> string \<Rightarrow> ('fs, bool) fs_op" where
  "try_rename_user_directory F base old_name new_name =
     (let old_escaped = make_percent_encoded_string old_name;
          new_escaped = make_percent_encoded_string new_name
      in and_then (get_base_sync_directory F base) (\<lambda>dir.
         and_then (require (\<not> (filename_is_reserved old_escaped \<or> filename_is_reserved new_escaped))
                     (Invalid_Argument ''A user directory can't be renamed using a reserved identifier.'')) (\<lambda>_.
         and_then (lift_result (file_path_by_appending_component dir old_escaped Path_Directory)) (\<lambda>old_path.
         and_then (lift_result (file_path_by_appending_component dir new_escaped Path_Directory)) (\<lambda>new_path.
         catch_file {Not_Found} (and_then (fs_move F old_path new_path) (\<lambda>_. ret True)) (ret False))))))"

definition remove_realm :: "'fs file_system \<Rightarrow> string \<Rightarrow> ('fs, bool) fs_op" where
  "remove_realm F absolute_path =
     and_then (require (absolute_path \<noteq> []) Assertion) (\<lambda>_.
     and_then (fs_try_remove F absolute_path) (\<lambda>_.
     and_then (lift_result (file_path_by_appending_extension absolute_path ''lock'')) (\<lambda>lock_path.
     and_then (fs_try_remove F lock_path) (\<lambda>success.
     and_then (lift_result (file_path_by_appending_extension absolute_path ''management'')) (\<lambda>management_path.
     catch_file {Access_Error} (and_then (fs_remove_dir F management_path) (\<lambda>_. ret success)) (ret False))))))"

definition copy_realm_file :: "'fs file_system \<Rightarrow> string \<Rightarrow> string \<Rightarrow> ('fs, bool) fs_op" where
  "copy_realm_file F old_path new_path =
     and_then (require (old_path \<noteq> []) Assertion) (\<lambda>_.
     catch_file {Not_Found, Access_Error}
       (and_then (fs_exists F new_path) (\<lambda>exists.
          if exists then ret False else and_then (fs_copy F old_path new_path) (\<lambda>_. ret True)))
       (ret False))"

definition realm_path :: "'fs file_system \<Rightarrow> string \<Rightarrow> string \<Rightarrow> string \<Rightarrow> ('fs, string) fs_op" where
  "realm_path F base local_identity raw_realm_path =
     and_then (require (local_identity \<noteq> []) Assertion) (\<lambda>_.
     and_then (require (raw_realm_path \<noteq> []) Assertion) (\<lambda>_.
     and_then (require (\<not> (filename_is_reserved local_identity \<or> filename_is_reserved raw_realm_path))
                 (Invalid_Argument ''A user or Realm can't have an identifier reserved by the filesystem.'')) (\<lambda>_.
     let escaped = make_percent_encoded_string raw_realm_path
     in and_then (user_directory F base local_identity) (\<lambda>dir.
        lift_result (file_path_by_appending_component dir escaped Path_File)))))"

definition remove_user_realm :: "'fs file_system \<Rightarrow> string \<Rightarrow> string \<Rightarrow> string \<Rightarrow> ('fs, bool) fs_op" where
  "remove_user_realm F base local_identity raw_realm_path =
     and_then (realm_path F base local_identity raw_realm_path) (remove_realm F)"

definition metadata_path :: "'fs file_system \<Rightarrow> string \<Rightarrow> ('fs, string) fs_op" where
  "metadata_path F base =
     and_then (get_utility_directory F base) (\<lambda>dir.
     and_then (made_directory F dir c_metadata_directory) (\<lambda>dir_path.
     lift_result (file_path_by_appending_component dir_path c_metadata_realm Path_File)))"

definition remove_metadata_realm :: "'fs file_system \<Rightarrow> string \<Rightarrow> ('fs, bool) fs_op" where
  "remove_metadata_realm F base =
     and_then (get_utility_directory F base) (\<lambda>dir.
     and_then (lift_result (file_path_by_appending_component dir c_metadata_directory Path_Directory)) (\<lambda>dir_path.
     catch_file {Access_Error} (and_then (fs_remove_dir F dir_path) (\<lambda>_. ret True)) (ret False)))"

end
