(* ===== verification/Sync_File_Laws.thy ===== *)
theory Sync_File_Laws
  imports Sync_File
begin

text \<open>
  Facts on percent encoding and on paths: what the conversion of one byte can produce, how the decoder reads it back, and
  what the operations of the file manager return once the file system has done its part.
\<close>

section \<open>Operations\<close>

lemma ret_apply [simp]: "ret x w = (w, Inr x)"
  by (simp add: ret_def)

lemma lift_result_apply [simp]: "lift_result r w = (w, r)"
  by (simp add: lift_result_def)

lemma raise_apply [simp]: "raise e w = (w, Inl e)"
  by (simp add: raise_def)

lemma require_apply [simp]: "require b e w = (w, if b then Inr () else Inl e)"
  by (simp add: require_def)

lemma and_then_apply: "and_then m k w = (case m w of (w', Inl e) \<Rightarrow> (w', Inl e) | (w', Inr x) \<Rightarrow> k x w')"
  by (simp add: and_then_def)

lemma and_then_Inr_iff: "and_then m k w = (w', Inr y) \<longleftrightarrow> (\<exists>w1 x. m w = (w1, Inr x) \<and> k x w1 = (w', Inr y))"
proof (cases "m w")
  case (Pair w1 r)
  then show ?thesis by (cases r) (auto simp: and_then_def)
qed

section \<open>Hexadecimal digits\<close>

lemma digit_range: "n < 16 \<Longrightarrow> n \<in> {..<16 :: nat}"
  by simp

lemma upper_hex_digit_unreserved: "n < 16 \<Longrightarrow> character_is_unreserved (upper_hex_digit n)"
  by (drule digit_range, simp only: lessThan_nat_numeral pred_numeral_simps arith_simps lessThan_0 insert_iff empty_iff simp_thms,
      elim disjE; simp add: character_is_unreserved_def upper_hex_digit_def char_of_def less_eq_char_def bit_Suc_0_iff)

lemma value_of_upper_hex_digit: "n < 16 \<Longrightarrow> value_of_hex_digit (upper_hex_digit n) = Inr (of_nat n)"
  by (drule digit_range, simp only: lessThan_nat_numeral pred_numeral_simps arith_simps lessThan_0 insert_iff empty_iff simp_thms,
      elim disjE; simp add: value_of_hex_digit_def upper_hex_digit_def char_of_def less_eq_char_def bit_Suc_0_iff)

lemma value_of_hex_digit_space [simp]:
  "value_of_hex_digit (CHR '' '') = Inl (Invalid_Argument ''Cannot get the value of a character that isn't a hex digit.'')"
  by (simp add: value_of_hex_digit_def less_eq_char_def)

lemma unreserved_symbols [simp]: "\<not> character_is_unreserved (CHR ''%'')" "\<not> character_is_unreserved (CHR ''/'')"
    "\<not> character_is_unreserved (CHR '' '')"
  by (simp_all add: character_is_unreserved_def less_eq_char_def)

lemma unreserved_ge_16: "character_is_unreserved c \<Longrightarrow> 16 \<le> (of_char c :: nat)"
  by (auto simp: character_is_unreserved_def less_eq_char_def)

lemma char_of_hex_digits:
  assumes "n < 256"
  shows "char_of (16 * unat (of_nat (n div 16) :: 8 word) + unat (of_nat (n mod 16) :: 8 word)) = (char_of n :: char)"
proof -
  have "unat (of_nat (n div 16) :: 8 word) = n div 16" "unat (of_nat (n mod 16) :: 8 word) = n mod 16"
    using assms by (auto simp: unat_of_nat take_bit_nat_eq_self intro!: take_bit_nat_eq_self)
  then show ?thesis by (simp only: mult_div_mod_eq)
qed

lemma of_char_less_256: "(of_char c :: nat) < 256"
  using nat_of_char_less_256 [of c] by simp

section \<open>The encoder\<close>

definition encoded_byte :: "char \<Rightarrow> string" where
  "encoded_byte c = (if character_is_unreserved c then [c] else CHR ''%'' # sprintf_2X (of_char c))"

lemma make_percent_encoded_string_concat: "make_percent_encoded_string s = concat (map encoded_byte s)"
proof -
  have "foldl (\<lambda>buffer c. if character_is_unreserved c then buffer @ [c] else buffer @ CHR ''%'' # sprintf_2X (of_char c)) b s =
      b @ concat (map encoded_byte s)" for b
    by (induction s arbitrary: b) (simp_all add: encoded_byte_def)
  then show ?thesis by (simp add: make_percent_encoded_string_def)
qed

lemma make_percent_encoded_simps [simp]:
  "make_percent_encoded_string [] = []"
  "make_percent_encoded_string (c # s) = encoded_byte c @ make_percent_encoded_string s"
  by (simp_all add: make_percent_encoded_string_concat)

lemma sprintf_2X_length [simp]: "length (sprintf_2X n) = 2"
  by (simp add: sprintf_2X_def)

lemma make_percent_encoded_Nil_iff [simp]: "make_percent_encoded_string s = [] \<longleftrightarrow> s = []"
  by (cases s) (auto simp: encoded_byte_def)

lemma sprintf_2X_chars:
  assumes "n < 256" "d \<in> set (sprintf_2X n)"
  shows "character_is_unreserved d \<or> d = CHR '' ''"
proof -
  have "n div 16 < 16" "n mod 16 < 16" using assms(1) by auto
  with assms(2) show ?thesis
    by (auto simp: sprintf_2X_def intro: upper_hex_digit_unreserved split: if_splits)
qed

lemma encoded_string_chars:
  "d \<in> set (make_percent_encoded_string s) \<Longrightarrow> character_is_unreserved d \<or> d = CHR ''%'' \<or> d = CHR '' ''"
proof (induction s)
  case (Cons c s)
  then show ?case using sprintf_2X_chars [OF of_char_less_256 [of c], of d]
    by (auto simp: encoded_byte_def split: if_splits)
qed simp

lemma encoded_string_no_slash: "CHR ''/'' \<notin> set (make_percent_encoded_string s)"
  using encoded_string_chars [of "CHR ''/''" s] by auto

subsection \<open>Distinct names have distinct encodings\<close>

lemma upper_hex_digit_inj:
  assumes "m < 16" "n < 16" "upper_hex_digit m = upper_hex_digit n"
  shows "m = n"
proof -
  have "(of_nat m :: 8 word) = of_nat n"
    using value_of_upper_hex_digit [OF assms(1)] value_of_upper_hex_digit [OF assms(2)] unfolding assms(3) by simp
  then have "unat (of_nat m :: 8 word) = unat (of_nat n :: 8 word)" by (rule arg_cong)
  with assms(1,2) show ?thesis by (simp add: unat_of_nat take_bit_nat_eq_self)
qed

lemma upper_hex_digit_not_space [simp]:
  assumes "n < 16"
  shows "upper_hex_digit n \<noteq> CHR '' ''" "CHR '' '' \<noteq> upper_hex_digit n"
proof -
  show "upper_hex_digit n \<noteq> CHR '' ''"
    by (rule notI) (use upper_hex_digit_unreserved [OF assms] in simp)
  then show "CHR '' '' \<noteq> upper_hex_digit n" by (rule not_sym)
qed

lemma sprintf_2X_inj:
  assumes "m < 256" "n < 256" "sprintf_2X m = sprintf_2X n"
  shows "m = n"
proof -
  have d: "m div 16 < 16" "m mod 16 < 16" "n div 16 < 16" "n mod 16 < 16" using assms by auto
  have "m div 16 = n div 16 \<and> m mod 16 = n mod 16" if "16 \<le> m" "16 \<le> n"
    using assms(3) that upper_hex_digit_inj [OF d(1,3)] upper_hex_digit_inj [OF d(2,4)] by (simp add: sprintf_2X_def)
  moreover have "m = n" if "m < 16" "n < 16"
    using assms(3) that by (auto simp: sprintf_2X_def dest: upper_hex_digit_inj)
  moreover have "m < 16 \<longleftrightarrow> n < 16"
    using assms(3) d by (auto simp: sprintf_2X_def split: if_splits)
  ultimately show ?thesis by (metis mult_div_mod_eq not_le)
qed

lemma encoded_byte_prefix_free:
  assumes "encoded_byte c @ s = encoded_byte d @ t"
  shows "c = d \<and> s = t"
proof (cases "character_is_unreserved c \<or> character_is_unreserved d")
  case True
  then show ?thesis using assms by (auto simp: encoded_byte_def split: if_splits)
next
  case False
  then have "sprintf_2X (of_char c) @ s = sprintf_2X (of_char d) @ t" using assms by (simp add: encoded_byte_def)
  then have eq: "sprintf_2X (of_char c) = sprintf_2X (of_char d)" "s = t" by (simp_all add: append_eq_append_conv)
  then have "(of_char c :: nat) = of_char d" by (intro sprintf_2X_inj of_char_less_256)
  with eq(2) show ?thesis by (simp add: of_char_eq_iff)
qed

lemma encoded_inj: "make_percent_encoded_string s = make_percent_encoded_string t \<Longrightarrow> s = t"
proof (induction s arbitrary: t)
  case Nil
  then show ?case by (metis make_percent_encoded_Nil_iff)
next
  case (Cons c s)
  then obtain d t' where t: "t = d # t'" by (cases t) (auto simp: encoded_byte_def split: if_splits)
  with Cons.prems have "encoded_byte c @ make_percent_encoded_string s = encoded_byte d @ make_percent_encoded_string t'"
    by simp
  then have "c = d" "make_percent_encoded_string s = make_percent_encoded_string t'"
    by (simp_all add: encoded_byte_prefix_free)
  with Cons.IH t show ?case by simp
qed

section \<open>The decoder\<close>

lemma decoded_char_for_skip:
  "decoded_char_for (p @ CHR ''%'' # a # b # r) (length p) =
     (case value_of_hex_digit a of Inl e \<Rightarrow> Inl e
      | Inr hi \<Rightarrow> (case value_of_hex_digit b of Inl e \<Rightarrow> Inl e | Inr lo \<Rightarrow> Inr (char_of (16 * unat hi + unat lo))))"
  by (simp add: decoded_char_for_def nth_append Suc_diff_le split: sum.split)

lemma raw_string_from_end: "raw_string_from p (length p) b = Inr b"
  by (simp add: raw_string_from.simps)

lemma raw_string_from_plain:
  "character_is_unreserved c \<Longrightarrow> raw_string_from (p @ c # r) (length p) b = raw_string_from ((p @ [c]) @ r) (length (p @ [c])) (b @ [c])"
  by (subst raw_string_from.simps) (auto simp: nth_append)

lemma raw_string_from_escape:
  "raw_string_from (p @ CHR ''%'' # x # y # r) (length p) b =
     (case decoded_char_for (p @ CHR ''%'' # x # y # r) (length p) of Inl e \<Rightarrow> Inl e
      | Inr c \<Rightarrow> raw_string_from ((p @ [CHR ''%'', x, y]) @ r) (length (p @ [CHR ''%'', x, y])) (b @ [c]))"
  by (subst raw_string_from.simps) (simp add: nth_append numeral_3_eq_3 split: sum.split)

lemma raw_string_from_byte:
  assumes "16 \<le> (of_char c :: nat)"
  shows "raw_string_from (p @ encoded_byte c @ r) (length p) b =
    raw_string_from ((p @ encoded_byte c) @ r) (length (p @ encoded_byte c)) (b @ [c])"
proof (cases "character_is_unreserved c")
  case True
  then show ?thesis using raw_string_from_plain [of c p r b] by (simp add: encoded_byte_def)
next
  case False
  let ?n = "of_char c :: nat"
  have d: "?n div 16 < 16" "?n mod 16 < 16" using of_char_less_256 [of c] by (simp_all add: less_mult_imp_div_less)
  show ?thesis using assms False char_of_hex_digits [OF of_char_less_256 [of c]]
    by (simp add: encoded_byte_def sprintf_2X_def raw_string_from_escape decoded_char_for_skip
        value_of_upper_hex_digit [OF d(1)] value_of_upper_hex_digit [OF d(2)])
qed

lemma raw_string_from_control:
  assumes "(of_char c :: nat) < 16"
  shows "raw_string_from (p @ encoded_byte c @ r) (length p) b =
    Inl (Invalid_Argument ''Cannot get the value of a character that isn't a hex digit.'')"
proof -
  have "\<not> character_is_unreserved c" using assms unreserved_ge_16 [of c] by linarith
  then show ?thesis using assms
    by (simp add: encoded_byte_def sprintf_2X_def raw_string_from_escape decoded_char_for_skip)
qed

lemma raw_string_from_encoded:
  "raw_string_from (p @ make_percent_encoded_string s) (length p) b =
     (if list_all (\<lambda>c. 16 \<le> (of_char c :: nat)) s then Inr (b @ s)
      else Inl (Invalid_Argument ''Cannot get the value of a character that isn't a hex digit.''))"
proof (induction s arbitrary: p b)
  case Nil
  then show ?case by (simp add: raw_string_from_end)
next
  case (Cons c s)
  show ?case
  proof (cases "16 \<le> (of_char c :: nat)")
    case True
    then show ?thesis
      using raw_string_from_byte [OF True, of p "make_percent_encoded_string s" b] Cons.IH [of "p @ encoded_byte c" "b @ [c]"]
      by simp
  next
    case False
    then show ?thesis using raw_string_from_control [of c p "make_percent_encoded_string s" b] by simp
  qed
qed

section \<open>Paths\<close>

lemma append_component_plain:
  assumes "path \<noteq> []" "last path = CHR ''/''" "c \<noteq> []" "CHR ''/'' \<notin> set c"
  shows "file_path_by_appending_component path c Path_File = Inr (path @ c)"
    "file_path_by_appending_component path c Path_Directory = Inr (path @ c @ ''/'')"
proof -
  have "first_char c \<noteq> CHR ''/''" "last c \<noteq> CHR ''/''"
    using assms(3,4) by (auto simp: first_char_def split: list.split) (metis last_in_set)
  then show "file_path_by_appending_component path c Path_File = Inr (path @ c)"
    "file_path_by_appending_component path c Path_Directory = Inr (path @ c @ ''/'')"
    using assms by (simp_all add: file_path_by_appending_component_def terminal_for_def last_char_def)
qed

lemma append_directory_ends:
  "file_path_by_appending_component path c Path_Directory = Inr p \<Longrightarrow> p \<noteq> [] \<and> last p = CHR ''/''"
  by (cases c) (auto simp: file_path_by_appending_component_def terminal_for_def last_char_def split: if_splits sum.splits)

lemma made_directory_Inr:
  "made_directory F path name w = (w', Inr dir) \<longleftrightarrow>
     file_path_by_appending_component path name Path_Directory = Inr dir \<and> fs_make_dir F dir w = (w', Inr ())"
  unfolding made_directory_def and_then_Inr_iff by auto

text \<open>The directory of a user and the path of a file in it, when the file system lets the directories be made.\<close>

lemma user_directory_Inr:
  assumes "user_directory F base u w = (w', Inr dir)"
  obtains sync where "file_path_by_appending_component base c_sync_directory Path_Directory = Inr sync"
    and "dir = sync @ make_percent_encoded_string u @ ''/''" and "u \<noteq> []"
    and "\<not> filename_is_reserved (make_percent_encoded_string u)"
proof -
  from assms obtain sync where s: "file_path_by_appending_component base c_sync_directory Path_Directory = Inr sync"
      "file_path_by_appending_component sync (make_percent_encoded_string u) Path_Directory = Inr dir"
    and u: "u \<noteq> []" "\<not> filename_is_reserved (make_percent_encoded_string u)"
    unfolding user_directory_def and_then_Inr_iff Let_def get_base_sync_directory_def made_directory_Inr
    by (auto split: if_splits)
  have "dir = sync @ make_percent_encoded_string u @ ''/''"
    using append_component_plain(2) [of sync "make_percent_encoded_string u"] append_directory_ends [OF s(1)] s(2) u(1)
    by (simp add: encoded_string_no_slash)
  from s(1) this u show thesis by (rule that)
qed

lemma realm_path_Inr:
  assumes "realm_path F base u r w = (w', Inr p)"
  obtains sync where "file_path_by_appending_component base c_sync_directory Path_Directory = Inr sync"
    and "p = sync @ make_percent_encoded_string u @ ''/'' @ make_percent_encoded_string r"
    and "u \<noteq> []" and "r \<noteq> []" and "\<not> filename_is_reserved u" and "\<not> filename_is_reserved r"
proof -
  from assms obtain dir w1 where d: "user_directory F base u w = (w1, Inr dir)"
      "file_path_by_appending_component dir (make_percent_encoded_string r) Path_File = Inr p"
    and ur: "u \<noteq> []" "r \<noteq> []" "\<not> filename_is_reserved u" "\<not> filename_is_reserved r"
    unfolding realm_path_def and_then_Inr_iff Let_def by (auto split: if_splits)
  from d(1) obtain sync where s: "file_path_by_appending_component base c_sync_directory Path_Directory = Inr sync"
      "dir = sync @ make_percent_encoded_string u @ ''/''" by (rule user_directory_Inr)
  have "p = dir @ make_percent_encoded_string r"
    using append_component_plain(1) [of dir "make_percent_encoded_string r"] d(2) s(2) ur(2)
    by (simp add: encoded_string_no_slash)
  with s have "p = sync @ make_percent_encoded_string u @ ''/'' @ make_percent_encoded_string r" by simp
  from s(1) this ur show thesis by (rule that)
qed

lemma split_at_slash:
  "CHR ''/'' \<notin> set a \<Longrightarrow> CHR ''/'' \<notin> set b \<Longrightarrow> a @ CHR ''/'' # s = b @ CHR ''/'' # t \<Longrightarrow> a = b \<and> s = t"
proof (induction a arbitrary: b)
  case Nil
  then show ?case by (cases b) auto
next
  case (Cons x a)
  then show ?case by (cases b) auto
qed

lemma encoded_reserved_iff: "filename_is_reserved (make_percent_encoded_string s) \<longleftrightarrow> filename_is_reserved s"
proof -
  have "make_percent_encoded_string ''.'' = ''.''" "make_percent_encoded_string ''..'' = ''..''"
    by (simp_all add: encoded_byte_def character_is_unreserved_def)
  then show ?thesis using encoded_inj [of s "''.''"] encoded_inj [of s "''..''"]
    by (auto simp: filename_is_reserved_def)
qed

text \<open>Looking for a substring.\<close>

lemma contains_string_append: "contains_string pat (s @ pat @ t)"
proof (induction s)
  case Nil
  then show ?case by (cases "pat @ t") (auto, metis append_eq_conv_conj)
qed simp

end
