(* ===== verification/Sync_File_Props.thy ===== *)
theory Sync_File_Props
  imports Sync_File_Laws
begin

text \<open>What the naming of synchronised files guarantees: percent encoding, the paths of users and files, and removal.\<close>

section \<open>Percent encoding\<close>

text \<open>C23: Decoding a percent-encoded string gives the string back exactly when none of its bytes is below 16; otherwise
  the code's own decoder rejects the encoded string, because such a byte is written with a space instead of its leading
  zero.\<close>

theorem percent_encoding_roundtrip:
  "make_raw_string (make_percent_encoded_string s) =
     (if list_all (\<lambda>c. 16 \<le> (of_char c :: nat)) s then Inr s
      else Inl (Invalid_Argument ''Cannot get the value of a character that isn't a hex digit.''))"
  using raw_string_from_encoded [of "[]" s "[]"] by (simp add: make_raw_string_def)

section \<open>Paths\<close>

text \<open>C22: The path of a synchronised file determines its user and its Realm path: no two users and no two Realms of one
  user ever share a file, whatever bytes their names hold.\<close>

theorem realm_path_injective:
  assumes "realm_path F base u r w = (w1, Inr p)" and "realm_path F base u' r' w' = (w2, Inr p)"
  shows "u = u' \<and> r = r'"
proof -
  from assms(1) obtain s where s: "file_path_by_appending_component base c_sync_directory Path_Directory = Inr s"
      "p = s @ make_percent_encoded_string u @ ''/'' @ make_percent_encoded_string r" by (rule realm_path_Inr)
  from assms(2) obtain s' where s': "file_path_by_appending_component base c_sync_directory Path_Directory = Inr s'"
      "p = s' @ make_percent_encoded_string u' @ ''/'' @ make_percent_encoded_string r'" by (rule realm_path_Inr)
  have "make_percent_encoded_string u @ CHR ''/'' # make_percent_encoded_string r =
      make_percent_encoded_string u' @ CHR ''/'' # make_percent_encoded_string r'"
    using s s' by simp
  then have "make_percent_encoded_string u = make_percent_encoded_string u'"
      "make_percent_encoded_string r = make_percent_encoded_string r'"
    using split_at_slash [OF encoded_string_no_slash encoded_string_no_slash] by simp_all
  then show ?thesis by (simp add: encoded_inj)
qed

definition memory_files :: "string set file_system" where
  "memory_files =
     \<lparr>fs_make_dir = (\<lambda>d fs. (insert d fs, Inr ())),
      fs_remove_dir = (\<lambda>d fs. (fs - {d}, Inr ())),
      fs_try_remove = (\<lambda>f fs. (fs - {f}, Inr (f \<in> fs))),
      fs_exists = (\<lambda>f fs. (fs, Inr (f \<in> fs))),
      fs_copy = (\<lambda>a b fs. if a \<in> fs then (insert b fs, Inr ()) else (fs, Inl (File_Failure Not_Found))),
      fs_move = (\<lambda>a b fs. if a \<in> fs then (insert b (fs - {a}), Inr ()) else (fs, Inl (File_Failure Not_Found))),
      fs_mkstemp = (\<lambda>p fs. (insert p fs, Inr p)),
      fs_unlink = (\<lambda>f fs. (fs - {f}, Inr ()))\<rparr>"

lemmas file_evaluation =
  memory_files_def realm_path_def user_directory_def get_base_sync_directory_def made_directory_def and_then_def
  filename_is_reserved_def encoded_byte_def character_is_unreserved_def sprintf_2X_def upper_hex_digit_def char_of_def
  less_eq_char_def file_path_by_appending_component_def terminal_for_def last_char_def first_char_def c_sync_directory_def

lemma sample_realm_path:
  "realm_path memory_files ''/d'' ''u/1'' ''r'' {} =
     ({''/d/realm-object-server/'', ''/d/realm-object-server/u%2F1/''}, Inr ''/d/realm-object-server/u%2F1/r'')"
  by (simp add: file_evaluation bit_Suc_0_iff insert_commute)

theorem realm_path_injective_witness:
  "\<exists>w p. realm_path memory_files ''/d'' ''u/1'' ''r'' {} = (w, Inr p) \<and> ''u/1'' = ''u/1'' \<and> ''r'' = ''r''"
  using realm_path_injective [OF sample_realm_path sample_realm_path] sample_realm_path by blast

text \<open>A synchronised file is always two levels below the sync directory: the names of its user's directory and of the
  file hold no separator, are not empty and are never one of the two names that the file system gives a meaning to.\<close>

theorem realm_path_confined:
  assumes "realm_path F base u r w = (w', Inr p)"
  shows "\<exists>sync d f. file_path_by_appending_component base c_sync_directory Path_Directory = Inr sync \<and>
    p = sync @ d @ ''/'' @ f \<and> CHR ''/'' \<notin> set (d @ f) \<and> d \<notin> {'''', ''.'', ''..''} \<and> f \<notin> {'''', ''.'', ''..''}"
proof -
  from assms obtain sync where s: "file_path_by_appending_component base c_sync_directory Path_Directory = Inr sync"
    "p = sync @ make_percent_encoded_string u @ ''/'' @ make_percent_encoded_string r"
    "u \<noteq> []" "r \<noteq> []" "\<not> filename_is_reserved u" "\<not> filename_is_reserved r" by (rule realm_path_Inr)
  have "x \<noteq> [] \<Longrightarrow> \<not> filename_is_reserved x \<Longrightarrow> make_percent_encoded_string x \<notin> {'''', ''.'', ''..''}" for x
    using encoded_reserved_iff [of x] by (auto simp: filename_is_reserved_def)
  with s show ?thesis
    by (intro exI [of _ sync] exI [of _ "make_percent_encoded_string u"] exI [of _ "make_percent_encoded_string r"])
      (simp add: encoded_string_no_slash)
qed

theorem realm_path_confined_witness:
  "\<exists>sync d f. file_path_by_appending_component ''/d'' c_sync_directory Path_Directory = Inr sync \<and>
    ''/d/realm-object-server/u%2F1/r'' = sync @ d @ ''/'' @ f \<and> CHR ''/'' \<notin> set (d @ f) \<and>
    d \<notin> {'''', ''.'', ''..''} \<and> f \<notin> {'''', ''.'', ''..''}"
  by (rule realm_path_confined [OF sample_realm_path])

section \<open>Removing a file\<close>

text \<open>The answer of \<open>remove_realm\<close> says nothing about the Realm file itself: it is whether the lock file was removed
  and the management directory could be, and it is true for a Realm file that was not removed.\<close>

theorem remove_realm_ignores_realm_file:
  assumes "path \<noteq> []" and "fs_try_remove F path w = (w1, Inr removed)"
    and "file_path_by_appending_extension path ''lock'' = Inr lock" and "fs_try_remove F lock w1 = (w2, Inr locked)"
    and "file_path_by_appending_extension path ''management'' = Inr dir" and "fs_remove_dir F dir w2 = (w3, r)"
  shows "remove_realm F path w =
    (w3, case r of Inr _ \<Rightarrow> Inr locked | Inl (File_Failure Access_Error) \<Rightarrow> Inr False | Inl e \<Rightarrow> Inl e)"
  using assms
  by (auto simp: remove_realm_def and_then_def catch_file_def split: sum.split failure.split fs_error.split)

theorem remove_realm_ignores_realm_file_witness:
  "remove_realm memory_files ''r'' {''r.lock''} = ({}, Inr True)"
  using remove_realm_ignores_realm_file [of "''r''" memory_files "{''r.lock''}" "{''r.lock''}" False "''r.lock''" "{}" True
      "''r.management''" "{}" "Inr ()"]
  by (simp add: memory_files_def file_path_by_appending_extension_def last_char_def first_char_def)

text \<open>Every template that the code makes for a backup satisfies the assertion of the function that reserves the name,
  for every requested number of wildcards, negative or huge: it ends in six to twenty of them.\<close>

theorem timestamped_template_reservable:
  "contains_string ''XXXXXX'' (create_timestamped_template prefix time n) \<and>
   length (create_timestamped_template prefix time n) \<le> length prefix + length time + 22"
proof -
  define k where "k = nat (min 20 (max 6 n))"
  have k: "6 \<le> k" "k \<le> 20" by (simp_all add: k_def)
  have "replicate 6 (CHR ''X'') = ''XXXXXX''" by (simp add: numeral_eq_Suc)
  then have "replicate k (CHR ''X'') = ''XXXXXX'' @ replicate (k - 6) (CHR ''X'')"
    using k(1) by (metis le_add_diff_inverse replicate_add)
  then have "create_timestamped_template prefix time n =
      (prefix @ ''-'' @ time @ ''-'') @ ''XXXXXX'' @ replicate (k - 6) (CHR ''X'')"
    by (simp only: create_timestamped_template_def k_def append_assoc)
  then have "contains_string ''XXXXXX'' (create_timestamped_template prefix time n)"
    by (simp only: contains_string_append)
  moreover have "length (create_timestamped_template prefix time n) \<le> length prefix + length time + 22"
    using k(2) by (simp add: create_timestamped_template_def flip: k_def)
  ultimately show ?thesis ..
qed

end
