(* ===== verification/Sync_Progress.thy ===== *)
theory Sync_Progress
  imports Prelude "HOL-Library.Word"
begin

text \<open>
  The notifier of upload and download progress of \<open>sync/sync_session.cpp\<close>.  A registered callback is named by a number; a
  call of it is that number with the two amounts of bytes.  The registered packages are listed in the order in which the hash
  table of the code is iterated.
\<close>

section \<open>State\<close>

record progress =
  uploadable :: "64 word"
  downloadable :: "64 word"
  uploaded :: "64 word"
  downloaded :: "64 word"
  progress_version :: "64 word"

record notifier_package =
  notifier :: nat
  captured_transferrable :: "64 word option"
  package_version :: "64 word"
  is_streaming :: bool
  is_download :: bool

type_synonym invocation = "nat \<times> 64 word \<times> 64 word"

record progress_notifier =
  next_token :: "64 word"
  local_version :: "64 word"
  current_progress :: "progress option"
  packages :: "(64 word \<times> notifier_package) list"

definition new_progress_notifier :: progress_notifier where
  "new_progress_notifier = \<lparr>next_token = 1, local_version = 0, current_progress = None, packages = []\<rparr>"

section \<open>Operations\<close>

definition transferred_of :: "notifier_package \<Rightarrow> progress \<Rightarrow> 64 word" where
  "transferred_of k p = (if is_download k then downloaded p else uploaded p)"

definition transferrable_of :: "notifier_package \<Rightarrow> progress \<Rightarrow> 64 word" where
  "transferrable_of k p = (if is_download k then downloadable p else uploadable p)"

text \<open>
  The amount a package reports against, with the package after it has captured one; \<open>None\<close> when it must not be called yet.
\<close>

definition captured :: "notifier_package \<Rightarrow> progress \<Rightarrow> (notifier_package \<times> 64 word) option" where
  "captured k p =
     (if is_streaming k then Some (k, transferrable_of k p)
      else case captured_transferrable k of
          Some t \<Rightarrow> Some (k, t)
        | None \<Rightarrow>
            (if is_download k then Some (k\<lparr>captured_transferrable := Some (downloadable p)\<rparr>, downloadable p)
             else if progress_version p < package_version k then None
             else Some (k\<lparr>captured_transferrable := Some (uploadable p)\<rparr>, uploadable p)))"

text \<open>The package after the call, whether it has expired, and the call if there is one.\<close>

definition create_invocation :: "notifier_package \<Rightarrow> progress \<Rightarrow> notifier_package \<times> bool \<times> invocation list" where
  "create_invocation k p =
     (case captured k p of
        None \<Rightarrow> (k, False, [])
      | Some (k', transferrable) \<Rightarrow>
          (let transferred = transferred_of k' p
           in (k', \<not> is_streaming k' \<and> transferrable \<le> transferred, [(notifier k', transferred, transferrable)])))"

definition emplace :: "'a \<Rightarrow> 'b \<Rightarrow> ('a \<times> 'b) list \<Rightarrow> ('a \<times> 'b) list" where
  "emplace t x ps = (if t \<in> fst ` set ps then ps else ps @ [(t, x)])"

definition register_callback :: "nat \<Rightarrow> bool \<Rightarrow> bool \<Rightarrow> progress_notifier \<Rightarrow> progress_notifier \<times> 64 word \<times> invocation list" where
  "register_callback f download streaming n =
     (let token_value = next_token n;
          n1 = n\<lparr>next_token := next_token n + 1\<rparr>;
          package = \<lparr>notifier = f, captured_transferrable = None, package_version = local_version n,
                     is_streaming = streaming, is_download = download\<rparr>
      in case current_progress n of
          None \<Rightarrow> (n1\<lparr>packages := emplace token_value package (packages n1)\<rparr>, token_value, [])
        | Some p \<Rightarrow>
            (let (package', skip_registration, calls) = create_invocation package p
             in if skip_registration then (n1, 0, calls)
                else (n1\<lparr>packages := emplace token_value package' (packages n1)\<rparr>, token_value, calls)))"

definition unregister_callback :: "64 word \<Rightarrow> progress_notifier \<Rightarrow> progress_notifier" where
  "unregister_callback t n = n\<lparr>packages := filter (\<lambda>(t', _). t' \<noteq> t) (packages n)\<rparr>"

definition set_local_version :: "64 word \<Rightarrow> progress_notifier \<Rightarrow> progress_notifier" where
  "set_local_version v n = n\<lparr>local_version := v\<rparr>"

fun update_packages :: "progress \<Rightarrow> (64 word \<times> notifier_package) list \<Rightarrow> (64 word \<times> notifier_package) list \<times> invocation list" where
  "update_packages p [] = ([], [])"
| "update_packages p ((t, k) # ks) =
     (let (k', should_delete, calls) = create_invocation k p;
          (ks', calls') = update_packages p ks
      in (if should_delete then ks' else (t, k') # ks', calls @ calls'))"

record progress_message =
  msg_downloaded :: "64 word"
  msg_downloadable :: "64 word"
  msg_uploaded :: "64 word"
  msg_uploadable :: "64 word"
  msg_download_version :: "64 word"
  msg_snapshot_version :: "64 word"

definition progress_of :: "progress_message \<Rightarrow> progress" where
  "progress_of m =
     \<lparr>uploadable = msg_uploadable m, downloadable = msg_downloadable m, uploaded = msg_uploaded m,
      downloaded = msg_downloaded m, progress_version = msg_snapshot_version m\<rparr>"

definition update_progress :: "progress_message \<Rightarrow> progress_notifier \<Rightarrow> progress_notifier \<times> invocation list" where
  "update_progress m n =
     (if msg_download_version m = 0 then (n, [])
      else let (ks, calls) = update_packages (progress_of m) (packages n)
           in (n\<lparr>current_progress := Some (progress_of m), packages := ks\<rparr>, calls))"

section \<open>Sequences of messages\<close>

fun update_all :: "progress_message list \<Rightarrow> progress_notifier \<Rightarrow> progress_notifier \<times> invocation list" where
  "update_all [] n = (n, [])"
| "update_all (m # ms) n =
     (let (n1, calls) = update_progress m n; (n2, calls') = update_all ms n1 in (n2, calls @ calls'))"

text \<open>The messages that count: those after the first download message.\<close>

definition effective :: "progress_message list \<Rightarrow> progress list" where
  "effective ms = map progress_of (filter (\<lambda>m. msg_download_version m \<noteq> 0) ms)"

text \<open>What happens to one package when nothing else is registered: the calls, and the package if it is left.\<close>

fun package_run :: "progress list \<Rightarrow> notifier_package \<Rightarrow> notifier_package option \<times> invocation list" where
  "package_run [] k = (Some k, [])"
| "package_run (p # ps) k =
     (let (k', expired, calls) = create_invocation k p
      in if expired then (None, calls)
         else let (r, calls') = package_run ps k' in (r, calls @ calls'))"

section \<open>Packages are independent\<close>

lemma create_invocation_notifier:
  assumes "create_invocation k p = (k', d, cs)"
  shows "notifier k' = notifier k" "\<forall>c \<in> set cs. fst c = notifier k"
  using assms
  by (auto simp: create_invocation_def captured_def Let_def split: option.splits if_splits)

definition calls_of :: "nat \<Rightarrow> invocation list \<Rightarrow> invocation list" where
  "calls_of f cs = filter (\<lambda>c. fst c = f) cs"

lemma calls_of_simps [simp]:
  "calls_of f [] = []" "calls_of f (cs @ ds) = calls_of f cs @ calls_of f ds"
  by (simp_all add: calls_of_def)

lemma calls_of_all: "\<forall>c \<in> set cs. fst c = f \<Longrightarrow> calls_of f cs = cs"
  by (simp add: calls_of_def)

lemma calls_of_none: "\<forall>c \<in> set cs. fst c \<noteq> f \<Longrightarrow> calls_of f cs = []"
  by (simp add: calls_of_def filter_empty_conv)

lemma update_packages_other:
  "f \<notin> (notifier \<circ> snd) ` set ks \<Longrightarrow> calls_of f (snd (update_packages p ks)) = [] \<and>
     f \<notin> (notifier \<circ> snd) ` set (fst (update_packages p ks))"
proof (induction ks)
  case (Cons x ks)
  obtain t k where x: "x = (t, k)" by fastforce
  obtain k' d cs where c: "create_invocation k p = (k', d, cs)" by (rule prod_cases3)
  have "calls_of f cs = []" using create_invocation_notifier [OF c] Cons.prems x by (auto intro!: calls_of_none)
  then show ?case using Cons create_invocation_notifier(1) [OF c]
    by (simp add: x c split_beta Let_def)
qed simp

lemma update_packages_one:
  assumes "f \<notin> (notifier \<circ> snd) ` set (as @ bs)" "notifier k = f" "create_invocation k p = (k', d, cs)"
  shows "calls_of f (snd (update_packages p (as @ (t, k) # bs))) = cs \<and>
    fst (update_packages p (as @ (t, k) # bs)) =
      fst (update_packages p as) @ (if d then [] else [(t, k')]) @ fst (update_packages p bs)"
  using assms(1)
proof (induction as)
  case Nil
  then show ?case using assms(2,3) update_packages_other [of f bs p] create_invocation_notifier [OF assms(3)]
    by (simp add: split_beta Let_def calls_of_all)
next
  case (Cons x as)
  obtain t' k1 where x: "x = (t', k1)" by fastforce
  obtain k2 d2 cs2 where c: "create_invocation k1 p = (k2, d2, cs2)" by (rule prod_cases3)
  have "calls_of f cs2 = []" using create_invocation_notifier [OF c] Cons.prems x by (auto intro!: calls_of_none)
  then show ?case using Cons by (simp add: x c split_beta Let_def)
qed

lemma effective_Cons: "effective (m # ms) = (if msg_download_version m = 0 then effective ms else progress_of m # effective ms)"
  by (simp add: effective_def)

lemma update_all_other:
  "f \<notin> (notifier \<circ> snd) ` set (packages n) \<Longrightarrow> calls_of f (snd (update_all ms n)) = [] \<and>
     f \<notin> (notifier \<circ> snd) ` set (packages (fst (update_all ms n)))"
proof (induction ms arbitrary: n)
  case (Cons m ms)
  have "f \<notin> (notifier \<circ> snd) ` set (packages (fst (update_progress m n))) \<and> calls_of f (snd (update_progress m n)) = []"
    using update_packages_other [OF Cons.prems, of "progress_of m"] Cons.prems
    by (simp add: update_progress_def split_beta Let_def)
  then show ?case using Cons.IH [of "fst (update_progress m n)"] by (simp add: split_beta Let_def)
qed simp

lemma update_all_one:
  assumes "packages n = as @ (t, k) # bs" "notifier k = f" "f \<notin> (notifier \<circ> snd) ` set (as @ bs)"
  shows "calls_of f (snd (update_all ms n)) = snd (package_run (effective ms) k) \<and>
    (f \<in> (notifier \<circ> snd) ` set (packages (fst (update_all ms n))) \<longleftrightarrow> fst (package_run (effective ms) k) \<noteq> None)"
  using assms
proof (induction ms arbitrary: n as k bs)
  case Nil
  then show ?case by (force simp: effective_def)
next
  case (Cons m ms)
  show ?case
  proof (cases "msg_download_version m = 0")
    case True
    then show ?thesis using Cons by (simp add: update_progress_def effective_Cons split_beta Let_def)
  next
    case False
    let ?p = "progress_of m" and ?n = "fst (update_progress m n)"
    obtain k' d cs where c: "create_invocation k ?p = (k', d, cs)" by (rule prod_cases3)
    let ?as = "fst (update_packages ?p as)" and ?bs = "fst (update_packages ?p bs)"
    have u: "packages ?n = ?as @ (if d then [] else [(t, k')]) @ ?bs" "calls_of f (snd (update_progress m n)) = cs"
      using update_packages_one [OF Cons.prems(3,2) c, of t] False Cons.prems(1)
      by (simp_all add: update_progress_def split_beta Let_def)
    have no: "f \<notin> (notifier \<circ> snd) ` set (?as @ ?bs)"
      using Cons.prems(3) update_packages_other [of f as ?p] update_packages_other [of f bs ?p] by auto
    show ?thesis
    proof (cases d)
      case True
      then show ?thesis using update_all_other [of f ?n ms] no u c False
        by (simp add: effective_Cons split_beta Let_def)
    next
      case keep: False
      have "packages ?n = ?as @ (t, k') # ?bs" "notifier k' = f"
        using u(1) keep create_invocation_notifier(1) [OF c] Cons.prems(2) by simp_all
      from Cons.IH [OF this no] show ?thesis using u(2) c keep False
        by (simp add: effective_Cons split_beta Let_def)
    qed
  qed
qed

end
