(* ===== verification/Sync_Progress_Props.thy ===== *)
theory Sync_Progress_Props
  imports Sync_Progress
begin

text \<open>What a registered progress callback is told over any sequence of messages from the sync client.\<close>

section \<open>One package\<close>

definition upto_first :: "('a \<Rightarrow> bool) \<Rightarrow> 'a list \<Rightarrow> 'a list" where
  "upto_first P xs = takeWhile (\<lambda>x. \<not> P x) xs @ take 1 (dropWhile (\<lambda>x. \<not> P x) xs)"

lemma upto_first_simps [simp]: "upto_first P [] = []" "upto_first P (x # xs) = (if P x then [x] else x # upto_first P xs)"
  by (simp_all add: upto_first_def)

lemma upto_first_ends: "x \<in> set xs \<Longrightarrow> P x \<Longrightarrow> upto_first P xs \<noteq> [] \<and> P (last (upto_first P xs))"
  by (induction xs) (auto split: if_splits)

text \<open>The messages a package reports: an upload waits for the version it was registered at.\<close>

definition reported :: "notifier_package \<Rightarrow> progress list \<Rightarrow> progress list" where
  "reported k ps = (if is_download k then ps else dropWhile (\<lambda>p. progress_version p < package_version k) ps)"

lemma package_run_streaming:
  "is_streaming k \<Longrightarrow>
     package_run ps k = (Some k, map (\<lambda>p. (notifier k, transferred_of k p, transferrable_of k p)) ps)"
  by (induction ps) (simp_all add: create_invocation_def captured_def Let_def)

lemma package_run_captured:
  "\<not> is_streaming k \<Longrightarrow> captured_transferrable k = Some t \<Longrightarrow>
     package_run ps k =
       (if \<exists>p \<in> set ps. t \<le> transferred_of k p then None else Some k,
        map (\<lambda>p. (notifier k, transferred_of k p, t)) (upto_first (\<lambda>p. t \<le> transferred_of k p) ps))"
  by (induction ps) (simp_all add: create_invocation_def captured_def Let_def)

lemma captured_fields [simp]:
  "transferred_of (k\<lparr>captured_transferrable := c\<rparr>) p = transferred_of k p"
  by (simp add: transferred_of_def)

lemma package_run_fresh:
  assumes "\<not> is_streaming k" "captured_transferrable k = None"
  shows "package_run ps k =
    (case reported k ps of
       [] \<Rightarrow> (Some k, [])
     | q # _ \<Rightarrow>
         (let t = transferrable_of k q
          in (if \<exists>p \<in> set (reported k ps). t \<le> transferred_of k p then None else Some (k\<lparr>captured_transferrable := Some t\<rparr>),
              map (\<lambda>p. (notifier k, transferred_of k p, t)) (upto_first (\<lambda>p. t \<le> transferred_of k p) (reported k ps)))))"
proof (induction ps)
  case Nil
  then show ?case by (simp add: reported_def)
next
  case (Cons p ps)
  show ?case
  proof (cases "\<not> is_download k \<and> progress_version p < package_version k")
    case True
    then have "reported k (p # ps) = reported k ps" by (simp add: reported_def)
    moreover have "package_run (p # ps) k = package_run ps k"
      using True assms by (simp add: create_invocation_def captured_def)
    ultimately show ?thesis using Cons by (simp only:)
  next
    case False
    let ?k = "k\<lparr>captured_transferrable := Some (transferrable_of k p)\<rparr>"
    have "create_invocation k p =
        (?k, transferrable_of k p \<le> transferred_of k p, [(notifier k, transferred_of k p, transferrable_of k p)])"
      using False assms by (auto simp: create_invocation_def captured_def transferrable_of_def Let_def)
    moreover have "reported k (p # ps) = p # ps" using False by (auto simp: reported_def)
    ultimately show ?thesis using package_run_captured [of ?k "transferrable_of k p" ps] assms
      by (simp add: Let_def)
  qed
qed

section \<open>Registration\<close>

definition new_package :: "nat \<Rightarrow> bool \<Rightarrow> bool \<Rightarrow> progress_notifier \<Rightarrow> notifier_package" where
  "new_package f download streaming n =
     \<lparr>notifier = f, captured_transferrable = None, package_version = local_version n, is_streaming = streaming,
      is_download = download\<rparr>"

definition registered :: "nat \<Rightarrow> progress_notifier \<Rightarrow> bool" where
  "registered f n \<longleftrightarrow> f \<in> (notifier \<circ> snd) ` set (packages n)"

lemma registered_run:
  assumes "current_progress n = None" "next_token n \<notin> fst ` set (packages n)" "\<not> registered f n"
    and "register_callback f download streaming n = (n', token, calls)"
  shows "calls_of f (snd (update_all ms n')) = snd (package_run (effective ms) (new_package f download streaming n)) \<and>
    (registered f (fst (update_all ms n')) \<longleftrightarrow> fst (package_run (effective ms) (new_package f download streaming n)) \<noteq> None)"
proof -
  have "packages n' = packages n @ (next_token n, new_package f download streaming n) # []"
    using assms by (auto simp: register_callback_def emplace_def new_package_def Let_def)
  then show ?thesis
    unfolding registered_def by (rule update_all_one) (use assms(3) in \<open>auto simp: new_package_def registered_def\<close>)
qed

text \<open>A callback registered for a single transfer is called once for each message from the one that fixes its amount to the
  first that reports this amount transferred, always against the same amount; an upload is not reported before the client has
  seen the version that was current at registration.\<close>

theorem one_shot_progress_calls:
  assumes "current_progress n = None" and "next_token n \<notin> fst ` set (packages n)" and "\<not> registered f n"
    and "register_callback f download False n = (n', token, calls)"
  shows "calls_of f (snd (update_all ms n')) =
    (let k = new_package f download False n
     in case reported k (effective ms) of
         [] \<Rightarrow> []
       | q # _ \<Rightarrow> map (\<lambda>p. (f, transferred_of k p, transferrable_of k q))
           (upto_first (\<lambda>p. transferrable_of k q \<le> transferred_of k p) (reported k (effective ms))))"
  using registered_run [OF assms, of ms] package_run_fresh [of "new_package f download False n" "effective ms"]
  by (simp add: new_package_def Let_def split: list.split)

definition sample_message :: "64 word \<Rightarrow> 64 word \<Rightarrow> 64 word \<Rightarrow> progress_message" where
  "sample_message finished amount version =
     \<lparr>msg_downloaded = finished, msg_downloadable = amount, msg_uploaded = 0, msg_uploadable = 0,
      msg_download_version = version, msg_snapshot_version = 1\<rparr>"

definition sample_messages :: "progress_message list" where
  "sample_messages = [sample_message 0 0 0, sample_message 10 30 1, sample_message 20 40 1, sample_message 30 40 1, sample_message 40 40 1]"

lemma sample_registration:
  "register_callback 7 True s new_progress_notifier =
     (new_progress_notifier\<lparr>next_token := 2, packages := [(1, new_package 7 True s new_progress_notifier)]\<rparr>, 1, [])"
  by (simp add: register_callback_def new_progress_notifier_def emplace_def new_package_def Let_def)

lemma sample_new: "current_progress new_progress_notifier = None" "next_token new_progress_notifier \<notin> fst ` set (packages new_progress_notifier)"
    "\<not> registered f new_progress_notifier"
  by (simp_all add: new_progress_notifier_def registered_def)

lemma sample_effective:
  "effective sample_messages =
     map progress_of [sample_message 10 30 1, sample_message 20 40 1, sample_message 30 40 1, sample_message 40 40 1]"
  by (simp add: effective_def sample_messages_def sample_message_def)

theorem one_shot_progress_calls_witness:
  "calls_of 7 (snd (update_all sample_messages (fst (register_callback 7 True False new_progress_notifier)))) =
     [(7, 10, 30), (7, 20, 30), (7, 30, 30)]"
  unfolding sample_registration fst_conv
  by (subst one_shot_progress_calls [OF sample_new sample_registration])
    (simp add: sample_effective sample_message_def reported_def new_package_def progress_of_def
      transferred_of_def transferrable_of_def)



text \<open>A streaming callback is called for every message from the first download message on, with the amounts of that
  message, and it stays registered.\<close>

theorem streaming_progress_calls:
  assumes "current_progress n = None" and "next_token n \<notin> fst ` set (packages n)" and "\<not> registered f n"
    and "register_callback f download True n = (n', token, calls)"
  shows "calls_of f (snd (update_all ms n')) =
      map (\<lambda>p. (f, if download then (downloaded p, downloadable p) else (uploaded p, uploadable p))) (effective ms) \<and>
    registered f (fst (update_all ms n'))"
  using registered_run [OF assms, of ms] package_run_streaming [of "new_package f download True n" "effective ms"]
  by (auto simp: new_package_def transferred_of_def transferrable_of_def)

theorem streaming_progress_calls_witness:
  "registered 7 (fst (update_all sample_messages (fst (register_callback 7 True True new_progress_notifier))))"
  using streaming_progress_calls [OF sample_new sample_registration [of True], of sample_messages]
  by (simp only: sample_registration fst_conv)

end
