(* ===== verification/Sync_Connection.thy ===== *)
theory Sync_Connection
  imports Prelude "HOL-Library.Word"
begin

text \<open>
  The notifier of connection changes of \<open>sync/sync_session.cpp\<close>: a list of callbacks that may register and remove callbacks
  while they are being called, because the lock is released around each call.  Positions and counts are 64-bit words, as in
  the code, where the position \<open>npos\<close> stands for no call in progress and for the place before the first callback.
\<close>

section \<open>State and operations\<close>

record connection_notifier =
  cn_callbacks :: "(nat \<times> 64 word) list"
  cn_index :: "64 word"
  cn_count :: "64 word"
  cn_next_token :: "64 word"

definition new_connection_notifier :: connection_notifier where
  "new_connection_notifier = \<lparr>cn_callbacks = [], cn_index = - 1, cn_count = - 1, cn_next_token = 0\<rparr>"

definition cn_add_callback :: "nat \<Rightarrow> connection_notifier \<Rightarrow> connection_notifier \<times> 64 word" where
  "cn_add_callback f n =
     (let token = cn_next_token n
      in (n\<lparr>cn_next_token := token + 1, cn_callbacks := cn_callbacks n @ [(f, token)]\<rparr>, token))"

definition cn_remove_callback :: "64 word \<Rightarrow> connection_notifier \<Rightarrow> connection_notifier" where
  "cn_remove_callback token n =
     (let idx = length (takeWhile (\<lambda>c. snd c \<noteq> token) (cn_callbacks n))
      in if idx = length (cn_callbacks n) then n
         else let n1 = (if cn_index n \<noteq> - 1 \<and> of_nat idx \<le> cn_index n then n\<lparr>cn_index := cn_index n - 1\<rparr> else n)
              in n1\<lparr>cn_count := cn_count n1 - 1, cn_callbacks := take idx (cn_callbacks n) @ drop (idx + 1) (cn_callbacks n)\<rparr>)"

text \<open>What a callback does to the notifier while it runs.\<close>

datatype callback_action = Add_Callback nat | Remove_Callback "64 word"

definition act :: "callback_action \<Rightarrow> connection_notifier \<Rightarrow> connection_notifier" where
  "act a n = (case a of Add_Callback f \<Rightarrow> fst (cn_add_callback f n) | Remove_Callback t \<Rightarrow> cn_remove_callback t n)"

definition callback_body :: "(nat \<Rightarrow> callback_action list) \<Rightarrow> nat \<Rightarrow> connection_notifier \<Rightarrow> connection_notifier" where
  "callback_body body f n = fold act (body f) n"

text \<open>
  The loop over the callbacks, with the callbacks it calls.  It fails on a read beyond the end of the list; the number bounds
  the rounds.
\<close>

fun invoke_from :: "nat \<Rightarrow> (nat \<Rightarrow> callback_action list) \<Rightarrow> connection_notifier \<Rightarrow> (connection_notifier \<times> nat list) option" where
  "invoke_from 0 body n = None"
| "invoke_from (Suc fuel) body n =
     (if cn_index n < cn_count n
      then if length (cn_callbacks n) \<le> unat (cn_index n) then None
           else let f = fst (cn_callbacks n ! unat (cn_index n));
                    n1 = callback_body body f n
                in do { (n2, calls) \<leftarrow> invoke_from fuel body (n1\<lparr>cn_index := cn_index n1 + 1\<rparr>); Some (n2, f # calls) }
      else Some (n\<lparr>cn_index := - 1\<rparr>, []))"

definition invoke_callbacks :: "nat \<Rightarrow> (nat \<Rightarrow> callback_action list) \<Rightarrow> connection_notifier \<Rightarrow> (connection_notifier \<times> nat list) option" where
  "invoke_callbacks fuel body n =
     invoke_from fuel body (n\<lparr>cn_count := of_nat (length (cn_callbacks n)), cn_index := cn_index n + 1\<rparr>)"

section \<open>Removal while callbacks are being called\<close>

text \<open>The callbacks a call in progress has passed, and those that are still to come.\<close>

definition at_split :: "(nat \<times> 64 word) list \<Rightarrow> (nat \<times> 64 word) list \<Rightarrow> connection_notifier \<Rightarrow> bool" where
  "at_split xs ys n \<longleftrightarrow>
     cn_callbacks n = xs @ ys \<and> cn_index n = of_nat (length xs) - 1 \<and> cn_count n = of_nat (length (xs @ ys)) \<and>
     length (xs @ ys) < 2 ^ 64 - 1 \<and> distinct (map snd (xs @ ys))"

lemma word_nat_le: "a < 2 ^ 64 \<Longrightarrow> b < 2 ^ 64 \<Longrightarrow> (of_nat a :: 64 word) \<le> of_nat b \<longleftrightarrow> a \<le> b"
  by (simp add: word_le_nat_alt unat_of_nat take_bit_nat_eq_self)

lemma word_nat_less: "a < 2 ^ 64 \<Longrightarrow> b < 2 ^ 64 \<Longrightarrow> (of_nat a :: 64 word) < of_nat b \<longleftrightarrow> a < b"
  by (simp add: word_less_nat_alt unat_of_nat take_bit_nat_eq_self)

lemma remove_first:
  assumes "distinct (map snd cs)" "i = length (takeWhile (\<lambda>c. snd c \<noteq> t) cs)"
  shows "i = length cs \<Longrightarrow> filter (\<lambda>c. snd c \<noteq> t) cs = cs"
    and "i < length cs \<Longrightarrow> take i cs @ drop (i + 1) cs = filter (\<lambda>c. snd c \<noteq> t) cs"
proof -
  show "filter (\<lambda>c. snd c \<noteq> t) cs = cs" if "i = length cs"
  proof -
    from that assms(2) have "takeWhile (\<lambda>c. snd c \<noteq> t) cs = cs" by (metis takeWhile_eq_take take_all order_refl)
    then show ?thesis by (simp add: takeWhile_eq_all_conv filter_True)
  qed
  show "take i cs @ drop (i + 1) cs = filter (\<lambda>c. snd c \<noteq> t) cs" if "i < length cs"
    using assms that
  proof (induction cs arbitrary: i)
    case (Cons c cs)
    show ?case
    proof (cases "snd c = t")
      case True
      then have "filter (\<lambda>c. snd c \<noteq> t) cs = cs" using Cons.prems(1) by (intro filter_True) (auto simp: rev_image_eqI)
      then show ?thesis using True Cons.prems(2) by simp
    next
      case False
      then show ?thesis using Cons by simp
    qed
  qed simp
qed

lemma remove_in_split:
  assumes "at_split xs ys n"
  shows "at_split (filter (\<lambda>c. snd c \<noteq> t) xs) (filter (\<lambda>c. snd c \<noteq> t) ys) (cn_remove_callback t n)"
proof -
  define i where "i = length (takeWhile (\<lambda>c. snd c \<noteq> t) (xs @ ys))"
  let ?P = "\<lambda>c. snd c \<noteq> t"
  have s: "cn_callbacks n = xs @ ys" "cn_index n = of_nat (length xs) - 1" "cn_count n = of_nat (length (xs @ ys))"
    "length (xs @ ys) < 2 ^ 64 - 1" "distinct (map snd (xs @ ys))" using assms by (simp_all add: at_split_def)
  have i: "i \<le> length (xs @ ys)" unfolding i_def by (rule length_takeWhile_le)
  show ?thesis
  proof (cases "i = length (xs @ ys)")
    case True
    then have "filter ?P (xs @ ys) = xs @ ys" using remove_first(1) [OF s(5) i_def] by simp
    then have "\<forall>c \<in> set (xs @ ys). ?P c" by (simp only: filter_id_conv)
    then have "filter ?P xs = xs \<and> filter ?P ys = ys" by (simp add: filter_id_conv)
    moreover have "cn_remove_callback t n = n"
      using True s(1) by (simp add: cn_remove_callback_def Let_def i_def)
    ultimately show ?thesis using assms by simp
  next
    case False
    then have lt: "i < length (xs @ ys)" using i by simp
    have removed: "take i (xs @ ys) @ drop (i + 1) (xs @ ys) = filter ?P xs @ filter ?P ys"
      using remove_first(2) [OF s(5) i_def lt] by simp
    have total: "length (filter ?P xs) + length (filter ?P ys) + 1 = length (xs @ ys)"
      using arg_cong [OF removed, of length] lt by auto
    have "length (filter ?P xs) = (if i < length xs then length xs - 1 else length xs)"
    proof (cases "i < length xs")
      case True
      then have "i = length (takeWhile ?P xs)" unfolding i_def
        by (auto simp: takeWhile_append split: if_splits)
      with True s(5) have "filter ?P xs = take i xs @ drop (i + 1) xs"
        by (intro remove_first(2) [symmetric]) auto
      with True show ?thesis by simp
    next
      case False
      have "\<forall>c \<in> set xs. ?P c"
      proof (rule ccontr)
        assume "\<not> (\<forall>c \<in> set xs. ?P c)"
        then have "takeWhile ?P (xs @ ys) = takeWhile ?P xs" "takeWhile ?P xs \<noteq> xs"
          by (auto simp: takeWhile_append takeWhile_eq_all_conv)
        then have "i < length xs" unfolding i_def
          by (metis length_takeWhile_le le_neq_implies_less takeWhile_eq_take take_all order_refl)
        with False show False by simp
      qed
      with False show ?thesis by simp
    qed
    moreover have "(cn_index n \<noteq> - 1 \<and> of_nat i \<le> cn_index n) \<longleftrightarrow> i < length xs"
    proof (cases "xs = []")
      case True
      then show ?thesis using s(2) by simp
    next
      case False
      then have "cn_index n = of_nat (length xs - 1)" using s(2) by (simp add: of_nat_diff Suc_leI)
      moreover have "(of_nat (length xs - 1) :: 64 word) \<noteq> - 1"
      proof -
        have "(of_nat (length xs - 1) :: 64 word) < of_nat (length xs)"
          using False s(4) by (subst word_nat_less) auto
        then show ?thesis by (metis word_order.extremum_strict)
      qed
      moreover have "i \<le> length xs - 1 \<longleftrightarrow> i < length xs" using False by (cases xs) auto
      ultimately show ?thesis using lt s(4) False by (simp add: word_nat_le)
    qed
    moreover define n' where "n' = cn_remove_callback t n"
    ultimately have n': "cn_callbacks n' = filter ?P xs @ filter ?P ys"
        "cn_index n' = (if i < length xs then cn_index n - 1 else cn_index n)" "cn_count n' = cn_count n - 1"
        "length (filter ?P xs) = (if i < length xs then length xs - 1 else length xs)"
      using s(1) lt removed by (simp_all add: cn_remove_callback_def Let_def flip: i_def)
    have "(of_nat (length (filter ?P xs)) :: 64 word) = (if i < length xs then of_nat (length xs) - 1 else of_nat (length xs))"
      unfolding n'(4) by (cases xs) simp_all
    moreover have "(of_nat (length (filter ?P xs @ filter ?P ys)) :: 64 word) + 1 = of_nat (length (xs @ ys))"
      using arg_cong [OF total, of "of_nat :: nat \<Rightarrow> 64 word"] by (simp add: add.commute)
    moreover have "distinct (map snd (filter ?P xs @ filter ?P ys))" "length (filter ?P xs @ filter ?P ys) < 2 ^ 64 - 1"
      using s(4,5) total by (auto simp: distinct_map_filter)
    ultimately show ?thesis
      unfolding at_split_def n'_def [symmetric] n'(1-3) s(2,3) by (auto simp: algebra_simps)
  qed
qed

lemma removals_in_split:
  assumes "at_split xs ys n" "list_all (\<lambda>a. \<exists>t. a = Remove_Callback t) as"
  shows "at_split (filter (\<lambda>c. Remove_Callback (snd c) \<notin> set as) xs) (filter (\<lambda>c. Remove_Callback (snd c) \<notin> set as) ys) (fold act as n)"
  using assms
proof (induction as arbitrary: xs ys n)
  case (Cons a as)
  then obtain t where a: "a = Remove_Callback t" by auto
  let ?P = "\<lambda>c. snd c \<noteq> t"
  have "at_split (filter ?P xs) (filter ?P ys) (act a n)"
    using remove_in_split [OF Cons.prems(1)] by (simp add: act_def a)
  from Cons.IH [OF this] Cons.prems(2)
  have removed: "at_split (filter (\<lambda>c. Remove_Callback (snd c) \<notin> set as) (filter ?P xs))
      (filter (\<lambda>c. Remove_Callback (snd c) \<notin> set as) (filter ?P ys)) (fold act as (act a n))" by simp
  have keep: "filter (\<lambda>c. Remove_Callback (snd c) \<notin> set as) (filter ?P zs) =
      filter (\<lambda>c. Remove_Callback (snd c) \<notin> set (a # as)) zs" for zs
    by (simp add: a conj_commute)
  from removed show ?case unfolding fold_simps keep [of xs] keep [of ys] .
qed simp

text \<open>The callbacks that are called when a callback may only remove callbacks: each one not removed before its turn, in order.\<close>

fun called_in_turn :: "(nat \<Rightarrow> callback_action list) \<Rightarrow> nat \<Rightarrow> (nat \<times> 64 word) list \<Rightarrow> nat list" where
  "called_in_turn body 0 cs = []"
| "called_in_turn body (Suc m) [] = []"
| "called_in_turn body (Suc m) (c # cs) =
     fst c # called_in_turn body m (filter (\<lambda>d. Remove_Callback (snd d) \<notin> set (body (fst c))) cs)"

lemma at_split_advance:
  assumes "at_split xs (c # ys) n"
  shows "at_split (xs @ [c]) ys (n\<lparr>cn_index := cn_index n + 1\<rparr>)"
  using assms by (simp add: at_split_def)

lemma invoke_from_split:
  assumes "at_split xs ys (n\<lparr>cn_index := cn_index n - 1\<rparr>)" "\<forall>f. list_all (\<lambda>a. \<exists>t. a = Remove_Callback t) (body f)"
    "length ys \<le> m"
  shows "\<exists>n'. invoke_from (Suc m) body n = Some (n', called_in_turn body m ys) \<and> cn_index n' = - 1 \<and>
    set (cn_callbacks n') \<subseteq> set (xs @ ys)"
  using assms(1,3)
proof (induction m arbitrary: xs ys n)
  case 0
  then show ?case by (auto simp: at_split_def)
next
  case (Suc m)
  have s: "cn_callbacks n = xs @ ys" "cn_index n = of_nat (length xs)" "cn_count n = of_nat (length (xs @ ys))"
    "length (xs @ ys) < 2 ^ 64 - 1" using Suc.prems(1) by (simp_all add: at_split_def)
  show ?case
  proof (cases ys)
    case Nil
    then show ?thesis using s by simp
  next
    case (Cons c zs)
    have u: "unat (cn_index n) = length xs" using s(2,4) by (simp add: unat_of_nat take_bit_nat_eq_self)
    have less: "cn_index n < cn_count n" unfolding s(2,3) using s(4) Cons by (subst word_nat_less) auto
    let ?keep = "\<lambda>d. Remove_Callback (snd d) \<notin> set (body (fst c))"
    let ?n1 = "callback_body body (fst c) n"
    have "at_split (xs @ [c]) zs n"
      using Suc.prems(1) Cons by (simp add: at_split_def)
    then have after: "at_split (filter ?keep (xs @ [c])) (filter ?keep zs) ?n1"
      unfolding callback_body_def by (rule removals_in_split) (use assms(2) in simp)
    then have "at_split (filter ?keep (xs @ [c])) (filter ?keep zs)
        ((?n1\<lparr>cn_index := cn_index ?n1 + 1\<rparr>)\<lparr>cn_index := cn_index (?n1\<lparr>cn_index := cn_index ?n1 + 1\<rparr>) - 1\<rparr>)"
      by simp
    moreover have "length (filter ?keep zs) \<le> m"
      using Suc.prems(2) Cons by (auto intro: le_trans [OF length_filter_le])
    ultimately obtain n' where n': "invoke_from (Suc m) body (?n1\<lparr>cn_index := cn_index ?n1 + 1\<rparr>) =
          Some (n', called_in_turn body m (filter ?keep zs))"
        "cn_index n' = - 1" "set (cn_callbacks n') \<subseteq> set (filter ?keep (xs @ [c]) @ filter ?keep zs)"
      using Suc.IH by blast
    have "cn_callbacks n ! length xs = c" "\<not> length (cn_callbacks n) \<le> length xs" using s(1) Cons by simp_all
    then have eq: "invoke_from (Suc (Suc m)) body n = Some (n', called_in_turn body (Suc m) ys)"
      unfolding invoke_from.simps(2) [of "Suc m"] using less n'(1) Cons by (simp only: if_True if_False u Let_def) simp
    have "set (cn_callbacks n') \<subseteq> set (xs @ ys)" using n'(3) Cons by (auto split: if_splits)
    with eq n'(2) show ?thesis by blast
  qed
qed

section \<open>Properties\<close>

text \<open>C25: When callbacks may remove callbacks while they are called, themselves included, a connection change still calls every
  callback that has not been removed before its turn exactly once and in the order of registration, the loop ends without
  reading beyond the list, and the position is reset.\<close>

theorem invoke_callbacks_in_turn:
  assumes "cn_index n = - 1" and "length (cn_callbacks n) < 2 ^ 64 - 1" and "distinct (map snd (cn_callbacks n))"
    and "\<forall>f. list_all (\<lambda>a. \<exists>t. a = Remove_Callback t) (body f)" and "length (cn_callbacks n) < fuel"
  shows "\<exists>n'. invoke_callbacks fuel body n = Some (n', called_in_turn body (fuel - 1) (cn_callbacks n)) \<and> cn_index n' = - 1 \<and>
    set (cn_callbacks n') \<subseteq> set (cn_callbacks n)"
proof -
  obtain m where m: "fuel = Suc m" "length (cn_callbacks n) \<le> m" using assms(5) by (cases fuel) auto
  let ?n = "n\<lparr>cn_count := of_nat (length (cn_callbacks n)), cn_index := cn_index n + 1\<rparr>"
  have "at_split [] (cn_callbacks n) (?n\<lparr>cn_index := cn_index ?n - 1\<rparr>)"
    using assms(1-3) by (simp add: at_split_def)
  from invoke_from_split [OF this assms(4) m(2)] show ?thesis
    by (simp only: invoke_callbacks_def m(1) append_Nil diff_Suc_1)
qed

definition sample_connections :: connection_notifier where
  "sample_connections = new_connection_notifier\<lparr>cn_callbacks := [(10, 0), (11, 1), (12, 2)], cn_next_token := 3\<rparr>"

definition sample_body :: "nat \<Rightarrow> callback_action list" where
  "sample_body f = (if f = 10 then [Remove_Callback 0, Remove_Callback 1] else [])"

theorem invoke_callbacks_in_turn_witness: "\<exists>n'. invoke_callbacks 4 sample_body sample_connections = Some (n', [10, 12])"
proof -
  have "called_in_turn sample_body (4 - 1) (cn_callbacks sample_connections) = [10, 12]"
    by (simp add: sample_connections_def eval_nat_numeral sample_body_def)
  moreover have "\<forall>f. list_all (\<lambda>a. \<exists>t. a = Remove_Callback t) (sample_body f)" by (simp add: sample_body_def)
  ultimately show ?thesis
    using invoke_callbacks_in_turn [of sample_connections sample_body 4]
    by (auto simp: sample_connections_def new_connection_notifier_def)
qed

text \<open>C40: The count of callbacks to call does not tell the callbacks that were there from those registered meanwhile: a callback
  that registers another and removes it again makes the next callback be skipped, although it stays registered.\<close>

lemmas invocation_evaluation =
  invoke_callbacks_def eval_nat_numeral callback_body_def act_def cn_add_callback_def cn_remove_callback_def Let_def

theorem invoke_callbacks_skips:
  assumes "cn_index n = - 1" and "t \<noteq> cn_next_token n" and "u \<noteq> cn_next_token n" and "cn_callbacks n = [(f, t), (g, u)]"
    and "body f = [Add_Callback h, Remove_Callback (cn_next_token n)]"
  shows "\<exists>n'. invoke_callbacks 3 body n = Some (n', [f]) \<and> (g, u) \<in> set (cn_callbacks n')"
  using assms by (simp add: invocation_evaluation)

theorem invoke_callbacks_skips_witness:
  "\<exists>n'. invoke_callbacks 3 (\<lambda>f. [Add_Callback 7, Remove_Callback 2])
      (new_connection_notifier\<lparr>cn_callbacks := [(10, 0), (11, 1)], cn_next_token := 2\<rparr>) = Some (n', [10]) \<and> (11, 1) \<in> set (cn_callbacks n')"
  by (rule invoke_callbacks_skips [where t = 0 and u = 1]) (simp_all add: new_connection_notifier_def)

text \<open>The only callback, if it registers and removes two callbacks, makes the count wrap and the loop read beyond the list.\<close>

lemma invoke_callbacks_overruns:
  assumes "cn_index n = - 1" and "cn_next_token n = v" and "t \<noteq> v" and "t \<noteq> v + 1" and "cn_callbacks n = [(f, t)]"
    and "body f = [Add_Callback h, Remove_Callback v, Add_Callback h, Remove_Callback (v + 1)]"
  shows "invoke_callbacks (Suc (Suc fuel)) body n = None"
proof -
  have "(1 :: 64 word) < - 1" by code_simp
  with assms show ?thesis by (simp add: invocation_evaluation)
qed

end
