(* ===== verification/Sync_Config.thy ===== *)
theory Sync_Config
  imports Sync_File
begin

text \<open>
  The configuration of a synchronised Realm and the errors of the sync client: \<open>sync/sync_config.hpp\<close>,
  \<open>sync/sync_config.cpp\<close>.  The codes are those the code names; \<open>Other_Protocol\<close> and \<open>Other_Client\<close>
  stand for any other value the server or the client may report.  Functions and shared objects in the configuration are named by numbers.
\<close>

section \<open>Errors\<close>

datatype protocol_error =
    PE_connection_closed | PE_other_error
  | PE_unknown_message | PE_bad_syntax | PE_limits_exceeded | PE_wrong_protocol_version | PE_bad_session_ident
  | PE_reuse_of_session_ident | PE_bound_in_other_session | PE_bad_message_order | PE_bad_client_version
  | PE_illegal_realm_path | PE_no_such_realm | PE_bad_changeset | PE_bad_changeset_header_syntax | PE_bad_changeset_size
  | PE_bad_changesets | PE_bad_decompression | PE_partial_sync_disabled | PE_unsupported_session_feature
  | PE_transact_before_upload
  | PE_session_closed | PE_other_session_error | PE_disabled_session
  | PE_token_expired | PE_bad_authentication | PE_permission_denied
  | PE_bad_client_file | PE_bad_client_file_ident | PE_bad_origin_file_ident | PE_bad_server_file_ident
  | PE_bad_server_version | PE_client_file_blacklisted | PE_diverging_histories | PE_server_file_deleted
  | PE_user_blacklisted | PE_client_file_expired
  | Other_Protocol int

datatype client_error =
    CE_connection_closed | CE_pong_timeout
  | CE_bad_changeset | CE_bad_changeset_header_syntax | CE_bad_changeset_size | CE_bad_client_file_ident
  | CE_bad_client_file_ident_salt | CE_bad_client_version | CE_bad_compression | CE_bad_error_code
  | CE_bad_file_ident | CE_bad_message_order | CE_bad_origin_file_ident | CE_bad_progress
  | CE_bad_protocol_from_server | CE_bad_request_ident | CE_bad_server_version | CE_bad_session_ident
  | CE_bad_state_message | CE_bad_syntax | CE_bad_timestamp | CE_client_too_new_for_server
  | CE_client_too_old_for_server | CE_connect_timeout | CE_limits_exceeded | CE_protocol_mismatch
  | CE_ssl_server_cert_rejected | CE_unknown_message | CE_missing_protocol_feature | CE_bad_serial_transact_status
  | CE_bad_object_id_substitutions | CE_http_tunnel_failed
  | Other_Client int

datatype error_code =
    Protocol_Error protocol_error
  | Client_Error client_error
  | Operation_Aborted
  | No_Error
  | Other_Category int

record sync_error =
  error_code :: error_code
  error_message :: string
  is_fatal :: bool
  user_info :: "string \<rightharpoonup> string"
  is_unrecognized_by_client :: bool

definition new_sync_error :: "error_code \<Rightarrow> string \<Rightarrow> bool \<Rightarrow> sync_error" where
  "new_sync_error code message fatal =
     \<lparr>error_code = code, error_message = message, is_fatal = fatal, user_info = Map.empty, is_unrecognized_by_client = False\<rparr>"

definition is_client_reset_requested :: "sync_error \<Rightarrow> bool" where
  "is_client_reset_requested e =
     (case error_code e of
        Protocol_Error p \<Rightarrow> p = PE_bad_server_file_ident \<or> p = PE_bad_client_file_ident \<or> p = PE_bad_server_version \<or>
          p = PE_diverging_histories \<or> p = PE_client_file_expired
      | _ \<Rightarrow> False)"

definition is_client_error :: "sync_error \<Rightarrow> bool" where
  "is_client_error e = (case error_code e of Client_Error _ \<Rightarrow> True | _ \<Rightarrow> False)"

definition c_original_file_path_key :: string where "c_original_file_path_key = ''ORIGINAL_FILE_PATH''"
definition c_recovery_file_path_key :: string where "c_recovery_file_path_key = ''RECOVERY_FILE_PATH''"

section \<open>Configurations\<close>

datatype stop_policy = Immediately | Live_Indefinitely | After_Changes_Uploaded
datatype client_resync_mode = Recover | Discard_Local | Manual

record user_ref =
  user_object :: nat
  user_identity :: string
  user_local_identity :: string

record sync_config =
  sc_user :: "user_ref option"
  reference_realm_url :: string
  stop_policy :: stop_policy
  error_handler :: "nat option"
  transformer :: "nat option"
  realm_encryption_key :: "string option"
  client_validate_ssl :: bool
  ssl_trust_certificate_path :: "string option"
  ssl_verify_callback :: "nat option"
  proxy_config :: "nat option"
  is_partial :: bool
  custom_partial_sync_identifier :: "string option"
  cancel_waits_on_nonfatal_error :: bool
  authorization_header_name :: "string option"
  custom_http_headers :: "string \<rightharpoonup> string"
  url_prefix :: "string option"
  recovery_directory :: "string option"
  client_resync_mode :: client_resync_mode

definition new_sync_config :: "user_ref option \<Rightarrow> string \<Rightarrow> sync_config result" where
  "new_sync_config user url =
     (if contains_string ''/__partial/'' url
      then Inl (Invalid_Argument ''A Realm URL may not contain the reserved string \"/__partial/\".'')
      else Inr \<lparr>sc_user = user, reference_realm_url = url, stop_policy = After_Changes_Uploaded, error_handler = None,
             transformer = None, realm_encryption_key = None, client_validate_ssl = True, ssl_trust_certificate_path = None,
             ssl_verify_callback = None, proxy_config = None, is_partial = False, custom_partial_sync_identifier = None,
             cancel_waits_on_nonfatal_error = False, authorization_header_name = None, custom_http_headers = Map.empty,
             url_prefix = None, recovery_directory = None, client_resync_mode = Recover\<rparr>)"

text \<open>
  The hash function of the crypto library is an argument; each of its bytes is written as two hexadecimal digits.
\<close>

definition lower_hex_digit :: "nat \<Rightarrow> char" where
  "lower_hex_digit n = char_of (if n < 10 then 48 + n else 87 + n)"

definition partial_sync_identifier :: "(string \<Rightarrow> 8 word list) \<Rightarrow> string \<Rightarrow> user_ref \<Rightarrow> string" where
  "partial_sync_identifier sha1 client_uuid u =
     concat (map (\<lambda>c. [lower_hex_digit (unat c div 16), lower_hex_digit (unat c mod 16)])
       (sha1 (client_uuid @ ''/'' @ user_local_identity u)))"

definition realm_url :: "(string \<Rightarrow> 8 word list) \<Rightarrow> string \<Rightarrow> sync_config \<Rightarrow> string option" where
  "realm_url sha1 client_uuid c =
     (if reference_realm_url c = [] then None
      else case sc_user c of
          None \<Rightarrow> None
        | Some u \<Rightarrow>
            if \<not> is_partial c then Some (reference_realm_url c)
            else let base_url = (if last (reference_realm_url c) = CHR ''/'' then butlast (reference_realm_url c)
                                 else reference_realm_url c)
                 in case custom_partial_sync_identifier c of
                     Some i \<Rightarrow> Some (base_url @ ''/__partial/'' @ i)
                   | None \<Rightarrow> Some (base_url @ ''/__partial/'' @ user_identity u @ ''/'' @ partial_sync_identifier sha1 client_uuid u))"

end
