(* ===== verification/Sync_Session.thy ===== *)
theory Sync_Session
  imports Sync_Config Sync_Progress
begin

text \<open>
  The state machine of a synchronisation session: \<open>sync/sync_session.cpp\<close>.  The record \<open>sync_session\<close> holds the fields
  of the class.  The session object of the sync library (\<open>sync::Session\<close>) is not part of this repository: the model keeps
  which one is owned, the calls made on it as events, and the completion handlers it was given, any of which it may call
  once, at any time, with any code.  A handler runs under the lock of the session; the calls it makes on user code are events
  in the order in which they are made.  A failed assertion and a null session that is dereferenced are \<open>None\<close>.
\<close>

section \<open>State\<close>

datatype session_state = Waiting_For_Access_Token | Active | Dying | Inactive
datatype connection_state = Disconnected | Connecting | Connected
datatype notifier_type = Upload | Download

type_synonym callback = nat
type_synonym session_id = nat
type_synonym version = "64 word"

text \<open>
  What the session object was asked to call back: the handler registered by \<open>add_completion_callback\<close> with the resync counter
  it captured, or the one registered on entering \<open>Dying\<close> with the death count it captured.
\<close>

datatype waiter =
    Completion_Waiter session_id notifier_type int
  | Death_Waiter session_id "64 word"

record session_config =
  sess_transformer :: "nat option"
  sess_encryption_key :: "string option"
  sess_verify_ssl :: bool
  sess_trust_certificate_path :: "string option"
  sess_ssl_verify_callback :: "nat option"
  sess_proxy_config :: "nat option"
  sess_multiplex_ident :: string
  sess_authorization_header_name :: "string option"
  sess_custom_http_headers :: "string \<rightharpoonup> string"
  sess_url_prefix :: "string option"
  sess_client_reset :: "(string \<times> bool) option"

datatype file_action = Delete_Realm | Back_Up_Then_Delete_Realm

datatype event =
    Bind_Handler_Called
  | Error_Handler_Called nat sync_error
  | Wait_Called callback error_code
  | Connection_Changed connection_state connection_state
  | Progress_Called invocation
  | Unregistered string
  | User_Invalidated nat
  | File_Action_Made string "string option" "user_ref option" file_action string
  | Directory_Made string
  | Session_Made session_id session_config
  | Session_Destroyed session_id
  | Session_Bound session_id string string
  | Session_Refreshed session_id string
  | Reconnect_Delay_Cancelled session_id
  | Server_Overridden session_id string int
  | Commit_Notified session_id version

record sync_session =
  st :: session_state
  connection :: connection_state
  death_count :: "64 word"
  config :: sync_config
  force_client_resync :: bool
  realm_path_of :: string
  download_callbacks :: "callback list"
  upload_callbacks :: "callback list"
  client_resync_counter :: int
  server_override :: "(string \<times> int) option"
  session :: "session_id option"
  session_has_been_bound :: bool
  deferred_commit_notification :: "version option"
  deferred_close :: bool
  server_url :: "string option"
  multiplex_identity :: string
  external_alive :: bool
  progress_calls :: progress_notifier

text \<open>
  The session and its surroundings: the handlers that session objects still have to call, the number of session objects made
  so far, the errors reported by the sync client whose handler has not yet taken the lock, the external references whose
  destructor has not yet run, and what happened.
\<close>

record world = sync_session +
  waiters :: "waiter list"
  next_session :: session_id
  errors_in_flight :: "sync_error list"
  drops_in_flight :: nat
  events :: "event list"

definition emit :: "event list \<Rightarrow> world \<Rightarrow> world" where
  "emit es w = w\<lparr>events := events w @ es\<rparr>"

definition new_world :: "string \<Rightarrow> sync_config \<Rightarrow> bool \<Rightarrow> world" where
  "new_world path cfg force =
     \<lparr>st = Inactive, connection = Disconnected, death_count = 0, config = cfg, force_client_resync = force,
      realm_path_of = path, download_callbacks = [], upload_callbacks = [], client_resync_counter = 0,
      server_override = None, session = None, session_has_been_bound = False, deferred_commit_notification = None,
      deferred_close = False, server_url = None, multiplex_identity = [], external_alive = False,
      progress_calls = new_progress_notifier, waiters = [], next_session = 0, errors_in_flight = [], drops_in_flight = 0, events = []\<rparr>"

section \<open>Calls on the session object\<close>

definition call_session :: "(session_id \<Rightarrow> event) \<Rightarrow> world \<Rightarrow> world option" where
  "call_session e w = (case session w of None \<Rightarrow> None | Some i \<Rightarrow> Some (emit [e i] w))"

definition add_waiter :: "(session_id \<Rightarrow> waiter) \<Rightarrow> world \<Rightarrow> world option" where
  "add_waiter f w = (case session w of None \<Rightarrow> None | Some i \<Rightarrow> Some (w\<lparr>waiters := waiters w @ [f i]\<rparr>))"

definition add_completion_callback :: "notifier_type \<Rightarrow> world \<Rightarrow> world option" where
  "add_completion_callback direction w = add_waiter (\<lambda>i. Completion_Waiter i direction (client_resync_counter w)) w"

definition session_config_of :: "world \<Rightarrow> session_config" where
  "session_config_of w =
     (let c = config w
      in \<lparr>sess_transformer = transformer c, sess_encryption_key = realm_encryption_key c,
          sess_verify_ssl = client_validate_ssl c, sess_trust_certificate_path = ssl_trust_certificate_path c,
          sess_ssl_verify_callback = ssl_verify_callback c, sess_proxy_config = proxy_config c,
          sess_multiplex_ident = multiplex_identity w, sess_authorization_header_name = authorization_header_name c,
          sess_custom_http_headers = custom_http_headers c, sess_url_prefix = url_prefix c,
          sess_client_reset =
            (if force_client_resync w then Some (realm_path_of w @ ''.resync'', client_resync_mode c = Recover) else None)\<rparr>)"

definition create_sync_session :: "world \<Rightarrow> world" where
  "create_sync_session w =
     (case session w of
        Some _ \<Rightarrow> w
      | None \<Rightarrow>
          (let w1 = (if force_client_resync w then emit [Directory_Made (realm_path_of w @ ''.resync'')] w else w);
               i = next_session w1
           in (emit [Session_Made i (session_config_of w1)] w1)
                \<lparr>session := Some i, next_session := i + 1, session_has_been_bound := False\<rparr>))"

section \<open>Entering a state\<close>

definition unregister :: "world \<Rightarrow> world option" where
  "unregister w = (if st w = Inactive then Some (emit [Unregistered (realm_path_of w)] w) else None)"

definition enter_waiting :: "world \<Rightarrow> world option" where
  "enter_waiting w = Some (w\<lparr>deferred_close := False\<rparr>)"

definition enter_active :: "world \<Rightarrow> world option" where
  "enter_active w =
     do { w1 \<leftarrow> (if upload_callbacks w \<noteq> [] then add_completion_callback Upload w else Some w);
          (if download_callbacks w1 \<noteq> [] then add_completion_callback Download w1 else Some w1) }"

definition destroy_session :: "world \<Rightarrow> world" where
  "destroy_session w =
     (case session w of None \<Rightarrow> w | Some i \<Rightarrow> (emit [Session_Destroyed i] w)\<lparr>session := None\<rparr>)"

definition enter_inactive :: "world \<Rightarrow> world option" where
  "enter_inactive w =
     (let old_state = connection w;
          downloads = download_callbacks w;
          uploads = upload_callbacks w;
          w1 = w\<lparr>connection := Disconnected, download_callbacks := [], upload_callbacks := []\<rparr>
      in do { w2 \<leftarrow> unregister (destroy_session w1);
              let w3 = (if old_state \<noteq> Disconnected then emit [Connection_Changed old_state (connection w2)] w2 else w2)
              in Some (emit (map (\<lambda>c. Wait_Called c Operation_Aborted) (downloads @ uploads)) w3) })"

definition advance_to :: "(world \<Rightarrow> world option) \<Rightarrow> session_state \<Rightarrow> world \<Rightarrow> world option" where
  "advance_to enter s w = (if s = st w then None else enter (w\<lparr>st := s\<rparr>))"

definition enter_dying :: "world \<Rightarrow> world option" where
  "enter_dying w =
     (if session w = None then advance_to enter_inactive Inactive w
      else let w1 = w\<lparr>death_count := death_count w + 1\<rparr>
           in add_waiter (\<lambda>i. Death_Waiter i (death_count w1)) w1)"

definition advance_state :: "session_state \<Rightarrow> world \<Rightarrow> world option" where
  "advance_state s w =
     (case s of
        Waiting_For_Access_Token \<Rightarrow> advance_to enter_waiting s w
      | Active \<Rightarrow> advance_to enter_active s w
      | Dying \<Rightarrow> advance_to enter_dying s w
      | Inactive \<Rightarrow> advance_to enter_inactive s w)"

section \<open>What each state does\<close>

definition close_state :: "world \<Rightarrow> world option" where
  "close_state w =
     (case st w of
        Waiting_For_Access_Token \<Rightarrow>
          (case stop_policy (config w) of
             Immediately \<Rightarrow> advance_state Inactive w
           | Live_Indefinitely \<Rightarrow> Some (w\<lparr>deferred_close := True\<rparr>)
           | After_Changes_Uploaded \<Rightarrow> Some (w\<lparr>deferred_close := True\<rparr>))
      | Active \<Rightarrow>
          (case stop_policy (config w) of
             Immediately \<Rightarrow> advance_state Inactive w
           | Live_Indefinitely \<Rightarrow> Some w
           | After_Changes_Uploaded \<Rightarrow> advance_state Dying w)
      | Dying \<Rightarrow> Some w
      | Inactive \<Rightarrow> unregister w)"

definition bind_or_refresh :: "string \<Rightarrow> world \<Rightarrow> world option" where
  "bind_or_refresh access_token w =
     (if session_has_been_bound w
      then do { w1 \<leftarrow> call_session (\<lambda>i. Session_Refreshed i access_token) w;
                call_session Reconnect_Delay_Cancelled w1 }
      else do { url \<leftarrow> server_url w;
                w1 \<leftarrow> call_session (\<lambda>i. Session_Bound i url access_token) w;
                Some (w1\<lparr>session_has_been_bound := True\<rparr>) })"

definition refresh_waiting :: "string \<Rightarrow> string option \<Rightarrow> world \<Rightarrow> world option" where
  "refresh_waiting access_token url w =
     (let w1 = create_sync_session w;
          w2 = (if server_url w1 = None then w1\<lparr>server_url := url\<rparr> else w1)
      in do { w3 \<leftarrow> bind_or_refresh access_token w2;
              w4 \<leftarrow> (case server_override w3 of
                       None \<Rightarrow> Some w3
                     | Some (address, port) \<Rightarrow> call_session (\<lambda>i. Server_Overridden i address port) w3);
              w5 \<leftarrow> (case deferred_commit_notification w4 of
                       None \<Rightarrow> Some w4
                     | Some v \<Rightarrow> do { w' \<leftarrow> call_session (\<lambda>i. Commit_Notified i v) w4;
                                     Some (w'\<lparr>deferred_commit_notification := None\<rparr>) });
              w6 \<leftarrow> advance_state Active w5;
              (if deferred_close w6 then close_state w6 else Some w6) })"

definition refresh_state :: "string \<Rightarrow> string option \<Rightarrow> world \<Rightarrow> world option" where
  "refresh_state access_token url w =
     (case st w of
        Waiting_For_Access_Token \<Rightarrow> refresh_waiting access_token url w
      | Active \<Rightarrow> do { w1 \<leftarrow> call_session (\<lambda>i. Session_Refreshed i access_token) w;
                       call_session Reconnect_Delay_Cancelled w1 }
      | Dying \<Rightarrow> Some w
      | Inactive \<Rightarrow> Some w)"

definition access_token_expired :: "world \<Rightarrow> world option" where
  "access_token_expired w =
     (if st w = Active
      then do { w1 \<leftarrow> advance_state Waiting_For_Access_Token w; Some (emit [Bind_Handler_Called] w1) }
      else Some w)"

definition notify_state :: "version \<Rightarrow> world \<Rightarrow> world option" where
  "notify_state v w =
     (case st w of
        Waiting_For_Access_Token \<Rightarrow> Some (w\<lparr>deferred_commit_notification := Some v\<rparr>)
      | Active \<Rightarrow> call_session (\<lambda>i. Commit_Notified i v) w
      | Dying \<Rightarrow> Some w
      | Inactive \<Rightarrow> Some w)"

text \<open>Whether the binding must be asked for a token is returned beside the new state.\<close>

definition revive_state :: "world \<Rightarrow> (world \<times> bool) option" where
  "revive_state w =
     (case st w of
        Waiting_For_Access_Token \<Rightarrow> Some (w\<lparr>deferred_close := False\<rparr>, False)
      | Active \<Rightarrow> Some (w, False)
      | Dying \<Rightarrow> do { w1 \<leftarrow> advance_state Active w; Some (w1, False) }
      | Inactive \<Rightarrow> do { w1 \<leftarrow> advance_state Waiting_For_Access_Token w; Some (w1, True) })"

definition handle_reconnect :: "world \<Rightarrow> world option" where
  "handle_reconnect w =
     (case st w of
        Waiting_For_Access_Token \<Rightarrow> Some (emit [Bind_Handler_Called] w)
      | Active \<Rightarrow> call_session Reconnect_Delay_Cancelled w
      | Dying \<Rightarrow> Some w
      | Inactive \<Rightarrow> Some w)"

definition log_out :: "world \<Rightarrow> world option" where
  "log_out w = (if st w = Inactive then Some w else advance_state Inactive w)"

definition override_server :: "string \<Rightarrow> int \<Rightarrow> world \<Rightarrow> world option" where
  "override_server address port w =
     (let w1 = w\<lparr>server_override := Some (address, port)\<rparr>
      in if st w = Active \<or> st w = Dying then call_session (\<lambda>i. Server_Overridden i address port) w1 else Some w1)"

definition wait_state :: "notifier_type \<Rightarrow> world \<Rightarrow> world option" where
  "wait_state direction w =
     (if st w = Active \<or> st w = Dying then add_completion_callback direction w else Some w)"

text \<open>Whether the error was taken care of is returned beside the new state.\<close>

definition handle_error_state :: "sync_error \<Rightarrow> world \<Rightarrow> (world \<times> bool) option" where
  "handle_error_state e w =
     (if st w = Dying
      then do { w1 \<leftarrow> (if is_fatal e then advance_state Inactive w else Some w); Some (w1, True) }
      else Some (w, False))"

end
