(* ===== verification/Sync_Session_Ops.thy ===== *)
theory Sync_Session_Ops
  imports Sync_Session
begin

text \<open>
  The public operations of a session, the handler of its errors and the handlers it gives to the session object, and the
  steps in which they and the sync client can interleave.
\<close>

section \<open>Public operations\<close>

definition refresh_access_token :: "string \<Rightarrow> string option \<Rightarrow> world \<Rightarrow> world option" where
  "refresh_access_token access_token url w =
     (if server_url w = None \<and> url = None then Some w else refresh_state access_token url w)"

definition revive_if_needed :: "world \<Rightarrow> world option" where
  "revive_if_needed w =
     do { (w1, ask) \<leftarrow> revive_state w; Some (if ask then emit [Bind_Handler_Called] w1 else w1) }"

definition wait_for_upload_completion :: "callback \<Rightarrow> world \<Rightarrow> world option" where
  "wait_for_upload_completion c w =
     do { w1 \<leftarrow> (if upload_callbacks w = [] then wait_state Upload w else Some w);
          Some (w1\<lparr>upload_callbacks := upload_callbacks w1 @ [c]\<rparr>) }"

definition wait_for_download_completion :: "callback \<Rightarrow> world \<Rightarrow> world option" where
  "wait_for_download_completion c w =
     do { w1 \<leftarrow> (if download_callbacks w = [] then wait_state Download w else Some w);
          Some (w1\<lparr>download_callbacks := download_callbacks w1 @ [c]\<rparr>) }"

definition nonsync_transact_notify :: "version \<Rightarrow> world \<Rightarrow> world option" where
  "nonsync_transact_notify v w = notify_state v (w\<lparr>progress_calls := set_local_version v (progress_calls w)\<rparr>)"

definition register_progress_notifier :: "nat \<Rightarrow> notifier_type \<Rightarrow> bool \<Rightarrow> world \<Rightarrow> world \<times> 64 word" where
  "register_progress_notifier f direction streaming w =
     (let (n, token, calls) = register_callback f (direction = Download) streaming (progress_calls w)
      in (emit (map Progress_Called calls) (w\<lparr>progress_calls := n\<rparr>), token))"

definition unregister_progress_notifier :: "64 word \<Rightarrow> world \<Rightarrow> world" where
  "unregister_progress_notifier token w = w\<lparr>progress_calls := unregister_callback token (progress_calls w)\<rparr>"

definition handle_progress_update :: "progress_message \<Rightarrow> world \<Rightarrow> world" where
  "handle_progress_update m w =
     (let (n, calls) = update_progress m (progress_calls w)
      in emit (map Progress_Called calls) (w\<lparr>progress_calls := n\<rparr>))"

definition set_multiplex_identifier :: "string \<Rightarrow> world \<Rightarrow> world" where
  "set_multiplex_identifier ident w = w\<lparr>multiplex_identity := ident\<rparr>"

definition set_url_prefix :: "string \<Rightarrow> world \<Rightarrow> world" where
  "set_url_prefix prefix w = w\<lparr>config := (config w)\<lparr>url_prefix := Some prefix\<rparr>\<rparr>"

datatype public_state = Public_Waiting | Public_Active | Public_Dying | Public_Inactive

definition get_public_state :: "world \<Rightarrow> public_state" where
  "get_public_state w =
     (case st w of
        Waiting_For_Access_Token \<Rightarrow> Public_Waiting
      | Active \<Rightarrow> Public_Active
      | Dying \<Rightarrow> Public_Dying
      | Inactive \<Rightarrow> Public_Inactive)"

text \<open>
  \<open>update_configuration\<close> releases the lock whenever it makes the session inactive; the list holds what other threads do to
  the session each time, and is empty once they leave it alone.
\<close>

definition install_configuration :: "sync_config \<Rightarrow> world \<Rightarrow> world option" where
  "install_configuration cfg w =
     (if st w = Inactive \<and> session w = None \<and> sc_user (config w) = sc_user cfg \<and>
         reference_realm_url (config w) = reference_realm_url cfg \<and> is_partial (config w) = is_partial cfg
      then revive_if_needed (w\<lparr>config := cfg\<rparr>) else None)"

fun update_configuration :: "(world \<Rightarrow> world option) list \<Rightarrow> sync_config \<Rightarrow> world \<Rightarrow> world option" where
  "update_configuration [] cfg w =
     do { w1 \<leftarrow> (if st w \<noteq> Inactive then advance_state Inactive w else Some w); install_configuration cfg w1 }"
| "update_configuration (others # rest) cfg w =
     (if st w \<noteq> Inactive
      then do { w1 \<leftarrow> advance_state Inactive w; w2 \<leftarrow> others w1; update_configuration rest cfg w2 }
      else install_configuration cfg w)"

text \<open>
  A reference from outside: the result says whether one existed.  When the last one goes, its destructor still has to take
  the lock, and another may have been made by then.
\<close>

definition external_reference :: "world \<Rightarrow> world \<times> bool" where
  "external_reference w = (if external_alive w then (w, True) else (w\<lparr>external_alive := True\<rparr>, False))"

definition existing_external_reference :: "world \<Rightarrow> bool" where
  "existing_external_reference w \<longleftrightarrow> external_alive w"

definition did_drop_external_reference :: "world \<Rightarrow> world option" where
  "did_drop_external_reference w = (if external_alive w then Some w else close_state w)"

section \<open>Handlers given to the session object\<close>

definition completion_handler :: "notifier_type \<Rightarrow> int \<Rightarrow> error_code \<Rightarrow> world \<Rightarrow> world" where
  "completion_handler direction resync_counter ec w =
     (if resync_counter \<noteq> client_resync_counter w then w
      else case direction of
          Download \<Rightarrow> emit (map (\<lambda>c. Wait_Called c ec) (download_callbacks w)) (w\<lparr>download_callbacks := []\<rparr>)
        | Upload \<Rightarrow> emit (map (\<lambda>c. Wait_Called c ec) (upload_callbacks w)) (w\<lparr>upload_callbacks := []\<rparr>))"

definition death_handler :: "64 word \<Rightarrow> world \<Rightarrow> world option" where
  "death_handler current_death_count w =
     (if st w = Dying \<and> death_count w = current_death_count then advance_state Inactive w else Some w)"

definition fire :: "waiter \<Rightarrow> error_code \<Rightarrow> world \<Rightarrow> world option" where
  "fire x ec w =
     (case x of
        Completion_Waiter _ direction n \<Rightarrow> Some (completion_handler direction n ec w)
      | Death_Waiter _ n \<Rightarrow> death_handler n w)"

text \<open>The listener of connection changes, up to the point where it hands an error to \<open>handle_error\<close>.\<close>

definition connection_listener :: "connection_state \<Rightarrow> world \<Rightarrow> world" where
  "connection_listener new_state w =
     emit [Connection_Changed (connection w) new_state] (w\<lparr>connection := new_state\<rparr>)"

section \<open>Errors\<close>

definition cancel_pending_waits :: "error_code \<Rightarrow> world \<Rightarrow> world" where
  "cancel_pending_waits ec w =
     emit (map (\<lambda>c. Wait_Called c ec) (download_callbacks w @ upload_callbacks w))
       (w\<lparr>download_callbacks := [], upload_callbacks := []\<rparr>)"

definition get_recovery_file_path :: "'fs file_system \<Rightarrow> string \<Rightarrow> string \<Rightarrow> world \<Rightarrow> ('fs, string) fs_op" where
  "get_recovery_file_path F base local_time w =
     and_then (recovery_directory_path F base (recovery_directory (config w)))
       (\<lambda>dir. reserve_unique_file_name F dir (create_timestamped_template ''recovered_realm'' local_time 8))"

text \<open>The name reserved for a backup, and the address of the Realm, are arguments.\<close>

definition mark_file_for_deletion :: "string \<Rightarrow> string option \<Rightarrow> bool \<Rightarrow> sync_error \<Rightarrow> world \<Rightarrow> sync_error \<times> world" where
  "mark_file_for_deletion recovery url should_backup e w =
     (let e1 = e\<lparr>user_info := (user_info e)(c_original_file_path_key \<mapsto> realm_path_of w)\<rparr>;
          e2 = (if should_backup then e1\<lparr>user_info := (user_info e1)(c_recovery_file_path_key \<mapsto> recovery)\<rparr> else e1);
          action = (if should_backup then Back_Up_Then_Delete_Realm else Delete_Realm);
          recovery_path = (if should_backup then recovery else [])
      in (e2, emit [File_Action_Made (realm_path_of w) url (sc_user (config w)) action recovery_path] w))"

datatype error_verdict = Not_Reported | Ask_For_Token | Invalidate_User | Delete_File bool | Only_Reported

definition protocol_verdict :: "protocol_error \<Rightarrow> error_verdict" where
  "protocol_verdict p =
     (if p = PE_connection_closed \<or> p = PE_other_error then Not_Reported
      else if p = PE_session_closed \<or> p = PE_other_session_error \<or> p = PE_disabled_session then Not_Reported
      else if p = PE_token_expired then Ask_For_Token
      else if p = PE_bad_authentication then Invalidate_User
      else if p = PE_permission_denied then Delete_File False
      else if p = PE_bad_client_file \<or> p = PE_bad_client_file_ident \<or> p = PE_bad_origin_file_ident \<or>
         p = PE_bad_server_file_ident \<or> p = PE_bad_server_version \<or> p = PE_client_file_blacklisted \<or>
         p = PE_diverging_histories \<or> p = PE_server_file_deleted \<or> p = PE_user_blacklisted \<or> p = PE_client_file_expired
      then Delete_File True
      else Only_Reported)"

definition client_verdict :: "client_error \<Rightarrow> error_verdict" where
  "client_verdict c = (if c = CE_connection_closed \<or> c = CE_pong_timeout then Not_Reported else Only_Reported)"

datatype next_state_after_error = Next_None | Next_Inactive | Next_Error

text \<open>The resynchronisation of the client: the pending waits survive the old session object.\<close>

definition client_resync :: "world \<Rightarrow> world option" where
  "client_resync w =
     (let downloads = download_callbacks w;
          uploads = upload_callbacks w;
          w1 = w\<lparr>force_client_resync := True, client_resync_counter := client_resync_counter w + 1,
                 download_callbacks := [], upload_callbacks := []\<rparr>
      in do { w2 \<leftarrow> advance_state Inactive w1;
              revive_if_needed (w2\<lparr>download_callbacks := downloads, upload_callbacks := uploads\<rparr>) })"

definition finish_error :: "next_state_after_error \<Rightarrow> sync_error \<Rightarrow> world \<Rightarrow> world option" where
  "finish_error next_state e w =
     do { w1 \<leftarrow> (case next_state of
                    Next_None \<Rightarrow> Some (if cancel_waits_on_nonfatal_error (config w) then cancel_pending_waits (error_code e) w else w)
                  | Next_Inactive \<Rightarrow> advance_state Inactive w
                  | Next_Error \<Rightarrow> Some (cancel_pending_waits (error_code e) w));
          Some (case error_handler (config w1) of None \<Rightarrow> w1 | Some h \<Rightarrow> emit [Error_Handler_Called h e] w1) }"

definition verdict_of :: "sync_error \<Rightarrow> error_verdict" where
  "verdict_of e =
     (case error_code e of
        Protocol_Error p \<Rightarrow> protocol_verdict p
      | Client_Error c \<Rightarrow> client_verdict c
      | _ \<Rightarrow> Only_Reported)"

definition classified :: "sync_error \<Rightarrow> sync_error" where
  "classified e =
     (case error_code e of
        Protocol_Error _ \<Rightarrow> e
      | Client_Error _ \<Rightarrow> e
      | _ \<Rightarrow> e\<lparr>is_unrecognized_by_client := True\<rparr>)"

definition report_error :: "string \<Rightarrow> string option \<Rightarrow> sync_error \<Rightarrow> world \<Rightarrow> world option" where
  "report_error recovery url e w =
     (let next_state = (if is_fatal e then Next_Error else Next_None)
      in case verdict_of e of
          Not_Reported \<Rightarrow> Some w
        | Ask_For_Token \<Rightarrow> access_token_expired w
        | Invalidate_User \<Rightarrow>
            (let w1 = cancel_pending_waits (error_code e) w;
                 w2 = (case sc_user (config w) of None \<Rightarrow> w1 | Some u \<Rightarrow> emit [User_Invalidated (user_object u)] w1)
             in finish_error Next_None e w2)
        | Delete_File should_backup \<Rightarrow>
            (let (e1, w1) = mark_file_for_deletion recovery url should_backup e w
             in finish_error Next_Inactive e1 w1)
        | Only_Reported \<Rightarrow> finish_error next_state (classified e) w)"

definition handle_error :: "string \<Rightarrow> string option \<Rightarrow> sync_error \<Rightarrow> world \<Rightarrow> world option" where
  "handle_error recovery url e w =
     do { (w1, handled) \<leftarrow> handle_error_state e w;
          (if handled then Some w1
           else if is_client_reset_requested e \<and> client_resync_mode (config w1) \<noteq> Manual then client_resync w1
           else report_error recovery url e w1) }"

section \<open>Steps\<close>

text \<open>
  What can happen next: a call of the public interface, a handler that a session object still has to call, a change of the
  connection (with or without an error) reported by the session object that is owned, an error whose report was delayed
  because another thread took the lock first, the loss of the last external reference and its destructor.
\<close>

datatype action =
    Refresh string "string option"
  | Commit version
  | Revive
  | Reconnect
  | Log_Out
  | Close
  | Override string int
  | Wait_Upload callback
  | Wait_Download callback
  | Reconfigure sync_config
  | Register_Progress nat notifier_type bool
  | Unregister_Progress "64 word"
  | Progress progress_message
  | Set_Multiplex string
  | Set_Prefix string
  | Reference
  | Release
  | Drop
  | Fire waiter error_code
  | Report connection_state "sync_error option"
  | Handle sync_error string "string option"

definition perform :: "action \<Rightarrow> world \<Rightarrow> world option" where
  "perform a w =
     (case a of
        Refresh t url \<Rightarrow> refresh_access_token t url w
      | Commit v \<Rightarrow> nonsync_transact_notify v w
      | Revive \<Rightarrow> revive_if_needed w
      | Reconnect \<Rightarrow> handle_reconnect w
      | Log_Out \<Rightarrow> log_out w
      | Close \<Rightarrow> close_state w
      | Override address port \<Rightarrow> override_server address port w
      | Wait_Upload c \<Rightarrow> wait_for_upload_completion c w
      | Wait_Download c \<Rightarrow> wait_for_download_completion c w
      | Reconfigure cfg \<Rightarrow> update_configuration [] cfg w
      | Register_Progress f d streaming \<Rightarrow> Some (fst (register_progress_notifier f d streaming w))
      | Unregister_Progress t \<Rightarrow> Some (unregister_progress_notifier t w)
      | Progress m \<Rightarrow> Some (handle_progress_update m w)
      | Set_Multiplex i \<Rightarrow> Some (set_multiplex_identifier i w)
      | Set_Prefix p \<Rightarrow> Some (set_url_prefix p w)
      | Reference \<Rightarrow> Some (fst (external_reference w))
      | Release \<Rightarrow> Some (w\<lparr>external_alive := False, drops_in_flight := drops_in_flight w + 1\<rparr>)
      | Drop \<Rightarrow> did_drop_external_reference (w\<lparr>drops_in_flight := drops_in_flight w - 1\<rparr>)
      | Fire x ec \<Rightarrow> fire x ec (w\<lparr>waiters := remove1 x (waiters w)\<rparr>)
      | Report c e \<Rightarrow> Some (connection_listener c (w\<lparr>errors_in_flight := errors_in_flight w @ (case e of None \<Rightarrow> [] | Some e \<Rightarrow> [e])\<rparr>))
      | Handle e recovery url \<Rightarrow> handle_error recovery url e (w\<lparr>errors_in_flight := remove1 e (errors_in_flight w)\<rparr>))"

definition enabled :: "action \<Rightarrow> world \<Rightarrow> bool" where
  "enabled a w =
     (case a of
        Release \<Rightarrow> external_alive w
      | Drop \<Rightarrow> 0 < drops_in_flight w
      | Fire x _ \<Rightarrow> x \<in> set (waiters w)
      | Report _ _ \<Rightarrow> session w \<noteq> None
      | Progress _ \<Rightarrow> session w \<noteq> None
      | Handle e _ _ \<Rightarrow> e \<in> set (errors_in_flight w)
      | Reconfigure cfg \<Rightarrow> sc_user (config w) = sc_user cfg \<and> reference_realm_url (config w) = reference_realm_url cfg \<and>
          is_partial (config w) = is_partial cfg
      | _ \<Rightarrow> True)"

inductive step :: "world \<Rightarrow> action \<Rightarrow> world \<Rightarrow> bool" where
  step: "enabled a w \<Longrightarrow> perform a w = Some w' \<Longrightarrow> step w a w'"

inductive run :: "world \<Rightarrow> action list \<Rightarrow> world \<Rightarrow> bool" where
  run_none: "run w [] w"
| run_step: "run w as w1 \<Longrightarrow> step w1 a w2 \<Longrightarrow> run w (as @ [a]) w2"

definition reachable :: "world \<Rightarrow> bool" where
  "reachable w \<longleftrightarrow> (\<exists>path cfg force as. run (new_world path cfg force) as w)"

inductive_cases step_cases: "step w a w'"
inductive_simps step_iff: "step w a w'"

end
