(* ===== verification/Sync_Session_Laws.thy ===== *)
theory Sync_Session_Laws
  imports Sync_Session_Ops "HOL-Library.Multiset"
begin

text \<open>
  The states of a session as its operations leave them: what entering each state does to the record, the well-formedness of a
  session, that every operation keeps it, and that on a well-formed session no operation fails except the report of an error
  to a session that has become inactive meanwhile.
\<close>

section \<open>Entering a state\<close>

lemma emit_sel [simp]:
  "st (emit es w) = st w" "connection (emit es w) = connection w" "death_count (emit es w) = death_count w"
  "config (emit es w) = config w" "force_client_resync (emit es w) = force_client_resync w"
  "realm_path_of (emit es w) = realm_path_of w" "download_callbacks (emit es w) = download_callbacks w"
  "upload_callbacks (emit es w) = upload_callbacks w" "client_resync_counter (emit es w) = client_resync_counter w"
  "server_override (emit es w) = server_override w" "session (emit es w) = session w"
  "session_has_been_bound (emit es w) = session_has_been_bound w"
  "deferred_commit_notification (emit es w) = deferred_commit_notification w" "deferred_close (emit es w) = deferred_close w"
  "server_url (emit es w) = server_url w" "multiplex_identity (emit es w) = multiplex_identity w"
  "external_alive (emit es w) = external_alive w" "waiters (emit es w) = waiters w" "next_session (emit es w) = next_session w"
  "errors_in_flight (emit es w) = errors_in_flight w" "drops_in_flight (emit es w) = drops_in_flight w"
  "progress_calls (emit es w) = progress_calls w" "events (emit es w) = events w @ es"
  by (simp_all add: emit_def)

definition inactive_events :: "world \<Rightarrow> event list" where
  "inactive_events w =
     (case session w of None \<Rightarrow> [] | Some i \<Rightarrow> [Session_Destroyed i]) @ [Unregistered (realm_path_of w)] @
     (if connection w \<noteq> Disconnected then [Connection_Changed (connection w) Disconnected] else []) @
     map (\<lambda>c. Wait_Called c Operation_Aborted) (download_callbacks w @ upload_callbacks w)"

lemma advance_inactive:
  assumes "st w \<noteq> Inactive"
  shows "advance_state Inactive w = Some (w\<lparr>st := Inactive, connection := Disconnected, download_callbacks := [],
    upload_callbacks := [], session := None, events := events w @ inactive_events w\<rparr>)"
  using assms
  by (cases "session w")
    (simp_all add: advance_state_def advance_to_def enter_inactive_def destroy_session_def unregister_def inactive_events_def
      emit_def Let_def)

lemma advance_waiting:
  assumes "st w \<noteq> Waiting_For_Access_Token"
  shows "advance_state Waiting_For_Access_Token w = Some (w\<lparr>st := Waiting_For_Access_Token, deferred_close := False\<rparr>)"
  using assms by (simp add: advance_state_def advance_to_def enter_waiting_def)

definition new_waiters :: "session_id \<Rightarrow> world \<Rightarrow> waiter list" where
  "new_waiters i w =
     (if upload_callbacks w \<noteq> [] then [Completion_Waiter i Upload (client_resync_counter w)] else []) @
     (if download_callbacks w \<noteq> [] then [Completion_Waiter i Download (client_resync_counter w)] else [])"

lemma advance_active:
  assumes "st w \<noteq> Active" "session w = Some i"
  shows "advance_state Active w = Some (w\<lparr>st := Active, waiters := waiters w @ new_waiters i w\<rparr>)"
  using assms
  by (simp add: advance_state_def advance_to_def enter_active_def add_completion_callback_def add_waiter_def new_waiters_def)

lemma advance_dying:
  assumes "st w \<noteq> Dying" "session w = Some i"
  shows "advance_state Dying w = Some (w\<lparr>st := Dying, death_count := death_count w + 1,
    waiters := waiters w @ [Death_Waiter i (death_count w + 1)]\<rparr>)"
  using assms by (simp add: advance_state_def advance_to_def enter_dying_def add_waiter_def Let_def)

lemma advance_same: "advance_state (st w) w = None"
  by (cases "st w") (simp_all add: advance_state_def advance_to_def)

section \<open>Well-formed sessions\<close>

text \<open>
  A live session owns a session object that has been given a token and an address, has passed on every commit it was told of
  while it waited, and has a handler of this object for each kind of pending waits.
\<close>

definition awaited :: "notifier_type \<Rightarrow> session_id \<Rightarrow> world \<Rightarrow> bool" where
  "awaited d i w \<longleftrightarrow> Completion_Waiter i d (client_resync_counter w) \<in> set (waiters w)"

definition live_ok :: "session_id \<Rightarrow> world \<Rightarrow> bool" where
  "live_ok i w \<longleftrightarrow>
     session w = Some i \<and> session_has_been_bound w \<and> server_url w \<noteq> None \<and> deferred_commit_notification w = None \<and>
     (upload_callbacks w \<noteq> [] \<longrightarrow> awaited Upload i w) \<and> (download_callbacks w \<noteq> [] \<longrightarrow> awaited Download i w)"

definition state_ok :: "world \<Rightarrow> bool" where
  "state_ok w =
     (case st w of
        Waiting_For_Access_Token \<Rightarrow> session w \<noteq> None \<longrightarrow> session_has_been_bound w \<and> server_url w \<noteq> None
      | Active \<Rightarrow> \<exists>i. live_ok i w
      | Dying \<Rightarrow> \<exists>i. live_ok i w \<and> Death_Waiter i (death_count w) \<in> set (waiters w)
      | Inactive \<Rightarrow> session w = None \<and> connection w = Disconnected)"

definition counter_ok :: "int \<Rightarrow> waiter \<Rightarrow> bool" where
  "counter_ok n x = (case x of Completion_Waiter _ _ m \<Rightarrow> m \<le> n | Death_Waiter _ _ \<Rightarrow> True)"

definition session_ok :: "world \<Rightarrow> bool" where
  "session_ok w \<longleftrightarrow> state_ok w \<and> list_all (counter_ok (client_resync_counter w)) (waiters w)"

lemmas session_ok_defs = session_ok_def state_ok_def live_ok_def awaited_def

lemma session_ok_new: "session_ok (new_world path cfg force)"
  by (simp add: session_ok_defs new_world_def)

lemma session_ok_cong:
  assumes "st w = st v" "connection w = connection v" "session w = session v"
    "session_has_been_bound w = session_has_been_bound v" "server_url w = server_url v"
    "deferred_commit_notification w = deferred_commit_notification v" "upload_callbacks w = upload_callbacks v"
    "download_callbacks w = download_callbacks v" "client_resync_counter w = client_resync_counter v"
    "death_count w = death_count v" "waiters w = waiters v"
  shows "session_ok w = session_ok v"
  unfolding session_ok_defs assms ..

lemma session_ok_frame [simp]:
  "session_ok (emit es w) = session_ok w" "session_ok (w\<lparr>events := es\<rparr>) = session_ok w"
  "session_ok (w\<lparr>deferred_close := b\<rparr>) = session_ok w" "session_ok (w\<lparr>config := cfg\<rparr>) = session_ok w"
  "session_ok (w\<lparr>multiplex_identity := m\<rparr>) = session_ok w" "session_ok (w\<lparr>external_alive := e\<rparr>) = session_ok w"
  "session_ok (w\<lparr>progress_calls := p\<rparr>) = session_ok w" "session_ok (w\<lparr>errors_in_flight := f\<rparr>) = session_ok w"
  "session_ok (w\<lparr>drops_in_flight := k\<rparr>) = session_ok w" "session_ok (w\<lparr>server_override := v\<rparr>) = session_ok w"
  "session_ok (w\<lparr>force_client_resync := r\<rparr>) = session_ok w"
  by (rule session_ok_cong, simp_all)+

lemma advance_moves: "advance_state s w = Some w' \<Longrightarrow> st w \<noteq> s"
  using advance_same [of w] by (cases "st w = s") simp_all

lemma quiescent_ok:
  assumes "list_all (counter_ok (client_resync_counter w)) (waiters w)" "advance_state Inactive w = Some w'"
  shows "session_ok w'"
proof -
  have w': "w' = w\<lparr>st := Inactive, connection := Disconnected, download_callbacks := [], upload_callbacks := [],
      session := None, events := events w @ inactive_events w\<rparr>"
    using assms(2) advance_inactive [OF advance_moves [OF assms(2)]] by simp
  show ?thesis using assms(1) unfolding w' by (simp add: session_ok_def state_ok_def)
qed

lemma session_ok_advance_inactive:
  assumes "session_ok w" "advance_state Inactive w = Some w'"
  shows "session_ok w'"
  using assms unfolding session_ok_def [of w] by (blast intro: quiescent_ok)

lemma live_session:
  assumes "session_ok w" "st w = Active \<or> st w = Dying"
  obtains i where "live_ok i w" "session w = Some i"
proof -
  have "\<exists>i. live_ok i w" using assms by (auto simp: session_ok_def state_ok_def)
  then show thesis using that by (auto simp: live_ok_def)
qed

lemma session_ok_advance_waiting:
  assumes "session_ok w" "advance_state Waiting_For_Access_Token w = Some w'"
  shows "session_ok w'" "st w' = Waiting_For_Access_Token"
proof -
  have w': "w' = w\<lparr>st := Waiting_For_Access_Token, deferred_close := False\<rparr>"
    using assms(2) advance_waiting [OF advance_moves [OF assms(2)]] by simp
  show "session_ok w'" using assms(1) unfolding w' session_ok_def state_ok_def
    by (cases "st w") (auto simp: live_ok_def)
  show "st w' = Waiting_For_Access_Token" by (simp add: w')
qed

lemma session_ok_advance_active:
  assumes "session_ok w" "session w = Some i" "session_has_been_bound w" "server_url w \<noteq> None"
    "deferred_commit_notification w = None" "advance_state Active w = Some w'"
  shows "session_ok w'" "st w' = Active"
proof -
  have w': "w' = w\<lparr>st := Active, waiters := waiters w @ new_waiters i w\<rparr>"
    using assms(6) advance_active [OF advance_moves [OF assms(6)] assms(2)] by simp
  have "live_ok i w'" using assms(2-5) by (simp add: w' live_ok_def awaited_def new_waiters_def)
  moreover have "list_all (counter_ok (client_resync_counter w)) (new_waiters i w)"
    by (simp add: new_waiters_def counter_ok_def)
  ultimately show "session_ok w'" using assms(1) unfolding session_ok_def state_ok_def by (auto simp: w')
  show "st w' = Active" by (simp add: w')
qed

lemma session_ok_advance_dying:
  assumes "session_ok w" "st w = Active" "advance_state Dying w = Some w'"
  shows "session_ok w'" "st w' = Dying"
proof -
  obtain i where i: "live_ok i w" "session w = Some i" using live_session assms(1,2) by blast
  have w': "w' = w\<lparr>st := Dying, death_count := death_count w + 1, waiters := waiters w @ [Death_Waiter i (death_count w + 1)]\<rparr>"
    using assms(3) advance_dying [OF advance_moves [OF assms(3)] i(2)] by simp
  have "live_ok i w'" using i(1) by (auto simp: w' live_ok_def awaited_def)
  then show "session_ok w'" using assms(1) unfolding session_ok_def state_ok_def
    by (auto simp: w' counter_ok_def)
  show "st w' = Dying" by (simp add: w')
qed

lemma session_ok_close:
  assumes "session_ok w" "close_state w = Some w'"
  shows "session_ok w'"
proof (cases "st w")
  case Waiting_For_Access_Token
  then consider "advance_state Inactive w = Some w'" | "w' = w\<lparr>deferred_close := True\<rparr>"
    using assms(2) by (cases "stop_policy (config w)") (simp_all add: close_state_def)
  then show ?thesis by cases (rule session_ok_advance_inactive [OF assms(1)], assumption, simp add: assms(1))
next
  case Active
  then consider "advance_state Inactive w = Some w'" | "w' = w" | "advance_state Dying w = Some w'"
    using assms(2) by (cases "stop_policy (config w)") (simp_all add: close_state_def)
  then show ?thesis
    by cases (rule session_ok_advance_inactive [OF assms(1)], assumption, simp add: assms(1),
        rule session_ok_advance_dying(1) [OF assms(1) Active], assumption)
next
  case Dying
  then show ?thesis using assms by (simp add: close_state_def)
next
  case Inactive
  then show ?thesis using assms by (auto simp: close_state_def unregister_def)
qed

section \<open>Giving the session a token\<close>

definition wait_calls :: "event list \<Rightarrow> callback list" where
  "wait_calls es = concat (map (\<lambda>e. case e of Wait_Called c _ \<Rightarrow> [c] | _ \<Rightarrow> []) es)"

lemma wait_calls_simps [simp]:
  "wait_calls [] = []" "wait_calls (es @ fs) = wait_calls es @ wait_calls fs"
  "wait_calls (e # es) = (case e of Wait_Called c _ \<Rightarrow> [c] | _ \<Rightarrow> []) @ wait_calls es"
  "wait_calls (map (\<lambda>c. Wait_Called c ec) cs) = cs"
  "wait_calls (map Progress_Called is) = []"
  by (simp_all add: wait_calls_def comp_def)

text \<open>What the calls on the session object leave alone.\<close>

definition unmoved :: "world \<Rightarrow> world \<Rightarrow> bool" where
  "unmoved w v \<longleftrightarrow>
     st v = st w \<and> connection v = connection w \<and> death_count v = death_count w \<and> config v = config w \<and>
     force_client_resync v = force_client_resync w \<and> realm_path_of v = realm_path_of w \<and>
     download_callbacks v = download_callbacks w \<and> upload_callbacks v = upload_callbacks w \<and>
     client_resync_counter v = client_resync_counter w \<and> server_override v = server_override w \<and>
     deferred_close v = deferred_close w \<and> external_alive v = external_alive w \<and> waiters v = waiters w \<and>
     errors_in_flight v = errors_in_flight w \<and> drops_in_flight v = drops_in_flight w \<and>
     wait_calls (events v) = wait_calls (events w)"

lemma unmoved_refl [simp]: "unmoved w w"
  by (simp add: unmoved_def)

lemma unmoved_trans: "unmoved u v \<Longrightarrow> unmoved v w \<Longrightarrow> unmoved u w"
  unfolding unmoved_def by (elim conjE, intro conjI) (simp_all only:)

lemma create_session_made:
  obtains v i where "create_sync_session w = v" "unmoved w v" "session v = Some i" "server_url v = server_url w"
    "deferred_commit_notification v = deferred_commit_notification w"
proof (cases "session w")
  case None
  then show thesis by (intro that [OF refl]) (simp_all add: create_sync_session_def unmoved_def Let_def)
next
  case (Some i)
  then show thesis by (intro that [OF refl, of i]) (simp_all add: create_sync_session_def)
qed

lemma bind_or_refresh_bound:
  assumes "session w = Some i" "server_url w \<noteq> None"
  obtains v where "bind_or_refresh t w = Some v" "unmoved w v" "session v = Some i" "server_url v = server_url w"
    "deferred_commit_notification v = deferred_commit_notification w" "session_has_been_bound v"
proof -
  obtain url where url: "server_url w = Some url" using assms(2) by auto
  show thesis
  proof (cases "session_has_been_bound w")
    case True
    with assms(1) show thesis
      by (intro that [of "emit [Session_Refreshed i t, Reconnect_Delay_Cancelled i] w"])
        (simp_all add: bind_or_refresh_def call_session_def unmoved_def emit_def)
  next
    case False
    with assms(1) url show thesis
      by (intro that [of "(emit [Session_Bound i url t] w)\<lparr>session_has_been_bound := True\<rparr>"])
        (simp_all add: bind_or_refresh_def call_session_def unmoved_def)
  qed
qed

definition after_bind :: "world \<Rightarrow> world option" where
  "after_bind w =
     do { w4 \<leftarrow> (case server_override w of
                   None \<Rightarrow> Some w
                 | Some (address, port) \<Rightarrow> call_session (\<lambda>i. Server_Overridden i address port) w);
          (case deferred_commit_notification w4 of
             None \<Rightarrow> Some w4
           | Some v \<Rightarrow> do { w' \<leftarrow> call_session (\<lambda>i. Commit_Notified i v) w4;
                           Some (w'\<lparr>deferred_commit_notification := None\<rparr>) }) }"

lemma after_bind_done:
  assumes "session w = Some i" "session_has_been_bound w" "server_url w \<noteq> None"
  obtains v where "after_bind w = Some v" "unmoved w v" "session v = Some i" "session_has_been_bound v"
    "server_url v \<noteq> None" "deferred_commit_notification v = None"
    "\<forall>n. deferred_commit_notification w = Some n \<longrightarrow> Commit_Notified i n \<in> set (events v)"
proof -
  define w1 where "w1 = (case server_override w of None \<Rightarrow> w | Some (a, p) \<Rightarrow> emit [Server_Overridden i a p] w)"
  have w1: "unmoved w w1" "session w1 = Some i" "session_has_been_bound w1" "server_url w1 \<noteq> None"
    "deferred_commit_notification w1 = deferred_commit_notification w"
    using assms by (auto simp: w1_def unmoved_def split: option.splits)
  have a: "after_bind w = (case deferred_commit_notification w1 of None \<Rightarrow> Some w1
      | Some n \<Rightarrow> Some ((emit [Commit_Notified i n] w1)\<lparr>deferred_commit_notification := None\<rparr>))"
    using assms(1) by (auto simp: after_bind_def w1_def call_session_def split: option.splits)
  show thesis
  proof (cases "deferred_commit_notification w1")
    case None
    then show thesis using w1 a by (intro that [of w1]) simp_all
  next
    case (Some n)
    have "unmoved w1 ((emit [Commit_Notified i n] w1)\<lparr>deferred_commit_notification := None\<rparr>)" by (simp add: unmoved_def)
    with Some w1 a show thesis
      by (intro that [of "(emit [Commit_Notified i n] w1)\<lparr>deferred_commit_notification := None\<rparr>"]) (auto intro: unmoved_trans)
  qed
qed

text \<open>A session that waits for a token is connected by it, and told of the commit it has missed; then it is active, and closed
  if it had been asked to.\<close>

lemma refresh_waiting_connects:
  assumes "server_url w \<noteq> None \<or> url \<noteq> None"
  obtains v i where
    "refresh_waiting t url w = (do { w6 \<leftarrow> advance_state Active v; (if deferred_close w6 then close_state w6 else Some w6) })"
    "unmoved w v" "session v = Some i" "session_has_been_bound v" "server_url v \<noteq> None" "deferred_commit_notification v = None"
    "\<forall>n. deferred_commit_notification w = Some n \<longrightarrow> Commit_Notified i n \<in> set (events v)"
proof -
  obtain w1 i where w1: "create_sync_session w = w1" "unmoved w w1" "session w1 = Some i" "server_url w1 = server_url w"
    "deferred_commit_notification w1 = deferred_commit_notification w" by (rule create_session_made)
  define w2 where "w2 = (if server_url w1 = None then w1\<lparr>server_url := url\<rparr> else w1)"
  have w2: "unmoved w1 w2" "session w2 = Some i" "server_url w2 \<noteq> None"
    "deferred_commit_notification w2 = deferred_commit_notification w"
    using w1 assms by (auto simp: w2_def unmoved_def)
  obtain w3 where w3: "bind_or_refresh t w2 = Some w3" "unmoved w2 w3" "session w3 = Some i" "server_url w3 = server_url w2"
    "deferred_commit_notification w3 = deferred_commit_notification w2" "session_has_been_bound w3"
    by (rule bind_or_refresh_bound [OF w2(2,3)])
  obtain v where v: "after_bind w3 = Some v" "unmoved w3 v" "session v = Some i" "session_has_been_bound v"
    "server_url v \<noteq> None" "deferred_commit_notification v = None"
    "\<forall>n. deferred_commit_notification w3 = Some n \<longrightarrow> Commit_Notified i n \<in> set (events v)"
    by (rule after_bind_done [OF w3(3,6)]) (use w2(3) w3(4) in simp)
  have "refresh_waiting t url w = do { w3 \<leftarrow> bind_or_refresh t w2; w5 \<leftarrow> after_bind w3; w6 \<leftarrow> advance_state Active w5;
      (if deferred_close w6 then close_state w6 else Some w6) }"
    unfolding refresh_waiting_def after_bind_def w1(1) Let_def w2_def Option.bind_assoc by (rule refl)
  then have "refresh_waiting t url w = (do { w6 \<leftarrow> advance_state Active v; (if deferred_close w6 then close_state w6 else Some w6) })"
    by (simp add: w3(1) v(1))
  moreover have "unmoved w v" by (rule unmoved_trans [OF unmoved_trans [OF unmoved_trans [OF w1(2) w2(1)] w3(2)] v(2)])
  ultimately show thesis using v(3-7) w2(4) w3(5) by (intro that) simp_all
qed

section \<open>Every operation keeps a session well-formed\<close>

lemma session_ok_connected:
  assumes "session_ok w" "unmoved w v" "st w = Waiting_For_Access_Token" "session_has_been_bound v" "server_url v \<noteq> None"
  shows "session_ok v"
  using assms by (simp add: session_ok_def state_ok_def unmoved_def)

lemma session_ok_refresh:
  assumes "session_ok w" "refresh_access_token t url w = Some w'"
  shows "session_ok w'"
proof (cases "server_url w = None \<and> url = None")
  case True
  with assms show ?thesis by (simp add: refresh_access_token_def)
next
  case False
  then have r: "refresh_state t url w = Some w'" using assms(2) unfolding refresh_access_token_def by (simp only: if_False)
  show ?thesis
  proof (cases "st w")
    case Waiting_For_Access_Token
    from False have "server_url w \<noteq> None \<or> url \<noteq> None" by simp
    then obtain v i where v:
      "refresh_waiting t url w = (do { w6 \<leftarrow> advance_state Active v; (if deferred_close w6 then close_state w6 else Some w6) })"
      "unmoved w v" "session v = Some i" "session_has_been_bound v" "server_url v \<noteq> None"
      "deferred_commit_notification v = None"
      "\<forall>n. deferred_commit_notification w = Some n \<longrightarrow> Commit_Notified i n \<in> set (events v)"
      by (rule refresh_waiting_connects [where t = t])
    from v(1) r Waiting_For_Access_Token obtain w6 where w6: "advance_state Active v = Some w6"
      "(if deferred_close w6 then close_state w6 else Some w6) = Some w'"
      by (auto simp: refresh_state_def bind_eq_Some_conv)
    have "session_ok v" by (rule session_ok_connected [OF assms(1) v(2) Waiting_For_Access_Token v(4,5)])
    then have "session_ok w6" by (rule session_ok_advance_active [OF _ v(3-6) w6(1)])
    then show ?thesis using w6(2) session_ok_close [of w6 w'] by (cases "deferred_close w6") simp_all
  next
    case Active
    with r assms(1) show ?thesis
      by (auto simp: refresh_state_def call_session_def bind_eq_Some_conv split: option.splits)
  qed (use r assms(1) in \<open>simp_all add: refresh_state_def\<close>)
qed

lemma session_ok_revive:
  assumes "session_ok w" "revive_if_needed w = Some w'"
  shows "session_ok w'"
proof (cases "st w")
  case Dying
  then obtain i where i: "session w = Some i" "session_has_been_bound w" "server_url w \<noteq> None"
      "deferred_commit_notification w = None"
    using live_session [OF assms(1)] by (metis live_ok_def)
  from Dying assms(2) have "advance_state Active w = Some w'"
    by (auto simp: revive_if_needed_def revive_state_def bind_eq_Some_conv)
  then show ?thesis by (rule session_ok_advance_active [OF assms(1) i])
next
  case Inactive
  with assms(2) obtain w1 where "advance_state Waiting_For_Access_Token w = Some w1" "w' = emit [Bind_Handler_Called] w1"
    by (auto simp: revive_if_needed_def revive_state_def bind_eq_Some_conv)
  then show ?thesis using session_ok_advance_waiting(1) [OF assms(1)] by simp
qed (use assms in \<open>auto simp: revive_if_needed_def revive_state_def\<close>)

lemma session_ok_log_out:
  assumes "session_ok w" "log_out w = Some w'"
  shows "session_ok w'"
proof (cases "st w = Inactive")
  case False
  with assms(2) show ?thesis using session_ok_advance_inactive [OF assms(1)] by (simp add: log_out_def)
qed (use assms in \<open>simp add: log_out_def\<close>)

lemma call_session_Some: "call_session e w = Some w' \<longleftrightarrow> (\<exists>i. session w = Some i \<and> w' = emit [e i] w)"
  by (auto simp: call_session_def split: option.splits)

lemma session_ok_notify:
  assumes "session_ok w" "nonsync_transact_notify v w = Some w'"
  shows "session_ok w'"
proof (cases "st w")
  case Waiting_For_Access_Token
  with assms show ?thesis by (auto simp: nonsync_transact_notify_def notify_state_def session_ok_def state_ok_def)
next
  case Active
  with assms show ?thesis by (auto simp: nonsync_transact_notify_def notify_state_def call_session_Some)
qed (use assms in \<open>auto simp: nonsync_transact_notify_def notify_state_def\<close>)

lemma session_ok_reconnect:
  assumes "session_ok w" "handle_reconnect w = Some w'"
  shows "session_ok w'"
  using assms by (cases "st w") (auto simp: handle_reconnect_def call_session_def split: option.splits)

lemma session_ok_override:
  assumes "session_ok w" "override_server address port w = Some w'"
  shows "session_ok w'"
  using assms by (auto simp: override_server_def call_session_def Let_def split: option.splits if_splits)

lemma session_ok_wait_upload:
  assumes "session_ok w" "wait_for_upload_completion c w = Some w'"
  shows "session_ok w'"
proof (cases "st w = Active \<or> st w = Dying")
  case True
  then obtain i where i: "live_ok i w" "session w = Some i" by (rule live_session [OF assms(1)])
  let ?new = "if upload_callbacks w = [] then [Completion_Waiter i Upload (client_resync_counter w)] else []"
  have w': "w' = w\<lparr>waiters := waiters w @ ?new, upload_callbacks := upload_callbacks w @ [c]\<rparr>"
    using assms(2) True i(2)
    by (auto simp: wait_for_upload_completion_def wait_state_def add_completion_callback_def add_waiter_def split: if_splits)
  have "live_ok i w'" using i(1) by (auto simp: w' live_ok_def awaited_def)
  moreover have "list_all (counter_ok (client_resync_counter w)) ?new" by (simp add: counter_ok_def)
  ultimately show ?thesis using assms(1) True unfolding session_ok_def state_ok_def
    by (cases "st w") (auto simp: w' live_ok_def)
next
  case False
  then have w': "w' = w\<lparr>upload_callbacks := upload_callbacks w @ [c]\<rparr>"
    using assms(2) by (auto simp: wait_for_upload_completion_def wait_state_def split: if_splits)
  show ?thesis using assms(1) False unfolding session_ok_def state_ok_def by (cases "st w") (auto simp: w')
qed

lemma session_ok_wait_download:
  assumes "session_ok w" "wait_for_download_completion c w = Some w'"
  shows "session_ok w'"
proof (cases "st w = Active \<or> st w = Dying")
  case True
  then obtain i where i: "live_ok i w" "session w = Some i" by (rule live_session [OF assms(1)])
  let ?new = "if download_callbacks w = [] then [Completion_Waiter i Download (client_resync_counter w)] else []"
  have w': "w' = w\<lparr>waiters := waiters w @ ?new, download_callbacks := download_callbacks w @ [c]\<rparr>"
    using assms(2) True i(2)
    by (auto simp: wait_for_download_completion_def wait_state_def add_completion_callback_def add_waiter_def split: if_splits)
  have "live_ok i w'" using i(1) by (auto simp: w' live_ok_def awaited_def)
  moreover have "list_all (counter_ok (client_resync_counter w)) ?new" by (simp add: counter_ok_def)
  ultimately show ?thesis using assms(1) True unfolding session_ok_def state_ok_def
    by (cases "st w") (auto simp: w' live_ok_def)
next
  case False
  then have w': "w' = w\<lparr>download_callbacks := download_callbacks w @ [c]\<rparr>"
    using assms(2) by (auto simp: wait_for_download_completion_def wait_state_def split: if_splits)
  show ?thesis using assms(1) False unfolding session_ok_def state_ok_def by (cases "st w") (auto simp: w')
qed

lemma session_ok_update:
  assumes "session_ok w" "update_configuration [] cfg w = Some w'"
  shows "session_ok w'"
proof -
  obtain w1 where w1: "(if st w \<noteq> Inactive then advance_state Inactive w else Some w) = Some w1"
    "install_configuration cfg w1 = Some w'" using assms(2) by (auto simp: bind_eq_Some_conv)
  have "session_ok w1"
    using w1(1) assms(1) session_ok_advance_inactive [OF assms(1)] by (cases "st w = Inactive") simp_all
  then have "session_ok (w1\<lparr>config := cfg\<rparr>)" by simp
  moreover have "revive_if_needed (w1\<lparr>config := cfg\<rparr>) = Some w'"
    using w1(2) by (simp add: install_configuration_def split: if_splits)
  ultimately show ?thesis by (rule session_ok_revive)
qed

lemma session_ok_completion:
  assumes "session_ok w"
  shows "session_ok (completion_handler d n ec w)"
  using assms
  by (cases d; cases "st w") (auto simp: completion_handler_def session_ok_def state_ok_def live_ok_def awaited_def)

lemma session_ok_cancel: "session_ok w \<Longrightarrow> session_ok (cancel_pending_waits ec w)"
  by (cases "st w") (auto simp: cancel_pending_waits_def session_ok_def state_ok_def live_ok_def awaited_def)

lemma session_ok_listener: "session_ok w \<Longrightarrow> session w \<noteq> None \<Longrightarrow> session_ok (connection_listener c w)"
  by (cases "st w") (auto simp: connection_listener_def session_ok_def state_ok_def live_ok_def awaited_def)

lemma session_ok_fire:
  assumes "session_ok w" "x \<in> set (waiters w)" "fire x ec (w\<lparr>waiters := remove1 x (waiters w)\<rparr>) = Some w'"
  shows "session_ok w'"
proof -
  let ?w = "w\<lparr>waiters := remove1 x (waiters w)\<rparr>"
  have counters: "list_all (counter_ok (client_resync_counter w)) (remove1 x (waiters w))"
    using assms(1) by (auto simp: session_ok_def list_all_iff dest: notin_set_remove1)
  have kept: "y \<in> set (waiters w) \<Longrightarrow> y \<noteq> x \<Longrightarrow> y \<in> set (remove1 x (waiters w))" for y
    by (simp add: in_set_remove1)
  show ?thesis
  proof (cases x)
    case (Completion_Waiter i d n)
    with assms(3) have w': "w' = completion_handler d n ec ?w" by (simp add: fire_def)
    have "state_ok w'"
      using assms(1) unfolding w' session_ok_def state_ok_def live_ok_def awaited_def
      by (cases "st w"; cases d) (auto simp: completion_handler_def Completion_Waiter intro!: kept)
    then show ?thesis using counters w' by (cases d) (auto simp: session_ok_def completion_handler_def)
  next
    case (Death_Waiter i n)
    show ?thesis
    proof (cases "st w = Dying \<and> death_count w = n")
      case True
      then have "advance_state Inactive ?w = Some w'" using assms(3) by (simp add: fire_def death_handler_def Death_Waiter)
      then show ?thesis by (rule quiescent_ok [rotated]) (use counters in simp)
    next
      case False
      then have w': "w' = ?w" using assms(3) by (auto simp: fire_def death_handler_def Death_Waiter)
      have "state_ok w'"
        using assms(1) False unfolding w' session_ok_def state_ok_def live_ok_def awaited_def
        by (cases "st w") (auto simp: Death_Waiter intro!: kept)
      then show ?thesis using counters w' by (simp add: session_ok_def)
    qed
  qed
qed

text \<open>Errors.\<close>

lemma session_ok_expired:
  assumes "session_ok w" "access_token_expired w = Some w'"
  shows "session_ok w'"
proof (cases "st w = Active")
  case True
  with assms(2) obtain w1 where "advance_state Waiting_For_Access_Token w = Some w1" "w' = emit [Bind_Handler_Called] w1"
    by (auto simp: access_token_expired_def bind_eq_Some_conv)
  then show ?thesis using session_ok_advance_waiting(1) [OF assms(1)] by simp
qed (use assms in \<open>simp add: access_token_expired_def\<close>)

lemma session_ok_finish:
  assumes "session_ok w" "finish_error next e w = Some w'"
  shows "session_ok w'"
proof -
  obtain w1 where w1: "(case next of
        Next_None \<Rightarrow> Some (if cancel_waits_on_nonfatal_error (config w) then cancel_pending_waits (error_code e) w else w)
      | Next_Inactive \<Rightarrow> advance_state Inactive w
      | Next_Error \<Rightarrow> Some (cancel_pending_waits (error_code e) w)) = Some w1"
    "w' = (case error_handler (config w1) of None \<Rightarrow> w1 | Some h \<Rightarrow> emit [Error_Handler_Called h e] w1)"
    using assms(2) by (auto simp: finish_error_def bind_eq_Some_conv)
  have "session_ok w1"
    using w1(1) assms(1) session_ok_advance_inactive [OF assms(1)] session_ok_cancel [OF assms(1)]
    by (cases "next") (auto split: if_splits)
  then show ?thesis using w1(2) by (simp split: option.splits)
qed

lemma session_ok_report:
  assumes "session_ok w" "report_error recovery url e w = Some w'"
  shows "session_ok w'"
proof (cases "verdict_of e")
  case Not_Reported
  with assms show ?thesis by (simp add: report_error_def)
next
  case Ask_For_Token
  with assms show ?thesis by (auto simp: report_error_def intro: session_ok_expired)
next
  case Invalidate_User
  then show ?thesis
    using assms(2) session_ok_cancel [OF assms(1)]
    by (auto simp: report_error_def Let_def split: option.splits elim!: session_ok_finish [rotated])
next
  case (Delete_File b)
  then show ?thesis
    using assms by (auto simp: report_error_def mark_file_for_deletion_def Let_def elim!: session_ok_finish [rotated])
next
  case Only_Reported
  with assms show ?thesis by (auto simp: report_error_def Let_def intro: session_ok_finish)
qed

lemma session_ok_resync:
  assumes "session_ok w" "client_resync w = Some w'"
  shows "session_ok w'"
proof -
  let ?w1 = "w\<lparr>force_client_resync := True, client_resync_counter := client_resync_counter w + 1,
      download_callbacks := [], upload_callbacks := []\<rparr>"
  from assms(2) obtain w2 where w2: "advance_state Inactive ?w1 = Some w2"
      "revive_if_needed (w2\<lparr>download_callbacks := download_callbacks w, upload_callbacks := upload_callbacks w\<rparr>) = Some w'"
    by (auto simp: client_resync_def Let_def bind_eq_Some_conv)
  have "list_all (counter_ok (client_resync_counter w + 1)) (waiters w)"
    using assms(1) by (auto simp: session_ok_def list_all_iff counter_ok_def split: waiter.splits)
  then have "session_ok w2" by (intro quiescent_ok [OF _ w2(1)]) simp
  moreover have "st w2 = Inactive"
    using w2(1) advance_inactive [OF advance_moves [OF w2(1)]] by auto
  ultimately have "session_ok (w2\<lparr>download_callbacks := download_callbacks w, upload_callbacks := upload_callbacks w\<rparr>)"
    by (simp add: session_ok_def state_ok_def)
  then show ?thesis using w2(2) by (rule session_ok_revive)
qed

lemma session_ok_handle_error:
  assumes "session_ok w" "handle_error recovery url e w = Some w'"
  shows "session_ok w'"
proof (cases "st w = Dying")
  case True
  then show ?thesis using assms session_ok_advance_inactive [OF assms(1)]
    by (auto simp: handle_error_def handle_error_state_def bind_eq_Some_conv split: if_splits)
next
  case False
  then consider "client_resync w = Some w'" | "report_error recovery url e w = Some w'"
    using assms(2) by (auto simp: handle_error_def handle_error_state_def split: if_splits)
  then show ?thesis by cases (use assms(1) in \<open>blast intro: session_ok_resync session_ok_report\<close>)+
qed

lemma session_ok_perform:
  assumes "session_ok w" "enabled a w" "perform a w = Some w'"
  shows "session_ok w'"
proof (cases a)
  case (Refresh t url)
  with assms(3) show ?thesis by (intro session_ok_refresh [OF assms(1)]) (simp add: perform_def)
next
  case (Commit v)
  with assms(3) show ?thesis by (intro session_ok_notify [OF assms(1)]) (simp add: perform_def)
next
  case Revive
  with assms(3) show ?thesis by (intro session_ok_revive [OF assms(1)]) (simp add: perform_def)
next
  case Reconnect
  with assms(3) show ?thesis by (intro session_ok_reconnect [OF assms(1)]) (simp add: perform_def)
next
  case Log_Out
  with assms(3) show ?thesis by (intro session_ok_log_out [OF assms(1)]) (simp add: perform_def)
next
  case Close
  with assms(3) show ?thesis by (intro session_ok_close [OF assms(1)]) (simp add: perform_def)
next
  case (Override x p)
  with assms(3) show ?thesis by (intro session_ok_override [OF assms(1)]) (simp add: perform_def)
next
  case (Wait_Upload c)
  with assms(3) show ?thesis by (intro session_ok_wait_upload [OF assms(1)]) (simp add: perform_def)
next
  case (Wait_Download c)
  with assms(3) show ?thesis by (intro session_ok_wait_download [OF assms(1)]) (simp add: perform_def)
next
  case (Reconfigure cfg)
  with assms(3) show ?thesis by (intro session_ok_update [OF assms(1)]) (simp add: perform_def)
next
  case (Fire x ec)
  with assms(2,3) show ?thesis by (intro session_ok_fire [OF assms(1)]) (simp_all add: perform_def enabled_def)
next
  case (Report c e)
  let ?w = "w\<lparr>errors_in_flight := errors_in_flight w @ (case e of None \<Rightarrow> [] | Some e \<Rightarrow> [e])\<rparr>"
  have "session_ok (connection_listener c ?w)"
    by (rule session_ok_listener) (use assms(1,2) Report in \<open>simp_all add: enabled_def\<close>)
  with assms(3) Report show ?thesis by (simp add: perform_def)
next
  case (Handle e recovery url)
  then have "handle_error recovery url e (w\<lparr>errors_in_flight := remove1 e (errors_in_flight w)\<rparr>) = Some w'"
    using assms(3) by (simp add: perform_def)
  then show ?thesis by (rule session_ok_handle_error [rotated]) (simp add: assms(1))
next
  case Drop
  let ?w = "w\<lparr>drops_in_flight := drops_in_flight w - 1\<rparr>"
  have ok: "session_ok ?w" using assms(1) by simp
  have "(if external_alive w then Some ?w else close_state ?w) = Some w'"
    using assms(3) Drop by (simp add: perform_def did_drop_external_reference_def cong: if_cong)
  then show ?thesis using ok session_ok_close [OF ok] by (cases "external_alive w") simp_all
qed (use assms(1,3) in \<open>auto simp: perform_def set_multiplex_identifier_def set_url_prefix_def external_reference_def
      register_progress_notifier_def unregister_progress_notifier_def handle_progress_update_def split_beta Let_def\<close>)

lemma session_ok_run: "run w as w' \<Longrightarrow> session_ok w \<Longrightarrow> session_ok w'"
  by (induction rule: run.induct) (auto elim!: step_cases intro: session_ok_perform)

lemma session_ok_reachable: "reachable w \<Longrightarrow> session_ok w"
  unfolding reachable_def using session_ok_run session_ok_new by blast

end
