(* ===== verification/Sync_Session_Steps.thy ===== *)
theory Sync_Session_Steps
  imports Sync_Session_Laws
begin

text \<open>Which operations of a well-formed session return, and the state in which each leaves it.\<close>

section \<open>Operations return\<close>

lemma advance_returns: "s \<noteq> Active \<and> s \<noteq> Dying \<or> session w \<noteq> None \<Longrightarrow> st w \<noteq> s \<Longrightarrow> \<exists>w'. advance_state s w = Some w'"
  by (cases s) (auto simp: advance_inactive advance_waiting advance_active advance_dying)

lemma call_session_returns: "session w \<noteq> None \<Longrightarrow> \<exists>w'. call_session e w = Some w'"
  by (auto simp: call_session_def)

lemma live_owns: "session_ok w \<Longrightarrow> st w = Active \<or> st w = Dying \<Longrightarrow> session w \<noteq> None"
  using live_session [of w] by fastforce

lemma close_returns:
  assumes "session_ok w"
  shows "\<exists>w'. close_state w = Some w'"
proof (cases "st w")
  case Waiting_For_Access_Token
  then show ?thesis using advance_returns [of Inactive w] by (cases "stop_policy (config w)") (auto simp: close_state_def)
next
  case Active
  then show ?thesis using advance_returns [of Inactive w] advance_returns [of Dying w] live_owns [OF assms]
    by (cases "stop_policy (config w)") (auto simp: close_state_def)
qed (auto simp: close_state_def unregister_def)

lemma refresh_returns:
  assumes "session_ok w"
  shows "\<exists>w'. refresh_access_token t url w = Some w'"
proof (cases "server_url w = None \<and> url = None")
  case True
  then show ?thesis by (simp add: refresh_access_token_def)
next
  case False
  then have r: "refresh_access_token t url w = refresh_state t url w"
    unfolding refresh_access_token_def by (simp only: if_False)
  show ?thesis
  proof (cases "st w")
    case Waiting_For_Access_Token
    from False have "server_url w \<noteq> None \<or> url \<noteq> None" by simp
    then obtain v i where v:
      "refresh_waiting t url w = (do { w6 \<leftarrow> advance_state Active v; (if deferred_close w6 then close_state w6 else Some w6) })"
      "unmoved w v" "session v = Some i" "session_has_been_bound v" "server_url v \<noteq> None"
      "deferred_commit_notification v = None"
      "\<forall>n. deferred_commit_notification w = Some n \<longrightarrow> Commit_Notified i n \<in> set (events v)"
      by (rule refresh_waiting_connects [where t = t])
    have "st v \<noteq> Active" using v(2) Waiting_For_Access_Token by (simp add: unmoved_def)
    then obtain w6 where w6: "advance_state Active v = Some w6" using advance_returns [of Active v] v(3) by auto
    have "session_ok w6"
      by (rule session_ok_advance_active(1) [OF session_ok_connected [OF assms v(2) Waiting_For_Access_Token v(4,5)] v(3-6) w6])
    then have "\<exists>w'. (if deferred_close w6 then close_state w6 else Some w6) = Some w'" using close_returns by simp
    then show ?thesis using r v(1) w6 Waiting_For_Access_Token by (simp add: refresh_state_def)
  next
    case Active
    then obtain i where "session w = Some i" using live_owns [OF assms] by auto
    then show ?thesis using r Active by (simp add: refresh_state_def call_session_def)
  qed (use r in \<open>simp_all add: refresh_state_def\<close>)
qed

lemma revive_returns:
  assumes "session_ok w"
  shows "\<exists>w'. revive_if_needed w = Some w'"
proof (cases "st w")
  case Dying
  then show ?thesis using advance_returns [of Active w] live_owns [OF assms] by (auto simp: revive_if_needed_def revive_state_def)
next
  case Inactive
  then show ?thesis using advance_returns [of Waiting_For_Access_Token w] by (auto simp: revive_if_needed_def revive_state_def)
qed (simp_all add: revive_if_needed_def revive_state_def)

lemma notify_returns: "session_ok w \<Longrightarrow> \<exists>w'. nonsync_transact_notify v w = Some w'"
  using live_owns [of w]
  by (cases "st w") (auto simp: nonsync_transact_notify_def notify_state_def call_session_def)

lemma reconnect_returns: "session_ok w \<Longrightarrow> \<exists>w'. handle_reconnect w = Some w'"
  using live_owns [of w] by (cases "st w") (auto simp: handle_reconnect_def call_session_def)

lemma override_returns: "session_ok w \<Longrightarrow> \<exists>w'. override_server a p w = Some w'"
  using live_owns [of w] by (cases "st w") (auto simp: override_server_def call_session_def Let_def)

lemma wait_returns: "session_ok w \<Longrightarrow> \<exists>w'. wait_state d w = Some w'"
  using live_owns [of w] by (cases "st w") (auto simp: wait_state_def add_completion_callback_def add_waiter_def)

lemma wait_upload_returns: "session_ok w \<Longrightarrow> \<exists>w'. wait_for_upload_completion c w = Some w'"
  using wait_returns [of w Upload] by (auto simp: wait_for_upload_completion_def)

lemma wait_download_returns: "session_ok w \<Longrightarrow> \<exists>w'. wait_for_download_completion c w = Some w'"
  using wait_returns [of w Download] by (auto simp: wait_for_download_completion_def)

lemma update_returns:
  assumes "session_ok w" "sc_user (config w) = sc_user cfg" "reference_realm_url (config w) = reference_realm_url cfg"
    "is_partial (config w) = is_partial cfg"
  shows "\<exists>w'. update_configuration [] cfg w = Some w'"
proof -
  obtain w1 where w1: "(if st w \<noteq> Inactive then advance_state Inactive w else Some w) = Some w1" "session_ok w1" "st w1 = Inactive"
      "config w1 = config w"
    using advance_inactive [of w] session_ok_advance_inactive [OF assms(1)] assms(1) by (cases "st w = Inactive") auto
  then have "session w1 = None" by (simp add: session_ok_def state_ok_def)
  with w1 have "install_configuration cfg w1 = revive_if_needed (w1\<lparr>config := cfg\<rparr>)"
    using assms(2-4) by (simp add: install_configuration_def)
  then show ?thesis using revive_returns [of "w1\<lparr>config := cfg\<rparr>"] w1(1,2) by simp
qed

section \<open>Errors\<close>

lemma reset_deletes: "is_client_reset_requested e \<Longrightarrow> verdict_of e = Delete_File True"
  by (auto simp: is_client_reset_requested_def verdict_of_def protocol_verdict_def split: error_code.splits)

lemma finish_returns: "finish_error next e w = None \<longleftrightarrow> next = Next_Inactive \<and> st w = Inactive"
proof -
  have "finish_error Next_Inactive e w = None \<longleftrightarrow> st w = Inactive"
    using advance_same [of w] by (cases "st w = Inactive") (auto simp: finish_error_def advance_inactive)
  then show ?thesis by (cases "next") (auto simp: finish_error_def)
qed

lemma expired_returns: "\<exists>w'. access_token_expired w = Some w'"
  using advance_returns [of Waiting_For_Access_Token w] by (cases "st w = Active") (auto simp: access_token_expired_def)

lemma report_returns: "report_error recovery url e w = None \<longleftrightarrow> (\<exists>b. verdict_of e = Delete_File b) \<and> st w = Inactive"
  using expired_returns [of w]
  by (cases "verdict_of e") (auto simp: report_error_def Let_def finish_returns mark_file_for_deletion_def split: option.splits)

lemma resync_returns: "client_resync w = None \<longleftrightarrow> st w = Inactive"
proof (cases "st w = Inactive")
  case True
  let ?w = "w\<lparr>force_client_resync := True, client_resync_counter := client_resync_counter w + 1, download_callbacks := [],
      upload_callbacks := []\<rparr>"
  have "advance_state Inactive ?w = None" using advance_same [of ?w] True by simp
  then show ?thesis using True by (simp add: client_resync_def Let_def)
next
  case False
  then show ?thesis by (simp add: client_resync_def Let_def advance_inactive revive_if_needed_def revive_state_def advance_waiting)
qed

lemma handle_error_returns:
  "handle_error recovery url e w = None \<longleftrightarrow> (\<exists>b. verdict_of e = Delete_File b) \<and> st w = Inactive"
proof (cases "st w = Dying")
  case True
  then show ?thesis by (auto simp: handle_error_def handle_error_state_def advance_inactive)
next
  case False
  then show ?thesis using reset_deletes [of e]
    by (auto simp: handle_error_def handle_error_state_def report_returns resync_returns)
qed

lemma fire_returns: "\<exists>w'. fire x ec w = Some w'"
  by (cases x) (auto simp: fire_def death_handler_def advance_inactive)

lemma perform_returns:
  assumes "session_ok w" "enabled a w"
  shows "perform a w = None \<longleftrightarrow> (\<exists>e recovery url b. a = Handle e recovery url \<and> verdict_of e = Delete_File b \<and> st w = Inactive)"
proof (cases a)
  case (Handle e recovery url)
  then show ?thesis by (simp add: perform_def handle_error_returns)
next
  case Log_Out
  then show ?thesis by (simp add: perform_def log_out_def advance_inactive)
next
  case Drop
  let ?w = "w\<lparr>drops_in_flight := drops_in_flight w - 1\<rparr>"
  have "session_ok ?w" using assms(1) by simp
  from close_returns [OF this] show ?thesis using Drop by (auto simp: perform_def did_drop_external_reference_def)
next
  case (Reconfigure cfg)
  then show ?thesis using update_returns [OF assms(1), of cfg] assms(2)
    by (auto simp: perform_def enabled_def simp del: update_configuration.simps)
qed (use assms refresh_returns [OF assms(1)] notify_returns [OF assms(1)] revive_returns [OF assms(1)]
    reconnect_returns [OF assms(1)] close_returns [OF assms(1)] override_returns [OF assms(1)]
    wait_upload_returns [OF assms(1)] wait_download_returns [OF assms(1)] fire_returns in
    \<open>force simp: perform_def\<close>)+

end
