(* ===== verification/Sync_Session_Props.thy ===== *)
theory Sync_Session_Props
  imports Sync_Session_Steps
begin

text \<open>
  What a session guarantees in every reachable state: which state each operation leads to, that no operation fails but one,
  that every wait is answered exactly once, and what the resynchronisation of the client and a log-out do to waits.
\<close>

section \<open>Runs\<close>

fun perform_all :: "action list \<Rightarrow> world \<Rightarrow> world option" where
  "perform_all [] w = Some w"
| "perform_all (a # as) w = (if enabled a w then do { w1 \<leftarrow> perform a w; perform_all as w1 } else None)"

lemma run_prepend: "run w1 as w2 \<Longrightarrow> step w a w1 \<Longrightarrow> run w (a # as) w2"
proof (induction rule: run.induct)
  case (run_none w1)
  then show ?case using run.run_step [OF run.run_none [of w]] by simp
next
  case (run_step w1 as w2 b w3)
  then show ?case using run.run_step [of w "a # as" w2 b w3] by simp
qed

lemma run_perform_all: "perform_all as w = Some w' \<Longrightarrow> run w as w'"
proof (induction as arbitrary: w)
  case (Cons a as)
  then obtain w1 where "enabled a w" "perform a w = Some w1" "perform_all as w1 = Some w'"
    by (auto simp: bind_eq_Some_conv split: if_splits)
  with Cons.IH show ?case by (blast intro: run_prepend step.step)
qed (simp add: run_none)

definition sample_config :: sync_config where
  "sample_config =
     \<lparr>sc_user = None, reference_realm_url = ''realm://s/r'', stop_policy = After_Changes_Uploaded, error_handler = Some 5,
      transformer = None, realm_encryption_key = None, client_validate_ssl = True, ssl_trust_certificate_path = None,
      ssl_verify_callback = None, proxy_config = None, is_partial = False, custom_partial_sync_identifier = None,
      cancel_waits_on_nonfatal_error = False, authorization_header_name = None, custom_http_headers = Map.empty,
      url_prefix = None, recovery_directory = None, client_resync_mode = Recover\<rparr>"

abbreviation start :: world where
  "start \<equiv> new_world ''p'' sample_config False"

abbreviation to_active :: "action list" where
  "to_active \<equiv> [Revive, Refresh ''t'' (Some ''u'')]"

lemmas session_evaluation =
  new_world_def sample_config_def enabled_def perform_def refresh_access_token_def refresh_state_def refresh_waiting_def
  revive_if_needed_def revive_state_def close_state_def log_out_def create_sync_session_def session_config_of_def
  bind_or_refresh_def call_session_def advance_state_def advance_to_def enter_waiting_def enter_active_def enter_dying_def
  enter_inactive_def destroy_session_def unregister_def wait_for_upload_completion_def wait_for_download_completion_def
  wait_state_def add_completion_callback_def add_waiter_def fire_def completion_handler_def death_handler_def
  connection_listener_def emit_def Let_def

lemma evaluation_works:
  "\<exists>w. perform_all (to_active @ [Wait_Upload 1, Close]) start = Some w \<and> st w = Dying \<and> upload_callbacks w = [1] \<and>
     waiters w = [Completion_Waiter 0 Upload 0, Death_Waiter 0 1]"
  by (simp add: session_evaluation)

section \<open>Phases\<close>

definition closed_phase :: "world \<Rightarrow> session_state" where
  "closed_phase w =
     (if (st w = Waiting_For_Access_Token \<or> st w = Active) \<and> stop_policy (config w) = Immediately then Inactive
      else if st w = Active \<and> stop_policy (config w) = After_Changes_Uploaded then Dying
      else st w)"

text \<open>The state that each operation leads to, as the description of the states in the code has it.\<close>

definition phase_after :: "action \<Rightarrow> world \<Rightarrow> session_state" where
  "phase_after a w =
     (case a of
        Refresh _ url \<Rightarrow>
          if st w = Waiting_For_Access_Token \<and> (server_url w \<noteq> None \<or> url \<noteq> None)
          then (if deferred_close w
                then (case stop_policy (config w) of Immediately \<Rightarrow> Inactive | Live_Indefinitely \<Rightarrow> Active
                      | After_Changes_Uploaded \<Rightarrow> Dying)
                else Active)
          else st w
      | Revive \<Rightarrow> if st w = Dying then Active else if st w = Inactive then Waiting_For_Access_Token else st w
      | Log_Out \<Rightarrow> Inactive
      | Close \<Rightarrow> closed_phase w
      | Drop \<Rightarrow> if external_alive w then st w else closed_phase w
      | Reconfigure _ \<Rightarrow> Waiting_For_Access_Token
      | Fire (Death_Waiter _ n) _ \<Rightarrow> if st w = Dying \<and> death_count w = n then Inactive else st w
      | Handle e _ _ \<Rightarrow>
          if st w = Dying then (if is_fatal e then Inactive else Dying)
          else if is_client_reset_requested e \<and> client_resync_mode (config w) \<noteq> Manual then Waiting_For_Access_Token
          else (case verdict_of e of
              Ask_For_Token \<Rightarrow> if st w = Active then Waiting_For_Access_Token else st w
            | Delete_File _ \<Rightarrow> Inactive
            | _ \<Rightarrow> st w)
      | _ \<Rightarrow> st w)"

lemma advanced: "advance_state s w = Some w' \<Longrightarrow> s = Inactive \<or> s = Waiting_For_Access_Token \<or> session w \<noteq> None \<Longrightarrow>
    st w' = s \<and> config w' = config w"
  using advance_moves [of s w w']
  by (cases s) (auto simp: advance_inactive advance_waiting advance_active advance_dying)

lemma close_phase:
  assumes "session_ok w" "close_state w = Some w'"
  shows "st w' = closed_phase w"
proof (cases "st w")
  case Waiting_For_Access_Token
  then show ?thesis using assms advanced [of Inactive w w']
    by (cases "stop_policy (config w)") (auto simp: close_state_def closed_phase_def)
next
  case Active
  then show ?thesis using assms advanced [of Inactive w w'] advanced [of Dying w w'] live_owns [OF assms(1)]
    by (cases "stop_policy (config w)") (auto simp: close_state_def closed_phase_def)
qed (use assms in \<open>auto simp: close_state_def closed_phase_def unregister_def\<close>)

text \<open>A waiting session that is given a token: the session object is set up, the session becomes active, then it is closed if it
  had been asked to.\<close>

lemma refresh_result:
  assumes "session_ok w" "st w = Waiting_For_Access_Token" "server_url w \<noteq> None \<or> url \<noteq> None"
    "refresh_access_token t url w = Some w'"
  obtains v i where "unmoved w v" "session v = Some i" "session_ok (v\<lparr>st := Active, waiters := waiters v @ new_waiters i v\<rparr>)"
    "(if deferred_close w then close_state (v\<lparr>st := Active, waiters := waiters v @ new_waiters i v\<rparr>)
      else Some (v\<lparr>st := Active, waiters := waiters v @ new_waiters i v\<rparr>)) = Some w'"
    "\<forall>n. deferred_commit_notification w = Some n \<longrightarrow> Commit_Notified i n \<in> set (events v)"
proof -
  from assms(3) obtain v i where v:
    "refresh_waiting t url w = (do { w6 \<leftarrow> advance_state Active v; (if deferred_close w6 then close_state w6 else Some w6) })"
    "unmoved w v" "session v = Some i" "session_has_been_bound v" "server_url v \<noteq> None"
    "deferred_commit_notification v = None"
    "\<forall>n. deferred_commit_notification w = Some n \<longrightarrow> Commit_Notified i n \<in> set (events v)"
    by (rule refresh_waiting_connects [where t = t])
  let ?w = "v\<lparr>st := Active, waiters := waiters v @ new_waiters i v\<rparr>"
  have "st v \<noteq> Active" "deferred_close v = deferred_close w" using v(2) assms(2) by (simp_all add: unmoved_def)
  then have w6: "advance_state Active v = Some ?w" "deferred_close ?w = deferred_close w"
    using advance_active [OF _ v(3)] by simp_all
  have "refresh_waiting t url w = Some w'"
    using assms(2-4) by (auto simp: refresh_access_token_def refresh_state_def split: if_splits)
  then have "(if deferred_close w then close_state ?w else Some ?w) = Some w'"
    unfolding v(1) w6(1) Option.bind.bind_lunit w6(2) .
  moreover have "session_ok ?w"
    by (rule session_ok_advance_active(1) [OF session_ok_connected [OF assms(1) v(2) assms(2) v(4,5)] v(3-6) w6(1)])
  ultimately show thesis by (intro that [OF v(2,3) _ _ v(7)])
qed

lemma refresh_ignored:
  assumes "session_ok w" "\<not> (st w = Waiting_For_Access_Token \<and> (server_url w \<noteq> None \<or> url \<noteq> None))"
    "refresh_access_token t url w = Some w'"
  shows "w' = w \<or> (\<exists>es. w' = emit es w \<and> wait_calls es = [])"
proof (cases "st w")
  case Active
  then obtain i where "session w = Some i" using live_owns [OF assms(1)] by auto
  then show ?thesis using assms(3) Active
    by (auto simp: refresh_access_token_def refresh_state_def call_session_def emit_def split: if_splits
        intro!: exI [of _ "[Session_Refreshed i t, Reconnect_Delay_Cancelled i]"])
qed (use assms in \<open>auto simp: refresh_access_token_def refresh_state_def split: if_splits\<close>)

lemma refresh_phase:
  assumes "session_ok w" "refresh_access_token t url w = Some w'"
  shows "st w' = phase_after (Refresh t url) w"
proof (cases "st w = Waiting_For_Access_Token \<and> (server_url w \<noteq> None \<or> url \<noteq> None)")
  case True
  then have waiting: "st w = Waiting_For_Access_Token" "server_url w \<noteq> None \<or> url \<noteq> None" by simp_all
  obtain v i where v: "unmoved w v" "session v = Some i"
    "session_ok (v\<lparr>st := Active, waiters := waiters v @ new_waiters i v\<rparr>)"
    "(if deferred_close w then close_state (v\<lparr>st := Active, waiters := waiters v @ new_waiters i v\<rparr>)
      else Some (v\<lparr>st := Active, waiters := waiters v @ new_waiters i v\<rparr>)) = Some w'"
    "\<forall>n. deferred_commit_notification w = Some n \<longrightarrow> Commit_Notified i n \<in> set (events v)"
    by (rule refresh_result [OF assms(1) waiting assms(2)])
  have cfg: "config v = config w" using v(1) by (simp add: unmoved_def)
  have p: "phase_after (Refresh t url) w = (if deferred_close w then (case stop_policy (config w) of Immediately \<Rightarrow> Inactive
      | Live_Indefinitely \<Rightarrow> Active | After_Changes_Uploaded \<Rightarrow> Dying) else Active)"
    by (simp only: phase_after_def action.case if_P [OF True])
  show ?thesis
  proof (cases "deferred_close w")
    case True
    with v(4) have "st w' = closed_phase (v\<lparr>st := Active, waiters := waiters v @ new_waiters i v\<rparr>)"
      by (intro close_phase [OF v(3)]) (simp only: if_True)
    then show ?thesis using True unfolding p
      by (cases "stop_policy (config w)") (simp_all add: closed_phase_def cfg)
  next
    case False
    with v(4) have "v\<lparr>st := Active, waiters := waiters v @ new_waiters i v\<rparr> = w'" by simp
    then have "st w' = Active" by auto
    then show ?thesis using False unfolding p by simp
  qed
next
  case False
  have "st w' = st w" using refresh_ignored [OF assms(1) False assms(2)] by auto
  moreover have "phase_after (Refresh t url) w = st w" using False by (simp only: phase_after_def action.case if_False)
  ultimately show ?thesis by simp
qed

lemma revive_phase: "session_ok w \<Longrightarrow> revive_if_needed w = Some w' \<Longrightarrow> st w' = phase_after Revive w"
  using live_owns [of w] advanced [of _ w]
  by (cases "st w") (auto simp: revive_if_needed_def revive_state_def phase_after_def bind_eq_Some_conv)

lemma finish_phase: "finish_error next e w = Some w' \<Longrightarrow> st w' = (if next = Next_Inactive then Inactive else st w)"
  using advanced [of Inactive w]
  by (cases "next") (auto simp: finish_error_def cancel_pending_waits_def bind_eq_Some_conv split: option.splits if_splits)

lemma report_phase:
  assumes "report_error recovery url e w = Some w'"
  shows "st w' = (case verdict_of e of
      Ask_For_Token \<Rightarrow> if st w = Active then Waiting_For_Access_Token else st w
    | Delete_File _ \<Rightarrow> Inactive
    | _ \<Rightarrow> st w)"
proof (cases "verdict_of e")
  case Ask_For_Token
  then show ?thesis using assms advanced [of Waiting_For_Access_Token w]
    by (auto simp: report_error_def access_token_expired_def bind_eq_Some_conv split: if_splits)
qed (use assms in \<open>auto simp: report_error_def Let_def mark_file_for_deletion_def cancel_pending_waits_def
      dest!: finish_phase split: option.splits\<close>)

lemma resync_phase:
  assumes "client_resync w = Some w'"
  shows "st w' = Waiting_For_Access_Token"
proof -
  have "st w \<noteq> Inactive" using assms resync_returns [of w] by simp
  with assms show ?thesis
    by (auto simp: client_resync_def Let_def advance_inactive revive_if_needed_def revive_state_def advance_waiting)
qed

lemma handle_error_phase:
  assumes "handle_error recovery url e w = Some w'"
  shows "st w' = phase_after (Handle e recovery url) w"
proof (cases "st w = Dying")
  case True
  then show ?thesis using assms advanced [of Inactive w w']
    by (auto simp: handle_error_def handle_error_state_def phase_after_def bind_eq_Some_conv split: if_splits)
next
  case False
  then show ?thesis using assms resync_phase [of w w'] report_phase [of recovery url e w w']
    by (auto simp: handle_error_def handle_error_state_def phase_after_def split: if_splits)
qed

lemma update_phase:
  assumes "update_configuration [] cfg w = Some w'"
  shows "st w' = Waiting_For_Access_Token"
proof -
  obtain w1 where w1: "(if st w \<noteq> Inactive then advance_state Inactive w else Some w) = Some w1"
    "install_configuration cfg w1 = Some w'" using assms by (auto simp: bind_eq_Some_conv)
  then have "st w1 = Inactive" "revive_if_needed (w1\<lparr>config := cfg\<rparr>) = Some w'"
    by (simp_all add: install_configuration_def split: if_splits)
  then show ?thesis by (auto simp: revive_if_needed_def revive_state_def advance_waiting)
qed

lemma fire_phase:
  assumes "fire x ec w = Some w'"
  shows "st w' = phase_after (Fire x ec) w"
proof (cases x)
  case (Completion_Waiter i d n)
  then show ?thesis using assms by (cases d) (auto simp: fire_def completion_handler_def phase_after_def)
next
  case (Death_Waiter i n)
  then show ?thesis using assms advanced [of Inactive w w']
    by (auto simp: fire_def death_handler_def phase_after_def split: if_splits)
qed

lemma phase_after_cong:
  assumes "st w = st v" "config w = config v" "server_url w = server_url v" "deferred_close w = deferred_close v"
    "external_alive w = external_alive v" "death_count w = death_count v"
  shows "phase_after a w = phase_after a v"
  unfolding phase_after_def closed_phase_def assms ..

lemma phase_after_frame:
  "phase_after a (w\<lparr>waiters := xs\<rparr>) = phase_after a w" "phase_after a (w\<lparr>errors_in_flight := es\<rparr>) = phase_after a w"
  "phase_after a (w\<lparr>drops_in_flight := n\<rparr>) = phase_after a w"
  by (rule phase_after_cong; simp)+

lemma perform_phase:
  assumes "session_ok w" "perform a w = Some w'"
  shows "st w' = phase_after a w"
proof (cases a)
  case (Refresh t url)
  with assms(2) show ?thesis by (simp only: refresh_phase [OF assms(1)] perform_def action.case)
next
  case Revive
  with assms(2) show ?thesis by (simp only: revive_phase [OF assms(1)] perform_def action.case)
next
  case Log_Out
  with assms(2) show ?thesis using advanced [of Inactive w w']
    by (auto simp: perform_def log_out_def phase_after_def split: if_splits)
next
  case Close
  with assms(2) show ?thesis by (simp add: close_phase [OF assms(1)] perform_def phase_after_def)
next
  case Drop
  let ?w = "w\<lparr>drops_in_flight := drops_in_flight w - 1\<rparr>"
  have "(if external_alive w then Some ?w else close_state ?w) = Some w'"
    using assms(2) Drop by (simp add: perform_def did_drop_external_reference_def cong: if_cong)
  moreover have "session_ok ?w" using assms(1) by simp
  ultimately have "st w' = phase_after a ?w"
    using close_phase [of ?w w'] by (cases "external_alive w") (auto simp: Drop phase_after_def)
  then show ?thesis by (simp only: phase_after_frame)
next
  case (Reconfigure cfg)
  with assms(2) have "update_configuration [] cfg w = Some w'" by (simp only: perform_def action.case)
  with Reconfigure show ?thesis by (simp only: update_phase phase_after_def action.case)
next
  case (Fire x ec)
  with assms(2) have "fire x ec (w\<lparr>waiters := remove1 x (waiters w)\<rparr>) = Some w'" by (simp only: perform_def action.case)
  from fire_phase [OF this] show ?thesis by (simp only: phase_after_frame Fire)
next
  case (Handle e recovery url)
  with assms(2) have "handle_error recovery url e (w\<lparr>errors_in_flight := remove1 e (errors_in_flight w)\<rparr>) = Some w'"
    by (simp only: perform_def action.case)
  from handle_error_phase [OF this] show ?thesis by (simp only: phase_after_frame Handle)
next
  case (Wait_Upload c)
  with assms(2) show ?thesis
    by (auto simp: perform_def phase_after_def wait_for_upload_completion_def wait_state_def add_completion_callback_def
        add_waiter_def bind_eq_Some_conv split: if_splits option.splits)
next
  case (Wait_Download c)
  with assms(2) show ?thesis
    by (auto simp: perform_def phase_after_def wait_for_download_completion_def wait_state_def add_completion_callback_def
        add_waiter_def bind_eq_Some_conv split: if_splits option.splits)
next
  case (Commit v)
  with assms(2) show ?thesis
    by (cases "st w") (auto simp: perform_def phase_after_def nonsync_transact_notify_def notify_state_def call_session_Some)
next
  case Reconnect
  with assms(2) show ?thesis
    by (cases "st w") (auto simp: perform_def phase_after_def handle_reconnect_def call_session_Some)
next
  case (Override address port)
  with assms(2) show ?thesis
    by (auto simp: perform_def phase_after_def override_server_def call_session_Some Let_def split: if_splits)
qed (use assms(2) in \<open>auto simp: perform_def phase_after_def set_multiplex_identifier_def set_url_prefix_def
      external_reference_def register_progress_notifier_def unregister_progress_notifier_def handle_progress_update_def
      connection_listener_def split_beta Let_def\<close>)




section \<open>Operations return\<close>

text \<open>C11: In every reachable state every operation that can happen returns, with no failed assertion and no use of a session
  object that is not there, except one: the report of an error that deletes the file, to a session that is inactive.\<close>

theorem operations_return:
  assumes "reachable w" and "enabled a w"
  shows "(\<exists>w'. step w a w') \<longleftrightarrow>
    \<not> (\<exists>e recovery url b. a = Handle e recovery url \<and> verdict_of e = Delete_File b \<and> st w = Inactive)"
proof -
  have "(\<exists>w'. step w a w') \<longleftrightarrow> perform a w \<noteq> None" using assms(2) by (cases "perform a w") (simp_all add: step_iff)
  then show ?thesis unfolding perform_returns [OF session_ok_reachable [OF assms(1)] assms(2)] .
qed

theorem operations_return_witness:
  "\<exists>w. (\<exists>w'. step start Log_Out w') \<longleftrightarrow> \<not> (\<exists>e recovery url b. Log_Out = Handle e recovery url \<and> verdict_of e = Delete_File b \<and> st start = Inactive)"
proof -
  have "reachable start" unfolding reachable_def by (blast intro: run.run_none)
  moreover have "enabled Log_Out start" by (simp add: enabled_def)
  ultimately show ?thesis using operations_return by blast
qed

text \<open>C37: The exception can be reached: the listener of the session object releases the lock before it reports the error, and a
  log-out that comes between makes the assertion on the change of state fail.\<close>

theorem error_after_log_out_fails:
  "\<exists>w e. run (new_world path cfg force) [Revive, Refresh t (Some url), Report Disconnected (Some e), Log_Out] w \<and>
     enabled (Handle e recovery address) w \<and> perform (Handle e recovery address) w = None"
proof -
  let ?e = "new_sync_error (Protocol_Error PE_permission_denied) m True"
  obtain w where "perform_all [Revive, Refresh t (Some url), Report Disconnected (Some ?e), Log_Out] (new_world path cfg force) = Some w"
    "errors_in_flight w = [?e]" "st w = Inactive"
    by (cases force) (simp_all add: session_evaluation)
  moreover have "\<exists>b. verdict_of ?e = Delete_File b"
    by (rule exI [of _ False]) (simp add: verdict_of_def new_sync_error_def protocol_verdict_def)
  ultimately show ?thesis
    by (intro exI [of _ w] exI [of _ ?e] conjI run_perform_all)
      (simp_all only: enabled_def perform_def action.case handle_error_returns list.set sync_session.simps world.simps, simp_all)
qed

section \<open>Waits\<close>

text \<open>The callbacks that wait or have been called.\<close>

definition accounted :: "world \<Rightarrow> callback multiset" where
  "accounted w = mset (download_callbacks w) + mset (upload_callbacks w) + mset (wait_calls (events w))"

lemma accounted_unmoved: "unmoved w v \<Longrightarrow> accounted v = accounted w"
  by (simp add: accounted_def unmoved_def)

lemma accounted_frame [simp]:
  "accounted (w\<lparr>deferred_close := b\<rparr>) = accounted w" "accounted (w\<lparr>config := cfg\<rparr>) = accounted w"
  "accounted (w\<lparr>waiters := xs\<rparr>) = accounted w" "accounted (w\<lparr>st := s\<rparr>) = accounted w"
  "accounted (w\<lparr>death_count := n\<rparr>) = accounted w" "accounted (w\<lparr>errors_in_flight := es\<rparr>) = accounted w"
  "accounted (w\<lparr>drops_in_flight := k\<rparr>) = accounted w" "accounted (w\<lparr>progress_calls := p\<rparr>) = accounted w"
  "accounted (w\<lparr>deferred_commit_notification := v\<rparr>) = accounted w" "accounted (w\<lparr>server_override := r\<rparr>) = accounted w"
  "accounted (w\<lparr>multiplex_identity := m\<rparr>) = accounted w" "accounted (w\<lparr>external_alive := x\<rparr>) = accounted w"
  "accounted (w\<lparr>connection := c\<rparr>) = accounted w"
  by (simp_all add: accounted_def)

lemma accounted_emit: "accounted (emit es w) = accounted w + mset (wait_calls es)"
  by (simp add: accounted_def)

lemma accounted_advance:
  assumes "advance_state s w = Some w'" "s = Inactive \<or> s = Waiting_For_Access_Token \<or> session w \<noteq> None"
  shows "accounted w' = accounted w"
proof (cases s)
  case Inactive
  then have "w' = w\<lparr>st := Inactive, connection := Disconnected, download_callbacks := [], upload_callbacks := [], session := None,
      events := events w @ inactive_events w\<rparr>"
    using assms(1) advance_inactive [OF advance_moves [OF assms(1) [unfolded Inactive]]] by simp
  then show ?thesis by (auto simp: accounted_def inactive_events_def split: option.splits)
next
  case Waiting_For_Access_Token
  then show ?thesis
    using assms(1) advance_waiting [OF advance_moves [OF assms(1) [unfolded Waiting_For_Access_Token]]] by auto
next
  case Active
  then obtain i where "session w = Some i" using assms(2) by auto
  with Active show ?thesis using assms(1) advance_active [OF advance_moves [OF assms(1) [unfolded Active]]] by auto
next
  case Dying
  then obtain i where "session w = Some i" using assms(2) by auto
  with Dying show ?thesis using assms(1) advance_dying [OF advance_moves [OF assms(1) [unfolded Dying]]] by auto
qed

lemma accounted_close:
  assumes "session_ok w" "close_state w = Some w'"
  shows "accounted w' = accounted w"
proof (cases "st w")
  case Waiting_For_Access_Token
  then show ?thesis using assms accounted_advance [of Inactive w w']
    by (cases "stop_policy (config w)") (auto simp: close_state_def)
next
  case Active
  then show ?thesis using assms accounted_advance [of Inactive w w'] accounted_advance [of Dying w w'] live_owns [OF assms(1)]
    by (cases "stop_policy (config w)") (auto simp: close_state_def)
qed (use assms in \<open>auto simp: close_state_def unregister_def accounted_emit split: if_splits\<close>)


lemma accounted_refresh:
  assumes "session_ok w" "refresh_access_token t url w = Some w'"
  shows "accounted w' = accounted w"
proof (cases "st w = Waiting_For_Access_Token \<and> (server_url w \<noteq> None \<or> url \<noteq> None)")
  case True
  then have waiting: "st w = Waiting_For_Access_Token" "server_url w \<noteq> None \<or> url \<noteq> None" by simp_all
  obtain v i where v: "unmoved w v" "session v = Some i"
    "session_ok (v\<lparr>st := Active, waiters := waiters v @ new_waiters i v\<rparr>)"
    "(if deferred_close w then close_state (v\<lparr>st := Active, waiters := waiters v @ new_waiters i v\<rparr>)
      else Some (v\<lparr>st := Active, waiters := waiters v @ new_waiters i v\<rparr>)) = Some w'"
    "\<forall>n. deferred_commit_notification w = Some n \<longrightarrow> Commit_Notified i n \<in> set (events v)"
    by (rule refresh_result [OF assms(1) waiting assms(2)])
  have "accounted w' = accounted (v\<lparr>st := Active, waiters := waiters v @ new_waiters i v\<rparr>)"
    using v(4) accounted_close [OF v(3), of w'] by (cases "deferred_close w") auto
  then show ?thesis using accounted_unmoved [OF v(1)] by simp
next
  case False
  from refresh_ignored [OF assms(1) this assms(2)] show ?thesis by (auto simp: accounted_emit)
qed

lemma accounted_revive:
  assumes "session_ok w" "revive_if_needed w = Some w'"
  shows "accounted w' = accounted w"
proof (cases "st w")
  case Dying
  then show ?thesis using assms accounted_advance [of Active w w'] live_owns [OF assms(1)]
    by (auto simp: revive_if_needed_def revive_state_def bind_eq_Some_conv)
next
  case Inactive
  with assms(2) show ?thesis
    by (auto simp: revive_if_needed_def revive_state_def advance_waiting accounted_emit)
qed (use assms(2) in \<open>auto simp: revive_if_needed_def revive_state_def\<close>)

lemma accounted_call: "call_session e w = Some w' \<Longrightarrow> (\<And>i. wait_calls [e i] = []) \<Longrightarrow> accounted w' = accounted w"
  by (auto simp: call_session_Some accounted_emit simp del: wait_calls_simps(3))

lemma accounted_cancel: "accounted (cancel_pending_waits ec w) = accounted w"
  by (simp add: accounted_def cancel_pending_waits_def)

lemma accounted_finish:
  assumes "finish_error next e w = Some w'"
  shows "accounted w' = accounted w"
proof -
  obtain w1 where w1: "(case next of
        Next_None \<Rightarrow> Some (if cancel_waits_on_nonfatal_error (config w) then cancel_pending_waits (error_code e) w else w)
      | Next_Inactive \<Rightarrow> advance_state Inactive w
      | Next_Error \<Rightarrow> Some (cancel_pending_waits (error_code e) w)) = Some w1"
    "w' = (case error_handler (config w1) of None \<Rightarrow> w1 | Some h \<Rightarrow> emit [Error_Handler_Called h e] w1)"
    using assms by (auto simp: finish_error_def bind_eq_Some_conv)
  have "accounted w1 = accounted w"
    using w1(1) accounted_advance [of Inactive w w1] by (cases "next") (auto simp: accounted_cancel split: if_splits)
  then show ?thesis using w1(2) by (simp add: accounted_emit split: option.splits)
qed

lemma accounted_report:
  assumes "report_error recovery url e w = Some w'"
  shows "accounted w' = accounted w"
proof (cases "verdict_of e")
  case Ask_For_Token
  then show ?thesis using assms
    by (auto simp: report_error_def access_token_expired_def advance_waiting accounted_emit split: if_splits)
qed (use assms in \<open>auto simp: report_error_def Let_def mark_file_for_deletion_def accounted_cancel accounted_emit
      dest!: accounted_finish split: option.splits\<close>)

lemma accounted_resync:
  assumes "client_resync w = Some w'"
  shows "accounted w' = accounted w"
proof -
  have "st w \<noteq> Inactive" using assms resync_returns [of w] by simp
  with assms show ?thesis
    by (auto simp: client_resync_def Let_def advance_inactive revive_if_needed_def revive_state_def advance_waiting
        accounted_def inactive_events_def split: option.splits)
qed

lemma accounted_handle_error:
  assumes "handle_error recovery url e w = Some w'"
  shows "accounted w' = accounted w"
proof (cases "st w = Dying")
  case True
  then show ?thesis using assms accounted_advance [of Inactive w w']
    by (auto simp: handle_error_def handle_error_state_def bind_eq_Some_conv split: if_splits)
next
  case False
  then show ?thesis using assms accounted_resync [of w w'] accounted_report [of recovery url e w w']
    by (auto simp: handle_error_def handle_error_state_def split: if_splits)
qed

lemma accounted_update:
  assumes "session_ok w" "update_configuration [] cfg w = Some w'"
  shows "accounted w' = accounted w"
proof -
  obtain w1 where w1: "(if st w \<noteq> Inactive then advance_state Inactive w else Some w) = Some w1"
    "install_configuration cfg w1 = Some w'" using assms(2) by (auto simp: bind_eq_Some_conv)
  have "session_ok w1"
    using w1(1) assms(1) session_ok_advance_inactive [OF assms(1)] by (cases "st w = Inactive") simp_all
  then have "accounted w' = accounted (w1\<lparr>config := cfg\<rparr>)"
    using w1(2) by (intro accounted_revive) (simp_all add: install_configuration_def split: if_splits)
  then show ?thesis using w1(1) accounted_advance [of Inactive w w1] by (cases "st w = Inactive") auto
qed

lemma accounted_fire:
  assumes "fire x ec w = Some w'"
  shows "accounted w' = accounted w"
proof (cases x)
  case (Completion_Waiter i d n)
  then show ?thesis using assms by (cases d) (auto simp: fire_def completion_handler_def accounted_def)
next
  case (Death_Waiter i n)
  then show ?thesis using assms accounted_advance [of Inactive w w'] by (auto simp: fire_def death_handler_def split: if_splits)
qed


definition registered_wait :: "action \<Rightarrow> callback list" where
  "registered_wait a = (case a of Wait_Upload c \<Rightarrow> [c] | Wait_Download c \<Rightarrow> [c] | _ \<Rightarrow> [])"

lemma accounted_perform:
  assumes "session_ok w" "perform a w = Some w'"
  shows "accounted w' = accounted w + mset (registered_wait a)"
proof (cases a)
  case (Refresh t url)
  with assms(2) show ?thesis by (simp add: accounted_refresh [OF assms(1)] perform_def registered_wait_def)
next
  case (Commit v)
  with assms(2) have "accounted w' = accounted w"
    by (cases "st w") (auto simp: perform_def nonsync_transact_notify_def notify_state_def dest!: accounted_call)
  with Commit show ?thesis by (simp add: registered_wait_def)
next
  case Revive
  with assms(2) show ?thesis by (simp add: accounted_revive [OF assms(1)] perform_def registered_wait_def)
next
  case Reconnect
  with assms(2) have "accounted w' = accounted w"
    by (cases "st w") (auto simp: perform_def handle_reconnect_def accounted_emit dest!: accounted_call)
  with Reconnect show ?thesis by (simp add: registered_wait_def)
next
  case Log_Out
  with assms(2) show ?thesis using accounted_advance [of Inactive w w']
    by (auto simp: perform_def log_out_def registered_wait_def split: if_splits)
next
  case Close
  with assms(2) show ?thesis by (simp add: accounted_close [OF assms(1)] perform_def registered_wait_def)
next
  case (Override address port)
  with assms(2) have "accounted w' = accounted w"
    by (auto simp: perform_def override_server_def Let_def split: if_splits dest!: accounted_call)
  with Override show ?thesis by (simp add: registered_wait_def)
next
  case (Wait_Upload c)
  with assms(2) show ?thesis
    by (auto simp: perform_def registered_wait_def wait_for_upload_completion_def wait_state_def add_completion_callback_def
        add_waiter_def bind_eq_Some_conv accounted_def split: if_splits option.splits)
next
  case (Wait_Download c)
  with assms(2) show ?thesis
    by (auto simp: perform_def registered_wait_def wait_for_download_completion_def wait_state_def
        add_completion_callback_def add_waiter_def bind_eq_Some_conv accounted_def split: if_splits option.splits)
next
  case (Reconfigure cfg)
  with assms(2) have "update_configuration [] cfg w = Some w'" by (simp only: perform_def action.case)
  with Reconfigure show ?thesis by (simp only: accounted_update [OF assms(1)]) (simp add: registered_wait_def)
next
  case Drop
  let ?w = "w\<lparr>drops_in_flight := drops_in_flight w - 1\<rparr>"
  have "(if external_alive w then Some ?w else close_state ?w) = Some w'"
    using assms(2) Drop by (simp add: perform_def did_drop_external_reference_def cong: if_cong)
  moreover have "session_ok ?w" using assms(1) by simp
  ultimately have "accounted w' = accounted ?w" using accounted_close [of ?w w'] by (cases "external_alive w") auto
  then show ?thesis by (simp add: Drop registered_wait_def)
next
  case (Fire x ec)
  with assms(2) have "fire x ec (w\<lparr>waiters := remove1 x (waiters w)\<rparr>) = Some w'" by (simp only: perform_def action.case)
  from accounted_fire [OF this] show ?thesis by (simp add: Fire registered_wait_def)
next
  case (Handle e recovery url)
  with assms(2) have "handle_error recovery url e (w\<lparr>errors_in_flight := remove1 e (errors_in_flight w)\<rparr>) = Some w'"
    by (simp only: perform_def action.case)
  from accounted_handle_error [OF this] show ?thesis by (simp add: Handle registered_wait_def)
qed (use assms(2) in \<open>auto simp: perform_def registered_wait_def set_multiplex_identifier_def set_url_prefix_def
      external_reference_def register_progress_notifier_def unregister_progress_notifier_def handle_progress_update_def
      connection_listener_def accounted_emit split_beta Let_def\<close>)



section \<open>Progress\<close>

definition waiting_for :: "notifier_type \<Rightarrow> world \<Rightarrow> callback list" where
  "waiting_for d w = (case d of Upload \<Rightarrow> upload_callbacks w | Download \<Rightarrow> download_callbacks w)"



text \<open>C13: A dying session can always end: the handler for the upload of its changes is still to be called, and whatever it is
  given the session then becomes inactive, destroys the session object, unregisters itself and answers every wait.\<close>

theorem dying_session_ends:
  assumes "reachable w" and "st w = Dying"
  shows "\<exists>i. session w = Some i \<and> Death_Waiter i (death_count w) \<in> set (waiters w) \<and>
    (\<forall>ec. \<exists>w'. step w (Fire (Death_Waiter i (death_count w)) ec) w' \<and> st w' = Inactive \<and> session w' = None \<and>
       upload_callbacks w' = [] \<and> download_callbacks w' = [] \<and>
       events w' = events w @ [Session_Destroyed i, Unregistered (realm_path_of w)] @
         (if connection w \<noteq> Disconnected then [Connection_Changed (connection w) Disconnected] else []) @
         map (\<lambda>c. Wait_Called c Operation_Aborted) (download_callbacks w @ upload_callbacks w))"
proof -
  obtain i where i: "live_ok i w" "session w = Some i" "Death_Waiter i (death_count w) \<in> set (waiters w)"
    using session_ok_reachable [OF assms(1)] assms(2) by (auto simp: session_ok_def state_ok_def live_ok_def)
  then show ?thesis using assms(2)
    by (simp add: step_iff enabled_def perform_def fire_def death_handler_def advance_inactive inactive_events_def)
qed

theorem dying_session_ends_witness:
  "\<exists>w. reachable w \<and> (\<exists>i. Death_Waiter i (death_count w) \<in> set (waiters w) \<and>
     (\<exists>w'. step w (Fire (Death_Waiter i (death_count w)) No_Error) w' \<and> st w' = Inactive))"
proof -
  obtain w where w: "perform_all (to_active @ [Close]) start = Some w" "st w = Dying"
    by (simp add: session_evaluation)
  then have r: "reachable w" unfolding reachable_def by (blast intro: run_perform_all)
  with dying_session_ends [OF r w(2)] show ?thesis by blast
qed


section \<open>Resynchronisation, log-out and commits\<close>



text \<open>C36: A log-out does not have this protection: the resync counter stays the same, so a handler of the session object that was
  destroyed by the log-out, called when the session has been revived, answers a wait of the new session object as aborted.\<close>

theorem stale_handler_answers_new_wait:
  "\<exists>w. run (new_world path cfg False)
       [Revive, Refresh t (Some url), Wait_Upload 1, Log_Out, Revive, Refresh t' None, Wait_Upload 2,
        Fire (Completion_Waiter 0 Upload 0) Operation_Aborted] w \<and>
     st w = Active \<and> session w = Some 1 \<and> Completion_Waiter 1 Upload 0 \<in> set (waiters w) \<and>
     last (events w) = Wait_Called 2 Operation_Aborted \<and> upload_callbacks w = []"
proof -
  obtain w where "perform_all
      [Revive, Refresh t (Some url), Wait_Upload 1, Log_Out, Revive, Refresh t' None, Wait_Upload 2,
       Fire (Completion_Waiter 0 Upload 0) Operation_Aborted] (new_world path cfg False) = Some w"
    "st w = Active" "session w = Some 1" "Completion_Waiter 1 Upload 0 \<in> set (waiters w)"
    "last (events w) = Wait_Called 2 Operation_Aborted" "upload_callbacks w = []"
    by (simp add: session_evaluation)
  then show ?thesis by (blast intro: run_perform_all)
qed

lemma events_close:
  assumes "close_state w = Some w'" "session w \<noteq> None"
  shows "set (events w) \<subseteq> set (events w')"
proof -
  obtain i where i: "session w = Some i" using assms(2) by auto
  show ?thesis
    using assms(1) advance_inactive [of w] advance_dying [OF _ i]
    by (cases "st w"; cases "stop_policy (config w)") (auto simp: close_state_def unregister_def)
qed

text \<open>A commit made while the session waits for a token is not forgotten: the session object is told of the version of the
  last one as soon as the token has connected it, even when the session had been asked to close meanwhile.\<close>

theorem deferred_commit_delivered:
  assumes "reachable w" and "st w = Waiting_For_Access_Token" and "step w (Commit v) w1"
    and "server_url w \<noteq> None \<or> url \<noteq> None" and "step w1 (Refresh t url) w2"
  shows "\<exists>i. Commit_Notified i v \<in> set (events w2)"
proof -
  have w1: "nonsync_transact_notify v w = Some w1" using assms(3) by (simp add: step_iff perform_def)
  then have d: "deferred_commit_notification w1 = Some v" "st w1 = Waiting_For_Access_Token" "server_url w1 = server_url w"
    using assms(2) by (auto simp: nonsync_transact_notify_def notify_state_def)
  have ok: "session_ok w1" by (rule session_ok_notify [OF session_ok_reachable [OF assms(1)] w1])
  have url: "server_url w1 \<noteq> None \<or> url \<noteq> None" using assms(4) d(3) by simp
  have "refresh_access_token t url w1 = Some w2" using assms(5) by (simp add: step_iff perform_def)
  then obtain v' i where v: "unmoved w1 v'" "session v' = Some i"
    "session_ok (v'\<lparr>st := Active, waiters := waiters v' @ new_waiters i v'\<rparr>)"
    "(if deferred_close w1 then close_state (v'\<lparr>st := Active, waiters := waiters v' @ new_waiters i v'\<rparr>)
      else Some (v'\<lparr>st := Active, waiters := waiters v' @ new_waiters i v'\<rparr>)) = Some w2"
    "\<forall>n. deferred_commit_notification w1 = Some n \<longrightarrow> Commit_Notified i n \<in> set (events v')"
    by (rule refresh_result [OF ok d(2) url])
  let ?w = "v'\<lparr>st := Active, waiters := waiters v' @ new_waiters i v'\<rparr>"
  have "Commit_Notified i v \<in> set (events ?w)" using v(5) d(1) by simp
  moreover have "set (events ?w) \<subseteq> set (events w2)"
    using v(2,4) events_close [of ?w w2] by (cases "deferred_close w1") auto
  ultimately show ?thesis by blast
qed


theorem deferred_commit_delivered_witness:
  "\<exists>w w1 w2. reachable w \<and> step w (Commit 9) w1 \<and> step w1 (Refresh ''t'' (Some ''u'')) w2 \<and>
     (\<exists>i. Commit_Notified i 9 \<in> set (events w2))"
proof -
  obtain w where w: "perform_all [Revive] start = Some w" "st w = Waiting_For_Access_Token"
    by (simp add: session_evaluation)
  have r: "reachable w" unfolding reachable_def using run_perform_all [OF w(1)] by blast
  obtain w1 where w1: "step w (Commit 9) w1"
    using notify_returns [OF session_ok_reachable [OF r], of 9] by (auto simp: step_iff enabled_def perform_def)
  then have "session_ok w1" using session_ok_reachable [OF r] by (auto simp: step_iff intro: session_ok_perform)
  then obtain w2 where w2: "step w1 (Refresh ''t'' (Some ''u'')) w2"
    using refresh_returns [of w1] by (auto simp: step_iff enabled_def perform_def)
  have "server_url w \<noteq> None \<or> Some ''u'' \<noteq> None" by simp
  from deferred_commit_delivered [OF r w(2) w1 this w2] r w1 w2 show ?thesis by blast
qed


section \<open>Changing the configuration\<close>

text \<open>What the other threads may do to the session while its configuration is being changed: anything that keeps it well-formed and
  leaves alone what must not change.\<close>

definition same_realm :: "sync_config \<Rightarrow> sync_config \<Rightarrow> bool" where
  "same_realm c d \<longleftrightarrow>
     sc_user c = sc_user d \<and> reference_realm_url c = reference_realm_url d \<and> is_partial c = is_partial d"

definition benign :: "(world \<Rightarrow> world option) \<Rightarrow> bool" where
  "benign f \<longleftrightarrow> (\<forall>w. session_ok w \<longrightarrow> (\<exists>w'. f w = Some w' \<and> session_ok w' \<and> same_realm (config w') (config w)))"

lemma install_returns:
  assumes "session_ok w" "st w = Inactive" "same_realm (config w) cfg"
  shows "\<exists>w'. install_configuration cfg w = Some w' \<and> config w' = cfg \<and> st w' = Waiting_For_Access_Token"
proof -
  have "session w = None" using assms(1,2) by (simp add: session_ok_def state_ok_def)
  then show ?thesis using assms(2,3)
    by (simp add: install_configuration_def same_realm_def revive_if_needed_def revive_state_def advance_waiting)
qed

lemma inactive_step:
  assumes "session_ok w"
  obtains w1 where "(if st w \<noteq> Inactive then advance_state Inactive w else Some w) = Some w1" "session_ok w1" "st w1 = Inactive"
    "config w1 = config w"
proof (cases "st w = Inactive")
  case False
  then obtain w1 where w1: "advance_state Inactive w = Some w1" using advance_inactive by blast
  then have "st w1 = Inactive \<and> config w1 = config w" by (intro advanced) simp_all
  then show thesis using w1 False by (intro that [of w1] session_ok_advance_inactive [OF assms w1]) simp_all
qed (use assms that in auto)

text \<open>The loop that changes the configuration ends: however often other threads revive the session between the moments at which
  it holds the lock, once they leave it alone the new configuration is installed and the session asks for a token.\<close>

theorem update_configuration_installs:
  assumes "session_ok w" and "list_all benign others" and "same_realm (config w) cfg"
  shows "\<exists>w'. update_configuration others cfg w = Some w' \<and> config w' = cfg \<and> st w' = Waiting_For_Access_Token"
  using assms
proof (induction others arbitrary: w)
  case Nil
  obtain w1 where "(if st w \<noteq> Inactive then advance_state Inactive w else Some w) = Some w1" "session_ok w1" "st w1 = Inactive"
    "config w1 = config w" by (rule inactive_step [OF Nil.prems(1)])
  then show ?case using install_returns [of w1 cfg] Nil.prems(3) by simp
next
  case (Cons f others)
  show ?case
  proof (cases "st w = Inactive")
    case True
    then show ?thesis using install_returns [of w cfg] Cons.prems by simp
  next
    case False
    then obtain w1 where w1: "advance_state Inactive w = Some w1" "session_ok w1" "config w1 = config w"
      using inactive_step [OF Cons.prems(1)] by auto
    then obtain w2 where w2: "f w1 = Some w2" "session_ok w2" "same_realm (config w2) (config w1)"
      using Cons.prems(2) by (auto simp: benign_def)
    have "same_realm (config w2) cfg" using w2(3) w1(3) Cons.prems(3) by (simp add: same_realm_def)
    from Cons.IH [OF w2(2) _ this] Cons.prems(2) False w1(1) w2(1) show ?thesis by simp
  qed
qed

theorem update_configuration_installs_witness:
  "\<exists>w'. update_configuration [revive_if_needed, revive_if_needed] (sample_config\<lparr>url_prefix := Some ''x''\<rparr>) start = Some w' \<and>
     config w' = sample_config\<lparr>url_prefix := Some ''x''\<rparr> \<and> st w' = Waiting_For_Access_Token"
proof (rule update_configuration_installs)
  show "session_ok start" by (rule session_ok_new)
  have "config w' = config w" if "revive_if_needed w = Some w'" "session_ok w" for w w'
    using that live_owns [OF that(2)] advanced [of _ w]
    by (cases "st w") (auto simp: revive_if_needed_def revive_state_def bind_eq_Some_conv)
  then have "same_realm (config w') (config w)" if "revive_if_needed w = Some w'" "session_ok w" for w w'
    using that by (simp add: same_realm_def)
  then have "benign revive_if_needed"
    unfolding benign_def using revive_returns session_ok_revive by blast
  then show "list_all benign [revive_if_needed, revive_if_needed]" by simp
  show "same_realm (config start) (sample_config\<lparr>url_prefix := Some ''x''\<rparr>)"
    by (simp add: same_realm_def new_world_def)
qed

end
