(* ===== verification/Log_Info.thy ===== *)
theory Log_Info
  imports Change_Builder "HOL-Library.More_List"
begin

text \<open>
  What an observer of transaction logs keeps: \<open>TransactionChangeInfo\<close> and \<open>ListChangeInfo\<close> of
  \<open>impl/collection_notifier.hpp\<close>, and the functions on vectors of \<open>impl/transact_log_handler.cpp\<close> that
  keep it up to date when tables or columns are inserted and moved.

  The builders of the tracked lists belong to somebody else; a \<open>ListChangeInfo\<close> points to one.  They
  are kept in a store, the list \<open>collections\<close> of the observer, and a pointer is a position of it.
\<close>

record list_change_info =
  table_ndx :: size_t
  row_ndx :: size_t
  col_ndx :: size_t
  changes_at :: size_t

record change_info =
  table_modifications_needed :: "bool list"
  table_moves_needed :: "bool list"
  lists :: "list_change_info list"
  tables :: "ccb list"
  column_indices :: "size_t list list"
  table_indices :: "size_t list"
  track_all :: bool
  schema_changed :: bool

definition no_change_info :: change_info where
  "no_change_info = \<lparr>table_modifications_needed = [], table_moves_needed = [], lists = [], tables = [],
     column_indices = [], table_indices = [], track_all = False, schema_changed = False\<rparr>"

section \<open>Vectors\<close>

definition resize :: "'a \<Rightarrow> size_t \<Rightarrow> 'a list \<Rightarrow> 'a list" where
  "resize d n xs = take n xs @ replicate (n - length xs) d"

definition incr :: "size_t \<Rightarrow> size_t" where
  "incr n = (n + 1) mod 2 ^ 64"

fun iota :: "nat \<Rightarrow> size_t \<Rightarrow> size_t list" where
  "iota 0 v = []"
| "iota (Suc n) v = v # iota n (incr v)"

text \<open>\<open>std::rotate\<close> on the range from \<open>first\<close> to \<open>last\<close>: the element at \<open>middle\<close> comes first.\<close>

definition std_rotate :: "'a list \<Rightarrow> size_t \<Rightarrow> size_t \<Rightarrow> size_t \<Rightarrow> 'a list" where
  "std_rotate xs b m e = take b xs @ drop m (take e xs) @ drop b (take m xs) @ drop e xs"

definition rotate_to :: "'a \<Rightarrow> 'a list \<Rightarrow> size_t \<Rightarrow> size_t \<Rightarrow> 'a list option" where
  "rotate_to d xs from to =
     (if from = to then None
      else if length xs \<le> from \<and> length xs \<le> to then Some xs
      else let ys = (if length xs \<le> from \<or> length xs \<le> to then resize d (max from to + 1) xs else xs)
           in Some (if from < to then std_rotate ys from (from + 1) (to + 1)
                    else std_rotate ys to from (from + 1)))"

definition insert_empty_at :: "'a \<Rightarrow> 'a list \<Rightarrow> size_t \<Rightarrow> 'a list" where
  "insert_empty_at d xs pos = (if pos < length xs then take pos xs @ d # drop pos xs else xs)"

definition adjust_for_move :: "size_t \<Rightarrow> size_t \<Rightarrow> size_t \<Rightarrow> size_t" where
  "adjust_for_move v from to =
     (if v = from then to
      else if from < v \<and> v \<le> to then v - 1
      else if v < from \<and> to \<le> v then v + 1
      else v)"

definition expand_to :: "size_t list \<Rightarrow> size_t \<Rightarrow> size_t list" where
  "expand_to cols i =
     (let old_size = length cols
      in if i < old_size then cols
         else cols @ iota (max (old_size * 2) (i + 1) - old_size)
                       (if old_size = 0 then 0 else incr (cols ! (old_size - 1))))"

definition adjust_ge :: "size_t list \<Rightarrow> size_t \<Rightarrow> size_t list" where
  "adjust_ge vs i = map (\<lambda>v. if i \<le> v then v + 1 else v) vs"

section \<open>What they do\<close>

text \<open>\<open>nth_default d xs i\<close> reads a vector that is as long as it needs to be.  A rotation is the
  permutation \<open>adjust_for_move\<close> of the places, an insertion the shift of \<open>adjust_ge\<close>.\<close>

lemma nth_resize: "length xs \<le> n \<Longrightarrow> nth_default d (resize d n xs) = nth_default d xs"
  by (auto simp: resize_def nth_default_def nth_append fun_eq_iff)

lemma length_resize [simp]: "length (resize d n xs) = n"
  by (simp add: resize_def)

lemma adjust_for_move_inj: "adjust_for_move u a b = adjust_for_move v a b \<longleftrightarrow> u = v"
  by (auto simp: adjust_for_move_def split: if_splits)

lemma adjust_for_move_back: "adjust_for_move (adjust_for_move v a b) b a = v"
  by (auto simp: adjust_for_move_def)

lemma length_std_rotate: "b \<le> m \<Longrightarrow> m \<le> e \<Longrightarrow> e \<le> length xs \<Longrightarrow> length (std_rotate xs b m e) = length xs"
  by (simp add: std_rotate_def)

lemma nth_std_rotate:
  assumes "b \<le> m" "m \<le> e" "e \<le> length xs" "k < length xs"
  shows "std_rotate xs b m e ! k =
    xs ! (if k < b \<or> e \<le> k then k else if k < b + (e - m) then k + (m - b) else k - (e - m))"
proof -
  have l: "length (take b xs) = b" "length (drop m (take e xs)) = e - m" "length (drop b (take m xs)) = m - b"
    using assms by auto
  consider "k < b" | "b \<le> k" "k < b + (e - m)" | "b + (e - m) \<le> k" "k < e" | "e \<le> k" by linarith
  then show ?thesis
  proof cases
    case 3
    then have "\<not> k < b" "\<not> k - b < e - m" "k - b - (e - m) < m - b" using assms by linarith+
    then have "std_rotate xs b m e ! k = drop b (take m xs) ! (k - b - (e - m))"
      using l by (simp only: std_rotate_def nth_append length_append if_False if_True)
    also have "\<dots> = xs ! (b + (k - b - (e - m)))" using 3 l assms by simp
    also have "b + (k - b - (e - m)) = k - (e - m)" using 3 assms by linarith
    finally show ?thesis using 3 by simp
  next
    case 2
    then have "\<not> k < b" "k - b < e - m" "\<not> e \<le> k" "m + (k - b) = k + (m - b)" using assms by linarith+
    then show ?thesis using l 2 by (simp add: std_rotate_def nth_append del: add_diff_assoc2 add_diff_assoc)
  next
    case 4
    then have "\<not> k < b" "\<not> k - b < e - m" "\<not> k - b - (e - m) < m - b" using assms by linarith+
    then have "std_rotate xs b m e ! k = drop e xs ! (k - b - (e - m) - (m - b))"
      using l by (simp only: std_rotate_def nth_append length_append if_False)
    also have "\<dots> = xs ! (e + (k - b - (e - m) - (m - b)))" using assms by simp
    also have "e + (k - b - (e - m) - (m - b)) = k" using 4 assms by linarith
    finally show ?thesis using 4 by simp
  qed (use l assms in \<open>simp_all add: std_rotate_def nth_append add.commute add_diff_assoc2\<close>)
qed

lemma std_rotate_up:
  assumes "a < b" "b < length xs"
  shows "length (std_rotate xs a (a + 1) (b + 1)) = length xs"
    "nth_default d (std_rotate xs a (a + 1) (b + 1)) (adjust_for_move v a b) = nth_default d xs v"
proof -
  show l: "length (std_rotate xs a (a + 1) (b + 1)) = length xs" using assms by (simp add: length_std_rotate)
  show "nth_default d (std_rotate xs a (a + 1) (b + 1)) (adjust_for_move v a b) = nth_default d xs v"
  proof (cases "v < length xs")
    case True
    then have "adjust_for_move v a b < length xs" using assms by (auto simp: adjust_for_move_def)
    then show ?thesis using assms True
      by (simp add: nth_default_def l [simplified] nth_std_rotate) (auto simp: adjust_for_move_def)
  next
    case False
    then have "adjust_for_move v a b = v" using assms by (auto simp: adjust_for_move_def)
    then show ?thesis using False by (simp add: nth_default_def l [simplified])
  qed
qed

lemma std_rotate_down:
  assumes "b < a" "a < length xs"
  shows "length (std_rotate xs b a (a + 1)) = length xs"
    "nth_default d (std_rotate xs b a (a + 1)) (adjust_for_move v a b) = nth_default d xs v"
proof -
  show l: "length (std_rotate xs b a (a + 1)) = length xs" using assms by (simp add: length_std_rotate)
  show "nth_default d (std_rotate xs b a (a + 1)) (adjust_for_move v a b) = nth_default d xs v"
  proof (cases "v < length xs")
    case True
    then have "adjust_for_move v a b < length xs" using assms by (auto simp: adjust_for_move_def)
    then show ?thesis using assms True
      by (simp add: nth_default_def l [simplified] nth_std_rotate) (auto simp: adjust_for_move_def)
  next
    case False
    then have "adjust_for_move v a b = v" using assms by (auto simp: adjust_for_move_def)
    then show ?thesis using False by (simp add: nth_default_def l [simplified])
  qed
qed

lemma rotate_to_moves:
  assumes "rotate_to d xs a b = Some ys"
  shows "nth_default d ys (adjust_for_move v a b) = nth_default d xs v"
proof (cases "length xs \<le> a \<and> length xs \<le> b")
  case True
  then have "ys = xs" using assms by (auto simp: rotate_to_def split: if_splits)
  moreover have "nth_default d xs (adjust_for_move v a b) = nth_default d xs v"
  proof (cases "v < length xs")
    case True
    then show ?thesis using \<open>length xs \<le> a \<and> length xs \<le> b\<close> by (auto simp: adjust_for_move_def)
  next
    case False
    then have "length xs \<le> adjust_for_move v a b"
      using True by (auto simp: adjust_for_move_def)
    then show ?thesis using False by (simp add: nth_default_def)
  qed
  ultimately show ?thesis by simp
next
  case False
  define zs where "zs = (if length xs \<le> a \<or> length xs \<le> b then resize d (max a b + 1) xs else xs)"
  have len: "a < length zs" "b < length zs" by (auto simp: zs_def)
  have same: "nth_default d zs = nth_default d xs"
    using False by (auto simp: zs_def nth_resize)
  have "ys = (if a < b then std_rotate zs a (a + 1) (b + 1) else std_rotate zs b a (a + 1))" "a \<noteq> b"
    using assms False by (auto simp: rotate_to_def zs_def Let_def split: if_splits)
  then show ?thesis
    using std_rotate_up(2) [of a b zs] std_rotate_down(2) [of b a zs] len same
    by (auto simp: nat_neq_iff)
qed

lemma rotate_to_length:
  assumes "rotate_to d xs a b = Some ys"
  shows "length xs \<le> length ys" "length ys = (if length xs \<le> a \<and> length xs \<le> b then length xs else max (length xs) (max a b + 1))"
proof -
  let ?zs = "if length xs \<le> a \<or> length xs \<le> b then resize d (max a b + 1) xs else xs"
  have "a < length ?zs" "b < length ?zs" by auto
  then have "length ys = (if length xs \<le> a \<and> length xs \<le> b then length xs else length ?zs)"
    using assms std_rotate_up(1) [of a b ?zs] std_rotate_down(1) [of b a ?zs]
    by (auto simp: rotate_to_def Let_def nat_neq_iff split: if_splits)
  then show "length xs \<le> length ys" "length ys = (if length xs \<le> a \<and> length xs \<le> b then length xs else max (length xs) (max a b + 1))"
    by (auto split: if_splits)
qed

lemma nth_insert_empty_at:
  "nth_default d (insert_empty_at d xs i) (if i \<le> v then v + 1 else v) = nth_default d xs v"
  "nth_default d (insert_empty_at d xs i) i = d"
  by (auto simp: insert_empty_at_def nth_default_def nth_append)

lemma length_iota [simp]: "length (iota n v) = n"
  by (induction n arbitrary: v) auto

lemma nth_iota: "k < n \<Longrightarrow> v + n \<le> 2 ^ 64 \<Longrightarrow> iota n v ! k = v + k"
proof (induction n arbitrary: v k)
  case (Suc n)
  show ?case
  proof (cases k)
    case (Suc j)
    then have "j < n" "incr v = v + 1" using Suc.prems by (auto simp: incr_def)
    then show ?thesis using Suc.IH [of j "incr v"] Suc Suc.prems by simp
  qed simp
qed simp

end
