(* ===== verification/Log_Handler.thy ===== *)
theory Log_Handler
  imports Log_Info
begin

text \<open>
  The handlers of \<open>impl/transact_log_handler.cpp\<close> that the core's parser of transaction logs calls, one
  per instruction of a log: \<open>TransactLogValidator\<close>, which rejects the schema changes the object store does
  not support, and \<open>TransactLogObserver\<close>, which also records what happened to the tables and lists somebody
  asked for.

  The observer refers to one \<open>TransactionChangeInfo\<close>; its record extends that record.  A pointer to a
  builder is null, or points into the vector \<open>tables\<close>, or to a builder of the store
  \<open>collections\<close>.  A pointer into \<open>tables\<close> becomes \<open>Stale\<close> where the vector grows, and its use is
  a failure.  Operations give \<open>None\<close> when an assertion fails or a stale pointer is used.
\<close>

datatype builder_ptr = Null | In_Tables size_t | In_Lists size_t | Stale

record observer = change_info +
  collections :: "ccb list"
  current_table :: size_t
  active_list :: builder_ptr
  active_table :: builder_ptr
  active_descriptor :: builder_ptr
  need_move_info :: bool
  is_top_level_table :: bool

definition observer_init :: "change_info \<Rightarrow> ccb list \<Rightarrow> observer" where
  "observer_init info bs = change_info.extend info
     \<lparr>collections = bs, current_table = 0, active_list = Null, active_table = Null, active_descriptor = Null,
      need_move_info = False, is_top_level_table = True\<rparr>"

section \<open>Instructions\<close>

text \<open>How a value is written: an ordinary assignment, a default value or a unique value.\<close>

datatype write_kind = Instr_Set | Instr_Set_Default | Instr_Set_Unique

datatype value_kind = Int_Value | Bool_Value | Float_Value | Double_Value | String_Value | Binary_Value
  | Old_Date_Time_Value | Timestamp_Value | Table_Value | Mixed_Value | Link_Value | Null_Value

text \<open>The arguments are those the handlers use; a path is a list of pairs of a column and a row.\<close>

datatype instr =
    Select_Table size_t "(size_t \<times> size_t) list"
  | Select_Descriptor size_t
  | Select_Link_List size_t size_t
  | Set_Value value_kind size_t size_t write_kind
  | Add_Int size_t size_t
  | Nullify_Link size_t size_t
  | Insert_Substring size_t size_t
  | Erase_Substring size_t size_t
  | Set_Int_Unique size_t size_t
  | Set_String_Unique size_t size_t
  | Insert_Empty_Rows size_t size_t size_t
  | Add_Row_With_Key size_t size_t
  | Erase_Rows size_t size_t bool
  | Swap_Rows size_t size_t
  | Move_Row size_t size_t
  | Merge_Rows size_t size_t
  | Clear_Table
  | Optimize_Table
  | Link_List_Set size_t
  | Link_List_Insert size_t
  | Link_List_Erase size_t
  | Link_List_Nullify size_t
  | Link_List_Clear size_t
  | Link_List_Move size_t size_t
  | Link_List_Swap size_t size_t
  | Insert_Group_Level_Table size_t
  | Erase_Group_Level_Table size_t
  | Rename_Group_Level_Table size_t
  | Move_Group_Level_Table size_t size_t
  | Insert_Column size_t
  | Insert_Link_Column size_t
  | Erase_Column size_t
  | Erase_Link_Column size_t
  | Rename_Column size_t
  | Move_Column size_t size_t
  | Add_Search_Index size_t
  | Remove_Search_Index size_t
  | Set_Link_Type size_t

datatype log_error = Unsupported_Schema_Change | Assertion_Failed

definition or_assertion :: "'a option \<Rightarrow> log_error + 'a" where
  "or_assertion r = (case r of Some x \<Rightarrow> Inr x | None \<Rightarrow> Inl Assertion_Failed)"

section \<open>Validation\<close>

text \<open>\<open>TransactLogValidationMixin\<close>: the state is the table last selected.\<close>

definition log_schema_error :: "log_error + 'a" where
  "log_schema_error = Inl Unsupported_Schema_Change"

definition validate_instr :: "instr \<Rightarrow> size_t \<Rightarrow> log_error + size_t" where
  "validate_instr i current =
     (case i of
        Select_Table t path \<Rightarrow> Inr t
      | Erase_Group_Level_Table t \<Rightarrow> log_schema_error
      | Rename_Group_Level_Table t \<Rightarrow> log_schema_error
      | Erase_Column c \<Rightarrow> log_schema_error
      | Erase_Link_Column c \<Rightarrow> log_schema_error
      | Rename_Column c \<Rightarrow> log_schema_error
      | _ \<Rightarrow> Inr current)"

fun validate :: "instr list \<Rightarrow> size_t \<Rightarrow> log_error + size_t" where
  "validate [] current = Inr current"
| "validate (i # log) current = (case validate_instr i current of Inl e \<Rightarrow> Inl e | Inr c \<Rightarrow> validate log c)"

section \<open>Builders\<close>

definition at_builder :: "(ccb \<Rightarrow> ccb option) \<Rightarrow> builder_ptr \<Rightarrow> observer \<Rightarrow> observer option" where
  "at_builder f p ob =
     (case p of
        Null \<Rightarrow> Some ob
      | In_Tables i \<Rightarrow> if i < length (tables ob)
                       then do { c \<leftarrow> f (tables ob ! i); Some (ob\<lparr>tables := (tables ob)[i := c]\<rparr>) } else None
      | In_Lists a \<Rightarrow> if a < length (collections ob)
                      then do { c \<leftarrow> f (collections ob ! a); Some (ob\<lparr>collections := (collections ob)[a := c]\<rparr>) }
                      else None
      | Stale \<Rightarrow> None)"

definition outdated :: "builder_ptr \<Rightarrow> builder_ptr" where
  "outdated p = (case p of In_Tables i \<Rightarrow> Stale | _ \<Rightarrow> p)"

text \<open>The vector \<open>tables\<close> is replaced; pointers into it survive unless it has grown.\<close>

definition set_tables :: "ccb list \<Rightarrow> observer \<Rightarrow> observer" where
  "set_tables ts ob =
     (if length (tables ob) < length ts
      then ob\<lparr>tables := ts, active_list := outdated (active_list ob), active_table := outdated (active_table ob),
              active_descriptor := outdated (active_descriptor ob)\<rparr>
      else ob\<lparr>tables := ts\<rparr>)"

definition find_list :: "size_t \<Rightarrow> size_t \<Rightarrow> size_t \<Rightarrow> observer \<Rightarrow> builder_ptr" where
  "find_list tbl col row ob =
     (case find (\<lambda>l. table_ndx l = tbl \<and> row_ndx l = row \<and> col_ndx l = col) (rev (lists ob)) of
        Some l \<Rightarrow> In_Lists (changes_at l)
      | None \<Rightarrow> Null)"

definition mark_dirty :: "nat \<Rightarrow> size_t \<Rightarrow> size_t \<Rightarrow> observer \<Rightarrow> observer option" where
  "mark_dirty K row col ob = at_builder (ccb_modify K row col) (active_table ob) ob"

text \<open>\<open>MarkDirtyMixin::mark_dirty\<close>\<close>

definition mark_dirty_instr :: "nat \<Rightarrow> size_t \<Rightarrow> size_t \<Rightarrow> write_kind \<Rightarrow> observer \<Rightarrow> observer option" where
  "mark_dirty_instr K row col instr ob = (if instr = Instr_Set then mark_dirty K row col ob else Some ob)"

definition map_lists :: "(list_change_info \<Rightarrow> list_change_info) \<Rightarrow> observer \<Rightarrow> observer" where
  "map_lists f ob = ob\<lparr>lists := map f (lists ob)\<rparr>"

fun parse_tables :: "nat \<Rightarrow> ccb list \<Rightarrow> ccb list option" where
  "parse_tables K [] = Some []"
| "parse_tables K (c # cs) = do { c' \<leftarrow> ccb_parse_complete K c; cs' \<leftarrow> parse_tables K cs; Some (c' # cs') }"

fun clean_lists :: "nat \<Rightarrow> list_change_info list \<Rightarrow> observer \<Rightarrow> observer option" where
  "clean_lists K [] ob = Some ob"
| "clean_lists K (l # ls) ob =
     do { ob' \<leftarrow> at_builder (clean_up_stale_moves K) (In_Lists (changes_at l)) ob; clean_lists K ls ob' }"

definition parse_complete :: "nat \<Rightarrow> observer \<Rightarrow> observer option" where
  "parse_complete K ob =
     do { ts \<leftarrow> parse_tables K (tables ob); clean_lists K (lists ob) (ob\<lparr>tables := ts\<rparr>) }"

section \<open>Selecting\<close>

definition select_descriptor :: "size_t \<Rightarrow> observer \<Rightarrow> observer" where
  "select_descriptor levels ob = ob\<lparr>active_descriptor := (if levels = 0 then active_table ob else Null)\<rparr>"

definition needed :: "bool list \<Rightarrow> size_t \<Rightarrow> bool" where
  "needed bs i \<longleftrightarrow> i < length bs \<and> bs ! i"

definition select_table :: "nat \<Rightarrow> size_t \<Rightarrow> (size_t \<times> size_t) list \<Rightarrow> observer \<Rightarrow> observer option" where
  "select_table K tbl path ob =
     (let ob1 = ob\<lparr>current_table := tbl, active_table := Null, is_top_level_table := True\<rparr>
      in if 1 < length path then Some (ob1\<lparr>is_top_level_table := False\<rparr>)
      else if \<not> track_all ob1 \<and> \<not> needed (table_modifications_needed ob1) tbl then Some ob1
      else let ob2 = ob1\<lparr>need_move_info := (track_all ob1 \<or> needed (table_moves_needed ob1) tbl)\<rparr>;
               ob3 = (if length (tables ob2) \<le> tbl
                      then set_tables (resize ccb_init (max (length (tables ob2) * 2) (tbl + 1)) (tables ob2)) ob2
                      else ob2);
               ob4 = ob3\<lparr>active_table := In_Tables tbl\<rparr>
           in case path of
                [] \<Rightarrow> Some ob4
              | (col, row) # _ \<Rightarrow>
                  do { ob5 \<leftarrow> mark_dirty K row col ob4;
                       let ob6 = ob5\<lparr>active_table := Null, is_top_level_table := False\<rparr>;
                           list = find_list tbl col row ob6
                       in Some (if list = Null then ob6 else ob6\<lparr>active_table := list, need_move_info := True\<rparr>) })"

definition select_link_list :: "nat \<Rightarrow> size_t \<Rightarrow> size_t \<Rightarrow> observer \<Rightarrow> observer option" where
  "select_link_list K col row ob =
     do { ob1 \<leftarrow> mark_dirty K row col ob; Some (ob1\<lparr>active_list := find_list (current_table ob1) col row ob1\<rparr>) }"

section \<open>Link lists\<close>

definition link_list_set :: "nat \<Rightarrow> size_t \<Rightarrow> observer \<Rightarrow> observer option" where
  "link_list_set K index ob = at_builder (ccb_modify K index npos) (active_list ob) ob"

definition link_list_insert :: "nat \<Rightarrow> size_t \<Rightarrow> observer \<Rightarrow> observer option" where
  "link_list_insert K index ob = at_builder (ccb_insert K index 1 True) (active_list ob) ob"

definition link_list_erase :: "nat \<Rightarrow> size_t \<Rightarrow> observer \<Rightarrow> observer option" where
  "link_list_erase K index ob = at_builder (ccb_erase K index) (active_list ob) ob"

definition link_list_swap :: "nat \<Rightarrow> size_t \<Rightarrow> size_t \<Rightarrow> observer \<Rightarrow> observer option" where
  "link_list_swap K index1 index2 ob = do { ob1 \<leftarrow> link_list_set K index1 ob; link_list_set K index2 ob1 }"

definition link_list_clear :: "nat \<Rightarrow> size_t \<Rightarrow> observer \<Rightarrow> observer option" where
  "link_list_clear K old_size ob = at_builder (ccb_clear K old_size) (active_list ob) ob"

definition link_list_move :: "nat \<Rightarrow> size_t \<Rightarrow> size_t \<Rightarrow> observer \<Rightarrow> observer option" where
  "link_list_move K from to ob = at_builder (ccb_move K from to) (active_list ob) ob"

section \<open>Rows\<close>

definition insert_empty_rows :: "nat \<Rightarrow> size_t \<Rightarrow> size_t \<Rightarrow> observer \<Rightarrow> observer option" where
  "insert_empty_rows K row num ob =
     do { ob1 \<leftarrow> at_builder (ccb_insert K row num (need_move_info ob)) (active_table ob) ob;
          Some (if \<not> is_top_level_table ob1 then ob1
                else map_lists (\<lambda>l. if table_ndx l = current_table ob1 \<and> row \<le> row_ndx l
                                    then l\<lparr>row_ndx := row_ndx l + num\<rparr> else l) ob1) }"

definition add_row_with_key :: "nat \<Rightarrow> size_t \<Rightarrow> observer \<Rightarrow> observer option" where
  "add_row_with_key K row ob = insert_empty_rows K row 1 ob"

text \<open>The loop over \<open>m_info.lists\<close> by position: the list of the erased row is replaced by the last
  list of the vector, and the position goes on.\<close>

function erase_lists :: "size_t \<Rightarrow> size_t \<Rightarrow> size_t \<Rightarrow> nat \<Rightarrow> list_change_info list \<Rightarrow> list_change_info list" where
  "erase_lists tbl row last_row i ls =
     (if i < length ls
      then let l = ls ! i
           in if table_ndx l \<noteq> tbl then erase_lists tbl row last_row (i + 1) ls
           else if row_ndx l = row
           then erase_lists tbl row last_row (i + 1) (butlast (if i + 1 < length ls then ls[i := last ls] else ls))
           else if row_ndx l = last_row
           then erase_lists tbl row last_row (i + 1) (ls[i := l\<lparr>row_ndx := row\<rparr>])
           else erase_lists tbl row last_row (i + 1) ls
      else ls)"
  by pat_completeness auto

termination by (relation "measure (\<lambda>(t, r, l, i, ls). length ls - i)") auto

declare erase_lists.simps [simp del]

definition erase_rows :: "nat \<Rightarrow> size_t \<Rightarrow> size_t \<Rightarrow> bool \<Rightarrow> observer \<Rightarrow> observer option" where
  "erase_rows K row prior_num_rows unordered ob =
     (if \<not> unordered then at_builder (ccb_erase K row) (active_table ob) ob
      else let last_row = (if prior_num_rows = 0 then npos else prior_num_rows - 1) in
        do { ob1 \<leftarrow> at_builder (ccb_move_over K row last_row (need_move_info ob)) (active_table ob) ob;
             Some (if \<not> is_top_level_table ob1 then ob1
                   else ob1\<lparr>lists := erase_lists (current_table ob1) row last_row 0 (lists ob1)\<rparr>) })"

definition swap_rows :: "nat \<Rightarrow> size_t \<Rightarrow> size_t \<Rightarrow> observer \<Rightarrow> observer option" where
  "swap_rows K row1 row2 ob =
     (if \<not> row1 < row2 then None
      else if \<not> is_top_level_table ob
      then do { ob1 \<leftarrow> at_builder (ccb_move K row1 row2) (active_table ob) ob;
                if row1 + 1 \<noteq> row2 then at_builder (ccb_move K (row2 - 1) row1) (active_table ob1) ob1 else Some ob1 }
      else do { ob1 \<leftarrow> at_builder (ccb_swap K row1 row2 (need_move_info ob)) (active_table ob) ob;
                Some (map_lists (\<lambda>l. if table_ndx l = current_table ob1
                                     then if row_ndx l = row1 then l\<lparr>row_ndx := row2\<rparr>
                                          else if row_ndx l = row2 then l\<lparr>row_ndx := row1\<rparr> else l
                                     else l) ob1) })"

definition move_row :: "nat \<Rightarrow> size_t \<Rightarrow> size_t \<Rightarrow> observer \<Rightarrow> observer option" where
  "move_row K from to ob =
     (if \<not> (active_table ob = Null \<or> \<not> is_top_level_table ob) then None
      else at_builder (ccb_move K from to) (active_table ob) ob)"

definition merge_rows :: "nat \<Rightarrow> size_t \<Rightarrow> size_t \<Rightarrow> observer \<Rightarrow> observer option" where
  "merge_rows K from to ob =
     do { ob1 \<leftarrow> at_builder (ccb_subsume K from to (need_move_info ob)) (active_table ob) ob;
          Some (if \<not> is_top_level_table ob1 then ob1
                else map_lists (\<lambda>l. if table_ndx l = current_table ob1 \<and> row_ndx l = from
                                    then l\<lparr>row_ndx := to\<rparr> else l) ob1) }"

definition clear_table :: "nat \<Rightarrow> observer \<Rightarrow> observer option" where
  "clear_table K ob =
     do { ob1 \<leftarrow> at_builder (ccb_clear K npos) (active_table ob) ob;
          Some (if \<not> is_top_level_table ob1 then ob1
                else ob1\<lparr>lists := filter (\<lambda>l. table_ndx l \<noteq> current_table ob1) (lists ob1)\<rparr>) }"

section \<open>Columns and tables\<close>

text \<open>The sequel of \<open>insert_column\<close> and \<open>move_column\<close> happens for the columns of a top-level table.\<close>

definition other_descriptor :: "observer \<Rightarrow> bool" where
  "other_descriptor ob \<longleftrightarrow> active_descriptor ob \<noteq> active_table ob \<or> \<not> is_top_level_table ob"

definition with_indices :: "(size_t list \<Rightarrow> size_t list option) \<Rightarrow> observer \<Rightarrow> observer option" where
  "with_indices f ob =
     (let t = current_table ob;
          cis = (if length (column_indices ob) \<le> t then resize [] (t + 1) (column_indices ob) else column_indices ob)
      in do { cols \<leftarrow> f (cis ! t); Some (ob\<lparr>column_indices := cis[t := cols]\<rparr>) })"

definition insert_column :: "size_t \<Rightarrow> observer \<Rightarrow> observer option" where
  "insert_column ndx ob =
     do { ob1 \<leftarrow> at_builder (\<lambda>c. Some (ccb_insert_column ndx c)) (active_descriptor ob) (ob\<lparr>schema_changed := True\<rparr>);
          if other_descriptor ob1 then Some ob1
          else with_indices (\<lambda>cols. Some ((insert_empty_at 0 (expand_to cols ndx) ndx)[ndx := npos]))
                 (map_lists (\<lambda>l. if table_ndx l = current_table ob1 \<and> ndx \<le> col_ndx l
                                 then l\<lparr>col_ndx := col_ndx l + 1\<rparr> else l) ob1) }"

definition move_column :: "size_t \<Rightarrow> size_t \<Rightarrow> observer \<Rightarrow> observer option" where
  "move_column from to ob =
     do { ob1 \<leftarrow> at_builder (\<lambda>c. Some (ccb_move_column from to c)) (active_descriptor ob) (ob\<lparr>schema_changed := True\<rparr>);
          if other_descriptor ob1 then Some ob1
          else with_indices (\<lambda>cols. rotate_to 0 (expand_to cols (max from to + 1)) from to)
                 (map_lists (\<lambda>l. if table_ndx l = current_table ob1
                                 then l\<lparr>col_ndx := adjust_for_move (col_ndx l) from to\<rparr> else l) ob1) }"

definition prepare_table_indices :: "observer \<Rightarrow> observer" where
  "prepare_table_indices ob =
     (if table_indices ob = [] \<and> table_modifications_needed ob \<noteq> []
      then ob\<lparr>table_indices := iota (length (table_modifications_needed ob)) 0\<rparr> else ob)"

definition insert_group_level_table :: "size_t \<Rightarrow> observer \<Rightarrow> observer" where
  "insert_group_level_table ndx ob =
     (let ob1 = map_lists (\<lambda>l. if ndx \<le> table_ndx l then l\<lparr>table_ndx := table_ndx l + 1\<rparr> else l)
                  (ob\<lparr>schema_changed := True\<rparr>);
          ob2 = prepare_table_indices ob1;
          ob3 = set_tables (insert_empty_at ccb_init (tables ob2) ndx)
                  (ob2\<lparr>table_indices := adjust_ge (table_indices ob2) ndx\<rparr>)
      in ob3\<lparr>table_moves_needed := insert_empty_at False (table_moves_needed ob3) ndx,
             table_modifications_needed := insert_empty_at False (table_modifications_needed ob3) ndx\<rparr>)"

definition move_group_level_table :: "size_t \<Rightarrow> size_t \<Rightarrow> observer \<Rightarrow> observer option" where
  "move_group_level_table from to ob =
     (let ob1 = map_lists (\<lambda>l. l\<lparr>table_ndx := adjust_for_move (table_ndx l) from to\<rparr>) (ob\<lparr>schema_changed := True\<rparr>);
          ob2 = prepare_table_indices ob1
      in do { ts \<leftarrow> rotate_to ccb_init (tables ob2) from to;
              mods \<leftarrow> rotate_to False (table_modifications_needed ob2) from to;
              mvs \<leftarrow> rotate_to False (table_moves_needed ob2) from to;
              Some ((set_tables ts ob2)\<lparr>table_indices := map (\<lambda>v. adjust_for_move v from to) (table_indices ob2),
                     table_modifications_needed := mods, table_moves_needed := mvs\<rparr>) })"

section \<open>Logs\<close>

definition observe :: "nat \<Rightarrow> instr \<Rightarrow> observer \<Rightarrow> log_error + observer" where
  "observe K i ob =
     (case i of
        Select_Table t path \<Rightarrow> or_assertion (select_table K t path ob)
      | Select_Descriptor levels \<Rightarrow> Inr (select_descriptor levels ob)
      | Select_Link_List col row \<Rightarrow> or_assertion (select_link_list K col row ob)
      | Set_Value v c r w \<Rightarrow> or_assertion (mark_dirty_instr K r c w ob)
      | Add_Int c r \<Rightarrow> or_assertion (mark_dirty_instr K r c Instr_Set ob)
      | Nullify_Link c r \<Rightarrow> or_assertion (mark_dirty_instr K r c Instr_Set ob)
      | Insert_Substring c r \<Rightarrow> or_assertion (mark_dirty_instr K r c Instr_Set ob)
      | Erase_Substring c r \<Rightarrow> or_assertion (mark_dirty_instr K r c Instr_Set ob)
      | Set_Int_Unique c r \<Rightarrow> Inr ob
      | Set_String_Unique c r \<Rightarrow> Inr ob
      | Insert_Empty_Rows row num prior \<Rightarrow> or_assertion (insert_empty_rows K row num ob)
      | Add_Row_With_Key row prior \<Rightarrow> or_assertion (add_row_with_key K row ob)
      | Erase_Rows row prior unordered \<Rightarrow> or_assertion (erase_rows K row prior unordered ob)
      | Swap_Rows a b \<Rightarrow> or_assertion (swap_rows K a b ob)
      | Move_Row a b \<Rightarrow> or_assertion (move_row K a b ob)
      | Merge_Rows a b \<Rightarrow> or_assertion (merge_rows K a b ob)
      | Clear_Table \<Rightarrow> or_assertion (clear_table K ob)
      | Optimize_Table \<Rightarrow> Inr ob
      | Link_List_Set index \<Rightarrow> or_assertion (link_list_set K index ob)
      | Link_List_Insert index \<Rightarrow> or_assertion (link_list_insert K index ob)
      | Link_List_Erase index \<Rightarrow> or_assertion (link_list_erase K index ob)
      | Link_List_Nullify index \<Rightarrow> or_assertion (link_list_erase K index ob)
      | Link_List_Clear old_size \<Rightarrow> or_assertion (link_list_clear K old_size ob)
      | Link_List_Move a b \<Rightarrow> or_assertion (link_list_move K a b ob)
      | Link_List_Swap a b \<Rightarrow> or_assertion (link_list_swap K a b ob)
      | Insert_Group_Level_Table t \<Rightarrow> Inr (insert_group_level_table t ob)
      | Erase_Group_Level_Table t \<Rightarrow> log_schema_error
      | Rename_Group_Level_Table t \<Rightarrow> log_schema_error
      | Move_Group_Level_Table a b \<Rightarrow> or_assertion (move_group_level_table a b ob)
      | Insert_Column c \<Rightarrow> or_assertion (insert_column c ob)
      | Insert_Link_Column c \<Rightarrow> or_assertion (insert_column c ob)
      | Erase_Column c \<Rightarrow> log_schema_error
      | Erase_Link_Column c \<Rightarrow> log_schema_error
      | Rename_Column c \<Rightarrow> log_schema_error
      | Move_Column a b \<Rightarrow> or_assertion (move_column a b ob)
      | Add_Search_Index c \<Rightarrow> Inr ob
      | Remove_Search_Index c \<Rightarrow> Inr ob
      | Set_Link_Type c \<Rightarrow> Inr ob)"

fun observe_log :: "nat \<Rightarrow> instr list \<Rightarrow> observer \<Rightarrow> log_error + observer" where
  "observe_log K [] ob = Inr ob"
| "observe_log K (i # log) ob = (case observe K i ob of Inl e \<Rightarrow> Inl e | Inr ob' \<Rightarrow> observe_log K log ob')"

definition observe_all :: "nat \<Rightarrow> instr list \<Rightarrow> observer \<Rightarrow> log_error + observer" where
  "observe_all K log ob =
     (case observe_log K log ob of Inl e \<Rightarrow> Inl e | Inr ob' \<Rightarrow> or_assertion (parse_complete K ob'))"

end
