(* ===== verification/Log_Rows.thy ===== *)
theory Log_Rows
  imports Log_Handler Change_Rows
begin

text \<open>
  The builder of a top-level table under the instructions of a log.  The rows of a table are given
  identities, so that the effect of an instruction on the table can be written down: \<open>row_effect\<close>
  says which rows are where afterwards, and which rows have been written to.  \<open>rows_tracked\<close> relates
  the builder to the rows, and every instruction keeps it.
\<close>

definition moved_over :: "size_t \<Rightarrow> 'a list \<Rightarrow> 'a list" where
  "moved_over r xs = (if r = length xs - 1 then butlast xs else (butlast xs)[r := last xs])"

inductive row_effect :: "'a set \<Rightarrow> instr \<Rightarrow> 'a list \<Rightarrow> 'a set \<Rightarrow> 'a list \<Rightarrow> 'a set \<Rightarrow> bool" for used where
  insert_rows: "row_effect used (Insert_Empty_Rows (length xs) (length ys) (length xs)) xs M (xs @ ys) M"
    if "ys \<noteq> []" "distinct ys" "set ys \<inter> (used \<union> set xs \<union> M) = {}" "length xs + length ys \<le> npos"
| add_row: "row_effect used (Add_Row_With_Key (length xs) (length xs)) xs M (xs @ [y]) M"
    if "y \<notin> used \<union> set xs \<union> M" "length xs + 1 \<le> npos"
| erase_row: "row_effect used (Erase_Rows r (length xs) True) xs M (moved_over r xs) M" if "r < length xs"
| swap_rows: "row_effect used (Swap_Rows a b) xs M (swapped a b xs) M" if "a < b" "b < length xs"
| set_value: "row_effect used (Set_Value v c r Instr_Set) xs M xs (insert (xs ! r) M)" if "r < length xs"
| set_default: "row_effect used (Set_Value v c r w) xs M xs M" if "w \<noteq> Instr_Set"
| add_int: "row_effect used (Add_Int c r) xs M xs (insert (xs ! r) M)" if "r < length xs"
| nullify_link: "row_effect used (Nullify_Link c r) xs M xs (insert (xs ! r) M)" if "r < length xs"
| set_unique: "row_effect used (Set_Int_Unique c r) xs M xs M"

inductive row_effects :: "'a set \<Rightarrow> instr list \<Rightarrow> 'a list \<Rightarrow> 'a set \<Rightarrow> 'a list \<Rightarrow> 'a set \<Rightarrow> bool" for used where
  none: "row_effects used [] xs M xs M"
| more: "row_effects used (i # log) xs M zs N" if "row_effect used i xs M ys L" "row_effects used log ys L zs N"

section \<open>The builder of a table\<close>

text \<open>An inserted row whose origin is not remembered is a new one.\<close>

definition origins_known :: "'a list \<Rightarrow> 'a list \<Rightarrow> cspec \<Rightarrow> bool" where
  "origins_known old new s \<longleftrightarrow> (\<forall>k < length new. k \<in> s_ins s \<longrightarrow> s_map s k = None \<longrightarrow> new ! k \<notin> set old)"

definition rows_tracked :: "nat \<Rightarrow> 'a list \<Rightarrow> 'a list \<Rightarrow> 'a set \<Rightarrow> ccb \<Rightarrow> bool" where
  "rows_tracked K old new M c \<longleftrightarrow>
     ccb_ok K c \<and> wf_rows old new (abs_ccb c) \<and> origins_known old new (abs_ccb c) \<and> distinct new \<and>
     length new \<le> npos \<and> s_mod (abs_ccb c) = {k. k < length new \<and> new ! k \<in> M}"

lemma rows_trackedI:
  assumes "sim K r s" "wf_rows old new s" "origins_known old new s" "distinct new" "length new \<le> npos"
    "s_mod s = {k. k < length new \<and> new ! k \<in> M}"
  shows "\<exists>c. r = Some c \<and> rows_tracked K old new M c"
  using assms by (auto simp: sim_def rows_tracked_def)

lemma rows_trackedD:
  assumes "rows_tracked K old new M c"
  shows "ccb_ok K c" "wf_rows old new (abs_ccb c)" "origins_known old new (abs_ccb c)" "distinct new"
    "length new \<le> npos" "s_mod (abs_ccb c) = {k. k < length new \<and> new ! k \<in> M}"
    "s_ins (abs_ccb c) \<subseteq> {..<length new}" "dom (s_map (abs_ccb c)) \<subseteq> s_ins (abs_ccb c)" "moves c = []"
  using assms rows_bounds [of old new "abs_ccb c"] by (auto simp: rows_tracked_def tracks_def)

lemma spec_modify_simps [simp]:
  "s_ins (spec_modify i col s) = s_ins s" "s_del (spec_modify i col s) = s_del s"
  "s_map (spec_modify i col s) = s_map s" "s_moves (spec_modify i col s) = s_moves s"
  "s_mod (spec_modify i col s) = insert i (s_mod s)"
  by (simp_all add: spec_modify_def Let_def)

lemma tracked_modify:
  assumes "rows_tracked K old xs M c" "r < length xs"
  shows "\<exists>c'. ccb_modify K r col c = Some c' \<and> rows_tracked K old xs (insert (xs ! r) M) c'"
proof -
  note d = rows_trackedD [OF assms(1)]
  have "wf_rows old xs (spec_modify r col (abs_ccb c))"
    using d(2) rows_moves_ok by (simp add: wf_rows_def wf_changes_def describes_def)
  moreover have "insert r {k. k < length xs \<and> xs ! k \<in> M} = {k. k < length xs \<and> xs ! k \<in> insert (xs ! r) M}"
    using assms(2) d(4) by (auto simp: nth_eq_iff_index_eq)
  ultimately show ?thesis
    using d by (intro rows_trackedI [OF modify_sim [OF d(1)]]) (simp_all add: origins_known_def)
qed

lemma tracked_insert:
  assumes "rows_tracked K old xs M c" and ys: "ys \<noteq> []" "distinct ys" "set ys \<inter> (set old \<union> set xs \<union> M) = {}"
    "length xs + length ys \<le> npos"
  shows "\<exists>c'. ccb_insert K (length xs) (length ys) True c = Some c' \<and> rows_tracked K old (xs @ ys) M c'"
proof -
  note d = rows_trackedD [OF assms(1)]
  let ?s = "abs_ccb c" and ?n = "length xs"
  let ?t = "spec_insert ?n (length ys) True ?s"
  have b: "bump ?n (length ys) ` s_ins ?s = s_ins ?s" "bump ?n (length ys) ` s_mod ?s = s_mod ?s"
    using d(7) unfolding d(6) by (force simp: bump_def image_iff)+
  have t: "s_ins ?t = s_ins ?s \<union> {?n..<?n + length ys}" "s_del ?t = s_del ?s" "s_mod ?t = s_mod ?s" "s_moves ?t = []"
    using rows_bounds(5) [OF d(2)] b by (simp_all add: spec_insert_def Let_def)
  have m: "s_map ?t = s_map ?s"
  proof
    fix k
    show "s_map ?t k = s_map ?s k"
    proof (cases "k < ?n")
      case False
      then have "k \<notin> dom (s_map ?s)" "k - length ys < ?n \<or> k - length ys \<notin> dom (s_map ?s)" using d(7,8) by auto
      then show ?thesis using False by (auto simp: spec_insert_def domIff)
    qed (simp add: spec_insert_def)
  qed
  have "wf_rows old (xs @ ys) ?t"
    using spec_insert_wf [of old xs ?s ?n ys] d(2) ys(1) t
    by (auto simp: wf_rows_def aligned_def inserted_at_def)
  moreover have "origins_known old (xs @ ys) ?t"
    unfolding origins_known_def
  proof (intro allI impI)
    fix k assume k: "k < length (xs @ ys)" "k \<in> s_ins ?t" "s_map ?t k = None"
    show "(xs @ ys) ! k \<notin> set old"
    proof (cases "k < ?n")
      case True
      then show ?thesis using k d(3) t(1) m by (auto simp: origins_known_def nth_append)
    next
      case False
      then have "ys ! (k - ?n) \<in> set ys" using k(1) by simp
      then show ?thesis using False ys(3) by (auto simp: nth_append)
    qed
  qed
  moreover have "s_mod ?t = {k. k < length (xs @ ys) \<and> (xs @ ys) ! k \<in> M}"
  proof -
    have "ys ! (k - ?n) \<notin> M" if "\<not> k < ?n" "k < ?n + length ys" for k
      using that ys(3) nth_mem [of "k - ?n" ys] by fastforce
    then show ?thesis unfolding t(3) d(6) by (auto simp: nth_append)
  qed
  ultimately show ?thesis
    using d ys by (intro rows_trackedI [OF insert_sim [OF d(1)]]) auto
qed

lemma length_moved_over [simp]: "length (moved_over r xs) = length xs - Suc 0"
  by (simp add: moved_over_def)

lemma moved_over_nth:
  assumes "r < length xs" "k < length xs - Suc 0"
  shows "moved_over r xs ! k = xs ! (if k = r then length xs - Suc 0 else k)"
proof -
  have "last xs = xs ! (length xs - Suc 0)" using assms(1) last_conv_nth [of xs] by fastforce
  then show ?thesis using assms by (auto simp: moved_over_def nth_butlast nth_list_update)
qed

lemma distinct_moved_over:
  assumes "distinct xs" "r < length xs"
  shows "distinct (moved_over r xs)"
  using assms by (auto simp: distinct_conv_nth moved_over_nth)

lemma tracked_erase:
  assumes "rows_tracked K old xs M c" and r: "r < length xs"
  shows "\<exists>c'. ccb_move_over K r (length xs - 1) True c = Some c' \<and> rows_tracked K old (moved_over r xs) M c'"
proof -
  note d = rows_trackedD [OF assms(1)]
  let ?s = "abs_ccb c" and ?l = "length xs - 1"
  have l: "length xs = Suc ?l" "?l < npos" using r d(5) by auto
  have b: "s_ins ?s \<subseteq> {..?l}" "s_mod ?s \<subseteq> {..?l}" using d(6,7) l(1) by auto
  note new = distinct_moved_over [OF d(4) r] length_moved_over [of r xs]
  have nth: "moved_over r xs ! k = xs ! (if k = r then ?l else k)" if "k < ?l" for k
    using moved_over_nth [OF r] that by simp
  show ?thesis
  proof (cases "r = ?l")
    case True
    let ?t = "spec_move_over_last ?l ?s"
    have "wf_rows old (moved_over r xs) ?t"
      using spec_move_over_last_wf [OF d(2) l(1)] True by (simp add: moved_over_def)
    moreover have "unbump ?l ` (s_ins ?s - {?l}) = s_ins ?s - {?l}"
      using b(1) by (force simp: unbump_def image_iff)
    then have t: "s_ins ?t = s_ins ?s - {?l}" "s_map ?t = (s_map ?s)(?l := None)"
      by (simp_all add: spec_move_over_last_def)
    have "origins_known old (moved_over r xs) ?t"
      using d(3) nth True by (auto simp: origins_known_def t [unfolded One_nat_def])
    moreover have "s_mod ?t = s_mod ?s - {?l}" by (simp add: spec_move_over_last_def)
    then have "s_mod ?t = {k. k < length (moved_over r xs) \<and> moved_over r xs ! k \<in> M}"
      using nth True by (auto simp: d(6))
    ultimately have "\<exists>c'. ccb_move_over K ?l ?l True c = Some c' \<and> rows_tracked K old (moved_over r xs) M c'"
      using new d(5) by (intro rows_trackedI [OF move_over_last_sim [OF d(1) l(2) b]]) auto
    then show ?thesis by (simp only: True)
  next
    case False
    then have lt: "r < ?l" using r by simp
    let ?t = "spec_move_over r ?l ?s"
    have "wf_rows old (moved_over r xs) ?t"
      using spec_move_over_wf [OF d(2) l(1) lt] False r last_conv_nth [of xs] by (cases "xs = []") (simp_all add: moved_over_def)
    moreover have "origins_known old (moved_over r xs) ?t"
      unfolding origins_known_def
    proof (intro allI impI)
      fix k assume k: "k < length (moved_over r xs)" "k \<in> s_ins ?t" "s_map ?t k = None"
      have n: "moved_over r xs ! k = xs ! (if k = r then ?l else k)" using k(1) nth by simp
      have "(if k = r then ?l else k) \<in> s_ins ?s \<and> s_map ?s (if k = r then ?l else k) = None"
        using k d(8) lt by (auto simp: spec_move_over_def Let_def domIff split: if_splits option.splits)
      then show "moved_over r xs ! k \<notin> set old" using d(3) k(1) n r by (auto simp: origins_known_def)
    qed
    moreover have "s_mod ?t = {k. k < length (moved_over r xs) \<and> moved_over r xs ! k \<in> M}"
    proof (rule set_eqI)
      fix k
      have "k \<in> s_mod ?s \<longleftrightarrow> (k = ?l \<or> k < ?l) \<and> xs ! k \<in> M" "?l \<in> s_mod ?s \<longleftrightarrow> xs ! ?l \<in> M"
        using l(1) by (auto simp: d(6))
      moreover have "s_mod ?t = (if ?l \<in> s_mod ?s then insert r (s_mod ?s - {?l}) else s_mod ?s - {r})"
        by (simp add: spec_move_over_def Let_def)
      ultimately show "k \<in> s_mod ?t \<longleftrightarrow> k \<in> {k. k < length (moved_over r xs) \<and> moved_over r xs ! k \<in> M}"
        using lt nth [of k] by (cases "k = r") auto
    qed
    ultimately show ?thesis
      using new d(5) by (intro rows_trackedI [OF move_over_sim [OF d(1) lt b d(9)]]) auto
  qed
qed

lemma swapped_nth:
  assumes "a < b" "b < length xs" "k < length xs"
  shows "swapped a b xs ! k = xs ! exchange a b k"
  using assms by (auto simp: swapped_def exchange_def nth_list_update)

lemma tracked_swap:
  assumes "rows_tracked K old xs M c" and ab: "a < b" "b < length xs"
  shows "\<exists>c'. ccb_swap K a b True c = Some c' \<and> rows_tracked K old (swapped a b xs) M c'"
proof -
  note d = rows_trackedD [OF assms(1)]
  let ?s = "abs_ccb c" and ?t = "spec_swap a b (abs_ccb c)"
  have len: "length (swapped a b xs) = length xs" by (simp add: swapped_def)
  have ex: "exchange a b k < length xs \<longleftrightarrow> k < length xs" "exchange a b (exchange a b k) = k" for k
    using ab by (auto simp: exchange_def)
  have "distinct (swapped a b xs)" using d(4) ab by (simp add: swapped_def distinct_swap)
  moreover have "origins_known old (swapped a b xs) ?t"
    unfolding origins_known_def
  proof (intro allI impI)
    fix k assume k: "k < length (swapped a b xs)" "k \<in> s_ins ?t" "s_map ?t k = None"
    have "exchange a b k \<in> s_ins ?s \<and> s_map ?s (exchange a b k) = None"
      using k d(8) ab
      by (auto simp: spec_swap_def spec_add_swap_def Let_def exchange_def domIff split: if_splits option.splits)
    then show "swapped a b xs ! k \<notin> set old"
      using d(3) k(1) ex(1) by (simp add: len swapped_nth [OF ab] origins_known_def)
  qed
  moreover have "s_mod ?t = exchange a b ` s_mod ?s"
    by (simp add: spec_swap_def spec_add_swap_def Let_def split: option.split)
  then have "s_mod ?t = {k. k < length (swapped a b xs) \<and> swapped a b xs ! k \<in> M}"
    unfolding d(6) using ex by (auto simp: len swapped_nth [OF ab] image_iff) (metis ex)
  ultimately show ?thesis
    using d(5) len by (intro rows_trackedI [OF swap_sim [OF d(1) ab(1) refl d(8)] spec_swap_wf [OF d(2) ab]]) auto
qed

section \<open>The end of a log\<close>

lemma parse_moves_sets:
  "parse_moves K ps d e ms = Some (d', e', ms') \<Longrightarrow> rep K d D \<Longrightarrow> rep K e I \<Longrightarrow>
     indices e' \<subseteq> I - fst ` {p \<in> set ps. fst p = snd p} \<and> ms' = ms @ map pair_move (filter (\<lambda>p. fst p \<noteq> snd p) ps)"
proof (induction ps arbitrary: d e D I ms)
  case Nil
  then show ?case by (auto simp: rep_def)
next
  case (Cons p ps)
  show ?case
  proof (cases "fst p = snd p")
    case True
    obtain d1 where d1: "remove K d (snd p) 1 = Some d1" "rep K d1 (D - {snd p})"
      using ixs.del_one [OF Cons.prems(2)] by blast
    obtain e1 where e1: "remove K e (fst p) 1 = Some e1" "rep K e1 (I - {fst p})"
      using ixs.del_one [OF Cons.prems(3)] by blast
    have "parse_moves K ps d1 e1 ms = Some (d', e', ms')"
      using Cons.prems(1) True d1(1) e1(1) by (simp split: if_splits)
    from Cons.IH [OF this d1(2) e1(2)] show ?thesis using True by auto
  next
    case False
    then have "parse_moves K ps d e (ms @ [pair_move p]) = Some (d', e', ms')"
      using Cons.prems(1) by (simp add: pair_move_def split: if_splits)
    from Cons.IH [OF this Cons.prems(2,3)] show ?thesis using False by auto
  qed
qed

definition moves_known :: "'a list \<Rightarrow> 'a list \<Rightarrow> ccb \<Rightarrow> bool" where
  "moves_known old new c \<longleftrightarrow>
     (\<forall>k < length new. k \<in> s_ins (abs_ccb c) \<longrightarrow> new ! k \<in> set old \<longrightarrow> (\<exists>m \<in> set (moves c). mv_to m = k))"

lemma tracked_parse:
  assumes "rows_tracked K old new M c"
  shows "\<exists>c'. ccb_parse_complete K c = Some c' \<and> ccb_ok K c' \<and> wf_changes old new (abs_ccb c') \<and>
    move_mapping c' = [] \<and> sorted (map mv_from (moves c')) \<and> moves_known old new c' \<and>
    modifications c' = modifications c"
proof -
  note d = rows_trackedD [OF assms]
  from parse_complete_wf [OF d(1,2)] obtain c' where
    c': "ccb_parse_complete K c = Some c'" "ccb_ok K c'" "wf_changes old new (abs_ccb c')"
      "move_mapping c' = []" "sorted (map mv_from (moves c'))" by blast
  from c'(1) obtain d1 e1 ms where
    p: "parse_moves K (move_mapping c) (deletions c) (insertions c) (moves c) = Some (d1, e1, ms)"
      "c' = c\<lparr>deletions := d1, insertions := e1, moves := sort_key mv_from ms, move_mapping := []\<rparr>"
    by (auto simp: ccb_parse_complete_def split: bind_splits)
  note q = parse_moves_sets [OF p(1) ok_rep(1,2) [OF d(1)]]
  have "moves_known old new c'"
    unfolding moves_known_def
  proof (intro allI impI)
    fix k assume k: "k < length new" "k \<in> s_ins (abs_ccb c')" "new ! k \<in> set old"
    have i: "k \<in> s_ins (abs_ccb c)" "k \<notin> fst ` {p \<in> set (move_mapping c). fst p = snd p}"
      using q k(2) p(2) by (auto simp: abs_ccb_def)
    then obtain v where v: "map_of (move_mapping c) k = Some v"
      using d(3) k by (auto simp: origins_known_def)
    then have "(k, v) \<in> set (move_mapping c)" by (rule map_of_SomeD)
    moreover from this have "k \<noteq> v" using i(2) by force
    ultimately have "pair_move (k, v) \<in> set (moves c')" using q p(2) by auto
    then show "\<exists>m \<in> set (moves c'). mv_to m = k" by (intro bexI [of _ "pair_move (k, v)"]) (simp add: pair_move_def)
  qed
  then show ?thesis using c' p(2) by auto
qed

end
