(* ===== verification/Log_Kvo.thy ===== *)
theory Log_Kvo
  imports Log_Handler
begin

text \<open>
  \<open>KVOAdapter\<close> of \<open>impl/transact_log_handler.cpp\<close>, which turns what the observer of a log recorded
  into the changes of the observed rows, as the key-value observation of the platform wants them: one
  kind of change per column, without moves.  \<open>ColumnInfo\<close> and \<open>ObserverState\<close> are those of
  \<open>binding_context.hpp\<close>.

  The types of the columns of a table and the sizes of its subtables are read from the file, by the
  core: they are parameters.  The builder of the list at position \<open>k\<close> of \<open>m_lists\<close> is at
  position \<open>k\<close> of the store.
\<close>

datatype change_kind = No_Change | Set_Change | Insert_Change | Remove_Change | Set_All_Change

record column_info =
  initial_column_index :: size_t
  col_kind :: change_kind
  col_indices :: index_set

record observer_state =
  observed_table :: size_t
  observed_row :: size_t
  observer_tag :: nat
  observed_changes :: "column_info list"

record list_info =
  list_observer :: nat
  list_col :: size_t
  initial_size :: size_t

datatype column_type = Link_List_Column | Table_Column | Value_Column

definition column_info_init :: column_info where
  "column_info_init = \<lparr>initial_column_index = npos, col_kind = No_Change, col_indices = []\<rparr>"

section \<open>Before the log\<close>

definition lists_of :: "(size_t \<Rightarrow> column_type list) \<Rightarrow> (size_t \<Rightarrow> size_t \<Rightarrow> size_t \<Rightarrow> size_t) \<Rightarrow>
    nat \<Rightarrow> observer_state \<Rightarrow> list_info list" where
  "lists_of types subtable_size k os =
     concat (map (\<lambda>i. case types (observed_table os) ! i of
         Link_List_Column \<Rightarrow> [\<lparr>list_observer = k, list_col = i, initial_size = npos\<rparr>]
       | Table_Column \<Rightarrow> [\<lparr>list_observer = k, list_col = i,
                            initial_size = subtable_size (observed_table os) i (observed_row os)\<rparr>]
       | Value_Column \<Rightarrow> []) [0..<length (types (observed_table os))])"

definition kvo_adapter :: "(size_t \<Rightarrow> column_type list) \<Rightarrow> (size_t \<Rightarrow> size_t \<Rightarrow> size_t \<Rightarrow> size_t) \<Rightarrow>
    observer_state list \<Rightarrow> change_info \<times> list_info list" where
  "kvo_adapter types subtable_size obs =
     (if obs = [] then (no_change_info, [])
      else let tables_needed = remdups_adj (sort (map observed_table obs));
               m_lists = concat (map (\<lambda>k. lists_of types subtable_size k (obs ! k)) [0..<length obs]);
               biggest = foldl max 0 tables_needed;
               marked = foldl (\<lambda>bs t. bs[t := True]) (resize False (biggest + 1) []) tables_needed
           in (no_change_info\<lparr>table_modifications_needed := marked, table_moves_needed := marked,
                 lists := map (\<lambda>k. let l = m_lists ! k; os = obs ! list_observer l
                                   in \<lparr>table_ndx = observed_table os, row_ndx = observed_row os,
                                       col_ndx = list_col l, changes_at = k\<rparr>) [0..<length m_lists]\<rparr>,
               m_lists))"

section \<open>Rows\<close>

definition new_table_ndx :: "'z change_info_scheme \<Rightarrow> size_t \<Rightarrow> size_t" where
  "new_table_ndx info ndx = (if ndx < length (table_indices info) then table_indices info ! ndx else ndx)"

text \<open>Where the row of a table is after the log, nothing when it was deleted.\<close>

definition new_row_ndx :: "ccb \<Rightarrow> size_t \<Rightarrow> size_t option" where
  "new_row_ndx table idx =
     (let it = lower_bound (\<lambda>m. mv_from m < idx) (moves table)
      in if it < length (moves table) \<and> mv_from (moves table ! it) = idx then Some (mv_to (moves table ! it))
         else if contains (deletions table) idx then None
         else Some (shift (insertions table) (unshift (deletions table) idx)))"

definition initial_column :: "size_t list \<Rightarrow> size_t \<Rightarrow> size_t" where
  "initial_column cols i =
     (if cols = [] then i
      else if length cols \<le> i then (i - length cols + last cols + 1) mod 2 ^ 64
      else cols ! i)"

definition columns_of_table :: "'z change_info_scheme \<Rightarrow> size_t \<Rightarrow> size_t list" where
  "columns_of_table info t = (if length (column_indices info) \<le> t then [] else column_indices info ! t)"

definition row_changes :: "'z change_info_scheme \<Rightarrow> size_t \<Rightarrow> ccb \<Rightarrow> size_t \<Rightarrow> column_info list \<Rightarrow> column_info list" where
  "row_changes info t table idx changes =
     map (\<lambda>i. let initial = initial_column (columns_of_table info t) i;
                  change = (resize column_info_init (length (columns table)) changes ! i)\<lparr>initial_column_index := initial\<rparr>
              in if initial \<noteq> npos \<and> contains (columns table ! i) idx then change\<lparr>col_kind := Set_Change\<rparr> else change)
       [0..<length (columns table)]"

definition observe_row :: "'z change_info_scheme \<Rightarrow> observer_state \<Rightarrow> observer_state \<times> nat list" where
  "observe_row info os =
     (let t = new_table_ndx info (observed_table os)
      in if length (tables info) \<le> t then (os, [])
         else let table = tables info ! t
              in case new_row_ndx table (observed_row os) of
                   None \<Rightarrow> (os, [observer_tag os])
                 | Some idx \<Rightarrow>
                     (if contains (modifications table) idx
                      then os\<lparr>observed_changes := row_changes info t table idx (observed_changes os)\<rparr> else os, []))"

section \<open>Lists\<close>

text \<open>The lambda \<open>in_range\<close>: an iterator is what is left of the ranges.\<close>

definition in_range :: "range list \<Rightarrow> size_t \<Rightarrow> bool \<times> range list" where
  "in_range rs i =
     (let rs' = (if rs \<noteq> [] \<and> snd (hd rs) \<le> i then tl rs else rs)
      in (rs' \<noteq> [] \<and> fst (hd rs') \<le> i \<and> i < snd (hd rs'), rs'))"

fun add_shifted_rows :: "nat \<Rightarrow> nat \<Rightarrow> size_t \<Rightarrow> range list \<Rightarrow> range list \<Rightarrow> int \<Rightarrow> index_set \<Rightarrow> index_set option" where
  "add_shifted_rows K 0 i dels inss off s = Some s"
| "add_shifted_rows K (Suc n) i dels inss off s =
     (let (deleted, dels') = in_range dels i;
          (inserted, inss') = (if deleted then (False, inss) else in_range inss (add_off i off));
          off' = (if deleted then off - 1 else if inserted then off + 1 else off)
      in do { s' \<leftarrow> (if off' \<noteq> 0 then add K s i else Some s);
              add_shifted_rows K n (i + 1) dels' inss' off' s' })"

definition moves_as_sets :: "nat \<Rightarrow> ccb \<Rightarrow> index_set option" where
  "moves_as_sets K b =
     (let dels = flat (deletions b); inss = flat (insertions b);
          first = min (fst (hd inss)) (fst (hd dels));
          end = max (snd (last inss)) (snd (last dels))
      in do { s \<leftarrow> add_set K (modifications b) (deletions b);
              add_shifted_rows K (end - first) first dels inss 0 s })"

definition list_changes :: "nat \<Rightarrow> ccb \<Rightarrow> size_t \<Rightarrow> column_info \<Rightarrow> column_info option" where
  "list_changes K b old_size ch =
     (if moves b \<noteq> [] \<and> count_set (insertions b) 0 npos = length (moves b) \<and>
         count_set (deletions b) 0 npos = length (moves b)
      then do { s \<leftarrow> moves_as_sets K b; Some (ch\<lparr>col_kind := Set_Change, col_indices := s\<rparr>) }
      else if of_bool (insertions b = []) + of_bool (modifications b = []) + of_bool (deletions b = []) < (2 :: nat)
      then Some (ch\<lparr>col_kind := Set_All_Change\<rparr>)
      else if insertions b \<noteq> [] then Some (ch\<lparr>col_kind := Insert_Change, col_indices := insertions b\<rparr>)
      else if modifications b \<noteq> [] then Some (ch\<lparr>col_kind := Set_Change, col_indices := modifications b\<rparr>)
      else if deletions b = [] then None
      else if old_size < last_end (deletions b)
      then do { s \<leftarrow> set_len K (col_indices ch) old_size; Some (ch\<lparr>col_kind := Remove_Change, col_indices := s\<rparr>) }
      else Some (ch\<lparr>col_kind := Remove_Change, col_indices := deletions b\<rparr>))"

definition set_change :: "size_t \<Rightarrow> column_info \<Rightarrow> observer_state \<Rightarrow> observer_state" where
  "set_change col ch os = os\<lparr>observed_changes := (observed_changes os)[col := ch]\<rparr>"

text \<open>One turn of the loop over \<open>m_lists\<close>; the removal of the insertions from the modifications is
  kept in the builder.\<close>

definition observe_list :: "nat \<Rightarrow> 'z change_info_scheme \<Rightarrow> list_info \<Rightarrow> ccb \<Rightarrow> observer_state \<Rightarrow> (ccb \<times> observer_state) option" where
  "observe_list K info l b os =
     (let col = list_col l; changes = observed_changes os; t = new_table_ndx info (observed_table os)
      in if change_set_empty b
         then Some (b, if col < length changes
                       then set_change col ((changes ! col)\<lparr>col_kind := No_Change\<rparr>) os else os)
         else if changes = []
         then if t < length (tables info) \<and> contains (deletions (tables info ! t)) (observed_row os)
              then Some (b, os) else None
         else if length changes \<le> col then None
         else do { m \<leftarrow> remove_set K (modifications b) (insertions b);
                   let b' = b\<lparr>modifications := m\<rparr> in
                   do { ch \<leftarrow> list_changes K b' (initial_size l) (changes ! col);
                        Some (b', set_change col ch os) } })"

fun observe_lists :: "nat \<Rightarrow> 'z change_info_scheme \<Rightarrow> list_info list \<Rightarrow> nat \<Rightarrow> ccb list \<Rightarrow> observer_state list \<Rightarrow>
    (ccb list \<times> observer_state list) option" where
  "observe_lists K info [] k bs obs = Some (bs, obs)"
| "observe_lists K info (l # ls) k bs obs =
     do { (b, os) \<leftarrow> observe_list K info l (bs ! k) (obs ! list_observer l);
          observe_lists K info ls (k + 1) (bs[k := b]) (obs[list_observer l := os]) }"

text \<open>\<open>before\<close>: the observers and the invalidated ones that \<open>will_change\<close> is called with, or
  \<open>None\<close> inside when it is not called.\<close>

definition kvo_before :: "nat \<Rightarrow> bool \<Rightarrow> 'z change_info_scheme \<Rightarrow> list_info list \<Rightarrow> ccb list \<Rightarrow> observer_state list \<Rightarrow>
    ((observer_state list \<times> nat list) option) option" where
  "kvo_before K context info ls bs obs =
     (if \<not> context \<or> tables info = [] then Some None
      else let rows = map (observe_row info) obs
           in do { (bs', obs') \<leftarrow> observe_lists K info ls 0 bs (map fst rows);
                   Some (Some (obs', concat (map snd rows))) })"

section \<open>The whole observation\<close>

text \<open>\<open>KVOTransactLogObserver\<close>: the adapter is the record of changes its base class fills, and
  \<open>parse_complete\<close> of the base class is followed by \<open>before\<close>.\<close>

definition kvo_observe :: "nat \<Rightarrow> (size_t \<Rightarrow> column_type list) \<Rightarrow> (size_t \<Rightarrow> size_t \<Rightarrow> size_t \<Rightarrow> size_t) \<Rightarrow>
    observer_state list \<Rightarrow> instr list \<Rightarrow> log_error + (observer_state list \<times> nat list) option" where
  "kvo_observe K types subtable_size obs log =
     (let (info, ls) = kvo_adapter types subtable_size obs
      in case observe_all K log (observer_init info (replicate (length ls) ccb_init)) of
           Inl e \<Rightarrow> Inl e
         | Inr ob \<Rightarrow> or_assertion (kvo_before K True ob ls (collections ob) obs))"

text \<open>\<open>after\<close>: the arguments of the call of \<open>did_change\<close>; a version is \<open>None\<close> when it was
  never set.\<close>

definition version_changed :: "nat option \<Rightarrow> nat \<Rightarrow> bool" where
  "version_changed before current \<longleftrightarrow> before \<noteq> None \<and> before \<noteq> Some current"

text \<open>The overload of \<open>advance\<close> for notifiers: whether the log has to be observed at all.\<close>

definition needs_observer :: "'z change_info_scheme \<Rightarrow> bool" where
  "needs_observer info \<longleftrightarrow> track_all info \<or> table_modifications_needed info \<noteq> [] \<or> lists info \<noteq> []"

end
