(* ===== verification/Log_Laws.thy ===== *)
theory Log_Laws
  imports Log_Rows Log_Kvo
begin

text \<open>
  The observer of a log of row instructions on one top-level table, from the selection of the table to
  the end of the log.
\<close>

inductive_cases row_effectsE [elim]: "row_effects used [] xs M ys N" "row_effects used (i # log) xs M ys N"

lemma or_assertion_simps [simp]: "or_assertion (Some x) = Inr x" "or_assertion None = Inl Assertion_Failed"
  by (simp_all add: or_assertion_def)

section \<open>One instruction\<close>

definition rest_untouched :: "size_t \<Rightarrow> observer \<Rightarrow> bool" where
  "rest_untouched t ob \<longleftrightarrow>
     (\<forall>u < length (tables ob). u \<noteq> t \<longrightarrow> tables ob ! u = ccb_init) \<and>
     (\<forall>c \<in> set (collections ob). c = ccb_init) \<and> (\<forall>l \<in> set (lists ob). changes_at l < length (collections ob)) \<and>
     table_indices ob = []"

definition tracking :: "nat \<Rightarrow> size_t \<Rightarrow> 'a list \<Rightarrow> 'a list \<Rightarrow> 'a set \<Rightarrow> observer \<Rightarrow> bool" where
  "tracking K t old xs M ob \<longleftrightarrow>
     current_table ob = t \<and> active_table ob = In_Tables t \<and> need_move_info ob \<and> is_top_level_table ob \<and>
     t < length (tables ob) \<and> rows_tracked K old xs M (tables ob ! t) \<and> rest_untouched t ob"

lemma trackingD:
  assumes "tracking K t old xs M ob"
  shows "active_table ob = In_Tables t" "need_move_info ob" "is_top_level_table ob" "current_table ob = t"
    "t < length (tables ob)" "rows_tracked K old xs M (tables ob ! t)" "rest_untouched t ob"
  using assms by (simp_all add: tracking_def)

lemma at_table:
  assumes "tracking K t old xs M ob" "\<exists>c. f (tables ob ! t) = Some c \<and> rows_tracked K old ys N c"
  shows "\<exists>ob'. at_builder f (active_table ob) ob = Some ob' \<and> tracking K t old ys N ob' \<and> lists ob' = lists ob"
proof -
  obtain c where c: "f (tables ob ! t) = Some c" "rows_tracked K old ys N c" using assms(2) by blast
  let ?ob = "ob\<lparr>tables := (tables ob)[t := c]\<rparr>"
  have "at_builder f (active_table ob) ob = Some ?ob"
    using trackingD [OF assms(1)] c(1) by (simp add: at_builder_def)
  moreover have "tracking K t old ys N ?ob"
    using assms(1) c(2) by (auto simp: tracking_def rest_untouched_def)
  ultimately show ?thesis by auto
qed

lemma tracking_lists:
  assumes "tracking K t old xs M ob" "changes_at ` set ls \<subseteq> changes_at ` set (lists ob)"
  shows "tracking K t old xs M (ob\<lparr>lists := ls\<rparr>)"
proof -
  have "changes_at l < length (collections ob)" if l: "l \<in> set ls" for l
  proof -
    obtain l' where "l' \<in> set (lists ob)" "changes_at l = changes_at l'" using assms(2) l by (auto simp: image_iff)
    then show ?thesis using assms(1) by (simp add: tracking_def rest_untouched_def)
  qed
  then show ?thesis using assms(1) by (simp add: tracking_def rest_untouched_def)
qed

lemma tracking_map_lists:
  assumes "tracking K t old xs M ob" "\<And>l. changes_at (f l) = changes_at l"
  shows "tracking K t old xs M (map_lists f ob)"
  unfolding map_lists_def by (rule tracking_lists [OF assms(1)]) (auto simp: assms(2))

lemma erase_lists_changes: "changes_at ` set (erase_lists t r z i ls) \<subseteq> changes_at ` set ls"
proof (induction t r z i ls rule: erase_lists.induct)
  case (1 t r z i ls)
  show ?case
  proof (cases "i < length ls")
    case False
    then show ?thesis by (simp add: erase_lists.simps)
  next
    case True
    have b: "changes_at ` set (butlast (if i + 1 < length ls then ls[i := last ls] else ls)) \<subseteq> changes_at ` set ls"
      using True last_in_set [of ls] by (cases "ls = []") (auto dest!: in_set_butlastD set_update_subset_insert [THEN subsetD] intro!: imageI)
    have u: "changes_at ` set (ls[i := (ls ! i)\<lparr>row_ndx := r\<rparr>]) \<subseteq> changes_at ` set ls"
      using True nth_mem [of i ls] by (auto dest!: set_update_subset_insert [THEN subsetD])
    note IH = 1 [OF True refl]
    consider "table_ndx (ls ! i) \<noteq> t" | "table_ndx (ls ! i) = t" "row_ndx (ls ! i) = r"
      | "table_ndx (ls ! i) = t" "row_ndx (ls ! i) \<noteq> r" "row_ndx (ls ! i) = z"
      | "table_ndx (ls ! i) = t" "row_ndx (ls ! i) \<noteq> r" "row_ndx (ls ! i) \<noteq> z" by blast
    then show ?thesis
    proof cases
      case 1
      then show ?thesis using IH(1) True by (subst erase_lists.simps) (simp add: Let_def)
    next
      case 2
      then have "erase_lists t r z i ls = erase_lists t r z (i + 1) (butlast (if i + 1 < length ls then ls[i := last ls] else ls))"
        using True by (subst erase_lists.simps) (simp add: Let_def)
      then show ?thesis using IH(2) 2 b by (auto simp only: simp_thms)
    next
      case 3
      then have "erase_lists t r z i ls = erase_lists t r z (i + 1) (ls[i := (ls ! i)\<lparr>row_ndx := r\<rparr>])"
        using True by (subst erase_lists.simps) (simp add: Let_def)
      then show ?thesis using IH(3) 3 u by (auto simp only: simp_thms)
    next
      case 4
      then show ?thesis using IH(4) True by (subst erase_lists.simps) (simp add: Let_def)
    qed
  qed
qed

lemma tracking_mark:
  assumes "tracking K t old xs M ob" "r < length xs"
  shows "\<exists>ob'. mark_dirty K r c ob = Some ob' \<and> tracking K t old xs (insert (xs ! r) M) ob'"
  using at_table [where f = "ccb_modify K r c", OF assms(1) tracked_modify [OF trackingD(6) [OF assms(1)] assms(2)]] by (auto simp: mark_dirty_def)

lemma tracking_insert_rows:
  assumes "tracking K t old xs M ob" "ys \<noteq> []" "distinct ys" "set ys \<inter> (set old \<union> set xs \<union> M) = {}"
    "length xs + length ys \<le> npos"
  shows "\<exists>ob'. insert_empty_rows K (length xs) (length ys) ob = Some ob' \<and> tracking K t old (xs @ ys) M ob'"
proof -
  note d = trackingD [OF assms(1)]
  from at_table [where f = "ccb_insert K (length xs) (length ys) True", OF assms(1) tracked_insert [OF d(6) assms(2-5)]] obtain ob1 where
    1: "at_builder (ccb_insert K (length xs) (length ys) True) (active_table ob) ob = Some ob1"
      "tracking K t old (xs @ ys) M ob1" by blast
  then show ?thesis using d(2) trackingD(3) [OF 1(2)]
    by (auto simp: insert_empty_rows_def intro!: tracking_map_lists)
qed

lemma tracking_erase_row:
  assumes "tracking K t old xs M ob" "r < length xs"
  shows "\<exists>ob'. erase_rows K r (length xs) True ob = Some ob' \<and> tracking K t old (moved_over r xs) M ob'"
proof -
  note d = trackingD [OF assms(1)]
  from at_table [where f = "ccb_move_over K r (length xs - 1) True", OF assms(1) tracked_erase [OF d(6) assms(2)]] obtain ob1 where
    1: "at_builder (ccb_move_over K r (length xs - 1) True) (active_table ob) ob = Some ob1"
      "tracking K t old (moved_over r xs) M ob1" by blast
  let ?ob = "ob1\<lparr>lists := erase_lists (current_table ob1) r (length xs - 1) 0 (lists ob1)\<rparr>"
  have "tracking K t old (moved_over r xs) M ?ob" by (rule tracking_lists [OF 1(2) erase_lists_changes])
  moreover have "xs \<noteq> []" using assms(2) by auto
  then have "erase_rows K r (length xs) True ob = Some ?ob"
    using 1(1) d(2) trackingD(3) [OF 1(2)] by (simp add: erase_rows_def Let_def)
  ultimately show ?thesis by blast
qed

lemma tracking_swap_rows:
  assumes "tracking K t old xs M ob" "a < b" "b < length xs"
  shows "\<exists>ob'. Log_Handler.swap_rows K a b ob = Some ob' \<and> tracking K t old (swapped a b xs) M ob'"
proof -
  note d = trackingD [OF assms(1)]
  from at_table [where f = "ccb_swap K a b True", OF assms(1) tracked_swap [OF d(6) assms(2,3)]] obtain ob1 where
    1: "at_builder (ccb_swap K a b True) (active_table ob) ob = Some ob1"
      "tracking K t old (swapped a b xs) M ob1" by blast
  then show ?thesis using d(2,3) trackingD(3) [OF 1(2)] assms(2)
    by (auto simp: Log_Handler.swap_rows_def intro!: tracking_map_lists)
qed

lemma tracking_effect:
  assumes "row_effect (set old) i xs M ys N" "tracking K t old xs M ob"
  shows "\<exists>ob'. observe K i ob = Inr ob' \<and> tracking K t old ys N ob'"
  using assms
proof cases
  case insert_rows
  then show ?thesis using tracking_insert_rows [OF assms(2), of "drop (length xs) ys"] by (auto simp: observe_def)
next
  case (add_row y)
  then show ?thesis using tracking_insert_rows [OF assms(2), of "[y]"]
    by (auto simp: observe_def add_row_with_key_def)
next
  case (erase_row r)
  then show ?thesis using tracking_erase_row [OF assms(2), of r] by (auto simp: observe_def)
next
  case (swap_rows a b)
  then show ?thesis using tracking_swap_rows [OF assms(2), of a b] by (auto simp: observe_def)
next
  case (set_value r v c)
  then show ?thesis using tracking_mark [OF assms(2), of r c] by (auto simp: observe_def mark_dirty_instr_def)
next
  case (add_int r c)
  then show ?thesis using tracking_mark [OF assms(2), of r c] by (auto simp: observe_def mark_dirty_instr_def)
next
  case (nullify_link r c)
  then show ?thesis using tracking_mark [OF assms(2), of r c] by (auto simp: observe_def mark_dirty_instr_def)
qed (use assms(2) in \<open>simp_all add: observe_def mark_dirty_instr_def\<close>)

lemma tracking_effects:
  assumes "row_effects (set old) log xs M ys N" "tracking K t old xs M ob"
  shows "\<exists>ob'. observe_log K log ob = Inr ob' \<and> tracking K t old ys N ob'"
  using assms
proof (induction arbitrary: ob rule: row_effects.induct)
  case (more i xs M ys L log zs N)
  from tracking_effect [OF more.hyps(1) more.prems] obtain ob1 where
    1: "observe K i ob = Inr ob1" "tracking K t old ys L ob1" by blast
  then show ?case using more.IH [OF 1(2)] by auto
qed auto

section \<open>A whole log\<close>

lemma rows_tracked_init:
  assumes "even K" "0 < K" "distinct xs" "length xs \<le> npos"
  shows "rows_tracked K xs xs {} ccb_init"
  using assms tracks_refl [of xs] rep_Nil [OF assms(1,2)]
  by (auto simp: rows_tracked_def ccb_ok_def wf_rows_def wf_changes_def describes_def moves_ok_def map_ok_def
      aligned_def origins_known_def abs_ccb_def ccb_init_def rep_def)

definition wanted :: "change_info \<Rightarrow> size_t \<Rightarrow> bool" where
  "wanted info t \<longleftrightarrow> track_all info \<or> needed (table_modifications_needed info) t \<and> needed (table_moves_needed info) t"

definition fresh_info :: "change_info \<Rightarrow> nat \<Rightarrow> bool" where
  "fresh_info info n \<longleftrightarrow> tables info = [] \<and> table_indices info = [] \<and> (\<forall>l \<in> set (lists info). changes_at l < n)"

lemma select_wanted:
  assumes "even K" "0 < K" "distinct xs" "length xs \<le> npos" "wanted info t" "fresh_info info n"
  shows "\<exists>ob. select_table K t [] (observer_init info (replicate n ccb_init)) = Some ob \<and> tracking K t xs xs {} ob"
proof -
  let ?ob = "observer_init info (replicate n ccb_init)"
  have o: "tables ?ob = tables info" "lists ?ob = lists info" "collections ?ob = replicate n ccb_init"
    "track_all ?ob = track_all info" "table_modifications_needed ?ob = table_modifications_needed info"
    "table_moves_needed ?ob = table_moves_needed info" "table_indices ?ob = table_indices info"
    by (simp_all add: observer_init_def change_info.defs)
  have r: "rows_tracked K xs xs {} ccb_init" by (rule rows_tracked_init [OF assms(1-4)])
  show ?thesis using assms(5,6) r
    by (auto simp: select_table_def Let_def o wanted_def fresh_info_def set_tables_def tracking_def rest_untouched_def
        resize_def simp del: replicate_Suc)
qed

lemma parse_init: "ccb_parse_complete K ccb_init = Some ccb_init" "clean_up_stale_moves K ccb_init = Some ccb_init"
  by (simp_all add: ccb_parse_complete_def clean_up_stale_moves_def ccb_init_def)

lemma parse_tables_one:
  assumes "t < length ts" "\<forall>u < length ts. u \<noteq> t \<longrightarrow> ts ! u = ccb_init" "ccb_parse_complete K (ts ! t) = Some c"
  shows "parse_tables K ts = Some (ts[t := c])"
  using assms
proof (induction ts arbitrary: t)
  case (Cons x ts)
  have all: "parse_tables K us = Some us" if "\<forall>u \<in> set us. u = ccb_init" for us
    using that by (induction us) (auto simp: parse_init)
  show ?case
  proof (cases t)
    case 0
    then have "\<forall>u \<in> set ts. u = ccb_init" using Cons.prems(2) by (fastforce simp: in_set_conv_nth)
    then show ?thesis using 0 Cons.prems(3) all by simp
  next
    case (Suc t')
    then have "x = ccb_init" "\<forall>u < length ts. u \<noteq> t' \<longrightarrow> ts ! u = ccb_init"
      using Cons.prems(2) [THEN spec, of 0] Cons.prems(2) by auto
    then show ?thesis using Cons.IH [of t'] Cons.prems(1,3) Suc by (simp add: parse_init)
  qed
qed simp

lemma clean_lists_init:
  assumes "\<forall>c \<in> set (collections ob). c = ccb_init" "\<forall>l \<in> set ls. changes_at l < length (collections ob)"
  shows "clean_lists K ls ob = Some ob"
  using assms(2)
proof (induction ls)
  case (Cons l ls)
  have c: "collections ob ! changes_at l = ccb_init" "changes_at l < length (collections ob)"
    using assms(1) Cons.prems by auto
  then have "(collections ob)[changes_at l := ccb_init] = collections ob" by (metis list_update_id)
  then show ?case using Cons c by (simp add: at_builder_def parse_init)
qed simp

lemma parse_tracking:
  assumes "tracking K t old new M ob"
  shows "\<exists>ob'. parse_complete K ob = Some ob' \<and> t < length (tables ob') \<and> table_indices ob' = [] \<and>
    (let c = tables ob' ! t in ccb_ok K c \<and> wf_changes old new (abs_ccb c) \<and> move_mapping c = [] \<and>
       sorted (map mv_from (moves c)) \<and> moves_known old new c \<and>
       indices (modifications c) = {k. k < length new \<and> new ! k \<in> M})"
proof -
  note d = trackingD [OF assms]
  from tracked_parse [OF d(6)] obtain c where
    c: "ccb_parse_complete K (tables ob ! t) = Some c" "ccb_ok K c" "wf_changes old new (abs_ccb c)"
      "move_mapping c = []" "sorted (map mv_from (moves c))" "moves_known old new c"
      "modifications c = modifications (tables ob ! t)" by blast
  let ?ob = "ob\<lparr>tables := (tables ob)[t := c]\<rparr>"
  have "parse_tables K (tables ob) = Some ((tables ob)[t := c])"
    using d(5,7) c(1) by (intro parse_tables_one) (auto simp: rest_untouched_def)
  moreover have "clean_lists K (lists ob) ?ob = Some ?ob"
    using d(7) by (intro clean_lists_init) (auto simp: rest_untouched_def)
  ultimately have "parse_complete K ob = Some ?ob" by (simp add: parse_complete_def)
  moreover have "indices (modifications c) = {k. k < length new \<and> new ! k \<in> M}"
    using rows_trackedD(6) [OF d(6)] c(7) by (simp add: abs_ccb_def)
  moreover have "table_indices ?ob = []" using d(7) by (simp add: rest_untouched_def)
  ultimately show ?thesis using c d(5) by (auto simp: Let_def)
qed

lemma log_tracked:
  assumes "even K" "0 < K" "distinct old" "length old \<le> npos" "wanted info t" "fresh_info info n"
    "row_effects (set old) log old {} new M"
  shows "\<exists>ob. observe_all K (Select_Table t [] # log) (observer_init info (replicate n ccb_init)) = Inr ob \<and>
    t < length (tables ob) \<and> table_indices ob = [] \<and>
    (let c = tables ob ! t in ccb_ok K c \<and> wf_changes old new (abs_ccb c) \<and> move_mapping c = [] \<and>
       sorted (map mv_from (moves c)) \<and> moves_known old new c \<and>
       indices (modifications c) = {k. k < length new \<and> new ! k \<in> M})"
proof -
  from select_wanted [OF assms(1-6)] obtain ob0 where
    0: "select_table K t [] (observer_init info (replicate n ccb_init)) = Some ob0" "tracking K t old old {} ob0" by blast
  from tracking_effects [OF assms(7) 0(2)] obtain ob1 where
    1: "observe_log K log ob0 = Inr ob1" "tracking K t old new M ob1" by blast
  then have "observe_log K (Select_Table t [] # log) (observer_init info (replicate n ccb_init)) = Inr ob1"
    using 0(1) by (simp add: observe_def)
  then show ?thesis using parse_tracking [OF 1(2)] by (auto simp: observe_all_def)
qed

section \<open>Observed rows\<close>

lemma found_move:
  assumes "sorted (map mv_from ms)"
  shows "let it = lower_bound (\<lambda>m. mv_from m < i) ms
    in if it < length ms \<and> mv_from (ms ! it) = i then ms ! it \<in> set ms else \<forall>m \<in> set ms. mv_from m \<noteq> i"
proof -
  define it where "it = lower_bound (\<lambda>m. mv_from m < i) ms"
  have it: "takeWhile (\<lambda>m. mv_from m < i) ms = take it ms" by (simp add: it_def)
  show ?thesis
  proof (cases "it < length ms")
    case False
    then have "takeWhile (\<lambda>m. mv_from m < i) ms = ms" using it by simp
    then have "\<forall>m \<in> set ms. mv_from m < i" by (metis set_takeWhileD)
    then show ?thesis using False by (auto simp: Let_def it_def [symmetric])
  next
    case True
    have g: "i \<le> mv_from (ms ! it)"
      using nth_length_takeWhile [of "\<lambda>m. mv_from m < i" ms] True by (simp add: it_def lower_bound_def not_less)
    have "mv_from m \<noteq> i" if m: "m \<in> set ms" "mv_from (ms ! it) \<noteq> i" for m
    proof -
      obtain j where j: "j < length ms" "m = ms ! j" using m(1) by (auto simp: in_set_conv_nth)
      show ?thesis
      proof (cases "j < it")
        case True
        then have "m \<in> set (takeWhile (\<lambda>m. mv_from m < i) ms)" using j unfolding it by (auto simp: in_set_conv_nth)
        then show ?thesis by (auto dest: set_takeWhileD)
      next
        case False
        then have "mv_from (ms ! it) \<le> mv_from m"
          using sorted_nth_mono [OF assms, of it j] j True by simp
        then show ?thesis using g m(2) by simp
      qed
    qed
    then show ?thesis using True by (auto simp: Let_def it_def [symmetric])
  qed
qed

lemma new_row_found:
  assumes c: "ccb_ok K c" "wf_changes old new (abs_ccb c)" "sorted (map mv_from (moves c))" "moves_known old new c"
    and old: "distinct old" "r < length old"
  shows "case new_row_ndx c r of Some k \<Rightarrow> k < length new \<and> new ! k = old ! r | None \<Rightarrow> old ! r \<notin> set new"
proof -
  let ?D = "s_del (abs_ccb c)" and ?I = "s_ins (abs_ccb c)" and ?it = "lower_bound (\<lambda>m. mv_from m < r) (moves c)"
  have t: "tracks old new ?D ?I" and m: "moves_ok old new ?D ?I (moves c)"
    using c(2) by (simp_all add: wf_changes_def describes_def)
  note b = wf_bounds [OF t] and f = found_move [OF c(3), of r] and rp = ok_rep [OF c(1)]
  show ?thesis
  proof (cases "?it < length (moves c) \<and> mv_from (moves c ! ?it) = r")
    case True
    then obtain m0 where m0: "m0 = moves c ! ?it" "m0 \<in> set (moves c)" "mv_from m0 = r" by simp
    have "mv_to m0 \<in> ?I" "old ! mv_from m0 = new ! mv_to m0" using m m0(2) unfolding moves_ok_def by blast+
    then have "mv_to m0 < length new \<and> new ! mv_to m0 = old ! r" using b(2) m0(3) by simp
    moreover have "new_row_ndx c r = Some (mv_to m0)" unfolding new_row_ndx_def Let_def m0(1) by (rule if_P [OF True])
    ultimately show ?thesis by simp
  next
    case no: False
    have none: "\<forall>m \<in> set (moves c). mv_from m \<noteq> r" using f unfolding Let_def if_not_P [OF no] .
    show ?thesis
    proof (cases "r \<in> ?D")
      case False
      have "tracks new old ?I ?D" using t by (auto simp: tracks_def)
      note k = recorded_keep(4,5) [OF this old(2) False]
      have "contains (deletions c) r = (r \<in> ?D)" by (rule ixs.mem [OF rp(1)])
      then have "new_row_ndx c r = Some (shift_in ?I (unshift_in ?D r))"
        unfolding new_row_ndx_def Let_def if_not_P [OF no] using False by (simp add: ixs.up [OF rp(2)] ixs.down [OF rp(1)])
      then show ?thesis using k by simp
    next
      case True
      have "old ! r \<noteq> new ! k" if k: "k < length new" for k
      proof
        assume eq: "old ! r = new ! k"
        show False
        proof (cases "k \<in> ?I")
          case True
          then obtain m' where m': "m' \<in> set (moves c)" "mv_to m' = k"
            using c(4) k eq [symmetric] old(2) by (auto simp: moves_known_def)
          then have "mv_from m' < length old" "old ! mv_from m' = old ! r"
            using m b eq by (auto simp: moves_ok_def)
          then show False using old none m'(1) by (simp add: nth_eq_iff_index_eq)
        next
          case False
          note f = recorded_keep(4,5) [OF t k False]
          then have "shift_in ?D (unshift_in ?I k) = r"
            using nth_eq_iff_index_eq [OF old(1) f(2) old(2)] eq by simp
          then show False using True shift_in_spec [OF b(3)] by metis
        qed
      qed
      then have "old ! r \<notin> set new" by (metis in_set_conv_nth)
      moreover have "contains (deletions c) r = (r \<in> ?D)" by (rule ixs.mem [OF rp(1)])
      then have "new_row_ndx c r = None" unfolding new_row_ndx_def Let_def if_not_P [OF no] using True by simp
      ultimately show ?thesis by simp
    qed
  qed
qed

end
