(* ===== verification/Log_Lists.thy ===== *)
theory Log_Lists
  imports Log_Rows "HOL-Library.Multiset"
begin

text \<open>
  The tracked lists follow the rows they belong to.  An edit of a table moves some rows and removes
  others; the locale \<open>relocation\<close> states what a map of positions has to satisfy to describe an edit,
  and proves once that lists whose rows are moved by the map stay with their rows.  It is interpreted
  on the edits of the log, and the loops of the handlers are shown to be relocations.
\<close>

definition on_rows :: "size_t \<Rightarrow> 'a list \<Rightarrow> list_change_info list \<Rightarrow> bool" where
  "on_rows t xs ls \<longleftrightarrow> (\<forall>l \<in> set ls. table_ndx l = t \<longrightarrow> row_ndx l < length xs)"

text \<open>The builder, column and row of every tracked list; no row for lists of other tables.\<close>

definition watch :: "size_t \<Rightarrow> 'a list \<Rightarrow> list_change_info \<Rightarrow> size_t \<times> size_t \<times> size_t \<times> 'a option" where
  "watch t xs l = (changes_at l, table_ndx l, col_ndx l, if table_ndx l = t then Some (xs ! row_ndx l) else None)"

definition survives :: "'a set \<Rightarrow> size_t \<times> size_t \<times> size_t \<times> 'a option \<Rightarrow> bool" where
  "survives X w = (case snd (snd (snd w)) of None \<Rightarrow> True | Some x \<Rightarrow> x \<in> X)"

definition relocate :: "size_t \<Rightarrow> (size_t \<Rightarrow> size_t option) \<Rightarrow> list_change_info \<Rightarrow> list_change_info option" where
  "relocate t pos l =
     (if table_ndx l \<noteq> t then Some l else map_option (\<lambda>j. l\<lparr>row_ndx := j\<rparr>) (pos (row_ndx l)))"

section \<open>Edits that move rows\<close>

locale relocation =
  fixes edit :: "'a list \<Rightarrow> 'a list" and pos :: "size_t \<Rightarrow> size_t option" and ok :: "'a list \<Rightarrow> bool"
  assumes kept: "ok xs \<Longrightarrow> i < length xs \<Longrightarrow> pos i = Some j \<Longrightarrow> j < length (edit xs) \<and> edit xs ! j = xs ! i"
    and lost: "ok xs \<Longrightarrow> distinct xs \<Longrightarrow> i < length xs \<Longrightarrow> pos i = None \<Longrightarrow> xs ! i \<notin> set (edit xs)"
begin

lemma one_follows:
  assumes "ok xs" "distinct xs" "table_ndx l = t \<longrightarrow> row_ndx l < length xs"
  shows "case relocate t pos l of
      Some l' \<Rightarrow> (table_ndx l' = t \<longrightarrow> row_ndx l' < length (edit xs)) \<and> watch t (edit xs) l' = watch t xs l \<and>
                 survives (set (edit xs)) (watch t xs l)
    | None \<Rightarrow> \<not> survives (set (edit xs)) (watch t xs l)"
proof (cases "table_ndx l = t")
  case True
  then have r: "row_ndx l < length xs" using assms(3) by simp
  show ?thesis
  proof (cases "pos (row_ndx l)")
    case None
    then show ?thesis using lost [OF assms(1,2) r] True by (simp add: relocate_def watch_def survives_def)
  next
    case (Some j)
    from kept [OF assms(1) r Some] have "j < length (edit xs)" "edit xs ! j = xs ! row_ndx l" by auto
    moreover from this have "xs ! row_ndx l \<in> set (edit xs)" by (metis nth_mem)
    ultimately show ?thesis using Some True by (simp add: relocate_def watch_def survives_def)
  qed
qed (simp add: relocate_def watch_def survives_def)

lemma lists_follow:
  assumes "ok xs" "distinct xs" "on_rows t xs ls"
  shows "on_rows t (edit xs) (List.map_filter (relocate t pos) ls)"
    and "map (watch t (edit xs)) (List.map_filter (relocate t pos) ls) =
      filter (survives (set (edit xs))) (map (watch t xs) ls)"
  using assms(3)
proof (induction ls)
  case (Cons l ls)
  {
    case 1
    then show ?case using Cons.IH(1) one_follows [OF assms(1,2), of l t]
      by (auto simp: on_rows_def map_filter_simps split: option.splits)
  next
    case 2
    then show ?case using Cons.IH(2) one_follows [OF assms(1,2), of l t]
      by (auto simp: on_rows_def map_filter_simps split: option.splits)
  }
qed (simp_all add: on_rows_def map_filter_simps)

end

definition erased_pos :: "size_t \<Rightarrow> size_t \<Rightarrow> size_t \<Rightarrow> size_t option" where
  "erased_pos r z i = (if i = r then None else if i = z then Some r else Some i)"

interpretation inserting: relocation "inserted_at n ys" "\<lambda>i. Some (bump n (length ys) i)" "\<lambda>xs. n \<le> length xs" for n ys
  by unfold_locales (auto simp: inserted_at_def bump_def nth_append)

interpretation erasing: relocation "moved_over r" "erased_pos r z" "\<lambda>xs. r < length xs \<and> z = length xs - 1"
  for r z
proof (unfold_locales, goal_cases)
  case (1 xs i j)
  then show ?case by (auto simp: erased_pos_def moved_over_nth split: if_splits)
next
  case (2 xs i)
  then show ?case
    by (auto simp: erased_pos_def in_set_conv_nth moved_over_nth nth_eq_iff_index_eq split: if_splits)
qed

interpretation swapping: relocation "swapped a b" "\<lambda>i. Some (exchange a b i)" "\<lambda>xs. a < b \<and> b < length xs" for a b
  by unfold_locales (auto simp: swapped_def exchange_def nth_list_update split: if_splits)

section \<open>The loops of the handlers\<close>

lemma map_relocates:
  assumes "\<And>l. f l = (if table_ndx l = t then l\<lparr>row_ndx := g (row_ndx l)\<rparr> else l)"
  shows "map f ls = List.map_filter (relocate t (\<lambda>i. Some (g i))) ls"
  by (induction ls) (auto simp: map_filter_simps relocate_def assms)

lemma insert_relocates:
  "map (\<lambda>l. if table_ndx l = t \<and> row \<le> row_ndx l then l\<lparr>row_ndx := row_ndx l + num\<rparr> else l) ls =
     List.map_filter (relocate t (\<lambda>i. Some (bump row num i))) ls"
  by (rule map_relocates) (auto simp: bump_def)

lemma swap_relocates:
  "map (\<lambda>l. if table_ndx l = t then if row_ndx l = a then l\<lparr>row_ndx := b\<rparr>
          else if row_ndx l = b then l\<lparr>row_ndx := a\<rparr> else l else l) ls =
     List.map_filter (relocate t (\<lambda>i. Some (exchange a b i))) ls"
  by (rule map_relocates) (auto simp: exchange_def)

definition on_row :: "size_t \<Rightarrow> size_t \<Rightarrow> list_change_info \<Rightarrow> bool" where
  "on_row t r l \<longleftrightarrow> table_ndx l = t \<and> row_ndx l = r"

text \<open>The loop of \<open>erase_rows\<close> is right when at most one of the lists is on the erased row and the
  list that takes its place is not on the row that is moved.\<close>

definition erasable :: "size_t \<Rightarrow> size_t \<Rightarrow> size_t \<Rightarrow> list_change_info list \<Rightarrow> bool" where
  "erasable t r z ls \<longleftrightarrow>
     length (filter (on_row t r) ls) \<le> 1 \<and>
     (filter (on_row t r) ls \<noteq> [] \<longrightarrow> on_row t r (last ls) \<or> \<not> on_row t z (last ls))"

lemma map_filter_snoc: "List.map_filter f (xs @ ys) = List.map_filter f xs @ List.map_filter f ys"
  by (simp add: List.map_filter_def)

lemma relocate_erased:
  "relocate t (erased_pos r z) l =
     (if table_ndx l \<noteq> t then Some l else if row_ndx l = r then None
      else if row_ndx l = z then Some (l\<lparr>row_ndx := r\<rparr>) else Some l)"
  by (simp add: relocate_def erased_pos_def)

lemma erase_lists_step:
  assumes "i < length ls"
  shows "erase_lists t r z i ls = erase_lists t r z (i + 1)
    (if on_row t r (ls ! i) then butlast (if i + 1 < length ls then ls[i := last ls] else ls)
     else if on_row t z (ls ! i) then ls[i := (ls ! i)\<lparr>row_ndx := r\<rparr>] else ls)"
  using assms by (subst erase_lists.simps) (simp add: on_row_def Let_def)

lemma erase_relocates_from:
  assumes "length (filter (on_row t r) (drop i ls)) \<le> 1"
    "filter (on_row t r) (drop i ls) \<noteq> [] \<longrightarrow> on_row t r (last ls) \<or> \<not> on_row t z (last ls)"
  shows "mset (erase_lists t r z i ls) =
    mset (take i ls) + mset (List.map_filter (relocate t (erased_pos r z)) (drop i ls))"
  using assms
proof (induction "length ls - i" arbitrary: i ls rule: less_induct)
  case (less i ls)
  let ?f = "relocate t (erased_pos r z)"
  show ?case
  proof (cases "i < length ls")
    case False
    then show ?thesis by (simp add: erase_lists.simps map_filter_simps)
  next
    case i: True
    have dr: "drop i ls = ls ! i # drop (i + 1) ls" using i by (simp add: Cons_nth_drop_Suc)
    have tk: "take (i + 1) ls = take i ls @ [ls ! i]" using i by (simp add: take_Suc_conv_app_nth)
    note hyp = less.prems [unfolded dr]
    show ?thesis
    proof (cases "on_row t r (ls ! i)")
      case False
      define l' where "l' = (if on_row t z (ls ! i) then (ls ! i)\<lparr>row_ndx := r\<rparr> else ls ! i)"
      let ?ls = "ls[i := l']"
      have e: "erase_lists t r z i ls = erase_lists t r z (i + 1) ?ls"
        using erase_lists_step [OF i, of t r z] False by (simp add: l'_def)
      have d: "drop (i + 1) ?ls = drop (i + 1) ls" "take (i + 1) ?ls = take i ls @ [l']"
        using i by (auto simp: take_Suc_conv_app_nth)
      have "last ?ls = last ls" if "filter (on_row t r) (drop (Suc i) ls) \<noteq> []"
      proof -
        have "drop (Suc i) ls \<noteq> []" using that by fastforce
        then show ?thesis using i by (cases "ls = []") (auto simp: last_list_update)
      qed
      then have "mset (erase_lists t r z (i + 1) ?ls) = mset (take (i + 1) ?ls) + mset (List.map_filter ?f (drop (i + 1) ?ls))"
        using hyp False i by (intro less.hyps) (auto simp: d(1))
      moreover have "?f (ls ! i) = Some l'" using False by (auto simp: relocate_erased l'_def on_row_def)
      ultimately show ?thesis unfolding e dr d by (simp add: map_filter_simps)
    next
      case True
      then have none: "filter (on_row t r) (drop (i + 1) ls) = []" and gone: "?f (ls ! i) = None"
        using hyp(1) by (simp_all add: relocate_erased on_row_def)
      show ?thesis
      proof (cases "i + 1 < length ls")
        case False
        then have "length ls = i + 1" using i by simp
        then have "erase_lists t r z i ls = butlast ls" "butlast ls = take i ls" "drop i ls = [ls ! i]"
          using erase_lists_step [OF i, of t r z] True dr
          by (simp_all add: erase_lists.simps [of t r z "Suc i" "take i ls"] butlast_conv_take)
        then show ?thesis using gone by (simp add: map_filter_simps)
      next
        case more: True
        let ?rest = "drop (i + 1) ls"
        have ne: "?rest \<noteq> []" and lst: "last ?rest = last ls" using more by auto
        then have "last ls \<in> set ?rest" using last_in_set [OF ne] by simp
        then have "\<not> on_row t r (last ls)" using none by (auto simp: filter_empty_conv)
        then have kept: "?f (last ls) = Some (last ls)" using hyp(2) True by (auto simp: relocate_erased on_row_def)
        let ?ls = "butlast (ls[i := last ls])"
        have ls: "?ls = take i ls @ last ls # butlast ?rest"
          using i ne by (simp add: upd_conv_take_nth_drop butlast_append)
        have e: "erase_lists t r z i ls = erase_lists t r z (i + 1) ?ls"
          using erase_lists_step [OF i, of t r z] True more by simp
        have d: "drop (i + 1) ?ls = butlast ?rest" "take (i + 1) ?ls = take i ls @ [last ls]"
          unfolding ls using i by simp_all
        have "filter (on_row t r) (butlast ?rest) = []" using none by (auto simp: filter_empty_conv dest: in_set_butlastD)
        then have "mset (erase_lists t r z (i + 1) ?ls) = mset (take (i + 1) ?ls) + mset (List.map_filter ?f (drop (i + 1) ?ls))"
          using i by (intro less.hyps) (auto simp: d(1) [unfolded Suc_eq_plus1 [symmetric]])
        moreover have "List.map_filter ?f ?rest = List.map_filter ?f (butlast ?rest) @ [last ls]"
        proof -
          have "?rest = butlast ?rest @ [last ls]" using append_butlast_last_id [OF ne] lst by simp
          then have "List.map_filter ?f ?rest = List.map_filter ?f (butlast ?rest @ [last ls])" by (rule arg_cong)
          also have "\<dots> = List.map_filter ?f (butlast ?rest) @ List.map_filter ?f [last ls]" by (rule map_filter_snoc)
          also have "List.map_filter ?f [last ls] = [last ls]" using kept by (simp add: map_filter_simps)
          finally show ?thesis .
        qed
        ultimately show ?thesis unfolding e dr d using gone by (simp add: map_filter_simps)
      qed
    qed
  qed
qed

lemma erase_relocates:
  "erasable t r z ls \<Longrightarrow>
     mset (erase_lists t r z 0 ls) = mset (List.map_filter (relocate t (erased_pos r z)) ls)"
  using erase_relocates_from [of t r 0 ls z] by (simp add: erasable_def)

end
