(* ===== verification/Log_Schema.thy ===== *)
theory Log_Schema
  imports Log_Kvo
begin

text \<open>
  Schema changes in a log: the vectors that are indexed by tables follow the tables, and the map from
  the present to the first columns of a table follows its columns.
\<close>

section \<open>Tables\<close>

definition table_place :: "instr \<Rightarrow> size_t \<Rightarrow> size_t" where
  "table_place i v =
     (case i of Insert_Group_Level_Table n \<Rightarrow> if n \<le> v then v + 1 else v
      | Move_Group_Level_Table a b \<Rightarrow> adjust_for_move v a b
      | _ \<Rightarrow> v)"

definition tables_follow :: "(size_t \<Rightarrow> size_t) \<Rightarrow> observer \<Rightarrow> observer \<Rightarrow> bool" where
  "tables_follow p ob ob' \<longleftrightarrow>
     (\<forall>v. nth_default ccb_init (tables ob') (p v) = nth_default ccb_init (tables ob) v \<and>
          needed (table_modifications_needed ob') (p v) = needed (table_modifications_needed ob) v \<and>
          needed (table_moves_needed ob') (p v) = needed (table_moves_needed ob) v) \<and>
     lists ob' = map (\<lambda>l. l\<lparr>table_ndx := p (table_ndx l)\<rparr>) (lists ob) \<and>
     (\<forall>v < max (length (table_indices ob)) (length (table_modifications_needed ob)).
        table_indices ob = [] \<or> v < length (table_indices ob) \<longrightarrow>
        new_table_ndx ob' v = p (new_table_ndx ob v))"

lemma needed_nth: "needed bs = nth_default False bs"
  by (auto simp: needed_def nth_default_def fun_eq_iff)

lemma set_tables_simps [simp]:
  "tables (set_tables ts ob) = ts" "lists (set_tables ts ob) = lists ob"
  "table_indices (set_tables ts ob) = table_indices ob" "column_indices (set_tables ts ob) = column_indices ob"
  "table_modifications_needed (set_tables ts ob) = table_modifications_needed ob"
  "table_moves_needed (set_tables ts ob) = table_moves_needed ob" "collections (set_tables ts ob) = collections ob"
  "schema_changed (set_tables ts ob) = schema_changed ob" "current_table (set_tables ts ob) = current_table ob"
  by (simp_all add: set_tables_def)

lemma prepare_simps [simp]:
  "tables (prepare_table_indices ob) = tables ob" "lists (prepare_table_indices ob) = lists ob"
  "table_modifications_needed (prepare_table_indices ob) = table_modifications_needed ob"
  "table_moves_needed (prepare_table_indices ob) = table_moves_needed ob"
  "column_indices (prepare_table_indices ob) = column_indices ob"
  "current_table (prepare_table_indices ob) = current_table ob"
  by (simp_all add: prepare_table_indices_def)

lemma map_lists_simps [simp]:
  "tables (map_lists f ob) = tables ob" "lists (map_lists f ob) = map f (lists ob)"
  "table_modifications_needed (map_lists f ob) = table_modifications_needed ob"
  "table_moves_needed (map_lists f ob) = table_moves_needed ob" "table_indices (map_lists f ob) = table_indices ob"
  "column_indices (map_lists f ob) = column_indices ob" "current_table (map_lists f ob) = current_table ob"
  "active_table (map_lists f ob) = active_table ob" "active_descriptor (map_lists f ob) = active_descriptor ob"
  "is_top_level_table (map_lists f ob) = is_top_level_table ob" "collections (map_lists f ob) = collections ob"
  by (simp_all add: map_lists_def)

lemma prepared_indices:
  assumes "length (table_modifications_needed ob) \<le> 2 ^ 64"
    "v < max (length (table_indices ob)) (length (table_modifications_needed ob))"
    "table_indices ob = [] \<or> v < length (table_indices ob)"
  shows "v < length (table_indices (prepare_table_indices ob))"
    "table_indices (prepare_table_indices ob) ! v = new_table_ndx ob v"
  using assms by (auto simp: prepare_table_indices_def new_table_ndx_def nth_iota)

lemma prepared_same:
  "table_indices (prepare_table_indices (map_lists f (ob\<lparr>schema_changed := x\<rparr>))) = table_indices (prepare_table_indices ob)"
  by (simp add: prepare_table_indices_def map_lists_def)

lemma tables_followI:
  assumes "length (table_modifications_needed ob) \<le> 2 ^ 64"
    "\<And>v. nth_default ccb_init (tables ob') (p v) = nth_default ccb_init (tables ob) v"
    "\<And>v. nth_default False (table_modifications_needed ob') (p v) = nth_default False (table_modifications_needed ob) v"
    "\<And>v. nth_default False (table_moves_needed ob') (p v) = nth_default False (table_moves_needed ob) v"
    "lists ob' = map (\<lambda>l. l\<lparr>table_ndx := p (table_ndx l)\<rparr>) (lists ob)"
    "table_indices ob' = map p (table_indices (prepare_table_indices ob))"
  shows "tables_follow p ob ob'"
  using assms(2-5) prepared_indices [OF assms(1)]
  by (auto simp: tables_follow_def needed_nth new_table_ndx_def [of ob'] assms(6))

lemma insert_table_follows:
  assumes "length (table_modifications_needed ob) \<le> 2 ^ 64"
  shows "tables_follow (\<lambda>v. if n \<le> v then v + 1 else v) ob (insert_group_level_table n ob)"
proof (rule tables_followI [OF assms])
  let ?ob = "insert_group_level_table n ob"
  have f: "tables ?ob = insert_empty_at ccb_init (tables ob) n"
    "table_modifications_needed ?ob = insert_empty_at False (table_modifications_needed ob) n"
    "table_moves_needed ?ob = insert_empty_at False (table_moves_needed ob) n"
    by (simp_all add: insert_group_level_table_def Let_def)
  show "nth_default ccb_init (tables ?ob) (if n \<le> v then v + 1 else v) = nth_default ccb_init (tables ob) v"
    "nth_default False (table_modifications_needed ?ob) (if n \<le> v then v + 1 else v) =
       nth_default False (table_modifications_needed ob) v"
    "nth_default False (table_moves_needed ?ob) (if n \<le> v then v + 1 else v) =
       nth_default False (table_moves_needed ob) v" for v
    by (simp_all only: f nth_insert_empty_at)
  show "lists ?ob = map (\<lambda>l. l\<lparr>table_ndx := if n \<le> table_ndx l then table_ndx l + 1 else table_ndx l\<rparr>) (lists ob)"
  proof -
    have "lists ?ob = map (\<lambda>l. if n \<le> table_ndx l then l\<lparr>table_ndx := table_ndx l + 1\<rparr> else l) (lists ob)"
      unfolding insert_group_level_table_def Let_def by simp
    also have "\<dots> = map (\<lambda>l. l\<lparr>table_ndx := if n \<le> table_ndx l then table_ndx l + 1 else table_ndx l\<rparr>) (lists ob)"
      by (rule map_cong [OF refl]) simp
    finally show ?thesis .
  qed
  show "table_indices ?ob = map (\<lambda>v. if n \<le> v then v + 1 else v) (table_indices (prepare_table_indices ob))"
    unfolding insert_group_level_table_def Let_def by (simp add: adjust_ge_def prepare_table_indices_def map_lists_def)
qed

lemma rotate_to_some: "a \<noteq> b \<Longrightarrow> \<exists>ys. rotate_to d xs a b = Some ys"
  by (simp add: rotate_to_def Let_def)

lemma move_table_follows:
  assumes "length (table_modifications_needed ob) \<le> 2 ^ 64" "a \<noteq> b"
  shows "\<exists>ob'. move_group_level_table a b ob = Some ob' \<and> tables_follow (\<lambda>v. adjust_for_move v a b) ob ob'"
proof -
  from rotate_to_some [OF assms(2), of ccb_init "tables ob"] obtain ts where
    ts: "rotate_to ccb_init (tables ob) a b = Some ts" ..
  from rotate_to_some [OF assms(2), of False "table_modifications_needed ob"] obtain ms where
    ms: "rotate_to False (table_modifications_needed ob) a b = Some ms" ..
  from rotate_to_some [OF assms(2), of False "table_moves_needed ob"] obtain vs where
    vs: "rotate_to False (table_moves_needed ob) a b = Some vs" ..
  define ob1 where "ob1 = prepare_table_indices (map_lists (\<lambda>l. l\<lparr>table_ndx := adjust_for_move (table_ndx l) a b\<rparr>)
    (ob\<lparr>schema_changed := True\<rparr>))"
  have 1: "tables ob1 = tables ob" "table_modifications_needed ob1 = table_modifications_needed ob"
    "table_moves_needed ob1 = table_moves_needed ob"
    "lists ob1 = map (\<lambda>l. l\<lparr>table_ndx := adjust_for_move (table_ndx l) a b\<rparr>) (lists ob)"
    "table_indices ob1 = table_indices (prepare_table_indices ob)"
    by (simp_all add: ob1_def prepared_same)
  define ob' where "ob' = (set_tables ts ob1)\<lparr>table_indices := map (\<lambda>v. adjust_for_move v a b) (table_indices ob1),
    table_modifications_needed := ms, table_moves_needed := vs\<rparr>"
  have some: "move_group_level_table a b ob = Some ob'"
    using ts ms vs 1(1-3) unfolding move_group_level_table_def Let_def ob1_def [symmetric] ob'_def by simp
  have "tables_follow (\<lambda>v. adjust_for_move v a b) ob ob'"
    by (rule tables_followI [OF assms(1)])
      (simp_all add: ob'_def 1 rotate_to_moves [OF ts] rotate_to_moves [OF ms] rotate_to_moves [OF vs])
  then show ?thesis using some by blast
qed

section \<open>Columns\<close>

definition column_place :: "instr \<Rightarrow> (size_t \<Rightarrow> size_t) \<Rightarrow> size_t \<Rightarrow> size_t" where
  "column_place i f j =
     (case i of Insert_Column n \<Rightarrow> if j < n then f j else if j = n then npos else f (j - 1)
      | Insert_Link_Column n \<Rightarrow> if j < n then f j else if j = n then npos else f (j - 1)
      | Move_Column a b \<Rightarrow> f (adjust_for_move j b a)
      | _ \<Rightarrow> f j)"

text \<open>The last entry of the vector is a first column, and the columns after it follow in order.\<close>

definition cols_ok :: "size_t list \<Rightarrow> bool" where
  "cols_ok cols \<longleftrightarrow> (cols \<noteq> [] \<longrightarrow> last cols < length cols)"

lemma last_iota: "0 < n \<Longrightarrow> v + n \<le> 2 ^ 64 \<Longrightarrow> last (iota n v) = v + (n - 1)"
  using last_conv_nth [of "iota n v"] nth_iota [of "n - 1" n v] by (cases n) auto

lemma initial_column_end:
  assumes "cols \<noteq> []" "cols_ok cols" "length cols \<le> j" "j < 2 ^ 64"
  shows "initial_column cols j = j - length cols + last cols + 1"
  using assms by (simp add: initial_column_def cols_ok_def)

lemma initial_column_append:
  assumes "cols_ok cols" "0 < n" "length cols + n \<le> 2 ^ 63" "j < 2 ^ 63"
  defines "s \<equiv> if cols = [] then 0 else last cols + 1"
  shows "cols_ok (cols @ iota n s)" "initial_column (cols @ iota n s) j = initial_column cols j"
proof -
  have s: "s \<le> length cols" "s + n \<le> 2 ^ 64" using assms(1,3) by (auto simp: s_def cols_ok_def)
  have ne: "iota n s \<noteq> []" using assms(2) by (cases n) auto
  have lst: "last (cols @ iota n s) = s + (n - 1)" using ne last_iota [OF assms(2) s(2)] by simp
  show ok: "cols_ok (cols @ iota n s)" using s assms(2) lst by (auto simp: cols_ok_def)
  consider "j < length cols" | "length cols \<le> j" "j < length cols + n" | "length cols + n \<le> j" by linarith
  then show "initial_column (cols @ iota n s) j = initial_column cols j"
  proof cases
    case 1
    then show ?thesis by (auto simp: initial_column_def nth_append)
  next
    case 2
    then have "initial_column (cols @ iota n s) j = s + (j - length cols)"
      using nth_iota [of "j - length cols" n s] s ne by (simp add: initial_column_def nth_append)
    moreover have "initial_column cols j = s + (j - length cols)"
    proof (cases "cols = []")
      case False
      then show ?thesis using initial_column_end [OF False assms(1) 2(1)] assms(4) by (simp add: s_def)
    qed (simp add: initial_column_def s_def)
    ultimately show ?thesis by simp
  next
    case 3
    have "initial_column (cols @ iota n s) j = j - (length cols + n) + (s + (n - 1)) + 1"
      using initial_column_end [OF _ ok, of j] 3 assms(4) ne lst by simp
    also have "\<dots> = j - length cols + s" using 3 assms(2) by simp
    also have "\<dots> = initial_column cols j"
    proof (cases "cols = []")
      case False
      then show ?thesis using initial_column_end [OF False assms(1), of j] 3 assms(4) by (simp add: s_def)
    qed (simp add: initial_column_def s_def)
    finally show ?thesis .
  qed
qed

lemma expand_to_ok:
  assumes "cols_ok cols" "2 * length cols + i < 2 ^ 63" "j < 2 ^ 63"
  shows "cols_ok (expand_to cols i)" "i < length (expand_to cols i)" "length (expand_to cols i) \<le> max (length cols) (2 * i + 1)"
    "initial_column (expand_to cols i) j = initial_column cols j"
proof -
  have *: "cols_ok (expand_to cols i) \<and> i < length (expand_to cols i) \<and>
    length (expand_to cols i) \<le> max (length cols) (2 * i + 1) \<and> initial_column (expand_to cols i) j = initial_column cols j"
  proof (cases "i < length cols")
    case True
    then show ?thesis using assms(1) by (simp add: expand_to_def)
  next
    case False
    define n where "n = max (length cols * 2) (i + 1) - length cols"
    have n: "0 < n" "length cols + n = max (length cols * 2) (i + 1)" using False by (auto simp: n_def)
    have "expand_to cols i = cols @ iota n (if cols = [] then 0 else last cols + 1)"
      using False assms(1,2) by (auto simp: expand_to_def Let_def n_def last_conv_nth cols_ok_def incr_def)
    moreover have "length cols + n \<le> 2 ^ 63" using n(2) assms(2) by simp
    ultimately show ?thesis
      using initial_column_append [OF assms(1) n(1) _ assms(3)] n False by (auto simp: max_def)
  qed
  then show "cols_ok (expand_to cols i)" "i < length (expand_to cols i)" "length (expand_to cols i) \<le> max (length cols) (2 * i + 1)"
    "initial_column (expand_to cols i) j = initial_column cols j" by blast+
qed

lemma insert_column_ok:
  assumes "cols_ok cols" "2 * length cols + i < 2 ^ 63" "j < 2 ^ 63"
  defines "cols' \<equiv> (insert_empty_at 0 (expand_to cols i) i)[i := npos]"
  shows "cols_ok cols'" "length cols' \<le> max (length cols) (2 * i + 1) + 1"
    "initial_column cols' j = column_place (Insert_Column i) (initial_column cols) j"
proof -
  let ?e = "expand_to cols i"
  note e = expand_to_ok [OF assms(1,2)]
  have len: "i < length ?e" by (rule e(2) [OF assms(3)])
  then have c: "cols' = take i ?e @ npos # drop i ?e"
    by (simp add: cols'_def insert_empty_at_def list_update_append)
  have l: "length cols' = length ?e + 1" "last cols' = last ?e" using len by (auto simp: c)
  show ok: "cols_ok cols'" using e(1) [OF assms(3)] len l by (auto simp: cols_ok_def)
  show "length cols' \<le> max (length cols) (2 * i + 1) + 1" using e(3) [OF assms(3)] l(1) by simp
  have "initial_column cols' j = column_place (Insert_Column i) (initial_column ?e) j"
  proof -
    consider "j < i" | "j = i" | "i < j" "j < length cols'" | "length cols' \<le> j" by linarith
    then show ?thesis
    proof cases
      case 4
      then have "initial_column cols' j = j - length cols' + last cols' + 1"
        using initial_column_end [OF _ ok, of j] l(1) assms(3) 4 by (cases "cols' = []") auto
      moreover have "initial_column ?e (j - 1) = (j - 1) - length ?e + last ?e + 1"
      proof (rule initial_column_end [OF _ e(1) [OF assms(3)]])
        show "?e \<noteq> []" using len by auto
      qed (use 4 l(1) assms(3) in simp_all)
      ultimately show ?thesis using 4 l len by (auto simp: column_place_def)
    qed (use len in \<open>auto simp: c initial_column_def column_place_def nth_append nth_Cons'\<close>)
  qed
  also have "\<dots> = column_place (Insert_Column i) (initial_column cols) j"
    using e(4) [of j] e(4) [of "j - 1"] assms(3) by (auto simp: column_place_def)
  finally show "initial_column cols' j = column_place (Insert_Column i) (initial_column cols) j" .
qed

lemma move_column_ok:
  assumes "cols_ok cols" "2 * length cols + (max a b + 1) < 2 ^ 63" "a \<noteq> b" "j < 2 ^ 63"
  shows "\<exists>cols'. rotate_to 0 (expand_to cols (max a b + 1)) a b = Some cols' \<and> cols_ok cols' \<and>
    length cols' \<le> max (length cols) (2 * (max a b + 1) + 1) \<and>
    initial_column cols' j = column_place (Move_Column a b) (initial_column cols) j"
proof -
  let ?e = "expand_to cols (max a b + 1)"
  note e = expand_to_ok [OF assms(1,2)]
  have len: "a < length ?e" "b < length ?e" "max a b + 1 < length ?e" using e(2) [OF assms(4)] by auto
  from rotate_to_some [OF assms(3), of 0 ?e] obtain cols' where r: "rotate_to 0 ?e a b = Some cols'" ..
  have l: "length cols' = length ?e" using rotate_to_length(2) [OF r] len by auto
  have nth: "cols' ! k = ?e ! adjust_for_move k b a" if "k < length ?e" for k
  proof -
    have "adjust_for_move k b a < length ?e" using that len by (auto simp: adjust_for_move_def)
    moreover have "nth_default 0 cols' k = nth_default 0 ?e (adjust_for_move k b a)"
      using rotate_to_moves [OF r, of "adjust_for_move k b a"] adjust_for_move_back [of k b a] by simp
    ultimately show ?thesis using that l by (simp add: nth_default_def)
  qed
  have ne: "?e \<noteq> []" "cols' \<noteq> []" using len l by auto
  have lst: "last cols' = last ?e"
    using nth [of "length ?e - 1"] len l ne by (auto simp: last_conv_nth adjust_for_move_def)
  have ok: "cols_ok cols'" using e(1) [OF assms(4)] l lst ne by (auto simp: cols_ok_def)
  have "initial_column cols' j = initial_column ?e (adjust_for_move j b a)"
  proof (cases "j < length ?e")
    case True
    then have "adjust_for_move j b a < length ?e" using len by (auto simp: adjust_for_move_def)
    then show ?thesis using True nth ne l by (simp add: initial_column_def)
  next
    case False
    then have "adjust_for_move j b a = j" using len by (auto simp: adjust_for_move_def)
    then show ?thesis using False ne l lst by (simp add: initial_column_def)
  qed
  also have "adjust_for_move j b a < 2 ^ 63" using assms(2,4) by (auto simp: adjust_for_move_def)
  then have "initial_column ?e (adjust_for_move j b a) = initial_column cols (adjust_for_move j b a)"
    by (rule e(4))
  finally show ?thesis using r ok e(3) [OF assms(4)] l by (simp add: column_place_def)
qed

section \<open>Logs of column changes\<close>

text \<open>The columns of the selected top-level table are being changed.\<close>

definition columns_selected :: "size_t \<Rightarrow> observer \<Rightarrow> bool" where
  "columns_selected t ob \<longleftrightarrow>
     current_table ob = t \<and> is_top_level_table ob \<and> active_descriptor ob = active_table ob \<and>
     (active_table ob = Null \<or> active_table ob = In_Tables t \<and> t < length (tables ob))"

definition column_instr :: "instr \<Rightarrow> bool" where
  "column_instr i =
     (case i of Insert_Column n \<Rightarrow> n < 2 ^ 59 | Insert_Link_Column n \<Rightarrow> n < 2 ^ 59
      | Move_Column a b \<Rightarrow> a \<noteq> b \<and> a < 2 ^ 59 \<and> b < 2 ^ 59 | _ \<Rightarrow> False)"

text \<open>What the tracked lists of the table say: the builder and the first column of each.\<close>

definition first_columns :: "size_t \<Rightarrow> observer \<Rightarrow> (size_t \<times> size_t \<times> size_t) list" where
  "first_columns t ob =
     map (\<lambda>l. (changes_at l, row_ndx l, initial_column (columns_of_table ob t) (col_ndx l)))
       (filter (\<lambda>l. table_ndx l = t) (lists ob))"

lemma at_descriptor:
  assumes "columns_selected t ob"
  shows "\<exists>ob1. at_builder (\<lambda>c. Some (g c)) (active_descriptor ob) (ob\<lparr>schema_changed := True\<rparr>) = Some ob1 \<and>
    columns_selected t ob1 \<and> lists ob1 = lists ob \<and> column_indices ob1 = column_indices ob"
  using assms by (auto simp: columns_selected_def at_builder_def)

lemma with_indices_columns:
  assumes "f (columns_of_table ob (current_table ob)) = Some cols"
  shows "\<exists>cis. with_indices f ob = Some (ob\<lparr>column_indices := cis\<rparr>) \<and>
    columns_of_table (ob\<lparr>column_indices := cis\<rparr>) (current_table ob) = cols"
proof -
  let ?t = "current_table ob"
  let ?cis = "if length (column_indices ob) \<le> ?t then resize [] (?t + 1) (column_indices ob) else column_indices ob"
  have "?t < length ?cis" "?cis ! ?t = columns_of_table ob ?t"
    by (auto simp: columns_of_table_def resize_def nth_append)
  then show ?thesis using assms by (auto simp: with_indices_def Let_def columns_of_table_def)
qed

lemma columns_step:
  assumes sel: "columns_selected t ob" and cols: "f (columns_of_table ob t) = Some cols'"
    and h: "h t = (\<lambda>l. if table_ndx l = t then l\<lparr>col_ndx := p (col_ndx l)\<rparr> else l)"
    and place: "\<And>l. l \<in> set (lists ob) \<Longrightarrow>
      initial_column cols' (p (col_ndx l)) = initial_column (columns_of_table ob t) (col_ndx l)"
  shows "\<exists>ob'. do { ob1 \<leftarrow> at_builder (\<lambda>c. Some (g c)) (active_descriptor ob) (ob\<lparr>schema_changed := True\<rparr>);
      if other_descriptor ob1 then Some ob1
      else with_indices f (map_lists (h (current_table ob1)) ob1) } = Some ob' \<and>
    columns_selected t ob' \<and> columns_of_table ob' t = cols' \<and> first_columns t ob' = first_columns t ob \<and>
    lists ob' = map (h t) (lists ob)"
proof -
  from at_descriptor [OF sel, of g] obtain ob1 where
    1: "at_builder (\<lambda>c. Some (g c)) (active_descriptor ob) (ob\<lparr>schema_changed := True\<rparr>) = Some ob1"
      "columns_selected t ob1" "lists ob1 = lists ob" "column_indices ob1 = column_indices ob" by blast
  let ?F = "\<lambda>l. if table_ndx l = t then l\<lparr>col_ndx := p (col_ndx l)\<rparr> else l"
  let ?ob2 = "map_lists ?F ob1"
  have t: "current_table ob1 = t" "\<not> other_descriptor ob1" using 1(2) by (auto simp: columns_selected_def other_descriptor_def)
  have "columns_of_table ?ob2 t = columns_of_table ob t" using 1(4) by (simp add: columns_of_table_def)
  then have "f (columns_of_table ?ob2 (current_table ?ob2)) = Some cols'" using cols t(1) by simp
  from with_indices_columns [where f = f, OF this] obtain cis where
    2: "with_indices f ?ob2 = Some (?ob2\<lparr>column_indices := cis\<rparr>)" "columns_of_table (?ob2\<lparr>column_indices := cis\<rparr>) t = cols'"
    using t(1) by auto
  let ?ob' = "?ob2\<lparr>column_indices := cis\<rparr>"
  have sel': "columns_selected t ?ob'" using 1(2) by (simp add: columns_selected_def map_lists_def)
  have l: "lists ?ob' = map ?F (lists ob)" using 1(3) by simp
  have "first_columns t ?ob' = first_columns t ob"
  proof -
    have fl: "filter (\<lambda>l. table_ndx l = t) (map ?F (lists ob)) = map ?F (filter (\<lambda>l. table_ndx l = t) (lists ob))"
      by (simp add: filter_map comp_def if_distrib cong: if_cong)
    show ?thesis unfolding first_columns_def 2(2) l fl using place by (auto simp: comp_def)
  qed
  then show ?thesis using 1(1) 2 t sel' l by (auto simp: h)
qed

lemma insert_column_step:
  assumes sel: "columns_selected t ob" and cols: "cols_ok (columns_of_table ob t)"
    "length (columns_of_table ob t) \<le> 2 ^ 61" and n: "n < 2 ^ 59" and ls: "\<forall>l \<in> set (lists ob). col_ndx l < 2 ^ 62"
  shows "\<exists>ob'. insert_column n ob = Some ob' \<and> columns_selected t ob' \<and>
    columns_of_table ob' t = (insert_empty_at 0 (expand_to (columns_of_table ob t) n) n)[n := npos] \<and>
    first_columns t ob' = first_columns t ob \<and>
    lists ob' = map (\<lambda>l. if table_ndx l = t \<and> n \<le> col_ndx l then l\<lparr>col_ndx := col_ndx l + 1\<rparr> else l) (lists ob)"
  unfolding insert_column_def
proof (rule columns_step [OF sel refl,
    where h = "\<lambda>t l. if table_ndx l = t \<and> n \<le> col_ndx l then l\<lparr>col_ndx := col_ndx l + 1\<rparr> else l"])
  show "(\<lambda>l. if table_ndx l = t \<and> n \<le> col_ndx l then l\<lparr>col_ndx := col_ndx l + 1\<rparr> else l) =
    (\<lambda>l. if table_ndx l = t then l\<lparr>col_ndx := if n \<le> col_ndx l then col_ndx l + 1 else col_ndx l\<rparr> else l)"
    by (rule ext) simp
next
  fix l assume "l \<in> set (lists ob)"
  then show "initial_column ((insert_empty_at 0 (expand_to (columns_of_table ob t) n) n)[n := npos])
      (if n \<le> col_ndx l then col_ndx l + 1 else col_ndx l) = initial_column (columns_of_table ob t) (col_ndx l)"
    using insert_column_ok(3) [OF cols(1), of n "if n \<le> col_ndx l then col_ndx l + 1 else col_ndx l"] cols(2) n ls
    by (auto simp: column_place_def split: if_splits)
qed

lemma move_column_step:
  assumes sel: "columns_selected t ob" and cols: "cols_ok (columns_of_table ob t)"
    "length (columns_of_table ob t) \<le> 2 ^ 61" and n: "a \<noteq> b" "a < 2 ^ 59" "b < 2 ^ 59"
    and ls: "\<forall>l \<in> set (lists ob). col_ndx l < 2 ^ 62"
    and r: "rotate_to 0 (expand_to (columns_of_table ob t) (max a b + 1)) a b = Some cols'"
  shows "\<exists>ob'. move_column a b ob = Some ob' \<and> columns_selected t ob' \<and> columns_of_table ob' t = cols' \<and>
    first_columns t ob' = first_columns t ob \<and>
    lists ob' = map (\<lambda>l. if table_ndx l = t then l\<lparr>col_ndx := adjust_for_move (col_ndx l) a b\<rparr> else l) (lists ob)"
  unfolding move_column_def
proof (rule columns_step [where f = "\<lambda>cols. rotate_to 0 (expand_to cols (max a b + 1)) a b", OF sel r,
    where h = "\<lambda>t l. if table_ndx l = t then l\<lparr>col_ndx := adjust_for_move (col_ndx l) a b\<rparr> else l", OF refl])
  fix l assume "l \<in> set (lists ob)"
  then have c: "col_ndx l < 2 ^ 62" using ls by simp
  then have "adjust_for_move (col_ndx l) a b < 2 ^ 63" using n by (auto simp: adjust_for_move_def)
  from move_column_ok [OF cols(1) _ n(1) this] cols(2) n r
  show "initial_column cols' (adjust_for_move (col_ndx l) a b) = initial_column (columns_of_table ob t) (col_ndx l)"
    by (auto simp: column_place_def adjust_for_move_back)
qed

definition column_stepped :: "nat \<Rightarrow> size_t \<Rightarrow> instr \<Rightarrow> observer \<Rightarrow> observer \<Rightarrow> bool" where
  "column_stepped K t i ob ob' \<longleftrightarrow>
     observe K i ob = Inr ob' \<and> columns_selected t ob' \<and> cols_ok (columns_of_table ob' t) \<and>
     first_columns t ob' = first_columns t ob \<and>
     length (columns_of_table ob' t) \<le> max (length (columns_of_table ob t)) (2 ^ 60 + 3) + 1 \<and>
     (\<forall>n. (\<forall>l \<in> set (lists ob). col_ndx l \<le> n) \<longrightarrow> 2 ^ 59 \<le> n \<longrightarrow> (\<forall>l \<in> set (lists ob'). col_ndx l \<le> n + 1)) \<and>
     (\<forall>j < 2 ^ 63. initial_column (columns_of_table ob' t) j = column_place i (initial_column (columns_of_table ob t)) j)"

lemma insert_column_stepped:
  assumes "columns_selected t ob" "cols_ok (columns_of_table ob t)"
    "length (columns_of_table ob t) \<le> 2 ^ 61" "n < 2 ^ 59" "\<forall>l \<in> set (lists ob). col_ndx l < 2 ^ 62"
    and i: "i = Insert_Column n \<or> i = Insert_Link_Column n"
  shows "\<exists>ob'. column_stepped K t i ob ob'"
proof -
  let ?cols = "columns_of_table ob t"
  from insert_column_step [OF assms(1-5)] obtain ob' where
    1: "insert_column n ob = Some ob'" "columns_selected t ob'" "first_columns t ob' = first_columns t ob"
      "columns_of_table ob' t = (insert_empty_at 0 (expand_to ?cols n) n)[n := npos]"
      "lists ob' = map (\<lambda>l. if table_ndx l = t \<and> n \<le> col_ndx l then l\<lparr>col_ndx := col_ndx l + 1\<rparr> else l) (lists ob)"
    by blast
  have "2 * length ?cols + n < 2 ^ 63" using assms(3,4) by simp
  note ok = insert_column_ok [OF assms(2) this, folded 1(4)]
  have place: "column_place i = column_place (Insert_Column n)" using i by (auto simp: column_place_def fun_eq_iff)
  have "observe K i ob = Inr ob'" using i 1(1) by (auto simp: observe_def or_assertion_def)
  moreover have "length (columns_of_table ob' t) \<le> max (length ?cols) (2 ^ 60 + 3) + 1"
    using ok(2) [of 0] assms(4) by auto
  moreover have "\<forall>l \<in> set (lists ob'). col_ndx l \<le> m + 1" if "\<forall>l \<in> set (lists ob). col_ndx l \<le> m" for m
    using that unfolding 1(5) by fastforce
  ultimately show ?thesis using 1(2,3) ok(1) [of 0] ok(3) place by (auto simp: column_stepped_def)
qed

lemma move_column_stepped:
  assumes "columns_selected t ob" "cols_ok (columns_of_table ob t)" "length (columns_of_table ob t) \<le> 2 ^ 61"
    "a \<noteq> b" "a < 2 ^ 59" "b < 2 ^ 59" "\<forall>l \<in> set (lists ob). col_ndx l < 2 ^ 62"
  shows "\<exists>ob'. column_stepped K t (Move_Column a b) ob ob'"
proof -
  let ?cols = "columns_of_table ob t"
  from rotate_to_some [OF assms(4), of 0 "expand_to ?cols (max a b + 1)"] obtain cols' where
    r: "rotate_to 0 (expand_to ?cols (max a b + 1)) a b = Some cols'" ..
  from move_column_step [OF assms r] obtain ob' where
    1: "move_column a b ob = Some ob'" "columns_selected t ob'" "first_columns t ob' = first_columns t ob"
      "columns_of_table ob' t = cols'"
      "lists ob' = map (\<lambda>l. if table_ndx l = t then l\<lparr>col_ndx := adjust_for_move (col_ndx l) a b\<rparr> else l) (lists ob)"
    by blast
  have "2 * length ?cols + (max a b + 1) < 2 ^ 63" using assms(3,5,6) by simp
  from move_column_ok [OF assms(2) this assms(4)] r 1(4) have
    ok: "j < 2 ^ 63 \<Longrightarrow> cols_ok (columns_of_table ob' t) \<and>
      length (columns_of_table ob' t) \<le> max (length ?cols) (2 * (max a b + 1) + 1) \<and>
      initial_column (columns_of_table ob' t) j = column_place (Move_Column a b) (initial_column ?cols) j" for j by auto
  have "observe K (Move_Column a b) ob = Inr ob'" using 1(1) by (simp add: observe_def or_assertion_def)
  moreover have "length (columns_of_table ob' t) \<le> max (length ?cols) (2 ^ 60 + 3) + 1"
    using ok [of 0] assms(5,6) by auto
  moreover have "\<forall>l \<in> set (lists ob'). col_ndx l \<le> m + 1" if "\<forall>l \<in> set (lists ob). col_ndx l \<le> m" "2 ^ 59 \<le> m" for m
  proof -
    have "adjust_for_move c a b \<le> m + 1" if "c \<le> m" for c
      using that \<open>2 ^ 59 \<le> m\<close> assms(6) by (auto simp: adjust_for_move_def)
    then show ?thesis using that(1) unfolding 1(5) by fastforce
  qed
  ultimately show ?thesis using 1(2,3) ok [of 0] ok by (auto simp: column_stepped_def)
qed

lemma column_step:
  assumes "columns_selected t ob" "column_instr i" "cols_ok (columns_of_table ob t)"
    "length (columns_of_table ob t) \<le> 2 ^ 61" "\<forall>l \<in> set (lists ob). col_ndx l < 2 ^ 62"
  shows "\<exists>ob'. column_stepped K t i ob ob'"
  using insert_column_stepped [OF assms(1,3,4) _ assms(5)] move_column_stepped [OF assms(1,3,4) _ _ _ assms(5)] assms(2)
  by (cases i) (auto simp: column_instr_def)

lemma column_place_agree:
  assumes "column_instr i" "\<forall>j < 2 ^ 63. f j = g j" "j < 2 ^ 63"
  shows "column_place i f j = column_place i g j"
proof -
  have "adjust_for_move j b a < 2 ^ 63" if "i = Move_Column a b" for a b
    using that assms(1,3) by (auto simp: column_instr_def adjust_for_move_def)
  then show ?thesis using assms by (auto simp: column_place_def split: instr.split)
qed

lemma fold_place_agree:
  "list_all column_instr log \<Longrightarrow> \<forall>j < 2 ^ 63. f j = g j \<Longrightarrow> \<forall>j < 2 ^ 63. fold column_place log f j = fold column_place log g j"
proof (induction log arbitrary: f g)
  case (Cons i log)
  then have "\<forall>j < 2 ^ 63. column_place i f j = column_place i g j" using column_place_agree by auto
  then show ?case using Cons by simp
qed simp

lemma column_log:
  assumes "columns_selected t ob" "list_all column_instr log" "cols_ok (columns_of_table ob t)"
    "length (columns_of_table ob t) + length log \<le> 2 ^ 61" "length log \<le> 2 ^ 59"
    "\<forall>l \<in> set (lists ob). col_ndx l + length log < 2 ^ 62"
  shows "\<exists>ob'. observe_log K log ob = Inr ob' \<and> first_columns t ob' = first_columns t ob \<and>
    (\<forall>j < 2 ^ 63. initial_column (columns_of_table ob' t) j = fold column_place log (initial_column (columns_of_table ob t)) j)"
  using assms
proof (induction log arbitrary: ob)
  case (Cons i log)
  let ?cols = "columns_of_table ob t"
  have "\<forall>l \<in> set (lists ob). col_ndx l < 2 ^ 62" "length ?cols \<le> 2 ^ 61" "column_instr i"
    using Cons.prems(2,4,6) by auto
  with column_step [OF Cons.prems(1) _ Cons.prems(3)] obtain ob1 where "column_stepped K t i ob ob1" by blast
  then have 1: "observe K i ob = Inr ob1" "columns_selected t ob1" "cols_ok (columns_of_table ob1 t)"
    "first_columns t ob1 = first_columns t ob"
    "length (columns_of_table ob1 t) \<le> max (length ?cols) (2 ^ 60 + 3) + 1"
    "\<And>n. \<forall>l \<in> set (lists ob). col_ndx l \<le> n \<Longrightarrow> 2 ^ 59 \<le> n \<Longrightarrow> \<forall>l \<in> set (lists ob1). col_ndx l \<le> n + 1"
    "\<forall>j < 2 ^ 63. initial_column (columns_of_table ob1 t) j = column_place i (initial_column ?cols) j"
    unfolding column_stepped_def by blast+
  have "\<forall>l \<in> set (lists ob). col_ndx l \<le> 2 ^ 62 - length log - 2" using Cons.prems(6) by auto
  from 1(6) [OF this] have "\<forall>l \<in> set (lists ob1). col_ndx l + length log < 2 ^ 62" using Cons.prems(5) by fastforce
  moreover have "length (columns_of_table ob1 t) + length log \<le> 2 ^ 61" "length log \<le> 2 ^ 59"
    using 1(5) Cons.prems(4,5) by auto
  moreover have "list_all column_instr log" using Cons.prems(2) by simp
  ultimately obtain ob' where 2: "observe_log K log ob1 = Inr ob'" "first_columns t ob' = first_columns t ob1"
    "\<forall>j < 2 ^ 63. initial_column (columns_of_table ob' t) j = fold column_place log (initial_column (columns_of_table ob1 t)) j"
    using Cons.IH [OF 1(2) _ 1(3)] by blast
  then show ?case using 1(1,4) fold_place_agree [OF \<open>list_all column_instr log\<close> 1(7)] by simp
qed simp

end
