(* ===== verification/Log_Props.thy ===== *)
theory Log_Props
  imports Log_Laws Log_Lists Log_Schema Change_Props
begin

text \<open>
  The properties of the transaction log handler, each with a witness on a small table.
\<close>

section \<open>Rows\<close>


text \<open>Rows 10, 20, 30: the second is erased and the last row takes its place, a row is added and written to.\<close>

definition sample_log :: "instr list" where
  "sample_log = [Erase_Rows 1 3 True, Insert_Empty_Rows 2 1 2, Set_Value Int_Value 0 2 Instr_Set]"

lemma sample_log_effects: "row_effects (set [10, 20, 30 :: nat]) sample_log [10, 20, 30] {} [10, 30, 40] {40}"
proof -
  let ?U = "set [10, 20, 30 :: nat]"
  have 1: "row_effect ?U (Erase_Rows 1 3 True) [10, 20, 30] {} [10, 30] {}"
    using row_effect.erase_row [of 1 "[10, 20, 30 :: nat]" ?U "{}"] by (simp add: moved_over_def numeral_3_eq_3)
  have 2: "row_effect ?U (Insert_Empty_Rows 2 1 2) [10, 30] {} [10, 30, 40] {}"
    using row_effect.insert_rows [of "[40 :: nat]" ?U "[10, 30]" "{}"] by (simp add: npos_def flip: numeral_2_eq_2)
  have 3: "row_effect ?U (Set_Value Int_Value 0 2 Instr_Set) [10, 30, 40] {} [10, 30, 40] {40}"
    using row_effect.set_value [of 2 "[10, 30, 40 :: nat]" ?U Int_Value 0 "{}"] by simp
  show ?thesis unfolding sample_log_def
    by (rule row_effects.more [OF 1 row_effects.more [OF 2 row_effects.more [OF 3 row_effects.none]]])
qed

definition sample_info :: change_info where
  "sample_info = no_change_info\<lparr>table_modifications_needed := [True], table_moves_needed := [True]\<rparr>"

lemma sample_info_ok: "wanted sample_info 0" "fresh_info sample_info 0"
  by (simp_all add: sample_info_def wanted_def fresh_info_def no_change_info_def needed_def)


section \<open>Observed rows\<close>

lemma observed_rows:
  assumes "t < length (tables ob)" "table_indices ob = []" "observed_table os = t" "observed_row os < length old"
    "ccb_ok K (tables ob ! t)" "wf_changes old new (abs_ccb (tables ob ! t))"
    "sorted (map mv_from (moves (tables ob ! t)))" "moves_known old new (tables ob ! t)" "distinct old"
    "indices (modifications (tables ob ! t)) = {k. k < length new \<and> new ! k \<in> M}"
  shows "snd (observe_row ob os) = (if old ! observed_row os \<in> set new then [] else [observer_tag os])"
    "old ! observed_row os \<notin> M \<inter> set new \<Longrightarrow> fst (observe_row ob os) = os"
proof -
  let ?c = "tables ob ! t"
  note f = new_row_found [OF assms(5-9,4)]
  have t: "new_table_ndx ob (observed_table os) = t" using assms(2,3) by (simp add: new_table_ndx_def)
  have m: "contains (modifications ?c) k \<longleftrightarrow> k < length new \<and> new ! k \<in> M" for k
    using ixs.mem [OF ok_rep(3) [OF assms(5)], of k] assms(10) by (simp add: abs_ccb_def)
  show "snd (observe_row ob os) = (if old ! observed_row os \<in> set new then [] else [observer_tag os])"
    "old ! observed_row os \<notin> M \<inter> set new \<Longrightarrow> fst (observe_row ob os) = os"
    using f assms(1) by (auto simp: observe_row_def t Let_def m in_set_conv_nth split: option.splits)
qed

lemma adapter_rows:
  assumes "obs \<noteq> []" "\<forall>os \<in> set obs. observed_table os = t" "\<forall>c \<in> set (types t). c = Value_Column"
  shows "\<exists>info. kvo_adapter types sizes obs = (info, []) \<and> wanted info t \<and> fresh_info info 0"
proof -
  have l: "lists_of types sizes k os = []" if "observed_table os = t" for k os
  proof -
    have "types t ! i = Value_Column" if "i < length (types t)" for i using assms(3) that by simp
    then show ?thesis using that by (auto simp: lists_of_def)
  qed
  have "map observed_table obs = replicate (length obs) t" using assms(2) by (intro replicate_eqI) auto
  then have n: "remdups_adj (sort (map observed_table obs)) = [t]"
    using assms(1) by (simp add: sorted_sort_id remdups_adj_replicate)
  have "concat (map (\<lambda>k. lists_of types sizes k (obs ! k)) [0..<length obs]) = []" using l assms(2) by auto
  then show ?thesis using assms(1)
    by (auto simp: kvo_adapter_def n Let_def wanted_def fresh_info_def needed_def no_change_info_def)
qed



section \<open>Tracked lists\<close>

lemma at_builder_same:
  assumes "at_builder f p ob = Some ob'"
  shows "lists ob' = lists ob" "current_table ob' = current_table ob" "is_top_level_table ob' = is_top_level_table ob"
    "active_table ob' = active_table ob"
  using assms by (auto simp: at_builder_def split: builder_ptr.splits if_splits bind_splits)

lemma or_assertion_Inr: "or_assertion r = Inr x \<longleftrightarrow> r = Some x"
  by (cases r) simp_all

definition lists_stay :: "size_t \<Rightarrow> 'a list \<Rightarrow> list_change_info list \<Rightarrow> 'a list \<Rightarrow> list_change_info list \<Rightarrow> bool" where
  "lists_stay t xs ls ys ls' \<longleftrightarrow>
     on_rows t ys ls' \<and> mset (map (watch t ys) ls') = mset (filter (survives (set ys)) (map (watch t xs) ls))"

lemma lists_stay_same: "on_rows t xs ls \<Longrightarrow> lists_stay t xs ls xs ls"
  by (auto simp: lists_stay_def on_rows_def survives_def watch_def filter_id_conv simp flip: mset_filter
      intro!: arg_cong [of _ _ mset] split: option.splits)

lemma insert_rows_follow:
  assumes "insert_empty_rows K (length xs) (length ws) ob = Some ob'" "is_top_level_table ob" "distinct xs"
    "on_rows (current_table ob) xs (lists ob)"
  shows "lists_stay (current_table ob) xs (lists ob) (xs @ ws) (lists ob')"
proof -
  have "lists ob' = List.map_filter (relocate (current_table ob) (\<lambda>i. Some (bump (length xs) (length ws) i))) (lists ob)"
    using assms(1,2) at_builder_same unfolding insert_empty_rows_def
    by (auto simp: insert_relocates split: bind_splits)
  then show ?thesis using inserting.lists_follow [OF _ assms(3,4), of "length xs" ws]
    by (simp add: lists_stay_def inserted_at_def)
qed

lemma erase_row_follows:
  assumes "erase_rows K r (length xs) True ob = Some ob'" "is_top_level_table ob" "distinct xs" "r < length xs"
    "on_rows (current_table ob) xs (lists ob)" "erasable (current_table ob) r (length xs - 1) (lists ob)"
  shows "lists_stay (current_table ob) xs (lists ob) (moved_over r xs) (lists ob')"
proof -
  let ?t = "current_table ob" and ?z = "length xs - 1"
  have "xs \<noteq> []" using assms(4) by auto
  then have l: "lists ob' = erase_lists ?t r ?z 0 (lists ob)"
    using assms(1,2) at_builder_same unfolding erase_rows_def by (auto simp: Let_def split: bind_splits)
  let ?f = "List.map_filter (relocate ?t (erased_pos r ?z)) (lists ob)"
  have m: "mset (lists ob') = mset ?f" unfolding l by (rule erase_relocates [OF assms(6)])
  then have s: "set (lists ob') = set ?f" by (rule mset_eq_setD)
  have "r < length xs \<and> ?z = length xs - 1" using assms(4) by simp
  note e = erasing.lists_follow [OF this assms(3,5)]
  have "on_rows ?t (moved_over r xs) (lists ob')" using e(1) unfolding on_rows_def s .
  moreover have "mset (map (watch ?t (moved_over r xs)) (lists ob')) = mset (map (watch ?t (moved_over r xs)) ?f)"
    using m by simp
  ultimately show ?thesis unfolding lists_stay_def e(2) by blast
qed

lemma swap_rows_follow:
  assumes "Log_Handler.swap_rows K a b ob = Some ob'" "is_top_level_table ob" "distinct xs" "a < b" "b < length xs"
    "on_rows (current_table ob) xs (lists ob)"
  shows "lists_stay (current_table ob) xs (lists ob) (swapped a b xs) (lists ob')"
proof -
  have "lists ob' = List.map_filter (relocate (current_table ob) (\<lambda>i. Some (exchange a b i))) (lists ob)"
    using assms(1,2,4) at_builder_same unfolding Log_Handler.swap_rows_def
    by (auto simp: swap_relocates split: bind_splits)
  then show ?thesis using swapping.lists_follow [OF _ assms(3,6), of a b] assms(4,5) by (simp add: lists_stay_def)
qed

lemma mark_keeps_lists: "mark_dirty_instr K r c w ob = Some ob' \<Longrightarrow> lists ob' = lists ob"
  by (auto simp: mark_dirty_instr_def mark_dirty_def at_builder_same split: if_splits)


definition sample_lists :: "list_change_info list" where
  "sample_lists = [\<lparr>table_ndx = 0, row_ndx = 2, col_ndx = 1, changes_at = 0\<rparr>,
     \<lparr>table_ndx = 0, row_ndx = 1, col_ndx = 1, changes_at = 1\<rparr>]"

definition sample_observer :: observer where
  "sample_observer = observer_init (no_change_info\<lparr>lists := sample_lists\<rparr>) [ccb_init, ccb_init]"

lemma sample_erase:
  "observe 4 (Erase_Rows 1 3 True) sample_observer =
     Inr (sample_observer\<lparr>lists := [\<lparr>table_ndx = 0, row_ndx = 1, col_ndx = 1, changes_at = 0\<rparr>]\<rparr>)"
  by (simp add: sample_observer_def observer_init_def observe_def erase_rows_def at_builder_def sample_lists_def
      no_change_info_def change_info.defs erase_lists.simps)



section \<open>Schema changes\<close>



text \<open>C30: The map from present to first columns under any sequence of column insertions and moves is the one that places every
  column by hand, and the tracked lists stay with their first columns.\<close>

theorem initial_columns_tracked:
  assumes "columns_selected t ob" "columns_of_table ob t = []" "list_all column_instr log" "length log \<le> 2 ^ 59"
    "\<forall>l \<in> set (lists ob). col_ndx l < 2 ^ 61"
  shows "\<exists>ob'. observe_log K log ob = Inr ob' \<and> first_columns t ob' = first_columns t ob \<and>
    (\<forall>j < 2 ^ 63. initial_column (columns_of_table ob' t) j = fold column_place log (\<lambda>j. j) j)"
proof -
  have "\<forall>l \<in> set (lists ob). col_ndx l + length log < 2 ^ 62" using assms(4,5) by fastforce
  moreover have "initial_column [] = (\<lambda>j. j)" by (simp add: initial_column_def fun_eq_iff)
  ultimately show ?thesis
    using column_log [OF assms(1,3) _ _ assms(4), of K] assms(2,4) by (simp add: cols_ok_def)
qed

theorem initial_columns_tracked_witness:
  "\<exists>ob'. observe_log 4 [Insert_Column 0, Move_Column 2 0] sample_observer = Inr ob' \<and>
     initial_column (columns_of_table ob' 0) 0 = 1 \<and> initial_column (columns_of_table ob' 0) 1 = npos"
  using initial_columns_tracked [of 0 sample_observer "[Insert_Column 0, Move_Column 2 0]" 4]
  by (fastforce simp: columns_selected_def sample_observer_def observer_init_def sample_lists_def no_change_info_def
      change_info.defs columns_of_table_def column_instr_def column_place_def adjust_for_move_def)

text \<open>The map from present to first columns does not follow a table: after the insertion of a table in front the map of
  the table is found at its old place, and its new place has none.\<close>

theorem column_map_left_behind:
  "new_table_ndx (insert_group_level_table 0 (ob\<lparr>table_indices := [0], column_indices := [[npos, 0]]\<rparr>)) 0 = 1 \<and>
   columns_of_table (insert_group_level_table 0 (ob\<lparr>table_indices := [0], column_indices := [[npos, 0]]\<rparr>)) 1 = [] \<and>
   columns_of_table (insert_group_level_table 0 (ob\<lparr>table_indices := [0], column_indices := [[npos, 0]]\<rparr>)) 0 = [npos, 0]"
  by (simp add: insert_group_level_table_def Let_def new_table_ndx_def columns_of_table_def adjust_ge_def
      prepare_table_indices_def set_tables_def map_lists_def)

section \<open>Validation\<close>

lemma map_lists_table: "current_table (map_lists f ob) = current_table ob"
  by simp

lemma with_indices_table: "with_indices f ob = Some ob' \<Longrightarrow> current_table ob' = current_table ob"
  by (auto simp: with_indices_def Let_def split: bind_splits)

lemma mark_table: "mark_dirty K r c ob = Some ob' \<Longrightarrow> current_table ob' = current_table ob"
  by (simp add: mark_dirty_def at_builder_same)

lemma select_table_current: "select_table K t path ob = Some ob' \<Longrightarrow> current_table ob' = t"
  by (auto simp: select_table_def Let_def dest!: mark_table split: if_splits list.splits bind_splits)

lemmas operation_defs = mark_dirty_instr_def add_row_with_key_def insert_empty_rows_def erase_rows_def
  Log_Handler.swap_rows_def move_row_def merge_rows_def clear_table_def link_list_set_def link_list_insert_def
  link_list_erase_def link_list_clear_def link_list_move_def link_list_swap_def select_link_list_def
  insert_column_def move_column_def move_group_level_table_def

lemmas keep_table = at_builder_same(2) mark_table with_indices_table

lemma observe_validates:
  assumes "observe K i ob = r"
  shows "(\<forall>ob'. r = Inr ob' \<longrightarrow> validate_instr i (current_table ob) = Inr (current_table ob')) \<and>
   (r = Inl Unsupported_Schema_Change \<longrightarrow> validate_instr i (current_table ob) = Inl Unsupported_Schema_Change)"
proof (cases "validate_instr i (current_table ob)")
  case (Inl e)
  then show ?thesis using assms
    by (auto simp: validate_instr_def log_schema_error_def observe_def split: instr.splits)
next
  case (Inr c)
  have no: "or_assertion q \<noteq> Inl Unsupported_Schema_Change" for q :: "observer option" by (cases q) simp_all
  show ?thesis
  proof (intro conjI allI impI)
    fix ob' assume "r = Inr ob'"
    then show "validate_instr i (current_table ob) = Inr (current_table ob')"
      using assms Inr
      by (cases i) (auto simp: observe_def validate_instr_def or_assertion_Inr log_schema_error_def select_table_current
          select_descriptor_def insert_group_level_table_def operation_defs Let_def map_lists_table
          dest!: keep_table split: bind_splits if_splits)
  next
    assume "r = Inl Unsupported_Schema_Change"
    then show "validate_instr i (current_table ob) = Inl Unsupported_Schema_Change"
      using assms by (cases i) (auto simp: observe_def validate_instr_def log_schema_error_def no)
  qed
qed

definition unsupported :: "instr \<Rightarrow> bool" where
  "unsupported i \<longleftrightarrow> (\<exists>x. i = Erase_Group_Level_Table x \<or> i = Rename_Group_Level_Table x \<or> i = Erase_Column x \<or>
     i = Erase_Link_Column x \<or> i = Rename_Column x)"

lemma validate_unsupported:
  "validate_instr i c = Inl e \<longleftrightarrow> unsupported i \<and> e = Unsupported_Schema_Change"
  by (cases i) (auto simp: validate_instr_def log_schema_error_def unsupported_def)


end
