(* ===== verification/Log_Kvo_Props.thy ===== *)
theory Log_Kvo_Props
  imports Log_Kvo Change_Props
begin

text \<open>
  How the key-value adapter reports the changes of an observed list: a single move, where the reported
  rows are the ones whose contents changed, and two moves, where some are missed.
\<close>

lemma ranges_single:
  assumes "ranges_ok rs" "span rs = {a}"
  shows "rs = [(a, Suc a)]"
proof -
  obtain r rest where rs: "rs = r # rest" using assms(2) by (cases rs) auto
  obtain x y where r: "r = (x, y)" by (cases r)
  have xy: "x < y" using assms(1) rs r by (cases rest) auto
  then have "x \<in> span rs" "y - 1 \<in> span rs" by (auto simp: rs r)
  then have e: "x = a" "y = Suc a" using assms(2) xy by auto
  have "rest = []"
  proof (cases rest)
    case (Cons q qs)
    obtain u v where q: "q = (u, v)" by (cases q)
    have "y < u" "u < v" using assms(1) rs r Cons q by (cases qs; auto)+
    then have "u \<in> span rs" by (simp add: rs Cons q)
    then show ?thesis using assms(2) e \<open>y < u\<close> by auto
  qed
  then show ?thesis using rs r e by simp
qed

lemma in_range_single: "in_range [(a, Suc a)] i = (i = a, if Suc a \<le> i then [] else [(a, Suc a)])"
  by (auto simp: in_range_def)

lemma in_range_Nil [simp]: "in_range [] i = (False, [])"
  by (simp add: in_range_def)

lemma shifted_rows_down:
  assumes "rep K s S" "dels = [] \<or> dels = [(a, Suc a)] \<and> Suc a \<le> i" "i + n = Suc b" "0 < i"
  shows "\<exists>s'. add_shifted_rows K n i dels [(b, Suc b)] (- 1) s = Some s' \<and> rep K s' (S \<union> {i..b})"
  using assms
proof (induction n arbitrary: i dels s S)
  case 0
  then show ?case by auto
next
  case (Suc n)
  from ixs.ins [OF Suc.prems(1), of i] obtain s1 where s1: "add K s i = Some s1" "rep K s1 (insert i S)" by blast
  have d: "in_range dels i = (False, [])" using Suc.prems(2) by (auto simp: in_range_single)
  have b: "i \<le> b" using Suc.prems(3) by simp
  have "i - 1 < b" using b Suc.prems(4) by simp
  then have "in_range [(b, Suc b)] (add_off i (- 1)) = (False, [(b, Suc b)])" by (simp add: in_range_single)
  moreover from Suc.IH [OF s1(2), of "[]" "i + 1"] Suc.prems(3) obtain s' where
    "add_shifted_rows K n (i + 1) [] [(b, Suc b)] (- 1) s1 = Some s'" "rep K s' (insert i S \<union> {i + 1..b})" by auto
  moreover have "insert i S \<union> {i + 1..b} = S \<union> {i..b}" using b by auto
  ultimately show ?case using s1(1) d by simp
qed

lemma shifted_rows_up:
  assumes "rep K s S" "inss = [] \<or> inss = [(b, Suc b)] \<and> b \<le> i" "i + n = Suc a"
  shows "\<exists>s'. add_shifted_rows K n i [(a, Suc a)] inss 1 s = Some s' \<and> rep K s' (S \<union> {i..<a})"
  using assms
proof (induction n arbitrary: i inss s S)
  case 0
  then show ?case by auto
next
  case (Suc n)
  show ?case
  proof (cases "i = a")
    case True
    then show ?thesis using Suc.prems by (simp add: in_range_single)
  next
    case False
    then have lt: "i < a" using Suc.prems(3) by simp
    from ixs.ins [OF Suc.prems(1), of i] obtain s1 where s1: "add K s i = Some s1" "rep K s1 (insert i S)" by blast
    have d: "in_range [(a, Suc a)] i = (False, [(a, Suc a)])" using lt by (simp add: in_range_single)
    have "in_range inss (add_off i 1) = (False, [])" using Suc.prems(2) by (auto simp: in_range_single)
    moreover from Suc.IH [OF s1(2), of "[]" "i + 1"] Suc.prems(3) obtain s' where
      "add_shifted_rows K n (i + 1) [(a, Suc a)] [] 1 s1 = Some s'" "rep K s' (insert i S \<union> {i + 1..<a})" by auto
    moreover have "insert i S \<union> {i + 1..<a} = S \<union> {i..<a}" using lt by auto
    ultimately show ?thesis using s1(1) d by simp
  qed
qed

lemma moves_as_sets_single:
  assumes c: "ccb_ok K b" and D: "indices (deletions b) = {x}" and I: "indices (insertions b) = {y}" and ne: "x \<noteq> y"
  shows "\<exists>s. moves_as_sets K b = Some s \<and> indices s = indices (modifications b) \<union> {min x y..max x y}"
proof -
  have r: "rep K (deletions b) {x}" "rep K (insertions b) {y}" "rep K (modifications b) (indices (modifications b))"
    using c D I by (auto simp: ccb_ok_def rep_def)
  have f: "flat (deletions b) = [(x, Suc x)]" "flat (insertions b) = [(y, Suc y)]"
    using r(1,2) ranges_single by (auto simp: rep_def vec_ok_def indices_def)
  from rep_add_set [OF r(3,1)] obtain s0 where
    s0: "add_set K (modifications b) (deletions b) = Some s0" "rep K s0 (indices (modifications b) \<union> {x})" by blast
  let ?M = "indices (modifications b)"
  consider "x < y" | "y < x" using ne by linarith
  then show ?thesis
  proof cases
    case 1
    from ixs.ins [OF s0(2), of x] obtain s1 where s1: "add K s0 x = Some s1" "rep K s1 (insert x (?M \<union> {x}))" by blast
    from shifted_rows_down [OF s1(2), of "[(x, Suc x)]" x "x + 1" "y - x" y] 1 obtain s' where
      "add_shifted_rows K (y - x) (x + 1) [(x, Suc x)] [(y, Suc y)] (- 1) s1 = Some s'"
      "rep K s' (insert x (?M \<union> {x}) \<union> {x + 1..y})" by auto
    moreover have "insert x (?M \<union> {x}) \<union> {x + 1..y} = ?M \<union> {x..y}" using 1 by auto
    moreover have "Suc y - x = Suc (y - x)" using 1 by simp
    ultimately show ?thesis
      using 1 s0(1) s1(1) by (auto simp: moves_as_sets_def f Let_def in_range_single rep_def min_def max_def)
  next
    case 2
    from ixs.ins [OF s0(2), of y] obtain s1 where s1: "add K s0 y = Some s1" "rep K s1 (insert y (?M \<union> {x}))" by blast
    from shifted_rows_up [OF s1(2), of "[(y, Suc y)]" y "y + 1" "x - y" x] 2 obtain s' where
      "add_shifted_rows K (x - y) (y + 1) [(x, Suc x)] [(y, Suc y)] 1 s1 = Some s'"
      "rep K s' (insert y (?M \<union> {x}) \<union> {y + 1..<x})" by auto
    moreover have "insert y (?M \<union> {x}) \<union> {y + 1..<x} = ?M \<union> {y..x}" using 2 by auto
    moreover have "Suc x - y = Suc (x - y)" using 2 by simp
    ultimately show ?thesis
      using 2 s0(1) s1(1) by (auto simp: moves_as_sets_def f Let_def in_range_single rep_def min_def max_def)
  qed
qed

lemma rank_outside:
  fixes i x y :: size_t
  assumes "i \<notin> {min x y..max x y}"
  shows "unshift_in {x} i = unshift_in {y} i"
  using assms by (auto simp: unshift_in_def rank_def min_def max_def split: if_splits)

lemma untouched_outside:
  assumes t: "tracks old new {x} {y}" and i: "i < length new" "i \<notin> {min x y..max x y}"
  shows "new ! i = old ! i"
proof -
  have n: "i \<notin> {x}" "i \<notin> {y}" using i(2) by (auto simp: min_def max_def split: if_splits)
  have "shift_in {x} (unshift_in {y} i) = i"
    using shift_in_unshift_in [OF _ n(1)] rank_outside [OF i(2)] by simp
  then show ?thesis using recorded_keep(4) [OF t i(1) n(2)] by simp
qed

text \<open>A list in which one object was moved is reported to have its values set at all positions between the two ends of
  the move, and no other position has another value than before, except where objects were modified.\<close>

theorem kvo_single_move:
  assumes "records K old new b" "moves b = [\<lparr>mv_from = x, mv_to = y\<rparr>]" "indices (deletions b) = {x}"
    "indices (insertions b) = {y}" "x \<noteq> y" "length old \<le> npos" "length new \<le> npos"
  shows "\<exists>ch'. list_changes K b size_before ch = Some ch' \<and> col_kind ch' = Set_Change \<and>
    indices (col_indices ch') = indices (modifications b) \<union> {min x y..max x y} \<and>
    (\<forall>i < length new. i \<notin> indices (col_indices ch') \<longrightarrow> new ! i = old ! i)"
proof -
  have c: "ccb_ok K b" and t: "tracks old new {x} {y}"
    using assms(1,3,4) by (auto simp: records_def wf_changes_def describes_def abs_ccb_def)
  have "x < npos" "y < npos" using wf_bounds(1,2) [OF t] assms(6,7) by fastforce+
  then have "count_set (deletions b) 0 npos = 1" "count_set (insertions b) 0 npos = 1"
    using rep_count [OF ok_rep(1) [OF c]] rep_count [OF ok_rep(2) [OF c]] assms(3,4)
    by (auto simp: abs_ccb_def rank_def)
  moreover obtain s where s: "moves_as_sets K b = Some s" "indices s = indices (modifications b) \<union> {min x y..max x y}"
    using moves_as_sets_single [OF c assms(3-5)] by blast
  ultimately show ?thesis using assms(2) untouched_outside [OF t] by (simp add: list_changes_def)
qed

definition moved_builder :: ccb where
  "moved_builder = \<lparr>deletions = one_chunk [(0, 1)], insertions = one_chunk [(2, 3)], modifications = [],
     modifications_new = [], moves = [\<lparr>mv_from = 0, mv_to = 2\<rparr>], columns = [], move_mapping = [], track_columns = True\<rparr>"

lemma moved_builder_records: "records 4 [10, 20, 30 :: nat] [20, 30, 10] moved_builder"
  by (auto simp: sample_defs moved_builder_def)

theorem kvo_single_move_witness:
  "\<exists>ch'. list_changes 4 moved_builder npos column_info_init = Some ch' \<and> indices (col_indices ch') = {0..2}"
proof -
  have "indices (deletions moved_builder) = {0}" "indices (insertions moved_builder) = {2}"
    "indices (modifications moved_builder) = {}" "moves moved_builder = [\<lparr>mv_from = 0, mv_to = 2\<rparr>]"
    by (auto simp: moved_builder_def one_chunk_def indices_def flat_def)
  with kvo_single_move [OF moved_builder_records, of 0 2 npos column_info_init] show ?thesis
    by (auto simp: npos_def)
qed

text \<open>C36: The objects at 4 and 7 of a list of nine are moved to 2 and 3: a well-formed record, for which the adapter reports
  the positions 2, 3, 4 and 7 only, although the values at 5 and 6 have changed as well: the step over two
  adjacent insertions counts only the first.\<close>

definition twice_moved :: ccb where
  "twice_moved = \<lparr>deletions = one_chunk [(4, 5), (7, 8)], insertions = one_chunk [(2, 4)], modifications = [],
     modifications_new = [], moves = [\<lparr>mv_from = 4, mv_to = 2\<rparr>, \<lparr>mv_from = 7, mv_to = 3\<rparr>], columns = [],
     move_mapping = [], track_columns = True\<rparr>"

lemma twice_moved_records: "records 4 [0, 1, 2, 3, 4, 5, 6, 7, 8 :: nat] [0, 1, 4, 7, 2, 3, 5, 6, 8] twice_moved"
  by (auto simp: sample_defs twice_moved_def)

lemma twice_moved_ok: "ccb_ok 4 twice_moved"
  using twice_moved_records by (simp add: records_def)

lemma twice_moved_flat: "flat (deletions twice_moved) = [(4, 5), (7, 8)]" "flat (insertions twice_moved) = [(2, 4)]"
  by (simp_all add: twice_moved_def one_chunk_def flat_def)

lemma twice_moved_indices: "s_del (abs_ccb twice_moved) = {4, 7}" "s_ins (abs_ccb twice_moved) = {2, 3}"
  by (auto simp: abs_ccb_def indices_def twice_moved_flat)

lemma twice_moved_steps:
  "add_shifted_rows K 6 2 [(4, 5), (7, 8)] [(2, 4)] 0 s =
     do { s1 \<leftarrow> add K s 2; s2 \<leftarrow> add K s1 3; add K s2 7 }"
proof -
  have six: "6 = Suc (Suc (Suc (Suc (Suc (Suc 0)))))" by simp
  have "add_shifted_rows K (Suc (Suc (Suc (Suc 0)))) 4 [(4, 5), (7, 8)] [] 1 = (\<lambda>s2. add K s2 7)"
  proof
    show "add_shifted_rows K (Suc (Suc (Suc (Suc 0)))) 4 [(4, 5), (7, 8)] [] 1 s2 = add K s2 7" for s2
      by (cases "add K s2 7") (simp_all add: in_range_def)
  qed
  then have "add_shifted_rows K (Suc (Suc (Suc (Suc (Suc 0))))) 3 [(4, 5), (7, 8)] [(2, 4)] 1 =
      (\<lambda>s1. do { s2 \<leftarrow> add K s1 3; add K s2 7 })"
    by (intro ext, subst add_shifted_rows.simps(2)) (simp add: in_range_def del: add_shifted_rows.simps)
  then show ?thesis unfolding six
    by (subst add_shifted_rows.simps(2)) (simp add: in_range_def del: add_shifted_rows.simps)
qed

lemma twice_moved_sets:
  "\<exists>s. moves_as_sets 4 twice_moved = Some s \<and> indices s = {2, 3, 4, 7}"
proof -
  note r = ok_rep [OF twice_moved_ok]
  have m: "s_mod (abs_ccb twice_moved) = {}" by (simp add: abs_ccb_def twice_moved_def indices_def flat_def)
  from rep_add_set [OF r(3,1)] obtain s0 where
    s0: "add_set 4 (modifications twice_moved) (deletions twice_moved) = Some s0" "rep 4 s0 {4, 7}"
    by (auto simp: m twice_moved_indices)
  from ixs.ins [OF s0(2), of 2] obtain s1 where s1: "add 4 s0 2 = Some s1" "rep 4 s1 {2, 4, 7}" by auto
  from ixs.ins [OF s1(2), of 3] obtain s2 where s2: "add 4 s1 3 = Some s2" "rep 4 s2 {3, 2, 4, 7}" by auto
  from ixs.ins [OF s2(2), of 7] obtain s3 where s3: "add 4 s2 7 = Some s3" "rep 4 s3 {7, 3, 2, 4, 7}" by auto
  have "moves_as_sets 4 twice_moved = Some s3"
    by (simp add: moves_as_sets_def twice_moved_flat s0(1) twice_moved_steps s1(1) s2(1) s3(1))
  moreover have "indices s3 = {2, 3, 4, 7}" using s3(2) by (auto simp: rep_def)
  ultimately show ?thesis by blast
qed

theorem kvo_misses_moves:
  "records 4 [0, 1, 2, 3, 4, 5, 6, 7, 8 :: nat] [0, 1, 4, 7, 2, 3, 5, 6, 8] twice_moved \<and>
   [0, 1, 4, 7, 2, 3, 5, 6, 8] ! 5 \<noteq> [0, 1, 2, 3, 4, 5, 6, 7, 8 :: nat] ! 5 \<and>
   (\<exists>ch. list_changes 4 twice_moved npos column_info_init = Some ch \<and> col_kind ch = Set_Change \<and>
      indices (col_indices ch) = {2, 3, 4, 7})"
proof (intro conjI)
  have "{4, 7} \<inter> {..<npos} = {4, 7}" "{2, 3} \<inter> {..<npos} = {2, 3}" by (auto simp: npos_def)
  then have "count_set (deletions twice_moved) 0 npos = 2" "count_set (insertions twice_moved) 0 npos = 2"
    using rep_count [OF ok_rep(1) [OF twice_moved_ok], of npos] rep_count [OF ok_rep(2) [OF twice_moved_ok], of npos]
    by (simp_all add: twice_moved_indices rank_def)
  moreover have "moves twice_moved \<noteq> []" "length (moves twice_moved) = 2" by (simp_all add: twice_moved_def)
  ultimately show "\<exists>ch. list_changes 4 twice_moved npos column_info_init = Some ch \<and> col_kind ch = Set_Change \<and>
      indices (col_indices ch) = {2, 3, 4, 7}"
    using twice_moved_sets by (auto simp: list_changes_def)
qed (use twice_moved_records in simp_all)

end
