(* ===== verification/Notify_Deep.thy ===== *)
theory Notify_Deep
  imports Log_Handler
begin

text \<open>
  \<open>DeepChangeChecker\<close> of \<open>impl/collection_notifier.cpp\<close>: whether a row, or a row it links to within
  four levels, was modified.  The tables a table links to, directly or not, are collected once, in
  \<open>m_related_tables\<close>; a search follows the links of a row and remembers, over the calls, the rows from
  which it found nothing.

  Tables are their positions in the file, and what the code reads of them (the types of the columns, the
  tables and rows that links lead to) is a parameter, the record \<open>link_graph\<close>.  Operations give
  \<open>None\<close> when an index set fails an assertion.
\<close>

datatype link_type = Link_Column | Link_Rows_Column | No_Link_Column

record link_graph =
  link_types :: "size_t \<Rightarrow> link_type list"
  link_target :: "size_t \<Rightarrow> size_t \<Rightarrow> size_t"
  linked_row :: "size_t \<Rightarrow> size_t \<Rightarrow> size_t \<Rightarrow> size_t option"
  linked_rows :: "size_t \<Rightarrow> size_t \<Rightarrow> size_t \<Rightarrow> size_t list"

record outgoing_link =
  link_col :: size_t
  is_list :: bool

record related_table =
  related_ndx :: size_t
  links :: "outgoing_link list"

section \<open>Related tables\<close>

text \<open>The link is added to the entry at the position \<open>out_index\<close>, which may no longer be the last one.  The number bounds
  the depth of the recursion; one more than the number of tables is enough.\<close>

definition add_link :: "nat \<Rightarrow> outgoing_link \<Rightarrow> related_table list \<Rightarrow> related_table list" where
  "add_link out_index l out = out[out_index := (out ! out_index)\<lparr>links := links (out ! out_index) @ [l]\<rparr>]"

fun related_columns :: "(related_table list \<Rightarrow> size_t \<Rightarrow> related_table list option) \<Rightarrow> link_graph \<Rightarrow> size_t \<Rightarrow> nat \<Rightarrow>
    size_t list \<Rightarrow> related_table list \<Rightarrow> related_table list option" where
  "related_columns visit G t out_index [] out = Some out"
| "related_columns visit G t out_index (i # is) out =
     (let type = link_types G t ! i
      in if type = Link_Column \<or> type = Link_Rows_Column
         then do { out' \<leftarrow> visit (add_link out_index \<lparr>link_col = i, is_list = (type = Link_Rows_Column)\<rparr> out)
                             (link_target G t i);
                   related_columns visit G t out_index is out' }
         else related_columns visit G t out_index is out)"

fun find_related_tables :: "nat \<Rightarrow> link_graph \<Rightarrow> related_table list \<Rightarrow> size_t \<Rightarrow> related_table list option" where
  "find_related_tables 0 G out t = None"
| "find_related_tables (Suc fuel) G out t =
     (if t = npos then Some out
      else if list_ex (\<lambda>tbl. related_ndx tbl = t) out then Some out
      else related_columns (find_related_tables fuel G) G t (length out) [0..<length (link_types G t)]
             (out @ [\<lparr>related_ndx = t, links = []\<rparr>]))"

section \<open>The checker\<close>

text \<open>The links being followed, by depth, and the rows found unmodified, by table.\<close>

record path_entry =
  path_table :: size_t
  path_row :: size_t
  path_col :: size_t
  depth_exceeded :: bool

record checker =
  current_path :: "path_entry list"
  not_modified :: "index_set list"

definition checker_init :: checker where
  "checker_init = \<lparr>current_path = replicate 4 \<lparr>path_table = 0, path_row = 0, path_col = 0, depth_exceeded = False\<rparr>,
     not_modified = []\<rparr>"

definition row_modified :: "ccb list \<Rightarrow> size_t \<Rightarrow> size_t \<Rightarrow> bool" where
  "row_modified ts t i \<longleftrightarrow> t < length ts \<and> contains (modifications (ts ! t)) i"

definition exceed :: "nat \<Rightarrow> nat \<Rightarrow> checker \<Rightarrow> checker" where
  "exceed a b st = st\<lparr>current_path := map (\<lambda>k. let p = current_path st ! k
     in if a \<le> k \<and> k < b then p\<lparr>depth_exceeded := True\<rparr> else p) [0..<length (current_path st)]\<rparr>"

definition already_checking :: "nat \<Rightarrow> size_t \<Rightarrow> size_t \<Rightarrow> size_t \<Rightarrow> checker \<Rightarrow> bool \<times> checker" where
  "already_checking depth t row col st =
     (let match = length (takeWhile (\<lambda>p. \<not> (path_table p = t \<and> path_row p = row \<and> path_col p = col))
                            (take depth (current_path st)))
      in if match < depth then (True, exceed match depth st)
         else (False, st\<lparr>current_path := (current_path st)[depth :=
                 \<lparr>path_table = t, path_row = row, path_col = col, depth_exceeded = False\<rparr>]\<rparr>))"

text \<open>\<open>std::any_of\<close>, and the loop over the rows of a list: both end with the first success.\<close>

fun check_any :: "('a \<Rightarrow> checker \<Rightarrow> (bool \<times> checker) option) \<Rightarrow> 'a list \<Rightarrow> checker \<Rightarrow> (bool \<times> checker) option" where
  "check_any f [] st = Some (False, st)"
| "check_any f (x # xs) st =
     do { (found, st1) \<leftarrow> f x st; if found then Some (True, st1) else check_any f xs st1 }"

definition linked_object_changed :: "(size_t \<Rightarrow> size_t \<Rightarrow> checker \<Rightarrow> (bool \<times> checker) option) \<Rightarrow> link_graph \<Rightarrow> nat \<Rightarrow>
    size_t \<Rightarrow> size_t \<Rightarrow> outgoing_link \<Rightarrow> checker \<Rightarrow> (bool \<times> checker) option" where
  "linked_object_changed visit G depth t row l st =
     (let (checking, st1) = already_checking depth t row (link_col l) st; target = link_target G t (link_col l)
      in if checking then Some (False, st1)
         else if \<not> is_list l
         then (case linked_row G t (link_col l) row of None \<Rightarrow> Some (False, st1) | Some dst \<Rightarrow> visit target dst st1)
         else check_any (visit target) (linked_rows G t (link_col l) row) st1)"

definition check_outgoing_links :: "(size_t \<Rightarrow> size_t \<Rightarrow> checker \<Rightarrow> (bool \<times> checker) option) \<Rightarrow> link_graph \<Rightarrow>
    related_table list \<Rightarrow> nat \<Rightarrow> size_t \<Rightarrow> size_t \<Rightarrow> checker \<Rightarrow> (bool \<times> checker) option" where
  "check_outgoing_links visit G rel depth t row st =
     (case find (\<lambda>tbl. related_ndx tbl = t) rel of
        None \<Rightarrow> Some (False, st)
      | Some tbl \<Rightarrow> check_any (linked_object_changed visit G depth t row) (links tbl) st)"

text \<open>The number is that of the levels left, four minus \<open>depth\<close>.\<close>

fun check_row :: "nat \<Rightarrow> link_graph \<Rightarrow> ccb list \<Rightarrow> related_table list \<Rightarrow> nat \<Rightarrow> size_t \<Rightarrow> size_t \<Rightarrow> checker \<Rightarrow>
    (bool \<times> checker) option" where
  "check_row K G ts rel 0 t idx st = Some (False, exceed 0 4 st)"
| "check_row K G ts rel (Suc n) t idx st =
     (let depth = 4 - Suc n
      in if 0 < depth \<and> row_modified ts t idx then Some (True, st)
         else let st1 = (if length (not_modified st) \<le> t
                         then st\<lparr>not_modified := resize [] (t + 1) (not_modified st)\<rparr> else st)
              in if contains (not_modified st1 ! t) idx then Some (False, st1)
                 else do {
                   (ret, st2) \<leftarrow> check_outgoing_links (check_row K G ts rel n) G rel depth t idx st1;
                   if \<not> ret \<and> (depth = 0 \<or> \<not> depth_exceeded (current_path st2 ! (depth - 1)))
                   then do { s \<leftarrow> add K (not_modified st2 ! t) idx;
                             Some (ret, st2\<lparr>not_modified := (not_modified st2)[t := s]\<rparr>) }
                   else Some (ret, st2) })"

text \<open>\<open>operator()\<close>\<close>

definition deep_check :: "nat \<Rightarrow> link_graph \<Rightarrow> ccb list \<Rightarrow> related_table list \<Rightarrow> size_t \<Rightarrow> size_t \<Rightarrow> checker \<Rightarrow>
    (bool \<times> checker) option" where
  "deep_check K G ts rel root ndx st =
     (if row_modified ts root ndx then Some (True, st) else check_row K G ts rel 4 root ndx st)"

section \<open>The choice of a checker\<close>

text \<open>The function that \<open>get_modification_checker\<close> returns; a function that remembers rows is the state of its checker.\<close>

datatype row_checker = Never_Modified | Modified_In index_set | Deep_Check checker

definition related_tables_modified :: "ccb list \<Rightarrow> related_table list \<Rightarrow> bool" where
  "related_tables_modified ts rel \<longleftrightarrow>
     list_ex (\<lambda>tbl. related_ndx tbl < length ts \<and> modifications (ts ! related_ndx tbl) \<noteq> []) rel"

definition choose_checker :: "ccb list \<Rightarrow> related_table list \<Rightarrow> row_checker" where
  "choose_checker ts rel =
     (if \<not> related_tables_modified ts rel then Never_Modified
      else if length rel = 1 then Modified_In (modifications (ts ! related_ndx (hd rel)))
      else Deep_Check checker_init)"

definition get_modification_checker :: "nat \<Rightarrow> link_graph \<Rightarrow> 'z change_info_scheme \<Rightarrow> size_t \<Rightarrow> related_table list \<Rightarrow>
    (related_table list \<times> row_checker) option" where
  "get_modification_checker fuel G info root rel =
     do { rel' \<leftarrow> (if schema_changed info then find_related_tables fuel G [] root else Some rel);
          Some (rel', choose_checker (tables info) rel') }"

definition ask :: "nat \<Rightarrow> link_graph \<Rightarrow> ccb list \<Rightarrow> related_table list \<Rightarrow> size_t \<Rightarrow> size_t \<Rightarrow> row_checker \<Rightarrow>
    (bool \<times> row_checker) option" where
  "ask K G ts rel root row rc =
     (case rc of
        Never_Modified \<Rightarrow> Some (False, rc)
      | Modified_In s \<Rightarrow> Some (contains s row, rc)
      | Deep_Check st \<Rightarrow> map_option (map_prod id Deep_Check) (deep_check K G ts rel root row st))"

text \<open>The answers for rows asked in turn.\<close>

fun ask_all :: "nat \<Rightarrow> link_graph \<Rightarrow> ccb list \<Rightarrow> related_table list \<Rightarrow> size_t \<Rightarrow> size_t list \<Rightarrow> row_checker \<Rightarrow>
    (bool list \<times> row_checker) option" where
  "ask_all K G ts rel root [] rc = Some ([], rc)"
| "ask_all K G ts rel root (row # rows) rc =
     do { (b, rc1) \<leftarrow> ask K G ts rel root row rc; (bs, rc2) \<leftarrow> ask_all K G ts rel root rows rc1; Some (b # bs, rc2) }"

end
