(* ===== verification/Notify_Callbacks.thy ===== *)
theory Notify_Callbacks
  imports Change_Builder "HOL-Library.Word"
begin

text \<open>
  \<open>CollectionNotifier\<close> of \<open>impl/collection_notifier.cpp\<close>: the callbacks of a collection, each with the
  changes it has not yet been told.  Changes are accumulated when a transaction has been processed, packaged when they
  are to be delivered, and delivered by two loops, before and after the transaction of the target thread
  advances.  The lock is released around each call of a callback, so a callback may register and remove
  callbacks; what it does is a parameter, the function \<open>body\<close>.

  Positions, counts and tokens are 64-bit words, as in the code.  Operations give \<open>None\<close> when an assertion
  fails, those of debug mode included, or when a callback is read beyond the end of the vector.
\<close>

section \<open>State\<close>

record collection_callback =
  callback_fn :: nat
  accumulated_changes :: ccb
  changes_to_deliver :: change_set
  token :: "64 word"
  initial_delivered :: bool
  skip_next :: bool

record collection_notifier =
  callbacks :: "collection_callback list"
  callback_index :: "64 word"
  callback_count :: "64 word"
  next_token :: "64 word"
  have_callbacks :: bool
  has_error :: bool
  has_run :: bool
  realm_alive :: bool

definition no_changes :: change_set where
  "no_changes = \<lparr>deletions = [], insertions = [], modifications = [], modifications_new = [], moves = [], columns = []\<rparr>"

definition new_collection_notifier :: collection_notifier where
  "new_collection_notifier = \<lparr>callbacks = [], callback_index = - 1, callback_count = - 1, next_token = 0,
     have_callbacks = False, has_error = False, has_run = False, realm_alive = True\<rparr>"

section \<open>Registration\<close>

text \<open>The wake-up of the worker when no call is in progress is left out.\<close>

definition add_callback :: "nat \<Rightarrow> collection_notifier \<Rightarrow> collection_notifier \<times> 64 word" where
  "add_callback f n =
     (let t = next_token n;
          n1 = n\<lparr>next_token := t + 1, callbacks := callbacks n @
                 [\<lparr>callback_fn = f, accumulated_changes = ccb_init, changes_to_deliver = no_changes, token = t,
                   initial_delivered = False, skip_next = False\<rparr>]\<rparr>
      in (if callback_index n1 = - 1 then n1\<lparr>have_callbacks := True\<rparr> else n1, t))"

text \<open>The position of the callback, or the length of the vector.\<close>

definition find_callback :: "64 word \<Rightarrow> collection_notifier \<Rightarrow> nat option" where
  "find_callback t n =
     (let i = length (takeWhile (\<lambda>c. token c \<noteq> t) (callbacks n))
      in if \<not> (has_error n \<or> callbacks n \<noteq> []) then None
         else if \<not> (has_error n \<or> i \<noteq> length (callbacks n)) then None
         else Some i)"

definition remove_callback :: "64 word \<Rightarrow> collection_notifier \<Rightarrow> collection_notifier option" where
  "remove_callback t n =
     do { idx \<leftarrow> find_callback t n;
          Some (if idx = length (callbacks n) then n
                else let n1 = (if callback_index n \<noteq> - 1 \<and> of_nat idx \<le> callback_index n
                               then n\<lparr>callback_index := callback_index n - 1\<rparr> else n);
                         cs = take idx (callbacks n) @ drop (idx + 1) (callbacks n)
                     in n1\<lparr>callback_count := callback_count n1 - 1, callbacks := cs, have_callbacks := (cs \<noteq> [])\<rparr>) }"

definition suppress_next_notification :: "64 word \<Rightarrow> collection_notifier \<Rightarrow> collection_notifier option" where
  "suppress_next_notification t n =
     (if \<not> realm_alive n then None
      else do { i \<leftarrow> find_callback t n;
                Some (if i = length (callbacks n) then n
                      else n\<lparr>callbacks := (callbacks n)[i := (callbacks n ! i)\<lparr>skip_next := True\<rparr>]\<rparr>) })"

section \<open>Changes\<close>

definition add_to_callback :: "nat \<Rightarrow> ccb \<Rightarrow> collection_callback \<Rightarrow> collection_callback option" where
  "add_to_callback K change c =
     (if skip_next c
      then if change_set_empty (accumulated_changes c) then Some (c\<lparr>skip_next := False\<rparr>) else None
      else do { m \<leftarrow> ccb_merge K (accumulated_changes c) change; Some (c\<lparr>accumulated_changes := m\<rparr>) })"

fun add_to_each :: "nat \<Rightarrow> ccb \<Rightarrow> collection_callback list \<Rightarrow> collection_callback list option" where
  "add_to_each K change [] = Some []"
| "add_to_each K change (c # cs) =
     do { c' \<leftarrow> add_to_callback K change c; cs' \<leftarrow> add_to_each K change cs; Some (c' # cs') }"

definition add_changes :: "nat \<Rightarrow> ccb \<Rightarrow> collection_notifier \<Rightarrow> collection_notifier option" where
  "add_changes K change n = do { cs \<leftarrow> add_to_each K change (callbacks n); Some (n\<lparr>callbacks := cs\<rparr>) }"

text \<open>The changes come from the notifier of the kind of collection; it hands them over once.\<close>

definition prepare_handover :: "nat \<Rightarrow> ccb \<Rightarrow> collection_notifier \<Rightarrow> collection_notifier option" where
  "prepare_handover K change n =
     do { n1 \<leftarrow> add_changes K change n;
          if list_ex skip_next (callbacks n1) then None else Some (n1\<lparr>has_run := True\<rparr>) }"

text \<open>A builder whose fields have been moved out.\<close>

definition moved_from :: "ccb \<Rightarrow> ccb" where
  "moved_from c = c\<lparr>deletions := [], insertions := [], modifications := [], moves := [], columns := []\<rparr>"

fun package_each :: "nat \<Rightarrow> collection_callback list \<Rightarrow> collection_callback list option" where
  "package_each K [] = Some []"
| "package_each K (c # cs) =
     do { s \<leftarrow> ccb_finalize K (accumulated_changes c);
          cs' \<leftarrow> package_each K cs;
          Some (c\<lparr>changes_to_deliver := s, accumulated_changes := moved_from (accumulated_changes c)\<rparr> # cs') }"

definition package_for_delivery :: "nat \<Rightarrow> bool \<Rightarrow> collection_notifier \<Rightarrow> (bool \<times> collection_notifier) option" where
  "package_for_delivery K ready n =
     (if \<not> ready then Some (False, n)
      else do { cs \<leftarrow> package_each K (callbacks n);
                Some (True, n\<lparr>callbacks := cs, callback_count := of_nat (length cs)\<rparr>) })"

section \<open>Calling the callbacks\<close>

datatype callback_event = Before_Change nat change_set | After_Change nat change_set | Error_Event nat

datatype registry_action = Register nat | Unregister "64 word" | Suppress "64 word"

definition act_on :: "registry_action \<Rightarrow> collection_notifier \<Rightarrow> collection_notifier option" where
  "act_on a n =
     (case a of Register f \<Rightarrow> Some (fst (add_callback f n)) | Unregister t \<Rightarrow> remove_callback t n
      | Suppress t \<Rightarrow> suppress_next_notification t n)"

fun act_on_all :: "registry_action list \<Rightarrow> collection_notifier \<Rightarrow> collection_notifier option" where
  "act_on_all [] n = Some n"
| "act_on_all (a # as) n = do { n1 \<leftarrow> act_on a n; act_on_all as n1 }"

text \<open>The loop, given what is done with the callback at a position; the number bounds the rounds.\<close>

type_synonym callback_step = "nat \<Rightarrow> collection_notifier \<Rightarrow> (collection_notifier \<times> callback_event list) option"

fun call_from :: "nat \<Rightarrow> callback_step \<Rightarrow> collection_notifier \<Rightarrow> (collection_notifier \<times> callback_event list) option" where
  "call_from 0 fn n = None"
| "call_from (Suc fuel) fn n =
     (if callback_index n < callback_count n
      then if length (callbacks n) \<le> unat (callback_index n) then None
           else do { (n1, es) \<leftarrow> fn (unat (callback_index n)) n;
                     (n2, es') \<leftarrow> call_from fuel fn (n1\<lparr>callback_index := callback_index n1 + 1\<rparr>);
                     Some (n2, es @ es') }
      else Some (n\<lparr>callback_index := - 1\<rparr>, []))"

definition for_each_callback :: "nat \<Rightarrow> callback_step \<Rightarrow> collection_notifier \<Rightarrow>
    (collection_notifier \<times> callback_event list) option" where
  "for_each_callback fuel fn n =
     (if \<not> callback_count n \<le> of_nat (length (callbacks n)) then None
      else call_from fuel fn (n\<lparr>callback_index := callback_index n + 1\<rparr>))"

definition call_with :: "(callback_event \<Rightarrow> registry_action list) \<Rightarrow> callback_event \<Rightarrow> collection_notifier \<Rightarrow>
    (collection_notifier \<times> callback_event list) option" where
  "call_with body e n = do { n1 \<leftarrow> act_on_all (body e) n; Some (n1, [e]) }"

definition before_callback :: "(callback_event \<Rightarrow> registry_action list) \<Rightarrow> callback_step" where
  "before_callback body i n =
     (let c = callbacks n ! i
      in if change_set_empty (changes_to_deliver c) then Some (n, [])
         else call_with body (Before_Change (callback_fn c) (changes_to_deliver c)) n)"

definition after_callback :: "(callback_event \<Rightarrow> registry_action list) \<Rightarrow> callback_step" where
  "after_callback body i n =
     (let c = callbacks n ! i
      in if initial_delivered c \<and> change_set_empty (changes_to_deliver c) then Some (n, [])
         else call_with body (After_Change (callback_fn c) (changes_to_deliver c))
                (n\<lparr>callbacks := (callbacks n)[i := c\<lparr>initial_delivered := True, changes_to_deliver := no_changes\<rparr>]\<rparr>))"

definition error_callback :: "(callback_event \<Rightarrow> registry_action list) \<Rightarrow> callback_step" where
  "error_callback body i n =
     (let c = callbacks n ! i
      in do { (n1, es) \<leftarrow> call_with body (Error_Event (callback_fn c)) n; n2 \<leftarrow> remove_callback (token c) n1; Some (n2, es) })"

definition before_advance :: "nat \<Rightarrow> (callback_event \<Rightarrow> registry_action list) \<Rightarrow> collection_notifier \<Rightarrow>
    (collection_notifier \<times> callback_event list) option" where
  "before_advance fuel body n = for_each_callback fuel (before_callback body) n"

definition after_advance :: "nat \<Rightarrow> (callback_event \<Rightarrow> registry_action list) \<Rightarrow> collection_notifier \<Rightarrow>
    (collection_notifier \<times> callback_event list) option" where
  "after_advance fuel body n = for_each_callback fuel (after_callback body) n"

definition deliver_error :: "nat \<Rightarrow> (callback_event \<Rightarrow> registry_action list) \<Rightarrow> collection_notifier \<Rightarrow>
    (collection_notifier \<times> callback_event list) option" where
  "deliver_error fuel body n =
     for_each_callback fuel (error_callback body)
       (n\<lparr>has_error := True, callback_count := of_nat (length (callbacks n))\<rparr>)"

end
