(* ===== verification/Notify_Runs.thy ===== *)
theory Notify_Runs
  imports Notify_Deep Notify_Callbacks Change_Calc
begin

text \<open>
  The notifiers of the kinds of collections, \<open>impl/list_notifier.cpp\<close>, \<open>impl/primitive_list_notifier.cpp\<close>,
  \<open>impl/object_notifier.cpp\<close> and \<open>impl/results_notifier.cpp\<close>: what each asks of the observer of the
  transaction log, and the changes \<open>run\<close> works out afterwards.

  The query, the list and the object belong to the core; what the code reads of them (whether they are
  attached, their rows and positions, the result of a query) are arguments.  \<open>changed\<close> is the function that
  \<open>get_modification_checker\<close> returns.
\<close>

section \<open>What is asked of the observer\<close>

text \<open>The column of a row that holds a container, by looking at each; there is one.\<close>

definition find_container_column :: "nat \<Rightarrow> (size_t \<Rightarrow> bool) \<Rightarrow> size_t option" where
  "find_container_column count holds = find holds [0..<count]"

definition track_list :: "size_t \<Rightarrow> size_t \<Rightarrow> size_t \<Rightarrow> size_t \<Rightarrow> 'z change_info_scheme \<Rightarrow> 'z change_info_scheme" where
  "track_list tbl row col at info = info\<lparr>lists := lists info @ [\<lparr>table_ndx = tbl, row_ndx = row, col_ndx = col, changes_at = at\<rparr>]\<rparr>"

definition mark_table :: "size_t \<Rightarrow> bool list \<Rightarrow> bool list" where
  "mark_table t flags = (if length flags \<le> t then resize False (t + 1) flags else flags)[t := True]"

text \<open>\<open>ListNotifier\<close> and \<open>PrimitiveListNotifier\<close>; the builder of the notifier is at the position \<open>at\<close>.\<close>

definition list_required_info :: "bool \<Rightarrow> size_t \<times> size_t \<Rightarrow> nat \<Rightarrow> (size_t \<Rightarrow> bool) \<Rightarrow> size_t \<Rightarrow> 'z change_info_scheme \<Rightarrow>
    (bool \<times> 'z change_info_scheme) option" where
  "list_required_info attached place count holds at info =
     (if \<not> attached then Some (False, info)
      else do { col \<leftarrow> find_container_column count holds; Some (True, track_list (fst place) (snd place) col at info) })"

definition object_required_info :: "size_t option \<Rightarrow> 'z change_info_scheme \<Rightarrow> bool \<times> 'z change_info_scheme" where
  "object_required_info attached_to info =
     (case attached_to of None \<Rightarrow> (False, info)
      | Some t \<Rightarrow> (False, info\<lparr>table_modifications_needed := mark_table t (table_modifications_needed info)\<rparr>))"

text \<open>A table without a position in the file is a subtable.\<close>

definition results_required_info :: "bool \<Rightarrow> bool \<Rightarrow> size_t \<Rightarrow> size_t \<times> size_t \<Rightarrow> nat \<Rightarrow> (size_t \<Rightarrow> bool) \<Rightarrow> size_t \<Rightarrow>
    'z change_info_scheme \<Rightarrow> (bool \<times> 'z change_info_scheme) option" where
  "results_required_info attached running t place count holds at info =
     (if \<not> attached then Some (False, info)
      else if t = npos
      then do { col \<leftarrow> find_container_column count holds; Some (running, track_list (fst place) (snd place) col at info) }
      else Some (running, info\<lparr>table_moves_needed := mark_table t (table_moves_needed info)\<rparr>))"

text \<open>\<open>CollectionNotifier::add_required_change_info\<close>, after the call for the kind of collection.\<close>

definition add_required_change_info :: "related_table list \<Rightarrow> bool \<times> 'z change_info_scheme \<Rightarrow> 'z change_info_scheme" where
  "add_required_change_info rel p =
     (let (more, info) = p
      in if \<not> more \<or> rel = [] then info
         else let biggest = foldl max 0 (map related_ndx rel);
                  flags = (if length (table_modifications_needed info) \<le> biggest
                            then resize False (biggest + 1) (table_modifications_needed info)
                            else table_modifications_needed info)
              in info\<lparr>table_modifications_needed := foldl (\<lambda>bs tbl. bs[related_ndx tbl := True]) flags rel\<rparr>)"

section \<open>Lists\<close>

record list_notifier =
  prev_size :: size_t
  list_change :: ccb

text \<open>The rows of the list that changed and are not yet modified; reading a row beyond the list fails.\<close>

fun mark_changed :: "nat \<Rightarrow> (size_t \<Rightarrow> bool) \<Rightarrow> size_t list \<Rightarrow> size_t list \<Rightarrow> index_set \<Rightarrow> index_set option" where
  "mark_changed K changed rows [] m = Some m"
| "mark_changed K changed rows (i # is) m =
     (if contains m i then mark_changed K changed rows is m
      else if length rows \<le> i then None
      else if changed (rows ! i) then do { m' \<leftarrow> add K m i; mark_changed K changed rows is m' }
      else mark_changed K changed rows is m)"

definition list_gone :: "nat \<Rightarrow> list_notifier \<Rightarrow> list_notifier option" where
  "list_gone K ln =
     (if prev_size ln \<noteq> 0
      then do { d \<leftarrow> set_len K (deletions (list_change ln)) (prev_size ln);
                Some (ln\<lparr>list_change := (list_change ln)\<lparr>deletions := d\<rparr>, prev_size := 0\<rparr>) }
      else Some (ln\<lparr>list_change := ccb_init\<rparr>))"

definition list_run :: "nat \<Rightarrow> (size_t \<Rightarrow> bool) \<Rightarrow> size_t list option \<Rightarrow> list_notifier \<Rightarrow> list_notifier option" where
  "list_run K changed attached ln =
     (case attached of
        None \<Rightarrow> list_gone K ln
      | Some rows \<Rightarrow>
          do { m \<leftarrow> mark_changed K changed rows [0..<length rows] (modifications (list_change ln));
               m' \<leftarrow> mark_changed K changed rows (map mv_to (moves (list_change ln))) m;
               Some (ln\<lparr>list_change := (list_change ln)\<lparr>modifications := m'\<rparr>, prev_size := length rows\<rparr>) })"

definition primitive_list_run :: "nat \<Rightarrow> size_t option \<Rightarrow> list_notifier \<Rightarrow> list_notifier option" where
  "primitive_list_run K attached ln =
     (case attached of
        None \<Rightarrow> list_gone K ln
      | Some new_size \<Rightarrow>
          let d = deletions (list_change ln) in
          do { d' \<leftarrow> (if d \<noteq> [] \<and> snd (hd (flat d)) = npos then set_len K d (prev_size ln) else Some d);
               Some (ln\<lparr>list_change := (list_change ln)\<lparr>deletions := d'\<rparr>, prev_size := new_size\<rparr>) })"

text \<open>\<open>do_prepare_handover\<close> of the lists and the object: the change is moved to the callbacks.\<close>

definition list_handover :: "nat \<Rightarrow> list_notifier \<Rightarrow> collection_notifier \<Rightarrow> (list_notifier \<times> collection_notifier) option" where
  "list_handover K ln n = do { n' \<leftarrow> prepare_handover K (list_change ln) n; Some (ln\<lparr>list_change := ccb_init\<rparr>, n') }"

section \<open>Objects\<close>

datatype object_row = No_Row | Detached_Row | Row_At size_t size_t

fun object_columns :: "nat \<Rightarrow> size_t \<Rightarrow> index_set list \<Rightarrow> index_set list option" where
  "object_columns K row [] = Some []"
| "object_columns K row (col # cols) =
     do { s \<leftarrow> (if contains col row then add K [] 0 else Some []); ss \<leftarrow> object_columns K row cols; Some (s # ss) }"

definition object_run :: "nat \<Rightarrow> 'z change_info_scheme \<Rightarrow> object_row \<Rightarrow> ccb \<Rightarrow> (object_row \<times> ccb) option" where
  "object_run K info r change =
     (case r of
        No_Row \<Rightarrow> Some (r, change)
      | Detached_Row \<Rightarrow> do { d \<leftarrow> add K (deletions change) 0; Some (No_Row, change\<lparr>deletions := d\<rparr>) }
      | Row_At t row \<Rightarrow>
          if length (tables info) \<le> t then Some (r, change)
          else let c = tables info ! t
               in if \<not> contains (modifications c) row then Some (r, change)
                  else do { m \<leftarrow> add K (modifications change) 0; cols \<leftarrow> object_columns K row (columns c);
                            Some (r, change\<lparr>modifications := m, columns := columns change @ cols\<rparr>) })"

section \<open>Results\<close>

record results_notifier =
  previous_rows :: "size_t list"
  results_changes :: ccb
  in_table_order :: bool
  last_seen_version :: nat

definition need_to_run :: "bool \<Rightarrow> bool \<Rightarrow> nat \<Rightarrow> results_notifier \<Rightarrow> collection_notifier \<Rightarrow> bool" where
  "need_to_run wants_background_updates did_run version rn n \<longleftrightarrow>
     realm_alive n \<and> (have_callbacks n \<or> wants_background_updates) \<and> \<not> (did_run \<and> version = last_seen_version rn)"

text \<open>Where a row of the table is after the changes, \<open>npos\<close> when it was deleted.\<close>

definition updated_row :: "ccb \<Rightarrow> size_t \<Rightarrow> size_t" where
  "updated_row changes idx =
     (if contains (deletions changes) idx
      then let it = lower_bound (\<lambda>m. mv_from m < idx) (moves changes)
           in if it < length (moves changes) \<and> mv_from (moves changes ! it) = idx then mv_to (moves changes ! it) else npos
      else shift (insertions changes) (unshift (deletions changes) idx))"

definition table_changes :: "size_t \<Rightarrow> 'z change_info_scheme \<Rightarrow> results_notifier \<Rightarrow> ccb option" where
  "table_changes t info rn =
     (if t = npos then Some (results_changes rn) else if t < length (tables info) then Some (tables info ! t) else None)"

definition calculate_changes :: "nat \<Rightarrow> bool \<Rightarrow> size_t \<Rightarrow> 'z change_info_scheme \<Rightarrow> bool \<Rightarrow> (size_t \<Rightarrow> bool) \<Rightarrow> size_t list \<Rightarrow>
    results_notifier \<Rightarrow> results_notifier option" where
  "calculate_changes K running t info will_sort changed next_rows rn =
     (if running
      then let changes = table_changes t info rn;
               prev = (case changes of None \<Rightarrow> previous_rows rn | Some c \<Rightarrow> map (updated_row c) (previous_rows rn));
               candidates = (case changes of None \<Rightarrow> None
                 | Some c \<Rightarrow> if in_table_order rn \<and> \<not> will_sort then Some (insertions c) else None)
           in do { c \<leftarrow> ccb_calculate K prev next_rows changed candidates;
                   Some (rn\<lparr>results_changes := c, previous_rows := next_rows\<rparr>) }
      else Some (rn\<lparr>previous_rows := next_rows\<rparr>))"

text \<open>\<open>found\<close> are the rows the query finds and its version, \<open>None\<close> when its table is gone.\<close>

definition results_run :: "nat \<Rightarrow> bool \<Rightarrow> size_t \<Rightarrow> 'z change_info_scheme \<Rightarrow> bool \<Rightarrow> (size_t \<Rightarrow> bool) \<Rightarrow> (size_t list \<times> nat) option \<Rightarrow>
    collection_notifier \<Rightarrow> results_notifier \<Rightarrow> results_notifier option" where
  "results_run K wants_background_updates t info will_sort changed found n rn =
     (case found of
        None \<Rightarrow> do { d \<leftarrow> set_len K [] (length (previous_rows rn));
                     Some (rn\<lparr>results_changes := ccb_init\<lparr>deletions := d\<rparr>, previous_rows := []\<rparr>) }
      | Some (next_rows, version) \<Rightarrow>
          if \<not> need_to_run wants_background_updates (has_run n) version rn n then Some rn
          else calculate_changes K (has_run n \<and> have_callbacks n) t info will_sort changed next_rows
                 (rn\<lparr>last_seen_version := version\<rparr>))"

definition results_handover :: "nat \<Rightarrow> results_notifier \<Rightarrow> collection_notifier \<Rightarrow>
    (results_notifier \<times> collection_notifier) option" where
  "results_handover K rn n =
     do { n' \<leftarrow> prepare_handover K (results_changes rn) n; Some (rn\<lparr>results_changes := ccb_init\<rparr>, n') }"

end
