(* ===== verification/Notify_Reach.thy ===== *)
theory Notify_Reach
  imports Notify_Deep Index_Set_Contract
begin

text \<open>
  What the deep check computes.  \<open>reaches_change k A t i\<close> says that a modified row is reached from the row \<open>i\<close>
  of the table \<open>t\<close> by at least one and at most \<open>k\<close> links outside \<open>A\<close>; a shortest such way does not use a
  link twice (\<open>reaches_step\<close>), so the links being followed may be left out.  \<open>check_row_finds\<close> shows this
  of the search, with the reason why a row may be remembered as unmodified: no link above it was cut off.
\<close>

section \<open>Reaching modified rows\<close>

definition links_of :: "related_table list \<Rightarrow> size_t \<Rightarrow> outgoing_link list" where
  "links_of rel t = (case find (\<lambda>tbl. related_ndx tbl = t) rel of None \<Rightarrow> [] | Some tbl \<Rightarrow> links tbl)"

definition targets :: "link_graph \<Rightarrow> size_t \<Rightarrow> outgoing_link \<Rightarrow> size_t \<Rightarrow> size_t list" where
  "targets G t l row = (if is_list l then linked_rows G t (link_col l) row
     else case linked_row G t (link_col l) row of None \<Rightarrow> [] | Some dst \<Rightarrow> [dst])"

type_synonym link_key = "size_t \<times> size_t \<times> size_t"

fun reaches_change :: "link_graph \<Rightarrow> ccb list \<Rightarrow> related_table list \<Rightarrow> nat \<Rightarrow> link_key set \<Rightarrow> size_t \<Rightarrow> size_t \<Rightarrow> bool" where
  "reaches_change G ts rel 0 A t i = False"
| "reaches_change G ts rel (Suc k) A t i =
     (\<exists>l \<in> set (links_of rel t). (t, i, link_col l) \<notin> A \<and> (\<exists>j \<in> set (targets G t l i).
        row_modified ts (link_target G t (link_col l)) j \<or> reaches_change G ts rel k A (link_target G t (link_col l)) j))"

lemma reaches_mono: "reaches_change G ts rel k A t i \<Longrightarrow> k \<le> m \<Longrightarrow> B \<subseteq> A \<Longrightarrow> reaches_change G ts rel m B t i"
proof (induction k arbitrary: m t i)
  case (Suc k)
  then obtain m' where m: "m = Suc m'" "k \<le> m'" by (cases m) auto
  from Suc.prems(1) obtain l j where lj: "l \<in> set (links_of rel t)" "(t, i, link_col l) \<notin> A" "j \<in> set (targets G t l i)"
    "row_modified ts (link_target G t (link_col l)) j \<or> reaches_change G ts rel k A (link_target G t (link_col l)) j" by auto
  then have "row_modified ts (link_target G t (link_col l)) j \<or> reaches_change G ts rel m' B (link_target G t (link_col l)) j"
    using Suc.IH [OF _ m(2) Suc.prems(3)] by blast
  with lj Suc.prems(3) m(1) show ?case by auto
qed simp

text \<open>A way that cannot be started at a row does not come back to it.\<close>

lemma reaches_avoid:
  "reaches_change G ts rel k A t' i' \<Longrightarrow> \<not> reaches_change G ts rel k A t i \<Longrightarrow> reaches_change G ts rel k (insert (t, i, c) A) t' i'"
proof (induction k arbitrary: t' i')
  case (Suc k)
  then obtain l j where lj: "l \<in> set (links_of rel t')" "(t', i', link_col l) \<notin> A" "j \<in> set (targets G t' l i')"
    "row_modified ts (link_target G t' (link_col l)) j \<or> reaches_change G ts rel k A (link_target G t' (link_col l)) j" by auto
  have "(t', i') \<noteq> (t, i)" using Suc.prems by auto
  then have "(t', i', link_col l) \<notin> insert (t, i, c) A" using lj(2) by auto
  moreover have "\<not> reaches_change G ts rel k A t i" using Suc.prems(2) reaches_mono [of G ts rel k A t i "Suc k" A] by auto
  then have "row_modified ts (link_target G t' (link_col l)) j \<or>
      reaches_change G ts rel k (insert (t, i, c) A) (link_target G t' (link_col l)) j"
    using lj(4) Suc.IH by blast
  ultimately show ?case using lj(1,3) by auto
qed simp

lemma reaches_step:
  "reaches_change G ts rel (Suc k) A t i \<Longrightarrow>
   \<exists>l \<in> set (links_of rel t). (t, i, link_col l) \<notin> A \<and> (\<exists>j \<in> set (targets G t l i).
      row_modified ts (link_target G t (link_col l)) j \<or>
      reaches_change G ts rel k (insert (t, i, link_col l) A) (link_target G t (link_col l)) j)"
proof (induction k)
  case 0
  then show ?case by auto
next
  case (Suc k)
  show ?case
  proof (cases "reaches_change G ts rel (Suc k) A t i")
    case True
    from Suc.IH [OF this] show ?thesis using reaches_mono [OF _ le_SucI [OF order_refl] subset_refl] by blast
  next
    case False
    from Suc.prems obtain l j where "l \<in> set (links_of rel t)" "(t, i, link_col l) \<notin> A" "j \<in> set (targets G t l i)"
      "row_modified ts (link_target G t (link_col l)) j \<or> reaches_change G ts rel (Suc k) A (link_target G t (link_col l)) j"
      by (auto simp only: reaches_change.simps(2) [of G ts rel "Suc k"])
    then show ?thesis using reaches_avoid [OF _ False, of _ _ "link_col l"] by blast
  qed
qed

section \<open>The state of a search\<close>

definition path_key :: "path_entry \<Rightarrow> link_key" where
  "path_key p = (path_table p, path_row p, path_col p)"

definition following :: "checker \<Rightarrow> nat \<Rightarrow> nat \<Rightarrow> link_key set" where
  "following st a b = (\<lambda>k. path_key (current_path st ! k)) ` {a..<b}"

definition exceeded :: "checker \<Rightarrow> nat \<Rightarrow> bool" where
  "exceeded st k \<longleftrightarrow> depth_exceeded (current_path st ! k)"

text \<open>Nothing above the depth \<open>d\<close> changes but the flags, which are only set, and no table is forgotten.\<close>

definition above_kept :: "nat \<Rightarrow> checker \<Rightarrow> checker \<Rightarrow> bool" where
  "above_kept d st st' \<longleftrightarrow> length (not_modified st) \<le> length (not_modified st') \<and>
     (\<forall>k < d. path_key (current_path st' ! k) = path_key (current_path st ! k) \<and> (exceeded st k \<longrightarrow> exceeded st' k))"

definition checker_ok :: "nat \<Rightarrow> link_graph \<Rightarrow> ccb list \<Rightarrow> related_table list \<Rightarrow> checker \<Rightarrow> bool" where
  "checker_ok K G ts rel st \<longleftrightarrow> length (current_path st) = 4 \<and>
     (\<forall>t < length (not_modified st). \<exists>S. rep K (not_modified st ! t) S \<and> (\<forall>i \<in> S. \<not> reaches_change G ts rel 3 {} t i))"

lemma above_kept_refl: "above_kept d st st"
  by (simp add: above_kept_def)

lemma above_kept_trans: "above_kept d st st1 \<Longrightarrow> above_kept d st1 st2 \<Longrightarrow> above_kept d st st2"
  by (simp add: above_kept_def)

lemma above_kept_le: "above_kept d st st' \<Longrightarrow> e \<le> d \<Longrightarrow> above_kept e st st'"
  by (simp add: above_kept_def)

lemma following_kept: "above_kept d st st' \<Longrightarrow> b \<le> d \<Longrightarrow> following st' a b = following st a b"
  by (auto simp: above_kept_def following_def image_iff)

lemma exceed_simps [simp]:
  "length (current_path (exceed a b st)) = length (current_path st)" "not_modified (exceed a b st) = not_modified st"
  "k < length (current_path st) \<Longrightarrow> path_key (current_path (exceed a b st) ! k) = path_key (current_path st ! k)"
  "k < length (current_path st) \<Longrightarrow> exceeded (exceed a b st) k \<longleftrightarrow> exceeded st k \<or> a \<le> k \<and> k < b"
  by (auto simp: exceed_def exceeded_def path_key_def Let_def)

text \<open>The rule for both loops: what one turn keeps and shows of its element holds of the whole loop.\<close>

lemma check_any_rule:
  assumes "\<And>x s. x \<in> set xs \<Longrightarrow> I s \<Longrightarrow>
      \<exists>r s'. f x s = Some (r, s') \<and> I s' \<and> above_kept d s s' \<and> (if r then P x else Q x s s')"
    and "\<And>x s0 s1 s2 s3. Q x s1 s2 \<Longrightarrow> above_kept d s0 s1 \<Longrightarrow> above_kept d s2 s3 \<Longrightarrow> Q x s0 s3"
    and "I s"
  shows "\<exists>r s'. check_any f xs s = Some (r, s') \<and> I s' \<and> above_kept d s s' \<and>
      (if r then \<exists>x \<in> set xs. P x else \<forall>x \<in> set xs. Q x s s')"
  using assms(1,3)
proof (induction xs arbitrary: s)
  case Nil
  then show ?case by (intro exI [of _ False]) (auto simp: above_kept_refl)
next
  case (Cons x xs)
  from Cons.prems(1) [of x s] Cons.prems(2) obtain r1 s1 where
    1: "f x s = Some (r1, s1)" "I s1" "above_kept d s s1" "if r1 then P x else Q x s s1" by auto
  show ?case
  proof (cases r1)
    case True
    then show ?thesis using 1 by (intro exI [of _ True] exI [of _ s1]) auto
  next
    case False
    from Cons.IH [OF Cons.prems(1) 1(2)] obtain r s' where
      2: "check_any f xs s1 = Some (r, s')" "I s'" "above_kept d s1 s'"
        "if r then \<exists>x \<in> set xs. P x else \<forall>x \<in> set xs. Q x s1 s'" by auto
    have "Q x s s'" using assms(2) [OF _ above_kept_refl 2(3)] 1(4) False by simp
    moreover have "Q y s s'" if "Q y s1 s'" for y by (rule assms(2) [OF that 1(3) above_kept_refl])
    ultimately show ?thesis using 1 2 False above_kept_trans [OF 1(3) 2(3)]
      by (intro exI [of _ r] exI [of _ s']) auto
  qed
qed

section \<open>The search\<close>

text \<open>What a search with \<open>n\<close> levels left shows of a row when it reaches_change nothing.\<close>

definition found_nothing :: "link_graph \<Rightarrow> ccb list \<Rightarrow> related_table list \<Rightarrow> nat \<Rightarrow> size_t \<Rightarrow> size_t \<Rightarrow> checker \<Rightarrow> checker \<Rightarrow> bool" where
  "found_nothing G ts rel n t i st st' \<longleftrightarrow>
     (let d = 4 - n in
      (0 < n \<and> 0 < d \<longrightarrow> \<not> row_modified ts t i) \<and>
      \<not> reaches_change G ts rel (n - 1) (following st 0 d) t i \<and>
      (\<forall>e. 1 \<le> e \<and> e \<le> d \<and> \<not> exceeded st' (e - 1) \<longrightarrow>
         0 < n \<and> (\<forall>k \<le> 3. \<not> reaches_change G ts rel k (following st e d) t i)))"

text \<open>The same for one link of a row, followed with \<open>n\<close> levels left for the rows it leads to.\<close>

definition link_shows_nothing :: "link_graph \<Rightarrow> ccb list \<Rightarrow> related_table list \<Rightarrow> nat \<Rightarrow> size_t \<Rightarrow> size_t \<Rightarrow> outgoing_link \<Rightarrow>
    checker \<Rightarrow> checker \<Rightarrow> bool" where
  "link_shows_nothing G ts rel n t i l st st' \<longleftrightarrow>
     (let d = 3 - n; key = (t, i, link_col l); u = link_target G t (link_col l) in
      (key \<in> following st 0 d \<or> (\<forall>j \<in> set (targets G t l i).
         (0 < n \<longrightarrow> \<not> row_modified ts u j) \<and> \<not> reaches_change G ts rel (n - 1) (insert key (following st 0 d)) u j)) \<and>
      (\<forall>e. 1 \<le> e \<and> e \<le> d \<and> \<not> exceeded st' (e - 1) \<longrightarrow>
         key \<in> following st e d \<or> (\<forall>j \<in> set (targets G t l i).
           0 < n \<and> \<not> row_modified ts u j \<and> (\<forall>k \<le> 3. \<not> reaches_change G ts rel k (insert key (following st e d)) u j))))"

lemma found_nothing_mono:
  assumes "found_nothing G ts rel n t i s1 s2" "above_kept d s0 s1" "above_kept d s2 s3" "4 - n \<le> d"
  shows "found_nothing G ts rel n t i s0 s3"
proof -
  have f: "following s1 a (4 - n) = following s0 a (4 - n)" for a by (rule following_kept [OF assms(2,4)])
  have e: "\<not> exceeded s2 (e - 1)" if "1 \<le> e" "e \<le> 4 - n" "\<not> exceeded s3 (e - 1)" for e
  proof -
    have "e - 1 < d" using that(1,2) assms(4) by linarith
    then show ?thesis using assms(3) that(3) unfolding above_kept_def by blast
  qed
  show ?thesis using assms(1) e by (auto simp: found_nothing_def Let_def f)
qed

lemma link_shows_nothing_mono:
  assumes "link_shows_nothing G ts rel n t i l s1 s2" "above_kept d s0 s1" "above_kept d s2 s3" "3 - n \<le> d"
  shows "link_shows_nothing G ts rel n t i l s0 s3"
proof -
  have f: "following s1 a (3 - n) = following s0 a (3 - n)" for a by (rule following_kept [OF assms(2,4)])
  have e: "\<not> exceeded s2 (e - 1)" if "1 \<le> e" "e \<le> 3 - n" "\<not> exceeded s3 (e - 1)" for e
  proof -
    have "e - 1 < d" using that(1,2) assms(4) by linarith
    then show ?thesis using assms(3) that(3) unfolding above_kept_def by blast
  qed
  show ?thesis using assms(1) e unfolding link_shows_nothing_def Let_def f by blast
qed

lemma already_checking_cases:
  assumes "length (current_path st) = 4" "d < 4"
  obtains (busy) m where "already_checking d t i c st = (True, exceed m d st)" "m < d" "path_key (current_path st ! m) = (t, i, c)"
  | (free) st1 where "already_checking d t i c st = (False, st1)" "(t, i, c) \<notin> following st 0 d" "above_kept d st st1"
      "length (current_path st1) = 4" "not_modified st1 = not_modified st" "path_key (current_path st1 ! d) = (t, i, c)"
proof -
  let ?P = "\<lambda>p. \<not> (path_table p = t \<and> path_row p = i \<and> path_col p = c)"
  let ?xs = "take d (current_path st)"
  define m where "m = length (takeWhile ?P ?xs)"
  have l: "length ?xs = d" using assms by simp
  show thesis
  proof (cases "m < d")
    case True
    then have "\<not> ?P (?xs ! m)" unfolding m_def using l nth_length_takeWhile [of ?P ?xs] by simp
    then have "path_key (current_path st ! m) = (t, i, c)" using True by (auto simp: path_key_def)
    moreover have "already_checking d t i c st = (True, exceed m d st)"
      unfolding already_checking_def Let_def m_def [symmetric] using True by simp
    ultimately show ?thesis using True busy by blast
  next
    case False
    let ?e = "\<lparr>path_table = t, path_row = i, path_col = c, depth_exceeded = False\<rparr>"
    have "takeWhile ?P ?xs = take m ?xs" unfolding m_def by (rule takeWhile_eq_take)
    also have "\<dots> = ?xs" using False l by (intro take_all) simp
    finally have "takeWhile ?P ?xs = ?xs" .
    then have n: "\<forall>p \<in> set ?xs. ?P p" by (simp only: takeWhile_eq_all_conv)
    have "(t, i, c) \<notin> following st 0 d"
    proof
      assume "(t, i, c) \<in> following st 0 d"
      then obtain k where k: "k < d" "path_key (current_path st ! k) = (t, i, c)" by (auto simp: following_def)
      have "?xs ! k \<in> set ?xs" using k(1) l by (metis nth_mem)
      with n k show False by (auto simp: path_key_def)
    qed
    moreover have "already_checking d t i c st = (False, st\<lparr>current_path := (current_path st)[d := ?e]\<rparr>)"
      unfolding already_checking_def Let_def m_def [symmetric] using False by simp
    moreover have "above_kept d st (st\<lparr>current_path := (current_path st)[d := ?e]\<rparr>)"
      by (auto simp: above_kept_def exceeded_def)
    ultimately show ?thesis using free assms by (simp add: path_key_def)
  qed
qed


lemma following_Suc: "e \<le> d \<Longrightarrow> following st e (Suc d) = insert (path_key (current_path st ! d)) (following st e d)"
  by (simp add: following_def atLeastLessThanSuc)

text \<open>One link, given that the search of the rows it leads to is right.\<close>

lemma linked_object_finds:
  assumes visit: "\<And>u j s. checker_ok K G ts rel s \<Longrightarrow> \<exists>r s'. visit u j s = Some (r, s') \<and> checker_ok K G ts rel s' \<and>
      above_kept (4 - n) s s' \<and>
      (if r then 0 < n \<and> (row_modified ts u j \<or> reaches_change G ts rel (n - 1) {} u j) else found_nothing G ts rel n u j s s')"
    and "n < 4" "checker_ok K G ts rel st"
  shows "\<exists>r s'. linked_object_changed visit G (3 - n) t i l st = Some (r, s') \<and> checker_ok K G ts rel s' \<and>
      above_kept (3 - n) st s' \<and>
      (if r then 0 < n \<and> (\<exists>j \<in> set (targets G t l i). row_modified ts (link_target G t (link_col l)) j \<or>
                   reaches_change G ts rel (n - 1) {} (link_target G t (link_col l)) j)
       else link_shows_nothing G ts rel n t i l st s')"
proof -
  let ?d = "3 - n" and ?u = "link_target G t (link_col l)"
  have d: "4 - n = Suc ?d" "?d < 4" using assms(2) by linarith+
  have ok: "length (current_path st) = 4" using assms(3) by (simp add: checker_ok_def)
  from ok d(2) show ?thesis
  proof (cases rule: already_checking_cases [of st ?d t i "link_col l"])
    case (busy m)
    let ?s = "exceed m ?d st"
    have "checker_ok K G ts rel ?s" using assms(3) by (simp add: checker_ok_def)
    moreover have "above_kept ?d st ?s" using ok d(2) by (simp add: above_kept_def)
    moreover have "link_shows_nothing G ts rel n t i l st ?s"
    proof -
      have "(t, i, link_col l) \<in> following st 0 ?d" using busy(2,3) by (force simp: following_def)
      moreover have "(t, i, link_col l) \<in> following st e ?d" if "1 \<le> e" "e \<le> ?d" "\<not> exceeded ?s (e - 1)" for e
      proof -
        have "e \<le> m" using that ok d(2) by auto
        then show ?thesis using busy(2,3) by (force simp: following_def)
      qed
      ultimately show ?thesis by (auto simp: link_shows_nothing_def Let_def)
    qed
    moreover have "linked_object_changed visit G ?d t i l st = Some (False, ?s)"
      using busy(1) by (simp add: linked_object_changed_def Let_def)
    ultimately show ?thesis by auto
  next
    case (free st1)
    have ok1: "checker_ok K G ts rel st1" using assms(3) free(4,5) by (simp add: checker_ok_def)
    have f1: "following st1 e (4 - n) = insert (t, i, link_col l) (following st e ?d)" if "e \<le> ?d" for e
      using that following_kept [OF free(3) order_refl] free(6) by (simp add: d(1) following_Suc)
    have "\<exists>r s'. check_any (visit ?u) (targets G t l i) st1 = Some (r, s') \<and> checker_ok K G ts rel s' \<and>
        above_kept (4 - n) st1 s' \<and>
        (if r then \<exists>j \<in> set (targets G t l i). 0 < n \<and> (row_modified ts ?u j \<or> reaches_change G ts rel (n - 1) {} ?u j)
         else \<forall>j \<in> set (targets G t l i). found_nothing G ts rel n ?u j st1 s')"
      by (rule check_any_rule) (use visit ok1 found_nothing_mono [of G ts rel n] in blast)+
    then obtain r s' where 2: "check_any (visit ?u) (targets G t l i) st1 = Some (r, s')" "checker_ok K G ts rel s'"
        "above_kept (4 - n) st1 s'"
        "if r then \<exists>j \<in> set (targets G t l i). 0 < n \<and> (row_modified ts ?u j \<or> reaches_change G ts rel (n - 1) {} ?u j)
         else \<forall>j \<in> set (targets G t l i). found_nothing G ts rel n ?u j st1 s'" by blast
    have "linked_object_changed visit G ?d t i l st = Some (r, s')"
    proof (cases "is_list l \<or> linked_row G t (link_col l) i = None")
      case True
      then show ?thesis using 2(1) free(1) by (auto simp: linked_object_changed_def targets_def Let_def)
    next
      case False
      then obtain j where "linked_row G t (link_col l) i = Some j" "\<not> is_list l" by auto
      moreover from this 2(1) have "visit ?u j st1 = Some (r, s')"
        by (auto simp: targets_def split: bind_splits prod.splits if_splits)
      ultimately show ?thesis using free(1) by (simp add: linked_object_changed_def Let_def)
    qed
    moreover have "above_kept ?d st s'"
      using above_kept_trans [OF free(3) above_kept_le [OF 2(3)]] d by simp
    moreover have "link_shows_nothing G ts rel n t i l st s'" if "\<not> r"
    proof -
      have a: "found_nothing G ts rel n ?u j st1 s'" if "j \<in> set (targets G t l i)" for j using 2(4) \<open>\<not> r\<close> that by simp
      have "(0 < n \<longrightarrow> \<not> row_modified ts ?u j) \<and>
          \<not> reaches_change G ts rel (n - 1) (insert (t, i, link_col l) (following st 0 ?d)) ?u j"
        if "j \<in> set (targets G t l i)" for j
        using a [OF that] f1 [of 0] d(1) by (simp add: found_nothing_def Let_def)
      moreover have "0 < n \<and> \<not> row_modified ts ?u j \<and>
          (\<forall>k \<le> 3. \<not> reaches_change G ts rel k (insert (t, i, link_col l) (following st e ?d)) ?u j)"
        if "j \<in> set (targets G t l i)" "1 \<le> e" "e \<le> ?d" "\<not> exceeded s' (e - 1)" for j e
      proof -
        have "e \<le> 4 - n" using that(3) by linarith
        then show ?thesis using a [OF that(1)] that(2,4) f1 [OF that(3)] d(1) by (auto simp: found_nothing_def Let_def)
      qed
      ultimately show ?thesis unfolding link_shows_nothing_def Let_def by blast
    qed
    ultimately show ?thesis using 2(2,4) by (intro exI [of _ r] exI [of _ s']) auto
  qed
qed

text \<open>All links of a row.\<close>

lemma links_show_nothing:
  assumes "\<forall>l \<in> set (links_of rel t). link_shows_nothing G ts rel n t i l st st'" "n < 4"
  shows "\<not> reaches_change G ts rel n (following st 0 (3 - n)) t i"
    and "1 \<le> e \<Longrightarrow> e \<le> 3 - n \<Longrightarrow> \<not> exceeded st' (e - 1) \<Longrightarrow> \<not> reaches_change G ts rel k (following st e (3 - n)) t i \<or> 3 < k"
proof -
  note l = assms(1) [unfolded link_shows_nothing_def Let_def, rule_format]
  show "\<not> reaches_change G ts rel n (following st 0 (3 - n)) t i"
  proof
    assume f: "reaches_change G ts rel n (following st 0 (3 - n)) t i"
    then obtain m where m: "n = Suc m" by (cases n) auto
    from reaches_step [OF f [unfolded m]] l m show False by fastforce
  qed
  show "\<not> reaches_change G ts rel k (following st e (3 - n)) t i \<or> 3 < k" if e: "1 \<le> e" "e \<le> 3 - n" "\<not> exceeded st' (e - 1)"
  proof (rule ccontr)
    assume "\<not> ?thesis"
    then have f: "reaches_change G ts rel k (following st e (3 - n)) t i" "k \<le> 3" by auto
    then obtain m where m: "k = Suc m" by (cases k) auto
    then have "m \<le> 3" using f(2) by simp
    with reaches_step [OF f(1) [unfolded m]] l e show False by blast
  qed
qed


text \<open>A row whose links show nothing shows nothing itself, and may be remembered when no link above it was cut off.\<close>

lemma row_shows_nothing:
  assumes "\<forall>l \<in> set (links_of rel t). link_shows_nothing G ts rel n t i l st st'" "n < 4"
    "3 - n \<noteq> 0 \<longrightarrow> \<not> row_modified ts t i"
  shows "found_nothing G ts rel (Suc n) t i st st'"
    and "3 - n = 0 \<or> \<not> exceeded st' (3 - n - 1) \<Longrightarrow> \<not> reaches_change G ts rel 3 {} t i"
proof -
  note l = links_show_nothing [OF assms(1,2)]
  have d: "4 - Suc n = 3 - n" by simp
  show "found_nothing G ts rel (Suc n) t i st st'"
    unfolding found_nothing_def Let_def d using l(1) assms(3) l(2) leD by (auto simp flip: One_nat_def)
  show "\<not> reaches_change G ts rel 3 {} t i" if "3 - n = 0 \<or> \<not> exceeded st' (3 - n - 1)"
  proof (cases "3 - n = 0")
    case True
    then have "n = 3" using assms(2) by simp
    then show ?thesis using l(1) by (simp add: following_def)
  next
    case False
    then show ?thesis using l(2) [of "3 - n" 3] that by (simp add: following_def)
  qed
qed

lemma known_row_shows_nothing:
  assumes "\<not> reaches_change G ts rel 3 {} t i" "n < 4" "3 - n \<noteq> 0 \<longrightarrow> \<not> row_modified ts t i"
  shows "found_nothing G ts rel (Suc n) t i st st'"
proof -
  have "\<not> reaches_change G ts rel k A t i" if "k \<le> 3" for k A using reaches_mono [of G ts rel k A t i 3 "{}"] assms(1) that by blast
  then show ?thesis using assms(2,3) by (simp add: found_nothing_def Let_def)
qed

lemma remembered:
  assumes "checker_ok K G ts rel st" "t < length (not_modified st)"
  shows "contains (not_modified st ! t) i \<Longrightarrow> \<not> reaches_change G ts rel 3 {} t i"
    and "\<not> reaches_change G ts rel 3 {} t i \<Longrightarrow> \<exists>s. add K (not_modified st ! t) i = Some s \<and>
      checker_ok K G ts rel (st\<lparr>not_modified := (not_modified st)[t := s]\<rparr>)"
proof -
  obtain S where S: "rep K (not_modified st ! t) S" "\<forall>i \<in> S. \<not> reaches_change G ts rel 3 {} t i"
    using assms by (auto simp: checker_ok_def)
  show "\<not> reaches_change G ts rel 3 {} t i" if "contains (not_modified st ! t) i" using that S ixs.mem [OF S(1)] by blast
  show "\<exists>s. add K (not_modified st ! t) i = Some s \<and>
      checker_ok K G ts rel (st\<lparr>not_modified := (not_modified st)[t := s]\<rparr>)" if "\<not> reaches_change G ts rel 3 {} t i"
  proof -
    from ixs.ins [OF S(1), of i] obtain s where s: "add K (not_modified st ! t) i = Some s" "rep K s (insert i S)" by blast
    have "\<exists>S. rep K ((not_modified st)[t := s] ! u) S \<and> (\<forall>i \<in> S. \<not> reaches_change G ts rel 3 {} u i)"
      if "u < length (not_modified st)" for u
    proof (cases "u = t")
      case True
      then show ?thesis using s(2) S(2) \<open>\<not> reaches_change G ts rel 3 {} t i\<close> assms(2)
        by (intro exI [of _ "insert i S"]) (simp del: insert_iff add: ball_simps(7))
    next
      case False
      then show ?thesis using assms(1) that by (simp add: checker_ok_def)
    qed
    then have "checker_ok K G ts rel (st\<lparr>not_modified := (not_modified st)[t := s]\<rparr>)"
      using assms(1) by (simp add: checker_ok_def)
    with s(1) show ?thesis by blast
  qed
qed

lemma make_room:
  fixes t :: size_t
  assumes "checker_ok K G ts rel st" "even K" "0 < K"
  defines "st1 \<equiv> (if length (not_modified st) \<le> t then st\<lparr>not_modified := resize [] (t + 1) (not_modified st)\<rparr> else st)"
  shows "checker_ok K G ts rel st1" "t < length (not_modified st1)" "above_kept d st st1"
proof -
  have "\<exists>S. rep K (not_modified st1 ! u) S \<and> (\<forall>i \<in> S. \<not> reaches_change G ts rel 3 {} u i)"
    if "u < length (not_modified st1)" for u
  proof (cases "u < length (not_modified st)")
    case True
    then have "not_modified st1 ! u = not_modified st ! u" by (simp add: st1_def resize_def nth_append)
    then show ?thesis using True assms(1) by (simp add: checker_ok_def)
  next
    case False
    then have "not_modified st1 ! u = []" using that by (auto simp: st1_def resize_def nth_append split: if_splits)
    then show ?thesis using rep_Nil [OF assms(2,3)] by auto
  qed
  moreover have "current_path st1 = current_path st" by (simp add: st1_def)
  ultimately show "checker_ok K G ts rel st1" using assms(1) by (simp add: checker_ok_def)
  have n: "length (not_modified st1) = max (length (not_modified st)) (t + 1)"
    unfolding st1_def by (cases "length (not_modified st) \<le> t") simp_all
  then show "t < length (not_modified st1)" by simp
  have "current_path st1 = current_path st" by (simp add: st1_def)
  then show "above_kept d st st1" using n by (simp add: above_kept_def exceeded_def)
qed

theorem check_row_finds:
  assumes "even K" "0 < K" "n \<le> 4" "checker_ok K G ts rel st"
  shows "\<exists>r st'. check_row K G ts rel n t i st = Some (r, st') \<and> checker_ok K G ts rel st' \<and>
    above_kept (4 - n) st st' \<and>
    (if r then 0 < n \<and> (row_modified ts t i \<or> reaches_change G ts rel (n - 1) {} t i) else found_nothing G ts rel n t i st st')"
  using assms(3,4)
proof (induction n arbitrary: t i st)
  case 0
  have "length (current_path st) = 4" using 0 by (simp add: checker_ok_def)
  then have "checker_ok K G ts rel (exceed 0 4 st)" "above_kept (4 - 0) st (exceed 0 4 st)"
    "exceeded (exceed 0 4 st) (e - 1)" if "1 \<le> e" "e \<le> 4" for e
    using 0(2) that by (auto simp: checker_ok_def above_kept_def intro: disjI2)
  from this(1) [of 1] this(2) [of 1] this(3) show ?case by (auto simp: found_nothing_def)
next
  case (Suc n)
  have n: "n < 4" "4 - Suc n = 3 - n" "n \<le> 4" using Suc.prems(1) by linarith+
  define st1 where "st1 = (if length (not_modified st) \<le> t
    then st\<lparr>not_modified := resize [] (t + 1) (not_modified st)\<rparr> else st)"
  note m = make_room [where t = t, OF Suc.prems(2) assms(1,2), folded st1_def]
  note unfolded = check_row.simps(2) [of K G ts rel n t i st, unfolded Let_def n(2), folded st1_def]
  show ?case
  proof (cases "0 < 3 - n \<and> row_modified ts t i")
    case True
    then have "check_row K G ts rel (Suc n) t i st = Some (True, st)" unfolding unfolded by simp
    then show ?thesis using True Suc.prems(2) above_kept_refl by (intro exI [of _ True] exI [of _ st]) auto
  next
    case False
    then have no: "3 - n \<noteq> 0 \<longrightarrow> \<not> row_modified ts t i" by simp
    show ?thesis
    proof (cases "contains (not_modified st1 ! t) i")
      case True
      then have "check_row K G ts rel (Suc n) t i st = Some (False, st1)" unfolding unfolded using False by simp
      moreover have "found_nothing G ts rel (Suc n) t i st st1"
        by (rule known_row_shows_nothing [OF remembered(1) [OF m(1,2) True] n(1) no])
      ultimately show ?thesis using m(1,3) by (intro exI [of _ False] exI [of _ st1]) (simp add: n(2))
    next
      case new: False
      let ?f = "linked_object_changed (check_row K G ts rel n) G (3 - n) t i"
      let ?P = "\<lambda>l. 0 < n \<and> (\<exists>j \<in> set (targets G t l i). row_modified ts (link_target G t (link_col l)) j \<or>
        reaches_change G ts rel (n - 1) {} (link_target G t (link_col l)) j)"
      have "\<exists>r s'. ?f l s = Some (r, s') \<and> checker_ok K G ts rel s' \<and> above_kept (3 - n) s s' \<and>
          (if r then ?P l else link_shows_nothing G ts rel n t i l s s')" if "checker_ok K G ts rel s" for l s
        using linked_object_finds [where visit = "check_row K G ts rel n", OF Suc.IH [OF n(3)] n(1) that] by simp
      then have "\<exists>r s'. check_any ?f (links_of rel t) st1 = Some (r, s') \<and> checker_ok K G ts rel s' \<and> above_kept (3 - n) st1 s' \<and>
          (if r then \<exists>l \<in> set (links_of rel t). ?P l else \<forall>l \<in> set (links_of rel t). link_shows_nothing G ts rel n t i l st1 s')"
        by (intro check_any_rule) (use m(1) link_shows_nothing_mono [of G ts rel n] in blast)+
      then obtain r s' where 2: "check_any ?f (links_of rel t) st1 = Some (r, s')" "checker_ok K G ts rel s'"
          "above_kept (3 - n) st1 s'"
          "if r then \<exists>l \<in> set (links_of rel t). ?P l else \<forall>l \<in> set (links_of rel t). link_shows_nothing G ts rel n t i l st1 s'"
        by blast
      have c: "check_outgoing_links (check_row K G ts rel n) G rel (3 - n) t i st1 = Some (r, s')"
        using 2(1) by (auto simp: check_outgoing_links_def links_of_def split: option.splits)
      have t: "t < length (not_modified s')" using m(2) 2(3) by (simp add: above_kept_def)
      have up: "above_kept (3 - n) st s'" by (rule above_kept_trans [OF m(3) 2(3)])
      show ?thesis
      proof (cases r)
        case True
        then obtain l j where lj: "0 < n" "l \<in> set (links_of rel t)" "j \<in> set (targets G t l i)"
          "row_modified ts (link_target G t (link_col l)) j \<or> reaches_change G ts rel (n - 1) {} (link_target G t (link_col l)) j"
          using 2(4) by auto
        then obtain m where "n = Suc m" by (cases n) auto
        with lj have "reaches_change G ts rel n {} t i" by auto
        moreover have "check_row K G ts rel (Suc n) t i st = Some (True, s')"
          unfolding unfolded using False new c True by auto
        ultimately show ?thesis using 2(2) up by (intro exI [of _ True] exI [of _ s']) (simp add: n(2))
      next
        case none: False
        then have l: "\<forall>l \<in> set (links_of rel t). link_shows_nothing G ts rel n t i l st s'"
          using 2(4) link_shows_nothing_mono [OF _ m(3) above_kept_refl order_refl] by auto
        note row = row_shows_nothing [OF l n(1) no]
        have r: "r = False" using none by simp
        note c = c [unfolded r]
        let ?keep = "3 - n = 0 \<or> \<not> depth_exceeded (current_path s' ! (3 - n - 1))"
        show ?thesis
        proof (cases ?keep)
          case True
          then have "3 - n = 0 \<or> \<not> exceeded s' (3 - n - 1)" unfolding exceeded_def .
          from remembered(2) [OF 2(2) t row(2) [OF this]] obtain s where
            s: "add K (not_modified s' ! t) i = Some s" "checker_ok K G ts rel (s'\<lparr>not_modified := (not_modified s')[t := s]\<rparr>)"
            by blast
          let ?s = "s'\<lparr>not_modified := (not_modified s')[t := s]\<rparr>"
          have "check_row K G ts rel (Suc n) t i st = Some (False, ?s)"
            unfolding unfolded using False new c True s(1) by simp
          moreover have "above_kept (3 - n) st ?s" using up by (simp add: above_kept_def exceeded_def)
          moreover have "found_nothing G ts rel (Suc n) t i st ?s"
            using row(1) by (simp add: found_nothing_def exceeded_def)
          ultimately show ?thesis using s(2) by (intro exI [of _ False] exI [of _ ?s]) (simp add: n(2))
        next
          case no_keep: False
          then have "check_row K G ts rel (Suc n) t i st = Some (False, s')"
            unfolding unfolded using False new c no_keep by simp
          then show ?thesis using row(1) 2(2) up by (intro exI [of _ False] exI [of _ s']) (simp add: n(2))
        qed
      qed
    qed
  qed
qed

end
