(* ===== verification/Notify_Related.thy ===== *)
theory Notify_Related
  imports Notify_Reach
begin

text \<open>
  The tables that \<open>find_related_tables\<close> collects are those that links lead to, each once and with all of
  its link columns; the number of tables bounds the depth of the recursion.
\<close>

section \<open>Links between tables and between rows\<close>

definition is_link :: "link_graph \<Rightarrow> size_t \<Rightarrow> size_t \<Rightarrow> bool" where
  "is_link G t c \<longleftrightarrow> link_types G t ! c = Link_Column \<or> link_types G t ! c = Link_Rows_Column"

definition as_link :: "link_graph \<Rightarrow> size_t \<Rightarrow> size_t \<Rightarrow> outgoing_link" where
  "as_link G t c = \<lparr>link_col = c, is_list = (link_types G t ! c = Link_Rows_Column)\<rparr>"

definition link_cols :: "link_graph \<Rightarrow> size_t \<Rightarrow> size_t list" where
  "link_cols G t = filter (is_link G t) [0..<length (link_types G t)]"

definition table_links :: "link_graph \<Rightarrow> (size_t \<times> size_t) set" where
  "table_links G = {(t, u). \<exists>c \<in> set (link_cols G t). u = link_target G t c}"

definition row_links :: "link_graph \<Rightarrow> ((size_t \<times> size_t) \<times> (size_t \<times> size_t)) set" where
  "row_links G = {((t, i), (u, j)). \<exists>c \<in> set (link_cols G t). u = link_target G t c \<and> j \<in> set (targets G t (as_link G t c) i)}"

lemma row_linkI:
  "c \<in> set (link_cols G t) \<Longrightarrow> j \<in> set (targets G t (as_link G t c) i) \<Longrightarrow> ((t, i), (link_target G t c, j)) \<in> row_links G"
  by (auto simp: row_links_def)

text \<open>The file has \<open>n\<close> tables, and links stay in it.\<close>

definition graph_ok :: "link_graph \<Rightarrow> nat \<Rightarrow> bool" where
  "graph_ok G n \<longleftrightarrow> n \<le> npos \<and> (\<forall>t < n. \<forall>c \<in> set (link_cols G t). link_target G t c < n)"

definition entry_ok :: "link_graph \<Rightarrow> related_table list \<Rightarrow> related_table \<Rightarrow> bool" where
  "entry_ok G out r \<longleftrightarrow> links r = map (as_link G (related_ndx r)) (link_cols G (related_ndx r)) \<and>
     table_links G `` {related_ndx r} \<subseteq> related_ndx ` set out"

lemma entry_ok_mono: "entry_ok G out r \<Longrightarrow> related_ndx ` set out \<subseteq> related_ndx ` set out' \<Longrightarrow> entry_ok G out' r"
  by (auto simp: entry_ok_def)

section \<open>The collection\<close>

definition related_ok :: "nat \<Rightarrow> related_table list \<Rightarrow> bool" where
  "related_ok n out \<longleftrightarrow> distinct (map related_ndx out) \<and> related_ndx ` set out \<subseteq> {..<n}"

lemma related_ok_length: "related_ok n out \<Longrightarrow> length out \<le> n"
  by (metis card_lessThan card_mono distinct_card finite_lessThan length_map set_map related_ok_def)

definition collects :: "link_graph \<Rightarrow> nat \<Rightarrow> nat \<Rightarrow> (related_table list \<Rightarrow> size_t \<Rightarrow> related_table list option) \<Rightarrow> bool" where
  "collects G n f visit \<longleftrightarrow> (\<forall>out t. related_ok n out \<longrightarrow> t < n \<longrightarrow> n < f + length out \<longrightarrow>
     (\<exists>new. visit out t = Some (out @ new) \<and> related_ok n (out @ new) \<and> t \<in> related_ndx ` set (out @ new) \<and>
        (\<forall>r \<in> set new. (t, related_ndx r) \<in> (table_links G)\<^sup>* \<and> entry_ok G (out @ new) r)))"

lemma add_link_at: "add_link (length pre) l (pre @ r # post) = pre @ r\<lparr>links := links r @ [l]\<rparr> # post"
  by (simp add: add_link_def nth_append list_update_append)

lemma related_columns_collects:
  assumes "graph_ok G n" "collects G n f visit" "t < n"
  shows "\<lbrakk>related_ok n (pre @ \<lparr>related_ndx = t, links = ls\<rparr> # post); n < f + length (pre @ \<lparr>related_ndx = t, links = ls\<rparr> # post);
      set cols \<subseteq> {..<length (link_types G t)}\<rbrakk> \<Longrightarrow>
    \<exists>new. let out' = pre @ \<lparr>related_ndx = t, links = ls @ map (as_link G t) (filter (is_link G t) cols)\<rparr> # post @ new in
      related_columns visit G t (length pre) cols (pre @ \<lparr>related_ndx = t, links = ls\<rparr> # post) = Some out' \<and>
      related_ok n out' \<and> (\<forall>c \<in> set cols. is_link G t c \<longrightarrow> link_target G t c \<in> related_ndx ` set out') \<and>
      (\<forall>r \<in> set new. (t, related_ndx r) \<in> (table_links G)\<^sup>* \<and> entry_ok G out' r)"
proof (induction cols arbitrary: ls post)
  case Nil
  then show ?case by (intro exI [of _ "[]"]) simp
next
  case (Cons c cs)
  show ?case
  proof (cases "is_link G t c")
    case False
    then show ?thesis using Cons by (simp add: is_link_def Let_def)
  next
    case True
    let ?u = "link_target G t c" and ?e = "\<lambda>ls. \<lparr>related_ndx = t, links = ls\<rparr>"
    let ?out = "pre @ ?e (ls @ [as_link G t c]) # post"
    have c: "c \<in> set (link_cols G t)" using True Cons.prems(3) by (simp add: link_cols_def)
    then have u: "?u < n" "(t, ?u) \<in> table_links G" using assms(1,3) by (auto simp: graph_ok_def table_links_def)
    have "related_ok n ?out" "n < f + length ?out" using Cons.prems(1,2) by (simp_all add: related_ok_def)
    then obtain new where 1: "visit ?out ?u = Some (?out @ new)" "related_ok n (?out @ new)"
        "?u \<in> related_ndx ` set (?out @ new)"
        "\<forall>r \<in> set new. (?u, related_ndx r) \<in> (table_links G)\<^sup>* \<and> entry_ok G (?out @ new) r"
      using assms(2) u(1) unfolding collects_def by blast
    have eq: "?out @ new = pre @ ?e (ls @ [as_link G t c]) # (post @ new)" by simp
    have sz: "set cs \<subseteq> {..<length (link_types G t)}" "n < f + length (?out @ new)" using Cons.prems(2,3) by simp_all
    let ?out' = "\<lambda>new'. pre @ ?e ((ls @ [as_link G t c]) @ map (as_link G t) (filter (is_link G t) cs)) # (post @ new) @ new'"
    from Cons.IH [OF 1(2) [unfolded eq] sz(2) [unfolded eq] sz(1)] obtain new' where
      2: "related_columns visit G t (length pre) cs (?out @ new) = Some (?out' new')"
        "related_ok n (?out' new')" "\<forall>c \<in> set cs. is_link G t c \<longrightarrow> link_target G t c \<in> related_ndx ` set (?out' new')"
        "\<forall>r \<in> set new'. (t, related_ndx r) \<in> (table_links G)\<^sup>* \<and> entry_ok G (?out' new') r"
      by (auto simp: Let_def)
    have sub: "related_ndx ` set (?out @ new) \<subseteq> related_ndx ` set (?out' new')" by auto
    have "related_columns visit G t (length pre) (c # cs) (pre @ ?e ls # post) = Some (?out' new')"
      using True 1(1) 2(1) by (auto simp: is_link_def add_link_at as_link_def)
    moreover have "?u \<in> related_ndx ` set (?out' new')" using 1(3) sub by blast
    moreover have "(t, related_ndx r) \<in> (table_links G)\<^sup>* \<and> entry_ok G (?out' new') r" if "r \<in> set (new @ new')" for r
    proof (cases "r \<in> set new")
      case True
      then show ?thesis using 1(4) u(2) entry_ok_mono [OF _ sub] by (meson converse_rtrancl_into_rtrancl)
    next
      case False
      then show ?thesis using 2(4) that by simp
    qed
    ultimately show ?thesis using 2(2,3) True by (intro exI [of _ "new @ new'"]) (simp add: Let_def)
  qed
qed

lemma find_related_collects: "graph_ok G n \<Longrightarrow> collects G n f (find_related_tables f G)"
proof (induction f)
  case 0
  have "\<not> n < 0 + length out" if "related_ok n out" for out using related_ok_length [OF that] by simp
  then show ?case by (auto simp: collects_def)
next
  case (Suc f)
  show ?case unfolding collects_def
  proof (intro allI impI)
    fix out t assume a: "related_ok n out" "t < n" "n < Suc f + length out"
    have "t \<noteq> npos" using a(2) Suc.prems by (auto simp: graph_ok_def)
    show "\<exists>new. find_related_tables (Suc f) G out t = Some (out @ new) \<and> related_ok n (out @ new) \<and>
        t \<in> related_ndx ` set (out @ new) \<and>
        (\<forall>r \<in> set new. (t, related_ndx r) \<in> (table_links G)\<^sup>* \<and> entry_ok G (out @ new) r)"
    proof (cases "t \<in> related_ndx ` set out")
      case True
      then have "list_ex (\<lambda>tbl. related_ndx tbl = t) out" by (auto simp: list_ex_iff)
      then show ?thesis using a(1) True \<open>t \<noteq> npos\<close> by (intro exI [of _ "[]"]) simp
    next
      case False
      let ?e = "\<lambda>ls. \<lparr>related_ndx = t, links = ls\<rparr>"
      have no: "\<not> list_ex (\<lambda>tbl. related_ndx tbl = t) out" using False by (auto simp: list_ex_iff)
      have "related_ok n (out @ [?e []])" "n < f + length (out @ [?e []])"
        "set [0..<length (link_types G t)] \<subseteq> {..<length (link_types G t)}" using a False by (auto simp: related_ok_def)
      from related_columns_collects [OF Suc.prems Suc.IH [OF Suc.prems] a(2), of out "[]" "[]", OF this]
      obtain new' where new': "related_columns (find_related_tables f G) G t (length out) [0..<length (link_types G t)]
            (out @ [?e []]) = Some (out @ ?e (map (as_link G t) (link_cols G t)) # new')"
          "related_ok n (out @ ?e (map (as_link G t) (link_cols G t)) # new')"
          "\<forall>c \<in> set [0..<length (link_types G t)]. is_link G t c \<longrightarrow>
             link_target G t c \<in> related_ndx ` set (out @ ?e (map (as_link G t) (link_cols G t)) # new')"
          "\<forall>r \<in> set new'. (t, related_ndx r) \<in> (table_links G)\<^sup>* \<and>
             entry_ok G (out @ ?e (map (as_link G t) (link_cols G t)) # new') r"
        by (auto simp: Let_def link_cols_def)
      let ?new = "?e (map (as_link G t) (link_cols G t)) # new'"
      note new = new'
      have "entry_ok G (out @ ?new) (?e (map (as_link G t) (link_cols G t)))"
        using new(3) by (auto simp: entry_ok_def table_links_def link_cols_def)
      then show ?thesis using new \<open>t \<noteq> npos\<close> no by (intro exI [of _ ?new]) simp
    qed
  qed
qed

lemma find_related_tables_complete:
  assumes "graph_ok G n" "root < n"
  shows "\<exists>rel. find_related_tables (Suc n) G [] root = Some rel \<and> distinct (map related_ndx rel) \<and>
    related_ndx ` set rel = (table_links G)\<^sup>* `` {root} \<and>
    (\<forall>r \<in> set rel. links r = map (as_link G (related_ndx r)) (link_cols G (related_ndx r)))"
proof -
  have "related_ok n []" by (simp add: related_ok_def)
  then obtain rel where rel: "find_related_tables (Suc n) G [] root = Some rel" "related_ok n rel" "root \<in> related_ndx ` set rel"
    "\<forall>r \<in> set rel. (root, related_ndx r) \<in> (table_links G)\<^sup>* \<and> entry_ok G rel r"
    using find_related_collects [OF assms(1), of "Suc n", unfolded collects_def, rule_format, OF \<open>related_ok n []\<close> assms(2)]
    by (auto simp del: find_related_tables.simps)
  have "u \<in> related_ndx ` set rel" if "(root, u) \<in> (table_links G)\<^sup>*" for u
    using that
  proof induction
    case (step u v)
    then obtain r where "r \<in> set rel" "related_ndx r = u" by auto
    then show ?case using rel(4) step(2) unfolding entry_ok_def by blast
  qed (rule rel(3))
  then show ?thesis using rel by (auto simp: related_ok_def entry_ok_def)
qed

section \<open>The search over the collected tables\<close>

lemma links_of_related:
  assumes "distinct (map related_ndx rel)" "r \<in> set rel"
  shows "links_of rel (related_ndx r) = links r"
proof -
  have "find (\<lambda>tbl. related_ndx tbl = related_ndx r) rel = Some r" using assms
  proof (induction rel)
    case (Cons q rel)
    then show ?case by (cases "q = r") auto
  qed simp
  then show ?thesis by (simp add: links_of_def)
qed

lemma finds_rows:
  assumes "distinct (map related_ndx rel)" "related_ndx ` set rel = (table_links G)\<^sup>* `` {root}"
    "\<forall>r \<in> set rel. links r = map (as_link G (related_ndx r)) (link_cols G (related_ndx r))"
  shows "(root, t) \<in> (table_links G)\<^sup>* \<Longrightarrow> reaches_change G ts rel k {} t i \<longleftrightarrow>
    (\<exists>m < k. \<exists>u j. ((t, i), (u, j)) \<in> row_links G ^^ Suc m \<and> row_modified ts u j)"
proof (induction k arbitrary: t i)
  case (Suc k)
  have "t \<in> related_ndx ` set rel" using Suc.prems unfolding assms(2) by blast
  then obtain r where r: "r \<in> set rel" "related_ndx r = t" by blast
  have l: "links_of rel t = map (as_link G t) (link_cols G t)"
    using links_of_related [OF assms(1) r(1)] assms(3) r by simp
  have reach: "(root, link_target G t c) \<in> (table_links G)\<^sup>*" if "c \<in> set (link_cols G t)" for c
    using Suc.prems that by (auto simp: table_links_def intro: rtrancl_into_rtrancl)
  let ?to = "\<lambda>u j. (\<exists>m < k. \<exists>u' j'. ((u, j), (u', j')) \<in> row_links G ^^ Suc m \<and> row_modified ts u' j')"
  have col: "link_col (as_link G t c) = c" for c by (simp add: as_link_def)
  have "reaches_change G ts rel (Suc k) {} t i \<longleftrightarrow> (\<exists>c \<in> set (link_cols G t). \<exists>j \<in> set (targets G t (as_link G t c) i).
      row_modified ts (link_target G t c) j \<or> reaches_change G ts rel k {} (link_target G t c) j)"
    by (simp add: l col)
  also have "\<dots> \<longleftrightarrow> (\<exists>c \<in> set (link_cols G t). \<exists>j \<in> set (targets G t (as_link G t c) i).
      row_modified ts (link_target G t c) j \<or> ?to (link_target G t c) j)"
    using Suc.IH [OF reach] by (simp cong: bex_cong)
  also have "\<dots> \<longleftrightarrow> (\<exists>u j. ((t, i), (u, j)) \<in> row_links G \<and> (row_modified ts u j \<or> ?to u j))"
    unfolding row_links_def by blast
  also have "\<dots> \<longleftrightarrow> (\<exists>m < Suc k. \<exists>u j. ((t, i), (u, j)) \<in> row_links G ^^ Suc m \<and> row_modified ts u j)"
    (is "?L \<longleftrightarrow> ?R")
  proof
    assume ?L
    then obtain u j where uj: "((t, i), (u, j)) \<in> row_links G" "row_modified ts u j \<or> ?to u j" by blast
    from uj(2) show ?R
    proof
      assume "row_modified ts u j"
      with uj(1) show ?R by (intro exI [of _ 0]) auto
    next
      assume "?to u j"
      then obtain m u' j' where "m < k" "((u, j), (u', j')) \<in> row_links G ^^ Suc m" "row_modified ts u' j'" by blast
      then have "((t, i), (u', j')) \<in> row_links G ^^ Suc (Suc m)" using relpow_Suc_I2 [OF uj(1)] by blast
      with \<open>m < k\<close> \<open>row_modified ts u' j'\<close> show ?R by (intro exI [of _ "Suc m"]) blast
    qed
  next
    assume ?R
    then obtain m u j where m: "m < Suc k" "((t, i), (u, j)) \<in> row_links G ^^ Suc m" "row_modified ts u j" by blast
    from relpow_Suc_D2 [OF m(2)] obtain v where v: "((t, i), v) \<in> row_links G" "(v, (u, j)) \<in> row_links G ^^ m" by blast
    obtain a b where ab: "v = (a, b)" by (cases v)
    show ?L
    proof (cases m)
      case 0
      then show ?L using v m(3) ab by auto
    next
      case (Suc m')
      then have "?to a b" using v(2) m(1,3) ab by (intro exI [of _ m']) auto
      then show ?L using v(1) ab by blast
    qed
  qed
  finally show ?case .
qed simp

end
