(* ===== verification/Notify_Deep_Props.thy ===== *)
theory Notify_Deep_Props
  imports Notify_Related Change_Props
begin

text \<open>
  The properties of the deep check: the tables it looks at, its answers whatever it was asked before, and the links
  it does not follow.
\<close>

section \<open>Answers\<close>

lemma not_contains_Nil: "\<not> contains [] i"
  using ixs.mem [OF rep_Nil [of 2], of i] by simp

text \<open>What a checker answers about a row; it does not depend on the rows it has been asked about.\<close>

definition answer :: "link_graph \<Rightarrow> ccb list \<Rightarrow> related_table list \<Rightarrow> size_t \<Rightarrow> row_checker \<Rightarrow> size_t \<Rightarrow> bool" where
  "answer G ts rel root rc row =
     (case rc of Never_Modified \<Rightarrow> False | Modified_In s \<Rightarrow> contains s row
      | Deep_Check st \<Rightarrow> row_modified ts root row \<or> reaches_change G ts rel 3 {} root row)"

definition row_checker_ok :: "nat \<Rightarrow> link_graph \<Rightarrow> ccb list \<Rightarrow> related_table list \<Rightarrow> row_checker \<Rightarrow> bool" where
  "row_checker_ok K G ts rel rc = (case rc of Deep_Check st \<Rightarrow> checker_ok K G ts rel st | _ \<Rightarrow> True)"

lemma ask_answers:
  assumes "even K" "0 < K" "row_checker_ok K G ts rel rc"
  shows "\<exists>rc'. ask K G ts rel root row rc = Some (answer G ts rel root rc row, rc') \<and> row_checker_ok K G ts rel rc' \<and>
    answer G ts rel root rc' = answer G ts rel root rc"
proof (cases rc)
  case (Deep_Check st)
  show ?thesis
  proof (cases "row_modified ts root row")
    case True
    then show ?thesis using Deep_Check assms(3) by (simp add: ask_def deep_check_def answer_def)
  next
    case False
    have "checker_ok K G ts rel st" using assms(3) Deep_Check by (simp add: row_checker_ok_def)
    from check_row_finds [OF assms(1,2) order_refl this, of root row] obtain r st' where
      c: "check_row K G ts rel 4 root row st = Some (r, st')" "checker_ok K G ts rel st'"
        "if r then 0 < (4 :: nat) \<and> (row_modified ts root row \<or> reaches_change G ts rel (4 - 1) {} root row)
         else found_nothing G ts rel 4 root row st st'"
      by blast
    have "r \<longleftrightarrow> reaches_change G ts rel 3 {} root row" using c(3) False by (auto simp: found_nothing_def following_def split: if_splits)
    then show ?thesis using c(1,2) Deep_Check False
      by (simp add: ask_def deep_check_def answer_def row_checker_ok_def fun_eq_iff)
  qed
qed (simp_all add: ask_def answer_def row_checker_ok_def)

lemma ask_all_answers:
  assumes "even K" "0 < K"
  shows "row_checker_ok K G ts rel rc \<Longrightarrow>
    \<exists>rc'. ask_all K G ts rel root rows rc = Some (map (answer G ts rel root rc) rows, rc') \<and> row_checker_ok K G ts rel rc'"
proof (induction rows arbitrary: rc)
  case (Cons row rows)
  from ask_answers [OF assms Cons.prems, of root row] obtain rc1 where
    1: "ask K G ts rel root row rc = Some (answer G ts rel root rc row, rc1)" "row_checker_ok K G ts rel rc1"
      "answer G ts rel root rc1 = answer G ts rel root rc" by blast
  with Cons.IH [OF 1(2)] show ?case by auto
qed simp

lemma chosen_checker_ok: "row_checker_ok K G ts rel (choose_checker ts rel)"
  by (simp add: choose_checker_def row_checker_ok_def checker_ok_def checker_init_def)

section \<open>Properties\<close>

text \<open>C34: \<open>find_related_tables\<close> collects the tables that links lead to from the root table, the root included, each once
  and with all of its link columns; one more than the number of tables bounds its recursion.\<close>

theorem related_tables_correct:
  assumes "graph_ok G n" "root < n"
  shows "\<exists>rel. find_related_tables (Suc n) G [] root = Some rel \<and> distinct (map related_ndx rel) \<and>
    (\<forall>t. t \<in> related_ndx ` set rel \<longleftrightarrow> (root, t) \<in> (table_links G)\<^sup>*) \<and>
    (\<forall>r \<in> set rel. links r = map (as_link G (related_ndx r)) (link_cols G (related_ndx r)))"
proof -
  from find_related_tables_complete [OF assms] obtain rel where
    rel: "find_related_tables (Suc n) G [] root = Some rel" "distinct (map related_ndx rel)"
      "related_ndx ` set rel = (table_links G)\<^sup>* `` {root}"
      "\<forall>r \<in> set rel. links r = map (as_link G (related_ndx r)) (link_cols G (related_ndx r))" by blast
  have "t \<in> related_ndx ` set rel \<longleftrightarrow> (root, t) \<in> (table_links G)\<^sup>*" for t unfolding rel(3) by blast
  with rel(1,2,4) show ?thesis by blast
qed

text \<open>Persons (table 0) have a dog and friends, dogs (table 1) have an owner.\<close>

definition sample_graph :: link_graph where
  "sample_graph = \<lparr>link_types = (\<lambda>t. if t = 0 then [No_Link_Column, Link_Column, Link_Rows_Column]
       else if t = 1 then [Link_Column] else []),
     link_target = (\<lambda>t c. if t = 0 \<and> c = 1 then 1 else 0),
     linked_row = (\<lambda>t c i. if t = 0 then Some i else Some 3),
     linked_rows = (\<lambda>t c i. [i + 1])\<rparr>"

lemma sample_cols: "link_cols sample_graph t = (if t = 0 then [1, 2] else if t = 1 then [0] else [])"
  by (simp add: link_cols_def sample_graph_def is_link_def)

lemma sample_graph_ok: "graph_ok sample_graph 2"
  by (simp add: graph_ok_def sample_cols) (simp add: sample_graph_def npos_def)

theorem related_tables_correct_witness:
  "\<exists>rel. find_related_tables 3 sample_graph [] 0 = Some rel \<and> 1 \<in> related_ndx ` set rel"
proof -
  have "(0, 1) \<in> table_links sample_graph" by (simp add: table_links_def sample_cols) (simp add: sample_graph_def)
  with related_tables_correct [OF sample_graph_ok, of 0] show ?thesis
    by (fastforce simp del: find_related_tables.simps simp flip: numeral_3_eq_3)
qed

text \<open>A modified row is near a row when it is the row itself or at most three links lead to it.\<close>

definition modified_near :: "link_graph \<Rightarrow> ccb list \<Rightarrow> size_t \<Rightarrow> size_t \<Rightarrow> bool" where
  "modified_near G ts t i \<longleftrightarrow> (\<exists>m \<le> 3. \<exists>u j. ((t, i), (u, j)) \<in> row_links G ^^ m \<and> row_modified ts u j)"

lemma modified_near_finds:
  "modified_near G ts t i \<longleftrightarrow> row_modified ts t i \<or>
     (\<exists>m < 3. \<exists>u j. ((t, i), (u, j)) \<in> row_links G ^^ Suc m \<and> row_modified ts u j)"
proof
  assume "modified_near G ts t i"
  then obtain m u j where m: "m \<le> 3" "((t, i), (u, j)) \<in> row_links G ^^ m" "row_modified ts u j"
    by (auto simp: modified_near_def)
  show "row_modified ts t i \<or> (\<exists>m < 3. \<exists>u j. ((t, i), (u, j)) \<in> row_links G ^^ Suc m \<and> row_modified ts u j)"
  proof (cases m)
    case 0
    then show ?thesis using m by simp
  next
    case (Suc k)
    then have "k < 3" using m(1) by simp
    then show ?thesis using m(2,3) Suc by blast
  qed
next
  assume "row_modified ts t i \<or> (\<exists>m < 3. \<exists>u j. ((t, i), (u, j)) \<in> row_links G ^^ Suc m \<and> row_modified ts u j)"
  then show "modified_near G ts t i"
  proof
    assume "row_modified ts t i"
    then show ?thesis unfolding modified_near_def by (intro exI [of _ 0]) auto
  next
    assume "\<exists>m < 3. \<exists>u j. ((t, i), (u, j)) \<in> row_links G ^^ Suc m \<and> row_modified ts u j"
    then show ?thesis unfolding modified_near_def by (metis Suc_leI)
  qed
qed

lemma reached_table_related:
  "((t, i), (u, j)) \<in> row_links G ^^ m \<Longrightarrow> (t, u) \<in> (table_links G)\<^sup>*"
proof (induction m arbitrary: u j)
  case (Suc m)
  then obtain v where v: "((t, i), v) \<in> row_links G ^^ m" "(v, (u, j)) \<in> row_links G" by auto
  obtain a b where "v = (a, b)" by (cases v)
  with v Suc.IH [of a b] have "(t, a) \<in> (table_links G)\<^sup>*" "(a, u) \<in> table_links G"
    by (auto simp: row_links_def table_links_def)
  then show ?case by (rule rtrancl_into_rtrancl)
qed simp

lemma chosen_checker_answers:
  assumes rel: "distinct (map related_ndx rel)" "related_ndx ` set rel = (table_links G)\<^sup>* `` {root}"
    "\<forall>r \<in> set rel. links r = map (as_link G (related_ndx r)) (link_cols G (related_ndx r))"
    and own: "length rel = 1 \<longrightarrow> link_cols G root = []"
  shows "answer G ts rel root (choose_checker ts rel) row \<longleftrightarrow> modified_near G ts root row"
proof (cases "related_tables_modified ts rel")
  case False
  have "\<not> row_modified ts u j" if u: "(root, u) \<in> (table_links G)\<^sup>*" for u j
  proof
    assume m: "row_modified ts u j"
    have "u \<in> related_ndx ` set rel" using u unfolding rel(2) by blast
    then obtain r where "r \<in> set rel" "u = related_ndx r" by blast
    moreover have "modifications (ts ! u) \<noteq> []" using m by (auto simp: row_modified_def not_contains_Nil)
    ultimately show False using False m by (auto simp: related_tables_modified_def row_modified_def list_ex_iff)
  qed
  then have "\<not> modified_near G ts root row" using reached_table_related unfolding modified_near_def by blast
  then show ?thesis using False by (simp add: choose_checker_def answer_def)
next
  case True
  have deep: "row_modified ts root row \<or> reaches_change G ts rel 3 {} root row \<longleftrightarrow> modified_near G ts root row"
    unfolding modified_near_finds using finds_rows [OF rel, of root ts 3 row] by blast
  show ?thesis
  proof (cases "length rel = 1")
    case one: True
    then obtain r where r: "rel = [r]" by (auto simp: length_Suc_conv)
    have "root \<in> related_ndx ` set rel" unfolding rel(2) by blast
    then have n: "related_ndx r = root" using r by simp
    have "links_of rel root = []" using own one rel(3) r n by (simp add: links_of_def)
    then have "\<not> reaches_change G ts rel 3 {} root row" by (simp add: numeral_3_eq_3)
    then show ?thesis using True one r n deep
      by (simp add: choose_checker_def answer_def row_modified_def related_tables_modified_def)
  next
    case False
    then show ?thesis using True deep by (simp add: choose_checker_def answer_def)
  qed
qed

lemma single_table_own_links:
  assumes "related_ndx ` set rel = (table_links G)\<^sup>* `` {root}" "link_target G root ` set (link_cols G root) \<noteq> {root}"
  shows "length rel = 1 \<longrightarrow> link_cols G root = []"
  proof
    assume "length rel = 1"
    then obtain r where "rel = [r]" by (auto simp: length_Suc_conv)
    then have "(table_links G)\<^sup>* `` {root} = {related_ndx r}" using assms(1) by simp
    moreover have "root \<in> (table_links G)\<^sup>* `` {root}" by simp
    ultimately have to: "(table_links G)\<^sup>* `` {root} \<subseteq> {root}" by simp
    have "table_links G `` {root} \<subseteq> {root}" using to by (auto dest: r_into_rtrancl)
    then have "link_target G root ` set (link_cols G root) \<subseteq> {root}" by (auto simp: table_links_def)
    then show "link_cols G root = []" using assms(2) by (metis image_is_empty set_empty subset_singletonD)
  qed

text \<open>C4: The function that \<open>get_modification_checker\<close> returns, asked about any rows in turn, answers for each whether a
  modified row is near it, unless the table links only to itself: what is remembered between the questions, the links
  left out because they are being followed, and the bound on the depth never change an answer.\<close>

theorem modification_checker_correct:
  assumes "graph_ok G n" "root < n" "even K" "0 < K"
    "schema_changed info \<or> find_related_tables (Suc n) G [] root = Some rel"
    "link_target G root ` set (link_cols G root) \<noteq> {root}"
  shows "\<exists>rel' rc rc'. get_modification_checker (Suc n) G info root rel = Some (rel', rc) \<and>
    ask_all K G (tables info) rel' root rows rc = Some (map (modified_near G (tables info) root) rows, rc')"
proof -
  from find_related_tables_complete [OF assms(1,2)] obtain rel' where
    rel': "find_related_tables (Suc n) G [] root = Some rel'" "distinct (map related_ndx rel')"
      "related_ndx ` set rel' = (table_links G)\<^sup>* `` {root}"
      "\<forall>r \<in> set rel'. links r = map (as_link G (related_ndx r)) (link_cols G (related_ndx r))" by blast
  let ?rc = "choose_checker (tables info) rel'"
  have "get_modification_checker (Suc n) G info root rel = Some (rel', ?rc)"
    using rel'(1) assms(5) by (auto simp: get_modification_checker_def simp del: find_related_tables.simps)
  moreover note own = single_table_own_links [OF rel'(3) assms(6)]
  moreover have "answer G (tables info) rel' root ?rc = modified_near G (tables info) root"
    using chosen_checker_answers [OF rel'(2-4) own] by (simp add: fun_eq_iff)
  ultimately show ?thesis using ask_all_answers [OF assms(3,4) chosen_checker_ok] by metis
qed


lemma contains_one_chunk: "a < b \<Longrightarrow> contains (one_chunk [(a, b)]) i \<longleftrightarrow> a \<le> i \<and> i < b"
  using ixs.mem [of 4 "one_chunk [(a, b)]" "{a..<b}" i] by (simp add: sample_defs)

definition dog_modified :: change_info where
  "dog_modified = no_change_info\<lparr>tables := [ccb_init, ccb_init\<lparr>modifications := one_chunk [(2, 3)]\<rparr>], schema_changed := True\<rparr>"

text \<open>The person 0 has the friend 1, who has the friend 2, whose dog 2 was modified.\<close>

lemma dog_near: "modified_near sample_graph (tables dog_modified) 0 0"
proof -
  have cols: "1 \<in> set (link_cols sample_graph 0)" "2 \<in> set (link_cols sample_graph 0)" by (simp_all add: sample_cols)
  have friend: "((0, i), (0, i + 1)) \<in> row_links sample_graph" for i
    using row_linkI [OF cols(2), of "i + 1" i] by (simp add: sample_graph_def targets_def as_link_def)
  have dog: "((0, i), (1, i)) \<in> row_links sample_graph" for i
    using row_linkI [OF cols(1), of i i] by (simp add: sample_graph_def targets_def as_link_def)
  have "((0, 0), (1, 2)) \<in> row_links sample_graph ^^ 3"
    using friend [of 0] friend [of 1] dog [of 2] by (auto simp: numeral_3_eq_3 relcomp_unfold numeral_2_eq_2)
  moreover have "row_modified (tables dog_modified) 1 2"
    by (simp add: row_modified_def dog_modified_def no_change_info_def contains_one_chunk)
  ultimately show ?thesis unfolding modified_near_def by blast
qed

theorem modification_checker_correct_witness:
  "\<exists>rel rc rc'. get_modification_checker 3 sample_graph dog_modified 0 [] = Some (rel, rc) \<and>
    ask_all 4 sample_graph (tables dog_modified) rel 0 [0] rc = Some ([True], rc')"
proof -
  have c: "schema_changed dog_modified" by (simp add: dog_modified_def no_change_info_def)
  have l: "link_target sample_graph 0 ` set (link_cols sample_graph 0) \<noteq> {0}"
    by (simp add: sample_cols) (simp add: sample_graph_def)
  have "Suc 2 = 3" by simp
  with modification_checker_correct [OF sample_graph_ok _ _ _ disjI1 [OF c] l, of 4 "[]" "[0]"] dog_near
  show ?thesis by (simp del: find_related_tables.simps)
qed

text \<open>C38: A table that links only to itself: the friend of the row 0 was modified, but the function chosen for a single
  related table does not follow links.\<close>

definition friends_graph :: link_graph where
  "friends_graph = \<lparr>link_types = (\<lambda>t. [Link_Column]), link_target = (\<lambda>t c. 0),
     linked_row = (\<lambda>t c i. Some (i + 1)), linked_rows = (\<lambda>t c i. [])\<rparr>"

definition friend_modified :: change_info where
  "friend_modified = no_change_info\<lparr>tables := [ccb_init\<lparr>modifications := one_chunk [(1, 2)]\<rparr>], schema_changed := True\<rparr>"

theorem self_links_missed:
  "\<exists>rel rc. get_modification_checker 2 friends_graph friend_modified 0 [] = Some (rel, rc) \<and>
    ask K friends_graph (tables friend_modified) rel 0 0 rc = Some (False, rc) \<and>
    modified_near friends_graph (tables friend_modified) 0 0"
proof -
  let ?rel = "[\<lparr>related_ndx = 0, links = [\<lparr>link_col = 0, is_list = False\<rparr>]\<rparr>]"
  have m: "contains (one_chunk [(1, 2)]) i \<longleftrightarrow> i = 1" for i by (auto simp: contains_one_chunk)
  have "find_related_tables (Suc (Suc 0)) friends_graph [] 0 = Some ?rel"
    by (simp add: friends_graph_def npos_def add_link_def)
  then have "find_related_tables 2 friends_graph [] 0 = Some ?rel" unfolding numeral_2_eq_2 .
  moreover have "choose_checker (tables friend_modified) ?rel = Modified_In (one_chunk [(1, 2)])"
    by (simp add: choose_checker_def related_tables_modified_def friend_modified_def no_change_info_def one_chunk_def)
  moreover have "modified_near friends_graph (tables friend_modified) 0 0"
  proof -
    have "((0, 0), (0, 1)) \<in> row_links friends_graph ^^ 1"
      by (simp add: row_links_def friends_graph_def link_cols_def is_link_def targets_def as_link_def)
    moreover have "row_modified (tables friend_modified) 0 1"
      using m by (simp add: row_modified_def friend_modified_def no_change_info_def)
    ultimately show ?thesis unfolding modified_near_def by (metis one_le_numeral)
  qed
  ultimately show ?thesis using m [of 0]
    by (simp add: get_modification_checker_def ask_def friend_modified_def del: find_related_tables.simps)
qed

end
