(* ===== verification/Notify_Callback_Props.thy ===== *)
theory Notify_Callback_Props
  imports Notify_Callbacks Sync_Connection Change_Props
begin

text \<open>
  The properties of the callbacks of a collection: the changes a callback accumulates are those between the
  version it was last told and the current one, and the loops call every callback once, also when it
  unregisters itself.
\<close>

section \<open>Turns\<close>

text \<open>The callbacks a call in progress has kept, and those that are still to come.\<close>

definition at_turn :: "collection_callback list \<Rightarrow> collection_callback list \<Rightarrow> collection_notifier \<Rightarrow> bool" where
  "at_turn xs ys n \<longleftrightarrow>
     callbacks n = xs @ ys \<and> callback_index n = of_nat (length xs) \<and> callback_count n = of_nat (length (xs @ ys)) \<and>
     length (xs @ ys) < 2 ^ 64 - 1 \<and> distinct (map token (xs @ ys))"

definition turn_over :: "collection_callback list \<Rightarrow> collection_callback list \<Rightarrow> collection_notifier \<Rightarrow> bool" where
  "turn_over xs ys n \<longleftrightarrow> at_turn xs ys (n\<lparr>callback_index := callback_index n + 1\<rparr>)"

text \<open>What one turn does with its callback, whatever the others are: it causes the events \<open>ev c\<close> and leaves \<open>rest c\<close>.\<close>

definition does_turn :: "callback_step \<Rightarrow> bool \<Rightarrow> (collection_callback \<Rightarrow> callback_event list) \<Rightarrow>
    (collection_callback \<Rightarrow> collection_callback list) \<Rightarrow> collection_callback \<Rightarrow> bool" where
  "does_turn fn err ev rest c \<longleftrightarrow> (\<forall>xs ys n. at_turn xs (c # ys) n \<longrightarrow> has_error n = err \<longrightarrow>
     (\<exists>n1. fn (length xs) n = Some (n1, ev c) \<and> turn_over (xs @ rest c) ys n1 \<and> has_error n1 = err))"

lemma call_from_turns:
  assumes "\<forall>c \<in> set ys. does_turn fn err ev rest c" "at_turn xs ys n" "has_error n = err" "length ys < fuel"
  shows "\<exists>n'. call_from fuel fn n = Some (n', concat (map ev ys)) \<and> callbacks n' = xs @ concat (map rest ys) \<and>
    callback_index n' = - 1"
  using assms
proof (induction ys arbitrary: xs n fuel)
  case Nil
  then obtain m where "fuel = Suc m" by (cases fuel) auto
  then show ?case using Nil by (simp add: at_turn_def)
next
  case (Cons c ys)
  then obtain m where m: "fuel = Suc m" "length ys < m" by (cases fuel) auto
  note t = Cons.prems(2) [unfolded at_turn_def]
  have "does_turn fn err ev rest c" using Cons.prems(1) by simp
  then obtain n1 where 1: "fn (length xs) n = Some (n1, ev c)" "turn_over (xs @ rest c) ys n1" "has_error n1 = err"
    using Cons.prems(2,3) unfolding does_turn_def by blast
  have u: "unat (callback_index n) = length xs" using t by (simp add: unat_of_nat take_bit_nat_eq_self)
  have less: "callback_index n < callback_count n" using t by (simp only:) (subst word_nat_less, auto)
  have "\<not> length (callbacks n) \<le> length xs" using t by simp
  moreover have "\<forall>c \<in> set ys. does_turn fn err ev rest c" using Cons.prems(1) by simp
  from Cons.IH [OF this 1(2) [unfolded turn_over_def] _ m(2)] 1(3) obtain n' where
    "call_from m fn (n1\<lparr>callback_index := callback_index n1 + 1\<rparr>) = Some (n', concat (map ev ys))"
    "callbacks n' = (xs @ rest c) @ concat (map rest ys)" "callback_index n' = - 1" by auto
  ultimately show ?case using less 1(1) by (simp add: m(1) u)
qed

lemma for_each_turns:
  assumes "\<forall>c \<in> set (callbacks n). does_turn fn (has_error n) ev rest c" "callback_index n = - 1"
    "callback_count n = of_nat (length (callbacks n))" "length (callbacks n) < 2 ^ 64 - 1" "distinct (map token (callbacks n))"
    "length (callbacks n) < fuel"
  shows "\<exists>n'. for_each_callback fuel fn n = Some (n', concat (map ev (callbacks n))) \<and>
    callbacks n' = concat (map rest (callbacks n)) \<and> callback_index n' = - 1"
proof -
  let ?n = "n\<lparr>callback_index := callback_index n + 1\<rparr>"
  have "at_turn [] (callbacks n) ?n" using assms(2-5) by (simp add: at_turn_def)
  from call_from_turns [OF assms(1) this] assms(6) show ?thesis
    using assms(3) by (simp add: for_each_callback_def)
qed

section \<open>Turns of the three loops\<close>

lemma remove_current:
  assumes "at_turn xs (c # ys) n"
  shows "\<exists>n1. remove_callback (token c) n = Some n1 \<and> turn_over xs ys n1 \<and> has_error n1 = has_error n"
proof -
  note t = assms [unfolded at_turn_def]
  have "takeWhile (\<lambda>d. token d \<noteq> token c) (callbacks n) = xs"
    using t by (auto simp: takeWhile_append image_iff)
  then have f: "find_callback (token c) n = Some (length xs)" using t by (simp add: find_callback_def)
  have "(of_nat (length xs) :: 64 word) < of_nat (2 ^ 64 - 1)" using t by (subst word_nat_less) auto
  then have "callback_index n \<noteq> - 1" using t by auto
  then show ?thesis using t f by (simp add: remove_callback_def turn_over_def at_turn_def Let_def)
qed

lemma keep_current:
  assumes "at_turn xs (c # ys) n" "token c' = token c"
  shows "turn_over (xs @ [c']) ys (n\<lparr>callbacks := (callbacks n)[length xs := c']\<rparr>)"
    "at_turn xs (c' # ys) (n\<lparr>callbacks := (callbacks n)[length xs := c']\<rparr>)"
  using assms by (simp_all add: turn_over_def at_turn_def add.commute)

lemma skip_current: "at_turn xs (c # ys) n \<Longrightarrow> turn_over (xs @ [c]) ys n"
  by (simp add: turn_over_def at_turn_def add.commute)

text \<open>A callback may unregister itself.\<close>

definition only_itself :: "(callback_event \<Rightarrow> registry_action list) \<Rightarrow> callback_event \<Rightarrow> collection_callback \<Rightarrow> bool" where
  "only_itself body e c \<longleftrightarrow> body e = [] \<or> body e = [Unregister (token c)]"

lemma call_with_turn:
  assumes "at_turn xs (c # ys) n" "only_itself body e c"
  shows "\<exists>n1. call_with body e n = Some (n1, [e]) \<and> has_error n1 = has_error n \<and>
    (if body e = [] then n1 = n else turn_over xs ys n1)"
proof (cases "body e = []")
  case True
  then show ?thesis by (simp add: call_with_def)
next
  case False
  then have "body e = [Unregister (token c)]" using assms(2) by (simp add: only_itself_def)
  with remove_current [OF assms(1)] show ?thesis by (auto simp: call_with_def act_on_def)
qed

definition before_event :: "collection_callback \<Rightarrow> callback_event" where
  "before_event c = Before_Change (callback_fn c) (changes_to_deliver c)"

definition after_event :: "collection_callback \<Rightarrow> callback_event" where
  "after_event c = After_Change (callback_fn c) (changes_to_deliver c)"

definition due_before :: "collection_callback \<Rightarrow> bool" where
  "due_before c \<longleftrightarrow> \<not> change_set_empty (changes_to_deliver c)"

definition due_after :: "collection_callback \<Rightarrow> bool" where
  "due_after c \<longleftrightarrow> \<not> (initial_delivered c \<and> change_set_empty (changes_to_deliver c))"

definition told :: "collection_callback \<Rightarrow> collection_callback" where
  "told c = c\<lparr>initial_delivered := True, changes_to_deliver := no_changes\<rparr>"

lemma before_turn:
  assumes "only_itself body (before_event c) c"
  shows "does_turn (before_callback body) err (\<lambda>c. if due_before c then [before_event c] else [])
    (\<lambda>c. if due_before c \<and> body (before_event c) \<noteq> [] then [] else [c]) c"
  unfolding does_turn_def
proof (intro allI impI)
  fix xs ys n assume a: "at_turn xs (c # ys) n" "has_error n = err"
  have c: "callbacks n ! length xs = c" using a(1) by (simp add: at_turn_def)
  have k: "turn_over (xs @ [c]) ys n" using a(1) by (rule skip_current)
  show "\<exists>n1. before_callback body (length xs) n = Some (n1, if due_before c then [before_event c] else []) \<and>
    turn_over (xs @ (if due_before c \<and> body (before_event c) \<noteq> [] then [] else [c])) ys n1 \<and> has_error n1 = err"
    using call_with_turn [OF a(1) assms] k a(2)
    by (auto simp: before_callback_def c Let_def due_before_def before_event_def split: if_splits)
qed

lemma after_turn:
  assumes "only_itself body (after_event c) c"
  shows "does_turn (after_callback body) err (\<lambda>c. if due_after c then [after_event c] else [])
    (\<lambda>c. if \<not> due_after c then [c] else if body (after_event c) \<noteq> [] then [] else [told c]) c"
  unfolding does_turn_def
proof (intro allI impI)
  fix xs ys n assume a: "at_turn xs (c # ys) n" "has_error n = err"
  have c: "callbacks n ! length xs = c" using a(1) by (simp add: at_turn_def)
  have k: "turn_over (xs @ [c]) ys n" using a(1) by (rule skip_current)
  have "token (told c) = token c" by (simp add: told_def)
  note t = keep_current [OF a(1) this]
  let ?n = "n\<lparr>callbacks := (callbacks n)[length xs := told c]\<rparr>"
  have "only_itself body (after_event c) (told c)" using assms by (simp add: only_itself_def told_def)
  note w = call_with_turn [OF t(2) this]
  show "\<exists>n1. after_callback body (length xs) n = Some (n1, if due_after c then [after_event c] else []) \<and>
    turn_over (xs @ (if \<not> due_after c then [c] else if body (after_event c) \<noteq> [] then [] else [told c])) ys n1 \<and>
    has_error n1 = err"
    using w k t(1) a(2)
    by (auto simp: after_callback_def c Let_def due_after_def after_event_def simp flip: told_def split: if_splits)
qed

lemma error_turn:
  assumes "only_itself body (Error_Event (callback_fn c)) c"
  shows "does_turn (error_callback body) True (\<lambda>c. [Error_Event (callback_fn c)]) (\<lambda>c. []) c"
  unfolding does_turn_def
proof (intro allI impI)
  fix xs ys n assume a: "at_turn xs (c # ys) n" "has_error n = True"
  have c: "callbacks n ! length xs = c" using a(1) by (simp add: at_turn_def)
  obtain n1 where 1: "call_with body (Error_Event (callback_fn c)) n = Some (n1, [Error_Event (callback_fn c)])" "has_error n1"
    "if body (Error_Event (callback_fn c)) = [] then n1 = n else turn_over xs ys n1"
    using call_with_turn [OF a(1) assms] a(2) by auto
  have "\<exists>n2. remove_callback (token c) n1 = Some n2 \<and> turn_over xs ys n2 \<and> has_error n2"
  proof (cases "body (Error_Event (callback_fn c)) = []")
    case True
    then show ?thesis using 1(3) remove_current [OF a(1)] a(2) by auto
  next
    case False
    then have o: "turn_over xs ys n1" using 1(3) by simp
    have "token c \<notin> token ` set (xs @ ys)" using a(1) by (auto simp: at_turn_def)
    moreover have "callbacks n1 = xs @ ys" using o by (simp add: turn_over_def at_turn_def)
    ultimately have "\<forall>d \<in> set (callbacks n1). token d \<noteq> token c" by (metis imageI)
    then have "length (takeWhile (\<lambda>d. token d \<noteq> token c) (callbacks n1)) = length (callbacks n1)"
      by (subst takeWhile_eq_all_conv [THEN iffD2]) simp_all
    then have "find_callback (token c) n1 = Some (length (callbacks n1))"
      using 1(2) unfolding find_callback_def by (simp only: Let_def) simp
    then have "remove_callback (token c) n1 = Some n1" by (simp add: remove_callback_def)
    then show ?thesis using o 1(2) by simp
  qed
  then show "\<exists>n1. error_callback body (length xs) n = Some (n1, [Error_Event (callback_fn c)]) \<and>
    turn_over (xs @ []) ys n1 \<and> has_error n1 = True"
    using 1(1) by (auto simp: error_callback_def c Let_def)
qed


section \<open>Properties of the loops\<close>

lemma concat_filtered: "concat (map (\<lambda>c. if p c then [f c] else []) cs) = map f (filter p cs)"
  by (induction cs) simp_all

text \<open>A notifier that has packaged its changes and is not calling its callbacks.\<close>

definition packaged :: "collection_notifier \<Rightarrow> bool" where
  "packaged n \<longleftrightarrow> callback_index n = - 1 \<and> callback_count n = of_nat (length (callbacks n)) \<and>
     length (callbacks n) < 2 ^ 64 - 1 \<and> distinct (map token (callbacks n))"

text \<open>C7: Delivery calls, once each and in order, the callbacks that have changes to be told or have never been called, with
  those changes; afterwards nothing is left to be told, and of the callbacks exactly those that unregistered
  themselves are gone.\<close>

theorem changes_delivered_once:
  assumes "packaged n" "length (callbacks n) < fuel" "\<forall>c \<in> set (callbacks n). only_itself body (after_event c) c"
  shows "\<exists>n'. after_advance fuel body n = Some (n', map after_event (filter due_after (callbacks n))) \<and>
    callbacks n' = map (\<lambda>c. if due_after c then told c else c)
      (filter (\<lambda>c. \<not> (due_after c \<and> body (after_event c) \<noteq> [])) (callbacks n)) \<and>
    callback_index n' = - 1 \<and> \<not> list_ex due_after (callbacks n')"
proof -
  let ?rest = "\<lambda>c. if \<not> due_after c then [c] else if body (after_event c) \<noteq> [] then [] else [told c]"
  have "\<forall>c \<in> set (callbacks n). does_turn (after_callback body) (has_error n) (\<lambda>c. if due_after c then [after_event c] else [])
      ?rest c" using assms(3) after_turn by blast
  from for_each_turns [OF this] assms(1,2) obtain n' where
    n': "after_advance fuel body n = Some (n', map after_event (filter due_after (callbacks n)))"
      "callbacks n' = concat (map ?rest (callbacks n))" "callback_index n' = - 1"
    by (auto simp: packaged_def after_advance_def concat_filtered)
  have "concat (map ?rest cs) = map (\<lambda>c. if due_after c then told c else c)
      (filter (\<lambda>c. \<not> (due_after c \<and> body (after_event c) \<noteq> [])) cs)" for cs by (induction cs) simp_all
  moreover have "\<not> due_after (told c)" for c by (simp add: due_after_def told_def change_set_empty_def no_changes_def)
  ultimately show ?thesis using n' by (auto simp: list_ex_iff)
qed

text \<open>An error is told to every callback, once and in order, and leaves none, also when callbacks unregister themselves
  in the call.\<close>

theorem error_ends_notifier:
  assumes "callback_index n = - 1" "length (callbacks n) < 2 ^ 64 - 1" "distinct (map token (callbacks n))"
    "length (callbacks n) < fuel" "\<forall>c \<in> set (callbacks n). only_itself body (Error_Event (callback_fn c)) c"
  shows "\<exists>n'. deliver_error fuel body n = Some (n', map (\<lambda>c. Error_Event (callback_fn c)) (callbacks n)) \<and> callbacks n' = []"
proof -
  let ?n = "n\<lparr>has_error := True, callback_count := of_nat (length (callbacks n))\<rparr>"
  have "\<forall>c \<in> set (callbacks ?n). does_turn (error_callback body) (has_error ?n) (\<lambda>c. [Error_Event (callback_fn c)]) (\<lambda>c. []) c"
    using assms(5) error_turn by simp
  from for_each_turns [OF this, of fuel] assms(1-4) show ?thesis
    by (auto simp: deliver_error_def simp flip: map_concat)
qed

definition sample_callback :: "nat \<Rightarrow> bool \<Rightarrow> collection_callback" where
  "sample_callback f b = \<lparr>callback_fn = f, accumulated_changes = ccb_init, changes_to_deliver = no_changes,
     token = of_nat f, initial_delivered = b, skip_next = False\<rparr>"

definition sample_notifier :: collection_notifier where
  "sample_notifier = new_collection_notifier\<lparr>callbacks := [sample_callback 0 False, sample_callback 1 True, sample_callback 2 False],
     callback_count := 3, next_token := 3\<rparr>"

lemma sample_packaged: "packaged sample_notifier"
  by (simp add: packaged_def sample_notifier_def new_collection_notifier_def sample_callback_def)

definition unregisters_first :: "callback_event \<Rightarrow> registry_action list" where
  "unregisters_first e = (case e of After_Change f s \<Rightarrow> if f = 0 then [Unregister 0] else []
     | Error_Event f \<Rightarrow> if f = 0 then [Unregister 0] else [] | _ \<Rightarrow> [])"

theorem changes_delivered_once_witness:
  "\<exists>n'. after_advance 4 unregisters_first sample_notifier = Some (n', [After_Change 0 no_changes, After_Change 2 no_changes]) \<and>
    map callback_fn (callbacks n') = [1, 2]"
proof -
  have "length (callbacks sample_notifier) < 4"
    "\<forall>c \<in> set (callbacks sample_notifier). only_itself unregisters_first (after_event c) c"
    by (auto simp: sample_notifier_def sample_callback_def only_itself_def unregisters_first_def after_event_def)
  from changes_delivered_once [OF sample_packaged this] obtain n' where
    "after_advance 4 unregisters_first sample_notifier = Some (n', map after_event (filter due_after (callbacks sample_notifier)))"
    "callbacks n' = map (\<lambda>c. if due_after c then told c else c)
      (filter (\<lambda>c. \<not> (due_after c \<and> unregisters_first (after_event c) \<noteq> [])) (callbacks sample_notifier))" by blast
  then show ?thesis
    by (simp add: sample_notifier_def sample_callback_def due_after_def after_event_def unregisters_first_def told_def
        no_changes_def change_set_empty_def)
qed

theorem error_ends_notifier_witness:
  "\<exists>n'. deliver_error 4 unregisters_first sample_notifier = Some (n', [Error_Event 0, Error_Event 1, Error_Event 2]) \<and>
    callbacks n' = []"
  using error_ends_notifier [of sample_notifier 4 unregisters_first] sample_packaged
  by (auto simp: packaged_def) (auto simp: sample_notifier_def sample_callback_def only_itself_def unregisters_first_def)

text \<open>A callback that registers another and unregisters it again makes the next callback be skipped: the removed callback
  was not counted, but the count is decremented.\<close>

definition registers_and_unregisters :: "callback_event \<Rightarrow> registry_action list" where
  "registers_and_unregisters e = (case e of After_Change f s \<Rightarrow> if f = 0 then [Register 9, Unregister 3] else [] | _ \<Rightarrow> [])"

theorem collection_callback_skipped:
  "map_option snd (after_advance 4 registers_and_unregisters sample_notifier) = Some [After_Change 0 no_changes]"
proof -
  have four: "(4 :: nat) = Suc (Suc (Suc (Suc 0)))" by simp
  show ?thesis unfolding four
    by (simp add: after_advance_def for_each_callback_def sample_notifier_def sample_callback_def new_collection_notifier_def
        after_callback_def change_set_empty_def no_changes_def call_with_def registers_and_unregisters_def act_on_def
        add_callback_def Let_def remove_callback_def find_callback_def)
qed

end
