(* ===== verification/Notify_Versions.thy ===== *)
theory Notify_Versions
  imports Notify_Callback_Props
begin

text \<open>
  What a callback has accumulated, and what it is told: the change from the version it has last seen to the
  current one.  \<open>change_from\<close> is what a builder of a notifier satisfies; merging keeps it, which needs that the
  fields merging does not look at stay empty.
\<close>

lemma list_all2_right: "list_all2 P xs ys \<Longrightarrow> (\<And>x y. P x y \<Longrightarrow> Q y) \<Longrightarrow> \<forall>y \<in> set ys. Q y"
  by (induction rule: list_all2_induct) auto

section \<open>Builders of notifiers\<close>

definition plain :: "ccb \<Rightarrow> bool" where
  "plain c \<longleftrightarrow> columns c = [] \<and> move_mapping c = []"

lemma each_col2_plain: "each_col2 f b c = Some (b', c') \<Longrightarrow> plain b \<Longrightarrow> plain c \<Longrightarrow> plain b' \<and> plain c'"
  by (auto simp: each_col2_def plain_def Let_def split: bind_splits if_splits prod.splits)

lemma update_old_moves_plain:
  "update_old_moves K ms b c = Some (ms', b', c') \<Longrightarrow> plain b \<Longrightarrow> plain c \<Longrightarrow> plain b' \<and> plain c'"
proof (induction ms arbitrary: b c ms' b' c')
  case (Cons m ms)
  have p: "plain (x\<lparr>moves := ys\<rparr>) \<longleftrightarrow> plain x" for x :: ccb and ys by (simp add: plain_def)
  show ?case using Cons.prems Cons.IH
    by (fastforce simp: Let_def p dest: each_col2_plain split: bind_splits if_splits prod.splits)
qed simp

lemma copy_moved_modified_plain:
  "copy_moved_modified K ms b c = Some (b', c') \<Longrightarrow> plain b \<Longrightarrow> plain c \<Longrightarrow> plain b' \<and> plain c'"
  by (induction ms arbitrary: b c) (auto split: bind_splits prod.splits dest: each_col2_plain)

lemma merge_plain:
  assumes "ccb_merge K b c = Some r" "plain b" "plain c"
  shows "plain r"
proof (cases "change_set_empty c \<or> change_set_empty b")
  case True
  then show ?thesis using assms by (auto simp: ccb_merge_def split: if_splits)
next
  case False
  have p: "plain (x\<lparr>moves := ms\<rparr>) \<longleftrightarrow> plain x" "plain (x\<lparr>deletions := d\<rparr>) \<longleftrightarrow> plain x"
    "plain (x\<lparr>insertions := i\<rparr>) \<longleftrightarrow> plain x" for x :: ccb and ms d i by (simp_all add: plain_def)
  have clean: "plain x'" if "clean_up_stale_moves K x = Some x'" "plain x" for x x'
    using that by (auto simp: clean_up_stale_moves_def plain_def split: bind_splits prod.splits)
  show ?thesis using assms False unfolding ccb_merge_def
    by (auto simp: Let_def p split: bind_splits if_splits prod.splits
        dest!: update_old_moves_plain copy_moved_modified_plain clean each_col2_plain)
qed

section \<open>Versions\<close>

definition change_from :: "nat \<Rightarrow> 'a list \<Rightarrow> 'a list \<Rightarrow> ccb \<Rightarrow> bool" where
  "change_from K old new c \<longleftrightarrow> records K old new c \<and> plain c \<and> indices (modifications c) \<subseteq> {..<length new}"

lemma merged_mods_bound:
  assumes s: "wf_changes mid new s'" and T: "T \<subseteq> {..<length new}" and S: "S \<subseteq> {..<length mid}"
  shows "merged_mods s s' S T \<subseteq> {..<length new}"
proof -
  have t: "tracks mid new (s_del s') (s_ins s')" and m: "moves_ok mid new (s_del s') (s_ins s') (s_moves s')"
    using s by (simp_all add: wf_changes_def describes_def)
  have t': "tracks new mid (s_ins s') (s_del s')" using t by (auto simp: tracks_def)
  have "shift_in (s_ins s') (unshift_in (s_del s') k) < length new" if "k \<in> S - s_del s'" for k
    using recorded_keep(5) [OF t', of k] that S by auto
  moreover have "mv_to x < length new" if "x \<in> set (s_moves s')" for x
    using m wf_bounds(2) [OF t] that by (auto simp: moves_ok_def)
  ultimately show ?thesis using T by (auto simp: merged_mods_def carry_def)
qed

lemma merge_change:
  assumes b: "change_from K old mid b" and c: "change_from K mid new c"
    and fit: "fits K (deletions b) (card (indices (deletions c)))"
  shows "\<exists>r. ccb_merge K b c = Some r \<and> change_from K old new r"
proof -
  have w: "ccb_ok K b" "wf_changes old mid (abs_ccb b)" "ccb_ok K c" "wf_changes mid new (abs_ccb c)" "plain b" "plain c"
    using b c by (simp_all add: change_from_def records_def)
  have "card (s_del (abs_ccb c) - s_ins (abs_ccb b)) \<le> card (indices (deletions c))"
    unfolding indices_abs by (intro card_mono) (auto simp: indices_def)
  then have "fits K (deletions b) (card (s_del (abs_ccb c) - s_ins (abs_ccb b)))" using fit by (auto simp: fits_def)
  from merge_correct [OF w(1,3,2,4) _ _ _ this] w(5,6) obtain r where
    r: "ccb_merge K b c = Some r" "ccb_ok K r" "wf_changes old new (abs_ccb r)"
      "indices (modifications r) = merged_mods (abs_ccb b) (abs_ccb c) (indices (modifications b)) (indices (modifications c))"
    by (auto simp: colset_def plain_def)
  have "indices (modifications r) \<subseteq> {..<length new}"
    unfolding r(4) using b c by (intro merged_mods_bound [OF w(4)]) (simp_all add: change_from_def)
  then show ?thesis using r merge_plain [OF r(1) w(5,6)] by (auto simp: change_from_def records_def)
qed

text \<open>A builder without changes leads from any version to itself.\<close>

lemma change_none:
  assumes "ccb_ok K c" "plain c" "deletions c = []" "insertions c = []" "modifications c = []" "moves c = []"
  shows "change_from K xs xs c"
  using assms by (auto simp: change_from_def records_def wf_changes_def describes_def abs_ccb_def tracks_def moves_ok_def
      map_ok_def plain_def indices_def flat_def)

text \<open>\<open>seen\<close> gives the version each callback was last told; \<open>now\<close> is the current one.\<close>

definition follows :: "nat \<Rightarrow> (64 word \<Rightarrow> 'a list) \<Rightarrow> 'a list \<Rightarrow> collection_notifier \<Rightarrow> bool" where
  "follows K seen now n \<longleftrightarrow> (\<forall>c \<in> set (callbacks n). change_from K (seen (token c)) now (accumulated_changes c))"

lemma add_to_each_follows:
  assumes "\<forall>c \<in> set cs. change_from K (seen (token c)) mid (accumulated_changes c)" "change_from K mid new change"
    "\<forall>c \<in> set cs. skip_next c \<longrightarrow> change_set_empty (accumulated_changes c)"
    "\<forall>c \<in> set cs. fits K (deletions (accumulated_changes c)) (card (indices (deletions change)))"
  shows "\<exists>cs'. add_to_each K change cs = Some cs' \<and> list_all2 (\<lambda>c c'. token c' = token c \<and> \<not> skip_next c' \<and>
    change_from K (if skip_next c then new else seen (token c)) new (accumulated_changes c')) cs cs'"
  using assms
proof (induction cs)
  case (Cons c cs)
  have "\<exists>c'. add_to_callback K change c = Some c' \<and>
    token c' = token c \<and> \<not> skip_next c' \<and>
    change_from K (if skip_next c then new else seen (token c)) new (accumulated_changes c')"
  proof (cases "skip_next c")
    case True
    then have e: "change_set_empty (accumulated_changes c)" using Cons.prems(3) by simp
    moreover have "ccb_ok K (accumulated_changes c)" "plain (accumulated_changes c)"
      using Cons.prems(1) by (simp_all add: change_from_def records_def)
    ultimately have "change_from K new new (accumulated_changes c)" by (intro change_none) (simp_all add: change_set_empty_def)
    then show ?thesis using True e by (simp add: add_to_callback_def)
  next
    case False
    have "change_from K (seen (token c)) mid (accumulated_changes c)"
      "fits K (deletions (accumulated_changes c)) (card (indices (deletions change)))" using Cons.prems by simp_all
    from merge_change [OF this(1) Cons.prems(2) this(2)] show ?thesis using False by (auto simp: add_to_callback_def)
  qed
  moreover from Cons obtain cs' where "add_to_each K change cs = Some cs'"
    "list_all2 (\<lambda>c c'. token c' = token c \<and> \<not> skip_next c' \<and>
      change_from K (if skip_next c then new else seen (token c)) new (accumulated_changes c')) cs cs'" by auto
  ultimately show ?case by auto
qed simp

text \<open>What a change set tells of the version it starts from.\<close>

definition tells :: "'a list \<Rightarrow> 'a list \<Rightarrow> change_set \<Rightarrow> bool" where
  "tells old new s \<longleftrightarrow> tracks old new (indices (deletions s)) (indices (insertions s)) \<and>
     moves_ok old new (indices (deletions s)) (indices (insertions s)) (moves s) \<and>
     (\<exists>f. bij_betw f (indices (modifications_new s)) (indices (modifications s)) \<and>
        (\<forall>k \<in> indices (modifications_new s). k \<notin> indices (insertions s) \<and> old ! f k = new ! k))"

lemma finalize_tells:
  assumes "change_from K old new c"
  shows "\<exists>s. ccb_finalize K c = Some s \<and> tells old new s \<and>
    indices (modifications_new s) = indices (modifications c) - indices (insertions c)"
proof -
  have c: "records K old new c" "indices (modifications c) \<subseteq> {..<length new}" using assms by (simp_all add: change_from_def)
  from finalize_modified [OF c] obtain s where s: "ccb_finalize K c = Some s" "deletions s = deletions c"
    "insertions s = insertions c" "moves s = moves c"
    "indices (modifications_new s) = indices (modifications c) - indices (insertions c)"
    "bij_betw (\<lambda>k. shift (deletions c) (unshift (insertions c) k)) (indices (modifications_new s)) (indices (modifications s))"
    "\<forall>k \<in> indices (modifications_new s). old ! shift (deletions c) (unshift (insertions c) k) = new ! k"
    by (auto simp: Let_def)
  have "tracks old new (indices (deletions c)) (indices (insertions c))"
    "moves_ok old new (indices (deletions c)) (indices (insertions c)) (moves c)"
    using c(1) by (auto simp: records_def wf_changes_def describes_def abs_ccb_def)
  then show ?thesis using s by (auto simp: tells_def)
qed

lemma package_each_follows:
  assumes "even K" "0 < K" "\<forall>c \<in> set cs. change_from K (seen (token c)) now (accumulated_changes c)"
  shows "\<exists>cs'. package_each K cs = Some cs' \<and> list_all2 (\<lambda>c c'. token c' = token c \<and>
    tells (seen (token c)) now (changes_to_deliver c') \<and>
    indices (modifications_new (changes_to_deliver c')) =
      indices (modifications (accumulated_changes c)) - indices (insertions (accumulated_changes c)) \<and>
    change_from K now now (accumulated_changes c')) cs cs'"
  using assms(3)
proof (induction cs)
  case (Cons c cs)
  have c: "change_from K (seen (token c)) now (accumulated_changes c)" using Cons.prems by simp
  from finalize_tells [OF c] obtain s where s: "ccb_finalize K (accumulated_changes c) = Some s" "tells (seen (token c)) now s"
    "indices (modifications_new s) = indices (modifications (accumulated_changes c)) - indices (insertions (accumulated_changes c))"
    by blast
  have "change_from K now now (moved_from (accumulated_changes c))"
    using c assms(1,2) by (intro change_none) (auto simp: moved_from_def change_from_def records_def ccb_ok_def plain_def vec_ok_def)
  then show ?case using Cons s by (auto simp: list_all2_Cons1)
qed simp


section \<open>Properties\<close>

text \<open>C5: Handing over the changes of a transaction to the callbacks: every callback has then accumulated the change from the
  version it was last told to the new one, except the callbacks that asked for the notification to be skipped,
  which count as having seen the new version.  No assertion fails.\<close>

theorem accumulated_changes_follow:
  assumes "follows K seen mid n" "change_from K mid new change" "distinct (map token (callbacks n))"
    "\<forall>c \<in> set (callbacks n). skip_next c \<longrightarrow> change_set_empty (accumulated_changes c)"
    "\<forall>c \<in> set (callbacks n). fits K (deletions (accumulated_changes c)) (card (indices (deletions change)))"
  shows "\<exists>n'. prepare_handover K change n = Some n' \<and> map token (callbacks n') = map token (callbacks n) \<and>
    follows K (\<lambda>t. if t \<in> token ` {c \<in> set (callbacks n). skip_next c} then new else seen t) new n'"
proof -
  from add_to_each_follows [OF assms(1) [unfolded follows_def] assms(2,4,5)] obtain cs' where
    cs': "add_to_each K change (callbacks n) = Some cs'"
      "list_all2 (\<lambda>c c'. token c' = token c \<and> \<not> skip_next c' \<and>
        change_from K (if skip_next c then new else seen (token c)) new (accumulated_changes c')) (callbacks n) cs'" by blast
  let ?seen = "\<lambda>t. if t \<in> token ` {c \<in> set (callbacks n). skip_next c} then new else seen t"
  have skip: "token c \<in> token ` {c \<in> set (callbacks n). skip_next c} \<longleftrightarrow> skip_next c" if "c \<in> set (callbacks n)" for c
    using assms(3) that by (auto simp: distinct_map inj_on_def)
  have each: "list_all2 (\<lambda>c c'. token c' = token c \<and> \<not> skip_next c' \<and>
      change_from K (?seen (token c')) new (accumulated_changes c')) (callbacks n) cs'"
  proof (rule list_all2_all_nthI [OF list_all2_lengthD [OF cs'(2)]])
    fix k assume k: "k < length (callbacks n)"
    have eq: "?seen (token (callbacks n ! k)) = (if skip_next (callbacks n ! k) then new else seen (token (callbacks n ! k)))"
      using skip [OF nth_mem [OF k]] by simp
    note f = list_all2_nthD [OF cs'(2) k]
    then have t: "token (cs' ! k) = token (callbacks n ! k)" by simp
    show "token (cs' ! k) = token (callbacks n ! k) \<and> \<not> skip_next (cs' ! k) \<and>
        change_from K (?seen (token (cs' ! k))) new (accumulated_changes (cs' ! k))"
      unfolding t eq using f by blast
  qed
  have "map token cs' = map token (callbacks n)"
    using each by (intro nth_equalityI) (auto simp: list_all2_conv_all_nth)
  moreover have "\<forall>c' \<in> set cs'. \<not> skip_next c' \<and> change_from K (?seen (token c')) new (accumulated_changes c')"
    by (rule list_all2_right [OF each]) metis
  ultimately show ?thesis using cs'(1)
    by (auto simp: prepare_handover_def add_changes_def follows_def list_ex_iff)
qed

text \<open>C6: Packaging for delivery: what a callback is to be told leads from the version it was last told to the current one, in
  rows, moves and modified rows, and it starts again from the current version.\<close>

theorem packaged_changes_tell:
  assumes "even K" "0 < K" "follows K seen now n"
  shows "\<exists>n'. package_for_delivery K True n = Some (True, n') \<and> map token (callbacks n') = map token (callbacks n) \<and>
    callback_count n' = of_nat (length (callbacks n')) \<and>
    (\<forall>c \<in> set (callbacks n'). tells (seen (token c)) now (changes_to_deliver c)) \<and> follows K (\<lambda>t. now) now n'"
proof -
  from package_each_follows [OF assms(1,2) assms(3) [unfolded follows_def]] obtain cs' where
    cs': "package_each K (callbacks n) = Some cs'"
      "list_all2 (\<lambda>c c'. token c' = token c \<and> tells (seen (token c)) now (changes_to_deliver c') \<and>
        indices (modifications_new (changes_to_deliver c')) =
          indices (modifications (accumulated_changes c)) - indices (insertions (accumulated_changes c)) \<and>
        change_from K now now (accumulated_changes c')) (callbacks n) cs'" by blast
  have "map token cs' = map token (callbacks n)"
    using cs'(2) by (intro nth_equalityI) (auto simp: list_all2_conv_all_nth)
  moreover have "\<forall>c' \<in> set cs'. tells (seen (token c')) now (changes_to_deliver c') \<and> change_from K now now (accumulated_changes c')"
    using cs'(2) by (auto simp: list_all2_conv_all_nth in_set_conv_nth)
  ultimately show ?thesis using cs'(1) by (auto simp: package_for_delivery_def follows_def)
qed

text \<open>Two callbacks, of which the second skips the notification; the first row of two was removed.\<close>

definition first_removed :: ccb where
  "first_removed = ccb_init\<lparr>deletions := one_chunk [(0, 1)]\<rparr>"

lemma first_removed_change: "change_from 4 [10, 20 :: nat] [20] first_removed"
  by (auto simp: change_from_def plain_def sample_defs first_removed_def ccb_init_def indices_def flat_def)

definition two_callbacks :: collection_notifier where
  "two_callbacks = new_collection_notifier\<lparr>callbacks := [sample_callback 0 True, (sample_callback 1 True)\<lparr>skip_next := True\<rparr>]\<rparr>"

lemma two_callbacks_follow: "follows 4 (\<lambda>t. [10, 20 :: nat]) [10, 20] two_callbacks"
  using change_none [of 4 ccb_init "[10, 20 :: nat]"]
  by (simp add: follows_def two_callbacks_def new_collection_notifier_def sample_callback_def)
    (simp add: ccb_ok_def plain_def ccb_init_def vec_ok_def)

theorem accumulated_changes_follow_witness:
  "\<exists>n'. prepare_handover 4 first_removed two_callbacks = Some n' \<and> length (callbacks n') = 2 \<and>
    follows 4 (\<lambda>t. if t = 1 then [20 :: nat] else [10, 20]) [20] n'"
proof -
  have "distinct (map token (callbacks two_callbacks))"
    "\<forall>c \<in> set (callbacks two_callbacks). skip_next c \<longrightarrow> change_set_empty (accumulated_changes c)"
    "\<forall>c \<in> set (callbacks two_callbacks). fits 4 (deletions (accumulated_changes c)) (card (indices (deletions first_removed)))"
    "token ` set (filter skip_next (callbacks two_callbacks)) = {1}"
    by (simp_all add: two_callbacks_def new_collection_notifier_def sample_callback_def change_set_empty_def ccb_init_def
        fits_def flat_def)
  from accumulated_changes_follow [OF two_callbacks_follow first_removed_change this(1-3)] this(4) obtain n' where
    n': "prepare_handover 4 first_removed two_callbacks = Some n'" "map token (callbacks n') = map token (callbacks two_callbacks)"
      "follows 4 (\<lambda>t. if t \<in> {1} then [20] else [10, 20 :: nat]) [20] n'" by (auto simp only: set_filter)
  have "length (callbacks n') = length (callbacks two_callbacks)" using n'(2) by (rule map_eq_imp_length_eq)
  then have "length (callbacks n') = 2" by (simp add: two_callbacks_def)
  with n' show ?thesis by auto
qed

theorem packaged_changes_tell_witness:
  "\<exists>n'. package_for_delivery 4 True two_callbacks = Some (True, n') \<and>
    (\<forall>c \<in> set (callbacks n'). tells [10, 20 :: nat] [10, 20] (changes_to_deliver c))"
  using packaged_changes_tell [OF _ _ two_callbacks_follow] by auto

end
