(* ===== verification/Notify_Run_Laws.thy ===== *)
theory Notify_Run_Laws
  imports Notify_Runs Notify_Deep_Props Notify_Versions Log_Laws Change_Calc_Laws
begin

text \<open>
  The lemmas on the notifiers' runs: records follow a change of the rows' names, the rows of a result are
  updated as the table's builder says, and the marking of changed rows.
\<close>

section \<open>Renaming the rows of a record\<close>

text \<open>A record only compares rows of the two versions; it stays right when the rows are given other names that
  agree wherever the old ones did.\<close>

lemma keep_by_positions: "keep D xs = map ((!) xs) (keep D [0..<length xs])"
proof -
  have "keep D (map ((!) xs) [0..<length xs]) = map ((!) xs) (keep D [0..<length xs])" by (simp add: keep_def nths_map)
  then show ?thesis by (simp only: map_nth)
qed

lemma wf_changes_rename:
  assumes w: "wf_changes xs ys s" and l: "length as = length xs" "length bs = length ys"
    and same: "\<And>i j. i < length xs \<Longrightarrow> j < length ys \<Longrightarrow> xs ! i = ys ! j \<Longrightarrow> as ! i = bs ! j"
  shows "wf_changes as bs s"
proof -
  have t: "tracks xs ys (s_del s) (s_ins s)" using w by (simp add: wf_changes_def describes_def)
  note b = wf_bounds [OF t]
  let ?p = "keep (s_del s) [0..<length xs]" and ?q = "keep (s_ins s) [0..<length ys]"
  have eq: "map ((!) xs) ?p = map ((!) ys) ?q"
    using t keep_by_positions [of "s_del s" xs] keep_by_positions [of "s_ins s" ys] by (simp add: tracks_def)
  have in_range: "set ?p \<subseteq> {..<length xs}" "set ?q \<subseteq> {..<length ys}" by (auto simp: keep_def dest: in_set_nthsD)
  have len: "length ?p = length ?q" using eq by (rule map_eq_imp_length_eq)
  have "map ((!) as) ?p = map ((!) bs) ?q"
  proof (rule nth_equalityI)
    fix k assume "k < length (map ((!) as) ?p)"
    then have k: "k < length ?p" "k < length ?q" using len by simp_all
    have "xs ! (?p ! k) = ys ! (?q ! k)" using arg_cong [OF eq, of "\<lambda>l. l ! k"] k by simp
    moreover have "?p ! k < length xs" "?q ! k < length ys" using in_range nth_mem [OF k(1)] nth_mem [OF k(2)] by blast+
    ultimately show "map ((!) as) ?p ! k = map ((!) bs) ?q ! k" using same k by simp
  qed (use len in simp)
  then have "tracks as bs (s_del s) (s_ins s)"
    using t l keep_by_positions [of "s_del s" as] keep_by_positions [of "s_ins s" bs] by (simp add: tracks_def)
  then show ?thesis using w b same by (auto simp: wf_changes_def describes_def moves_ok_def map_ok_def)
qed

section \<open>Calculated builders\<close>

lemma align_matches_plain: "align_matches K a rows i j ms c = Some c' \<Longrightarrow> plain c \<Longrightarrow> plain c'"
  by (induction ms arbitrary: i j c) (auto simp: plain_def split: bind_splits)

lemma calculate_plain:
  assumes "ccb_calculate K prev next changed None = Some c"
  shows "plain c"
proof -
  have sorted: "plain c'" if "calculate_moves_sorted K rows c0 = Some c'" "plain c0" for rows c0 c'
    using that by (auto simp: calculate_moves_sorted_def Let_def split: if_splits bind_splits dest: align_matches_plain)
  have "plain (ccb_init\<lparr>deletions := d, insertions := i, modifications := m\<rparr>)" for d i m
    by (simp add: plain_def ccb_init_def)
  moreover have "plain (x\<lparr>deletions := d\<rparr>) \<longleftrightarrow> plain x" for x :: ccb and d by (simp add: plain_def)
  ultimately show ?thesis using assms sorted unfolding ccb_calculate_def
    by (auto simp: Let_def split: bind_splits prod.splits if_splits)
qed

section \<open>The rows of a result\<close>

lemma updated_row_new:
  assumes c: "ccb_ok K c" "wf_changes old new (abs_ccb c)" "sorted (map mv_from (moves c))" "moves_known old new c"
    and old: "distinct old" "r < length old"
  shows "updated_row c r < length new \<and> new ! updated_row c r = old ! r \<or> updated_row c r = npos \<and> old ! r \<notin> set new"
proof -
  have m: "moves_ok old new (s_del (abs_ccb c)) (s_ins (abs_ccb c)) (moves c)" using c(2) by (simp add: wf_changes_def)
  have mem: "contains (deletions c) r \<longleftrightarrow> r \<in> s_del (abs_ccb c)" by (rule ixs.mem [OF ok_rep(1) [OF c(1)]])
  have "updated_row c r = (case new_row_ndx c r of Some k \<Rightarrow> k | None \<Rightarrow> npos)"
  proof (cases "contains (deletions c) r")
    case True
    then show ?thesis by (simp add: updated_row_def new_row_ndx_def Let_def)
  next
    case False
    then have "\<not> (let it = lower_bound (\<lambda>m. mv_from m < r) (moves c) in
        it < length (moves c) \<and> mv_from (moves c ! it) = r)"
      using m mem unfolding Let_def moves_ok_def by (metis nth_mem)
    then show ?thesis using False unfolding updated_row_def new_row_ndx_def Let_def by auto
  qed
  then show ?thesis using new_row_found [OF c old] by (auto split: option.splits)
qed

text \<open>Calculating from the updated rows gives a record for the objects.\<close>

lemma results_record:
  assumes c: "ccb_ok K c" "wf_changes old new (abs_ccb c)" "sorted (map mv_from (moves c))" "moves_known old new c"
    and old: "distinct old" "\<forall>r \<in> set prev. r < length old" and new: "length new \<le> npos" "\<forall>r \<in> set next. r < length new"
    and K: "even K" "0 < K" and len: "length prev < npos"
  shows "\<exists>m. ccb_calculate K (map (updated_row c) prev) next changed None = Some m \<and>
    change_from K (map ((!) old) prev) (map ((!) new) next) m \<and>
    indices (modifications m) \<subseteq> {j. j < length next \<and> changed (next ! j)} \<and>
    {j. j < length next \<and> changed (next ! j)} \<subseteq> indices (modifications m) \<union> indices (insertions m)"
proof -
  let ?prev = "map (updated_row c) prev"
  have "length ?prev < npos" using len by simp
  from calculate_sorted_ok [OF this K, of "next" changed] obtain m where
    m: "ccb_calculate K ?prev next changed None = Some m" "ccb_ok K m" "wf_changes ?prev next (abs_ccb m)"
      "indices (modifications m) \<subseteq> {j. j < length next \<and> changed (next ! j) \<and> next ! j \<in> set ?prev}"
      "{j. j < length next \<and> changed (next ! j)} \<subseteq> indices (modifications m) \<union> indices (insertions m)" by blast
  have "wf_changes (map ((!) old) prev) (map ((!) new) next) (abs_ccb m)"
  proof (rule wf_changes_rename [OF m(3)])
    fix i j assume ij: "i < length ?prev" "j < length next" "?prev ! i = next ! j"
    then have "prev ! i < length old" "next ! j < length new" using old(2) new(2) by simp_all
    with updated_row_new [OF c old(1) this(1)] ij new(1) show "map ((!) old) prev ! i = map ((!) new) next ! j" by auto
  qed simp_all
  then show ?thesis using m calculate_plain [OF m(1)] by (auto simp: change_from_def records_def)
qed

section \<open>Marking\<close>

lemma mark_changed_rep:
  assumes "\<forall>i \<in> set is. i < length rows"
  shows "rep K m M \<Longrightarrow> \<exists>m'. mark_changed K changed rows is m = Some m' \<and> rep K m' (M \<union> {i \<in> set is. changed (rows ! i)})"
  using assms
proof (induction "is" arbitrary: m M)
  case (Cons i js)
  have mem: "contains m i \<longleftrightarrow> i \<in> M" by (rule ixs.mem [OF Cons.prems(1)])
  have js: "\<forall>i \<in> set js. i < length rows" "i < length rows" using Cons.prems(2) by simp_all
  consider "i \<in> M" | "i \<notin> M" "changed (rows ! i)" | "i \<notin> M" "\<not> changed (rows ! i)" by blast
  then show ?case
  proof cases
    case 1
    then have "M \<union> {k \<in> set (i # js). changed (rows ! k)} = M \<union> {k \<in> set js. changed (rows ! k)}" by auto
    then show ?thesis using Cons.IH [OF Cons.prems(1) js(1)] 1 mem by simp
  next
    case 2
    from ixs.ins [OF Cons.prems(1), of i] obtain m1 where m1: "add K m i = Some m1" "rep K m1 (insert i M)" by blast
    have "M \<union> {k \<in> set (i # js). changed (rows ! k)} = insert i M \<union> {k \<in> set js. changed (rows ! k)}" using 2 by auto
    then show ?thesis using Cons.IH [OF m1(2) js(1)] 2 mem m1(1) js(2) by simp
  next
    case 3
    then have "M \<union> {k \<in> set (i # js). changed (rows ! k)} = M \<union> {k \<in> set js. changed (rows ! k)}" by auto
    then show ?thesis using Cons.IH [OF Cons.prems(1) js(1)] 3 mem js(2) by simp
  qed
qed auto

end
