(* ===== verification/Notify_Run_Props.thy ===== *)
theory Notify_Run_Props
  imports Notify_Run_Laws Log_Props
begin

text \<open>
  The properties of the notifiers' runs.  The first composes the parts: the transaction log read by the observer,
  the builder of the table, the check of linked rows, the comparison of the two results, and the record that is
  handed to the callbacks.
\<close>

section \<open>Results\<close>

text \<open>The function the notifiers get from \<open>get_modification_checker\<close>.  Its answers do not depend on earlier questions
  (\<open>ask_answers\<close>), so a row is asked of the checker as it was chosen.\<close>

definition row_did_change :: "nat \<Rightarrow> link_graph \<Rightarrow> ccb list \<Rightarrow> related_table list \<Rightarrow> size_t \<Rightarrow> size_t \<Rightarrow> bool" where
  "row_did_change K G ts rel root row =
     (case ask K G ts rel root row (choose_checker ts rel) of Some (b, rc) \<Rightarrow> b | None \<Rightarrow> False)"

lemma row_did_change_near:
  assumes "even K" "0 < K" "graph_ok G m" "t < m" "find_related_tables (Suc m) G [] t = Some rel"
    "link_target G t ` set (link_cols G t) \<noteq> {t}"
  shows "row_did_change K G ts rel t row \<longleftrightarrow> modified_near G ts t row"
proof -
  from find_related_tables_complete [OF assms(3,4)] assms(5) have
    rel: "distinct (map related_ndx rel)" "related_ndx ` set rel = (table_links G)\<^sup>* `` {t}"
      "\<forall>r \<in> set rel. links r = map (as_link G (related_ndx r)) (link_cols G (related_ndx r))" by (simp_all del: find_related_tables.simps)
  note own = single_table_own_links [OF rel(2) assms(6)]
  from ask_answers [OF assms(1,2) chosen_checker_ok, of G ts rel t row] show ?thesis
    using chosen_checker_answers [OF rel own, of ts row] by (auto simp: row_did_change_def)
qed


text \<open>The log of \<open>sample_log\<close>, on the persons of \<open>sample_graph\<close>: of the results 30, 20 the second is gone, 40 is new.\<close>

definition sample_results :: results_notifier where
  "sample_results = \<lparr>previous_rows = [2, 1], results_changes = ccb_init, in_table_order = False, last_seen_version = 1\<rparr>"


section \<open>Lists\<close>

text \<open>C35: The run of a list notifier keeps its record right and adds to the modified rows exactly those that lead to a changed
  object; the second loop, over the moves, reaches_change nothing that the first has left.\<close>

theorem list_run_correct:
  assumes "change_from K old rows (list_change ln)"
  shows "\<exists>m. list_run K changed (Some rows) ln =
      Some (ln\<lparr>list_change := (list_change ln)\<lparr>modifications := m\<rparr>, prev_size := length rows\<rparr>) \<and>
    mark_changed K changed rows [0..<length rows] (modifications (list_change ln)) = Some m \<and>
    change_from K old rows ((list_change ln)\<lparr>modifications := m\<rparr>) \<and>
    indices m = indices (modifications (list_change ln)) \<union> {i. i < length rows \<and> changed (rows ! i)}"
proof -
  let ?c = "list_change ln" and ?M = "indices (modifications (list_change ln))"
  have c: "ccb_ok K ?c" "wf_changes old rows (abs_ccb ?c)" "plain ?c" "?M \<subseteq> {..<length rows}"
    using assms by (simp_all add: change_from_def records_def)
  have r: "rep K (modifications ?c) ?M" using ok_rep(3) [OF c(1)] by (simp add: abs_ccb_def)
  have "\<forall>i \<in> set [0..<length rows]. i < length rows" by simp
  from mark_changed_rep [OF this r] obtain m where
    m: "mark_changed K changed rows [0..<length rows] (modifications ?c) = Some m"
      "rep K m (?M \<union> {i. i < length rows \<and> changed (rows ! i)})" by auto
  have t: "tracks old rows (s_del (abs_ccb ?c)) (s_ins (abs_ccb ?c))" using c(2) by (simp add: wf_changes_def describes_def)
  have to: "\<forall>i \<in> set (map mv_to (moves ?c)). i < length rows"
    using c(2) wf_bounds(2) [OF t] by (auto simp: wf_changes_def moves_ok_def)
  have again: "mark_changed K changed rows is m = Some m" if "\<forall>i \<in> set is. i < length rows" for "is"
    using that
  proof (induction "is")
    case (Cons i js)
    have "contains m i \<longleftrightarrow> i \<in> ?M \<union> {i. i < length rows \<and> changed (rows ! i)}" by (rule ixs.mem [OF m(2)])
    then show ?case using Cons by auto
  qed simp
  have "ccb_ok K (?c\<lparr>modifications := m\<rparr>)" using c(1) m(2) by (simp add: ccb_ok_def rep_def)
  moreover have "wf_changes old rows (abs_ccb (?c\<lparr>modifications := m\<rparr>))"
    using c(2) by (simp add: wf_changes_def describes_def abs_ccb_def)
  ultimately have "change_from K old rows (?c\<lparr>modifications := m\<rparr>)"
    using c(3,4) m(2) by (auto simp: change_from_def records_def plain_def rep_def)
  then show ?thesis using m again [OF to] by (simp add: list_run_def rep_def)
qed

theorem list_run_correct_witness:
  "\<exists>m. list_run 4 (\<lambda>r. r = 20) (Some [20]) \<lparr>prev_size = 2, list_change = first_removed\<rparr> =
      Some \<lparr>prev_size = 1, list_change = first_removed\<lparr>modifications := m\<rparr>\<rparr> \<and> indices m = {0}"
proof -
  have "change_from 4 [10, 20 :: nat] [20] (list_change \<lparr>prev_size = 2, list_change = first_removed\<rparr>)"
    using first_removed_change by simp
  moreover have "indices (modifications first_removed) = {}"
    by (simp add: first_removed_def ccb_init_def indices_def flat_def)
  moreover have "{i. i < Suc 0 \<and> [20 :: nat] ! i = 20} = {0}" by auto
  ultimately show ?thesis
    using list_run_correct [of 4 "[10, 20 :: nat]" "[20]" "\<lparr>prev_size = 2, list_change = first_removed\<rparr>" "\<lambda>r. r = 20"] by auto
qed


section \<open>Objects\<close>

text \<open>The notifier of an object that is still there reports it as modified exactly when its row was.\<close>

theorem object_run_correct:
  assumes "ccb_ok K c" "t < length (tables info)" "tables info ! t = c" "even K" "0 < K"
  shows "\<exists>change. object_run K info (Row_At t row) ccb_init = Some (Row_At t row, change) \<and>
    indices (modifications change) = (if row_modified (tables info) t row then {0} else {}) \<and>
    deletions change = [] \<and> insertions change = [] \<and>
    (\<forall>k < length (columns change). indices (columns change ! k) =
       (if row \<in> indices (columns c ! k) then {0} else {})) \<and>
    (row_modified (tables info) t row \<longrightarrow> length (columns change) = length (columns c))"
proof -
  have one: "\<exists>s. add K [] 0 = Some s \<and> indices s = {0}"
    using ixs.ins [OF rep_Nil [OF assms(4,5)], of 0] by (auto simp: rep_def)
  have cols: "\<exists>ss. object_columns K row cs = Some ss \<and> length ss = length cs \<and>
      (\<forall>k < length cs. indices (ss ! k) = (if row \<in> indices (cs ! k) then {0} else {}))"
    if "\<forall>s \<in> set cs. vec_ok K s" for cs
    using that
  proof (induction cs)
    case (Cons s cs)
    have "contains s row \<longleftrightarrow> row \<in> indices s" using Cons.prems ixs.mem [of K s "indices s" row] by (simp add: rep_def)
    then obtain s1 where s1: "(if contains s row then add K [] 0 else Some []) = Some s1"
      "indices s1 = (if row \<in> indices s then {0} else {})" using one by (cases "contains s row") (auto simp: indices_def flat_def)
    from Cons obtain ss where "object_columns K row cs = Some ss" "length ss = length cs"
      "\<forall>k < length cs. indices (ss ! k) = (if row \<in> indices (cs ! k) then {0} else {})" by auto
    with s1 show ?case by (intro exI [of _ "s1 # ss"]) (auto simp: nth_Cons split: nat.splits)
  qed simp
  have ok: "\<forall>s \<in> set (columns c). vec_ok K s" using assms(1) by (simp add: ccb_ok_def)
  have "indices [] = {}" by (simp add: indices_def flat_def)
  then show ?thesis using assms(2,3) one cols [OF ok]
    by (cases "row_modified (tables info) t row") (auto simp: object_run_def row_modified_def Let_def ccb_init_def)
qed

end
