(* ===== verification/Notify_Package.thy ===== *)
theory Notify_Package
  imports Notify_Callbacks
begin

text \<open>
  \<open>NotifierPackage\<close> of \<open>impl/collection_notifier.cpp\<close>: the notifiers of one Realm, packaged for a version
  and then told together.  A notifier comes with the version it can deliver into.  The wait for the
  worker thread is over when \<open>package_ready\<close> holds; \<open>package_and_wait\<close> is what follows it.  The tables views that
  \<open>deliver\<close> hands to the results belong to the core.
\<close>

record package =
  package_version :: "nat option"
  package_notifiers :: "(collection_notifier \<times> nat) list"
  has_coordinator :: bool
  package_error :: bool

definition package_ready :: "nat option \<Rightarrow> package \<Rightarrow> bool" where
  "package_ready target p \<longleftrightarrow> (case target of None \<Rightarrow> True
     | Some v \<Rightarrow> list_all (\<lambda>q. \<not> have_callbacks (fst q) \<or> has_run (fst q) \<and> v \<le> snd q) (package_notifiers p))"

text \<open>\<open>std::remove_if\<close> with \<open>package\<close>; \<open>delivers\<close> is what \<open>prepare_to_deliver\<close> returns.\<close>

fun package_all :: "nat \<Rightarrow> (collection_notifier \<Rightarrow> bool) \<Rightarrow> (collection_notifier \<times> nat) list \<Rightarrow> nat option \<Rightarrow>
    ((collection_notifier \<times> nat) list \<times> nat option) option" where
  "package_all K delivers [] version = Some ([], version)"
| "package_all K delivers ((n, v) # ns) version =
     (if \<not> has_run n then package_all K delivers ns version
      else do { (kept, n') \<leftarrow> package_for_delivery K (delivers n) n;
                if kept
                then do { (ns', version') \<leftarrow> package_all K delivers ns (Some v); Some ((n', v) # ns', version') }
                else package_all K delivers ns version })"

definition package_and_wait :: "nat \<Rightarrow> (collection_notifier \<Rightarrow> bool) \<Rightarrow> nat option \<Rightarrow> package \<Rightarrow> package option" where
  "package_and_wait K delivers target p =
     (if \<not> has_coordinator p \<or> package_error p \<or> package_notifiers p = [] then Some p
      else do { (ns, version) \<leftarrow> package_all K delivers (package_notifiers p) (package_version p);
                let early = (case (version, target) of (Some v, Some t) \<Rightarrow> v < t | _ \<Rightarrow> False);
                    p' = p\<lparr>package_notifiers := (if early then [] else ns), package_version := (if early then None else version)\<rparr>
                in if package_version p' = None \<and> package_notifiers p' \<noteq> [] then None
                   else Some (p'\<lparr>has_coordinator := False\<rparr>) })"

text \<open>The same operation on every notifier, with the calls it makes.\<close>

fun tell_all :: "(collection_notifier \<Rightarrow> (collection_notifier \<times> callback_event list) option) \<Rightarrow>
    (collection_notifier \<times> nat) list \<Rightarrow> ((collection_notifier \<times> nat) list \<times> callback_event list) option" where
  "tell_all f [] = Some ([], [])"
| "tell_all f ((n, v) # ns) =
     do { (n', es) \<leftarrow> f n; (ns', es') \<leftarrow> tell_all f ns; Some ((n', v) # ns', es @ es') }"

definition tell_package :: "(collection_notifier \<Rightarrow> (collection_notifier \<times> callback_event list) option) \<Rightarrow>
    package \<Rightarrow> (package \<times> callback_event list) option" where
  "tell_package f p = do { (ns, es) \<leftarrow> tell_all f (package_notifiers p); Some (p\<lparr>package_notifiers := ns\<rparr>, es) }"

definition package_before_advance :: "nat \<Rightarrow> (callback_event \<Rightarrow> registry_action list) \<Rightarrow> package \<Rightarrow>
    (package \<times> callback_event list) option" where
  "package_before_advance fuel body p = (if package_error p then Some (p, []) else tell_package (before_advance fuel body) p)"

definition package_deliver :: "nat \<Rightarrow> (callback_event \<Rightarrow> registry_action list) \<Rightarrow> package \<Rightarrow>
    (package \<times> callback_event list) option" where
  "package_deliver fuel body p = (if package_error p then tell_package (deliver_error fuel body) p else Some (p, []))"

definition package_after_advance :: "nat \<Rightarrow> (callback_event \<Rightarrow> registry_action list) \<Rightarrow> package \<Rightarrow>
    (package \<times> callback_event list) option" where
  "package_after_advance fuel body p = (if package_error p then Some (p, []) else tell_package (after_advance fuel body) p)"

section \<open>Packaging\<close>

text \<open>The version is that of the last notifier kept, so the assertion at the end of packaging holds when there is one.\<close>

lemma package_all_version:
  "package_all K delivers ns version = Some (ns', version') \<Longrightarrow>
   version' = (if ns' = [] then version else Some (snd (last ns')))"
proof (induction K delivers ns version arbitrary: ns' version' rule: package_all.induct)
  case (2 K delivers n v ns version)
  then show ?case by (fastforce split: if_splits bind_splits prod.splits)
qed auto

text \<open>A package that still has notifiers has a version, not older than the one asked for; no assertion fails when the packaging
  of each notifier succeeds.\<close>

lemma package_and_wait_version:
  assumes "has_coordinator p" "\<not> package_error p" "package_notifiers p \<noteq> []" "package_version p = None"
    "package_all K delivers (package_notifiers p) None \<noteq> None"
  shows "\<exists>p'. package_and_wait K delivers target p = Some p' \<and> \<not> has_coordinator p' \<and>
    (package_notifiers p' \<noteq> [] \<longrightarrow> (\<exists>v. package_version p' = Some v \<and> (\<forall>t. target = Some t \<longrightarrow> t \<le> v)))"
proof -
  obtain ns version where a: "package_all K delivers (package_notifiers p) None = Some (ns, version)" using assms(5) by auto
  have v: "version = (if ns = [] then None else Some (snd (last ns)))" by (rule package_all_version [OF a])
  show ?thesis
  proof (cases "ns = []")
    case True
    then show ?thesis using assms a v by (auto simp: package_and_wait_def Let_def)
  next
    case False
    then show ?thesis using assms a v by (cases target) (auto simp: package_and_wait_def Let_def)
  qed
qed

end
