(* ===== verification/Spec2Isabelle.thy ===== *)
theory Spec2Isabelle
  imports Index_Set_Bulk_Props Change_Props Change_Calc_Props Schema_Props Store_Props
    Sync_File_Props Sync_Progress_Props Sync_Connection Sync_Session_Props
    Log_Props Log_Kvo_Props Notify_Run_Props Notify_Package
begin

text \<open>
  Verification of the core of Realm's ObjectStore.

  The repository is an iOS application whose storage is Realm.  Its C++ code that is not third-party is the ObjectStore, in
  \<open>src/Carthage/Checkouts/realm-cocoa/Realm/ObjectStore/src/\<close>: the layer between the database core (a library that is
  not in the repository) and the language bindings.  File names below are relative to that directory.  The development models
  three groups of its components, which meet as follows.  When a transaction ends, the changes of a collection are collected
  by the change builder in index sets, worked out for each observed collection by its notifier, and told to its callbacks.  When a file is opened, its schema is
  read, compared with the schema of the application, verified and updated.  When the file is synchronised, its name and its
  session are managed by the sync components.

  Part 1, change notifications.
  \<^item> \<open>Range_Vector\<close> (\<open>ChunkedRangeVector\<close>) and \<open>Index_Set\<close>, \<open>Index_Set_Bulk\<close> (\<open>IndexSet\<close>): \<open>index_set.hpp\<close> and
    \<open>index_set.cpp\<close>.  A set of indices is a list of chunks, each with its ranges and the cached begin, end and count; an
    iterator is a pair of positions.  The laws in \<open>Index_Set_Laws\<close>, \<open>Index_Set_Edit\<close>, \<open>Index_Set_Erase\<close>,
    \<open>Index_Set_Remove\<close>, \<open>Index_Set_Rank\<close>, \<open>Index_Set_Bulk_Laws\<close> and \<open>Index_Set_Bulk_Sets\<close> show that each operation keeps
    the representation (the code's own \<open>verify\<close>) and what it does to the set; the properties are in \<open>Index_Set_Props\<close> and
    \<open>Index_Set_Bulk_Props\<close>.  \<open>Index_Set_Contract\<close> states what clients use as a locale and interprets it on the model.
  \<^item> \<open>Change_Builder\<close> and \<open>Change_Calc\<close>: \<open>impl/collection_change_builder.cpp\<close>.  \<open>Change_Spec\<close> and \<open>Change_Spec_Moves\<close> are
    the abstract change record on plain sets and the simulation of the builder by it; \<open>Change_Laws\<close>, \<open>Change_Rows\<close> and
    \<open>Change_Merge\<close> say what a record means for the old and the new rows; \<open>Change_Calc_Lcs\<close> and \<open>Change_Calc_Laws\<close> are about
    the longest common subsequence and \<open>calculate\<close>.  Properties: \<open>Change_Props\<close>, \<open>Change_Calc_Props\<close>.
  \<^item> \<open>Log_Info\<close>, \<open>Log_Handler\<close>, \<open>Log_Kvo\<close>: \<open>impl/transact_log_handler.cpp\<close>.  The parser of the core calls one handler
    per instruction of a transaction log; a log is a list of \<open>instr\<close>, and \<open>observe\<close> dispatches to the handlers of
    \<open>TransactLogObserver\<close>, \<open>validate_instr\<close> to those of \<open>TransactLogValidator\<close>.  The record \<open>observer\<close> has the fields of the
    class; its pointers to builders are positions, and one that a growing vector has invalidated is \<open>Stale\<close>.  \<open>Log_Kvo\<close> is
    the adapter that tells the observers of single objects what happened to them.  \<open>Log_Rows\<close> gives the effect of the row
    instructions on a table (\<open>row_effect\<close>) and \<open>Log_Laws\<close> follows the builder through a log; \<open>Log_Lists\<close> follows the
    tracked lists, with one locale, \<open>relocation\<close>, for the three ways rows change places; \<open>Log_Schema\<close> follows tables and
    columns.  Properties: \<open>Log_Props\<close>, \<open>Log_Kvo_Props\<close>.
  \<^item> \<open>Notify_Deep\<close> (\<open>DeepChangeChecker\<close> of \<open>impl/collection_notifier.cpp\<close>): whether a row or one it links to was modified.
    The links are a parameter, the record \<open>link_graph\<close>; a table is its position.  \<open>Notify_Reach\<close> shows what the search with
    its path and its memory computes, \<open>Notify_Related\<close> which tables are collected; properties: \<open>Notify_Deep_Props\<close>.
  \<^item> \<open>Notify_Callbacks\<close> (\<open>CollectionNotifier\<close>) and \<open>Notify_Package\<close> (\<open>NotifierPackage\<close>): registered callbacks, the changes each
    has accumulated, and the loops that call them.  \<open>Notify_Callback_Props\<close> takes the loops turn by turn, \<open>Notify_Versions\<close>
    follows the accumulated changes from version to version (\<open>change_from\<close>, \<open>tells\<close>).
  \<^item> \<open>Notify_Runs\<close> (\<open>impl/results_notifier.cpp\<close>, \<open>impl/list_notifier.cpp\<close>, \<open>impl/primitive_list_notifier.cpp\<close>,
    \<open>impl/object_notifier.cpp\<close>): what each kind of notifier asks of the observer, and the changes it works out.
    \<open>Notify_Run_Laws\<close> and \<open>Notify_Run_Props\<close> compose the whole of Part 1: from the log of a transaction to the record
    that the callbacks of a query's results accumulate.

  Part 2, schemas and files.
  \<^item> \<open>Schema_Types\<close> (\<open>property.hpp\<close>, \<open>object_schema.hpp\<close>), \<open>Schema_Model\<close> (\<open>object_schema.cpp\<close>, \<open>schema.cpp\<close>),
    \<open>Schema_Verify\<close> (the verifiers of \<open>object_store.cpp\<close>).  \<open>Schema_Laws\<close>, \<open>Schema_Diff\<close> and \<open>Schema_Valid\<close> give the order
    and the meaning of a comparison and what validation accepts; properties: \<open>Schema_Props\<close>.
  \<^item> \<open>Object_Store\<close> and \<open>Schema_Apply\<close>: the operations of \<open>object_store.cpp\<close> on a file.  The database core is the parameter
    \<open>'g core\<close>, a record of calls on a state \<open>'g\<close>; \<open>Core_Laws\<close> states, as \<open>core_ok\<close>, the documented effect of each call on
    what the code can read of the file, and gives an instance.  \<open>Store_Laws\<close>, \<open>Store_Init\<close>, \<open>Store_Additive\<close> and
    \<open>Store_Rename\<close> follow the updates through the file; properties: \<open>Store_Props\<close>.

  Part 3, synchronisation.
  \<^item> \<open>Sync_File\<close> (\<open>sync/impl/sync_file.cpp\<close>): percent encoding, paths and the file manager.  The file system is a parameter:
    a record of calls that take a state and return the new state with a value or a failure, and the operations of the manager
    are composed with \<open>and_then\<close>, which stops at the first failure, and \<open>catch_file\<close>, which is \<open>try\<close> and \<open>catch\<close>.
    \<open>Sync_File_Laws\<close> relates the decoder to the encoder and takes paths apart; properties: \<open>Sync_File_Props\<close>.
  \<^item> \<open>Sync_Config\<close> (\<open>sync/sync_config.hpp\<close>, \<open>sync/sync_config.cpp\<close>): configurations and errors.
  \<^item> \<open>Sync_Progress\<close> and \<open>Sync_Connection\<close> (\<open>sync/sync_session.cpp\<close>, \<open>SyncProgressNotifier\<close> and
    \<open>ConnectionChangeNotifier\<close>): registered callbacks, the calls they get, and the loop that calls callbacks which may
    register and remove callbacks.  Amounts, tokens and positions are 64-bit words.  \<open>Sync_Progress_Props\<close> reduces any run to
    what happens to one package.
  \<^item> \<open>Sync_Session\<close> and \<open>Sync_Session_Ops\<close> (\<open>sync/sync_session.cpp\<close>, \<open>SyncSession\<close>): the record \<open>sync_session\<close> has the fields
    of the class, one definition per operation dispatches on the state as the code's virtual calls do, and \<open>world\<close> adds what
    surrounds a session: the handlers its session objects may still call, errors whose report waits for the lock, and the
    events it has caused.  The inductive \<open>step\<close> has one kind of action per operation and per reaction of the sync client, and
    \<open>run\<close> closes it; the reachable worlds are those of a run from a new session.  \<open>Sync_Session_Laws\<close> shows that every action
    keeps \<open>session_ok\<close>, \<open>Sync_Session_Steps\<close> which actions return; properties: \<open>Sync_Session_Props\<close>.

  Conventions.  A failed assertion, a null pointer that is dereferenced and a read out of bounds are \<open>None\<close> (or a failure of
  their own in Part 3), an exception is a value of a sum type.  \<open>size_t\<close> is \<open>nat\<close> where the code only counts elements in memory
  and \<open>64 word\<close> where wrap-around is part of the behaviour.  \<open>Prelude\<close> holds the vocabulary that all parts share.

  Bounds and fuel.  \<open>K\<close> is the capacity of a chunk, any number above one, with the debug and release capacities as instances.
  Loops are structural recursion or have a termination proof.  The deep search has four levels, as in the code; the
  recursion of \<open>find_related_tables\<close> takes a bound, and one more than the number of tables is enough
  (\<open>related_tables_correct\<close>); \<open>for_each_callback\<close> takes a number of rounds, and more than the number of callbacks is
  enough (\<open>changes_delivered_once\<close>).  \<open>invoke_callbacks\<close> takes a number of rounds: one more than the
  number of callbacks is enough (\<open>invoke_callbacks_in_turn\<close>).  \<open>update_configuration\<close> takes the list of what other threads
  do while the lock is released, and ends for every such list (\<open>update_configuration_installs\<close>).

  What is assumed of code that is not in the repository.  Of the database core: \<open>core_ok\<close>.  Of the links between rows:
  that they stay in the file (\<open>graph_ok\<close>).  Of the file system: nothing; each call may fail.  Of the session object of the
  sync library: that it reports the connection and progress only while it is owned, and calls each completion handler it
  was given at most once; it may call it late, after it was destroyed, and with any code.  Operations on a session are
  atomic as far as they hold its lock; user callbacks are events and do not call back into the session, except in
  \<open>Sync_Connection\<close> and \<open>Notify_Callbacks\<close>, where they act on the notifier, and in \<open>update_configuration\<close>.

  Not modelled.  Results, lists, objects and their accessors, the Realm class with its coordinator,
  partial sync, users, permissions and metadata of sync and the server adapter are calls on the query engine, the accessors
  and the transaction machinery of the core, whose source is not here, with little logic that could be stated without a model
  of it.  The parser of transaction logs belongs to the core; its handlers are in Part 1.
  Platform code (pipes, semaphores, the keychain, event loops) consists of system calls.  The JSON and test libraries are
  third-party code, and the application itself is not C++.
\<close>

end
